(* ===== verification/Stdx_Prelude.thy ===== *)
theory Stdx_Prelude
  imports Main "HOL-Library.Word" "HOL-Library.Monad_Syntax"
begin

text \<open>
  The prelude of the stdx development: the vocabulary in which the Rust sources are
  transcribed, and the lemmas every component shares.

  \<^item> Machine integers are words (\<open>byte\<close>, \<open>u16\<close>, \<open>u32\<close>, \<open>u64\<close>, \<open>u128\<close>);
    a \<open>usize\<close> is a \<open>nat\<close> with the checked operations of a 64-bit target written out.
  \<^item> A Rust \<open>Result<T, E>\<close> is \<open>('e, 'a) result\<close>: \<open>Ok\<close> and \<open>Err\<close>.
  \<^item> A call that may panic returns an \<open>option\<close> whose \<open>None\<close> is the panic (an index out
    of bounds, an \<open>unwrap\<close> of an error); it is composed with the option monad.
  \<^item> A mutable slice is a list that is passed in and returned; \<open>slice_get\<close> and
    \<open>slice_set\<close> are the bounds-checked accesses.
  \<^item> \<open>while_upto\<close> is the shape of the index loops of the sources
    (\<open>while i + g <= len { ...; i += k; }\<close>), with one total-correctness rule.
  \<^item> \<open>byte_all\<close> reduces a statement on every byte to 256 evaluations in the kernel.
\<close>

section \<open>Machine types, results and panics\<close>

unbundle bit_operations_syntax

type_synonym byte = "8 word"
type_synonym u16 = "16 word"
type_synonym u32 = "32 word"
type_synonym u64 = "64 word"
type_synonym u128 = "128 word"

type_synonym ('e, 'a) result = "'e + 'a"

abbreviation Ok :: "'a \<Rightarrow> ('e, 'a) result" where
  "Ok \<equiv> Inr"

abbreviation Err :: "'e \<Rightarrow> ('e, 'a) result" where
  "Err \<equiv> Inl"

named_theorems codec_simps \<open>the closed forms of the slice and block operations\<close>

text \<open>\<open>Result::unwrap\<close> and \<open>Option::unwrap\<close>: the error is a panic.\<close>

definition result_unwrap :: "('e, 'a) result \<Rightarrow> 'a option" where
  "result_unwrap r = (case r of Ok a \<Rightarrow> Some a | Err e \<Rightarrow> None)"

lemma result_unwrap_simps [simp]:
  "result_unwrap (Ok a) = Some a"
  "result_unwrap (Err e) = None"
  by (simp_all add: result_unwrap_def)

definition usize_limit :: nat where
  "usize_limit = 2 ^ 64"

definition checked_mul :: "nat \<Rightarrow> nat \<Rightarrow> nat option" where
  "checked_mul a b = (if a * b < usize_limit then Some (a * b) else None)"

definition checked_add :: "nat \<Rightarrow> nat \<Rightarrow> nat option" where
  "checked_add a b = (if a + b < usize_limit then Some (a + b) else None)"

text \<open>The limit in binary, for evaluation.\<close>

lemma checked_mul_code [code]:
  "checked_mul a b = (if int a * int b < 0x10000000000000000 then Some (a * b) else None)"
proof -
  have "int a * int b < 0x10000000000000000 \<longleftrightarrow> int (a * b) < int usize_limit" by (simp add: usize_limit_def)
  then show ?thesis by (simp only: checked_mul_def of_nat_less_iff)
qed

lemma checked_add_code [code]:
  "checked_add a b = (if int a + int b < 0x10000000000000000 then Some (a + b) else None)"
proof -
  have "int a + int b < 0x10000000000000000 \<longleftrightarrow> int (a + b) < int usize_limit" by (simp add: usize_limit_def)
  then show ?thesis by (simp only: checked_add_def of_nat_less_iff)
qed

lemma checked_mul_eq_Some [simp]:
  "checked_mul a b = Some c \<longleftrightarrow> c = a * b \<and> a * b < usize_limit"
  by (auto simp: checked_mul_def)

lemma checked_add_eq_Some [simp]:
  "checked_add a b = Some c \<longleftrightarrow> c = a + b \<and> a + b < usize_limit"
  by (auto simp: checked_add_def)

text \<open>The byte of an ASCII character: Rust's \<open>b'x'\<close> literals.\<close>

definition ascii :: "char \<Rightarrow> byte" where
  "ascii c = of_char c"

lemma ascii_simps [simp, code_unfold]:
  "ascii CHR '' '' = 0x20"
  "ascii CHR ''!'' = 0x21"
  "ascii CHR 0x22 = 0x22"
  "ascii CHR ''#'' = 0x23"
  "ascii CHR ''$'' = 0x24"
  "ascii CHR ''%'' = 0x25"
  "ascii CHR ''&'' = 0x26"
  "ascii CHR 0x27 = 0x27"
  "ascii CHR ''('' = 0x28"
  "ascii CHR '')'' = 0x29"
  "ascii CHR ''*'' = 0x2A"
  "ascii CHR ''+'' = 0x2B"
  "ascii CHR '','' = 0x2C"
  "ascii CHR ''-'' = 0x2D"
  "ascii CHR ''.'' = 0x2E"
  "ascii CHR ''/'' = 0x2F"
  "ascii CHR ''0'' = 0x30"
  "ascii CHR ''1'' = 0x31"
  "ascii CHR ''2'' = 0x32"
  "ascii CHR ''3'' = 0x33"
  "ascii CHR ''4'' = 0x34"
  "ascii CHR ''5'' = 0x35"
  "ascii CHR ''6'' = 0x36"
  "ascii CHR ''7'' = 0x37"
  "ascii CHR ''8'' = 0x38"
  "ascii CHR ''9'' = 0x39"
  "ascii CHR '':'' = 0x3A"
  "ascii CHR '';'' = 0x3B"
  "ascii CHR ''<'' = 0x3C"
  "ascii CHR ''='' = 0x3D"
  "ascii CHR ''>'' = 0x3E"
  "ascii CHR ''?'' = 0x3F"
  "ascii CHR ''@'' = 0x40"
  "ascii CHR ''A'' = 0x41"
  "ascii CHR ''B'' = 0x42"
  "ascii CHR ''C'' = 0x43"
  "ascii CHR ''D'' = 0x44"
  "ascii CHR ''E'' = 0x45"
  "ascii CHR ''F'' = 0x46"
  "ascii CHR ''G'' = 0x47"
  "ascii CHR ''H'' = 0x48"
  "ascii CHR ''I'' = 0x49"
  "ascii CHR ''J'' = 0x4A"
  "ascii CHR ''K'' = 0x4B"
  "ascii CHR ''L'' = 0x4C"
  "ascii CHR ''M'' = 0x4D"
  "ascii CHR ''N'' = 0x4E"
  "ascii CHR ''O'' = 0x4F"
  "ascii CHR ''P'' = 0x50"
  "ascii CHR ''Q'' = 0x51"
  "ascii CHR ''R'' = 0x52"
  "ascii CHR ''S'' = 0x53"
  "ascii CHR ''T'' = 0x54"
  "ascii CHR ''U'' = 0x55"
  "ascii CHR ''V'' = 0x56"
  "ascii CHR ''W'' = 0x57"
  "ascii CHR ''X'' = 0x58"
  "ascii CHR ''Y'' = 0x59"
  "ascii CHR ''Z'' = 0x5A"
  "ascii CHR ''['' = 0x5B"
  "ascii CHR 0x5C = 0x5C"
  "ascii CHR '']'' = 0x5D"
  "ascii CHR ''^'' = 0x5E"
  "ascii CHR ''_'' = 0x5F"
  "ascii CHR 0x60 = 0x60"
  "ascii CHR ''a'' = 0x61"
  "ascii CHR ''b'' = 0x62"
  "ascii CHR ''c'' = 0x63"
  "ascii CHR ''d'' = 0x64"
  "ascii CHR ''e'' = 0x65"
  "ascii CHR ''f'' = 0x66"
  "ascii CHR ''g'' = 0x67"
  "ascii CHR ''h'' = 0x68"
  "ascii CHR ''i'' = 0x69"
  "ascii CHR ''j'' = 0x6A"
  "ascii CHR ''k'' = 0x6B"
  "ascii CHR ''l'' = 0x6C"
  "ascii CHR ''m'' = 0x6D"
  "ascii CHR ''n'' = 0x6E"
  "ascii CHR ''o'' = 0x6F"
  "ascii CHR ''p'' = 0x70"
  "ascii CHR ''q'' = 0x71"
  "ascii CHR ''r'' = 0x72"
  "ascii CHR ''s'' = 0x73"
  "ascii CHR ''t'' = 0x74"
  "ascii CHR ''u'' = 0x75"
  "ascii CHR ''v'' = 0x76"
  "ascii CHR ''w'' = 0x77"
  "ascii CHR ''x'' = 0x78"
  "ascii CHR ''y'' = 0x79"
  "ascii CHR ''z'' = 0x7A"
  "ascii CHR ''{'' = 0x7B"
  "ascii CHR ''|'' = 0x7C"
  "ascii CHR ''}'' = 0x7D"
  "ascii CHR ''~'' = 0x7E"
  by (simp_all add: ascii_def)

definition ascii_bytes :: "string \<Rightarrow> byte list" where
  "ascii_bytes s = map ascii s"

lemma ascii_bytes_simps [simp]:
  "ascii_bytes [] = []"
  "ascii_bytes (c # s) = ascii c # ascii_bytes s"
  "length (ascii_bytes s) = length s"
  by (simp_all add: ascii_bytes_def)

section \<open>Statements on every byte\<close>

definition byte_all :: "(byte \<Rightarrow> bool) \<Rightarrow> bool" where
  "byte_all P = list_all (\<lambda>k. P (word_of_int k)) [0..255]"

lemma unat_byte_less [simp]: "unat (x :: byte) < 256"
  using unsigned_less [of x] by simp

lemma uint_byte_range: "uint (x :: byte) \<in> {0..255}"
  using uint_range_size [of x] by (simp add: word_size)

lemma byte_allD: "byte_all P \<Longrightarrow> P x"
proof -
  assume "byte_all P"
  then have "\<forall>k \<in> {0..255}. P (word_of_int k)"
    by (simp add: byte_all_def list_all_iff)
  then have "P (word_of_int (uint x))" using uint_byte_range by blast
  then show ?thesis by simp
qed

text \<open>The same for the bytes below a bound: the values of a nibble, a quintet or a sextet.\<close>

lemma byte_less_all:
  assumes "list_all (\<lambda>k. P (word_of_int k)) [0..m]" and "uint (x :: byte) \<le> m"
  shows "P x"
proof -
  from assms(1) have "\<forall>k \<in> {0..m}. P (word_of_int k)"
    by (simp add: list_all_iff)
  moreover have "uint x \<in> {0..m}" using assms(2) by simp
  ultimately have "P (word_of_int (uint x))" by blast
  then show ?thesis by simp
qed

text \<open>A statement on every entry of a table indexed by a byte, in one pass over the table.\<close>

lemma byte_table_all:
  assumes "list_all (\<lambda>(k, v). P (word_of_int k) v) (zip [0..255] table)" and "length table = 256"
  shows "P x (table ! unat (x :: byte))"
proof -
  have "[0..255] ! unat x = int (unat x)" using uint_byte_range [of x] by (subst nth_upto) simp_all
  then have "(int (unat x), table ! unat x) \<in> set (zip [0..255] table)"
    using assms(2) by (auto simp: set_zip intro!: exI [of _ "unat x"])
  with assms(1) have "P (word_of_int (int (unat x))) (table ! unat x)" by (auto simp: list_all_iff)
  then show ?thesis by simp
qed

lemma byte_and_le: "uint ((x :: byte) AND m) \<le> uint m"
  by (simp add: uint_and)

text \<open>
  The branch-free range check of the codecs: the sign bit of \<open>(v - lo) | (hi - v)\<close>,
  spread over the byte, is clear exactly on \<open>lo..=hi\<close> (for a range of at most 128 values).
\<close>

lemma signed_drop_bit_7: "signed_drop_bit 7 (x :: byte) = (if 128 \<le> unat x then - 1 else 0)"
proof -
  have "byte_all (\<lambda>x. signed_drop_bit 7 x = (if 128 \<le> x then - 1 else 0))" by code_simp
  from byte_allD [OF this, of x] show ?thesis by (simp add: word_le_nat_alt)
qed

lemma or_high_bit: "128 \<le> unat ((x :: byte) OR y) \<longleftrightarrow> 128 \<le> unat x \<or> 128 \<le> unat y"
proof -
  have high: "128 \<le> unat z \<longleftrightarrow> bit z 7" for z :: byte
  proof -
    have "byte_all (\<lambda>z. (128 \<le> z) = bit z 7)" by code_simp
    from byte_allD [OF this, of z] show ?thesis by (simp add: word_le_nat_alt)
  qed
  show ?thesis by (simp add: high bit_or_iff)
qed

lemma sign_range_check:
  assumes "unat lo \<le> unat hi" and "unat hi < unat lo + 128"
  shows "signed_drop_bit 7 ((v - lo) OR (hi - v :: byte)) = (if lo \<le> v \<and> v \<le> hi then 0 else - 1)"
proof -
  have "(128 \<le> unat (v - lo) \<or> 128 \<le> unat (hi - v)) = (\<not> (lo \<le> v \<and> v \<le> hi))"
    using assms unat_byte_less [of v] unat_byte_less [of lo] unat_byte_less [of hi]
    by (auto simp: unat_sub_if' word_le_nat_alt)
  then show ?thesis by (simp add: signed_drop_bit_7 or_high_bit)
qed

lemma sign_range_check_code:
  "signed_drop_bit 7 ((v - lo) OR (hi - v :: byte)) = (if 128 \<le> v - lo \<or> 128 \<le> hi - v then 255 else 0)"
  by (simp add: signed_drop_bit_7 or_high_bit word_le_nat_alt)

text \<open>Joining two bit fields: the high field shifted over the low one.\<close>

lemma unat_push_or:
  assumes "unat (x :: byte) * 2 ^ k < 256" and "unat (y :: byte) < 2 ^ k" and "k \<le> 8"
  shows "unat (push_bit k x OR y) = unat x * 2 ^ k + unat y"
proof -
  have "\<not> bit y n" if "k \<le> n" for n
    using assms(2) that by (metis bit_take_bit_iff not_le take_bit_nat_eq_self unsigned_take_bit_eq
        word_unat_eq_iff)
  then have disj: "push_bit k x + y = push_bit k x OR y"
    by (intro disjunctive_add) (auto simp: bit_push_bit_iff)
  have push: "unat (push_bit k x) = unat x * 2 ^ k"
    using assms(1) by (simp add: unsigned_push_bit_eq take_bit_eq_mod push_bit_nat_def)
  have "2 ^ k dvd (256 :: nat)" using le_imp_power_dvd [of k 8 "2 :: nat"] assms(3) by simp
  then obtain m :: nat where "256 = 2 ^ k * m" by (elim dvdE)
  then have m: "256 = m * 2 ^ k" by (simp only: mult.commute)
  from assms(1) have "unat x * 2 ^ k < m * 2 ^ k" by (simp only: m)
  then have "unat x < m" by simp
  then have "Suc (unat x) * 2 ^ k \<le> m * 2 ^ k" by (intro mult_le_mono1) simp
  with m assms(2) have "unat x * 2 ^ k + unat y < 256" by simp
  then show ?thesis by (simp flip: disj) (simp add: unat_word_ariths push)
qed

lemma unat_and_mask_mod: "unat ((v :: byte) AND mask k) = unat v mod 2 ^ k"
proof -
  have "v AND mask k = take_bit k v" by (simp add: take_bit_eq_mask)
  then have "unat (v AND mask k) = take_bit k (unat v)" by (simp only: unsigned_take_bit_eq)
  then show ?thesis by (simp only: take_bit_eq_mod)
qed

lemma div_mod_field:
  fixes a b c m k :: nat
  assumes "c < m" and "b < k"
  shows "(a * (k * m) + b * m + c) div m mod k = b"
proof -
  have "a * (k * m) + b * m + c = (a * k + b) * m + c" by (simp add: algebra_simps)
  with assms show ?thesis by simp
qed

lemma unat_drop_bit_1: "unat (drop_bit 1 (v :: 'a :: len word)) = unat v div 2"
  by (simp only: unat_drop_bit_eq) (simp add: drop_bit_eq_div)

lemma byte_bit_high [simp]: "8 \<le> n \<Longrightarrow> \<not> bit (x :: byte) n"
  using bit_imp_le_length [of x n] by auto

lemma byte_bit_double:
  fixes x :: byte
  shows "\<not> bit (x * 2) 0" "bit (x * 2) (Suc 0) \<longleftrightarrow> bit x 0" "bit (x * 2) 2 \<longleftrightarrow> bit x 1" "bit (x * 2) 3 \<longleftrightarrow> bit x 2"
    "bit (x * 2) 4 \<longleftrightarrow> bit x 3" "bit (x * 2) 5 \<longleftrightarrow> bit x 4" "bit (x * 2) 6 \<longleftrightarrow> bit x 5" "bit (x * 2) 7 \<longleftrightarrow> bit x 6"
    "bit x (Suc (Suc 0)) \<longleftrightarrow> bit x 2" "bit x (Suc (Suc (Suc 0))) \<longleftrightarrow> bit x 3"
  using bit_double_iff [of x] by (auto simp: mult.commute [of x] numeral_2_eq_2 numeral_3_eq_3)

lemma byte_bit_eqI:
  fixes a b :: byte
  assumes "bit a 0 = bit b 0" "bit a 1 = bit b 1" "bit a 2 = bit b 2" "bit a 3 = bit b 3"
    "bit a 4 = bit b 4" "bit a 5 = bit b 5" "bit a 6 = bit b 6" "bit a 7 = bit b 7"
  shows "a = b"
proof (rule bit_word_eqI)
  fix n assume "n < LENGTH(8)"
  then have "n \<in> {0, 1, 2, 3, 4, 5, 6, 7}" by auto
  with assms show "bit a n = bit b n" by auto
qed

lemma sextet_bits: "(v :: byte) < 64 \<longleftrightarrow> \<not> bit v 6 \<and> \<not> bit v 7"
proof -
  have "byte_all (\<lambda>v. v < 64 \<longleftrightarrow> \<not> bit v 6 \<and> \<not> bit v 7)" by code_simp
  then show ?thesis by (rule byte_allD)
qed

lemma quintet_bits: "(v :: byte) < 32 \<longleftrightarrow> \<not> bit v 5 \<and> \<not> bit v 6 \<and> \<not> bit v 7"
proof -
  have "byte_all (\<lambda>v. v < 32 \<longleftrightarrow> \<not> bit v 5 \<and> \<not> bit v 6 \<and> \<not> bit v 7)" by code_simp
  then show ?thesis by (rule byte_allD)
qed

lemma or_sextet: "(x :: byte) OR y < 64 \<longleftrightarrow> x < 64 \<and> y < 64"
  by (auto simp: sextet_bits bit_or_iff)

lemma or_quintet: "(x :: byte) OR y < 32 \<longleftrightarrow> x < 32 \<and> y < 32"
  by (auto simp: quintet_bits bit_or_iff)

text \<open>An accumulated error flag is clear when every contribution is.\<close>

lemma or_and_eq_0 [simp]:
  "(x OR y) AND m = 0 \<longleftrightarrow> x AND m = 0 \<and> y AND (m :: 'a :: len word) = 0"
  by (auto simp: bit_eq_iff bit_or_iff bit_and_iff)

section \<open>Bounds-checked slices\<close>

definition slice_get :: "'a list \<Rightarrow> nat \<Rightarrow> 'a option" where
  "slice_get xs i = (if i < length xs then Some (xs ! i) else None)"

definition slice_set :: "'a list \<Rightarrow> nat \<Rightarrow> 'a \<Rightarrow> 'a list option" where
  "slice_set xs i v = (if i < length xs then Some (xs[i := v]) else None)"

text \<open>Consecutive reads \<open>d[i], d[i + 1], \<dots>\<close> and consecutive writes.\<close>

fun slice_gets :: "'a list \<Rightarrow> nat \<Rightarrow> nat \<Rightarrow> 'a list option" where
  "slice_gets xs i 0 = Some []"
| "slice_gets xs i (Suc n) =
     do { x \<leftarrow> slice_get xs i; ys \<leftarrow> slice_gets xs (i + 1) n; Some (x # ys) }"

fun slice_sets :: "'a list \<Rightarrow> nat \<Rightarrow> 'a list \<Rightarrow> 'a list option" where
  "slice_sets xs i [] = Some xs"
| "slice_sets xs i (v # vs) = do { ys \<leftarrow> slice_set xs i v; slice_sets ys (i + 1) vs }"

lemma slice_get_in [simp]: "i < length xs \<Longrightarrow> slice_get xs i = Some (xs ! i)"
  by (simp add: slice_get_def)

lemma slice_set_in [simp]: "i < length xs \<Longrightarrow> slice_set xs i v = Some (xs[i := v])"
  by (simp add: slice_set_def)

lemma slice_gets_in [codec_simps]:
  "i + n \<le> length xs \<Longrightarrow> slice_gets xs i n = Some (take n (drop i xs))"
proof (induction n arbitrary: i)
  case 0
  then show ?case by simp
next
  case (Suc n)
  then have "drop i xs = xs ! i # drop (Suc i) xs"
    by (simp add: Cons_nth_drop_Suc)
  with Suc show ?case by simp
qed

lemma slice_sets_in:
  "i + length vs \<le> length xs \<Longrightarrow>
   slice_sets xs i vs = Some (take i xs @ vs @ drop (i + length vs) xs)"
proof (induction vs arbitrary: xs i)
  case Nil
  then show ?case by simp
next
  case (Cons v vs)
  then have "slice_sets xs i (v # vs) =
      Some (take (Suc i) (xs[i := v]) @ vs @ drop (Suc i + length vs) xs)"
    by simp
  moreover from Cons.prems have "take (Suc i) (xs[i := v]) = take i xs @ [v]"
    by (simp add: take_Suc_conv_app_nth)
  ultimately show ?case by simp
qed

lemma slice_sets_prefix:
  assumes "length done = i" and "length vs \<le> length rest"
  shows "slice_sets (done @ rest) i vs = Some (done @ vs @ drop (length vs) rest)"
  using assms by (simp add: slice_sets_in)

declare slice_gets.simps [simp del] slice_sets.simps [simp del]

section \<open>Index loops\<close>

text \<open>
  \<open>while i + g <= len { body; i += k; }\<close>. A step of \<open>0\<close> would never leave the loop; no
  source loop has one, and the model gives it no value.
\<close>

function while_upto ::
  "nat \<Rightarrow> nat \<Rightarrow> nat \<Rightarrow> (nat \<Rightarrow> 's \<Rightarrow> 's option) \<Rightarrow> nat \<Rightarrow> 's \<Rightarrow> (nat \<times> 's) option" where
  "while_upto g k len body i s =
     (if k = 0 then None
      else if i + g \<le> len
      then (case body i s of None \<Rightarrow> None | Some t \<Rightarrow> while_upto g k len body (i + k) t)
      else Some (i, s))"
  by pat_completeness auto
termination
  by (relation "measure (\<lambda>(g, k, len, body, i, s). Suc len - i)") auto

declare while_upto.simps [simp del]

text \<open>Total correctness: an invariant that the body keeps and never panics from.\<close>

lemma while_upto_rule:
  assumes "0 < k" and "I i s"
    and "\<And>j t. I j t \<Longrightarrow> j + g \<le> len \<Longrightarrow> \<exists>t'. body j t = Some t' \<and> I (j + k) t'"
  shows "\<exists>j t. while_upto g k len body i s = Some (j, t) \<and> I j t \<and> len < j + g"
  using assms
proof (induction g k len body i s rule: while_upto.induct)
  case (1 g k len body i s)
  show ?case
  proof (cases "i + g \<le> len")
    case True
    with "1.prems" obtain t where t: "body i s = Some t" "I (i + k) t" by blast
    have "\<exists>j u. while_upto g k len body (i + k) t = Some (j, u) \<and> I j u \<and> len < j + g"
      using "1.prems" True t by (intro "1.IH") auto
    with True t "1.prems"(1) show ?thesis by (simp add: while_upto.simps [of g k len body i s])
  next
    case False
    with "1.prems" show ?thesis by (simp add: while_upto.simps [of g k len body i s])
  qed
qed

section \<open>Block codecs\<close>

lemma upt_8: "[0..<8] = [0, 1, 2, 3, 4, 5, 6, 7]"
  by code_simp

lemma upt_16: "[0..<16] = [0, 1, 2, 3, 4, 5, 6, 7, 8, 9, 10, 11, 12, 13, 14, 15]"
  by code_simp

lemma upt_24: "[0..<24] = [0, 1, 2, 3, 4, 5, 6, 7, 8, 9, 10, 11, 12, 13, 14, 15, 16, 17, 18, 19, 20, 21, 22, 23]"
  by code_simp

lemma upt_32: "[0..<32] = [0, 1, 2, 3, 4, 5, 6, 7, 8, 9, 10, 11, 12, 13, 14, 15, 16, 17, 18, 19, 20, 21, 22, 23, 24, 25, 26, 27, 28, 29, 30, 31]"
  by code_simp

lemma take_add_drop: "take (i + k) xs = take i xs @ take k (drop i xs)"
  by (simp add: take_add)

lemma nth_list_split:
  "length xs = n \<Longrightarrow> map f xs = map (\<lambda>k. f (xs ! k)) [0..<n]"
  by (rule nth_equalityI) simp_all

text \<open>Lists of a known short length.\<close>

lemma length_eq_2: "length xs = 2 \<Longrightarrow> \<exists>a b. xs = [a, b]"
  and length_eq_3: "length xs = 3 \<Longrightarrow> \<exists>a b c. xs = [a, b, c]"
  and length_eq_4: "length xs = 4 \<Longrightarrow> \<exists>a b c d. xs = [a, b, c, d]"
  by (auto simp: numeral_eq_Suc length_Suc_conv)

definition overwrite :: "'a list \<Rightarrow> nat \<Rightarrow> 'a list \<Rightarrow> 'a list" where
  "overwrite xs p vs = take p xs @ vs @ drop (p + length vs) xs"

lemma slice_sets_overwrite [codec_simps]:
  "p + length vs \<le> length xs \<Longrightarrow> slice_sets xs p vs = Some (overwrite xs p vs)"
  by (simp add: overwrite_def slice_sets_in)

lemma overwrite_single: "p < length xs \<Longrightarrow> overwrite xs p [v] = xs[p := v]"
  by (simp add: overwrite_def upd_conv_take_nth_drop)

lemma overwrite_prefix:
  "length done = p \<Longrightarrow> overwrite (done @ rest) p vs = done @ vs @ drop (length vs) rest"
  by (simp add: overwrite_def)

lemma overwrite_overwrite:
  assumes "k \<le> length us" "length us \<le> k + length vs" "p + k + length vs \<le> length xs"
  shows "overwrite (overwrite xs p us) (p + k) vs = overwrite xs p (take k us @ vs)"
  using assms by (simp add: overwrite_def ac_simps)

lemma length_overwrite [simp]: "p + length vs \<le> length xs \<Longrightarrow> length (overwrite xs p vs) = length xs"
  by (simp add: overwrite_def)

text \<open>Filling a range with one value, element by element.\<close>

lemma while_upto_fill:
  assumes "s \<le> e" and "e \<le> length out"
  shows "while_upto 1 1 e (\<lambda>k out. slice_set out k v) s out = Some (e, overwrite out s (replicate (e - s) v))"
proof -
  let ?st = "\<lambda>k. overwrite out s (replicate (k - s) v)"
  have "\<exists>k t. while_upto 1 1 e (\<lambda>k out. slice_set out k v) s out = Some (k, t) \<and>
      (t = ?st k \<and> s \<le> k \<and> k \<le> e) \<and> e < k + 1"
  proof (rule while_upto_rule)
    show "out = ?st s \<and> s \<le> s \<and> s \<le> e" using assms by (simp add: overwrite_def)
  next
    fix k t assume I: "t = ?st k \<and> s \<le> k \<and> k \<le> e" and "k + 1 \<le> e"
    then have k: "length (?st k) = length out" "k < length out" using assms by simp_all
    have "slice_set (?st k) k v = Some (overwrite (?st k) (s + (k - s)) [v])"
      using k I by (simp add: overwrite_single)
    also have "\<dots> = Some (overwrite out s (replicate (k - s) v @ [v]))"
      using I k by (subst overwrite_overwrite) simp_all
    also have "replicate (k - s) v @ [v] = replicate (k + 1 - s) v"
      using I by (simp add: Suc_diff_le replicate_append_same)
    finally show "\<exists>t'. slice_set t k v = Some t' \<and> t' = ?st (k + 1) \<and> s \<le> k + 1 \<and> k + 1 \<le> e"
      using I \<open>k + 1 \<le> e\<close> by simp
  qed simp
  then obtain k t where kt: "while_upto 1 1 e (\<lambda>k out. slice_set out k v) s out = Some (k, t)" "t = ?st k"
    and "k \<le> e" "e < k + 1" by blast
  then have "k = e" by simp
  with kt show ?thesis by simp
qed

text \<open>
  The contract of a routine that translates a slice block by block: \<open>bi\<close> input bytes
  become \<open>bo\<close> output bytes (\<open>code\<close>), and every block adds its bits to an accumulator
  (\<open>acc\<close>, the branch-free error flag of the decoders). The loops of the encoders and of
  the decoders of \<open>hex\<close>, \<open>base64\<close> and \<open>base32\<close>, whether they handle one block per
  iteration or eight, satisfy it, and the lemma on the loop is proved here once.
\<close>

locale block_codec =
  fixes bi bo :: nat
    and code :: "'a list \<Rightarrow> 'b list"
    and acc :: "'a list \<Rightarrow> byte"
  assumes bi_pos: "0 < bi"
    and code_append: "bi dvd length xs \<Longrightarrow> code (xs @ ys) = code xs @ code ys"
    and code_length: "bi dvd length xs \<Longrightarrow> length (code xs) = length xs div bi * bo"
    and acc_append: "bi dvd length xs \<Longrightarrow> acc (xs @ ys) = acc xs OR acc ys"
begin

text \<open>The state of the loop when the first \<open>j\<close> bytes are translated.\<close>

definition loop_at ::
  "(nat \<Rightarrow> 'b list \<Rightarrow> byte \<Rightarrow> 's) \<Rightarrow> 'a list \<Rightarrow> 'b list \<Rightarrow> nat \<Rightarrow> 's" where
  "loop_at mk data buf j = mk j (overwrite buf 0 (code (take j data))) (acc (take j data))"

lemma loop_at_step:
  assumes aligned: "bi dvd j" and fits: "j + n * bi \<le> length data"
    and room: "(j + n * bi) div bi * bo \<le> length buf"
  shows "loop_at mk data buf (j + n * bi) =
    mk (j + n * bi)
      (overwrite (overwrite buf 0 (code (take j data))) (j div bi * bo) (code (take (n * bi) (drop j data))))
      (acc (take j data) OR acc (take (n * bi) (drop j data)))"
proof -
  let ?blk = "take (n * bi) (drop j data)"
  have len: "length (take j data) = j" "length ?blk = n * bi" using fits by auto
  have l1: "length (code (take j data)) = j div bi * bo"
    using code_length [of "take j data"] aligned len by simp
  have l2: "length (code ?blk) = n * bo"
    using code_length [of ?blk] len bi_pos by simp
  have "(j + n * bi) div bi * bo = j div bi * bo + n * bo"
    using bi_pos by (simp add: add_mult_distrib)
  then show ?thesis
    using code_append [of "take j data" ?blk] acc_append [of "take j data" ?blk] aligned len l1 l2 room
    by (simp add: loop_at_def take_add_drop overwrite_def add.commute)
qed

lemma loop:
  assumes n: "0 < n" and step: "k = n * bi" and len: "len \<le> length data"
    and guard: "\<And>j. bi dvd j \<Longrightarrow> j + g \<le> len \<Longrightarrow> j + n * bi \<le> len"
    and room: "len div bi * bo \<le> length buf"
    and start: "bi dvd i" "i \<le> len"
    and body: "\<And>j out e. bi dvd j \<Longrightarrow> j + n * bi \<le> len \<Longrightarrow> length out = length buf \<Longrightarrow>
      j div bi * bo + n * bo \<le> length out \<Longrightarrow> body j (mk j out e) =
        Some (mk (j + n * bi) (overwrite out (j div bi * bo) (code (take (n * bi) (drop j data))))
                (e OR acc (take (n * bi) (drop j data))))"
  shows "\<exists>j. while_upto g k len body i (loop_at mk data buf i) = Some (j, loop_at mk data buf j) \<and>
    bi dvd j \<and> i \<le> j \<and> j \<le> len \<and> len < j + g"
proof -
  let ?I = "\<lambda>j s. s = loop_at mk data buf j \<and> bi dvd j \<and> i \<le> j \<and> j \<le> len"
  have "\<exists>j s. while_upto g k len body i (loop_at mk data buf i) = Some (j, s) \<and> ?I j s \<and> len < j + g"
  proof (rule while_upto_rule)
    show "0 < k" using n step bi_pos by simp
    show "?I i (loop_at mk data buf i)" using start by simp
  next
    fix j s
    assume I: "?I j s" and "j + g \<le> len"
    with guard have fits: "j + n * bi \<le> len" by blast
    then have room': "(j + n * bi) div bi * bo \<le> length buf"
      using room by (meson div_le_mono le_trans mult_le_mono1)
    then have room'': "j div bi * bo + n * bo \<le> length buf"
      using bi_pos by (simp add: add_mult_distrib)
    have lc: "length (code (take j data)) = j div bi * bo"
      using code_length [of "take j data"] I len by simp
    have "j div bi * bo \<le> length buf"
      using room' by (meson div_le_mono le_add1 le_trans mult_le_mono1)
    then have "length (overwrite buf 0 (code (take j data))) = length buf"
      using lc by (simp add: overwrite_def)
    then have "body j s = Some (loop_at mk data buf (j + n * bi))"
      using body [of j "overwrite buf 0 (code (take j data))" "acc (take j data)"] I fits
        loop_at_step [of j n data buf mk] len room' room'' by (simp add: loop_at_def)
    with I fits step show "\<exists>s'. body j s = Some s' \<and> ?I (j + k) s'" by simp
  qed
  then show ?thesis by blast
qed

text \<open>An inner loop that counts the blocks of a group, from a group's first position on.\<close>

lemma inner:
  assumes start: "bi dvd start" "start + N * bi \<le> length data"
    and room: "start div bi * bo + N * bo \<le> length buf"
    and body: "\<And>n out e. n < N \<Longrightarrow> length out = length buf \<Longrightarrow> body n (mk n out e) =
        Some (mk (n + 1) (overwrite out (start div bi * bo + n * bo) (code (take bi (drop (start + n * bi) data))))
                (e OR acc (take bi (drop (start + n * bi) data))))"
    and acc0: "acc [] = 0"
  shows "while_upto 1 1 N body 0 (mk 0 buf e) =
    Some (N, mk N (overwrite buf (start div bi * bo) (code (take (N * bi) (drop start data))))
               (e OR acc (take (N * bi) (drop start data))))"
proof -
  let ?p = "start div bi * bo" and ?blk = "\<lambda>n. take (n * bi) (drop start data)"
  let ?st = "\<lambda>n. mk n (overwrite buf ?p (code (?blk n))) (e OR acc (?blk n))"
  have len: "length (?blk n) = n * bi" "length (code (?blk n)) = n * bo" if "n \<le> N" for n
  proof -
    have "n * bi \<le> N * bi" using that by simp
    then have "n * bi \<le> length data - start" using start(2) by linarith
    then show "length (?blk n) = n * bi" by simp
    then show "length (code (?blk n)) = n * bo" using code_length [of "?blk n"] bi_pos by simp
  qed
  have fits: "?p + n * bo \<le> length buf" if "n \<le> N" for n
    using room that mult_le_mono1 [OF that, of bo] by linarith
  have step: "body n (?st n) = Some (?st (n + 1))" if n: "n < N" for n
  proof -
    let ?nxt = "take bi (drop (start + n * bi) data)"
    have blk: "?blk (n + 1) = ?blk n @ ?nxt"
      by (simp add: take_add_drop add.commute [of bi] add.commute [of "n * bi" start])
    have dvd: "bi dvd length (?blk n)" using len [of n] n by simp
    have out: "length (overwrite buf ?p (code (?blk n))) = length buf"
      using fits [of n] len [of n] n by (simp add: overwrite_def)
    have "overwrite (overwrite buf ?p (code (?blk n))) (?p + n * bo) (code ?nxt) =
        overwrite buf ?p (code (?blk n) @ code ?nxt)"
      using len [of n] fits [of n] n by (simp add: overwrite_def ac_simps)
    then show ?thesis
      using body [OF n out] code_append [OF dvd, of ?nxt] acc_append [OF dvd, of ?nxt] unfolding blk
      by (simp add: or.assoc)
  qed
  have "\<exists>n s. while_upto 1 1 N body 0 (mk 0 buf e) = Some (n, s) \<and> (s = ?st n \<and> n \<le> N) \<and> N < n + 1"
  proof (rule while_upto_rule)
    have "code [] = []" using code_append [of "[]" "[]"] by simp
    then show "mk 0 buf e = ?st 0 \<and> 0 \<le> N" using acc0 by (simp add: overwrite_def)
  next
    fix n s assume "s = ?st n \<and> n \<le> N" "n + 1 \<le> N"
    then show "\<exists>s'. body n s = Some s' \<and> s' = ?st (n + 1) \<and> n + 1 \<le> N" using step [of n] by simp
  qed simp
  then obtain n s where ns: "while_upto 1 1 N body 0 (mk 0 buf e) = Some (n, s)" "s = ?st n"
    and "n \<le> N" "N < n + 1" by blast
  then have "n = N" by simp
  with ns show ?thesis by simp
qed

lemma loop_at_0: "code [] = [] \<Longrightarrow> acc [] = 0 \<Longrightarrow> loop_at mk data buf 0 = mk 0 buf 0"
  by (simp add: loop_at_def overwrite_def)

end

section \<open>Streaming\<close>

text \<open>
  The contract of a streaming computation: absorbing a concatenation is absorbing its parts
  in turn. A client that feeds chunks may then split its input anywhere.
\<close>

fun feed_all :: "('s \<Rightarrow> 'a list \<Rightarrow> 's option) \<Rightarrow> 's \<Rightarrow> 'a list list \<Rightarrow> 's option" where
  "feed_all upd s [] = Some s"
| "feed_all upd s (c # cs) = do { s \<leftarrow> upd s c; feed_all upd s cs }"

locale streaming =
  fixes upd :: "'s \<Rightarrow> 'a list \<Rightarrow> 's option"
  assumes upd_nil: "upd s [] = Some s"
    and upd_append: "upd s (xs @ ys) = do { s \<leftarrow> upd s xs; upd s ys }"
begin

lemma feed_all_concat: "feed_all upd s cs = upd s (concat cs)"
  by (induction cs arbitrary: s) (simp_all add: upd_nil upd_append)

end

end
