(* ===== verification/Hex.thy ===== *)
theory Hex
  imports Stdx_Prelude
begin

text \<open>
  The crate \<open>hex\<close> (\<open>src/hex/hex.rs\<close>): hexadecimal encoding and decoding of byte slices.
  The model is the portable build, in which \<open>encode_into\<close> and \<open>decode_into\<close> call the
  constant-time routines (the SIMD kernels are compiled only for targets with the
  feature enabled). The lemmas show that the branch-free nibble arithmetic is the
  alphabet lookup, that the two unrolled loops compute the byte-by-byte encoding and
  decoding without an out-of-bounds access, and that the two are inverse.
\<close>

section \<open>Definitions\<close>

definition ALPHABET_LOWER :: "byte list" where
  "ALPHABET_LOWER = ascii_bytes ''0123456789abcdef''"

definition ALPHABET_UPPER :: "byte list" where
  "ALPHABET_UPPER = ascii_bytes ''0123456789ABCDEF''"

datatype hex_alphabet = Lower | Upper

datatype hex_decode_error = HexInvalidInput | HexInvalidInputLength | HexInvalidOutputLength

datatype hex_encode_error = HexEncodeInvalidOutputLength

definition hex_decode_error_fmt :: "hex_decode_error \<Rightarrow> string" where
  "hex_decode_error_fmt e =
     (case e of
        HexInvalidInput \<Rightarrow> ''invalid hex character''
      | HexInvalidInputLength \<Rightarrow> ''odd number of hex characters''
      | HexInvalidOutputLength \<Rightarrow> ''output buffer size must be equal to input.len() / 2'')"

definition hex_encode_error_fmt :: "hex_encode_error \<Rightarrow> string" where
  "hex_encode_error_fmt e =
     (case e of
        HexEncodeInvalidOutputLength \<Rightarrow> ''output buffer size must be equal to input.len() * 2'')"

definition nibble_to_hex :: "byte \<Rightarrow> hex_alphabet \<Rightarrow> byte" where
  "nibble_to_hex nib alphabet =
     (let nibble = nib AND 0x0F;
          digit_mask = ucast (signed_drop_bit 8 ((ucast nibble :: u16) - 10)) :: byte;
          digit_val = ascii CHR ''0'' + nibble;
          letter_val = ascii CHR ''a'' + nibble - 10;
          upper_val = ascii CHR ''A'' + nibble - 10;
          lower_result = (digit_val AND digit_mask) OR (letter_val AND NOT digit_mask);
          upper_result = (digit_val AND digit_mask) OR (upper_val AND NOT digit_mask)
      in case alphabet of Lower \<Rightarrow> lower_result | Upper \<Rightarrow> upper_result)"

definition hex_check_encode_output_length :: "nat \<Rightarrow> nat \<Rightarrow> (hex_encode_error, unit) result" where
  "hex_check_encode_output_length data_length output_length =
     (if data_length * 2 \<noteq> output_length then Err HexEncodeInvalidOutputLength else Ok ())"

text \<open>The body of the 16-byte loop and of the one-byte loop of the encoder.\<close>

definition hex_encode_16 :: "byte list \<Rightarrow> hex_alphabet \<Rightarrow> nat \<Rightarrow> byte list \<Rightarrow> byte list option" where
  "hex_encode_16 data alphabet i out =
     do {
       bs \<leftarrow> slice_gets data i 16;
       let b = (\<lambda>k. bs ! k);
       let nib = (\<lambda>n. nibble_to_hex n alphabet);
       let p = i * 2;
       slice_sets out p
         [nib (drop_bit 4 (b 0)), nib (b 0 AND 0x0F), nib (drop_bit 4 (b 1)), nib (b 1 AND 0x0F),
          nib (drop_bit 4 (b 2)), nib (b 2 AND 0x0F), nib (drop_bit 4 (b 3)), nib (b 3 AND 0x0F),
          nib (drop_bit 4 (b 4)), nib (b 4 AND 0x0F), nib (drop_bit 4 (b 5)), nib (b 5 AND 0x0F),
          nib (drop_bit 4 (b 6)), nib (b 6 AND 0x0F), nib (drop_bit 4 (b 7)), nib (b 7 AND 0x0F),
          nib (drop_bit 4 (b 8)), nib (b 8 AND 0x0F), nib (drop_bit 4 (b 9)), nib (b 9 AND 0x0F),
          nib (drop_bit 4 (b 10)), nib (b 10 AND 0x0F), nib (drop_bit 4 (b 11)), nib (b 11 AND 0x0F),
          nib (drop_bit 4 (b 12)), nib (b 12 AND 0x0F), nib (drop_bit 4 (b 13)), nib (b 13 AND 0x0F),
          nib (drop_bit 4 (b 14)), nib (b 14 AND 0x0F), nib (drop_bit 4 (b 15)), nib (b 15 AND 0x0F)]
     }"

definition hex_encode_1 :: "byte list \<Rightarrow> hex_alphabet \<Rightarrow> nat \<Rightarrow> byte list \<Rightarrow> byte list option" where
  "hex_encode_1 data alphabet i out =
     do {
       b \<leftarrow> slice_get data i;
       let p = i * 2;
       slice_sets out p [nibble_to_hex (drop_bit 4 b) alphabet, nibble_to_hex (b AND 0x0F) alphabet]
     }"

text \<open>
  A fallible routine on an output buffer returns the buffer and the result; \<open>None\<close> is a
  panic.
\<close>

definition hex_encode_into_constant_time ::
  "byte list \<Rightarrow> byte list \<Rightarrow> hex_alphabet \<Rightarrow> (byte list \<times> (hex_encode_error, unit) result) option" where
  "hex_encode_into_constant_time out data alphabet =
     (case hex_check_encode_output_length (length data) (length out) of
        Err err \<Rightarrow> Some (out, Err err)
      | Ok _ \<Rightarrow>
          do {
            let len = length data;
            (i, out) \<leftarrow> while_upto 16 16 len (hex_encode_16 data alphabet) 0 out;
            (i, out) \<leftarrow> while_upto 1 1 len (hex_encode_1 data alphabet) i out;
            Some (out, Ok ())
          })"

definition hex_encode_into ::
  "byte list \<Rightarrow> byte list \<Rightarrow> hex_alphabet \<Rightarrow> (byte list \<times> (hex_encode_error, unit) result) option" where
  "hex_encode_into out data alphabet = hex_encode_into_constant_time out data alphabet"

definition hex_encode_with_alphabet :: "byte list \<Rightarrow> hex_alphabet \<Rightarrow> byte list option" where
  "hex_encode_with_alphabet data alphabet =
     do {
       let output = replicate (length data * 2) 0;
       (output, r) \<leftarrow> hex_encode_into output data alphabet;
       _ \<leftarrow> result_unwrap r;
       Some output
     }"

definition hex_encode :: "byte list \<Rightarrow> byte list option" where
  "hex_encode data = hex_encode_with_alphabet data Lower"

definition hex_encode_array :: "nat \<Rightarrow> byte list \<Rightarrow> hex_alphabet \<Rightarrow> byte list option" where
  "hex_encode_array OUT data alphabet =
     do {
       let res = replicate OUT 0;
       (res, r) \<leftarrow> hex_encode_into_constant_time res data alphabet;
       (case r of Ok _ \<Rightarrow> Some res | Err _ \<Rightarrow> None)
     }"

definition hex_encode_into_string :: "byte list \<Rightarrow> byte list \<Rightarrow> hex_alphabet \<Rightarrow> byte list option" where
  "hex_encode_into_string output data alphabet =
     (let encoded_length = length data * 2 in
      if encoded_length \<le> 256 then
        do {
          let buf = take encoded_length (replicate 256 0);
          (buf, r) \<leftarrow> hex_encode_into buf data alphabet;
          _ \<leftarrow> result_unwrap r;
          Some (output @ buf)
        }
      else
        do {
          let buf = replicate encoded_length 0;
          (buf, r) \<leftarrow> hex_encode_into buf data alphabet;
          _ \<leftarrow> result_unwrap r;
          Some (output @ buf)
        })"

definition nibble_from_hex :: "byte \<Rightarrow> byte" where
  "nibble_from_hex c =
     (let i16 = (\<lambda>x :: byte. ucast x :: u16);
          outside = (\<lambda>lo hi. ucast (signed_drop_bit 8 ((i16 c - i16 lo) OR (i16 hi - i16 c))) :: byte);
          is_digit = outside (ascii CHR ''0'') (ascii CHR ''9'');
          is_lower = outside (ascii CHR ''a'') (ascii CHR ''f'');
          is_upper = outside (ascii CHR ''A'') (ascii CHR ''F'');
          digit_val = c - ascii CHR ''0'';
          lower_val = c - ascii CHR ''a'' + 10;
          upper_val = c - ascii CHR ''A'' + 10;
          value = (digit_val AND NOT is_digit) OR (lower_val AND NOT is_lower) OR (upper_val AND NOT is_upper);
          invalid = is_digit AND is_lower AND is_upper
      in value OR (invalid AND 0xF0))"

definition hex_check_decode_input_and_output_length :: "nat \<Rightarrow> nat \<Rightarrow> (hex_decode_error, unit) result" where
  "hex_check_decode_input_and_output_length encoded_length output_length =
     (if \<not> 2 dvd encoded_length then Err HexInvalidInputLength
      else if output_length \<noteq> encoded_length div 2 then Err HexInvalidOutputLength
      else Ok ())"

text \<open>The decoder threads the output buffer and the accumulated error byte.\<close>

definition hex_decode_32 :: "byte list \<Rightarrow> nat \<Rightarrow> byte list \<times> byte \<Rightarrow> (byte list \<times> byte) option" where
  "hex_decode_32 encoded_data i = (\<lambda>(out, err).
     do {
       cs \<leftarrow> slice_gets encoded_data i 32;
       let h = (\<lambda>k. nibble_from_hex (cs ! (2 * k)));
       let l = (\<lambda>k. nibble_from_hex (cs ! (2 * k + 1)));
       let put = (\<lambda>k. push_bit 4 (h k) OR l k);
       let err = foldl (\<lambda>e k. e OR (h k OR l k)) err [0, 1, 2, 3, 4, 5, 6, 7, 8, 9, 10, 11, 12, 13, 14, 15];
       out \<leftarrow> slice_sets out (i div 2)
         [put 0, put 1, put 2, put 3, put 4, put 5, put 6, put 7,
          put 8, put 9, put 10, put 11, put 12, put 13, put 14, put 15];
       Some (out, err)
     })"

definition hex_decode_2 :: "byte list \<Rightarrow> nat \<Rightarrow> byte list \<times> byte \<Rightarrow> (byte list \<times> byte) option" where
  "hex_decode_2 encoded_data i = (\<lambda>(out, err).
     do {
       c0 \<leftarrow> slice_get encoded_data i;
       let h = nibble_from_hex c0;
       c1 \<leftarrow> slice_get encoded_data (i + 1);
       let l = nibble_from_hex c1;
       let err = err OR (h OR l);
       out \<leftarrow> slice_set out (i div 2) (push_bit 4 h OR l);
       Some (out, err)
     })"

definition hex_decode_into_constant_time ::
  "byte list \<Rightarrow> byte list \<Rightarrow> (byte list \<times> (hex_decode_error, unit) result) option" where
  "hex_decode_into_constant_time out encoded_data =
     (case hex_check_decode_input_and_output_length (length encoded_data) (length out) of
        Err err \<Rightarrow> Some (out, Err err)
      | Ok _ \<Rightarrow>
          do {
            let in_len = length encoded_data;
            (i, s) \<leftarrow> while_upto 32 32 in_len (hex_decode_32 encoded_data) 0 (out, 0);
            (i, out, err) \<leftarrow> while_upto 1 2 in_len (hex_decode_2 encoded_data) i s;
            Some (out, if err AND 0xF0 \<noteq> 0 then Err HexInvalidInput else Ok ())
          })"

definition hex_decode_into ::
  "byte list \<Rightarrow> byte list \<Rightarrow> (byte list \<times> (hex_decode_error, unit) result) option" where
  "hex_decode_into out encoded_data = hex_decode_into_constant_time out encoded_data"

definition hex_decode :: "byte list \<Rightarrow> (hex_decode_error, byte list) result option" where
  "hex_decode data =
     do {
       let output = replicate (length data div 2) 0;
       (output, r) \<leftarrow> hex_decode_into output data;
       Some (case r of Err e \<Rightarrow> Err e | Ok _ \<Rightarrow> Ok output)
     }"

definition hex_decode_array :: "nat \<Rightarrow> byte list \<Rightarrow> (hex_decode_error, byte list) result option" where
  "hex_decode_array OUT encoded_data =
     do {
       let res = replicate OUT 0;
       (res, r) \<leftarrow> hex_decode_into_constant_time res encoded_data;
       Some (case r of Ok _ \<Rightarrow> Ok res | Err e \<Rightarrow> Err e)
     }"

section \<open>The nibble arithmetic is the alphabet lookup\<close>

definition hex_digits :: "hex_alphabet \<Rightarrow> byte list" where
  "hex_digits alphabet = (case alphabet of Lower \<Rightarrow> ALPHABET_LOWER | Upper \<Rightarrow> ALPHABET_UPPER)"

definition is_hex_digit :: "byte \<Rightarrow> bool" where
  "is_hex_digit c \<longleftrightarrow>
     ascii CHR ''0'' \<le> c \<and> c \<le> ascii CHR ''9'' \<or>
     ascii CHR ''a'' \<le> c \<and> c \<le> ascii CHR ''f'' \<or>
     ascii CHR ''A'' \<le> c \<and> c \<le> ascii CHR ''F''"

lemma nibble_to_hex_masked: "nibble_to_hex (n AND 0x0F) alphabet = nibble_to_hex n alphabet"
  by (simp add: nibble_to_hex_def and.assoc)

lemma nibble_to_hex_lookup:
  "nibble_to_hex n alphabet = hex_digits alphabet ! unat (n AND 0x0F)"
proof -
  have "list_all (\<lambda>k. nibble_to_hex (word_of_int k) Lower = hex_digits Lower ! unat (word_of_int k :: byte) \<and>
      nibble_to_hex (word_of_int k) Upper = hex_digits Upper ! unat (word_of_int k :: byte)) [0..15]"
    by code_simp
  from byte_less_all [OF this, of "n AND 0x0F"] byte_and_le [of n "0x0F"]
  have "nibble_to_hex (n AND 0x0F) alphabet = hex_digits alphabet ! unat (n AND 0x0F)"
    by (cases alphabet) simp_all
  then show ?thesis by (simp only: nibble_to_hex_masked)
qed

lemma nibble_from_hex_valid:
  "nibble_from_hex c AND 0xF0 = 0 \<longleftrightarrow> is_hex_digit c"
proof -
  have "byte_all (\<lambda>c. (nibble_from_hex c AND 0xF0 = 0) = is_hex_digit c)"
    by code_simp
  then show ?thesis by (rule byte_allD)
qed

lemma nibble_from_digit:
  assumes "uint (n :: byte) \<le> 15"
  shows "nibble_from_hex (hex_digits alphabet ! unat n) = n"
proof -
  have "list_all (\<lambda>k. nibble_from_hex (hex_digits Lower ! unat (word_of_int k :: byte)) = word_of_int k \<and>
      nibble_from_hex (hex_digits Upper ! unat (word_of_int k :: byte)) = word_of_int k) [0..15]"
    by code_simp
  from byte_less_all [OF this assms] show ?thesis by (cases alphabet) simp_all
qed

lemma nibble_roundtrip: "nibble_from_hex (nibble_to_hex n alphabet) = n AND 0x0F"
  using nibble_from_digit [of "n AND 0x0F"] byte_and_le [of n "0x0F"]
  by (simp add: nibble_to_hex_lookup)

lemma byte_of_nibbles: "push_bit 4 (drop_bit 4 b) OR (b AND 0x0F) = (b :: byte)"
proof -
  have "byte_all (\<lambda>b. push_bit 4 (drop_bit 4 b) OR (b AND 0x0F) = b)" by code_simp
  then show ?thesis by (rule byte_allD)
qed

section \<open>The encoder\<close>

text \<open>The specification: two digits of the alphabet per byte, high nibble first.\<close>

definition hex_pair :: "hex_alphabet \<Rightarrow> byte \<Rightarrow> byte list" where
  "hex_pair alphabet b =
     [hex_digits alphabet ! unat (drop_bit 4 b), hex_digits alphabet ! unat (b AND 0x0F)]"

definition hex_text :: "hex_alphabet \<Rightarrow> byte list \<Rightarrow> byte list" where
  "hex_text alphabet data = concat (map (hex_pair alphabet) data)"

lemma hex_text_simps [simp]:
  "hex_text alphabet [] = []"
  "hex_text alphabet (b # bs) = hex_pair alphabet b @ hex_text alphabet bs"
  "hex_text alphabet (xs @ ys) = hex_text alphabet xs @ hex_text alphabet ys"
  by (simp_all add: hex_text_def)

lemma length_hex_text [simp]: "length (hex_text alphabet data) = 2 * length data"
  by (induction data) (simp_all add: hex_pair_def)

lemma drop_bit_4_and: "drop_bit 4 (b :: byte) AND 0x0F = drop_bit 4 b"
proof -
  have "byte_all (\<lambda>b. drop_bit 4 b AND 0x0F = drop_bit 4 b)" by code_simp
  then show ?thesis by (rule byte_allD)
qed

lemma hex_pair_nibbles:
  "hex_pair alphabet b = [nibble_to_hex (drop_bit 4 b) alphabet, nibble_to_hex (b AND 0x0F) alphabet]"
  by (simp add: hex_pair_def nibble_to_hex_lookup drop_bit_4_and)

interpretation hex_enc: block_codec 1 2 "hex_text alphabet" "\<lambda>_. 0" for alphabet
  by unfold_locales simp_all

lemma hex_encode_16_blocks:
  assumes "j + 16 \<le> length data" and "(j + 16) * 2 \<le> length out"
  shows "hex_encode_16 data alphabet j out =
    Some (overwrite out (j * 2) (hex_text alphabet (take 16 (drop j data))))"
proof -
  let ?bs = "take 16 (drop j data)"
  have "length ?bs = 16" using assms by simp
  then have "hex_text alphabet ?bs = concat (map (\<lambda>k. hex_pair alphabet (?bs ! k)) [0..<16])"
    unfolding hex_text_def by (subst nth_list_split) simp_all
  then show ?thesis
    using assms by (simp add: hex_encode_16_def codec_simps hex_pair_nibbles Let_def upt_16)
qed

lemma hex_encode_1_blocks:
  assumes "j < length data" and "(j + 1) * 2 \<le> length out"
  shows "hex_encode_1 data alphabet j out =
    Some (overwrite out (j * 2) (hex_text alphabet (take 1 (drop j data))))"
  using assms
  by (simp add: hex_encode_1_def codec_simps hex_pair_nibbles Let_def take_Suc_conv_app_nth
      flip: Cons_nth_drop_Suc)

lemma hex_encode_loops:
  assumes "length out = length data * 2"
  shows "hex_encode_into_constant_time out data alphabet = Some (hex_text alphabet data, Ok ())"
proof -
  let ?at = "hex_enc.loop_at alphabet (\<lambda>_ out _. out) data out"
  have "\<exists>j. while_upto 16 16 (length data) (hex_encode_16 data alphabet) 0 (?at 0) = Some (j, ?at j) \<and>
      1 dvd j \<and> 0 \<le> j \<and> j \<le> length data \<and> length data < j + 16"
    using assms by (intro hex_enc.loop [where n = 16]) (simp_all add: hex_encode_16_blocks)
  then obtain j where j: "while_upto 16 16 (length data) (hex_encode_16 data alphabet) 0 (?at 0) = Some (j, ?at j)"
    "j \<le> length data" by blast
  have "\<exists>l. while_upto 1 1 (length data) (hex_encode_1 data alphabet) j (?at j) = Some (l, ?at l) \<and>
      1 dvd l \<and> j \<le> l \<and> l \<le> length data \<and> length data < l + 1"
    using assms j by (intro hex_enc.loop [where n = 1]) (simp_all add: hex_encode_1_blocks)
  then obtain l where l0: "while_upto 1 1 (length data) (hex_encode_1 data alphabet) j (?at j) = Some (l, ?at l)"
    and "l \<le> length data" "length data < l + 1" by blast
  then have "l = length data" by simp
  with l0 have l: "while_upto 1 1 (length data) (hex_encode_1 data alphabet) j (?at j) =
      Some (length data, ?at (length data))" by simp
  have "?at 0 = out" "?at (length data) = hex_text alphabet data"
    using assms by (simp_all add: hex_enc.loop_at_def overwrite_def)
  with j l assms show ?thesis
    by (simp add: hex_encode_into_constant_time_def hex_check_encode_output_length_def)
qed

section \<open>The decoder\<close>

text \<open>The specification: the value of a digit, and one byte per pair of digits.\<close>

definition hex_value :: "byte \<Rightarrow> byte" where
  "hex_value c =
     (if c \<le> ascii CHR ''9'' then c - ascii CHR ''0''
      else if c \<le> ascii CHR ''F'' then c - ascii CHR ''A'' + 10
      else c - ascii CHR ''a'' + 10)"

lemma nibble_from_hex_value: "is_hex_digit c \<Longrightarrow> nibble_from_hex c = hex_value c"
proof -
  have "byte_all (\<lambda>c. is_hex_digit c \<longrightarrow> nibble_from_hex c = hex_value c)" by code_simp
  from byte_allD [OF this] show "is_hex_digit c \<Longrightarrow> ?thesis" by simp
qed

fun hex_unpair :: "(byte \<Rightarrow> byte) \<Rightarrow> byte list \<Rightarrow> byte list" where
  "hex_unpair val (h # l # cs) = (push_bit 4 (val h) OR val l) # hex_unpair val cs"
| "hex_unpair val cs = []"

fun hex_err :: "byte list \<Rightarrow> byte" where
  "hex_err [] = 0"
| "hex_err (c # cs) = nibble_from_hex c OR hex_err cs"

lemma hex_err_append: "hex_err (xs @ ys) = hex_err xs OR hex_err ys"
  by (induction xs) (simp_all add: or.assoc)

lemma hex_unpair_append:
  "2 dvd length xs \<Longrightarrow> hex_unpair val (xs @ ys) = hex_unpair val xs @ hex_unpair val ys"
  by (induction val xs rule: hex_unpair.induct) simp_all

lemma length_hex_unpair [simp]: "length (hex_unpair val xs) = length xs div 2"
  by (induction val xs rule: hex_unpair.induct) simp_all

interpretation hex_dec: block_codec 2 1 "hex_unpair nibble_from_hex" hex_err
  by unfold_locales (simp_all add: hex_unpair_append hex_err_append)

lemma length_two_more:
  assumes "length cs = 2 * Suc n"
  obtains h l cs' where "cs = h # l # cs'" and "length cs' = 2 * n"
  using assms by (cases cs; cases "tl cs") auto

lemma hex_unpair_nth:
  "length cs = 2 * n \<Longrightarrow>
   hex_unpair val cs = map (\<lambda>k. push_bit 4 (val (cs ! (2 * k))) OR val (cs ! (2 * k + 1))) [0..<n]"
proof (induction n arbitrary: cs)
  case 0
  then show ?case by simp
next
  case (Suc n)
  from Suc.prems obtain h l cs' where "cs = h # l # cs'" "length cs' = 2 * n"
    by (rule length_two_more)
  with Suc.IH [of cs'] show ?case
    by (simp add: upt_conv_Cons del: upt_Suc flip: map_Suc_upt)
qed

lemma hex_err_nth:
  "length cs = 2 * n \<Longrightarrow>
   foldl (\<lambda>e k. e OR (nibble_from_hex (cs ! (2 * k)) OR nibble_from_hex (cs ! (2 * k + 1)))) e [0..<n]
     = e OR hex_err cs"
proof (induction n arbitrary: cs e)
  case 0
  then show ?case by simp
next
  case (Suc n)
  from Suc.prems obtain h l cs' where "cs = h # l # cs'" "length cs' = 2 * n"
    by (rule length_two_more)
  with Suc.IH [of cs'] show ?case
    by (simp add: upt_conv_Cons or.assoc foldl_map comp_def del: upt_Suc flip: map_Suc_upt)
qed

lemma hex_decode_32_blocks:
  assumes "2 dvd j" and "j + 32 \<le> length data" and "(j + 32) div 2 \<le> length out"
  shows "hex_decode_32 data j (out, e) =
    Some (overwrite out (j div 2) (hex_unpair nibble_from_hex (take 32 (drop j data))),
          e OR hex_err (take 32 (drop j data)))"
proof -
  let ?cs = "take 32 (drop j data)"
  have len: "length ?cs = 2 * 16" using assms by simp
  then have "hex_unpair nibble_from_hex ?cs = map (\<lambda>k. push_bit 4 (nibble_from_hex (?cs ! (2 * k))) OR
      nibble_from_hex (?cs ! (2 * k + 1))) [0..<16]" by (rule hex_unpair_nth)
  moreover have "j div 2 + 16 \<le> length out" using assms by simp
  ultimately show ?thesis
    using assms(2) hex_err_nth [OF len, of e]
    by (simp add: hex_decode_32_def codec_simps Let_def upt_16)
qed

lemma hex_decode_2_blocks:
  assumes "2 dvd j" and "j + 2 \<le> length data" and "(j + 2) div 2 \<le> length out"
  shows "hex_decode_2 data j (out, e) =
    Some (overwrite out (j div 2) (hex_unpair nibble_from_hex (take 2 (drop j data))),
          e OR hex_err (take 2 (drop j data)))"
proof -
  have "take 2 (drop j data) = [data ! j, data ! Suc j]"
    using assms(2) by (simp add: numeral_2_eq_2 flip: Cons_nth_drop_Suc)
  then show ?thesis
    using assms by (simp add: hex_decode_2_def overwrite_single Let_def)
qed

lemma hex_decode_loops:
  assumes "2 dvd length data" and "length out = length data div 2"
  shows "hex_decode_into_constant_time out data =
    Some (hex_unpair nibble_from_hex data,
      if hex_err data AND 0xF0 \<noteq> 0 then Err HexInvalidInput else Ok ())"
proof -
  let ?at = "hex_dec.loop_at (\<lambda>_ out e. (out, e)) data out"
  have "\<exists>j. while_upto 32 32 (length data) (hex_decode_32 data) 0 (?at 0) = Some (j, ?at j) \<and>
      2 dvd j \<and> 0 \<le> j \<and> j \<le> length data \<and> length data < j + 32"
    using assms by (intro hex_dec.loop [where n = 16]) (simp_all add: hex_decode_32_blocks div_le_mono)
  then obtain j where j: "while_upto 32 32 (length data) (hex_decode_32 data) 0 (?at 0) = Some (j, ?at j)"
    "2 dvd j" "j \<le> length data" by blast
  have even: "i + 2 \<le> length data" if "2 dvd i" "i + 1 \<le> length data" for i
    using that assms(1) by presburger
  have "\<exists>l. while_upto 1 2 (length data) (hex_decode_2 data) j (?at j) = Some (l, ?at l) \<and>
      2 dvd l \<and> j \<le> l \<and> l \<le> length data \<and> length data < l + 1"
    using assms j even by (intro hex_dec.loop [where n = 1])
      (simp_all add: hex_decode_2_blocks div_le_mono del: One_nat_def)
  then obtain l where l0: "while_upto 1 2 (length data) (hex_decode_2 data) j (?at j) = Some (l, ?at l)"
    and "l \<le> length data" "length data < l + 1" by blast
  then have "l = length data" by simp
  with l0 have l: "while_upto 1 2 (length data) (hex_decode_2 data) j (?at j) =
      Some (length data, ?at (length data))" by simp
  have "?at 0 = (out, 0)" "?at (length data) = (hex_unpair nibble_from_hex data, hex_err data)"
    using assms by (simp_all add: hex_dec.loop_at_def overwrite_def)
  with j l assms show ?thesis
    by (simp add: hex_decode_into_constant_time_def hex_check_decode_input_and_output_length_def)
qed

lemma hex_err_valid: "hex_err data AND 0xF0 = 0 \<longleftrightarrow> list_all is_hex_digit data"
  by (induction data) (simp_all add: nibble_from_hex_valid)

lemma hex_unpair_value:
  "list_all is_hex_digit data \<Longrightarrow> hex_unpair nibble_from_hex data = hex_unpair hex_value data"
  by (induction hex_value data rule: hex_unpair.induct) (simp_all add: nibble_from_hex_value)

lemma hex_digits_are_hex: "list_all is_hex_digit (hex_text alphabet data)"
proof (induction data)
  case (Cons b data)
  have "is_hex_digit (nibble_to_hex n alphabet)" for n
    using nibble_from_hex_valid [of "nibble_to_hex n alphabet"]
    by (simp add: nibble_roundtrip and.assoc)
  with Cons show ?case by (simp add: hex_pair_nibbles)
qed simp

lemma hex_unpair_text: "hex_unpair nibble_from_hex (hex_text alphabet data) = data"
proof (induction data)
  case (Cons b data)
  then show ?case
    by (simp add: hex_pair_nibbles nibble_roundtrip drop_bit_4_and byte_of_nibbles and.assoc)
qed simp

section \<open>Properties\<close>

text \<open>
  C1: encoding never panics and writes, for every byte, the two digits of the alphabet
  at the indices of its high and its low nibble; the array variant panics exactly when
  the array has another length, and the string variant appends.
\<close>

theorem hex_encode_correct:
  "hex_encode_with_alphabet data alphabet = Some (hex_text alphabet data) \<and>
   hex_encode data = Some (hex_text Lower data) \<and>
   hex_encode_into_string out data alphabet = Some (out @ hex_text alphabet data) \<and>
   hex_encode_array OUT data alphabet =
     (if OUT = length data * 2 then Some (hex_text alphabet data) else None)"
proof -
  have enc: "hex_encode_with_alphabet data a = Some (hex_text a data)" for a
    by (simp add: hex_encode_with_alphabet_def hex_encode_into_def hex_encode_loops)
  have str: "hex_encode_into_string out data alphabet = Some (out @ hex_text alphabet data)"
    by (simp add: hex_encode_into_string_def hex_encode_into_def hex_encode_loops Let_def)
  have arr: "hex_encode_array OUT data alphabet =
      (if OUT = length data * 2 then Some (hex_text alphabet data) else None)"
    by (auto simp: hex_encode_array_def hex_encode_loops)
      (simp add: hex_encode_into_constant_time_def hex_check_encode_output_length_def)
  from enc str arr show ?thesis by (simp add: hex_encode_def)
qed

text \<open>
  C2: decoding never panics, and its result is determined on every input: an odd length
  is \<open>InvalidInputLength\<close>, a byte that is no hex digit is \<open>InvalidInput\<close>, and otherwise
  the bytes are the values of the pairs of digits, in either case.
\<close>

theorem hex_decode_correct:
  "hex_decode text =
     Some (if odd (length text) then Err HexInvalidInputLength
           else if list_all is_hex_digit text then Ok (hex_unpair hex_value text)
           else Err HexInvalidInput)"
proof (cases "odd (length text)")
  case True
  then show ?thesis
    by (simp add: hex_decode_def hex_decode_into_def hex_decode_into_constant_time_def
        hex_check_decode_input_and_output_length_def)
next
  case False
  then show ?thesis
    by (simp add: hex_decode_def hex_decode_into_def hex_decode_loops hex_err_valid hex_unpair_value)
qed

text \<open>Decoding what was encoded, in either alphabet, gives the bytes back.\<close>

theorem hex_roundtrip:
  "\<exists>text. hex_encode_with_alphabet data alphabet = Some text \<and> hex_decode text = Some (Ok data)"
proof -
  have "hex_decode (hex_text alphabet data) = Some (Ok data)"
    by (simp add: hex_decode_def hex_decode_into_def hex_decode_loops hex_err_valid
        hex_digits_are_hex hex_unpair_text)
  then show ?thesis
    by (simp add: hex_encode_with_alphabet_def hex_encode_into_def hex_encode_loops)
qed

end
