(* ===== verification/Base64.thy ===== *)
theory Base64
  imports Stdx_Prelude
begin

text \<open>
  The crate \<open>base64\<close> (\<open>src/base64/base64.rs\<close>): the four RFC 4648 alphabets, encoding and
  decoding of byte slices in the portable build. The lemmas show that the branch-free
  sextet arithmetic is the alphabet lookup, that the unrolled loops compute the
  block-by-block translation without an out-of-bounds access, that decoding inverts
  encoding, and that what is accepted is canonical: the characters of an accepted input
  are exactly the encoding of its result.
\<close>

section \<open>Definitions\<close>

definition base64_PAD :: byte where
  "base64_PAD = ascii CHR ''=''"

datatype base64_alphabet = Standard | StandardNoPadding | Url | UrlNoPadding

definition base64_is_padded :: "base64_alphabet \<Rightarrow> bool" where
  "base64_is_padded alphabet = (case alphabet of Standard \<Rightarrow> True | Url \<Rightarrow> True | _ \<Rightarrow> False)"

datatype base64_encode_error = Base64EncodeInvalidOutputLength | Base64OutputOverflow

datatype base64_decode_error =
  Base64InvalidInput | Base64InvalidInputLength | Base64InvalidPadding | Base64InvalidOutputLength

definition base64_encode_error_fmt :: "base64_encode_error \<Rightarrow> string" where
  "base64_encode_error_fmt e =
     (case e of
        Base64EncodeInvalidOutputLength \<Rightarrow>
          ''output buffer size must be exactly equal to decoded_len(input)''
      | Base64OutputOverflow \<Rightarrow> ''output length overflows usize::MAX'')"

definition base64_decode_error_fmt :: "base64_decode_error \<Rightarrow> string" where
  "base64_decode_error_fmt e =
     (case e of
        Base64InvalidInput \<Rightarrow> ''invalid base64 character''
      | Base64InvalidInputLength \<Rightarrow> ''invalid base64 length''
      | Base64InvalidOutputLength \<Rightarrow> ''output length is not valid''
      | Base64InvalidPadding \<Rightarrow> ''invalid base64 padding'')"

definition base64_encoded_length :: "nat \<Rightarrow> bool \<Rightarrow> nat option" where
  "base64_encoded_length data_length padding =
     (let complete_chunks = data_length div 3;
          remaining = data_length mod 3
      in case checked_mul complete_chunks 4 of
           None \<Rightarrow> None
         | Some base \<Rightarrow>
             if remaining = 0 then Some base
             else if padding then checked_add base 4
             else if remaining = 1 then Some (base + 2)
             else Some (base + 3))"

definition base64_check_encode_output_length ::
  "nat \<Rightarrow> nat \<Rightarrow> base64_alphabet \<Rightarrow> (base64_encode_error, unit) result" where
  "base64_check_encode_output_length output_length data_length alphabet =
     (case base64_encoded_length data_length (base64_is_padded alphabet) of
        None \<Rightarrow> Err Base64OutputOverflow
      | Some expected_output_length \<Rightarrow>
          if output_length \<noteq> expected_output_length then Err Base64EncodeInvalidOutputLength
          else Ok ())"

definition base64_not_in_range :: "byte \<Rightarrow> byte \<Rightarrow> byte \<Rightarrow> byte" where
  "base64_not_in_range v lo hi = signed_drop_bit 7 ((v - lo) OR (hi - v))"

definition base64_ch_62_63 :: "base64_alphabet \<Rightarrow> byte \<times> byte" where
  "base64_ch_62_63 alphabet =
     (case alphabet of
        Standard \<Rightarrow> (ascii CHR ''+'', ascii CHR ''/'')
      | StandardNoPadding \<Rightarrow> (ascii CHR ''+'', ascii CHR ''/'')
      | Url \<Rightarrow> (ascii CHR ''-'', ascii CHR ''_'')
      | UrlNoPadding \<Rightarrow> (ascii CHR ''-'', ascii CHR ''_''))"

definition sextet_to_base64_char :: "byte \<Rightarrow> base64_alphabet \<Rightarrow> byte" where
  "sextet_to_base64_char sextet alphabet =
     (let v = sextet AND 0x3F;
          not_upper = base64_not_in_range v 0 25;
          not_lower = base64_not_in_range v 26 51;
          not_digit = base64_not_in_range v 52 61;
          not_62 = base64_not_in_range v 62 62;
          not_63 = base64_not_in_range v 63 63;
          upper_val = v + ascii CHR ''A'';
          lower_val = v - 26 + ascii CHR ''a'';
          digit_val = v - 52 + ascii CHR ''0'';
          (ch_62, ch_63) = base64_ch_62_63 alphabet
      in (upper_val AND NOT not_upper)
         OR (lower_val AND NOT not_lower)
         OR (digit_val AND NOT not_digit)
         OR (ch_62 AND NOT not_62)
         OR (ch_63 AND NOT not_63))"

text \<open>The bodies of the 24-byte and of the 3-byte encoding loop, and the last bytes.\<close>

definition base64_encode_24 :: "byte list \<Rightarrow> base64_alphabet \<Rightarrow> nat \<Rightarrow> byte list \<Rightarrow> byte list option" where
  "base64_encode_24 data alphabet i out =
     do {
       bs \<leftarrow> slice_gets data i 24;
       let b = (\<lambda>k. bs ! k);
       let s = (\<lambda>v. sextet_to_base64_char v alphabet);
       let p = (i div 3) * 4;
       slice_sets out p
         [s (drop_bit 2 (b 0)), s (push_bit 4 (b 0 AND 0x03) OR drop_bit 4 (b 1)),
          s (push_bit 2 (b 1 AND 0x0F) OR drop_bit 6 (b 2)), s (b 2 AND 0x3F),
          s (drop_bit 2 (b 3)), s (push_bit 4 (b 3 AND 0x03) OR drop_bit 4 (b 4)),
          s (push_bit 2 (b 4 AND 0x0F) OR drop_bit 6 (b 5)), s (b 5 AND 0x3F),
          s (drop_bit 2 (b 6)), s (push_bit 4 (b 6 AND 0x03) OR drop_bit 4 (b 7)),
          s (push_bit 2 (b 7 AND 0x0F) OR drop_bit 6 (b 8)), s (b 8 AND 0x3F),
          s (drop_bit 2 (b 9)), s (push_bit 4 (b 9 AND 0x03) OR drop_bit 4 (b 10)),
          s (push_bit 2 (b 10 AND 0x0F) OR drop_bit 6 (b 11)), s (b 11 AND 0x3F),
          s (drop_bit 2 (b 12)), s (push_bit 4 (b 12 AND 0x03) OR drop_bit 4 (b 13)),
          s (push_bit 2 (b 13 AND 0x0F) OR drop_bit 6 (b 14)), s (b 14 AND 0x3F),
          s (drop_bit 2 (b 15)), s (push_bit 4 (b 15 AND 0x03) OR drop_bit 4 (b 16)),
          s (push_bit 2 (b 16 AND 0x0F) OR drop_bit 6 (b 17)), s (b 17 AND 0x3F),
          s (drop_bit 2 (b 18)), s (push_bit 4 (b 18 AND 0x03) OR drop_bit 4 (b 19)),
          s (push_bit 2 (b 19 AND 0x0F) OR drop_bit 6 (b 20)), s (b 20 AND 0x3F),
          s (drop_bit 2 (b 21)), s (push_bit 4 (b 21 AND 0x03) OR drop_bit 4 (b 22)),
          s (push_bit 2 (b 22 AND 0x0F) OR drop_bit 6 (b 23)), s (b 23 AND 0x3F)]
     }"

definition base64_encode_3 :: "byte list \<Rightarrow> base64_alphabet \<Rightarrow> nat \<Rightarrow> byte list \<Rightarrow> byte list option" where
  "base64_encode_3 data alphabet i out =
     do {
       bs \<leftarrow> slice_gets data i 3;
       let b = (\<lambda>k. bs ! k);
       let s = (\<lambda>v. sextet_to_base64_char v alphabet);
       let p = (i div 3) * 4;
       slice_sets out p
         [s (drop_bit 2 (b 0)), s (push_bit 4 (b 0 AND 0x03) OR drop_bit 4 (b 1)),
          s (push_bit 2 (b 1 AND 0x0F) OR drop_bit 6 (b 2)), s (b 2 AND 0x3F)]
     }"

definition base64_encode_tail :: "byte list \<Rightarrow> base64_alphabet \<Rightarrow> nat \<Rightarrow> byte list \<Rightarrow> byte list option" where
  "base64_encode_tail data alphabet i out =
     (let len = length data; remaining = len - i in
      if remaining > 0 then
        do {
          let p = (i div 3) * 4;
          b0 \<leftarrow> slice_get data i;
          b1 \<leftarrow> (if i + 1 < len then slice_get data (i + 1) else Some 0);
          let m1 = 0 - (if remaining = 1 then 1 else 0);
          let m2 = 0 - (if remaining = 2 then 1 else 0);
          out \<leftarrow> slice_set out p (sextet_to_base64_char (drop_bit 2 b0) alphabet);
          let o1_rem1 = sextet_to_base64_char (push_bit 4 (b0 AND 0x03)) alphabet;
          let o1_rem2 = sextet_to_base64_char (push_bit 4 (b0 AND 0x03) OR drop_bit 4 b1) alphabet;
          out \<leftarrow> slice_set out (p + 1) ((o1_rem1 AND m1) OR (o1_rem2 AND m2));
          if base64_is_padded alphabet then
            do {
              let o2_rem1 = base64_PAD;
              let o2_rem2 = sextet_to_base64_char (push_bit 2 (b1 AND 0x0F)) alphabet;
              out \<leftarrow> slice_set out (p + 2) ((o2_rem1 AND m1) OR (o2_rem2 AND m2));
              slice_set out (p + 3) base64_PAD
            }
          else if remaining = 2 then
            slice_set out (p + 2) (sextet_to_base64_char (push_bit 2 (b1 AND 0x0F)) alphabet)
          else Some out
        }
      else Some out)"

definition base64_encode_into_constant_time ::
  "byte list \<Rightarrow> byte list \<Rightarrow> base64_alphabet \<Rightarrow> (byte list \<times> (base64_encode_error, unit) result) option" where
  "base64_encode_into_constant_time out data alphabet =
     (case base64_check_encode_output_length (length out) (length data) alphabet of
        Err err \<Rightarrow> Some (out, Err err)
      | Ok _ \<Rightarrow>
          do {
            let len = length data;
            (i, out) \<leftarrow> while_upto 24 24 len (base64_encode_24 data alphabet) 0 out;
            (i, out) \<leftarrow> while_upto 3 3 len (base64_encode_3 data alphabet) i out;
            out \<leftarrow> base64_encode_tail data alphabet i out;
            Some (out, Ok ())
          })"

definition base64_encode_into ::
  "byte list \<Rightarrow> byte list \<Rightarrow> base64_alphabet \<Rightarrow> (byte list \<times> (base64_encode_error, unit) result) option" where
  "base64_encode_into out data alphabet = base64_encode_into_constant_time out data alphabet"

definition base64_encode :: "byte list \<Rightarrow> base64_alphabet \<Rightarrow> byte list option" where
  "base64_encode data alphabet =
     do {
       len \<leftarrow> base64_encoded_length (length data) (base64_is_padded alphabet);
       let output = replicate len 0;
       (output, r) \<leftarrow> base64_encode_into output data alphabet;
       _ \<leftarrow> result_unwrap r;
       Some output
     }"

definition base64_encode_array :: "nat \<Rightarrow> byte list \<Rightarrow> base64_alphabet \<Rightarrow> byte list option" where
  "base64_encode_array OUT data alphabet =
     do {
       let out_buffer = replicate OUT 0;
       (out_buffer, r) \<leftarrow> base64_encode_into_constant_time out_buffer data alphabet;
       (case r of Ok _ \<Rightarrow> Some out_buffer | Err _ \<Rightarrow> None)
     }"

definition base64_encode_into_string :: "byte list \<Rightarrow> byte list \<Rightarrow> base64_alphabet \<Rightarrow> byte list option" where
  "base64_encode_into_string output data alphabet =
     do {
       encoded_length \<leftarrow> base64_encoded_length (length data) (base64_is_padded alphabet);
       if encoded_length \<le> 256 then
         do {
           let buf = take encoded_length (replicate 256 0);
           (buf, r) \<leftarrow> base64_encode_into buf data alphabet;
           _ \<leftarrow> result_unwrap r;
           Some (output @ buf)
         }
       else
         do {
           let buf = replicate encoded_length 0;
           (buf, r) \<leftarrow> base64_encode_into buf data alphabet;
           _ \<leftarrow> result_unwrap r;
           Some (output @ buf)
         }
     }"

definition base64_char_to_sextet :: "byte \<Rightarrow> base64_alphabet \<Rightarrow> byte" where
  "base64_char_to_sextet c alphabet =
     (let not_upper = base64_not_in_range c (ascii CHR ''A'') (ascii CHR ''Z'');
          not_lower = base64_not_in_range c (ascii CHR ''a'') (ascii CHR ''z'');
          not_digit = base64_not_in_range c (ascii CHR ''0'') (ascii CHR ''9'');
          upper_val = c - ascii CHR ''A'';
          lower_val = c - ascii CHR ''a'' + 26;
          digit_val = c - ascii CHR ''0'' + 52;
          (ch_62, ch_63) = base64_ch_62_63 alphabet;
          not_62 = base64_not_in_range c ch_62 ch_62;
          not_63 = base64_not_in_range c ch_63 ch_63;
          value = (upper_val AND NOT not_upper)
            OR (lower_val AND NOT not_lower)
            OR (digit_val AND NOT not_digit)
            OR (62 AND NOT not_62)
            OR (63 AND NOT not_63);
          invalid = not_upper AND not_lower AND not_digit AND not_62 AND not_63
      in value OR (invalid AND 0x40))"

definition base64_strip_padding_info ::
  "byte list \<Rightarrow> bool \<Rightarrow> (base64_decode_error, nat \<times> nat) result" where
  "base64_strip_padding_info data expect_padding =
     (let in_len = length data in
      if \<not> expect_padding then
        (if in_len > 0 \<and> data ! (in_len - 1) = base64_PAD then Err Base64InvalidPadding
         else Ok (in_len, 0))
      else
        let b0 = (if in_len > 0 then data ! (in_len - 1) else 0);
            b1 = (if in_len > 1 then data ! (in_len - 2) else 0);
            b2 = (if in_len > 2 then data ! (in_len - 3) else 0);
            p0 = (if b0 = base64_PAD then 1 else 0 :: nat);
            p1 = (if b1 = base64_PAD then 1 else 0 :: nat);
            p2 = (if b2 = base64_PAD then 1 else 0 :: nat);
            pad_count = p0 + (p0 AND p1) + (p0 AND p1 AND p2);
            content_len = in_len - pad_count;
            has_pads = (if pad_count \<noteq> 0 then 1 else 0 :: byte);
            len_mod4_ok = (if in_len mod 4 = 0 then 1 else 0 :: byte);
            err_len = has_pads AND (1 - len_mod4_ok);
            err_pad = (if pad_count > 2 then 1 else 0 :: byte)
        in if err_len \<noteq> 0 then Err Base64InvalidInputLength
           else
             let content_mod4 = content_len mod 4;
                 expected_mod4 = 4 - pad_count;
                 mod4_ok = (if content_mod4 = expected_mod4 then 1 else 0 :: byte);
                 err_pad = err_pad OR (has_pads AND (1 - mod4_ok))
             in if err_pad \<noteq> 0 then Err Base64InvalidPadding else Ok (content_len, pad_count))"

definition base64_decoded_length :: "nat \<Rightarrow> (base64_decode_error, nat) result" where
  "base64_decoded_length encoded_data_length =
     (let full_blocks = encoded_data_length div 4;
          rem = encoded_data_length mod 4
      in case checked_mul full_blocks 3 of
           None \<Rightarrow> Err Base64InvalidInputLength
         | Some base \<Rightarrow>
             if rem = 0 then Ok base
             else if rem = 2 then
               (case checked_add base 1 of Some v \<Rightarrow> Ok v | None \<Rightarrow> Err Base64InvalidInputLength)
             else if rem = 3 then
               (case checked_add base 2 of Some v \<Rightarrow> Ok v | None \<Rightarrow> Err Base64InvalidInputLength)
             else Err Base64InvalidInputLength)"

text \<open>The decoding loops thread the output buffer, its index and the error byte.\<close>

definition base64_decode_32 ::
  "byte list \<Rightarrow> base64_alphabet \<Rightarrow> nat \<Rightarrow> byte list \<times> nat \<times> byte \<Rightarrow> (byte list \<times> nat \<times> byte) option" where
  "base64_decode_32 encoded_data alphabet i = (\<lambda>(out, p, err).
     do {
       cs \<leftarrow> slice_gets encoded_data i 32;
       let v = (\<lambda>k. base64_char_to_sextet (cs ! k) alphabet);
       let err = err OR (v 0 OR v 1 OR v 2 OR v 3) OR (v 4 OR v 5 OR v 6 OR v 7)
         OR (v 8 OR v 9 OR v 10 OR v 11) OR (v 12 OR v 13 OR v 14 OR v 15)
         OR (v 16 OR v 17 OR v 18 OR v 19) OR (v 20 OR v 21 OR v 22 OR v 23)
         OR (v 24 OR v 25 OR v 26 OR v 27) OR (v 28 OR v 29 OR v 30 OR v 31);
       out \<leftarrow> slice_sets out p
         [push_bit 2 (v 0) OR drop_bit 4 (v 1), push_bit 4 (v 1) OR drop_bit 2 (v 2), push_bit 6 (v 2) OR v 3,
          push_bit 2 (v 4) OR drop_bit 4 (v 5), push_bit 4 (v 5) OR drop_bit 2 (v 6), push_bit 6 (v 6) OR v 7,
          push_bit 2 (v 8) OR drop_bit 4 (v 9), push_bit 4 (v 9) OR drop_bit 2 (v 10), push_bit 6 (v 10) OR v 11,
          push_bit 2 (v 12) OR drop_bit 4 (v 13), push_bit 4 (v 13) OR drop_bit 2 (v 14), push_bit 6 (v 14) OR v 15,
          push_bit 2 (v 16) OR drop_bit 4 (v 17), push_bit 4 (v 17) OR drop_bit 2 (v 18), push_bit 6 (v 18) OR v 19,
          push_bit 2 (v 20) OR drop_bit 4 (v 21), push_bit 4 (v 21) OR drop_bit 2 (v 22), push_bit 6 (v 22) OR v 23,
          push_bit 2 (v 24) OR drop_bit 4 (v 25), push_bit 4 (v 25) OR drop_bit 2 (v 26), push_bit 6 (v 26) OR v 27,
          push_bit 2 (v 28) OR drop_bit 4 (v 29), push_bit 4 (v 29) OR drop_bit 2 (v 30), push_bit 6 (v 30) OR v 31];
       Some (out, p + 24, err)
     })"

definition base64_decode_4 ::
  "byte list \<Rightarrow> base64_alphabet \<Rightarrow> nat \<Rightarrow> byte list \<times> nat \<times> byte \<Rightarrow> (byte list \<times> nat \<times> byte) option" where
  "base64_decode_4 encoded_data alphabet i = (\<lambda>(out, p, err).
     do {
       cs \<leftarrow> slice_gets encoded_data i 4;
       let v = (\<lambda>k. base64_char_to_sextet (cs ! k) alphabet);
       let err = err OR (v 0 OR v 1 OR v 2 OR v 3);
       out \<leftarrow> slice_sets out p
         [push_bit 2 (v 0) OR drop_bit 4 (v 1), push_bit 4 (v 1) OR drop_bit 2 (v 2), push_bit 6 (v 2) OR v 3];
       Some (out, p + 3, err)
     })"

definition base64_decode_tail ::
  "byte list \<Rightarrow> base64_alphabet \<Rightarrow> nat \<Rightarrow> nat \<Rightarrow> byte list \<times> nat \<times> byte \<Rightarrow> (byte list \<times> byte) option" where
  "base64_decode_tail encoded_data alphabet content_len i = (\<lambda>(out, p, err).
     let remaining = content_len - i;
         rem2 = (if remaining = 2 then 1 else 0 :: byte);
         rem3 = (if remaining = 3 then 1 else 0 :: byte);
         rem0 = (if remaining = 0 then 1 else 0 :: byte);
         valid_rem = rem0 OR rem2 OR rem3;
         err = err OR push_bit 6 (1 - valid_rem);
         rem2_mask = 0 - rem2;
         rem3_mask = 0 - rem3
     in if remaining > 0 then
          do {
            c0 \<leftarrow> slice_get encoded_data i;
            c1 \<leftarrow> (if i + 1 < content_len then slice_get encoded_data (i + 1) else Some (ascii CHR ''A''));
            c2 \<leftarrow> (if i + 2 < content_len then slice_get encoded_data (i + 2) else Some (ascii CHR ''A''));
            let v0 = base64_char_to_sextet c0 alphabet;
            let v1 = base64_char_to_sextet c1 alphabet;
            let v2 = base64_char_to_sextet c2 alphabet;
            let m0 = 0 - (if i < content_len then 1 else 0);
            let m1 = 0 - (if i + 1 < content_len then 1 else 0);
            let m2 = 0 - (if i + 2 < content_len then 1 else 0);
            let err = err OR ((v0 AND m0) OR (v1 AND m1) OR (v2 AND m2));
            let v1_trailing = v1 AND 0x0F;
            let v2_trailing = v2 AND 0x03;
            let trailing = (v1_trailing AND rem2_mask) OR (v2_trailing AND rem3_mask);
            let err = err OR push_bit 6 (if trailing \<noteq> 0 then 1 else 0);
            let out0 = push_bit 2 v0 OR drop_bit 4 v1;
            let out1 = push_bit 4 v1 OR drop_bit 2 v2;
            out \<leftarrow> slice_set out p out0;
            out \<leftarrow> (if remaining = 3 then slice_set out (p + 1) out1 else Some out);
            Some (out, err)
          }
        else Some (out, err))"

definition base64_decode_into_constant_time ::
  "byte list \<Rightarrow> byte list \<Rightarrow> base64_alphabet \<Rightarrow> (byte list \<times> (base64_decode_error, nat) result) option" where
  "base64_decode_into_constant_time out encoded_data alphabet =
     (if length encoded_data = 0 then Some (out, Ok 0)
      else case base64_strip_padding_info encoded_data (base64_is_padded alphabet) of
        Err e \<Rightarrow> Some (out, Err e)
      | Ok (content_len, _) \<Rightarrow>
          if content_len = 0 then Some (out, Ok 0)
          else case base64_decoded_length content_len of
            Err e \<Rightarrow> Some (out, Err e)
          | Ok computed_output \<Rightarrow>
              if length out < computed_output then Some (out, Err Base64InvalidOutputLength)
              else
                do {
                  (i, s) \<leftarrow> while_upto 32 32 content_len (base64_decode_32 encoded_data alphabet) 0 (out, 0, 0);
                  (i, s) \<leftarrow> while_upto 4 4 content_len (base64_decode_4 encoded_data alphabet) i s;
                  (out, err) \<leftarrow> base64_decode_tail encoded_data alphabet content_len i s;
                  Some (out, if err \<ge> 64 then Err Base64InvalidInput else Ok computed_output)
                })"

definition base64_decode_into ::
  "byte list \<Rightarrow> byte list \<Rightarrow> base64_alphabet \<Rightarrow> (byte list \<times> (base64_decode_error, nat) result) option" where
  "base64_decode_into out encoded_data alphabet =
     (case base64_strip_padding_info encoded_data (base64_is_padded alphabet) of
        Err e \<Rightarrow> Some (out, Err e)
      | Ok (content_len, _) \<Rightarrow>
          (case base64_decoded_length content_len of
             Err e \<Rightarrow> Some (out, Err e)
           | Ok computed_output \<Rightarrow>
               if length out < computed_output then Some (out, Err Base64InvalidOutputLength)
               else base64_decode_into_constant_time out encoded_data alphabet))"

definition base64_decode :: "byte list \<Rightarrow> base64_alphabet \<Rightarrow> (base64_decode_error, byte list) result option" where
  "base64_decode data alphabet =
     (case base64_strip_padding_info data (base64_is_padded alphabet) of
        Err e \<Rightarrow> Some (Err e)
      | Ok (content_len, _) \<Rightarrow>
          (case base64_decoded_length content_len of
             Err e \<Rightarrow> Some (Err e)
           | Ok output_len \<Rightarrow>
               do {
                 let output = replicate output_len 0;
                 (output, r) \<leftarrow> base64_decode_into output data alphabet;
                 Some (case r of Err e \<Rightarrow> Err e | Ok _ \<Rightarrow> Ok output)
               }))"

definition base64_decode_array ::
  "nat \<Rightarrow> byte list \<Rightarrow> base64_alphabet \<Rightarrow> (base64_decode_error, byte list) result option" where
  "base64_decode_array OUT encoded_data alphabet =
     do {
       let res = replicate OUT 0;
       (res, r) \<leftarrow> base64_decode_into_constant_time res encoded_data alphabet;
       Some (case r of Ok _ \<Rightarrow> Ok res | Err e \<Rightarrow> Err e)
     }"

section \<open>The sextet arithmetic is the alphabet lookup\<close>

lemma base64_range [simp]:
  "unat lo \<le> unat hi \<Longrightarrow> unat hi < unat lo + 128 \<Longrightarrow>
   base64_not_in_range v lo hi = (if lo \<le> v \<and> v \<le> hi then 0 else - 1)"
  by (simp add: base64_not_in_range_def sign_range_check)

lemma base64_not_in_range_code [code]:
  "base64_not_in_range v lo hi = (if 128 \<le> v - lo \<or> 128 \<le> hi - v then 255 else 0)"
  by (simp add: base64_not_in_range_def sign_range_check_code)

text \<open>The two maps as case distinctions, which also serve as their code equations.\<close>

lemma sextet_to_base64_char_if [code]:
  "sextet_to_base64_char sextet alphabet =
     (let v = sextet AND 0x3F in
      if v \<le> 25 then v + 65
      else if v \<le> 51 then v + 71
      else if v \<le> 61 then v - 4
      else if v = 62 then fst (base64_ch_62_63 alphabet)
      else snd (base64_ch_62_63 alphabet))"
proof -
  have v: "uint (sextet AND 0x3F) \<le> 63" using byte_and_le [of sextet "0x3F"] by simp
  have "list_all (\<lambda>k. (word_of_int k :: byte) \<le> 25 \<or> 26 \<le> (word_of_int k :: byte) \<and> (word_of_int k :: byte) \<le> 51 \<or>
      52 \<le> (word_of_int k :: byte) \<and> (word_of_int k :: byte) \<le> 61 \<or> word_of_int k = (62 :: byte) \<or> word_of_int k = (63 :: byte)) [0..63]"
    by code_simp
  from byte_less_all [OF this v]
  consider "sextet AND 0x3F \<le> 25" | "26 \<le> sextet AND 0x3F" "sextet AND 0x3F \<le> 51"
    | "52 \<le> sextet AND 0x3F" "sextet AND 0x3F \<le> 61" | "sextet AND 0x3F = 62" | "sextet AND 0x3F = 63"
    by blast
  then show ?thesis
    by cases (auto simp: sextet_to_base64_char_def Let_def case_prod_beta word_le_nat_alt)
qed

lemma base64_alphabet_cases:
  "base64_ch_62_63 alphabet = base64_ch_62_63 Standard \<or> base64_ch_62_63 alphabet = base64_ch_62_63 Url"
  by (cases alphabet) (simp_all add: base64_ch_62_63_def)

text \<open>The alphabet matters through its last two characters only.\<close>

lemma base64_alphabet_cong:
  assumes "base64_ch_62_63 a = base64_ch_62_63 b"
  shows "base64_char_to_sextet c a = base64_char_to_sextet c b"
    and "sextet_to_base64_char v a = sextet_to_base64_char v b"
  by (simp_all only: base64_char_to_sextet_def sextet_to_base64_char_def assms)

lemma base64_alphabetI:
  assumes "\<And>a b. base64_ch_62_63 a = base64_ch_62_63 b \<Longrightarrow> P a = P b" and "P Standard" and "P Url"
  shows "P alphabet"
  using base64_alphabet_cases [of alphabet] assms by metis

lemma base64_char_to_sextet_if [code]:
  "base64_char_to_sextet c alphabet =
     (if 65 \<le> c \<and> c \<le> 90 then c - 65
      else if 97 \<le> c \<and> c \<le> 122 then c - 71
      else if 48 \<le> c \<and> c \<le> 57 then c + 4
      else if c = fst (base64_ch_62_63 alphabet) then 62
      else if c = snd (base64_ch_62_63 alphabet) then 63
      else 64)" (is "?P alphabet c")
proof -
  have std: "byte_all (?P Standard)" by code_simp
  have url: "byte_all (?P Url)" by code_simp
  show ?thesis
  proof (rule base64_alphabetI)
    fix a b assume "base64_ch_62_63 a = base64_ch_62_63 b"
    then show "?P a c = ?P b c" by (simp only: base64_alphabet_cong(1) [of a b])
  next
    show "?P Standard c" using std by (rule byte_allD)
    show "?P Url c" using url by (rule byte_allD)
  qed
qed

definition base64_digits :: "base64_alphabet \<Rightarrow> byte list" where
  "base64_digits alphabet =
     ascii_bytes ''ABCDEFGHIJKLMNOPQRSTUVWXYZabcdefghijklmnopqrstuvwxyz0123456789'' @
     [fst (base64_ch_62_63 alphabet), snd (base64_ch_62_63 alphabet)]"

lemma base64_digits_code [code]:
  "base64_digits alphabet =
     [65, 66, 67, 68, 69, 70, 71, 72, 73, 74, 75, 76, 77, 78, 79, 80, 81, 82, 83, 84, 85, 86,
       87, 88, 89, 90, 97, 98, 99, 100, 101, 102, 103, 104, 105, 106, 107, 108, 109, 110, 111,
       112, 113, 114, 115, 116, 117, 118, 119, 120, 121, 122, 48, 49, 50, 51, 52, 53, 54, 55, 56,
       57] @
     [fst (base64_ch_62_63 alphabet), snd (base64_ch_62_63 alphabet)]"
  by (simp add: base64_digits_def)

lemma sextet_to_base64_char_masked:
  "sextet_to_base64_char (v AND 0x3F) alphabet = sextet_to_base64_char v alphabet"
  by (simp add: sextet_to_base64_char_def and.assoc)

lemma sextet_to_base64_char_lookup:
  "sextet_to_base64_char v alphabet = base64_digits alphabet ! unat (v AND 0x3F)"
proof -
  let ?P = "\<lambda>alphabet v. sextet_to_base64_char v alphabet = base64_digits alphabet ! unat v"
  have std: "list_all (\<lambda>k. ?P Standard (word_of_int k)) [0..63]" by code_simp
  have url: "list_all (\<lambda>k. ?P Url (word_of_int k)) [0..63]" by code_simp
  have v: "uint (v AND 0x3F) \<le> 63" using byte_and_le [of v "0x3F"] by simp
  have "?P alphabet (v AND 0x3F)"
  proof (rule base64_alphabetI)
    fix a b assume "base64_ch_62_63 a = base64_ch_62_63 b"
    then show "?P a (v AND 0x3F) = ?P b (v AND 0x3F)"
      by (simp only: base64_alphabet_cong(2) [of a b] base64_digits_def)
  next
    show "?P Standard (v AND 0x3F)" using std v by (rule byte_less_all)
    show "?P Url (v AND 0x3F)" using url v by (rule byte_less_all)
  qed
  then show ?thesis by (simp only: sextet_to_base64_char_masked)
qed

lemma base64_sextet_roundtrip:
  "base64_char_to_sextet (sextet_to_base64_char v alphabet) alphabet = v AND 0x3F"
proof -
  let ?P = "\<lambda>alphabet v. base64_char_to_sextet (sextet_to_base64_char v alphabet) alphabet = v"
  have std: "list_all (\<lambda>k. ?P Standard (word_of_int k)) [0..63]" by code_simp
  have url: "list_all (\<lambda>k. ?P Url (word_of_int k)) [0..63]" by code_simp
  have v: "uint (v AND 0x3F) \<le> 63" using byte_and_le [of v "0x3F"] by simp
  have "?P alphabet (v AND 0x3F)"
  proof (rule base64_alphabetI)
    fix a b assume "base64_ch_62_63 a = base64_ch_62_63 b"
    then show "?P a (v AND 0x3F) = ?P b (v AND 0x3F)"
      by (simp only: base64_alphabet_cong [of a b])
  next
    show "?P Standard (v AND 0x3F)" using std v by (rule byte_less_all)
    show "?P Url (v AND 0x3F)" using url v by (rule byte_less_all)
  qed
  then show ?thesis by (simp only: sextet_to_base64_char_masked)
qed

lemma base64_char_to_sextet_cases:
  "base64_char_to_sextet c alphabet < 64 \<and> sextet_to_base64_char (base64_char_to_sextet c alphabet) alphabet = c
   \<or> base64_char_to_sextet c alphabet = 64"
  (is "?P alphabet c")
proof (rule base64_alphabetI)
  fix a b assume "base64_ch_62_63 a = base64_ch_62_63 b"
  then show "?P a c = ?P b c" by (simp only: base64_alphabet_cong [of a b])
next
  have "byte_all (?P Standard)" by code_simp
  then show "?P Standard c" by (rule byte_allD)
  have "byte_all (?P Url)" by code_simp
  then show "?P Url c" by (rule byte_allD)
qed

section \<open>The encoder\<close>

text \<open>The characters of a byte sequence, group by group, as the code computes them.\<close>

fun base64_chars :: "base64_alphabet \<Rightarrow> byte list \<Rightarrow> byte list" where
  "base64_chars a (b0 # b1 # b2 # bs) =
     [sextet_to_base64_char (drop_bit 2 b0) a,
      sextet_to_base64_char (push_bit 4 (b0 AND 0x03) OR drop_bit 4 b1) a,
      sextet_to_base64_char (push_bit 2 (b1 AND 0x0F) OR drop_bit 6 b2) a,
      sextet_to_base64_char (b2 AND 0x3F) a] @ base64_chars a bs"
| "base64_chars a [b0, b1] =
     [sextet_to_base64_char (drop_bit 2 b0) a,
      sextet_to_base64_char (push_bit 4 (b0 AND 0x03) OR drop_bit 4 b1) a,
      sextet_to_base64_char (push_bit 2 (b1 AND 0x0F)) a]"
| "base64_chars a [b0] =
     [sextet_to_base64_char (drop_bit 2 b0) a, sextet_to_base64_char (push_bit 4 (b0 AND 0x03)) a]"
| "base64_chars a [] = []"

lemma three_dvd_simps:
  "3 dvd Suc (Suc (Suc n)) \<longleftrightarrow> 3 dvd n" "\<not> 3 dvd Suc (Suc 0)" "\<not> 3 dvd Suc 0"
  by presburger+

lemma base64_chars_append:
  "3 dvd length xs \<Longrightarrow> base64_chars a (xs @ ys) = base64_chars a xs @ base64_chars a ys"
  by (induction a xs rule: base64_chars.induct) (simp_all add: three_dvd_simps)

lemma length_base64_chars:
  "length (base64_chars a xs) =
     length xs div 3 * 4 + (if length xs mod 3 = 0 then 0 else length xs mod 3 + 1)"
  by (induction a xs rule: base64_chars.induct) (auto simp: mod_Suc div_Suc)

interpretation base64_enc: block_codec 3 4 "base64_chars a" "\<lambda>_. 0" for a
  by unfold_locales (auto simp: base64_chars_append length_base64_chars dvd_eq_mod_eq_0)

lemma base64_encode_24_blocks:
  assumes "j + 24 \<le> length data" and "(j div 3) * 4 + 32 \<le> length out"
  shows "base64_encode_24 data a j out =
    Some (overwrite out (j div 3 * 4) (base64_chars a (take 24 (drop j data))))"
proof -
  let ?bs = "take 24 (drop j data)"
  have "length ?bs = 24" using assms by simp
  then have "?bs = map ((!) ?bs) [0..<24]" by (metis map_nth)
  then have "base64_chars a ?bs = base64_chars a (map ((!) ?bs) [0..<24])" by (rule arg_cong)
  with assms show ?thesis
    by (simp add: base64_encode_24_def codec_simps Let_def upt_24)
qed

lemma take_3_drop: "j + 3 \<le> length data \<Longrightarrow> take 3 (drop j data) = [data ! j, data ! (j + 1), data ! (j + 2)]"
  by (simp add: numeral_3_eq_3 flip: Cons_nth_drop_Suc)

lemma base64_encode_3_blocks:
  assumes "j + 3 \<le> length data" and "(j div 3) * 4 + 4 \<le> length out"
  shows "base64_encode_3 data a j out =
    Some (overwrite out (j div 3 * 4) (base64_chars a (take 3 (drop j data))))"
  using assms by (simp add: base64_encode_3_def codec_simps Let_def take_3_drop numeral_2_eq_2)

text \<open>The text that encoding produces: the characters, then the padding.\<close>

definition base64_padding :: "base64_alphabet \<Rightarrow> nat \<Rightarrow> byte list" where
  "base64_padding a n =
     (if base64_is_padded a \<and> n mod 3 \<noteq> 0 then replicate (3 - n mod 3) base64_PAD else [])"

definition base64_text :: "base64_alphabet \<Rightarrow> byte list \<Rightarrow> byte list" where
  "base64_text a data = base64_chars a data @ base64_padding a (length data)"

lemma length_base64_text:
  "base64_encoded_length (length data) (base64_is_padded a) = Some n \<Longrightarrow> length (base64_text a data) = n"
proof -
  have "length data mod 3 = 0 \<or> length data mod 3 = 1 \<or> length data mod 3 = 2" by presburger
  then show "base64_encoded_length (length data) (base64_is_padded a) = Some n \<Longrightarrow> ?thesis"
    by (auto simp: base64_encoded_length_def Let_def base64_text_def base64_padding_def
        length_base64_chars split: option.splits if_splits)
qed

lemma base64_encode_tail_text:
  assumes j: "j = 3 * m" and t: "drop j data = t" and len: "length data = j + length t" "length t < 3"
    and enc: "length enc = 4 * m"
    and rest: "length rest = length (base64_chars a t @ base64_padding a (length data))"
  shows "base64_encode_tail data a j (enc @ rest) =
    Some (enc @ base64_chars a t @ base64_padding a (length data))"
proof -
  have "length t = 0 \<or> length t = 1 \<or> length t = 2" using len(2) by linarith
  then consider "t = []" | b0 where "t = [b0]" | b0 b1 where "t = [b0, b1]"
    using length_eq_2 [of t] by (auto simp: length_Suc_conv)
  then show ?thesis
  proof cases
    case 1
    with len rest show ?thesis
      by (simp add: base64_encode_tail_def base64_padding_def j)
  next
    case (2 b0)
    then have data: "length data = j + 1" "length data mod 3 = 1" "data ! j = b0" "j div 3 * 4 = 4 * m"
      using len t nth_via_drop [of j data b0 "[]"] by (simp_all add: j)
    show ?thesis
    proof (cases "base64_is_padded a")
      case True
      then have pad: "base64_padding a (length data) = [base64_PAD, base64_PAD]"
        using data(2) by (simp add: base64_padding_def numeral_2_eq_2)
      with rest 2 have "length rest = 4" by simp
      then obtain r0 r1 r2 r3 where "rest = [r0, r1, r2, r3]" using length_eq_4 by blast
      with True 2 data enc show ?thesis
        unfolding pad by (simp add: base64_encode_tail_def Let_def list_update_append)
    next
      case False
      then have pad: "base64_padding a (length data) = []" by (simp add: base64_padding_def)
      with rest 2 have "length rest = 2" by simp
      then obtain r0 r1 where "rest = [r0, r1]" using length_eq_2 by blast
      with False 2 data enc show ?thesis
        unfolding pad by (simp add: base64_encode_tail_def Let_def list_update_append)
    qed
  next
    case (3 b0 b1)
    have "(3 * m + 2) mod 3 = 2" by presburger
    with 3 have data: "length data = j + 2" "length data mod 3 = 2" "data ! j = b0" "data ! Suc j = b1"
      "j div 3 * 4 = 4 * m"
      using len t nth_via_drop [of j data b0 "[b1]"] nth_via_drop [of "Suc j" data b1 "[]"]
      by (simp_all add: j drop_Suc flip: tl_drop)
    show ?thesis
    proof (cases "base64_is_padded a")
      case True
      then have pad: "base64_padding a (length data) = [base64_PAD]"
        using data(2) by (simp add: base64_padding_def)
      with rest 3 have "length rest = 4" by simp
      then obtain r0 r1 r2 r3 where "rest = [r0, r1, r2, r3]" using length_eq_4 by blast
      with True 3 data enc show ?thesis
        unfolding pad by (simp add: base64_encode_tail_def Let_def list_update_append)
    next
      case False
      then have pad: "base64_padding a (length data) = []" by (simp add: base64_padding_def)
      with rest 3 have "length rest = 3" by simp
      then obtain r0 r1 r2 where "rest = [r0, r1, r2]" using length_eq_3 by blast
      with False 3 data enc show ?thesis
        unfolding pad by (simp add: base64_encode_tail_def Let_def list_update_append)
    qed
  qed
qed

lemma base64_encode_loops:
  assumes "base64_encoded_length (length data) (base64_is_padded a) = Some (length out)"
  shows "base64_encode_into_constant_time out data a = Some (base64_text a data, Ok ())"
proof -
  let ?n = "length data" and ?at = "base64_enc.loop_at a (\<lambda>_ out _. out) data out"
  have len: "length out = length (base64_text a data)" using length_base64_text [OF assms] by simp
  then have room: "?n div 3 * 4 \<le> length out"
    by (simp add: base64_text_def length_base64_chars)
  have "\<exists>j. while_upto 24 24 ?n (base64_encode_24 data a) 0 (?at 0) = Some (j, ?at j) \<and>
      3 dvd j \<and> 0 \<le> j \<and> j \<le> ?n \<and> ?n < j + 24"
    using room by (intro base64_enc.loop [where n = 8]) (simp_all add: base64_encode_24_blocks)
  then obtain j where j: "while_upto 24 24 ?n (base64_encode_24 data a) 0 (?at 0) = Some (j, ?at j)"
    "3 dvd j" "j \<le> ?n" by blast
  have "\<exists>l. while_upto 3 3 ?n (base64_encode_3 data a) j (?at j) = Some (l, ?at l) \<and>
      3 dvd l \<and> j \<le> l \<and> l \<le> ?n \<and> ?n < l + 3"
    using room j by (intro base64_enc.loop [where n = 1]) (simp_all add: base64_encode_3_blocks)
  then obtain l where l: "while_upto 3 3 ?n (base64_encode_3 data a) j (?at j) = Some (l, ?at l)"
    "3 dvd l" "l \<le> ?n" "?n < l + 3" by blast
  then obtain m where m: "l = 3 * m" by (elim dvdE)
  let ?enc = "base64_chars a (take l data)"
  have enc: "length ?enc = 4 * m" using l m by (simp add: length_base64_chars)
  have chars: "base64_chars a data = ?enc @ base64_chars a (drop l data)"
    using base64_chars_append [of "take l data" a "drop l data"] l by simp
  have at: "?at 0 = out" "?at l = ?enc @ drop (4 * m) out"
    using enc by (simp_all add: base64_enc.loop_at_def overwrite_def)
  have full: "base64_text a data = ?enc @ base64_chars a (drop l data) @ base64_padding a ?n"
    unfolding base64_text_def by (subst chars) simp
  have "length (drop (4 * m) out) = length (base64_chars a (drop l data) @ base64_padding a ?n)"
    using len enc unfolding full by simp
  with m l(3,4) enc have "base64_encode_tail data a l (?enc @ drop (4 * m) out) = Some (base64_text a data)"
    unfolding full by (intro base64_encode_tail_text) simp_all
  with j l at assms show ?thesis
    by (simp add: base64_encode_into_constant_time_def base64_check_encode_output_length_def)
qed

lemma base64_encode_text:
  assumes "base64_encoded_length (length data) (base64_is_padded a) \<noteq> None"
  shows "base64_encode data a = Some (base64_text a data)"
    and "base64_encode_into_string out data a = Some (out @ base64_text a data)"
  using assms
  by (auto simp: base64_encode_def base64_encode_into_string_def base64_encode_into_def base64_encode_loops Let_def)

text \<open>
  The specification of RFC 4648: the sextets of every 24-bit group, a shorter last group
  filled up with zero bits and cut to the sextets that carry data.
\<close>

definition base64_group :: "byte \<Rightarrow> byte \<Rightarrow> byte \<Rightarrow> nat" where
  "base64_group b0 b1 b2 = unat b0 * 2 ^ 16 + unat b1 * 2 ^ 8 + unat b2"

definition base64_group_sextets :: "nat \<Rightarrow> nat list" where
  "base64_group_sextets n = [n div 2 ^ 18, n div 2 ^ 12 mod 64, n div 2 ^ 6 mod 64, n mod 64]"

fun base64_sextets :: "byte list \<Rightarrow> nat list" where
  "base64_sextets (b0 # b1 # b2 # bs) = base64_group_sextets (base64_group b0 b1 b2) @ base64_sextets bs"
| "base64_sextets [b0, b1] = take 3 (base64_group_sextets (base64_group b0 b1 0))"
| "base64_sextets [b0] = take 2 (base64_group_sextets (base64_group b0 0 0))"
| "base64_sextets [] = []"

section \<open>The decoder\<close>

fun base64_bytes :: "base64_alphabet \<Rightarrow> byte list \<Rightarrow> byte list" where
  "base64_bytes a (c0 # c1 # c2 # c3 # cs) =
     [push_bit 2 (base64_char_to_sextet c0 a) OR drop_bit 4 (base64_char_to_sextet c1 a),
      push_bit 4 (base64_char_to_sextet c1 a) OR drop_bit 2 (base64_char_to_sextet c2 a),
      push_bit 6 (base64_char_to_sextet c2 a) OR base64_char_to_sextet c3 a] @ base64_bytes a cs"
| "base64_bytes a [c0, c1, c2] =
     [push_bit 2 (base64_char_to_sextet c0 a) OR drop_bit 4 (base64_char_to_sextet c1 a),
      push_bit 4 (base64_char_to_sextet c1 a) OR drop_bit 2 (base64_char_to_sextet c2 a)]"
| "base64_bytes a [c0, c1] =
     [push_bit 2 (base64_char_to_sextet c0 a) OR drop_bit 4 (base64_char_to_sextet c1 a)]"
| "base64_bytes a cs = []"

fun base64_err :: "base64_alphabet \<Rightarrow> byte list \<Rightarrow> byte" where
  "base64_err a [] = 0"
| "base64_err a (c # cs) = base64_char_to_sextet c a OR base64_err a cs"

text \<open>The unused low bits of the last character.\<close>

fun base64_trailing :: "base64_alphabet \<Rightarrow> byte list \<Rightarrow> byte" where
  "base64_trailing a (c0 # c1 # c2 # c3 # cs) = base64_trailing a cs"
| "base64_trailing a [c0, c1, c2] = base64_char_to_sextet c2 a AND 0x03"
| "base64_trailing a [c0, c1] = base64_char_to_sextet c1 a AND 0x0F"
| "base64_trailing a cs = 0"

lemma base64_err_append: "base64_err a (xs @ ys) = base64_err a xs OR base64_err a ys"
  by (induction xs) (simp_all add: or.assoc)

lemma four_dvd_simps:
  "4 dvd Suc (Suc (Suc (Suc n))) \<longleftrightarrow> 4 dvd n" "\<not> 4 dvd Suc (Suc (Suc 0))" "\<not> 4 dvd Suc (Suc 0)" "\<not> 4 dvd Suc 0"
  by presburger+

lemma base64_bytes_append:
  "4 dvd length xs \<Longrightarrow> base64_bytes a (xs @ ys) = base64_bytes a xs @ base64_bytes a ys"
  by (induction a xs rule: base64_bytes.induct) (simp_all add: four_dvd_simps)

lemma base64_trailing_append: "4 dvd length xs \<Longrightarrow> base64_trailing a (xs @ ys) = base64_trailing a ys"
  by (induction a xs rule: base64_trailing.induct) (simp_all add: four_dvd_simps)

lemma length_base64_bytes:
  "length (base64_bytes a xs) = length xs div 4 * 3 + (length xs mod 4 - 1)"
  by (induction a xs rule: base64_bytes.induct) (auto simp: mod_Suc div_Suc)

interpretation base64_dec: block_codec 4 3 "base64_bytes a" "base64_err a" for a
  by unfold_locales (auto simp: base64_bytes_append base64_err_append length_base64_bytes dvd_eq_mod_eq_0)

lemma base64_decode_32_blocks:
  assumes "j + 32 \<le> length data" and "p + 24 \<le> length out"
  shows "base64_decode_32 data a j (out, p, e) =
    Some (overwrite out p (base64_bytes a (take 32 (drop j data))), p + 24,
          e OR base64_err a (take 32 (drop j data)))"
proof -
  let ?bs = "take 32 (drop j data)"
  have "length ?bs = 32" using assms by simp
  then have bs: "?bs = map ((!) ?bs) [0..<32]" by (metis map_nth)
  then have "base64_bytes a ?bs = base64_bytes a (map ((!) ?bs) [0..<32])" by (rule arg_cong)
  moreover from bs have "base64_err a ?bs = base64_err a (map ((!) ?bs) [0..<32])" by (rule arg_cong)
  ultimately show ?thesis
    using assms by (simp add: base64_decode_32_def codec_simps Let_def upt_32 or.assoc)
qed

lemma take_4_drop:
  "j + 4 \<le> length data \<Longrightarrow> take 4 (drop j data) = [data ! j, data ! (j + 1), data ! (j + 2), data ! (j + 3)]"
  by (simp add: numeral_eq_Suc flip: Cons_nth_drop_Suc)

lemma base64_decode_4_blocks:
  assumes "j + 4 \<le> length data" and "p + 3 \<le> length out"
  shows "base64_decode_4 data a j (out, p, e) =
    Some (overwrite out p (base64_bytes a (take 4 (drop j data))), p + 3,
          e OR base64_err a (take 4 (drop j data)))"
  using assms by (simp add: base64_decode_4_def codec_simps Let_def take_4_drop or.assoc)

lemma base64_decode_tail_bytes:
  assumes t: "take (length t) (drop j data) = t" and len: "length t = 0 \<or> length t = 2 \<or> length t = 3"
    and content: "content_len = j + length t" and room: "p + (length t - 1) \<le> length out"
  shows "base64_decode_tail data a content_len j (out, p, e) =
    Some (overwrite out p (base64_bytes a t),
      e OR base64_err a t OR (if base64_trailing a t \<noteq> 0 then 64 else 0))"
proof -
  have fits: "i < length t \<Longrightarrow> j + i < length data \<and> data ! (j + i) = t ! i" for i
    using arg_cong [OF t, of length] arg_cong [OF t, of "\<lambda>xs. xs ! i"] by simp
  from len consider "t = []" | c0 c1 where "t = [c0, c1]" | c0 c1 c2 where "t = [c0, c1, c2]"
    using length_eq_2 [of t] length_eq_3 [of t] by auto
  then show ?thesis
  proof cases
    case 1
    then show ?thesis using content by (simp add: base64_decode_tail_def overwrite_def)
  next
    case (2 c0 c1)
    then show ?thesis using content room fits [of 0] fits [of 1]
      by (simp add: base64_decode_tail_def Let_def overwrite_single or.assoc)
  next
    case (3 c0 c1 c2)
    have two: "out[p := x, Suc p := y] = overwrite out p [x, y]" for x y
      using slice_sets_overwrite [of p "[x, y]" out] room 3 by (simp add: slice_sets.simps)
    show ?thesis using 3 content room fits [of 0] fits [of 1] fits [of 2]
      by (simp add: base64_decode_tail_def Let_def two or.assoc)
  qed
qed

lemma base64_decode_content:
  assumes data: "data = cs @ pads" and cs: "cs \<noteq> []"
    and strip: "base64_strip_padding_info data (base64_is_padded a) = Ok (length cs, k)"
    and n: "base64_decoded_length (length cs) = Ok n" and room: "n \<le> length out"
  shows "base64_decode_into_constant_time out data a =
    Some (overwrite out 0 (base64_bytes a cs),
      if base64_err a cs < 64 \<and> base64_trailing a cs = 0 then Ok n else Err Base64InvalidInput)"
proof -
  let ?n = "length cs" and ?at = "base64_dec.loop_at a (\<lambda>i out e. (out, i div 4 * 3, e)) data out"
  have le: "?n \<le> length data" using data by simp
  have mod: "?n mod 4 \<noteq> 1" and n_eq: "n = ?n div 4 * 3 + (?n mod 4 - 1)"
    using n by (auto simp: base64_decoded_length_def Let_def split: option.splits if_splits)
  then have rm: "?n div 4 * 3 \<le> length out" using room by simp
  have "\<exists>j. while_upto 32 32 ?n (base64_decode_32 data a) 0 (?at 0) = Some (j, ?at j) \<and>
      4 dvd j \<and> 0 \<le> j \<and> j \<le> ?n \<and> ?n < j + 32"
    using rm le by (intro base64_dec.loop [where n = 8])
      (auto simp: base64_decode_32_blocks elim!: dvdE)
  then obtain j where j: "while_upto 32 32 ?n (base64_decode_32 data a) 0 (?at 0) = Some (j, ?at j)"
    "4 dvd j" "j \<le> ?n" by blast
  have "\<exists>l. while_upto 4 4 ?n (base64_decode_4 data a) j (?at j) = Some (l, ?at l) \<and>
      4 dvd l \<and> j \<le> l \<and> l \<le> ?n \<and> ?n < l + 4"
    using rm le j by (intro base64_dec.loop [where n = 1])
      (auto simp: base64_decode_4_blocks elim!: dvdE)
  then obtain l where l: "while_upto 4 4 ?n (base64_decode_4 data a) j (?at j) = Some (l, ?at l)"
    "4 dvd l" "l \<le> ?n" "?n < l + 4" by blast
  then obtain m where m: "l = 4 * m" by (elim dvdE)
  let ?t = "drop l cs" and ?full = "take l cs"
  have tk: "take l data = ?full" "take (length ?t) (drop l data) = ?t" using l data by simp_all
  have md: "?n mod 4 = ?n - l" "?n div 4 = m" using l(3,4) unfolding m by presburger+
  have bytes: "base64_bytes a cs = base64_bytes a ?full @ base64_bytes a ?t"
    and err: "base64_err a cs = base64_err a ?full OR base64_err a ?t"
    and trail: "base64_trailing a cs = base64_trailing a ?t"
    using base64_bytes_append [of ?full a ?t] base64_err_append [of a ?full ?t]
      base64_trailing_append [of ?full a ?t] l by simp_all
  have full: "length (base64_bytes a ?full) = 3 * m" using l m by (simp add: length_base64_bytes)
  have at: "?at 0 = (out, 0, 0)"
    "?at l = (overwrite out 0 (base64_bytes a ?full), 3 * m, base64_err a ?full)"
    using m tk by (simp_all add: base64_dec.loop_at_def overwrite_def)
  let ?o1 = "overwrite out 0 (base64_bytes a ?full)"
  have o1: "length ?o1 = length out" using full rm md by (simp add: overwrite_def)
  have "base64_decode_tail data a ?n l (?o1, 3 * m, base64_err a ?full) =
      Some (overwrite ?o1 (3 * m) (base64_bytes a ?t),
        base64_err a ?full OR base64_err a ?t OR (if base64_trailing a ?t \<noteq> 0 then 64 else 0))"
    using tk l mod md n_eq room o1
    by (intro base64_decode_tail_bytes) (simp_all, linarith)
  moreover have "overwrite ?o1 (3 * m) (base64_bytes a ?t) = overwrite out 0 (base64_bytes a cs)"
    using full by (simp add: overwrite_def bytes add.commute)
  ultimately have tail: "base64_decode_tail data a ?n l (?at l) =
      Some (overwrite out 0 (base64_bytes a cs),
        base64_err a cs OR (if base64_trailing a cs \<noteq> 0 then 64 else 0))"
    unfolding at(2) by (simp add: err trail or.assoc)
  have "base64_err a cs OR (if base64_trailing a cs \<noteq> 0 then 64 else 0) < 64 \<longleftrightarrow>
      base64_err a cs < 64 \<and> base64_trailing a cs = 0"
    by (simp add: or_sextet)
  with tail j l at strip n room data cs show ?thesis
    by (simp add: base64_decode_into_constant_time_def not_less flip: not_le)
qed

text \<open>Decoding inverts encoding, and re-encoding what was accepted gives the input back.\<close>

lemma base64_recombine:
  fixes b0 b1 b2 :: byte
  shows "push_bit 2 (drop_bit 2 b0 AND 0x3F) OR drop_bit 4 ((push_bit 4 (b0 AND 0x03) OR drop_bit 4 b1) AND 0x3F) = b0"
    and "push_bit 4 ((push_bit 4 (b0 AND 0x03) OR drop_bit 4 b1) AND 0x3F) OR
      drop_bit 2 ((push_bit 2 (b1 AND 0x0F) OR drop_bit 6 b2) AND 0x3F) = b1"
    and "push_bit 6 ((push_bit 2 (b1 AND 0x0F) OR drop_bit 6 b2) AND 0x3F) OR ((b2 AND 0x3F) AND 0x3F) = b2"
    and "push_bit 4 ((push_bit 4 (b0 AND 0x03) OR drop_bit 4 b1) AND 0x3F) OR
      drop_bit 2 (push_bit 2 (b1 AND 0x0F) AND 0x3F) = b1"
    and "push_bit 2 (drop_bit 2 b0 AND 0x3F) OR drop_bit 4 (push_bit 4 (b0 AND 0x03) AND 0x3F) = b0"
  by (rule byte_bit_eqI; simp add: bit_simps)+

lemma base64_split:
  fixes v0 v1 v2 v3 :: byte
  shows "v0 < 64 \<Longrightarrow> v1 < 64 \<Longrightarrow> drop_bit 2 (push_bit 2 v0 OR drop_bit 4 v1) = v0"
    and "v1 < 64 \<Longrightarrow> v2 < 64 \<Longrightarrow>
      push_bit 4 ((push_bit 2 v0 OR drop_bit 4 v1) AND 0x03) OR drop_bit 4 (push_bit 4 v1 OR drop_bit 2 v2) = v1"
    and "v2 < 64 \<Longrightarrow> v3 < 64 \<Longrightarrow>
      push_bit 2 ((push_bit 4 v1 OR drop_bit 2 v2) AND 0x0F) OR drop_bit 6 (push_bit 6 v2 OR v3) = v2"
    and "v3 < 64 \<Longrightarrow> (push_bit 6 v2 OR v3) AND 0x3F = v3"
  by (auto simp: sextet_bits bit_simps intro!: byte_bit_eqI)

lemma base64_split_tail:
  fixes v0 v1 v2 :: byte
  shows "v1 < 64 \<Longrightarrow> v1 AND 0x0F = 0 \<Longrightarrow> push_bit 4 ((push_bit 2 v0 OR drop_bit 4 v1) AND 0x03) = v1"
    and "v2 < 64 \<Longrightarrow> v2 AND 0x03 = 0 \<Longrightarrow> push_bit 2 ((push_bit 4 v1 OR drop_bit 2 v2) AND 0x0F) = v2"
proof -
  assume v1: "v1 < 64" and "v1 AND 0x0F = 0"
  then have "bit (v1 AND 0x0F) n = False" for n by simp
  from this [of 0] this [of 1] this [of 2] this [of 3] v1
  show "push_bit 4 ((push_bit 2 v0 OR drop_bit 4 v1) AND 0x03) = v1"
    by (auto simp: sextet_bits bit_simps intro!: byte_bit_eqI)
next
  assume v2: "v2 < 64" and "v2 AND 0x03 = 0"
  then have "bit (v2 AND 0x03) n = False" for n by simp
  from this [of 0] this [of 1] v2
  show "push_bit 2 ((push_bit 4 v1 OR drop_bit 2 v2) AND 0x0F) = v2"
    by (auto simp: sextet_bits bit_simps intro!: byte_bit_eqI)
qed

lemma base64_trailing_tail:
  fixes b0 b1 :: byte
  shows "(push_bit 4 (b0 AND 0x03) AND 0x3F) AND 0x0F = 0"
    and "(push_bit 2 (b1 AND 0x0F) AND 0x3F) AND 0x03 = 0"
  by (rule byte_bit_eqI; simp add: bit_simps)+

lemma base64_bytes_chars: "base64_bytes a (base64_chars a data) = data"
  by (induction a data rule: base64_chars.induct)
    (simp_all only: base64_chars.simps base64_bytes.simps append.simps base64_sextet_roundtrip
       base64_recombine)

lemma sextet_mask_less: "(v :: byte) AND 0x3F < 64"
  by (simp add: sextet_bits bit_simps)

lemma base64_err_chars: "base64_err a (base64_chars a data) < 64"
  by (induction a data rule: base64_chars.induct)
    (simp_all only: base64_chars.simps append.simps base64_err.simps or_sextet base64_sextet_roundtrip
       sextet_mask_less, simp_all)

lemma base64_trailing_chars: "base64_trailing a (base64_chars a data) = 0"
  by (induction a data rule: base64_chars.induct)
    (simp_all only: base64_chars.simps append.simps base64_trailing.simps base64_sextet_roundtrip
       base64_trailing_tail)

lemma base64_char_inverse:
  "base64_char_to_sextet c a < 64 \<Longrightarrow> sextet_to_base64_char (base64_char_to_sextet c a) a = c"
  using base64_char_to_sextet_cases [of c a] by auto

lemma base64_chars_bytes:
  "base64_err a cs < 64 \<Longrightarrow> base64_trailing a cs = 0 \<Longrightarrow> length cs mod 4 \<noteq> 1 \<Longrightarrow>
   base64_chars a (base64_bytes a cs) = cs"
proof (induction a cs rule: base64_bytes.induct)
  case (1 a c0 c1 c2 c3 cs)
  then have "base64_chars a (base64_bytes a cs) = cs" by (simp add: or_sextet mod_Suc split: if_splits)
  moreover have "base64_char_to_sextet c0 a < 64" "base64_char_to_sextet c1 a < 64"
    "base64_char_to_sextet c2 a < 64" "base64_char_to_sextet c3 a < 64"
    using "1.prems"(1) by (simp_all add: or_sextet)
  ultimately show ?case
    by (simp only: base64_bytes.simps base64_chars.simps append.simps base64_split base64_char_inverse)
next
  case (2 a c0 c1 c2)
  have "base64_char_to_sextet c0 a < 64" "base64_char_to_sextet c1 a < 64"
    "base64_char_to_sextet c2 a < 64" "base64_char_to_sextet c2 a AND 0x03 = 0"
    using "2.prems" by (simp_all add: or_sextet)
  then show ?case
    by (simp only: base64_bytes.simps base64_chars.simps base64_split(1) base64_split(2)
        base64_split_tail base64_char_inverse)
next
  case (3 a c0 c1)
  have "base64_char_to_sextet c0 a < 64" "base64_char_to_sextet c1 a < 64"
    "base64_char_to_sextet c1 a AND 0x0F = 0"
    using "3.prems" by (simp_all add: or_sextet)
  then show ?case
    by (simp only: base64_bytes.simps base64_chars.simps base64_split(1)
        base64_split_tail base64_char_inverse)
qed simp_all

section \<open>Padding\<close>

lemma base64_PAD_nonzero [simp]: "base64_PAD \<noteq> 0" "0 \<noteq> base64_PAD"
  by (simp_all add: base64_PAD_def)

text \<open>The number of trailing padding characters, of which the code counts at most three.\<close>

definition base64_trailing_pads :: "byte list \<Rightarrow> nat" where
  "base64_trailing_pads data =
     (let is_pad = (\<lambda>i. i < length data \<and> data ! (length data - Suc i) = base64_PAD)
      in if \<not> is_pad 0 then 0 else if \<not> is_pad 1 then 1 else if \<not> is_pad 2 then 2 else 3)"

lemma base64_strip_padded:
  defines "k data \<equiv> base64_trailing_pads data"
  shows "base64_strip_padding_info data True =
    (if k data \<noteq> 0 \<and> length data mod 4 \<noteq> 0 then Err Base64InvalidInputLength
     else if k data = 3 \<or> k data \<noteq> 0 \<and> (length data - k data) mod 4 \<noteq> 4 - k data then Err Base64InvalidPadding
     else Ok (length data - k data, k data))"
proof -
  define b0 where "b0 = (if length data > 0 then data ! (length data - 1) else 0)"
  define b1 where "b1 = (if length data > 1 then data ! (length data - 2) else 0)"
  define b2 where "b2 = (if length data > 2 then data ! (length data - 3) else 0)"
  have k: "k data = (if b0 \<noteq> base64_PAD then 0 else if b1 \<noteq> base64_PAD then 1
      else if b2 \<noteq> base64_PAD then 2 else 3)"
    by (auto simp: k_def base64_trailing_pads_def b0_def b1_def b2_def numeral_2_eq_2 numeral_3_eq_3)
  show ?thesis
    unfolding base64_strip_padding_info_def Let_def b0_def [symmetric] b1_def [symmetric] b2_def [symmetric] k
    by (cases "b0 = base64_PAD"; cases "b1 = base64_PAD"; cases "b2 = base64_PAD")
      (simp_all add: numeral_2_eq_2)
qed

lemma base64_trailing_pads_split:
  assumes "base64_trailing_pads data = k"
  shows "data = take (length data - k) data @ replicate k base64_PAD" and "k \<le> length data"
proof -
  let ?n = "length data"
  have "i < ?n \<and> data ! (?n - Suc i) = base64_PAD" if "i < k" for i
  proof -
    from that assms have "i \<in> {0, 1, 2}" "k \<le> 3"
      by (auto simp: base64_trailing_pads_def Let_def split: if_splits)
    with that assms show ?thesis
      by (auto simp: base64_trailing_pads_def Let_def split: if_splits)
  qed
  note pads = this
  show "k \<le> ?n" using pads [of "k - 1"] by (cases k) auto
  moreover have "drop (?n - k) data ! i = base64_PAD" if "i < k" for i
    using pads [of "k - 1 - i"] that \<open>k \<le> ?n\<close> by (simp add: Suc_diff_Suc)
  ultimately have "drop (?n - k) data = replicate k base64_PAD"
    by (intro nth_equalityI) simp_all
  then show "data = take (?n - k) data @ replicate k base64_PAD" by (metis append_take_drop_id)
qed

lemma base64_trailing_pads_append:
  assumes "cs = [] \<or> last cs \<noteq> base64_PAD" and "k \<le> 2"
  shows "base64_trailing_pads (cs @ replicate k base64_PAD) = k"
proof -
  have nl: "cs = [] \<or> cs ! (length cs - 1) \<noteq> base64_PAD" using assms(1) by (auto simp: last_conv_nth)
  have "k = 0 \<or> k = 1 \<or> k = 2" using assms(2) by linarith
  then show ?thesis
    using nl by (auto simp: base64_trailing_pads_def Let_def nth_append numeral_2_eq_2 split: if_splits)
qed

lemma base64_strip_Ok:
  assumes "base64_strip_padding_info data padded = Ok (n, k)"
  shows "data = take n data @ replicate k base64_PAD" and "n + k = length data"
    and "k \<noteq> 0 \<Longrightarrow> padded \<and> k \<le> 2 \<and> n mod 4 = 4 - k"
proof -
  have "data = take n data @ replicate k base64_PAD \<and> n + k = length data \<and>
      (k \<noteq> 0 \<longrightarrow> padded \<and> k \<le> 2 \<and> n mod 4 = 4 - k)"
  proof (cases padded)
    case True
    have "base64_trailing_pads data \<le> 3" by (simp add: base64_trailing_pads_def Let_def)
    with True assms base64_trailing_pads_split [OF refl, of data] show ?thesis
      by (auto simp: base64_strip_padded split: if_splits)
  next
    case False
    with assms show ?thesis by (auto simp: base64_strip_padding_info_def Let_def split: if_splits)
  qed
  then show "data = take n data @ replicate k base64_PAD" and "n + k = length data"
    and "k \<noteq> 0 \<Longrightarrow> padded \<and> k \<le> 2 \<and> n mod 4 = 4 - k" by blast+
qed

lemma base64_strip_pads:
  assumes "cs = [] \<or> last cs \<noteq> base64_PAD" and "k = 0 \<or> padded \<and> k \<le> 2 \<and> length cs mod 4 = 4 - k"
  shows "base64_strip_padding_info (cs @ replicate k base64_PAD) padded = Ok (length cs, k)"
proof (cases padded)
  case True
  have "(length cs + k) mod 4 = 0" if "k \<noteq> 0"
  proof -
    have "length cs mod 4 + k = 4" using assms(2) that by auto
    then show ?thesis by (metis mod_add_left_eq mod_self)
  qed
  moreover have "base64_trailing_pads (cs @ replicate k base64_PAD) = k"
    using assms(2) by (intro base64_trailing_pads_append [OF assms(1)]) auto
  ultimately show ?thesis
    using True assms(2) by (cases "k = 0") (auto simp: base64_strip_padded)
next
  case False
  with assms show ?thesis
    by (auto simp: base64_strip_padding_info_def Let_def last_conv_nth)
qed

lemma base64_PAD_invalid: "base64_char_to_sextet base64_PAD a = 64"
  by (cases a) (simp_all add: base64_char_to_sextet_if base64_PAD_def base64_ch_62_63_def)

lemma base64_err_less: "base64_err a cs < 64 \<Longrightarrow> c \<in> set cs \<Longrightarrow> base64_char_to_sextet c a < 64"
  by (induction cs) (auto simp: or_sextet)

lemma base64_chars_no_PAD: "base64_chars a d = [] \<or> last (base64_chars a d) \<noteq> base64_PAD"
  using base64_err_less [OF base64_err_chars [of a d], of "last (base64_chars a d)"] base64_PAD_invalid [of a]
  by (metis last_in_set less_irrefl)

lemma base64_decoded_length_eq:
  assumes "n < usize_limit"
  shows "base64_decoded_length n =
    (if n mod 4 = 1 then Err Base64InvalidInputLength else Ok (n div 4 * 3 + (n mod 4 - 1)))"
proof -
  have "n mod 4 = 0 \<or> n mod 4 = 1 \<or> n mod 4 = 2 \<or> n mod 4 = 3" by presburger
  moreover have "n div 4 * 3 + (n mod 4 - 1) < usize_limit"
  proof -
    have "n div 4 * 3 + (n mod 4 - 1) \<le> n div 4 * 4 + n mod 4" by linarith
    with assms show ?thesis by simp
  qed
  ultimately show ?thesis
    by (auto simp: base64_decoded_length_def Let_def checked_mul_def checked_add_def)
qed

lemma base64_decode_eq:
  assumes strip: "base64_strip_padding_info data (base64_is_padded a) = Ok (n, k)"
    and cs: "take n data = cs" and len: "length data < usize_limit"
  shows "base64_decode data a =
    Some (if n mod 4 = 1 then Err Base64InvalidInputLength
      else if base64_err a cs < 64 \<and> base64_trailing a cs = 0 then Ok (base64_bytes a cs)
      else Err Base64InvalidInput)"
proof -
  note sOk = base64_strip_Ok [OF strip]
  have n: "length cs = n" "n < usize_limit" using sOk(2) cs len by auto
  note dl = base64_decoded_length_eq [OF n(2)]
  show ?thesis
  proof (cases "n mod 4 = 1")
    case True
    with strip dl show ?thesis by (simp add: base64_decode_def)
  next
    case False
    let ?m = "n div 4 * 3 + (n mod 4 - 1)"
    have m: "length (base64_bytes a cs) = ?m" using n by (simp add: length_base64_bytes)
    show ?thesis
    proof (cases "n = 0")
      case True
      with strip dl n show ?thesis
        by (simp add: base64_decode_def base64_decode_into_def base64_decode_into_constant_time_def)
    next
      case False2: False
      have "base64_decode_into_constant_time (replicate ?m 0) data a =
          Some (overwrite (replicate ?m 0) 0 (base64_bytes a cs),
            if base64_err a cs < 64 \<and> base64_trailing a cs = 0 then Ok ?m else Err Base64InvalidInput)"
        using sOk(1) strip n cs dl False False2
        by (intro base64_decode_content [where pads = "replicate k base64_PAD" and k = k]) auto
      with strip dl False m show ?thesis
        by (auto simp: base64_decode_def base64_decode_into_def overwrite_def)
    qed
  qed
qed

section \<open>The specification of RFC 4648\<close>

lemma base64_group_div:
  fixes q0 r0 q1 r1 q2 r2 :: nat
  assumes "r0 < 4" "r1 < 16" "r2 < 64" "q0 < 64" "q1 < 16" "q2 < 4"
  defines "n \<equiv> (4 * q0 + r0) * 65536 + (16 * q1 + r1) * 256 + (64 * q2 + r2)"
  shows "n div 262144 = q0" and "n div 4096 mod 64 = r0 * 16 + q1" and "n div 64 mod 64 = r1 * 4 + q2"
    and "n mod 64 = r2"
proof -
  have "n = q0 * 262144 + (r0 * 65536 + q1 * 4096 + r1 * 256 + q2 * 64 + r2)"
    "r0 * 65536 + q1 * 4096 + r1 * 256 + q2 * 64 + r2 < 262144"
    using assms(1-6) by (simp_all add: n_def)
  then show "n div 262144 = q0" by simp
  show "n div 4096 mod 64 = r0 * 16 + q1"
    using div_mod_field [of "r1 * 256 + q2 * 64 + r2" 4096 "r0 * 16 + q1" 64 q0] assms(1-6)
    by (simp add: n_def algebra_simps)
  show "n div 64 mod 64 = r1 * 4 + q2"
    using div_mod_field [of r2 64 "r1 * 4 + q2" 64 "q0 * 64 + r0 * 16 + q1"] assms(1-6)
    by (simp add: n_def algebra_simps)
  have "n = ((4 * q0 + r0) * 1024 + (16 * q1 + r1) * 4 + q2) * 64 + r2" by (simp add: n_def)
  then show "n mod 64 = r2" using assms(3) by (simp only: mod_mult_self3 mod_less)
qed

lemma unat_and_low:
  "unat ((v :: byte) AND 0x3F) = unat v mod 64" "unat (v AND 0x0F) = unat v mod 16" "unat (v AND 0x03) = unat v mod 4"
  using unat_and_mask_mod [of v 6] unat_and_mask_mod [of v 4] unat_and_mask_mod [of v 2]
  by (simp_all add: mask_eq_exp_minus_1)

lemma base64_group_sextets_eq:
  "base64_group_sextets (base64_group b0 b1 b2) =
    [unat (drop_bit 2 b0 AND 0x3F), unat ((push_bit 4 (b0 AND 0x03) OR drop_bit 4 b1) AND 0x3F),
     unat ((push_bit 2 (b1 AND 0x0F) OR drop_bit 6 b2) AND 0x3F), unat ((b2 AND 0x3F) AND 0x3F)]"
proof -
  define q0 r0 q1 r1 q2 r2 where "q0 = unat b0 div 4" and "r0 = unat b0 mod 4" and "q1 = unat b1 div 16"
    and "r1 = unat b1 mod 16" and "q2 = unat b2 div 64" and "r2 = unat b2 mod 64"
  note defs = this
  have b: "unat b0 = 4 * q0 + r0" "unat b1 = 16 * q1 + r1" "unat b2 = 64 * q2 + r2" by (simp_all add: defs)
  have lt: "r0 < 4" "r1 < 16" "r2 < 64" by (simp_all add: defs)
  have lt': "q0 < 64" "q1 < 16" "q2 < 4"
    using unat_byte_less [of b0] unat_byte_less [of b1] unat_byte_less [of b2] by (simp_all add: b)
  have d: "unat (drop_bit 2 b0) = q0" "unat (drop_bit 4 b1) = q1" "unat (drop_bit 6 b2) = q2"
    by (simp_all only: unat_drop_bit_eq) (simp_all add: drop_bit_eq_div defs)
  have m: "unat (b0 AND 0x03) = r0" "unat (b1 AND 0x0F) = r1" "unat (b2 AND 0x3F) = r2"
    by (simp_all add: unat_and_low defs)
  have "unat (push_bit 4 (b0 AND 0x03) OR drop_bit 4 b1) = r0 * 16 + q1"
    using unat_push_or [of "b0 AND 0x03" 4 "drop_bit 4 b1"] lt lt' by (simp add: m d)
  moreover have "unat (push_bit 2 (b1 AND 0x0F) OR drop_bit 6 b2) = r1 * 4 + q2"
    using unat_push_or [of "b1 AND 0x0F" 2 "drop_bit 6 b2"] lt lt' by (simp add: m d)
  ultimately show ?thesis
    using base64_group_div [OF lt lt'] lt lt'
    by (simp add: base64_group_sextets_def base64_group_def b unat_and_low d m)
qed

lemma base64_chars_spec: "base64_chars a data = map ((!) (base64_digits a)) (base64_sextets data)"
proof (induction a data rule: base64_chars.induct)
  case (1 a b0 b1 b2 bs)
  then show ?case by (simp add: base64_group_sextets_eq sextet_to_base64_char_lookup)
next
  case (2 a b0 b1)
  show ?case by (simp add: base64_group_sextets_eq sextet_to_base64_char_lookup)
next
  case (3 a b0)
  show ?case by (simp add: base64_group_sextets_eq sextet_to_base64_char_lookup)
qed simp

lemma length_base64_digits [simp]: "length (base64_digits a) = 64"
  by (simp add: base64_digits_def)

lemma base64_char_valid: "base64_char_to_sextet c a < 64 \<longleftrightarrow> c \<in> set (base64_digits a)"
proof
  assume "base64_char_to_sextet c a < 64"
  then have "c = base64_digits a ! unat (base64_char_to_sextet c a AND 0x3F)"
    by (simp only: base64_char_inverse flip: sextet_to_base64_char_lookup)
  then show "c \<in> set (base64_digits a)"
    by (metis length_base64_digits mod_less_divisor nth_mem unat_and_low(1) zero_less_numeral)
next
  assume "c \<in> set (base64_digits a)"
  then obtain i where "i < 64" "c = base64_digits a ! i" by (auto simp: in_set_conv_nth)
  then have "c = sextet_to_base64_char (word_of_nat i) a"
    by (simp add: sextet_to_base64_char_lookup unat_and_low unsigned_of_nat take_bit_eq_mod)
  then show "base64_char_to_sextet c a < 64"
    by (simp only: base64_sextet_roundtrip sextet_mask_less)
qed

lemma base64_err_valid: "base64_err a cs < 64 \<longleftrightarrow> list_all (\<lambda>c. c \<in> set (base64_digits a)) cs"
  by (induction cs) (simp_all add: or_sextet base64_char_valid)

lemma base64_encoded_length_bound:
  assumes "base64_encoded_length n padded = Some m"
  shows "m < usize_limit"
  using assms by (auto simp: base64_encoded_length_def Let_def usize_limit_def split: option.splits if_splits)

lemma base64_strip_unpadded:
  "base64_strip_padding_info data False =
    (if base64_trailing_pads data \<noteq> 0 then Err Base64InvalidPadding else Ok (length data, 0))"
  by (auto simp: base64_strip_padding_info_def base64_trailing_pads_def Let_def)

lemma base64_decode_canonical:
  assumes "s = base64_chars a d \<or> s = base64_text a d" and "length s < usize_limit"
  shows "base64_decode s a = Some (Ok d)"
proof -
  let ?cs = "base64_chars a d"
  obtain k where s: "s = ?cs @ replicate k base64_PAD"
    and k: "k = 0 \<or> base64_is_padded a \<and> k = 3 - length d mod 3 \<and> length d mod 3 \<noteq> 0"
    using assms(1) by (auto simp: base64_text_def base64_padding_def split: if_splits)
  have "length ?cs mod 4 = (if length d mod 3 = 0 then 0 else length d mod 3 + 1)"
    unfolding length_base64_chars by (auto simp: mod_Suc)
  then have md: "length ?cs mod 4 \<noteq> 1" "k \<noteq> 0 \<Longrightarrow> length ?cs mod 4 = 4 - k \<and> k \<le> 2"
    using k by auto
  then have "base64_strip_padding_info s (base64_is_padded a) = Ok (length ?cs, k)"
    using k unfolding s by (intro base64_strip_pads base64_chars_no_PAD) auto
  from base64_decode_eq [OF this, of ?cs] assms(2) md show ?thesis
    by (simp add: s base64_err_chars base64_trailing_chars base64_bytes_chars)
qed

lemma base64_decode_accepted:
  assumes "base64_decode s a = Some (Ok d)" and "length s < usize_limit"
  shows "s = base64_chars a d \<or> s = base64_text a d"
proof -
  obtain n k where strip: "base64_strip_padding_info s (base64_is_padded a) = Ok (n, k)"
    using assms(1) by (auto simp: base64_decode_def split: sum.splits)
  note sOk = base64_strip_Ok [OF strip]
  let ?cs = "take n s"
  have acc: "n mod 4 \<noteq> 1" "base64_err a ?cs < 64" "base64_trailing a ?cs = 0" "base64_bytes a ?cs = d"
    using assms base64_decode_eq [OF strip refl] by (auto split: if_splits)
  have n: "length ?cs = n" using sOk(2) by simp
  have cs: "base64_chars a d = ?cs" using base64_chars_bytes [of a ?cs] acc n by simp
  show ?thesis
  proof (cases "k = 0")
    case True
    then show ?thesis using sOk(1) cs by simp
  next
    case False
    then have k: "base64_is_padded a" "k \<le> 2" "n mod 4 = 4 - k" using sOk(3) by auto
    have "length d = 3 * (n div 4) + (3 - k)"
      using False k acc(4) n length_base64_bytes [of a ?cs] by auto
    then have "length d mod 3 = 3 - k" using False by simp
    then have "base64_padding a (length d) = replicate k base64_PAD"
      using False k by (auto simp: base64_padding_def)
    then show ?thesis using sOk(1) cs by (simp add: base64_text_def)
  qed
qed

section \<open>Properties\<close>

text \<open>
  C9: encoding writes the alphabet's character of every sextet of the data, as RFC 4648
  groups them, followed by the padding of the alphabet; it panics only when the encoded
  length is no \<open>usize\<close>, the string variant appends and the array variant panics unless the
  array has exactly the encoded length.
\<close>

theorem base64_encode_correct:
  "let txt = map ((!) (base64_digits a)) (base64_sextets data) @ base64_padding a (length data);
       len = base64_encoded_length (length data) (base64_is_padded a)
   in base64_encode data a = (if len = None then None else Some txt) \<and>
      base64_encode_into_string out data a = (if len = None then None else Some (out @ txt)) \<and>
      base64_encode_array OUT data a = (if len = Some OUT then Some txt else None)"
proof -
  let ?len = "base64_encoded_length (length data) (base64_is_padded a)"
  have spec: "map ((!) (base64_digits a)) (base64_sextets data) @ base64_padding a (length data) = base64_text a data"
    by (simp add: base64_text_def base64_chars_spec)
  have arr: "base64_encode_array OUT data a = (if ?len = Some OUT then Some (base64_text a data) else None)"
  proof (cases "?len = Some OUT")
    case True
    then show ?thesis by (simp add: base64_encode_array_def base64_encode_loops)
  next
    case False
    then show ?thesis
      by (auto simp: base64_encode_array_def base64_encode_into_constant_time_def
          base64_check_encode_output_length_def Let_def split: option.splits)
  qed
  show ?thesis
    unfolding Let_def spec using arr base64_encode_text [of data a]
    by (auto simp: base64_encode_def base64_encode_into_string_def)
qed

text \<open>
  C30: \<open>encoded_length\<close> is the exact length of the text, rounded up to groups of four
  characters when the alphabet pads, and \<open>None\<close> exactly when that is no \<open>usize\<close>: the
  unchecked additions of the unpadded case cannot overflow.
\<close>

theorem base64_encoded_length_correct:
  "base64_encoded_length n padded =
     (let m = (if padded then (n + 2) div 3 * 4 else (n * 4 + 2) div 3)
      in if m < usize_limit then Some m else None)"
proof -
  define q where "q = n div 3"
  have "n mod 3 = 0 \<or> n mod 3 = 1 \<or> n mod 3 = 2" by presburger
  then consider "n = 3 * q" | "n = 3 * q + 1" | "n = 3 * q + 2"
    using div_mult_mod_eq [of n 3] unfolding q_def by fastforce
  moreover have "(3 * q + 1) mod 3 = 1" "(3 * q + 2) mod 3 = 2" "(3 * q + 1) div 3 = q" "(3 * q + 2) div 3 = q"
    "(3 * q + 3) div 3 = q + 1" "(3 * q + 4) div 3 = q + 1" "(12 * q + 2) div 3 = 4 * q" "(12 * q + 6) div 3 = 4 * q + 2"
    "(12 * q + 10) div 3 = 4 * q + 3" by presburger+
  ultimately show ?thesis
    by cases (auto simp: base64_encoded_length_def Let_def checked_mul_def checked_add_def usize_limit_def algebra_simps)
qed

text \<open>Decoding an encoded text, in the same alphabet, gives the bytes back.\<close>

theorem base64_roundtrip:
  "case base64_encode data a of
     Some txt \<Rightarrow> base64_decode txt a = Some (Ok data)
   | None \<Rightarrow> base64_encoded_length (length data) (base64_is_padded a) = None"
proof (cases "base64_encoded_length (length data) (base64_is_padded a)")
  case None
  then show ?thesis by (simp add: base64_encode_def)
next
  case (Some m)
  then have "length (base64_text a data) < usize_limit"
    using length_base64_text [OF Some] base64_encoded_length_bound [OF Some] by simp
  with Some show ?thesis by (simp add: base64_encode_text base64_decode_canonical)
qed

text \<open>
  C10: what decoding accepts is canonical: an input decodes to \<open>d\<close> exactly when it is the
  encoding of \<open>d\<close>, with its padding or without any. No other text (other unused bits,
  a stray character, partial padding) has a value, and with a padded alphabet the padding
  may be left out altogether.
\<close>

theorem base64_decode_accepts:
  "length s < usize_limit \<Longrightarrow>
   base64_decode s a = Some (Ok d) \<longleftrightarrow>
     s = map ((!) (base64_digits a)) (base64_sextets d) \<or>
     s = map ((!) (base64_digits a)) (base64_sextets d) @ base64_padding a (length d)"
  using base64_decode_canonical [of s a d] base64_decode_accepted [of s a d]
  by (auto simp: base64_text_def base64_chars_spec)

lemma base64_decode_accepts_witness:
  "base64_decode (ascii_bytes ''TWE'') Standard = Some (Ok (ascii_bytes ''Ma''))"
  using base64_decode_accepts [of "ascii_bytes ''TWE''" Standard "ascii_bytes ''Ma''"]
  by (simp add: usize_limit_def base64_group_def base64_group_sextets_def base64_digits_code base64_ch_62_63_def)

text \<open>
  Decoding never panics and every rejection has its cause: padding in an unpadded
  alphabet or a third padding character is \<open>InvalidPadding\<close>, a padded text whose length is
  no multiple of four or a lone last character is \<open>InvalidInputLength\<close>, a character
  outside the alphabet or a last character with unused bits set is \<open>InvalidInput\<close>.
\<close>

theorem base64_decode_cases:
  "length s < usize_limit \<Longrightarrow>
   base64_decode s a = Some (
     let k = base64_trailing_pads s; content = take (length s - k) s in
     if \<not> base64_is_padded a \<and> k \<noteq> 0 then Err Base64InvalidPadding
     else if k \<noteq> 0 \<and> length s mod 4 \<noteq> 0 then Err Base64InvalidInputLength
     else if k = 3 then Err Base64InvalidPadding
     else if length content mod 4 = 1 then Err Base64InvalidInputLength
     else if list_all (\<lambda>c. c \<in> set (base64_digits a)) content \<and> base64_trailing a content = 0
     then Ok (base64_bytes a content)
     else Err Base64InvalidInput)"
proof -
  assume len: "length s < usize_limit"
  let ?k = "base64_trailing_pads s"
  have k: "?k \<le> 3" "?k \<le> length s"
    using base64_trailing_pads_split(2) [OF refl, of s] by (simp_all add: base64_trailing_pads_def Let_def)
  have mod: "(length s - ?k) mod 4 = 4 - ?k" if nz: "?k \<noteq> 0" and "length s mod 4 = 0"
  proof -
    obtain q where q: "length s = 4 * q" using \<open>length s mod 4 = 0\<close> by auto
    then obtain r where "q = Suc r" using nz k(2) by (cases q) auto
    with q k(1) nz have "length s - ?k = 4 * r + (4 - ?k)" "4 - ?k < 4" by auto
    then show ?thesis by simp
  qed
  have strip: "base64_strip_padding_info s (base64_is_padded a) =
    (if \<not> base64_is_padded a \<and> ?k \<noteq> 0 then Err Base64InvalidPadding
     else if ?k \<noteq> 0 \<and> length s mod 4 \<noteq> 0 then Err Base64InvalidInputLength
     else if ?k = 3 then Err Base64InvalidPadding else Ok (length s - ?k, ?k))"
    using mod by (cases "base64_is_padded a") (auto simp: base64_strip_padded base64_strip_unpadded)
  show ?thesis
  proof (cases "\<exists>e. base64_strip_padding_info s (base64_is_padded a) = Err e")
    case True
    then show ?thesis by (auto simp: base64_decode_def strip Let_def split: if_splits)
  next
    case False
    then have "base64_strip_padding_info s (base64_is_padded a) = Ok (length s - ?k, ?k)"
      by (auto simp: strip split: if_splits)
    from base64_decode_eq [OF this refl len] False show ?thesis
      by (auto simp: strip Let_def base64_err_valid split: if_splits)
  qed
qed

lemma base64_decode_cases_witness:
  "base64_decode (ascii_bytes ''TW=='') Standard = Some (Err Base64InvalidInput)"
  using base64_decode_cases [of "ascii_bytes ''TW==''" Standard]
  by (simp add: usize_limit_def base64_trailing_pads_def base64_PAD_def Let_def base64_is_padded_def
      base64_char_to_sextet_if base64_digits_code base64_ch_62_63_def)

text \<open>
  C31: \<open>decode_array\<close> rejects an array that is too short, but an array longer than the
  decoded data is accepted and keeps its trailing zeros.
\<close>

theorem base64_decode_array_correct:
  "length s < usize_limit \<Longrightarrow> base64_decode s a = Some (Ok d) \<Longrightarrow>
   base64_decode_array OUT s a =
     Some (if OUT < length d then Err Base64InvalidOutputLength
           else Ok (d @ replicate (OUT - length d) 0))"
proof -
  assume len: "length s < usize_limit" and dec: "base64_decode s a = Some (Ok d)"
  obtain n k where strip: "base64_strip_padding_info s (base64_is_padded a) = Ok (n, k)"
    using dec by (auto simp: base64_decode_def split: sum.splits)
  note sOk = base64_strip_Ok [OF strip]
  have n: "length (take n s) = n" "n < usize_limit" using sOk(2) len by auto
  have acc: "n mod 4 \<noteq> 1" "base64_err a (take n s) < 64" "base64_trailing a (take n s) = 0"
    "base64_bytes a (take n s) = d"
    using dec base64_decode_eq [OF strip refl len] by (auto split: if_splits)
  have dl: "base64_decoded_length n = Ok (length d)"
    using base64_decoded_length_eq [OF n(2)] acc n length_base64_bytes [of a "take n s"] by simp
  show ?thesis
  proof (cases "n = 0")
    case True
    then have "d = []" using acc(4) by simp
    with True strip dl show ?thesis
      by (cases s) (simp_all add: base64_decode_array_def base64_decode_into_constant_time_def)
  next
    case False
    show ?thesis
    proof (cases "OUT < length d")
      case True
      then show ?thesis using False strip dl n
        by (cases s) (simp_all add: base64_decode_array_def base64_decode_into_constant_time_def Let_def)
    next
      case fits: False
      have "base64_decode_into_constant_time (replicate OUT 0) s a =
          Some (overwrite (replicate OUT 0) 0 (base64_bytes a (take n s)), Ok (length d))"
        using base64_decode_content [OF sOk(1), of a k "length d" "replicate OUT 0"] n strip dl False fits acc
        by (cases s) auto
      then show ?thesis using fits by (simp add: base64_decode_array_def acc(4) overwrite_def)
    qed
  qed
qed

lemma base64_decode_array_correct_witness:
  "base64_decode_array 4 (ascii_bytes ''TQ'') UrlNoPadding = Some (Ok [77, 0, 0, 0])"
proof -
  have "base64_decode (ascii_bytes ''TQ'') UrlNoPadding = Some (Ok [77])" by code_simp
  from base64_decode_array_correct [OF _ this, of 4] show ?thesis
    by (simp add: usize_limit_def numeral_3_eq_3)
qed

end
