(* ===== verification/Base32.thy ===== *)
theory Base32
  imports Stdx_Prelude
begin

text \<open>
  The crate \<open>base32\<close> (\<open>src/base32/base32.rs\<close>): the RFC 4648 alphabets with and without
  padding, in both cases and in the extended hex variant, Crockford's and z-base-32, in the
  portable build. The lemmas show that the branch-free quintet arithmetic is the alphabet
  lookup, that the loops translate block by block without an out-of-bounds access, that
  decoding inverts encoding, and that accepted inputs are canonical.
\<close>

section \<open>Definitions\<close>

definition base32_PAD :: byte where
  "base32_PAD = ascii CHR ''=''"

definition Z32_DECODE_TABLE :: "byte list" where
  "Z32_DECODE_TABLE = [
     0x20, 0x20, 0x20, 0x20, 0x20, 0x20, 0x20, 0x20, 0x20, 0x20, 0x20, 0x20, 0x20, 0x20, 0x20, 0x20,
     0x20, 0x20, 0x20, 0x20, 0x20, 0x20, 0x20, 0x20, 0x20, 0x20, 0x20, 0x20, 0x20, 0x20, 0x20, 0x20,
     0x20, 0x20, 0x20, 0x20, 0x20, 0x20, 0x20, 0x20, 0x20, 0x20, 0x20, 0x20, 0x20, 0x20, 0x20, 0x20,
     0x20, 0x12, 0x20, 0x19, 0x1a, 0x1b, 0x1e, 0x1d, 0x07, 0x1f, 0x20, 0x20, 0x20, 0x20, 0x20, 0x20,
     0x20, 0x20, 0x20, 0x20, 0x20, 0x20, 0x20, 0x20, 0x20, 0x20, 0x20, 0x20, 0x20, 0x20, 0x20, 0x20,
     0x20, 0x20, 0x20, 0x20, 0x20, 0x20, 0x20, 0x20, 0x20, 0x20, 0x20, 0x20, 0x20, 0x20, 0x20, 0x20,
     0x20, 0x18, 0x01, 0x0c, 0x03, 0x08, 0x05, 0x06, 0x1c, 0x15, 0x09, 0x0a, 0x20, 0x0b, 0x02, 0x10,
     0x0d, 0x0e, 0x04, 0x16, 0x11, 0x13, 0x20, 0x14, 0x0f, 0x00, 0x17, 0x20, 0x20, 0x20, 0x20, 0x20,
     0x20, 0x20, 0x20, 0x20, 0x20, 0x20, 0x20, 0x20, 0x20, 0x20, 0x20, 0x20, 0x20, 0x20, 0x20, 0x20,
     0x20, 0x20, 0x20, 0x20, 0x20, 0x20, 0x20, 0x20, 0x20, 0x20, 0x20, 0x20, 0x20, 0x20, 0x20, 0x20,
     0x20, 0x20, 0x20, 0x20, 0x20, 0x20, 0x20, 0x20, 0x20, 0x20, 0x20, 0x20, 0x20, 0x20, 0x20, 0x20,
     0x20, 0x20, 0x20, 0x20, 0x20, 0x20, 0x20, 0x20, 0x20, 0x20, 0x20, 0x20, 0x20, 0x20, 0x20, 0x20,
     0x20, 0x20, 0x20, 0x20, 0x20, 0x20, 0x20, 0x20, 0x20, 0x20, 0x20, 0x20, 0x20, 0x20, 0x20, 0x20,
     0x20, 0x20, 0x20, 0x20, 0x20, 0x20, 0x20, 0x20, 0x20, 0x20, 0x20, 0x20, 0x20, 0x20, 0x20, 0x20,
     0x20, 0x20, 0x20, 0x20, 0x20, 0x20, 0x20, 0x20, 0x20, 0x20, 0x20, 0x20, 0x20, 0x20, 0x20, 0x20,
     0x20, 0x20, 0x20, 0x20, 0x20, 0x20, 0x20, 0x20, 0x20, 0x20, 0x20, 0x20, 0x20, 0x20, 0x20, 0x20]"

definition Z32_ENCODE_TABLE :: "byte list" where
  "Z32_ENCODE_TABLE = ascii_bytes ''ybndrfg8ejkmcpqxot1uwisza345h769''"

datatype base32_alphabet =
  Crockford | Rfc4648 | Rfc4648NoPadding | Rfc4648Lower | Rfc4648LowerNoPadding
| Rfc4648Hex | Rfc4648HexNoPadding | Rfc4648HexLower | Rfc4648HexLowerNoPadding | Z32

definition base32_is_padded :: "base32_alphabet \<Rightarrow> bool" where
  "base32_is_padded alphabet =
     (case alphabet of
        Crockford \<Rightarrow> False
      | Rfc4648 \<Rightarrow> True
      | Rfc4648NoPadding \<Rightarrow> False
      | Rfc4648Lower \<Rightarrow> True
      | Rfc4648LowerNoPadding \<Rightarrow> False
      | Rfc4648Hex \<Rightarrow> True
      | Rfc4648HexNoPadding \<Rightarrow> False
      | Rfc4648HexLower \<Rightarrow> True
      | Rfc4648HexLowerNoPadding \<Rightarrow> False
      | Z32 \<Rightarrow> False)"

datatype base32_encode_error = Base32InvalidOutputLength

datatype base32_decode_error = Base32InvalidInput | Base32InvalidLength | Base32InvalidPadding

definition base32_encode_error_fmt :: "base32_encode_error \<Rightarrow> string" where
  "base32_encode_error_fmt e =
     (case e of Base32InvalidOutputLength \<Rightarrow> ''output buffer size is not valid'')"

definition base32_decode_error_fmt :: "base32_decode_error \<Rightarrow> string" where
  "base32_decode_error_fmt e =
     (case e of
        Base32InvalidInput \<Rightarrow> ''invalid base32 character''
      | Base32InvalidLength \<Rightarrow> ''invalid base32 length''
      | Base32InvalidPadding \<Rightarrow> ''invalid base32 padding'')"

definition base32_encoded_length :: "nat \<Rightarrow> bool \<Rightarrow> nat option" where
  "base32_encoded_length bytes_len padding =
     (if bytes_len = 0 then Some 0
      else
        let complete_chunks = bytes_len div 5 in
        case checked_mul complete_chunks 8 of
          None \<Rightarrow> None
        | Some base \<Rightarrow>
            let rem = bytes_len mod 5 in
            if rem = 0 then Some base
            else if padding then checked_add base 8
            else
              case checked_mul bytes_len 8 of
                None \<Rightarrow> None
              | Some bits \<Rightarrow>
                  (case checked_add bits 4 of Some v \<Rightarrow> Some (v div 5) | None \<Rightarrow> None))"

definition base32_not_in_range :: "byte \<Rightarrow> byte \<Rightarrow> byte \<Rightarrow> byte" where
  "base32_not_in_range v lo hi = signed_drop_bit 7 ((v - lo) OR (hi - v))"

definition check_trailing_bits :: "byte \<Rightarrow> nat \<Rightarrow> byte" where
  "check_trailing_bits value max_pad =
     (let mask = push_bit max_pad 1 - 1;
          pad_bits = value AND mask
      in NOT (base32_not_in_range pad_bits 1 mask) AND 0x20)"

definition quintet_to_crockford :: "byte \<Rightarrow> byte" where
  "quintet_to_crockford v =
     (let not_0_9 = base32_not_in_range v 0 9;
          not_10_17 = base32_not_in_range v 10 17;
          not_18_19 = base32_not_in_range v 18 19;
          not_20_21 = base32_not_in_range v 20 21;
          not_22_26 = base32_not_in_range v 22 26;
          not_27_31 = base32_not_in_range v 27 31
      in ((v + ascii CHR ''0'') AND NOT not_0_9)
         OR ((v + 55) AND NOT not_10_17)
         OR ((v + 56) AND NOT not_18_19)
         OR ((v + 57) AND NOT not_20_21)
         OR ((v + 58) AND NOT not_22_26)
         OR ((v + 59) AND NOT not_27_31))"

text \<open>A character is \<open>None\<close> when the table access of z-base-32 is out of bounds.\<close>

definition quintet_to_char :: "byte \<Rightarrow> base32_alphabet \<Rightarrow> byte option" where
  "quintet_to_char v alphabet =
     (let rfc = (\<lambda>a.
            let not_letter = base32_not_in_range v 0 25;
                not_digit = base32_not_in_range v 26 31
            in ((v + a) AND NOT not_letter) OR ((v - 26 + ascii CHR ''2'') AND NOT not_digit));
          hex = (\<lambda>a.
            let not_digit = base32_not_in_range v 0 9;
                not_letter = base32_not_in_range v 10 31
            in ((v + ascii CHR ''0'') AND NOT not_digit) OR ((v - 10 + a) AND NOT not_letter))
      in case alphabet of
           Crockford \<Rightarrow> Some (quintet_to_crockford v)
         | Rfc4648 \<Rightarrow> Some (rfc (ascii CHR ''A''))
         | Rfc4648NoPadding \<Rightarrow> Some (rfc (ascii CHR ''A''))
         | Rfc4648Lower \<Rightarrow> Some (rfc (ascii CHR ''a''))
         | Rfc4648LowerNoPadding \<Rightarrow> Some (rfc (ascii CHR ''a''))
         | Rfc4648Hex \<Rightarrow> Some (hex (ascii CHR ''A''))
         | Rfc4648HexNoPadding \<Rightarrow> Some (hex (ascii CHR ''A''))
         | Rfc4648HexLower \<Rightarrow> Some (hex (ascii CHR ''a''))
         | Rfc4648HexLowerNoPadding \<Rightarrow> Some (hex (ascii CHR ''a''))
         | Z32 \<Rightarrow> slice_get Z32_ENCODE_TABLE (unat v))"

text \<open>Eight characters from five bytes, written at \<open>output[o..]\<close>.\<close>

definition base32_encode_block ::
  "byte list \<Rightarrow> base32_alphabet \<Rightarrow> nat \<Rightarrow> nat \<Rightarrow> byte list \<Rightarrow> byte list option" where
  "base32_encode_block data alphabet i o1 output =
     do {
       bs \<leftarrow> slice_gets data i 5;
       let b0 = bs ! 0; let b1 = bs ! 1; let b2 = bs ! 2; let b3 = bs ! 3; let b4 = bs ! 4;
       let q0 = drop_bit 3 b0;
       let q1 = push_bit 2 (b0 AND 0x07) OR drop_bit 6 b1;
       let q2 = drop_bit 1 b1 AND 0x1F;
       let q3 = push_bit 4 (b1 AND 0x01) OR drop_bit 4 b2;
       let q4 = push_bit 1 (b2 AND 0x0F) OR drop_bit 7 b3;
       let q5 = drop_bit 2 b3 AND 0x1F;
       let q6 = push_bit 3 (b3 AND 0x03) OR drop_bit 5 b4;
       let q7 = b4 AND 0x1F;
       cs \<leftarrow> those (map (\<lambda>q. quintet_to_char q alphabet) [q0, q1, q2, q3, q4, q5, q6, q7]);
       slice_sets output o1 cs
     }"

definition encode_8blocks :: "byte list \<Rightarrow> base32_alphabet \<Rightarrow> nat \<Rightarrow> byte list \<Rightarrow> byte list option" where
  "encode_8blocks data alphabet start output =
     do {
       (_, output) \<leftarrow> while_upto 1 1 8
         (\<lambda>n output. base32_encode_block data alphabet (start + n * 5) ((start div 5) * 8 + n * 8) output)
         0 output;
       Some output
     }"

definition base32_encode_5 :: "byte list \<Rightarrow> base32_alphabet \<Rightarrow> nat \<Rightarrow> byte list \<Rightarrow> byte list option" where
  "base32_encode_5 data alphabet i output = base32_encode_block data alphabet i ((i div 5) * 8) output"

text \<open>The last one to four bytes, and the padding after them.\<close>

definition base32_set :: "base32_alphabet \<Rightarrow> nat \<Rightarrow> byte list \<Rightarrow> byte list \<Rightarrow> byte list option" where
  "base32_set alphabet o1 qs output =
     do { cs \<leftarrow> those (map (\<lambda>q. quintet_to_char q alphabet) qs); slice_sets output o1 cs }"

definition base32_encode_rem :: "byte list \<Rightarrow> base32_alphabet \<Rightarrow> nat \<Rightarrow> byte list \<Rightarrow> byte list option" where
  "base32_encode_rem data alphabet i output =
     do {
       let rem = length data - i;
       let p = (i div 5) * 8;
       b0 \<leftarrow> slice_get data i;
       output \<leftarrow> base32_set alphabet p [drop_bit 3 b0, push_bit 2 (b0 AND 0x07)] output;
       if rem \<ge> 2 then
         do {
           b1 \<leftarrow> slice_get data (i + 1);
           output \<leftarrow> base32_set alphabet (p + 1)
             [push_bit 2 (b0 AND 0x07) OR drop_bit 6 b1, drop_bit 1 b1 AND 0x1F, push_bit 4 (b1 AND 0x01)] output;
           if rem \<ge> 3 then
             do {
               b2 \<leftarrow> slice_get data (i + 2);
               output \<leftarrow> base32_set alphabet (p + 3)
                 [push_bit 4 (b1 AND 0x01) OR drop_bit 4 b2, push_bit 1 (b2 AND 0x0F)] output;
               if rem = 4 then
                 do {
                   b3 \<leftarrow> slice_get data (i + 3);
                   base32_set alphabet (p + 4)
                     [push_bit 1 (b2 AND 0x0F) OR drop_bit 7 b3, drop_bit 2 b3 AND 0x1F,
                      push_bit 3 (b3 AND 0x03)] output
                 }
               else Some output
             }
           else Some output
         }
       else Some output
     }"

definition base32_encode_tail :: "byte list \<Rightarrow> base32_alphabet \<Rightarrow> nat \<Rightarrow> byte list \<Rightarrow> byte list option" where
  "base32_encode_tail data alphabet i output =
     (let rem = length data - i in
      if rem > 0 then
        do {
          let p = (i div 5) * 8;
          output \<leftarrow> base32_encode_rem data alphabet i output;
          if base32_is_padded alphabet then
            do {
              pad_start \<leftarrow> (if rem = 1 then Some (p + 2) else if rem = 2 then Some (p + 4)
                else if rem = 3 then Some (p + 5) else if rem = 4 then Some (p + 7) else None);
              let pad_end = p + 8;
              (_, output) \<leftarrow> while_upto 1 1 pad_end (\<lambda>k output. slice_set output k base32_PAD) pad_start output;
              Some output
            }
          else Some output
        }
      else Some output)"

definition base32_encode_into_constant_time ::
  "byte list \<Rightarrow> byte list \<Rightarrow> base32_alphabet \<Rightarrow> (byte list \<times> (base32_encode_error, unit) result) option" where
  "base32_encode_into_constant_time output data alphabet =
     do {
       expected \<leftarrow> base32_encoded_length (length data) (base32_is_padded alphabet);
       if length output < expected then Some (output, Err Base32InvalidOutputLength)
       else
         do {
           let len = length data;
           (i, output) \<leftarrow> while_upto 40 40 len (encode_8blocks data alphabet) 0 output;
           (i, output) \<leftarrow> while_upto 5 5 len (base32_encode_5 data alphabet) i output;
           output \<leftarrow> base32_encode_tail data alphabet i output;
           Some (output, Ok ())
         }
     }"

definition base32_encode_into ::
  "byte list \<Rightarrow> byte list \<Rightarrow> base32_alphabet \<Rightarrow> (byte list \<times> (base32_encode_error, unit) result) option" where
  "base32_encode_into output data alphabet =
     do {
       expected \<leftarrow> base32_encoded_length (length data) (base32_is_padded alphabet);
       if length output < expected then Some (output, Err Base32InvalidOutputLength)
       else base32_encode_into_constant_time output data alphabet
     }"

definition base32_encode :: "byte list \<Rightarrow> base32_alphabet \<Rightarrow> byte list option" where
  "base32_encode data alphabet =
     do {
       len \<leftarrow> base32_encoded_length (length data) (base32_is_padded alphabet);
       let output = replicate len 0;
       (output, r) \<leftarrow> base32_encode_into output data alphabet;
       _ \<leftarrow> result_unwrap r;
       Some output
     }"

definition base32_encode_array :: "nat \<Rightarrow> byte list \<Rightarrow> base32_alphabet \<Rightarrow> byte list option" where
  "base32_encode_array OUT data alphabet =
     do {
       _ \<leftarrow> (case base32_encoded_length (length data) (base32_is_padded alphabet) of
               Some len \<Rightarrow> if len = OUT then Some () else None
             | None \<Rightarrow> None);
       let res = replicate OUT 0;
       (res, r) \<leftarrow> base32_encode_into_constant_time res data alphabet;
       (case r of Ok _ \<Rightarrow> Some res | Err _ \<Rightarrow> None)
     }"

definition base32_encode_into_string :: "byte list \<Rightarrow> byte list \<Rightarrow> base32_alphabet \<Rightarrow> byte list option" where
  "base32_encode_into_string output data alphabet =
     do {
       encoded_length \<leftarrow> base32_encoded_length (length data) (base32_is_padded alphabet);
       if encoded_length \<le> 256 then
         do {
           let buf = take encoded_length (replicate 256 0);
           (buf, r) \<leftarrow> base32_encode_into buf data alphabet;
           _ \<leftarrow> result_unwrap r;
           Some (output @ buf)
         }
       else
         do {
           let buf = replicate encoded_length 0;
           (buf, r) \<leftarrow> base32_encode_into buf data alphabet;
           _ \<leftarrow> result_unwrap r;
           Some (output @ buf)
         }
     }"

definition base32_decoded_length :: "nat \<Rightarrow> (base32_decode_error, nat) result" where
  "base32_decoded_length encoded_content_len =
     (let full_blocks = encoded_content_len div 8;
          rem = encoded_content_len mod 8;
          base = full_blocks * 5
      in if rem = 0 then Ok base
         else if rem = 2 then Ok (base + 1)
         else if rem = 4 then Ok (base + 2)
         else if rem = 5 then Ok (base + 3)
         else if rem = 7 then Ok (base + 4)
         else Err Base32InvalidLength)"

definition crockford_to_quintet :: "byte \<Rightarrow> byte" where
  "crockford_to_quintet c =
     (let not_0_9 = base32_not_in_range c (ascii CHR ''0'') (ascii CHR ''9'');
          not_a_h = base32_not_in_range c (ascii CHR ''A'') (ascii CHR ''H'');
          not_j_k = base32_not_in_range c (ascii CHR ''J'') (ascii CHR ''K'');
          not_m_n = base32_not_in_range c (ascii CHR ''M'') (ascii CHR ''N'');
          not_p_t = base32_not_in_range c (ascii CHR ''P'') (ascii CHR ''T'');
          not_v_z = base32_not_in_range c (ascii CHR ''V'') (ascii CHR ''Z'');
          value = ((c - ascii CHR ''0'') AND NOT not_0_9)
            OR ((c - ascii CHR ''A'' + 10) AND NOT not_a_h)
            OR ((c - ascii CHR ''J'' + 18) AND NOT not_j_k)
            OR ((c - ascii CHR ''M'' + 20) AND NOT not_m_n)
            OR ((c - ascii CHR ''P'' + 22) AND NOT not_p_t)
            OR ((c - ascii CHR ''V'' + 27) AND NOT not_v_z);
          invalid = not_0_9 AND not_a_h AND not_j_k AND not_m_n AND not_p_t AND not_v_z
      in value OR (invalid AND 0x20))"

definition char_to_quintet :: "byte \<Rightarrow> base32_alphabet \<Rightarrow> byte" where
  "char_to_quintet c alphabet =
     (let rfc = (\<lambda>lo hi.
            let not_letter = base32_not_in_range c lo hi;
                not_digit = base32_not_in_range c (ascii CHR ''2'') (ascii CHR ''7'');
                value = ((c - lo) AND NOT not_letter) OR ((c - ascii CHR ''2'' + 26) AND NOT not_digit);
                invalid = not_letter AND not_digit
            in value OR (invalid AND 0x20));
          hex = (\<lambda>lo hi.
            let not_digit = base32_not_in_range c (ascii CHR ''0'') (ascii CHR ''9'');
                not_letter = base32_not_in_range c lo hi;
                value = ((c - ascii CHR ''0'') AND NOT not_digit) OR ((c - lo + 10) AND NOT not_letter);
                invalid = not_digit AND not_letter
            in value OR (invalid AND 0x20))
      in case alphabet of
           Crockford \<Rightarrow> crockford_to_quintet c
         | Rfc4648 \<Rightarrow> rfc (ascii CHR ''A'') (ascii CHR ''Z'')
         | Rfc4648NoPadding \<Rightarrow> rfc (ascii CHR ''A'') (ascii CHR ''Z'')
         | Rfc4648Lower \<Rightarrow> rfc (ascii CHR ''a'') (ascii CHR ''z'')
         | Rfc4648LowerNoPadding \<Rightarrow> rfc (ascii CHR ''a'') (ascii CHR ''z'')
         | Rfc4648Hex \<Rightarrow> hex (ascii CHR ''A'') (ascii CHR ''V'')
         | Rfc4648HexNoPadding \<Rightarrow> hex (ascii CHR ''A'') (ascii CHR ''V'')
         | Rfc4648HexLower \<Rightarrow> hex (ascii CHR ''a'') (ascii CHR ''v'')
         | Rfc4648HexLowerNoPadding \<Rightarrow> hex (ascii CHR ''a'') (ascii CHR ''v'')
         | Z32 \<Rightarrow> Z32_DECODE_TABLE ! unat c)"

text \<open>The loop threads the count (a \<open>usize\<close>) and the mask of an unbroken run of padding.\<close>

definition count_trailing_padding :: "byte list \<Rightarrow> nat" where
  "count_trailing_padding data =
     (let len = length data in
      if len = 0 then 0
      else
        let max_check = (if len < 7 then len else 7);
            step = (\<lambda>(count, all_pad) k.
              let idx = len - 1 - k;
                  is_pad = (if data ! idx = base32_PAD then 0xFF else 0x00 :: byte);
                  all_pad = all_pad AND is_pad;
                  all_pad_ext = (signed (signed_drop_bit 7 all_pad) :: u64);
                  count = (word_of_nat (k + 1) AND all_pad_ext) OR (count AND NOT all_pad_ext)
              in (count, all_pad))
        in unat (fst (foldl step (0 :: u64, 0xFF) [0..<max_check])))"

definition base32_strip_padding_info ::
  "byte list \<Rightarrow> bool \<Rightarrow> (base32_decode_error, nat \<times> nat) result" where
  "base32_strip_padding_info data expect_padding =
     (let in_len = length data in
      if expect_padding then
        (if in_len = 0 then Ok (0, 0)
         else
           let count = count_trailing_padding data;
               content_len = in_len - count;
               err = (count > 0 \<and> in_len mod 8 \<noteq> 0) \<or> count > 6
                 \<or> (count > 0 \<and>
                     (if count = 6 then content_len mod 8 \<noteq> 2
                      else if count = 4 then content_len mod 8 \<noteq> 4
                      else if count = 3 then content_len mod 8 \<noteq> 5
                      else if count = 1 then content_len mod 8 \<noteq> 7
                      else True))
           in if err then Err Base32InvalidPadding else Ok (content_len, count))
      else if in_len > 0 \<and> data ! (in_len - 1) = base32_PAD then Err Base32InvalidPadding
      else Ok (in_len, 0))"

text \<open>The decoding state: the output, its index \<open>o\<close> and the error byte.\<close>

definition decode_1quad ::
  "byte list \<Rightarrow> base32_alphabet \<Rightarrow> nat \<Rightarrow> byte list \<times> nat \<times> byte \<Rightarrow> (byte list \<times> nat \<times> byte) option" where
  "decode_1quad data alphabet i = (\<lambda>(output, p, err).
     do {
       cs \<leftarrow> slice_gets data i 8;
       let v = (\<lambda>k. char_to_quintet (cs ! k) alphabet);
       let err = err OR (v 0 OR v 1 OR v 2 OR v 3 OR v 4 OR v 5 OR v 6 OR v 7);
       output \<leftarrow> slice_sets output p
         [push_bit 3 (v 0) OR drop_bit 2 (v 1),
          push_bit 6 (v 1) OR push_bit 1 (v 2) OR drop_bit 4 (v 3),
          push_bit 4 (v 3) OR drop_bit 1 (v 4),
          push_bit 7 (v 4) OR push_bit 2 (v 5) OR drop_bit 3 (v 6),
          push_bit 5 (v 6) OR v 7];
       Some (output, p + 5, err)
     })"

definition decode_8quads ::
  "byte list \<Rightarrow> base32_alphabet \<Rightarrow> nat \<Rightarrow> byte list \<times> nat \<times> byte \<Rightarrow> (byte list \<times> nat \<times> byte) option" where
  "decode_8quads data alphabet i s =
     do {
       (_, s) \<leftarrow> while_upto 1 1 8 (\<lambda>n s. decode_1quad data alphabet (i + n * 8) s) 0 s;
       Some s
     }"

definition base32_decode_tail ::
  "byte list \<Rightarrow> base32_alphabet \<Rightarrow> nat \<Rightarrow> nat \<Rightarrow> byte list \<times> nat \<times> byte \<Rightarrow>
   (byte list \<times> (base32_decode_error, byte) result) option" where
  "base32_decode_tail data alphabet content_len i = (\<lambda>(output, p, err).
     if i < content_len then
       do {
         let remaining = content_len - i;
         if remaining = 2 then
           do {
             cs \<leftarrow> slice_gets data i 2;
             let v = (\<lambda>k. char_to_quintet (cs ! k) alphabet);
             let err = err OR (v 0 OR v 1);
             let err = err OR check_trailing_bits (v 1) 2;
             output \<leftarrow> slice_sets output p [push_bit 3 (v 0) OR drop_bit 2 (v 1)];
             Some (output, Ok err)
           }
         else if remaining = 4 then
           do {
             cs \<leftarrow> slice_gets data i 4;
             let v = (\<lambda>k. char_to_quintet (cs ! k) alphabet);
             let err = err OR (v 0 OR v 1 OR v 2 OR v 3);
             let err = err OR check_trailing_bits (v 3) 4;
             output \<leftarrow> slice_sets output p
               [push_bit 3 (v 0) OR drop_bit 2 (v 1),
                push_bit 6 (v 1) OR push_bit 1 (v 2) OR drop_bit 4 (v 3)];
             Some (output, Ok err)
           }
         else if remaining = 5 then
           do {
             cs \<leftarrow> slice_gets data i 5;
             let v = (\<lambda>k. char_to_quintet (cs ! k) alphabet);
             let err = err OR (v 0 OR v 1 OR v 2 OR v 3 OR v 4);
             let err = err OR check_trailing_bits (v 4) 1;
             output \<leftarrow> slice_sets output p
               [push_bit 3 (v 0) OR drop_bit 2 (v 1),
                push_bit 6 (v 1) OR push_bit 1 (v 2) OR drop_bit 4 (v 3),
                push_bit 4 (v 3) OR drop_bit 1 (v 4)];
             Some (output, Ok err)
           }
         else if remaining = 7 then
           do {
             cs \<leftarrow> slice_gets data i 7;
             let v = (\<lambda>k. char_to_quintet (cs ! k) alphabet);
             let err = err OR (v 0 OR v 1 OR v 2 OR v 3 OR v 4 OR v 5 OR v 6);
             let err = err OR check_trailing_bits (v 6) 3;
             output \<leftarrow> slice_sets output p
               [push_bit 3 (v 0) OR drop_bit 2 (v 1),
                push_bit 6 (v 1) OR push_bit 1 (v 2) OR drop_bit 4 (v 3),
                push_bit 4 (v 3) OR drop_bit 1 (v 4),
                push_bit 7 (v 4) OR push_bit 2 (v 5) OR drop_bit 3 (v 6)];
             Some (output, Ok err)
           }
         else Some (output, Err Base32InvalidLength)
       }
     else Some (output, Ok err))"

definition base32_decode_into_constant_time ::
  "byte list \<Rightarrow> byte list \<Rightarrow> base32_alphabet \<Rightarrow> (byte list \<times> (base32_decode_error, unit) result) option" where
  "base32_decode_into_constant_time output encoded_data alphabet =
     (if length encoded_data = 0 then Some (output, Ok ())
      else case base32_strip_padding_info encoded_data (base32_is_padded alphabet) of
        Err e \<Rightarrow> Some (output, Err e)
      | Ok (content_len, _) \<Rightarrow>
          if content_len = 0 then Some (output, Ok ())
          else case base32_decoded_length content_len of
            Err e \<Rightarrow> Some (output, Err e)
          | Ok computed_output \<Rightarrow>
              if length output < computed_output then Some (output, Err Base32InvalidLength)
              else
                do {
                  (i, s) \<leftarrow> while_upto 64 64 content_len (decode_8quads encoded_data alphabet) 0 (output, 0, 0);
                  (i, s) \<leftarrow> while_upto 8 8 content_len (decode_1quad encoded_data alphabet) i s;
                  (output, r) \<leftarrow> base32_decode_tail encoded_data alphabet content_len i s;
                  Some (output,
                    case r of
                      Err e \<Rightarrow> Err e
                    | Ok err \<Rightarrow> if err \<ge> 32 then Err Base32InvalidInput else Ok ())
                })"

definition base32_decode_into ::
  "byte list \<Rightarrow> byte list \<Rightarrow> base32_alphabet \<Rightarrow> (byte list \<times> (base32_decode_error, unit) result) option" where
  "base32_decode_into output encoded_data alphabet =
     (case base32_strip_padding_info encoded_data (base32_is_padded alphabet) of
        Err e \<Rightarrow> Some (output, Err e)
      | Ok (content_len, _) \<Rightarrow>
          (case base32_decoded_length content_len of
             Err e \<Rightarrow> Some (output, Err e)
           | Ok computed_output \<Rightarrow>
               if length output < computed_output then Some (output, Err Base32InvalidLength)
               else base32_decode_into_constant_time output encoded_data alphabet))"

definition base32_decode :: "byte list \<Rightarrow> base32_alphabet \<Rightarrow> (base32_decode_error, byte list) result option" where
  "base32_decode data alphabet =
     (case base32_strip_padding_info data (base32_is_padded alphabet) of
        Err e \<Rightarrow> Some (Err e)
      | Ok (content_len, _) \<Rightarrow>
          (case base32_decoded_length content_len of
             Err e \<Rightarrow> Some (Err e)
           | Ok output_len \<Rightarrow>
               do {
                 let output = replicate output_len 0;
                 (output, r) \<leftarrow> base32_decode_into output data alphabet;
                 Some (case r of Err e \<Rightarrow> Err e | Ok _ \<Rightarrow> Ok output)
               }))"

definition base32_decode_array ::
  "nat \<Rightarrow> byte list \<Rightarrow> base32_alphabet \<Rightarrow> (base32_decode_error, byte list) result option" where
  "base32_decode_array OUT encoded_data alphabet =
     do {
       let res = replicate OUT 0;
       (res, r) \<leftarrow> base32_decode_into_constant_time res encoded_data alphabet;
       Some (case r of Ok _ \<Rightarrow> Ok res | Err e \<Rightarrow> Err e)
     }"

section \<open>The quintet arithmetic is the alphabet lookup\<close>

lemma base32_range [simp]:
  "unat lo \<le> unat hi \<Longrightarrow> unat hi < unat lo + 128 \<Longrightarrow>
   base32_not_in_range v lo hi = (if lo \<le> v \<and> v \<le> hi then 0 else - 1)"
  by (simp add: base32_not_in_range_def sign_range_check)

lemma base32_not_in_range_code [code]:
  "base32_not_in_range v lo hi = (if 128 \<le> v - lo \<or> 128 \<le> hi - v then 255 else 0)"
  by (simp add: base32_not_in_range_def sign_range_check_code)

definition base32_digits :: "base32_alphabet \<Rightarrow> byte list" where
  "base32_digits alphabet =
     (let rfc = ascii_bytes ''ABCDEFGHIJKLMNOPQRSTUVWXYZ234567'';
          lower = ascii_bytes ''abcdefghijklmnopqrstuvwxyz234567'';
          hex = ascii_bytes ''0123456789ABCDEFGHIJKLMNOPQRSTUV'';
          hex_lower = ascii_bytes ''0123456789abcdefghijklmnopqrstuv''
      in case alphabet of
           Crockford \<Rightarrow> ascii_bytes ''0123456789ABCDEFGHJKMNPQRSTVWXYZ''
         | Rfc4648 \<Rightarrow> rfc | Rfc4648NoPadding \<Rightarrow> rfc
         | Rfc4648Lower \<Rightarrow> lower | Rfc4648LowerNoPadding \<Rightarrow> lower
         | Rfc4648Hex \<Rightarrow> hex | Rfc4648HexNoPadding \<Rightarrow> hex
         | Rfc4648HexLower \<Rightarrow> hex_lower | Rfc4648HexLowerNoPadding \<Rightarrow> hex_lower
         | Z32 \<Rightarrow> Z32_ENCODE_TABLE)"

lemma length_base32_digits [simp]: "length (base32_digits a) = 32"
  by (cases a) (simp_all add: base32_digits_def Z32_ENCODE_TABLE_def)

lemma base32_digits_code [code]:
  "base32_digits alphabet =
     (case alphabet of
        Crockford \<Rightarrow>
           [48, 49, 50, 51, 52, 53, 54, 55, 56, 57, 65, 66, 67, 68, 69, 70, 71, 72, 74, 75, 77, 78,
            80, 81, 82, 83, 84, 86, 87, 88, 89, 90]
      | Rfc4648 \<Rightarrow>
           [65, 66, 67, 68, 69, 70, 71, 72, 73, 74, 75, 76, 77, 78, 79, 80, 81, 82, 83, 84, 85, 86,
            87, 88, 89, 90, 50, 51, 52, 53, 54, 55]
      | Rfc4648Lower \<Rightarrow>
           [97, 98, 99, 100, 101, 102, 103, 104, 105, 106, 107, 108, 109, 110, 111, 112, 113, 114,
            115, 116, 117, 118, 119, 120, 121, 122, 50, 51, 52, 53, 54, 55]
      | Rfc4648Hex \<Rightarrow>
           [48, 49, 50, 51, 52, 53, 54, 55, 56, 57, 65, 66, 67, 68, 69, 70, 71, 72, 73, 74, 75, 76,
            77, 78, 79, 80, 81, 82, 83, 84, 85, 86]
      | Rfc4648HexLower \<Rightarrow>
           [48, 49, 50, 51, 52, 53, 54, 55, 56, 57, 97, 98, 99, 100, 101, 102, 103, 104, 105, 106,
            107, 108, 109, 110, 111, 112, 113, 114, 115, 116, 117, 118]
      | Z32 \<Rightarrow>
           [121, 98, 110, 100, 114, 102, 103, 56, 101, 106, 107, 109, 99, 112, 113, 120, 111, 116,
            49, 117, 119, 105, 115, 122, 97, 51, 52, 53, 104, 55, 54, 57]
      | Rfc4648NoPadding \<Rightarrow> base32_digits Rfc4648
      | Rfc4648LowerNoPadding \<Rightarrow> base32_digits Rfc4648Lower
      | Rfc4648HexNoPadding \<Rightarrow> base32_digits Rfc4648Hex
      | Rfc4648HexLowerNoPadding \<Rightarrow> base32_digits Rfc4648HexLower)"
  by (cases alphabet) (simp_all add: base32_digits_def Z32_ENCODE_TABLE_def)

text \<open>Six alphabets differ; padding makes ten of them.\<close>

lemma base32_alphabetI:
  assumes "\<And>a b. base32_digits a = base32_digits b \<Longrightarrow> (\<And>v. quintet_to_char v a = quintet_to_char v b) \<Longrightarrow>
      (\<And>c. char_to_quintet c a = char_to_quintet c b) \<Longrightarrow> P a \<Longrightarrow> P b"
    and "P Crockford" "P Rfc4648" "P Rfc4648Lower" "P Rfc4648Hex" "P Rfc4648HexLower" "P Z32"
  shows "P alphabet"
proof (cases alphabet)
  case Rfc4648NoPadding
  show ?thesis unfolding Rfc4648NoPadding using assms(3)
    by (rule assms(1) [rotated 3]) (simp_all add: base32_digits_def quintet_to_char_def char_to_quintet_def)
next
  case Rfc4648LowerNoPadding
  show ?thesis unfolding Rfc4648LowerNoPadding using assms(4)
    by (rule assms(1) [rotated 3]) (simp_all add: base32_digits_def quintet_to_char_def char_to_quintet_def)
next
  case Rfc4648HexNoPadding
  show ?thesis unfolding Rfc4648HexNoPadding using assms(5)
    by (rule assms(1) [rotated 3]) (simp_all add: base32_digits_def quintet_to_char_def char_to_quintet_def)
next
  case Rfc4648HexLowerNoPadding
  show ?thesis unfolding Rfc4648HexLowerNoPadding using assms(6)
    by (rule assms(1) [rotated 3]) (simp_all add: base32_digits_def quintet_to_char_def char_to_quintet_def)
qed (use assms in simp_all)

lemma quintet_to_char_lookup:
  assumes "v < 32"
  shows "quintet_to_char v alphabet = Some (base32_digits alphabet ! unat v)"
proof -
  let ?P = "\<lambda>alphabet v. quintet_to_char v alphabet = Some (base32_digits alphabet ! unat v)"
  have v: "uint v \<le> 31" using assms by (simp add: word_less_alt)
  show ?thesis
  proof (rule base32_alphabetI)
    have "list_all (\<lambda>k. ?P Crockford (word_of_int k)) [0..31]" by code_simp
    then show "?P Crockford v" using v by (rule byte_less_all)
    have "list_all (\<lambda>k. ?P Rfc4648 (word_of_int k)) [0..31]" by code_simp
    then show "?P Rfc4648 v" using v by (rule byte_less_all)
    have "list_all (\<lambda>k. ?P Rfc4648Lower (word_of_int k)) [0..31]" by code_simp
    then show "?P Rfc4648Lower v" using v by (rule byte_less_all)
    have "list_all (\<lambda>k. ?P Rfc4648Hex (word_of_int k)) [0..31]" by code_simp
    then show "?P Rfc4648Hex v" using v by (rule byte_less_all)
    have "list_all (\<lambda>k. ?P Rfc4648HexLower (word_of_int k)) [0..31]" by code_simp
    then show "?P Rfc4648HexLower v" using v by (rule byte_less_all)
    have "length Z32_ENCODE_TABLE = 32" by (simp add: Z32_ENCODE_TABLE_def)
    then show "?P Z32 v" using assms by (simp add: quintet_to_char_def base32_digits_def word_less_nat_alt)
  qed simp
qed

lemma crockford_to_quintet_code [code]:
  "crockford_to_quintet c =
     (if c < 48 then 32 else if c \<le> 57 then c - 48 else if c < 65 then 32 else if c \<le> 72 then c - 55
      else if c < 74 then 32 else if c \<le> 75 then c - 56 else if c < 77 then 32 else if c \<le> 78 then c - 57
      else if c < 80 then 32 else if c \<le> 84 then c - 58 else if c < 86 then 32 else if c \<le> 90 then c - 59 else 32)"
  by (auto simp: crockford_to_quintet_def Let_def word_le_nat_alt word_less_nat_alt)

lemma char_to_quintet_code [code]:
  "char_to_quintet c Crockford = (crockford_to_quintet c)"
  "char_to_quintet c Rfc4648 = (if 65 \<le> c \<and> c \<le> 90 then c - 65 else if 50 \<le> c \<and> c \<le> 55 then c - 24 else 32)"
  "char_to_quintet c Rfc4648NoPadding = (if 65 \<le> c \<and> c \<le> 90 then c - 65 else if 50 \<le> c \<and> c \<le> 55 then c - 24 else 32)"
  "char_to_quintet c Rfc4648Lower = (if 97 \<le> c \<and> c \<le> 122 then c - 97 else if 50 \<le> c \<and> c \<le> 55 then c - 24 else 32)"
  "char_to_quintet c Rfc4648LowerNoPadding = (if 97 \<le> c \<and> c \<le> 122 then c - 97 else if 50 \<le> c \<and> c \<le> 55 then c - 24 else 32)"
  "char_to_quintet c Rfc4648Hex = (if 48 \<le> c \<and> c \<le> 57 then c - 48 else if 65 \<le> c \<and> c \<le> 86 then c - 55 else 32)"
  "char_to_quintet c Rfc4648HexNoPadding = (if 48 \<le> c \<and> c \<le> 57 then c - 48 else if 65 \<le> c \<and> c \<le> 86 then c - 55 else 32)"
  "char_to_quintet c Rfc4648HexLower = (if 48 \<le> c \<and> c \<le> 57 then c - 48 else if 97 \<le> c \<and> c \<le> 118 then c - 87 else 32)"
  "char_to_quintet c Rfc4648HexLowerNoPadding = (if 48 \<le> c \<and> c \<le> 57 then c - 48 else if 97 \<le> c \<and> c \<le> 118 then c - 87 else 32)"
  "char_to_quintet c Z32 = (Z32_DECODE_TABLE ! unat c)"
  by (auto simp: char_to_quintet_def Let_def word_le_nat_alt)

lemma char_to_quintet_cases:
  "let v = char_to_quintet c alphabet in
   if v < 32 then base32_digits alphabet ! unat v = c else v = 32"
  (is "?P alphabet c")
proof (rule base32_alphabetI)
  have "byte_all (?P Crockford)" by code_simp
  then show "?P Crockford c" by (rule byte_allD)
  have "byte_all (?P Rfc4648)" by code_simp
  then show "?P Rfc4648 c" by (rule byte_allD)
  have "byte_all (?P Rfc4648Lower)" by code_simp
  then show "?P Rfc4648Lower c" by (rule byte_allD)
  have "byte_all (?P Rfc4648Hex)" by code_simp
  then show "?P Rfc4648Hex c" by (rule byte_allD)
  have "byte_all (?P Rfc4648HexLower)" by code_simp
  then show "?P Rfc4648HexLower c" by (rule byte_allD)
  let ?Q = "\<lambda>c v. if v < 32 then base32_digits Z32 ! unat v = c else v = 32"
  have "list_all (\<lambda>(k, v). ?Q (word_of_int k) v) (zip [0..255] Z32_DECODE_TABLE)" by code_simp
  then have "?Q c (Z32_DECODE_TABLE ! unat c)"
    by (rule byte_table_all) (simp add: Z32_DECODE_TABLE_def)
  then show "?P Z32 c" by (simp add: char_to_quintet_def Let_def)
qed (auto simp: Let_def split: if_splits)

lemma base32_quintet_roundtrip:
  assumes "v < 32"
  shows "char_to_quintet (base32_digits alphabet ! unat v) alphabet = v"
proof -
  let ?P = "\<lambda>alphabet v. char_to_quintet (base32_digits alphabet ! unat v) alphabet = v"
  have v: "uint v \<le> 31" using assms by (simp add: word_less_alt)
  show ?thesis
  proof (rule base32_alphabetI)
    have "list_all (\<lambda>k. ?P Crockford (word_of_int k)) [0..31]" by code_simp
    then show "?P Crockford v" using v by (rule byte_less_all)
    have "list_all (\<lambda>k. ?P Rfc4648 (word_of_int k)) [0..31]" by code_simp
    then show "?P Rfc4648 v" using v by (rule byte_less_all)
    have "list_all (\<lambda>k. ?P Rfc4648Lower (word_of_int k)) [0..31]" by code_simp
    then show "?P Rfc4648Lower v" using v by (rule byte_less_all)
    have "list_all (\<lambda>k. ?P Rfc4648Hex (word_of_int k)) [0..31]" by code_simp
    then show "?P Rfc4648Hex v" using v by (rule byte_less_all)
    have "list_all (\<lambda>k. ?P Rfc4648HexLower (word_of_int k)) [0..31]" by code_simp
    then show "?P Rfc4648HexLower v" using v by (rule byte_less_all)
    have "list_all (\<lambda>k. ?P Z32 (word_of_int k)) [0..31]" by code_simp
    then show "?P Z32 v" using v by (rule byte_less_all)
  qed simp
qed

section \<open>The encoder\<close>

definition base32_quintets :: "byte \<Rightarrow> byte \<Rightarrow> byte \<Rightarrow> byte \<Rightarrow> byte \<Rightarrow> byte list" where
  "base32_quintets b0 b1 b2 b3 b4 =
     [drop_bit 3 b0, push_bit 2 (b0 AND 0x07) OR drop_bit 6 b1, drop_bit 1 b1 AND 0x1F,
      push_bit 4 (b1 AND 0x01) OR drop_bit 4 b2, push_bit 1 (b2 AND 0x0F) OR drop_bit 7 b3,
      drop_bit 2 b3 AND 0x1F, push_bit 3 (b3 AND 0x03) OR drop_bit 5 b4, b4 AND 0x1F]"

definition base32_lookup :: "base32_alphabet \<Rightarrow> byte list \<Rightarrow> byte list" where
  "base32_lookup a qs = map (\<lambda>q. base32_digits a ! unat q) qs"

text \<open>The characters of a byte sequence: a shorter last group is filled up with zero bytes.\<close>

fun base32_chars :: "base32_alphabet \<Rightarrow> byte list \<Rightarrow> byte list" where
  "base32_chars a (b0 # b1 # b2 # b3 # b4 # bs) =
     base32_lookup a (base32_quintets b0 b1 b2 b3 b4) @ base32_chars a bs"
| "base32_chars a [b0, b1, b2, b3] = base32_lookup a (take 7 (base32_quintets b0 b1 b2 b3 0))"
| "base32_chars a [b0, b1, b2] = base32_lookup a (take 5 (base32_quintets b0 b1 b2 0 0))"
| "base32_chars a [b0, b1] = base32_lookup a (take 4 (base32_quintets b0 b1 0 0 0))"
| "base32_chars a [b0] = base32_lookup a (take 2 (base32_quintets b0 0 0 0 0))"
| "base32_chars a [] = []"

definition base32_rem_chars :: "nat \<Rightarrow> nat" where
  "base32_rem_chars r = (if r = 0 then 0 else if r = 1 then 2 else if r = 2 then 4 else if r = 3 then 5 else 7)"

lemma base32_lookup_simps [simp]:
  "base32_lookup a [] = []"
  "base32_lookup a (q # qs) = base32_digits a ! unat q # base32_lookup a qs"
  "length (base32_lookup a qs) = length qs"
  by (simp_all add: base32_lookup_def)

lemma five_dvd_simps:
  "5 dvd Suc (Suc (Suc (Suc (Suc n)))) \<longleftrightarrow> 5 dvd n"
  "\<not> 5 dvd Suc (Suc (Suc (Suc 0)))" "\<not> 5 dvd Suc (Suc (Suc 0))" "\<not> 5 dvd Suc (Suc 0)" "\<not> 5 dvd Suc 0"
  "Suc (Suc (Suc (Suc (Suc n)))) div 5 = Suc (n div 5)" "Suc (Suc (Suc (Suc (Suc n)))) mod 5 = n mod 5"
  by presburger+

lemma base32_chars_append:
  "5 dvd length xs \<Longrightarrow> base32_chars a (xs @ ys) = base32_chars a xs @ base32_chars a ys"
  by (induction a xs rule: base32_chars.induct) (simp_all add: five_dvd_simps)

lemma length_base32_chars:
  "length (base32_chars a xs) = length xs div 5 * 8 + base32_rem_chars (length xs mod 5)"
  by (induction a xs rule: base32_chars.induct)
    (simp_all add: base32_rem_chars_def base32_quintets_def five_dvd_simps div_add_self1)

interpretation base32_enc: block_codec 5 8 "base32_chars a" "\<lambda>_. 0" for a
  by unfold_locales (auto simp: base32_chars_append length_base32_chars base32_rem_chars_def dvd_eq_mod_eq_0)

lemma base32_quintets_less: "q \<in> set (base32_quintets b0 b1 b2 b3 b4) \<Longrightarrow> q < 32"
  unfolding base32_quintets_def by (auto simp: quintet_bits bit_simps)

lemma base32_those_lookup:
  "(\<And>q. q \<in> set qs \<Longrightarrow> q < 32) \<Longrightarrow> those (map (\<lambda>q. quintet_to_char q a) qs) = Some (base32_lookup a qs)"
  by (induction qs) (simp_all add: quintet_to_char_lookup)

lemma take_5_drop:
  "j + 5 \<le> length data \<Longrightarrow> take 5 (drop j data) = [data ! j, data ! (j + 1), data ! (j + 2), data ! (j + 3), data ! (j + 4)]"
  by (simp add: numeral_eq_Suc flip: Cons_nth_drop_Suc)

lemma base32_encode_block_quintets:
  "base32_encode_block data a j p out =
     do { bs \<leftarrow> slice_gets data j 5;
          cs \<leftarrow> those (map (\<lambda>q. quintet_to_char q a) (base32_quintets (bs ! 0) (bs ! 1) (bs ! 2) (bs ! 3) (bs ! 4)));
          slice_sets out p cs }"
  by (simp only: base32_encode_block_def base32_quintets_def Let_def)

lemma base32_encode_block_chars:
  assumes "j + 5 \<le> length data" and "p + 8 \<le> length out"
  shows "base32_encode_block data a j p out = Some (overwrite out p (base32_chars a (take 5 (drop j data))))"
proof -
  have "length (base32_quintets b0 b1 b2 b3 b4) = 8" for b0 b1 b2 b3 b4 by (simp add: base32_quintets_def)
  with assms show ?thesis
    by (simp add: base32_encode_block_quintets base32_those_lookup base32_quintets_less codec_simps take_5_drop)
qed

lemma encode_8blocks_chars:
  assumes "5 dvd j" and "j + 40 \<le> length data" and "(j div 5) * 8 + 64 \<le> length out"
  shows "encode_8blocks data a j out = Some (overwrite out (j div 5 * 8) (base32_chars a (take 40 (drop j data))))"
proof -
  have "while_upto 1 1 8
      (\<lambda>n out. base32_encode_block data a (j + n * 5) (j div 5 * 8 + n * 8) out) 0 out =
      Some (8, overwrite out (j div 5 * 8) (base32_chars a (take (8 * 5) (drop j data))))"
    using assms by (intro base32_enc.inner [where mk = "\<lambda>_ out _. out"]) (auto intro!: base32_encode_block_chars)
  then show ?thesis by (simp add: encode_8blocks_def)
qed

definition base32_padding :: "base32_alphabet \<Rightarrow> nat \<Rightarrow> byte list" where
  "base32_padding a n =
     (if base32_is_padded a \<and> n mod 5 \<noteq> 0 then replicate (8 - base32_rem_chars (n mod 5)) base32_PAD else [])"

definition base32_text :: "base32_alphabet \<Rightarrow> byte list \<Rightarrow> byte list" where
  "base32_text a data = base32_chars a data @ base32_padding a (length data)"

lemma base32_set_lookup:
  assumes "list_all (\<lambda>q. q < 32) qs" and "p + length qs \<le> length out"
  shows "base32_set a p qs out = Some (overwrite out p (base32_lookup a qs))"
  using assms by (simp add: base32_set_def base32_those_lookup list_all_iff codec_simps)

lemma base32_quintet_bounds:
  fixes b0 b1 :: byte
  shows "drop_bit 3 b0 < 32" "push_bit 2 (b0 AND 0x07) OR drop_bit 6 b1 < 32" "push_bit 2 (b0 AND 0x07) < 32"
    "drop_bit 1 b0 AND 0x1F < 32" "push_bit 4 (b0 AND 0x01) OR drop_bit 4 b1 < 32" "push_bit 4 (b0 AND 0x01) < 32"
    "push_bit 1 (b0 AND 0x0F) OR drop_bit 7 b1 < 32" "push_bit 1 (b0 AND 0x0F) < 32"
    "drop_bit 2 b0 AND 0x1F < 32" "push_bit 3 (b0 AND 0x03) < 32"
  by (simp_all add: quintet_bits bit_simps)

lemma base32_encode_rem_chars:
  assumes j: "j div 5 * 8 = p" and t: "drop j data = t" and len: "0 < length t" "length t < 5"
    and room: "p + base32_rem_chars (length t) \<le> length out"
  shows "base32_encode_rem data a j out = Some (overwrite out p (base32_chars a t))"
proof -
  have n: "length data = j + length t" using t len by auto
  have nth: "data ! (j + i) = t ! i" for i
    using nth_drop [of j data i] n unfolding t by simp
  have "length t = 1 \<or> length t = 2 \<or> length t = 3 \<or> length t = 4" using len by linarith
  then consider b0 where "t = [b0]" | b0 b1 where "t = [b0, b1]" | b0 b1 b2 where "t = [b0, b1, b2]"
    | b0 b1 b2 b3 where "t = [b0, b1, b2, b3]"
    using length_eq_2 [of t] length_eq_3 [of t] length_eq_4 [of t] by (auto simp: length_Suc_conv)
  then show ?thesis
  proof cases
    case (1 b0)
    then show ?thesis using n nth [of 0] room j
      by (simp add: base32_encode_rem_def Let_def base32_set_lookup base32_quintet_bounds base32_rem_chars_def
          base32_quintets_def take_Cons' del: push_bit_and One_nat_def)
  next
    case (2 b0 b1)
    then show ?thesis using n nth [of 0] nth [of 1] room j
      by (simp add: base32_encode_rem_def Let_def base32_set_lookup base32_quintet_bounds base32_rem_chars_def
          base32_quintets_def overwrite_overwrite [where k = 1] take_Cons' del: push_bit_and One_nat_def)
  next
    case (3 b0 b1 b2)
    then show ?thesis using n nth [of 0] nth [of 1] nth [of 2] room j
      by (simp add: base32_encode_rem_def Let_def base32_set_lookup base32_quintet_bounds base32_rem_chars_def
          base32_quintets_def overwrite_overwrite [where k = 1] overwrite_overwrite [where k = 3] take_Cons' del: push_bit_and One_nat_def)
  next
    case (4 b0 b1 b2 b3)
    then show ?thesis using n nth [of 0] nth [of 1] nth [of 2] nth [of 3] room j
      by (simp add: base32_encode_rem_def Let_def base32_set_lookup base32_quintet_bounds base32_rem_chars_def
          base32_quintets_def overwrite_overwrite [where k = 1] overwrite_overwrite [where k = 3]
          overwrite_overwrite [where k = 4] take_Cons' del: push_bit_and One_nat_def)
  qed
qed

lemma base32_encode_tail_text:
  assumes j: "j = 5 * m" and t: "drop j data = t" and len: "length data = j + length t" "length t < 5"
    and room: "8 * m + length (base32_chars a t @ base32_padding a (length data)) \<le> length out"
  shows "base32_encode_tail data a j out =
    Some (overwrite out (8 * m) (base32_chars a t @ base32_padding a (length data)))"
proof (cases "t = []")
  case True
  with len show ?thesis by (simp add: base32_encode_tail_def base32_padding_def overwrite_def j)
next
  case False
  let ?r = "base32_rem_chars (length t)" and ?o = "overwrite out (8 * m) (base32_chars a t)"
  have p: "j div 5 * 8 = 8 * m" and md: "length data mod 5 = length t" using j len by simp_all
  have rm: "length data - j = length t" using len by simp
  have rc: "length (base32_chars a t) = ?r" using len(2) by (simp add: length_base32_chars)
  have r: "?r < 8" by (simp add: base32_rem_chars_def)
  have enc: "base32_encode_rem data a j out = Some ?o"
    using j t len False room rc by (intro base32_encode_rem_chars) simp_all
  show ?thesis
  proof (cases "base32_is_padded a")
    case True
    have pad: "base32_padding a (length data) = replicate (8 - ?r) base32_PAD"
      using True False md by (simp add: base32_padding_def)
    have len_o: "length ?o = length out" "8 * m + 8 \<le> length out" using room r rc by (simp_all add: pad)
    have ps: "(if length t = 1 then Some (8 * m + 2) else if length t = 2 then Some (8 * m + 4)
        else if length t = 3 then Some (8 * m + 5) else if length t = 4 then Some (8 * m + 7) else None) =
        Some (8 * m + ?r)"
    proof -
      have "length t = 1 \<or> length t = 2 \<or> length t = 3 \<or> length t = 4" using len(2) False length_greater_0_conv [of t] by linarith
      then show ?thesis by (auto simp: base32_rem_chars_def)
    qed
    have "while_upto 1 1 (8 * m + 8) (\<lambda>k out. slice_set out k base32_PAD) (8 * m + ?r) ?o =
        Some (8 * m + 8, overwrite ?o (8 * m + ?r) (replicate (8 - ?r) base32_PAD))"
      using r len_o by (subst while_upto_fill) simp_all
    moreover have "overwrite ?o (8 * m + ?r) (replicate (8 - ?r) base32_PAD) =
        overwrite out (8 * m) (base32_chars a t @ replicate (8 - ?r) base32_PAD)"
      using r rc len_o(2) by (subst overwrite_overwrite) simp_all
    ultimately show ?thesis
      unfolding base32_encode_tail_def Let_def rm p pad ps using True False enc by simp
  next
    case np: False
    then show ?thesis using False enc len by (simp add: base32_encode_tail_def Let_def base32_padding_def)
  qed
qed

lemma length_base32_text:
  assumes "base32_encoded_length (length data) (base32_is_padded a) = Some n"
  shows "length (base32_text a data) = n"
proof -
  let ?n = "length data"
  define q r where "q = ?n div 5" and "r = ?n mod 5"
  have n: "?n = 5 * q + r" "r < 5" by (simp_all add: q_def r_def)
  then have "r = 0 \<or> r = 1 \<or> r = 2 \<or> r = 3 \<or> r = 4" by linarith
  moreover have "(?n * 8 + 4) div 5 = q * 8 + base32_rem_chars r" if "r \<noteq> 0"
  proof -
    have "r = 1 \<or> r = 2 \<or> r = 3 \<or> r = 4" using n that by linarith
    moreover have "(40 * q + 12) div 5 = 8 * q + 2" "(40 * q + 20) div 5 = 8 * q + 4"
      "(40 * q + 28) div 5 = 8 * q + 5" "(40 * q + 36) div 5 = 8 * q + 7" by presburger+
    ultimately show ?thesis by (auto simp: base32_rem_chars_def n)
  qed
  ultimately show ?thesis
    using assms unfolding base32_text_def base32_padding_def base32_encoded_length_def length_append length_base32_chars
      Let_def q_def [symmetric] r_def [symmetric]
    by (auto simp: base32_rem_chars_def n split: option.splits if_splits)
qed

lemma base32_encode_loops:
  assumes "base32_encoded_length (length data) (base32_is_padded a) = Some n" and "n \<le> length out"
  shows "base32_encode_into_constant_time out data a = Some (overwrite out 0 (base32_text a data), Ok ())"
proof -
  let ?n = "length data" and ?at = "base32_enc.loop_at a (\<lambda>_ out _. out) data out"
  have len: "length (base32_text a data) = n" using length_base32_text [OF assms(1)] by simp
  then have room: "?n div 5 * 8 \<le> length out"
    using assms(2) by (simp add: base32_text_def length_base32_chars)
  have "\<exists>j. while_upto 40 40 ?n (encode_8blocks data a) 0 (?at 0) = Some (j, ?at j) \<and>
      5 dvd j \<and> 0 \<le> j \<and> j \<le> ?n \<and> ?n < j + 40"
    using room by (intro base32_enc.loop [where n = 8]) (simp_all add: encode_8blocks_chars)
  then obtain j where j: "while_upto 40 40 ?n (encode_8blocks data a) 0 (?at 0) = Some (j, ?at j)"
    "5 dvd j" "j \<le> ?n" by blast
  have "\<exists>l. while_upto 5 5 ?n (base32_encode_5 data a) j (?at j) = Some (l, ?at l) \<and>
      5 dvd l \<and> j \<le> l \<and> l \<le> ?n \<and> ?n < l + 5"
    using room j by (intro base32_enc.loop [where n = 1])
      (simp_all add: base32_encode_5_def base32_encode_block_chars)
  then obtain l where l: "while_upto 5 5 ?n (base32_encode_5 data a) j (?at j) = Some (l, ?at l)"
    "5 dvd l" "l \<le> ?n" "?n < l + 5" by blast
  then obtain m where m: "l = 5 * m" by (elim dvdE)
  let ?enc = "base32_chars a (take l data)" and ?t = "base32_chars a (drop l data) @ base32_padding a ?n"
  have enc: "length ?enc = 8 * m" using l m by (simp add: length_base32_chars base32_rem_chars_def)
  have chars: "base32_chars a data = ?enc @ base32_chars a (drop l data)"
    using base32_chars_append [of "take l data" a "drop l data"] l by simp
  have at: "?at 0 = out" "?at l = overwrite out 0 ?enc" by (simp_all add: base32_enc.loop_at_def overwrite_def)
  have full: "base32_text a data = ?enc @ ?t" unfolding base32_text_def by (subst chars) simp
  have fits: "8 * m + length ?t \<le> length out" using len enc assms(2) unfolding full by simp
  then have "base32_encode_tail data a l (overwrite out 0 ?enc) = Some (overwrite (overwrite out 0 ?enc) (8 * m) ?t)"
    using m l(3,4) enc by (intro base32_encode_tail_text) simp_all
  also have "overwrite (overwrite out 0 ?enc) (8 * m) ?t = overwrite out 0 (base32_text a data)"
    using overwrite_overwrite [of "8 * m" ?enc ?t 0 out] enc fits unfolding full by simp
  finally show ?thesis
    using j l at assms by (simp add: base32_encode_into_constant_time_def)
qed

lemma base32_encode_text:
  assumes "base32_encoded_length (length data) (base32_is_padded a) = Some n"
  shows "base32_encode data a = Some (base32_text a data)"
    and "base32_encode_into_string out data a = Some (out @ base32_text a data)"
    and "base32_encode_array OUT data a = (if OUT = n then Some (base32_text a data) else None)"
  using assms length_base32_text [OF assms]
  by (auto simp: base32_encode_def base32_encode_into_string_def base32_encode_into_def base32_encode_array_def
      base32_encode_loops Let_def overwrite_def)

text \<open>The specification of RFC 4648: the quintets of every 40-bit group.\<close>

definition base32_group :: "byte \<Rightarrow> byte \<Rightarrow> byte \<Rightarrow> byte \<Rightarrow> byte \<Rightarrow> nat" where
  "base32_group b0 b1 b2 b3 b4 =
     unat b0 * 2 ^ 32 + unat b1 * 2 ^ 24 + unat b2 * 2 ^ 16 + unat b3 * 2 ^ 8 + unat b4"

definition base32_group_quintets :: "nat \<Rightarrow> nat list" where
  "base32_group_quintets n =
     [n div 2 ^ 35, n div 2 ^ 30 mod 32, n div 2 ^ 25 mod 32, n div 2 ^ 20 mod 32,
      n div 2 ^ 15 mod 32, n div 2 ^ 10 mod 32, n div 2 ^ 5 mod 32, n mod 32]"

fun base32_values :: "byte list \<Rightarrow> nat list" where
  "base32_values (b0 # b1 # b2 # b3 # b4 # bs) =
     base32_group_quintets (base32_group b0 b1 b2 b3 b4) @ base32_values bs"
| "base32_values [b0, b1, b2, b3] = take 7 (base32_group_quintets (base32_group b0 b1 b2 b3 0))"
| "base32_values [b0, b1, b2] = take 5 (base32_group_quintets (base32_group b0 b1 b2 0 0))"
| "base32_values [b0, b1] = take 4 (base32_group_quintets (base32_group b0 b1 0 0 0))"
| "base32_values [b0] = take 2 (base32_group_quintets (base32_group b0 0 0 0 0))"
| "base32_values [] = []"

lemma base32_group_div:
  fixes x0 y0 u1 v1 w1 u2 w2 u3 v3 w3 u4 w4 :: nat
  assumes "x0 < 32" "y0 < 8" "u1 < 4" "v1 < 32" "w1 < 2" "u2 < 16" "w2 < 16" "u3 < 2" "v3 < 32" "w3 < 4" "u4 < 8" "w4 < 32"
  defines "n \<equiv> (x0 * 8 + y0) * 2 ^ 32 + (u1 * 64 + v1 * 2 + w1) * 2 ^ 24 + (u2 * 16 + w2) * 2 ^ 16 +
    (u3 * 128 + v3 * 4 + w3) * 2 ^ 8 + (u4 * 32 + w4)"
  shows "base32_group_quintets n = [x0, y0 * 4 + u1, v1, w1 * 16 + u2, w2 * 2 + u3, v3, w3 * 8 + u4, w4]"
proof -
  define q1 q3 q4 q6 where "q1 = y0 * 4 + u1" and "q3 = w1 * 16 + u2" and "q4 = w2 * 2 + u3" and "q6 = w3 * 8 + u4"
  note q = this
  have lt: "x0 < 32" "q1 < 32" "v1 < 32" "q3 < 32" "q4 < 32" "v3 < 32" "q6 < 32" "w4 < 32"
    using assms(1-12) by (simp_all add: q)
  have n: "n = x0 * 2 ^ 35 + q1 * 2 ^ 30 + v1 * 2 ^ 25 + q3 * 2 ^ 20 + q4 * 2 ^ 15 + v3 * 2 ^ 10 + q6 * 2 ^ 5 + w4"
    by (simp add: n_def q)
  have "n div 2 ^ 35 = x0"
    using div_mod_field [of "n - x0 * 2 ^ 35" "2 ^ 35" x0 32 0] lt by (simp add: n)
  moreover have "n div 2 ^ 30 mod 32 = q1"
    using div_mod_field [of "v1 * 2 ^ 25 + q3 * 2 ^ 20 + q4 * 2 ^ 15 + v3 * 2 ^ 10 + q6 * 2 ^ 5 + w4" "2 ^ 30" q1 32 x0] lt
    by (simp add: n algebra_simps)
  moreover have "n div 2 ^ 25 mod 32 = v1"
    using div_mod_field [of "q3 * 2 ^ 20 + q4 * 2 ^ 15 + v3 * 2 ^ 10 + q6 * 2 ^ 5 + w4" "2 ^ 25" v1 32 "x0 * 32 + q1"] lt
    by (simp add: n algebra_simps)
  moreover have "n div 2 ^ 20 mod 32 = q3"
    using div_mod_field [of "q4 * 2 ^ 15 + v3 * 2 ^ 10 + q6 * 2 ^ 5 + w4" "2 ^ 20" q3 32 "(x0 * 32 + q1) * 32 + v1"] lt
    by (simp add: n algebra_simps)
  moreover have "n div 2 ^ 15 mod 32 = q4"
    using div_mod_field [of "v3 * 2 ^ 10 + q6 * 2 ^ 5 + w4" "2 ^ 15" q4 32 "((x0 * 32 + q1) * 32 + v1) * 32 + q3"] lt
    by (simp add: n algebra_simps)
  moreover have "n div 2 ^ 10 mod 32 = v3"
    using div_mod_field [of "q6 * 2 ^ 5 + w4" "2 ^ 10" v3 32 "(((x0 * 32 + q1) * 32 + v1) * 32 + q3) * 32 + q4"] lt
    by (simp add: n algebra_simps)
  moreover have "n div 2 ^ 5 mod 32 = q6"
    using div_mod_field [of w4 "2 ^ 5" q6 32 "((((x0 * 32 + q1) * 32 + v1) * 32 + q3) * 32 + q4) * 32 + v3"] lt
    by (simp add: n algebra_simps)
  moreover have "n mod 32 = w4"
    using div_mod_field [of 0 1 w4 32 "(((((x0 * 32 + q1) * 32 + v1) * 32 + q3) * 32 + q4) * 32 + v3) * 32 + q6"] lt
    by (simp add: n algebra_simps)
  ultimately show ?thesis by (simp only: base32_group_quintets_def q)
qed

lemma base32_unat_fields:
  fixes b :: byte
  shows "unat (b AND 0x1F) = unat b mod 32" "unat (b AND 0x0F) = unat b mod 16" "unat (b AND 0x07) = unat b mod 8"
    "unat (b AND 0x03) = unat b mod 4" "unat (b AND 0x01) = unat b mod 2"
    "unat (drop_bit k b) = unat b div 2 ^ k"
  using unat_and_mask_mod [of b 5] unat_and_mask_mod [of b 4] unat_and_mask_mod [of b 3]
    unat_and_mask_mod [of b 2] unat_and_mask_mod [of b 1]
  by (simp_all add: mask_eq_exp_minus_1 unat_drop_bit_eq drop_bit_nat_def del: One_nat_def)

lemma base32_quintets_values:
  "map unat (base32_quintets b0 b1 b2 b3 b4) = base32_group_quintets (base32_group b0 b1 b2 b3 b4)"
proof -
  have split3: "n = n div 64 * 64 + n div 2 mod 32 * 2 + n mod 2" "n = n div 128 * 128 + n div 4 mod 32 * 4 + n mod 4"
    "n = n div 8 * 8 + n mod 8" "n = n div 16 * 16 + n mod 16" "n = n div 32 * 32 + n mod 32" for n :: nat
  proof -
    have "n div 64 = n div 2 div 32" "n div 128 = n div 4 div 32"
      using div_mult2_eq [of n 2 32] div_mult2_eq [of n 4 32] by simp_all
    then show "n = n div 64 * 64 + n div 2 mod 32 * 2 + n mod 2" "n = n div 128 * 128 + n div 4 mod 32 * 4 + n mod 4"
      using div_mult_mod_eq [of n 2] div_mult_mod_eq [of "n div 2" 32] div_mult_mod_eq [of n 4]
        div_mult_mod_eq [of "n div 4" 32] by linarith+
  qed simp_all
  have lt: "unat b div 8 < 32" "unat b div 64 < 4" "unat b div 16 < 16" "unat b div 128 < 2" "unat b div 32 < 8" for b :: byte
    using unat_byte_less [of b] by (simp_all add: less_mult_imp_div_less)
  have md: "n mod 8 < 64" "n mod 2 < 16" "n mod 16 < 128" "n mod 4 < 32" for n :: nat
    using mod_less_divisor [of 8 n] mod_less_divisor [of 2 n] mod_less_divisor [of 16 n] mod_less_divisor [of 4 n]
    by simp_all
  have "base32_group b0 b1 b2 b3 b4 =
      (unat b0 div 8 * 8 + unat b0 mod 8) * 2 ^ 32 +
      (unat b1 div 64 * 64 + unat b1 div 2 mod 32 * 2 + unat b1 mod 2) * 2 ^ 24 +
      (unat b2 div 16 * 16 + unat b2 mod 16) * 2 ^ 16 +
      (unat b3 div 128 * 128 + unat b3 div 4 mod 32 * 4 + unat b3 mod 4) * 2 ^ 8 +
      (unat b4 div 32 * 32 + unat b4 mod 32)"
    by (simp only: base32_group_def flip: split3)
  then have g: "base32_group_quintets (base32_group b0 b1 b2 b3 b4) =
      [unat b0 div 8, unat b0 mod 8 * 4 + unat b1 div 64, unat b1 div 2 mod 32, unat b1 mod 2 * 16 + unat b2 div 16,
       unat b2 mod 16 * 2 + unat b3 div 128, unat b3 div 4 mod 32, unat b3 mod 4 * 8 + unat b4 div 32, unat b4 mod 32]"
    by (simp only:) (rule base32_group_div, simp_all add: lt)
  have f1: "unat (push_bit 2 (b0 AND 0x07) OR drop_bit 6 b1) = unat b0 mod 8 * 4 + unat b1 div 64"
    using unat_push_or [of "b0 AND 0x07" 2 "drop_bit 6 b1"] lt(2) [of b1] md(1) [of "unat b0"]
    unfolding base32_unat_fields by simp
  have f2: "unat (push_bit 4 (b1 AND 0x01) OR drop_bit 4 b2) = unat b1 mod 2 * 16 + unat b2 div 16"
    using unat_push_or [of "b1 AND 0x01" 4 "drop_bit 4 b2"] lt(3) [of b2] md(2) [of "unat b1"]
    unfolding base32_unat_fields by simp
  have f3: "unat (push_bit 1 (b2 AND 0x0F) OR drop_bit 7 b3) = unat b2 mod 16 * 2 + unat b3 div 128"
    using unat_push_or [of "b2 AND 0x0F" 1 "drop_bit 7 b3"] lt(4) [of b3] md(3) [of "unat b2"]
    unfolding base32_unat_fields by simp
  have f4: "unat (push_bit 3 (b3 AND 0x03) OR drop_bit 5 b4) = unat b3 mod 4 * 8 + unat b4 div 32"
    using unat_push_or [of "b3 AND 0x03" 3 "drop_bit 5 b4"] lt(5) [of b4] md(4) [of "unat b3"]
    unfolding base32_unat_fields by simp
  show ?thesis
    unfolding base32_quintets_def list.map f1 f2 f3 f4 base32_unat_fields g by simp
qed

lemma base32_lookup_values: "base32_lookup a qs = map ((!) (base32_digits a)) (map unat qs)"
  by (simp add: base32_lookup_def)

lemma base32_chars_spec: "base32_chars a data = map ((!) (base32_digits a)) (base32_values data)"
  by (induction a data rule: base32_chars.induct)
    (simp_all only: base32_chars.simps base32_values.simps base32_lookup_values base32_quintets_values
       map_append list.map take_map flip: take_map)

section \<open>The decoder\<close>

definition base32_octets :: "byte \<Rightarrow> byte \<Rightarrow> byte \<Rightarrow> byte \<Rightarrow> byte \<Rightarrow> byte \<Rightarrow> byte \<Rightarrow> byte \<Rightarrow> byte list" where
  "base32_octets v0 v1 v2 v3 v4 v5 v6 v7 =
     [push_bit 3 v0 OR drop_bit 2 v1, push_bit 6 v1 OR push_bit 1 v2 OR drop_bit 4 v3,
      push_bit 4 v3 OR drop_bit 1 v4, push_bit 7 v4 OR push_bit 2 v5 OR drop_bit 3 v6, push_bit 5 v6 OR v7]"

text \<open>The bytes of a sequence of quintets: a shorter last group is filled up with zeros.\<close>

fun base32_join :: "byte list \<Rightarrow> byte list" where
  "base32_join (v0 # v1 # v2 # v3 # v4 # v5 # v6 # v7 # vs) = base32_octets v0 v1 v2 v3 v4 v5 v6 v7 @ base32_join vs"
| "base32_join [v0, v1, v2, v3, v4, v5, v6] = take 4 (base32_octets v0 v1 v2 v3 v4 v5 v6 0)"
| "base32_join [v0, v1, v2, v3, v4] = take 3 (base32_octets v0 v1 v2 v3 v4 0 0 0)"
| "base32_join [v0, v1, v2, v3] = take 2 (base32_octets v0 v1 v2 v3 0 0 0 0)"
| "base32_join [v0, v1] = take 1 (base32_octets v0 v1 0 0 0 0 0 0)"
| "base32_join vs = []"

definition base32_bytes :: "base32_alphabet \<Rightarrow> byte list \<Rightarrow> byte list" where
  "base32_bytes a cs = base32_join (map (\<lambda>c. char_to_quintet c a) cs)"

fun base32_err :: "base32_alphabet \<Rightarrow> byte list \<Rightarrow> byte" where
  "base32_err a [] = 0"
| "base32_err a (c # cs) = char_to_quintet c a OR base32_err a cs"

text \<open>The unused low bits of the last character.\<close>

fun base32_trailing :: "byte list \<Rightarrow> byte" where
  "base32_trailing (v0 # v1 # v2 # v3 # v4 # v5 # v6 # v7 # vs) = base32_trailing vs"
| "base32_trailing [v0, v1, v2, v3, v4, v5, v6] = v6 AND 0x07"
| "base32_trailing [v0, v1, v2, v3, v4] = v4 AND 0x01"
| "base32_trailing [v0, v1, v2, v3] = v3 AND 0x0F"
| "base32_trailing [v0, v1] = v1 AND 0x03"
| "base32_trailing vs = 0"

definition base32_rem_bytes :: "nat \<Rightarrow> nat" where
  "base32_rem_bytes r = (if r = 2 then 1 else if r = 4 then 2 else if r = 5 then 3 else if r = 7 then 4 else 0)"

lemma eight_dvd_simps:
  "8 dvd Suc (Suc (Suc (Suc (Suc (Suc (Suc (Suc n))))))) \<longleftrightarrow> 8 dvd n"
  "\<not> 8 dvd Suc (Suc (Suc (Suc (Suc (Suc (Suc 0))))))" "\<not> 8 dvd Suc (Suc (Suc (Suc (Suc (Suc 0)))))"
  "\<not> 8 dvd Suc (Suc (Suc (Suc (Suc 0))))" "\<not> 8 dvd Suc (Suc (Suc (Suc 0)))" "\<not> 8 dvd Suc (Suc (Suc 0))"
  "\<not> 8 dvd Suc (Suc 0)" "\<not> 8 dvd Suc 0"
  "Suc (Suc (Suc (Suc (Suc (Suc (Suc (Suc n))))))) div 8 = Suc (n div 8)"
  "Suc (Suc (Suc (Suc (Suc (Suc (Suc (Suc n))))))) mod 8 = n mod 8"
  by presburger+

lemma base32_join_append: "8 dvd length xs \<Longrightarrow> base32_join (xs @ ys) = base32_join xs @ base32_join ys"
  by (induction xs rule: base32_join.induct) (simp_all only: eight_dvd_simps list.size add_Suc_right add_0_right append.simps base32_join.simps append_assoc append_Nil)

lemma base32_trailing_append: "8 dvd length xs \<Longrightarrow> base32_trailing (xs @ ys) = base32_trailing ys"
  by (induction xs rule: base32_trailing.induct) (simp_all only: eight_dvd_simps list.size add_Suc_right add_0_right append.simps base32_trailing.simps)

lemma length_base32_join: "length (base32_join xs) = length xs div 8 * 5 + base32_rem_bytes (length xs mod 8)"
  by (induction xs rule: base32_join.induct) (simp_all add: base32_octets_def base32_rem_bytes_def eight_dvd_simps div_add_self1)

lemma base32_err_append: "base32_err a (xs @ ys) = base32_err a xs OR base32_err a ys"
  by (induction xs) (simp_all add: or.assoc)

interpretation base32_dec: block_codec 8 5 "base32_bytes a" "base32_err a" for a
  by unfold_locales
    (auto simp: base32_bytes_def base32_join_append base32_err_append length_base32_join base32_rem_bytes_def dvd_eq_mod_eq_0)

lemma take_8_drop:
  "j + 8 \<le> length data \<Longrightarrow> take 8 (drop j data) = [data ! j, data ! (j + 1), data ! (j + 2), data ! (j + 3),
     data ! (j + 4), data ! (j + 5), data ! (j + 6), data ! (j + 7)]"
  by (simp add: numeral_eq_Suc flip: Cons_nth_drop_Suc)

lemma decode_1quad_bytes:
  assumes "j + 8 \<le> length data" and "p + 5 \<le> length out"
  shows "decode_1quad data a j (out, p, e) =
    Some (overwrite out p (base32_bytes a (take 8 (drop j data))), p + 5, e OR base32_err a (take 8 (drop j data)))"
  using assms
  by (simp add: decode_1quad_def codec_simps Let_def take_8_drop base32_bytes_def base32_octets_def)

lemma decode_8quads_bytes:
  assumes "8 dvd j" and "j + 64 \<le> length data" and "j div 8 * 5 + 40 \<le> length out"
  shows "decode_8quads data a j (out, j div 8 * 5, e) =
    Some (overwrite out (j div 8 * 5) (base32_bytes a (take 64 (drop j data))), j div 8 * 5 + 40,
      e OR base32_err a (take 64 (drop j data)))"
proof -
  have "while_upto 1 1 8 (\<lambda>n s. decode_1quad data a (j + n * 8) s) 0 (out, j div 8 * 5 + 0 * 5, e) =
      Some (8, overwrite out (j div 8 * 5) (base32_bytes a (take (8 * 8) (drop j data))), j div 8 * 5 + 8 * 5,
        e OR base32_err a (take (8 * 8) (drop j data)))"
    using assms by (intro base32_dec.inner [where mk = "\<lambda>n out e. (out, j div 8 * 5 + n * 5, e)"])
      (auto simp: decode_1quad_bytes)
  then show ?thesis by (simp add: decode_8quads_def)
qed

lemma check_trailing_bits_eq:
  "check_trailing_bits v 1 = (if v AND 0x01 = 0 then 0 else 32)"
  "check_trailing_bits v 2 = (if v AND 0x03 = 0 then 0 else 32)"
  "check_trailing_bits v 3 = (if v AND 0x07 = 0 then 0 else 32)"
  "check_trailing_bits v 4 = (if v AND 0x0F = 0 then 0 else 32)"
proof -
  have range: "NOT (base32_not_in_range (v AND m) 1 m) AND 0x20 = (if v AND m = 0 then 0 else 32)"
    if "1 \<le> unat m" "unat m < 128" for m :: byte
  proof -
    have "v AND m \<le> m" by (simp add: word_and_le1)
    then show ?thesis using that by (auto simp: word_le_nat_alt unat_eq_zero [symmetric] Suc_le_eq)
  qed
  show "check_trailing_bits v 1 = (if v AND 0x01 = 0 then 0 else 32)"
    "check_trailing_bits v 2 = (if v AND 0x03 = 0 then 0 else 32)"
    "check_trailing_bits v 3 = (if v AND 0x07 = 0 then 0 else 32)"
    "check_trailing_bits v 4 = (if v AND 0x0F = 0 then 0 else 32)"
    using range [of 1] range [of 3] range [of 7] range [of 15]
    by (simp_all add: check_trailing_bits_def Let_def del: One_nat_def)
qed

lemma base32_decode_tail_bytes:
  assumes t: "take (length t) (drop j data) = t"
    and len: "length t = 0 \<or> length t = 2 \<or> length t = 4 \<or> length t = 5 \<or> length t = 7"
    and content: "content_len = j + length t" and room: "p + base32_rem_bytes (length t) \<le> length out"
  shows "base32_decode_tail data a content_len j (out, p, e) =
    Some (overwrite out p (base32_bytes a t),
      Ok (e OR base32_err a t OR (if base32_trailing (map (\<lambda>c. char_to_quintet c a) t) \<noteq> 0 then 32 else 0)))"
proof -
  have fits: "j + length t \<le> length data" if "t \<noteq> []" using arg_cong [OF t, of length] that by (cases t) auto
  have gets: "slice_gets data j n = Some t" if "n = length t" "t \<noteq> []" for n
    using slice_gets_in [of j "length t" data] fits [OF that(2)] t that(1) by simp
  have l5: "length xs = 5 \<Longrightarrow> \<exists>a b c d e. xs = [a, b, c, d, e]" for xs :: "byte list"
    by (auto simp: numeral_eq_Suc length_Suc_conv)
  have l7: "length xs = 7 \<Longrightarrow> \<exists>a b c d e f g. xs = [a, b, c, d, e, f, g]" for xs :: "byte list"
    by (auto simp: numeral_eq_Suc length_Suc_conv)
  from len consider "t = []" | c0 c1 where "t = [c0, c1]" | c0 c1 c2 c3 where "t = [c0, c1, c2, c3]"
    | c0 c1 c2 c3 c4 where "t = [c0, c1, c2, c3, c4]" | c0 c1 c2 c3 c4 c5 c6 where "t = [c0, c1, c2, c3, c4, c5, c6]"
    using length_eq_2 [of t] length_eq_4 [of t] l5 [of t] l7 [of t] by auto
  then show ?thesis
  proof cases
    case 1
    then show ?thesis using content by (simp add: base32_decode_tail_def overwrite_def base32_bytes_def)
  next
    case (2 c0 c1)
    then show ?thesis using content room gets [of 2]
      by (simp add: base32_decode_tail_def Let_def codec_simps base32_rem_bytes_def base32_bytes_def
          base32_octets_def check_trailing_bits_eq or.assoc)
  next
    case (3 c0 c1 c2 c3)
    then show ?thesis using content room gets [of 4]
      by (simp add: base32_decode_tail_def Let_def codec_simps base32_rem_bytes_def base32_bytes_def
          base32_octets_def check_trailing_bits_eq or.assoc)
  next
    case (4 c0 c1 c2 c3 c4)
    then show ?thesis using content room gets [of 5]
      by (simp add: base32_decode_tail_def Let_def codec_simps base32_rem_bytes_def base32_bytes_def
          base32_octets_def check_trailing_bits_eq or.assoc del: One_nat_def)
  next
    case (5 c0 c1 c2 c3 c4 c5 c6)
    then show ?thesis using content room gets [of 7]
      by (simp add: base32_decode_tail_def Let_def codec_simps base32_rem_bytes_def base32_bytes_def
          base32_octets_def check_trailing_bits_eq or.assoc)
  qed
qed

lemma base32_decode_content:
  assumes data: "data = cs @ pads" and cs: "cs \<noteq> []"
    and strip: "base32_strip_padding_info data (base32_is_padded a) = Ok (length cs, k)"
    and n: "base32_decoded_length (length cs) = Ok n" and room: "n \<le> length out"
  shows "base32_decode_into_constant_time out data a =
    Some (overwrite out 0 (base32_bytes a cs),
      if base32_err a cs < 32 \<and> base32_trailing (map (\<lambda>c. char_to_quintet c a) cs) = 0
      then Ok () else Err Base32InvalidInput)"
proof -
  let ?n = "length cs" and ?at = "base32_dec.loop_at a (\<lambda>i out e. (out, i div 8 * 5, e)) data out"
  let ?v = "map (\<lambda>c. char_to_quintet c a)"
  have le: "?n \<le> length data" using data by simp
  have mod: "?n mod 8 = 0 \<or> ?n mod 8 = 2 \<or> ?n mod 8 = 4 \<or> ?n mod 8 = 5 \<or> ?n mod 8 = 7"
    and n_eq: "n = ?n div 8 * 5 + base32_rem_bytes (?n mod 8)"
    using n by (auto simp: base32_decoded_length_def base32_rem_bytes_def Let_def split: if_splits)
  then have rm: "?n div 8 * 5 \<le> length out" using room by simp
  have "\<exists>j. while_upto 64 64 ?n (decode_8quads data a) 0 (?at 0) = Some (j, ?at j) \<and>
      8 dvd j \<and> 0 \<le> j \<and> j \<le> ?n \<and> ?n < j + 64"
    using rm le by (intro base32_dec.loop [where n = 8]) (auto simp: decode_8quads_bytes)
  then obtain j where j: "while_upto 64 64 ?n (decode_8quads data a) 0 (?at 0) = Some (j, ?at j)"
    "8 dvd j" "j \<le> ?n" by blast
  have "\<exists>l. while_upto 8 8 ?n (decode_1quad data a) j (?at j) = Some (l, ?at l) \<and>
      8 dvd l \<and> j \<le> l \<and> l \<le> ?n \<and> ?n < l + 8"
    using rm le j by (intro base32_dec.loop [where n = 1]) (auto simp: decode_1quad_bytes)
  then obtain l where l: "while_upto 8 8 ?n (decode_1quad data a) j (?at j) = Some (l, ?at l)"
    "8 dvd l" "l \<le> ?n" "?n < l + 8" by blast
  then obtain m where m: "l = 8 * m" by (elim dvdE)
  let ?t = "drop l cs" and ?full = "take l cs"
  have tk: "take l data = ?full" "take (length ?t) (drop l data) = ?t" using l data by simp_all
  define r where "r = ?n - l"
  have nr: "?n = 8 * m + r" "r < 8" using l(3,4) by (simp_all add: r_def m)
  have "?n mod 8 = r" "?n div 8 = m" using nr(2) by (simp_all add: nr(1))
  then have md: "?n mod 8 = ?n - l" "?n div 8 = m" by (simp_all add: r_def)
  have dvd: "8 dvd length ?full" using l(2,3) by simp
  have cat: "?full @ ?t = cs" "?v ?full @ ?v ?t = ?v cs" by (simp, metis append_take_drop_id map_append)
  have bytes: "base32_bytes a cs = base32_bytes a ?full @ base32_bytes a ?t"
    using base32_dec.code_append [OF dvd, of a ?t] unfolding cat .
  have err: "base32_err a cs = base32_err a ?full OR base32_err a ?t"
    using base32_err_append [of a ?full ?t] unfolding cat .
  have trail: "base32_trailing (?v cs) = base32_trailing (?v ?t)"
    using base32_trailing_append [of "?v ?full" "?v ?t"] dvd unfolding cat by simp
  have full: "length (base32_bytes a ?full) = 5 * m"
    using base32_dec.code_length [of ?full a] l m by simp
  have at: "?at 0 = (out, 0, 0)"
    "?at l = (overwrite out 0 (base32_bytes a ?full), 5 * m, base32_err a ?full)"
    using m tk by (simp_all add: base32_dec.loop_at_def overwrite_def base32_bytes_def)
  let ?o1 = "overwrite out 0 (base32_bytes a ?full)"
  have o1: "length ?o1 = length out" using full rm md by (simp add: overwrite_def)
  have "base32_decode_tail data a ?n l (?o1, 5 * m, base32_err a ?full) =
      Some (overwrite ?o1 (5 * m) (base32_bytes a ?t),
        Ok (base32_err a ?full OR base32_err a ?t OR (if base32_trailing (?v ?t) \<noteq> 0 then 32 else 0)))"
    using tk l mod md n_eq room o1
    by (intro base32_decode_tail_bytes) simp_all
  moreover have "overwrite ?o1 (5 * m) (base32_bytes a ?t) = overwrite out 0 (base32_bytes a cs)"
    using full by (simp add: overwrite_def bytes add.commute)
  ultimately have tail: "base32_decode_tail data a ?n l (?at l) =
      Some (overwrite out 0 (base32_bytes a cs),
        Ok (base32_err a cs OR (if base32_trailing (?v cs) \<noteq> 0 then 32 else 0)))"
    unfolding at(2) by (simp add: err trail or.assoc)
  have "base32_err a cs OR (if base32_trailing (?v cs) \<noteq> 0 then 32 else 0) < 32 \<longleftrightarrow>
      base32_err a cs < 32 \<and> base32_trailing (?v cs) = 0"
    by (simp add: or_quintet)
  with tail j l at strip n room data cs show ?thesis
    by (simp add: base32_decode_into_constant_time_def not_less flip: not_le)
qed

text \<open>Splitting bytes into quintets and joining quintets to bytes are inverse.\<close>

fun base32_split :: "byte list \<Rightarrow> byte list" where
  "base32_split (b0 # b1 # b2 # b3 # b4 # bs) = base32_quintets b0 b1 b2 b3 b4 @ base32_split bs"
| "base32_split [b0, b1, b2, b3] = take 7 (base32_quintets b0 b1 b2 b3 0)"
| "base32_split [b0, b1, b2] = take 5 (base32_quintets b0 b1 b2 0 0)"
| "base32_split [b0, b1] = take 4 (base32_quintets b0 b1 0 0 0)"
| "base32_split [b0] = take 2 (base32_quintets b0 0 0 0 0)"
| "base32_split [] = []"

lemma base32_chars_split: "base32_chars a data = base32_lookup a (base32_split data)"
  by (induction a data rule: base32_chars.induct) (simp_all add: base32_lookup_def)

lemma base32_split_less: "q \<in> set (base32_split data) \<Longrightarrow> q < 32"
  by (induction data rule: base32_split.induct) (auto dest!: in_set_takeD intro: base32_quintets_less)

lemma base32_octets_quintets:
  fixes b0 b1 b2 b3 b4 :: byte
  shows "push_bit 3 (drop_bit 3 b0) OR drop_bit 2 (push_bit 2 (b0 AND 0x07) OR drop_bit 6 b1) = b0"
    and "push_bit 6 (push_bit 2 (b0 AND 0x07) OR drop_bit 6 b1) OR push_bit 1 (drop_bit 1 b1 AND 0x1F) OR
      drop_bit 4 (push_bit 4 (b1 AND 0x01) OR drop_bit 4 b2) = b1"
    and "push_bit 4 (push_bit 4 (b1 AND 0x01) OR drop_bit 4 b2) OR drop_bit 1 (push_bit 1 (b2 AND 0x0F) OR drop_bit 7 b3) = b2"
    and "push_bit 7 (push_bit 1 (b2 AND 0x0F) OR drop_bit 7 b3) OR push_bit 2 (drop_bit 2 b3 AND 0x1F) OR
      drop_bit 3 (push_bit 3 (b3 AND 0x03) OR drop_bit 5 b4) = b3"
    and "push_bit 5 (push_bit 3 (b3 AND 0x03) OR drop_bit 5 b4) OR (b4 AND 0x1F) = b4"
  by (rule byte_bit_eqI; simp add: bit_simps byte_bit_double)+

lemma base32_join_split: "base32_join (base32_split data) = data"
proof (induction data rule: base32_split.induct)
  case (1 b0 b1 b2 b3 b4 bs)
  then show ?case
    by (simp only: base32_split.simps base32_quintets_def append.simps base32_join.simps base32_octets_def
        base32_octets_quintets)
next
  case (2 b0 b1 b2 b3)
  have "base32_join (take 7 (base32_quintets b0 b1 b2 b3 0)) = take 4 (base32_octets (drop_bit 3 b0)
    (push_bit 2 (b0 AND 0x07) OR drop_bit 6 b1) (drop_bit 1 b1 AND 0x1F) (push_bit 4 (b1 AND 0x01) OR drop_bit 4 b2)
    (push_bit 1 (b2 AND 0x0F) OR drop_bit 7 b3) (drop_bit 2 b3 AND 0x1F) (push_bit 3 (b3 AND 0x03) OR drop_bit 5 0) 0)"
    by (simp add: base32_quintets_def)
  then show ?case by (simp only: base32_split.simps base32_octets_def base32_octets_quintets) simp
next
  case (3 b0 b1 b2)
  have "base32_join (take 5 (base32_quintets b0 b1 b2 0 0)) = take 3 (base32_octets (drop_bit 3 b0)
    (push_bit 2 (b0 AND 0x07) OR drop_bit 6 b1) (drop_bit 1 b1 AND 0x1F) (push_bit 4 (b1 AND 0x01) OR drop_bit 4 b2)
    (push_bit 1 (b2 AND 0x0F) OR drop_bit 7 0) 0 0 0)"
    by (simp add: base32_quintets_def)
  then show ?case by (simp only: base32_split.simps base32_octets_def base32_octets_quintets) simp
next
  case (4 b0 b1)
  have "base32_join (take 4 (base32_quintets b0 b1 0 0 0)) = take 2 (base32_octets (drop_bit 3 b0)
    (push_bit 2 (b0 AND 0x07) OR drop_bit 6 b1) (drop_bit 1 b1 AND 0x1F) (push_bit 4 (b1 AND 0x01) OR drop_bit 4 0)
    0 0 0 0)"
    by (simp add: base32_quintets_def)
  then show ?case by (simp only: base32_split.simps base32_octets_def base32_octets_quintets) simp
next
  case (5 b0)
  have "base32_join (take 2 (base32_quintets b0 0 0 0 0)) =
      take 1 (base32_octets (drop_bit 3 b0) (push_bit 2 (b0 AND 0x07) OR drop_bit 6 0) 0 0 0 0 0 0)"
    by (simp add: base32_quintets_def)
  then show ?case by (simp only: base32_split.simps base32_octets_def base32_octets_quintets) simp
qed simp

lemma base32_trailing_split: "base32_trailing (base32_split data) = 0"
proof (induction data rule: base32_split.induct)
  case (1 b0 b1 b2 b3 b4 bs)
  then show ?case by (simp only: base32_split.simps base32_quintets_def append.simps base32_trailing.simps)
qed (auto simp: base32_quintets_def bit_simps byte_bit_double intro!: byte_bit_eqI)

lemma base32_quintets_octets:
  fixes v0 v1 v2 v3 v4 v5 v6 v7 :: byte
  shows "v0 < 32 \<Longrightarrow> v1 < 32 \<Longrightarrow> drop_bit 3 (push_bit 3 v0 OR drop_bit 2 v1) = v0"
    and "v1 < 32 \<Longrightarrow> v2 < 32 \<Longrightarrow> v3 < 32 \<Longrightarrow> push_bit 2 ((push_bit 3 v0 OR drop_bit 2 v1) AND 0x07) OR
      drop_bit 6 (push_bit 6 v1 OR push_bit 1 v2 OR drop_bit 4 v3) = v1"
    and "v2 < 32 \<Longrightarrow> v3 < 32 \<Longrightarrow> drop_bit 1 (push_bit 6 v1 OR push_bit 1 v2 OR drop_bit 4 v3) AND 0x1F = v2"
    and "v3 < 32 \<Longrightarrow> v4 < 32 \<Longrightarrow> push_bit 4 ((push_bit 6 v1 OR push_bit 1 v2 OR drop_bit 4 v3) AND 0x01) OR
      drop_bit 4 (push_bit 4 v3 OR drop_bit 1 v4) = v3"
    and "v4 < 32 \<Longrightarrow> v5 < 32 \<Longrightarrow> v6 < 32 \<Longrightarrow> push_bit 1 ((push_bit 4 v3 OR drop_bit 1 v4) AND 0x0F) OR
      drop_bit 7 (push_bit 7 v4 OR push_bit 2 v5 OR drop_bit 3 v6) = v4"
    and "v5 < 32 \<Longrightarrow> v6 < 32 \<Longrightarrow> drop_bit 2 (push_bit 7 v4 OR push_bit 2 v5 OR drop_bit 3 v6) AND 0x1F = v5"
    and "v6 < 32 \<Longrightarrow> v7 < 32 \<Longrightarrow> push_bit 3 ((push_bit 7 v4 OR push_bit 2 v5 OR drop_bit 3 v6) AND 0x03) OR
      drop_bit 5 (push_bit 5 v6 OR v7) = v6"
    and "v7 < 32 \<Longrightarrow> (push_bit 5 v6 OR v7) AND 0x1F = v7"
  by (auto simp: quintet_bits bit_simps byte_bit_double intro!: byte_bit_eqI)

lemma base32_split_join_aux:
  fixes v1 v3 v4 v6 :: byte
  shows "v1 < 32 \<Longrightarrow> v1 AND 0x03 = 0 \<Longrightarrow> push_bit 2 ((push_bit 3 v0 OR drop_bit 2 v1) AND 0x07) = v1"
    and "v3 < 32 \<Longrightarrow> v3 AND 0x0F = 0 \<Longrightarrow>
      push_bit 4 ((push_bit 6 v1 OR push_bit 1 v2 OR drop_bit 4 v3) AND 0x01) = v3"
    and "v4 < 32 \<Longrightarrow> v4 AND 0x01 = 0 \<Longrightarrow> push_bit 1 ((push_bit 4 v3 OR drop_bit 1 v4) AND 0x0F) = v4"
    and "v6 < 32 \<Longrightarrow> v6 AND 0x07 = 0 \<Longrightarrow>
      push_bit 3 ((push_bit 7 v4 OR push_bit 2 v5 OR drop_bit 3 v6) AND 0x03) = v6"
proof -
  have low: "\<not> bit (v :: byte) n" if "v AND m = 0" "bit m n" for v m n
    using arg_cong [OF that(1), of "\<lambda>w. bit w n"] that(2) by (simp add: bit_and_iff)
  show "v1 < 32 \<Longrightarrow> v1 AND 0x03 = 0 \<Longrightarrow> push_bit 2 ((push_bit 3 v0 OR drop_bit 2 v1) AND 0x07) = v1"
    using low [of v1 3 0] low [of v1 3 1] by (auto simp: quintet_bits bit_simps intro!: byte_bit_eqI)
  show "v3 < 32 \<Longrightarrow> v3 AND 0x0F = 0 \<Longrightarrow>
      push_bit 4 ((push_bit 6 v1 OR push_bit 1 v2 OR drop_bit 4 v3) AND 0x01) = v3"
    using low [of v3 15 0] low [of v3 15 1] low [of v3 15 2] low [of v3 15 3]
    by (auto simp: quintet_bits bit_simps byte_bit_double intro!: byte_bit_eqI)
  show "v4 < 32 \<Longrightarrow> v4 AND 0x01 = 0 \<Longrightarrow> push_bit 1 ((push_bit 4 v3 OR drop_bit 1 v4) AND 0x0F) = v4"
    using low [of v4 1 0] by (auto simp: quintet_bits bit_simps byte_bit_double intro!: byte_bit_eqI)
  show "v6 < 32 \<Longrightarrow> v6 AND 0x07 = 0 \<Longrightarrow>
      push_bit 3 ((push_bit 7 v4 OR push_bit 2 v5 OR drop_bit 3 v6) AND 0x03) = v6"
    using low [of v6 7 0] low [of v6 7 1] low [of v6 7 2]
    by (auto simp: quintet_bits bit_simps byte_bit_double intro!: byte_bit_eqI)
qed

lemma base32_tails:
  "take 2 (base32_quintets b0 0 0 0 0) = [drop_bit 3 b0, push_bit 2 (b0 AND 0x07)]"
  "take 4 (base32_quintets b0 b1 0 0 0) =
     [drop_bit 3 b0, push_bit 2 (b0 AND 0x07) OR drop_bit 6 b1, drop_bit 1 b1 AND 0x1F, push_bit 4 (b1 AND 0x01)]"
  "take 5 (base32_quintets b0 b1 b2 0 0) =
     [drop_bit 3 b0, push_bit 2 (b0 AND 0x07) OR drop_bit 6 b1, drop_bit 1 b1 AND 0x1F,
      push_bit 4 (b1 AND 0x01) OR drop_bit 4 b2, push_bit 1 (b2 AND 0x0F)]"
  "take 7 (base32_quintets b0 b1 b2 b3 0) =
     [drop_bit 3 b0, push_bit 2 (b0 AND 0x07) OR drop_bit 6 b1, drop_bit 1 b1 AND 0x1F,
      push_bit 4 (b1 AND 0x01) OR drop_bit 4 b2, push_bit 1 (b2 AND 0x0F) OR drop_bit 7 b3,
      drop_bit 2 b3 AND 0x1F, push_bit 3 (b3 AND 0x03)]"
  "take 1 (base32_octets v0 v1 0 0 0 0 0 0) = [push_bit 3 v0 OR drop_bit 2 v1]"
  "take 2 (base32_octets v0 v1 v2 v3 0 0 0 0) =
     [push_bit 3 v0 OR drop_bit 2 v1, push_bit 6 v1 OR push_bit 1 v2 OR drop_bit 4 v3]"
  "take 3 (base32_octets v0 v1 v2 v3 v4 0 0 0) =
     [push_bit 3 v0 OR drop_bit 2 v1, push_bit 6 v1 OR push_bit 1 v2 OR drop_bit 4 v3, push_bit 4 v3 OR drop_bit 1 v4]"
  "take 4 (base32_octets v0 v1 v2 v3 v4 v5 v6 0) =
     [push_bit 3 v0 OR drop_bit 2 v1, push_bit 6 v1 OR push_bit 1 v2 OR drop_bit 4 v3, push_bit 4 v3 OR drop_bit 1 v4,
      push_bit 7 v4 OR push_bit 2 v5 OR drop_bit 3 v6]"
  by (simp_all add: base32_quintets_def base32_octets_def)

definition base32_valid_rem :: "nat \<Rightarrow> bool" where
  "base32_valid_rem n = (n mod 8 = 0 \<or> n mod 8 = 2 \<or> n mod 8 = 4 \<or> n mod 8 = 5 \<or> n mod 8 = 7)"

lemma base32_split_join:
  "list_all (\<lambda>v. v < 32) vs \<Longrightarrow> base32_trailing vs = 0 \<Longrightarrow> base32_valid_rem (length vs) \<Longrightarrow>
   base32_split (base32_join vs) = vs"
proof (induction vs rule: base32_join.induct)
  case (1 v0 v1 v2 v3 v4 v5 v6 v7 vs)
  then have IH: "base32_split (base32_join vs) = vs"
    by (simp add: base32_valid_rem_def eight_dvd_simps)
  have "v0 < 32" "v1 < 32" "v2 < 32" "v3 < 32" "v4 < 32" "v5 < 32" "v6 < 32" "v7 < 32" using "1.prems"(1) by simp_all
  then show ?case
    by (simp only: base32_join.simps base32_octets_def append.simps base32_split.simps base32_quintets_def
        base32_quintets_octets IH)
next
  case (2 v0 v1 v2 v3 v4 v5 v6)
  have "v0 < 32" "v1 < 32" "v2 < 32" "v3 < 32" "v4 < 32" "v5 < 32" "v6 < 32" "v6 AND 0x07 = 0" using "2.prems" by simp_all
  then show ?case
    by (simp only: base32_join.simps base32_tails base32_split.simps base32_quintets_octets base32_split_join_aux)
next
  case (3 v0 v1 v2 v3 v4)
  have "v0 < 32" "v1 < 32" "v2 < 32" "v3 < 32" "v4 < 32" "v4 AND 0x01 = 0" using "3.prems" by simp_all
  then show ?case
    by (simp only: base32_join.simps base32_tails base32_split.simps base32_quintets_octets base32_split_join_aux)
next
  case (4 v0 v1 v2 v3)
  have "v0 < 32" "v1 < 32" "v2 < 32" "v3 < 32" "v3 AND 0x0F = 0" using "4.prems" by simp_all
  then show ?case
    by (simp only: base32_join.simps base32_tails base32_split.simps base32_quintets_octets base32_split_join_aux)
next
  case (5 v0 v1)
  have "v0 < 32" "v1 < 32" "v1 AND 0x03 = 0" using "5.prems" by simp_all
  then show ?case
    by (simp only: base32_join.simps base32_tails base32_split.simps base32_quintets_octets base32_split_join_aux)
qed (simp_all add: base32_valid_rem_def)

lemma base32_values_lookup:
  "(\<And>q. q \<in> set qs \<Longrightarrow> q < 32) \<Longrightarrow> map (\<lambda>c. char_to_quintet c a) (base32_lookup a qs) = qs"
  by (induction qs) (simp_all add: base32_quintet_roundtrip)

lemma base32_values_chars: "map (\<lambda>c. char_to_quintet c a) (base32_chars a data) = base32_split data"
  by (simp add: base32_chars_split base32_values_lookup base32_split_less)

lemma base32_err_less: "base32_err a cs < 32 \<longleftrightarrow> list_all (\<lambda>c. char_to_quintet c a < 32) cs"
  by (induction cs) (simp_all add: or_quintet)

lemma base32_err_chars: "base32_err a (base32_chars a data) < 32"
proof -
  have "list_all (\<lambda>v. v < 32) (map (\<lambda>c. char_to_quintet c a) (base32_chars a data))"
    unfolding base32_values_chars by (simp add: list_all_iff base32_split_less)
  then show ?thesis by (simp add: base32_err_less list_all_iff)
qed

lemma base32_char_valid: "char_to_quintet c a < 32 \<longleftrightarrow> c \<in> set (base32_digits a)"
proof
  assume "char_to_quintet c a < 32"
  moreover from this have "base32_digits a ! unat (char_to_quintet c a) = c"
    using char_to_quintet_cases [of c a] by (simp add: Let_def)
  ultimately show "c \<in> set (base32_digits a)"
    using nth_mem [of "unat (char_to_quintet c a)" "base32_digits a"] by (simp add: word_less_nat_alt)
next
  assume "c \<in> set (base32_digits a)"
  then obtain i where i: "i < 32" "c = base32_digits a ! i" by (auto simp: in_set_conv_nth)
  then have "unat (word_of_nat i :: byte) = i" by (simp add: unsigned_of_nat take_bit_eq_mod)
  with i show "char_to_quintet c a < 32"
    using base32_quintet_roundtrip [of "word_of_nat i" a] by (simp add: word_less_nat_alt)
qed

lemma base32_chars_bytes:
  assumes "base32_err a cs < 32" and "base32_trailing (map (\<lambda>c. char_to_quintet c a) cs) = 0"
    and "base32_valid_rem (length cs)"
  shows "base32_chars a (base32_bytes a cs) = cs"
proof -
  let ?v = "map (\<lambda>c. char_to_quintet c a) cs"
  have valid: "list_all (\<lambda>c. char_to_quintet c a < 32) cs" using assms(1) by (simp add: base32_err_less)
  then have "base32_split (base32_join ?v) = ?v"
    using assms by (intro base32_split_join) (simp_all add: list_all_iff)
  moreover have "base32_lookup a ?v = cs"
    using valid char_to_quintet_cases [of _ a] by (induction cs) (auto simp: Let_def split: if_splits)
  ultimately show ?thesis by (simp add: base32_bytes_def base32_chars_split)
qed

section \<open>Padding\<close>

definition base32_trailing_pads :: "byte list \<Rightarrow> nat" where
  "base32_trailing_pads data = length (takeWhile (\<lambda>c. c = base32_PAD) (take 7 (rev data)))"

lemma count_trailing_padding_eq: "count_trailing_padding data = base32_trailing_pads data"
proof (cases "data = []")
  case True
  then show ?thesis by (simp add: count_trailing_padding_def base32_trailing_pads_def)
next
  case False
  let ?len = "length data" and ?P = "\<lambda>c. c = base32_PAD"
  define step where "step = (\<lambda>(count :: u64, all_pad) k.
      let idx = ?len - 1 - k;
          is_pad = (if data ! idx = base32_PAD then 0xFF else 0x00 :: byte);
          all_pad = all_pad AND is_pad;
          all_pad_ext = (signed (signed_drop_bit 7 all_pad) :: u64);
          count = (word_of_nat (k + 1) AND all_pad_ext) OR (count AND NOT all_pad_ext)
      in (count, all_pad))"
  have inv: "foldl step (0, 0xFF) [0..<k] =
      (word_of_nat (length (takeWhile ?P (take k (rev data)))), if \<forall>c \<in> set (take k (rev data)). ?P c then 0xFF else 0)"
    if "k \<le> ?len" for k
    using that
  proof (induction k)
    case 0
    then show ?case by simp
  next
    case (Suc k)
    have x: "rev data ! k = data ! (?len - Suc k)" using Suc.prems by (simp add: rev_nth)
    have tk: "take (Suc k) (rev data) = take k (rev data) @ [rev data ! k]"
      using Suc.prems by (simp add: take_Suc_conv_app_nth)
    have lt: "length (takeWhile ?P (take k (rev data))) = k" if "\<forall>c \<in> set (take k (rev data)). ?P c"
      using that Suc.prems by (simp add: takeWhile_eq_all_conv [THEN iffD2])
    show ?case
      using Suc lt by (auto simp: tk step_def x takeWhile_append signed_drop_bit_7)
  qed
  have "count_trailing_padding data = unat (fst (foldl step (0, 0xFF) [0..<(if ?len < 7 then ?len else 7)]))"
    using False by (simp add: count_trailing_padding_def step_def Let_def)
  also have "\<dots> = unat (word_of_nat (base32_trailing_pads data) :: u64)"
    by (subst inv) (auto simp: base32_trailing_pads_def)
  also have "\<dots> = base32_trailing_pads data"
  proof -
    have "base32_trailing_pads data \<le> 7"
      unfolding base32_trailing_pads_def by (rule order.trans [OF length_takeWhile_le]) simp
    then show ?thesis by (simp add: unsigned_of_nat take_bit_nat_eq_self)
  qed
  finally show ?thesis .
qed

lemma base32_trailing_pads_split:
  assumes "base32_trailing_pads data = k"
  shows "data = take (length data - k) data @ replicate k base32_PAD" and "k \<le> length data" and "k \<le> 7"
proof -
  let ?w = "takeWhile (\<lambda>c. c = base32_PAD) (take 7 (rev data))"
  have k: "length ?w = k" using assms by (simp add: base32_trailing_pads_def)
  have "?w = replicate k base32_PAD"
    by (rule replicate_eqI) (use k in \<open>auto dest: set_takeWhileD\<close>)
  moreover have "?w = take k (rev data)"
    using takeWhile_eq_take [of "\<lambda>c. c = base32_PAD" "take 7 (rev data)"] k length_takeWhile_le [of "\<lambda>c. c = base32_PAD" "take 7 (rev data)"]
    by (simp add: min_def split: if_splits)
  ultimately have "take k (rev data) = replicate k base32_PAD" by simp
  moreover show "k \<le> 7" "k \<le> length data"
    using length_takeWhile_le [of "\<lambda>c. c = base32_PAD" "take 7 (rev data)"] k by simp_all
  ultimately have "rev (drop (length data - k) data) = replicate k base32_PAD" by (simp add: take_rev)
  then have "drop (length data - k) data = replicate k base32_PAD" by (metis rev_replicate rev_rev_ident)
  then show "data = take (length data - k) data @ replicate k base32_PAD" by (metis append_take_drop_id)
qed

lemma base32_trailing_pads_append:
  assumes "cs = [] \<or> last cs \<noteq> base32_PAD" and "k \<le> 6"
  shows "base32_trailing_pads (cs @ replicate k base32_PAD) = k"
proof -
  have "take 7 (rev (cs @ replicate k base32_PAD)) = replicate k base32_PAD @ take (7 - k) (rev cs)"
    using assms(2) by simp
  moreover have "takeWhile (\<lambda>c. c = base32_PAD) (take (7 - k) (rev cs)) = []"
    using assms by (cases cs rule: rev_cases) (auto simp: take_Cons' split: if_splits)
  ultimately show ?thesis using assms(2) by (simp add: base32_trailing_pads_def takeWhile_append)
qed

lemma base32_strip_padded:
  defines "k data \<equiv> base32_trailing_pads data"
  shows "base32_strip_padding_info data True =
    (if k data \<noteq> 0 \<and> (length data mod 8 \<noteq> 0 \<or> k data \<notin> {1, 3, 4, 6}) then Err Base32InvalidPadding
     else Ok (length data - k data, k data))"
proof (cases "data = []")
  case True
  then show ?thesis by (simp add: base32_strip_padding_info_def k_def base32_trailing_pads_def)
next
  case False
  note k = base32_trailing_pads_split(2,3) [OF refl, of data, folded k_def]
  have content: "(length data - k data) mod 8 = 8 - k data" if nz: "k data \<noteq> 0" and "length data mod 8 = 0"
  proof -
    obtain q where q: "length data = 8 * q" using \<open>length data mod 8 = 0\<close> by auto
    then obtain r where "q = Suc r" using False by (cases q) auto
    with q k nz have "length data - k data = 8 * r + (8 - k data)" "8 - k data < 8" by auto
    then show ?thesis by simp
  qed
  let ?c = "(length data - k data) mod 8"
  have "(if k data = 6 then ?c \<noteq> 2 else if k data = 4 then ?c \<noteq> 4 else if k data = 3 then ?c \<noteq> 5
      else if k data = 1 then ?c \<noteq> 7 else True) = (k data \<notin> {1, 3, 4, 6})"
    if "k data \<noteq> 0" "length data mod 8 = 0"
    using content [OF that] by auto
  then show ?thesis
    using False unfolding base32_strip_padding_info_def Let_def count_trailing_padding_eq k_def [symmetric]
    by (cases "length data mod 8 = 0"; cases "k data = 0") auto
qed

lemma base32_strip_unpadded:
  "base32_strip_padding_info data False =
    (if base32_trailing_pads data \<noteq> 0 then Err Base32InvalidPadding else Ok (length data, 0))"
  by (cases data rule: rev_cases) (auto simp: base32_strip_padding_info_def base32_trailing_pads_def take_Cons')

lemma base32_strip_cases:
  "base32_strip_padding_info data padded =
    (let k = base32_trailing_pads data in
     if k \<noteq> 0 \<and> (\<not> padded \<or> length data mod 8 \<noteq> 0 \<or> k \<notin> {1, 3, 4, 6}) then Err Base32InvalidPadding
     else Ok (length data - k, k))"
  by (cases padded) (auto simp: base32_strip_padded base32_strip_unpadded Let_def)

lemma base32_decoded_length_eq:
  "base32_decoded_length n =
    (if base32_valid_rem n then Ok (n div 8 * 5 + base32_rem_bytes (n mod 8)) else Err Base32InvalidLength)"
  by (auto simp: base32_decoded_length_def base32_valid_rem_def base32_rem_bytes_def Let_def)

lemma base32_decode_eq:
  assumes strip: "base32_strip_padding_info data (base32_is_padded a) = Ok (n, k)" and cs: "take n data = cs"
  shows "base32_decode data a =
    Some (if \<not> base32_valid_rem n then Err Base32InvalidLength
      else if base32_err a cs < 32 \<and> base32_trailing (map (\<lambda>c. char_to_quintet c a) cs) = 0 then Ok (base32_bytes a cs)
      else Err Base32InvalidInput)"
proof -
  have nk: "n = length data - k" "k = base32_trailing_pads data"
    using strip by (auto simp: base32_strip_cases Let_def split: if_splits)
  have n: "length cs = n" using cs nk by auto
  have data: "data = cs @ replicate k base32_PAD"
    using base32_trailing_pads_split(1) [OF nk(2) [symmetric]] cs nk(1) by simp
  note dl = base32_decoded_length_eq [of n]
  show ?thesis
  proof (cases "base32_valid_rem n")
    case False
    with strip dl show ?thesis by (simp add: base32_decode_def)
  next
    case True
    let ?m = "n div 8 * 5 + base32_rem_bytes (n mod 8)"
    have m: "length (base32_bytes a cs) = ?m" using n by (simp add: base32_bytes_def length_base32_join)
    show ?thesis
    proof (cases "n = 0")
      case True
      with strip dl n show ?thesis
        by (simp add: base32_decode_def base32_decode_into_def base32_decode_into_constant_time_def
            base32_valid_rem_def base32_rem_bytes_def base32_bytes_def)
    next
      case False
      have "base32_decode_into_constant_time (replicate ?m 0) data a =
          Some (overwrite (replicate ?m 0) 0 (base32_bytes a cs),
            if base32_err a cs < 32 \<and> base32_trailing (map (\<lambda>c. char_to_quintet c a) cs) = 0
            then Ok () else Err Base32InvalidInput)"
        using data strip n dl True False
        by (intro base32_decode_content [where pads = "replicate k base32_PAD" and k = k and n = ?m]) auto
      with strip dl True m show ?thesis
        by (auto simp: base32_decode_def base32_decode_into_def overwrite_def)
    qed
  qed
qed

lemma base32_PAD_invalid: "char_to_quintet base32_PAD a = 32"
  by (cases a) (simp_all add: char_to_quintet_code crockford_to_quintet_code base32_PAD_def Z32_DECODE_TABLE_def)

lemma base32_chars_no_PAD: "base32_chars a d = [] \<or> last (base32_chars a d) \<noteq> base32_PAD"
  using base32_err_chars [of a d] base32_PAD_invalid [of a]
  by (metis base32_err_less last_in_set less_irrefl list_all_iff)

lemma base32_rem_chars_valid: "base32_valid_rem (length (base32_chars a d))"
  "length (base32_chars a d) mod 8 = base32_rem_chars (length d mod 5)"
proof -
  have "base32_rem_chars (length d mod 5) < 8" by (simp add: base32_rem_chars_def)
  then show md: "length (base32_chars a d) mod 8 = base32_rem_chars (length d mod 5)"
    by (simp add: length_base32_chars)
  show "base32_valid_rem (length (base32_chars a d))"
    unfolding base32_valid_rem_def md by (simp add: base32_rem_chars_def)
qed

lemma base32_decode_canonical:
  assumes "s = base32_chars a d \<or> s = base32_text a d"
  shows "base32_decode s a = Some (Ok d)"
proof -
  let ?cs = "base32_chars a d"
  obtain k where s: "s = ?cs @ replicate k base32_PAD"
    and k: "k = 0 \<or> base32_is_padded a \<and> k = 8 - base32_rem_chars (length d mod 5) \<and> length d mod 5 \<noteq> 0"
    using assms by (auto simp: base32_text_def base32_padding_def split: if_splits)
  have pads: "k \<in> {0, 1, 3, 4, 6}" using k by (auto simp: base32_rem_chars_def split: if_splits)
  then have tp: "base32_trailing_pads s = k"
    unfolding s by (intro base32_trailing_pads_append base32_chars_no_PAD) auto
  have "length s mod 8 = 0" if "k \<noteq> 0"
  proof -
    have "length ?cs mod 8 + k = 8" using k that by (auto simp: base32_rem_chars_valid base32_rem_chars_def)
    then show ?thesis unfolding s by (metis length_append length_replicate mod_add_left_eq mod_self)
  qed
  then have "base32_strip_padding_info s (base32_is_padded a) = Ok (length ?cs, k)"
    using k pads by (auto simp: base32_strip_cases Let_def tp) (auto simp: s)
  from base32_decode_eq [OF this, of ?cs] show ?thesis
    by (simp add: s base32_rem_chars_valid base32_err_chars base32_values_chars base32_trailing_split)
      (simp add: base32_bytes_def base32_values_chars base32_join_split)
qed

lemma base32_decode_accepted:
  assumes "base32_decode s a = Some (Ok d)"
  shows "s = base32_chars a d \<or> s = base32_text a d"
proof -
  obtain n k where strip: "base32_strip_padding_info s (base32_is_padded a) = Ok (n, k)"
    using assms by (auto simp: base32_decode_def split: sum.splits)
  then have nk: "n = length s - k" "k = base32_trailing_pads s"
    and pads: "k \<noteq> 0 \<Longrightarrow> base32_is_padded a \<and> length s mod 8 = 0"
    by (auto simp: base32_strip_cases Let_def split: if_splits)
  let ?cs = "take n s"
  have acc: "base32_valid_rem n" "base32_err a ?cs < 32" "base32_bytes a ?cs = d"
    "base32_trailing (map (\<lambda>c. char_to_quintet c a) ?cs) = 0"
    using assms base32_decode_eq [OF strip refl] by (auto split: if_splits)
  have le: "k \<le> length s" "k \<le> 7" using base32_trailing_pads_split(2,3) [OF nk(2) [symmetric]] by simp_all
  have n: "length ?cs = n" using nk by simp
  have cs: "base32_chars a d = ?cs" using base32_chars_bytes [of a ?cs] acc n by simp
  have s: "s = ?cs @ replicate k base32_PAD"
    using base32_trailing_pads_split(1) [OF nk(2) [symmetric]] nk(1) by simp
  show ?thesis
  proof (cases "k = 0")
    case True
    then show ?thesis using s cs by simp
  next
    case False
    obtain q where "length s = 8 * q" using pads [OF False] by auto
    then obtain r where "length s = 8 * r + 8" using le False by (cases q) auto
    then have "n = 8 * r + (8 - k)" "8 - k < 8" using nk le False by auto
    then have "n mod 8 = 8 - k" by simp
    then have "base32_rem_chars (length d mod 5) = 8 - k"
      using base32_rem_chars_valid(2) [of a d] cs n by simp
    then have "k = 8 - base32_rem_chars (length d mod 5)" "length d mod 5 \<noteq> 0"
      using le by (auto simp: base32_rem_chars_def split: if_splits)
    then have "base32_padding a (length d) = replicate k base32_PAD"
      using pads [OF False] by (simp add: base32_padding_def)
    then show ?thesis using s cs by (simp add: base32_text_def)
  qed
qed

lemma base32_encoded_length_None:
  assumes "base32_encoded_length (length data) (base32_is_padded a) = None"
  shows "base32_encode data a = None" and "base32_encode_into_string out data a = None"
    and "base32_encode_array OUT data a = None"
  using assms by (simp_all add: base32_encode_def base32_encode_into_string_def base32_encode_array_def)

section \<open>Properties\<close>

text \<open>
  Base32 encoding writes the alphabet's character of every quintet of the data, as
  RFC 4648 groups them, followed by the padding of the alphabet; it panics exactly when
  \<open>encoded_length\<close> is \<open>None\<close>, the string variant appends and the array variant panics unless
  the array has exactly the encoded length.
\<close>

theorem base32_encode_correct:
  "let txt = map ((!) (base32_digits a)) (base32_values data) @ base32_padding a (length data);
       len = base32_encoded_length (length data) (base32_is_padded a)
   in base32_encode data a = (if len = None then None else Some txt) \<and>
      base32_encode_into_string out data a = (if len = None then None else Some (out @ txt)) \<and>
      base32_encode_array OUT data a = (if len = Some OUT then Some txt else None)"
proof -
  have spec: "map ((!) (base32_digits a)) (base32_values data) @ base32_padding a (length data) = base32_text a data"
    by (simp add: base32_text_def base32_chars_spec)
  show ?thesis
    unfolding Let_def spec
    using base32_encode_text [of data a] base32_encoded_length_None [of data a]
    by (cases "base32_encoded_length (length data) (base32_is_padded a)") auto
qed

text \<open>
  C17: a text decodes to \<open>d\<close> exactly when it is the base32 encoding of \<open>d\<close>, with its padding
  or without any; in particular decoding never accepts two texts that differ in more than
  the padding for the same bytes.
\<close>

theorem base32_decode_accepts:
  "base32_decode s a = Some (Ok d) \<longleftrightarrow>
     s = map ((!) (base32_digits a)) (base32_values d) \<or>
     s = map ((!) (base32_digits a)) (base32_values d) @ base32_padding a (length d)"
  using base32_decode_canonical [of s a d] base32_decode_accepted [of s a d]
  by (auto simp: base32_text_def base32_chars_spec)

text \<open>
  Base32 decoding never panics and every rejection has its cause: padding in an unpadded
  alphabet, in a text whose length is no multiple of eight or of a number of characters
  that no group leaves open is \<open>InvalidPadding\<close>; a number of characters that no number of
  bytes has is \<open>InvalidLength\<close>; a character outside the alphabet or unused bits set in the
  last one is \<open>InvalidInput\<close>.
\<close>

theorem base32_decode_cases:
  "base32_decode s a = Some (
     let k = base32_trailing_pads s; content = take (length s - k) s in
     if k \<noteq> 0 \<and> \<not> (base32_is_padded a \<and> length s mod 8 = 0 \<and> k \<in> {1, 3, 4, 6}) then Err Base32InvalidPadding
     else if length content mod 8 \<notin> {0, 2, 4, 5, 7} then Err Base32InvalidLength
     else if list_all (\<lambda>c. c \<in> set (base32_digits a)) content \<and>
       base32_trailing (map (\<lambda>c. char_to_quintet c a) content) = 0
     then Ok (base32_bytes a content)
     else Err Base32InvalidInput)"
proof (cases "base32_strip_padding_info s (base32_is_padded a)")
  case (Inl e)
  then show ?thesis by (auto simp: base32_decode_def base32_strip_cases Let_def split: if_splits)
next
  case (Inr nk)
  then have strip: "base32_strip_padding_info s (base32_is_padded a) =
      Ok (length s - base32_trailing_pads s, base32_trailing_pads s)"
    by (auto simp: base32_strip_cases Let_def split: if_splits)
  have valid: "base32_valid_rem n \<longleftrightarrow> n mod 8 \<in> {0, 2, 4, 5, 7}" for n by (simp add: base32_valid_rem_def)
  let ?k = "base32_trailing_pads s"
  have ok: "\<not> (?k \<noteq> 0 \<and> \<not> (base32_is_padded a \<and> length s mod 8 = 0 \<and> ?k \<in> {1, 3, 4, 6}))"
    using strip by (auto simp: base32_strip_cases Let_def split: if_splits)
  have len: "length (take (length s - ?k) s) = length s - ?k" by simp
  show ?thesis
    unfolding Let_def if_not_P [OF ok] len base32_decode_eq [OF strip refl] base32_err_less base32_char_valid valid
    by simp
qed

text \<open>Decoding a base32 text in the alphabet it was encoded in gives the bytes back.\<close>

theorem base32_roundtrip:
  "case base32_encode data a of
     Some txt \<Rightarrow> base32_decode txt a = Some (Ok data)
   | None \<Rightarrow> base32_encoded_length (length data) (base32_is_padded a) = None"
proof (cases "base32_encoded_length (length data) (base32_is_padded a)")
  case None
  then show ?thesis by (simp add: base32_encode_def)
next
  case (Some m)
  then show ?thesis by (simp add: base32_encode_text base32_decode_canonical)
qed

text \<open>
  C39: \<open>encoded_length\<close> is the length of the text where it gives one, and it is \<open>None\<close> when
  that length is no \<open>usize\<close>, but with an unpadded alphabet and a last group that is not full
  also as soon as the number of bits, plus four, is no \<open>usize\<close>.
\<close>

theorem base32_encoded_length_correct:
  "base32_encoded_length n padded =
     (let m = (if padded then (n + 4) div 5 * 8 else (n * 8 + 4) div 5)
      in if m < usize_limit \<and> (padded \<or> n mod 5 = 0 \<or> n * 8 + 4 < usize_limit) then Some m else None)"
proof -
  define q r where "q = n div 5" and "r = n mod 5"
  have n: "n = 5 * q + r" "r < 5" by (simp_all add: q_def r_def)
  have dm: "n div 5 = q" "n mod 5 = r" by (simp_all add: q_def r_def)
  have "(5 * q + r + 4) div 5 = q + (if r = 0 then 0 else 1)" using n(2) by auto
  then have pad: "(n + 4) div 5 * 8 = q * 8 + (if r = 0 then 0 else 8)" by (simp add: n(1))
  have "(5 * q * 8 + 4) div 5 = q * 8" by simp
  then have full: "r = 0 \<Longrightarrow> (n * 8 + 4) div 5 = q * 8" by (simp add: n(1))
  have le: "q * 8 \<le> (n * 8 + 4) div 5" "(n * 8 + 4) div 5 \<le> n * 8 + 4" by (simp_all add: n(1) div_le_dividend)
  show ?thesis
  proof (cases "n = 0")
    case True
    then show ?thesis by (simp add: base32_encoded_length_def usize_limit_def)
  next
    case False
    then show ?thesis
      unfolding base32_encoded_length_def Let_def dm pad
      using full le by (auto simp: checked_mul_def checked_add_def split: option.splits)
  qed
qed

end
