(* ===== verification/Crc32.thy ===== *)
theory Crc32
  imports Crc32_Table
begin

text \<open>
  The crate \<open>crc32\<close> (\<open>src/crc32/src\<close>): the baseline implementation that handles sixteen
  bytes per step with the sixteen tables, the combination of two checksums with matrices
  over GF(2), and the streaming \<open>Hasher\<close>. The build modelled is the portable one, in which
  \<open>specialized::State\<close> has no values (\<open>specialized/mod.rs\<close>), so a hasher is always in the
  state \<open>Baseline\<close>. The lemmas show that both table-driven routines compute the bitwise
  CRC-32 without a panic, that \<open>combine\<close> gives the checksum of the concatenation, and that
  a hasher depends on the concatenation of what it was fed only.
\<close>

section \<open>Definitions\<close>

definition crc32_update_slow :: "u32 \<Rightarrow> byte list \<Rightarrow> u32" where
  "crc32_update_slow prev buf =
     (let crc = NOT prev;
          crc = foldl (\<lambda>crc byte. CRC32_TABLE ! 0 ! unat ((ucast crc :: byte) XOR byte) XOR drop_bit 8 crc) crc buf
      in NOT crc)"

text \<open>One step over sixteen bytes; the rest of the slice is returned with the new value.\<close>

definition crc32_step_16 :: "u32 \<Rightarrow> byte list \<Rightarrow> (u32 \<times> byte list) option" where
  "crc32_step_16 crc buf =
     do {
       bs \<leftarrow> slice_gets buf 0 16;
       let b = (\<lambda>k. bs ! k);
       let crc = CRC32_TABLE ! 0x0 ! unat (b 0xf)
         XOR CRC32_TABLE ! 0x1 ! unat (b 0xe)
         XOR CRC32_TABLE ! 0x2 ! unat (b 0xd)
         XOR CRC32_TABLE ! 0x3 ! unat (b 0xc)
         XOR CRC32_TABLE ! 0x4 ! unat (b 0xb)
         XOR CRC32_TABLE ! 0x5 ! unat (b 0xa)
         XOR CRC32_TABLE ! 0x6 ! unat (b 0x9)
         XOR CRC32_TABLE ! 0x7 ! unat (b 0x8)
         XOR CRC32_TABLE ! 0x8 ! unat (b 0x7)
         XOR CRC32_TABLE ! 0x9 ! unat (b 0x6)
         XOR CRC32_TABLE ! 0xa ! unat (b 0x5)
         XOR CRC32_TABLE ! 0xb ! unat (b 0x4)
         XOR CRC32_TABLE ! 0xc ! unat (b 0x3 XOR ucast (drop_bit 0x18 crc AND 0xFF))
         XOR CRC32_TABLE ! 0xd ! unat (b 0x2 XOR ucast (drop_bit 0x10 crc AND 0xFF))
         XOR CRC32_TABLE ! 0xe ! unat (b 0x1 XOR ucast (drop_bit 0x08 crc AND 0xFF))
         XOR CRC32_TABLE ! 0xf ! unat (b 0x0 XOR ucast (drop_bit 0x00 crc AND 0xFF));
       Some (crc, drop 16 buf)
     }"

primrec crc32_unroll :: "nat \<Rightarrow> u32 \<Rightarrow> byte list \<Rightarrow> (u32 \<times> byte list) option" where
  "crc32_unroll 0 crc buf = Some (crc, buf)"
| "crc32_unroll (Suc n) crc buf =
     (case crc32_step_16 crc buf of None \<Rightarrow> None | Some (crc, buf) \<Rightarrow> crc32_unroll n crc buf)"

lemma crc32_step_16_rest: "crc32_step_16 crc buf = Some (crc', rest) \<Longrightarrow> rest = drop 16 buf"
  by (auto simp: crc32_step_16_def Let_def split: bind_split_asm)

lemma crc32_unroll_rest: "crc32_unroll n crc buf = Some (crc', rest) \<Longrightarrow> rest = drop (16 * n) buf"
proof (induction n arbitrary: crc buf)
  case (Suc n)
  then obtain c where "crc32_unroll n c (drop 16 buf) = Some (crc', rest)"
    by (auto dest!: crc32_step_16_rest split: option.splits)
  from Suc.IH [OF this] show ?case by (simp add: add.commute)
qed simp

function crc32_loop_64 :: "u32 \<Rightarrow> byte list \<Rightarrow> (u32 \<times> byte list) option" where
  "crc32_loop_64 crc buf =
     (if length buf \<ge> 64
      then (case crc32_unroll 4 crc buf of None \<Rightarrow> None | Some (crc, buf) \<Rightarrow> crc32_loop_64 crc buf)
      else Some (crc, buf))"
  by pat_completeness auto
termination
  by (relation "measure (\<lambda>(crc, buf). length buf)") (auto dest!: crc32_unroll_rest)

definition crc32_update_fast_16 :: "u32 \<Rightarrow> byte list \<Rightarrow> u32 option" where
  "crc32_update_fast_16 prev buf =
     do {
       (crc, buf) \<leftarrow> crc32_loop_64 (NOT prev) buf;
       Some (crc32_update_slow (NOT crc) buf)
     }"

lemma word_shift_less: "0 < (vec :: 'a :: len word) \<Longrightarrow> unat (drop_bit 1 vec) < unat vec"
  unfolding unat_drop_bit_1 by (simp add: word_less_nat_alt)

definition GF2_DIM :: nat where
  "GF2_DIM = 32"

function gf2_times_loop :: "u32 list \<Rightarrow> u32 \<Rightarrow> nat \<Rightarrow> u32 \<Rightarrow> u32 option" where
  "gf2_times_loop mat vec idx acc =
     (if vec > 0
      then (if vec AND 1 = 1
            then (case slice_get mat idx of
                    None \<Rightarrow> None
                  | Some m \<Rightarrow> gf2_times_loop mat (drop_bit 1 vec) (idx + 1) (acc XOR m))
            else gf2_times_loop mat (drop_bit 1 vec) (idx + 1) acc)
      else Some acc)"
  by pat_completeness auto
termination
  by (relation "measure (\<lambda>(mat, vec, idx, acc). unat vec)") (auto intro: word_shift_less simp del: One_nat_def)

definition gf2_matrix_times :: "u32 list \<Rightarrow> u32 \<Rightarrow> u32 option" where
  "gf2_matrix_times mat vec = gf2_times_loop mat vec 0 0"

definition gf2_matrix_square :: "u32 list \<Rightarrow> u32 list option" where
  "gf2_matrix_square mat =
     those (map (\<lambda>n. do { m \<leftarrow> slice_get mat n; gf2_matrix_times mat m }) [0..<GF2_DIM])"

text \<open>One pass of the loop of \<open>combine\<close>: two bits of the length.\<close>

function crc32_combine_loop :: "u32 \<Rightarrow> u64 \<Rightarrow> u32 list \<Rightarrow> u32 option" where
  "crc32_combine_loop crc1 len2 odd1 =
     (case gf2_matrix_square odd1 of None \<Rightarrow> None | Some even1 \<Rightarrow>
      (case (if len2 AND 1 = 1 then gf2_matrix_times even1 crc1 else Some crc1) of None \<Rightarrow> None | Some crc1 \<Rightarrow>
       if drop_bit 1 len2 = 0 then Some crc1
       else
         (case gf2_matrix_square even1 of None \<Rightarrow> None | Some odd1 \<Rightarrow>
          (case (if drop_bit 1 len2 AND 1 = 1 then gf2_matrix_times odd1 crc1 else Some crc1) of None \<Rightarrow> None | Some crc1 \<Rightarrow>
           if drop_bit 1 (drop_bit 1 len2) = 0 then Some crc1
           else crc32_combine_loop crc1 (drop_bit 1 (drop_bit 1 len2)) odd1))))"
  by pat_completeness auto
termination
proof (relation "measure (\<lambda>(crc1, len2, odd1). unat len2)", goal_cases)
  case (2 crc1 len2 odd1 even1 crc2 odd2 crc3)
  have "unat (drop_bit 1 (drop_bit 1 len2)) < unat len2"
  proof -
    have "unat (drop_bit 1 len2) \<noteq> 0" using 2(3) by (simp only: unat_eq_zero not_False_eq_True)
    then have "unat len2 \<noteq> 0" unfolding unat_drop_bit_1 by (metis div_0)
    then show ?thesis unfolding unat_drop_bit_1 by linarith
  qed
  then show ?case by simp
qed simp

declare crc32_loop_64.simps [simp del] gf2_times_loop.simps [simp del] crc32_combine_loop.simps [simp del]

definition crc32_odd_init :: "u32 list" where
  "crc32_odd_init =
     (let odd1 = (replicate GF2_DIM 0)[0 := 0xedb88320]
      in fst (foldl (\<lambda>(odd1, row). \<lambda>n. (odd1[n := row], push_bit 1 row)) (odd1, 1) [1..<GF2_DIM]))"

definition crc32_combine :: "u32 \<Rightarrow> u32 \<Rightarrow> u64 \<Rightarrow> u32 option" where
  "crc32_combine crc1 crc2 len2 =
     (if len2 = 0 then Some crc1
      else
        do {
          let odd1 = crc32_odd_init;
          even1 \<leftarrow> gf2_matrix_square odd1;
          odd1 \<leftarrow> gf2_matrix_square even1;
          crc1 \<leftarrow> crc32_combine_loop crc1 len2 odd1;
          Some (crc1 XOR crc2)
        })"

section \<open>The hasher\<close>

record crc32_baseline =
  crc32_base_state :: u32

definition crc32_base_new :: "u32 \<Rightarrow> crc32_baseline" where
  "crc32_base_new s = \<lparr>crc32_base_state = s\<rparr>"

definition crc32_base_update :: "crc32_baseline \<Rightarrow> byte list \<Rightarrow> crc32_baseline option" where
  "crc32_base_update self buf =
     do { s \<leftarrow> crc32_update_fast_16 (crc32_base_state self) buf; Some (self\<lparr>crc32_base_state := s\<rparr>) }"

definition crc32_base_finalize :: "crc32_baseline \<Rightarrow> u32" where
  "crc32_base_finalize self = crc32_base_state self"

definition crc32_base_reset :: "crc32_baseline \<Rightarrow> crc32_baseline" where
  "crc32_base_reset self = self\<lparr>crc32_base_state := 0\<rparr>"

definition crc32_base_combine :: "crc32_baseline \<Rightarrow> u32 \<Rightarrow> u64 \<Rightarrow> crc32_baseline option" where
  "crc32_base_combine self other amount =
     do { s \<leftarrow> crc32_combine (crc32_base_state self) other amount; Some (self\<lparr>crc32_base_state := s\<rparr>) }"

datatype crc32_state = Crc32Baseline crc32_baseline

record crc32_hasher =
  crc32_amount :: u64
  crc32_state :: crc32_state

definition crc32_DEFAULT_INIT_STATE :: u32 where
  "crc32_DEFAULT_INIT_STATE = 0"

definition crc32_new_baseline :: "u32 \<Rightarrow> u64 \<Rightarrow> crc32_hasher" where
  "crc32_new_baseline init amount = \<lparr>crc32_amount = amount, crc32_state = Crc32Baseline (crc32_base_new init)\<rparr>"

text \<open>\<open>specialized::State::new\<close> is \<open>None\<close> in this build.\<close>

definition crc32_new_specialized :: "u32 \<Rightarrow> u64 \<Rightarrow> crc32_hasher option" where
  "crc32_new_specialized init amount = None"

definition crc32_new_with_initial_len :: "u32 \<Rightarrow> u64 \<Rightarrow> crc32_hasher" where
  "crc32_new_with_initial_len init amount =
     (case crc32_new_specialized init amount of Some h \<Rightarrow> h | None \<Rightarrow> crc32_new_baseline init amount)"

definition crc32_new_with_initial :: "u32 \<Rightarrow> crc32_hasher" where
  "crc32_new_with_initial init = crc32_new_with_initial_len init 0"

definition crc32_new :: crc32_hasher where
  "crc32_new = crc32_new_with_initial crc32_DEFAULT_INIT_STATE"

text \<open>\<open>self.amount += n\<close>, which panics on overflow.\<close>

definition crc32_add_amount :: "crc32_hasher \<Rightarrow> nat \<Rightarrow> crc32_hasher option" where
  "crc32_add_amount self n =
     (if unat (crc32_amount self) + n < 2 ^ 64 then Some (self\<lparr>crc32_amount := crc32_amount self + word_of_nat n\<rparr>) else None)"

definition crc32_update :: "crc32_hasher \<Rightarrow> byte list \<Rightarrow> crc32_hasher option" where
  "crc32_update self buf =
     do {
       self \<leftarrow> crc32_add_amount self (length buf);
       (case crc32_state self of
          Crc32Baseline st \<Rightarrow>
            do { st \<leftarrow> crc32_base_update st buf; Some (self\<lparr>crc32_state := Crc32Baseline st\<rparr>) })
     }"

definition crc32_finalize :: "crc32_hasher \<Rightarrow> u32" where
  "crc32_finalize self = (case crc32_state self of Crc32Baseline st \<Rightarrow> crc32_base_finalize st)"

definition crc32_reset :: "crc32_hasher \<Rightarrow> crc32_hasher" where
  "crc32_reset self =
     (let self = self\<lparr>crc32_amount := 0\<rparr>
      in case crc32_state self of
           Crc32Baseline st \<Rightarrow> self\<lparr>crc32_state := Crc32Baseline (crc32_base_reset st)\<rparr>)"

definition crc32_hasher_combine :: "crc32_hasher \<Rightarrow> crc32_hasher \<Rightarrow> crc32_hasher option" where
  "crc32_hasher_combine self other =
     do {
       self \<leftarrow> crc32_add_amount self (unat (crc32_amount other));
       let other_crc = crc32_finalize other;
       (case crc32_state self of
          Crc32Baseline st \<Rightarrow>
            do { st \<leftarrow> crc32_base_combine st other_crc (crc32_amount other);
                 Some (self\<lparr>crc32_state := Crc32Baseline st\<rparr>) })
     }"

definition crc32_hash :: "byte list \<Rightarrow> u32 option" where
  "crc32_hash buf = do { let h = crc32_new; h \<leftarrow> crc32_update h buf; Some (crc32_finalize h) }"

definition crc32_write :: "crc32_hasher \<Rightarrow> byte list \<Rightarrow> crc32_hasher option" where
  "crc32_write self bytes = crc32_update self bytes"

definition crc32_finish :: "crc32_hasher \<Rightarrow> u64" where
  "crc32_finish self = ucast (crc32_finalize self)"

section \<open>The bitwise checksum\<close>

text \<open>The specification: every byte is added to the low end and shifted out bit by bit.\<close>

definition crc32_feed :: "u32 \<Rightarrow> byte list \<Rightarrow> u32" where
  "crc32_feed c buf = foldl (\<lambda>c b. (crc32_bit ^^ 8) (c XOR ucast b)) c buf"

definition crc32_spec :: "u32 \<Rightarrow> byte list \<Rightarrow> u32" where
  "crc32_spec prev buf = NOT (crc32_feed (NOT prev) buf)"

lemma crc32_feed_simps [simp]:
  "crc32_feed c [] = c"
  "crc32_feed c (b # bs) = crc32_feed ((crc32_bit ^^ 8) (c XOR ucast b)) bs"
  "crc32_feed c (xs @ ys) = crc32_feed (crc32_feed c xs) ys"
  by (simp_all add: crc32_feed_def)

text \<open>Zero bits shifted out of an even value: a plain shift.\<close>

lemma crc32_bit_shift: "\<not> bit c 0 \<Longrightarrow> crc32_bit c = drop_bit 1 c"
  by (simp add: crc32_bit_def)

lemma crc32_zeros_shift: "(\<And>i. i < n \<Longrightarrow> \<not> bit c i) \<Longrightarrow> (crc32_bit ^^ n) c = drop_bit n c"
proof (induction n)
  case (Suc n)
  then have "(crc32_bit ^^ Suc n) c = crc32_bit (drop_bit n c)" by simp
  also have "\<dots> = drop_bit 1 (drop_bit n c)" using Suc.prems [of n] by (intro crc32_bit_shift) (simp add: bit_drop_bit_eq)
  finally show ?case by (simp add: drop_bit_drop_bit add.commute)
qed simp

lemma crc32_step_table: "CRC32_TABLE ! 0 ! unat ((ucast crc :: byte) XOR b) XOR drop_bit 8 crc =
    (crc32_bit ^^ 8) (crc XOR ucast b)"
proof -
  define hi where "hi = push_bit 8 (drop_bit 8 crc)"
  have split: "crc XOR ucast b = ucast ((ucast crc :: byte) XOR b) XOR hi"
    by (rule bit_word_eqI) (auto simp: hi_def bit_simps dest: bit_imp_le_length)
  have "(crc32_bit ^^ 8) hi = drop_bit 8 hi"
    by (rule crc32_zeros_shift) (simp add: hi_def bit_simps)
  also have "\<dots> = drop_bit 8 crc" by (rule bit_word_eqI) (auto simp: hi_def bit_simps dest: bit_imp_le_length)
  finally show ?thesis
    using crc32_table_entry [of 0 "(ucast crc :: byte) XOR b"] by (simp only: split crc32_zeros.linear) simp
qed

lemma crc32_update_slow_spec: "crc32_update_slow prev buf = crc32_spec prev buf"
  by (simp add: crc32_update_slow_def crc32_spec_def crc32_feed_def Let_def crc32_step_table)

lemma crc32_zeros_add: "(crc32_bit ^^ m) ((crc32_bit ^^ n) c) = (crc32_bit ^^ (m + n)) c"
  by (simp only: funpow_add comp_apply)

lemma crc32_feed_linear:
  "crc32_feed (c XOR d) bs = (crc32_bit ^^ (8 * length bs)) c XOR crc32_feed d bs"
proof (induction bs arbitrary: c d)
  case (Cons b bs)
  have "(crc32_bit ^^ 8) ((c XOR d) XOR ucast b) = (crc32_bit ^^ 8) c XOR (crc32_bit ^^ 8) (d XOR ucast b)"
    by (simp only: xor.assoc crc32_zeros.linear)
  then have "crc32_feed (c XOR d) (b # bs) =
      (crc32_bit ^^ (8 * length bs)) ((crc32_bit ^^ 8) c) XOR crc32_feed d (b # bs)"
    by (simp only: crc32_feed_simps Cons.IH)
  then show ?case by (simp add: crc32_zeros_add add.commute)
qed simp

lemma crc32_feed_zero: "crc32_feed c bs = (crc32_bit ^^ (8 * length bs)) c XOR crc32_feed 0 bs"
  using crc32_feed_linear [of c 0 bs] by simp

text \<open>A byte of the checksum that is still to be shifted down.\<close>

lemma crc32_zeros_byte:
  assumes "8 * j \<le> 24" and "n = 8 * (k + 1)"
  shows "(crc32_bit ^^ (n + 8 * j)) (push_bit (8 * j) (ucast (b :: byte))) = (crc32_bit ^^ n) (ucast b)"
proof -
  have "(crc32_bit ^^ (8 * j)) (push_bit (8 * j) (ucast b)) = drop_bit (8 * j) (push_bit (8 * j) (ucast b))"
    by (rule crc32_zeros_shift) (simp add: bit_simps)
  also have "\<dots> = ucast b"
    by (rule bit_word_eqI) (use assms(1) in \<open>auto simp: bit_simps dest: bit_imp_le_length\<close>)
  finally show ?thesis by (simp only: flip: crc32_zeros_add)
qed

lemma crc32_bytes_split:
  "crc = push_bit 24 (ucast (ucast (drop_bit 24 crc AND 0xFF) :: byte)) XOR
    push_bit 16 (ucast (ucast (drop_bit 16 crc AND 0xFF) :: byte)) XOR
    push_bit 8 (ucast (ucast (drop_bit 8 crc AND 0xFF) :: byte)) XOR
    push_bit 0 (ucast (ucast (drop_bit 0 crc AND 0xFF) :: byte) :: u32)"
proof (rule bit_word_eqI)
  fix n assume "n < LENGTH(32)"
  then have n: "n < 32" by simp
  have m: "bit (0xFF :: byte) i \<longleftrightarrow> i < 8" "bit (0xFF :: u32) i \<longleftrightarrow> i < 8" "bit (0xFF :: int) i \<longleftrightarrow> i < 8"
    "bit (0xFF :: nat) i \<longleftrightarrow> i < 8" for i
    using bit_mask_iff [where 'a = byte, of 8 i] bit_mask_iff [where 'a = u32, of 8 i]
      bit_mask_iff [where 'a = int, of 8 i] bit_mask_iff [where 'a = nat, of 8 i]
    by (auto simp: mask_eq_exp_minus_1)
  consider "n < 8" | "8 \<le> n" "n < 16" | "16 \<le> n" "n < 24" | "24 \<le> n" using n by linarith
  then show "bit crc n = bit (push_bit 24 (ucast (ucast (drop_bit 24 crc AND 0xFF) :: byte)) XOR
    push_bit 16 (ucast (ucast (drop_bit 16 crc AND 0xFF) :: byte)) XOR
    push_bit 8 (ucast (ucast (drop_bit 8 crc AND 0xFF) :: byte)) XOR
    push_bit 0 (ucast (ucast (drop_bit 0 crc AND 0xFF) :: byte) :: u32)) n"
    by cases (use n in \<open>auto simp: bit_push_bit_iff bit_drop_bit_eq bit_and_iff bit_xor_iff bit_unsigned_iff m\<close>)
qed

lemma crc32_table_entries:
  fixes b :: byte
  shows
    "CRC32_TABLE ! 0 ! unat b = (crc32_bit ^^ 8) (ucast b)"
    "CRC32_TABLE ! 1 ! unat b = (crc32_bit ^^ 16) (ucast b)"
    "CRC32_TABLE ! 2 ! unat b = (crc32_bit ^^ 24) (ucast b)"
    "CRC32_TABLE ! 3 ! unat b = (crc32_bit ^^ 32) (ucast b)"
    "CRC32_TABLE ! 4 ! unat b = (crc32_bit ^^ 40) (ucast b)"
    "CRC32_TABLE ! 5 ! unat b = (crc32_bit ^^ 48) (ucast b)"
    "CRC32_TABLE ! 6 ! unat b = (crc32_bit ^^ 56) (ucast b)"
    "CRC32_TABLE ! 7 ! unat b = (crc32_bit ^^ 64) (ucast b)"
    "CRC32_TABLE ! 8 ! unat b = (crc32_bit ^^ 72) (ucast b)"
    "CRC32_TABLE ! 9 ! unat b = (crc32_bit ^^ 80) (ucast b)"
    "CRC32_TABLE ! 10 ! unat b = (crc32_bit ^^ 88) (ucast b)"
    "CRC32_TABLE ! 11 ! unat b = (crc32_bit ^^ 96) (ucast b)"
    "CRC32_TABLE ! 12 ! unat b = (crc32_bit ^^ 104) (ucast b)"
    "CRC32_TABLE ! 13 ! unat b = (crc32_bit ^^ 112) (ucast b)"
    "CRC32_TABLE ! 14 ! unat b = (crc32_bit ^^ 120) (ucast b)"
    "CRC32_TABLE ! 15 ! unat b = (crc32_bit ^^ 128) (ucast b)"
  using crc32_table_entry [of _ b] by simp_all

lemma crc32_feed_Cons: "crc32_feed 0 (b # bs) = (crc32_bit ^^ (8 * Suc (length bs))) (ucast b) XOR crc32_feed 0 bs"
  using crc32_feed_zero [of "(crc32_bit ^^ 8) (ucast b)" bs] by (simp add: crc32_zeros_add add.commute)

lemma crc32_zeros_128:
  fixes crc :: u32
  shows "(crc32_bit ^^ 128) crc =
    (crc32_bit ^^ 104) (ucast (ucast (drop_bit 24 crc AND 0xFF) :: byte)) XOR
    (crc32_bit ^^ 112) (ucast (ucast (drop_bit 16 crc AND 0xFF) :: byte)) XOR
    (crc32_bit ^^ 120) (ucast (ucast (drop_bit 8 crc AND 0xFF) :: byte)) XOR
    (crc32_bit ^^ 128) (ucast (ucast (drop_bit 0 crc AND 0xFF) :: byte))"
proof -
  have z: "(crc32_bit ^^ 128) (push_bit 24 (ucast b)) = (crc32_bit ^^ 104) (ucast b)"
    "(crc32_bit ^^ 128) (push_bit 16 (ucast b)) = (crc32_bit ^^ 112) (ucast b)"
    "(crc32_bit ^^ 128) (push_bit 8 (ucast b)) = (crc32_bit ^^ 120) (ucast b)"
    "(crc32_bit ^^ 128) (push_bit 0 (ucast b)) = (crc32_bit ^^ 128) (ucast b)" for b :: byte
    using crc32_zeros_byte [of 3 104 12 b] crc32_zeros_byte [of 2 112 13 b] crc32_zeros_byte [of 1 120 14 b]
    by simp_all
  show ?thesis by (subst crc32_bytes_split [of crc]) (simp only: crc32_zeros.linear z)
qed

lemma ucast_xor: "(ucast ((a :: byte) XOR b) :: u32) = ucast a XOR ucast b"
  by (rule unsigned_xor_eq)

lemma length_eq_16:
  assumes "length xs = 16"
  shows "xs = [xs ! 0, xs ! 1, xs ! 2, xs ! 3, xs ! 4, xs ! 5, xs ! 6, xs ! 7, xs ! 8, xs ! 9,
     xs ! 10, xs ! 11, xs ! 12, xs ! 13, xs ! 14, xs ! 15]"
proof -
  have "xs = map ((!) xs) [0..<16]" using map_nth [of xs] assms by simp
  from this [unfolded upt_16 list.map] show ?thesis .
qed

lemma crc32_step_16_feed:
  assumes "16 \<le> length buf"
  shows "crc32_step_16 crc buf = Some (crc32_feed crc (take 16 buf), drop 16 buf)"
proof -
  define bs where "bs = take 16 buf"
  have len: "length bs = 16" using assms by (simp add: bs_def)
  have "crc32_feed crc bs = (crc32_bit ^^ 128) crc XOR crc32_feed 0 bs"
    using crc32_feed_zero [of crc bs] len by simp
  also have "crc32_feed 0 bs = crc32_feed 0 [bs ! 0, bs ! 1, bs ! 2, bs ! 3, bs ! 4, bs ! 5, bs ! 6, bs ! 7,
      bs ! 8, bs ! 9, bs ! 10, bs ! 11, bs ! 12, bs ! 13, bs ! 14, bs ! 15]"
    using length_eq_16 [OF len] by (rule arg_cong)
  finally have feed: "crc32_feed crc bs = (crc32_bit ^^ 128) crc XOR
      (crc32_bit ^^ 128) (ucast (bs ! 0)) XOR (crc32_bit ^^ 120) (ucast (bs ! 1)) XOR
      (crc32_bit ^^ 112) (ucast (bs ! 2)) XOR (crc32_bit ^^ 104) (ucast (bs ! 3)) XOR
      (crc32_bit ^^ 96) (ucast (bs ! 4)) XOR (crc32_bit ^^ 88) (ucast (bs ! 5)) XOR
      (crc32_bit ^^ 80) (ucast (bs ! 6)) XOR (crc32_bit ^^ 72) (ucast (bs ! 7)) XOR
      (crc32_bit ^^ 64) (ucast (bs ! 8)) XOR (crc32_bit ^^ 56) (ucast (bs ! 9)) XOR
      (crc32_bit ^^ 48) (ucast (bs ! 10)) XOR (crc32_bit ^^ 40) (ucast (bs ! 11)) XOR
      (crc32_bit ^^ 32) (ucast (bs ! 12)) XOR (crc32_bit ^^ 24) (ucast (bs ! 13)) XOR
      (crc32_bit ^^ 16) (ucast (bs ! 14)) XOR (crc32_bit ^^ 8) (ucast (bs ! 15))"
    unfolding crc32_feed_Cons by simp
  have "slice_gets buf 0 16 = Some bs" using assms by (simp add: codec_simps bs_def)
  then show ?thesis
    unfolding bs_def [symmetric] feed crc32_zeros_128 [of crc] crc32_step_16_def Let_def crc32_table_entries
      ucast_xor crc32_zeros.linear
    by (simp add: ac_simps)
qed

lemma crc32_unroll_feed:
  "16 * n \<le> length buf \<Longrightarrow> crc32_unroll n crc buf = Some (crc32_feed crc (take (16 * n) buf), drop (16 * n) buf)"
proof (induction n arbitrary: crc buf)
  case (Suc n)
  have "take (16 * Suc n) buf = take 16 buf @ take (16 * n) (drop 16 buf)"
    by (simp add: take_add_drop)
  with Suc.prems show ?case
    by (simp add: crc32_step_16_feed Suc.IH add.commute)
qed simp

lemma crc32_loop_64_feed:
  "\<exists>rest. crc32_loop_64 crc buf = Some (crc32_feed crc (take (length buf - length rest) buf), rest) \<and>
     buf = take (length buf - length rest) buf @ rest"
proof (induction crc buf rule: crc32_loop_64.induct)
  case (1 crc buf)
  show ?case
  proof (cases "64 \<le> length buf")
    case True
    then have un: "crc32_unroll 4 crc buf = Some (crc32_feed crc (take 64 buf), drop 64 buf)"
      using crc32_unroll_feed [of 4 buf crc] by simp
    from 1 [OF True un refl] obtain rest where rest:
      "crc32_loop_64 (crc32_feed crc (take 64 buf)) (drop 64 buf) =
        Some (crc32_feed (crc32_feed crc (take 64 buf)) (take (length buf - 64 - length rest) (drop 64 buf)), rest)"
      "drop 64 buf = take (length buf - 64 - length rest) (drop 64 buf) @ rest" by auto
    let ?a = "take (length buf - 64 - length rest) (drop 64 buf)"
    have buf: "buf = (take 64 buf @ ?a) @ rest" using rest(2) by (metis append.assoc append_take_drop_id)
    then have "take (length buf - length rest) buf = take 64 buf @ ?a"
      by (metis append_eq_conv_conj diff_add_inverse2 length_append)
    with rest(1) buf True un show ?thesis
      by (intro exI [of _ rest]) (simp add: crc32_loop_64.simps [of crc buf])
  next
    case False
    then show ?thesis by (intro exI [of _ buf]) (simp add: crc32_loop_64.simps)
  qed
qed

lemma crc32_update_fast_16_spec: "crc32_update_fast_16 prev buf = Some (crc32_spec prev buf)"
proof -
  obtain rest where rest:
    "crc32_loop_64 (NOT prev) buf = Some (crc32_feed (NOT prev) (take (length buf - length rest) buf), rest)"
    "buf = take (length buf - length rest) buf @ rest"
    using crc32_loop_64_feed by blast
  have "crc32_feed (NOT prev) buf = crc32_feed (crc32_feed (NOT prev) (take (length buf - length rest) buf)) rest"
    by (subst rest(2)) simp
  with rest(1) show ?thesis
    by (simp add: crc32_update_fast_16_def crc32_update_slow_spec crc32_spec_def)
qed

section \<open>Combination\<close>

definition gf2_matrix :: "(u32 \<Rightarrow> u32) \<Rightarrow> u32 list" where
  "gf2_matrix f = map (\<lambda>i. f (2 ^ i)) [0..<32]"

lemma gf2_times_loop_eq:
  assumes "length mat = 32"
  shows "idx \<le> 32 \<Longrightarrow> acc = xor_bits (bit v) (\<lambda>i. mat ! i) idx \<Longrightarrow>
    gf2_times_loop mat (drop_bit idx v) idx acc = Some (xor_bits (bit v) (\<lambda>i. mat ! i) 32)"
proof (induction "32 - idx" arbitrary: idx acc)
  case 0
  then have "idx = 32" by simp
  moreover have "drop_bit 32 v = 0" by (rule bit_word_eqI) (simp add: bit_drop_bit_eq bit_word.rep_eq)
  ultimately show ?case using 0 by (simp add: gf2_times_loop.simps [of mat 0])
next
  case (Suc d)
  then have idx: "idx < 32" by simp
  have nxt: "drop_bit 1 (drop_bit idx v) = drop_bit (idx + 1) v" by (simp add: drop_bit_drop_bit)
  have low: "drop_bit idx v AND 1 = 1 \<longleftrightarrow> bit v idx"
    by (simp add: and_one_eq odd_iff_mod_2_eq_one bit_iff_odd_drop_bit)
  have step: "gf2_times_loop mat (drop_bit (idx + 1) v) (idx + 1) (xor_bits (bit v) (\<lambda>i. mat ! i) (Suc idx)) =
      Some (xor_bits (bit v) (\<lambda>i. mat ! i) 32)"
    using Suc.hyps(1) [of "idx + 1"] Suc.hyps(2) Suc.prems idx by simp
  show ?case
  proof (cases "drop_bit idx v = 0")
    case True
    then have "\<not> bit v j" if "idx \<le> j" for j 
      using fun_cong [OF bit_drop_bit_eq [of idx v], of "j - idx"] that by simp
    then have "xor_bits (bit v) (\<lambda>i. mat ! i) (idx + k) = xor_bits (bit v) (\<lambda>i. mat ! i) idx" for k
      by (induction k) simp_all
    from this [of "32 - idx"] True Suc.prems idx show ?thesis by (simp add: gf2_times_loop.simps [of mat 0])
  next
    case False
    then have "drop_bit idx v > 0" by (simp add: word_gt_0)
    with step Suc.prems low nxt idx assms show ?thesis
      by (subst gf2_times_loop.simps) (cases "bit v idx"; simp)
  qed
qed

lemma length_gf2_matrix [simp]: "length (gf2_matrix f) = 32"
  by (simp add: gf2_matrix_def)

context xor_linear
begin

lemma matrix_times: "gf2_matrix_times (gf2_matrix f) v = Some (f v)"
proof -
  have "gf2_matrix_times (gf2_matrix f) v = Some (xor_bits (bit v) (\<lambda>i. gf2_matrix f ! i) 32)"
    using gf2_times_loop_eq [of "gf2_matrix f" 0 0 v] by (simp add: gf2_matrix_times_def)
  also have "xor_bits (bit v) (\<lambda>i. gf2_matrix f ! i) 32 = xor_bits (bit v) (\<lambda>i. f (2 ^ i)) 32"
    by (rule xor_bits_cong) (simp_all add: gf2_matrix_def)
  finally show ?thesis by (simp flip: f_bits)
qed

lemma matrix_square: "gf2_matrix_square (gf2_matrix f) = Some (gf2_matrix (\<lambda>x. f (f x)))"
proof -
  have "those (map (\<lambda>n. do { m \<leftarrow> slice_get (gf2_matrix f) n; gf2_matrix_times (gf2_matrix f) m }) ns) =
      Some (map (\<lambda>i. f (f (2 ^ i))) ns)" if "\<forall>n \<in> set ns. n < 32" for ns
    using that by (induction ns) (simp_all add: matrix_times, simp add: gf2_matrix_def)
  from this [of "[0..<32]"] show ?thesis
    by (simp add: gf2_matrix_square_def GF2_DIM_def) (auto simp: gf2_matrix_def)
qed

end

lemma crc32_square: "gf2_matrix_square (gf2_matrix (crc32_bit ^^ n)) = Some (gf2_matrix (crc32_bit ^^ (2 * n)))"
  using crc32_zeros.matrix_square [of n] by (simp add: crc32_zeros_add mult_2)

lemma crc32_odd_init_matrix: "crc32_odd_init = gf2_matrix (crc32_bit ^^ 1)"
proof -
  have "crc32_odd_init = map (\<lambda>i. crc32_bit (push_bit i 1)) [0..<32]" by code_simp
  then show ?thesis by (simp add: gf2_matrix_def push_bit_eq_mult)
qed

lemma halved: "2 * n * m = 4 * n * (m div 2) + 2 * n * (m mod 2)" for m n :: nat
proof -
  have "2 * n * m = 2 * n * (2 * (m div 2) + m mod 2)" by simp
  also have "\<dots> = 4 * n * (m div 2) + 2 * n * (m mod 2)" unfolding distrib_left by simp
  finally show ?thesis .
qed

lemma crc32_combine_loop_zeros:
  "odd1 = gf2_matrix (crc32_bit ^^ n) \<Longrightarrow>
   crc32_combine_loop crc1 len2 odd1 = Some ((crc32_bit ^^ (2 * n * unat len2)) crc1)"
proof (induction crc1 len2 odd1 arbitrary: n rule: crc32_combine_loop.induct)
  case (1 crc1 len2 odd1)
  let ?z = "\<lambda>k. crc32_bit ^^ k" and ?l = "drop_bit 1 len2"
  let ?m = "drop_bit 1 ?l"
  define crc2 where "crc2 = (if len2 AND 1 = 1 then ?z (2 * n) crc1 else crc1)"
  define crc3 where "crc3 = (if ?l AND 1 = 1 then ?z (4 * n) crc2 else crc2)"
  have bit0: "w AND 1 = 1 \<longleftrightarrow> odd (unat w)" for w :: u64
  proof -
    have "w AND 1 = 1 \<longleftrightarrow> odd w" by (simp add: and_one_eq odd_iff_mod_2_eq_one)
    then show ?thesis using bit_unsigned_iff [where 'a = nat, of w 0] by (simp add: bit_0)
  qed
  have s1: "gf2_matrix_square odd1 = Some (gf2_matrix (?z (2 * n)))"
    using "1.prems" crc32_square by simp
  have t1: "(if len2 AND 1 = 1 then gf2_matrix_times (gf2_matrix (?z (2 * n))) crc1 else Some crc1) = Some crc2"
    by (simp add: crc32_zeros.matrix_times crc2_def)
  have s2: "gf2_matrix_square (gf2_matrix (?z (2 * n))) = Some (gf2_matrix (?z (4 * n)))"
    using crc32_square [of "2 * n"] by simp
  have t2: "(if ?l AND 1 = 1 then gf2_matrix_times (gf2_matrix (?z (4 * n))) crc2 else Some crc2) = Some crc3"
    by (simp add: crc32_zeros.matrix_times crc3_def)
  have c2: "?z (2 * n * (unat len2 mod 2)) crc1 = crc2" by (simp add: crc2_def bit0 odd_iff_mod_2_eq_one)
  have c3: "?z (4 * n * (unat ?l mod 2)) crc2 = crc3" by (simp add: crc3_def bit0 odd_iff_mod_2_eq_one)
  show ?case
  proof (cases "?l = 0")
    case True
    then have "unat len2 div 2 = 0" using unat_drop_bit_1 [of len2] by simp
    then have "unat len2 mod 2 = unat len2" by auto
    with True s1 t1 c2 show ?thesis by (subst crc32_combine_loop.simps) simp
  next
    case l: False
    show ?thesis
    proof (cases "?m = 0")
      case True
      then have "unat ?l div 2 = 0" using unat_drop_bit_1 [of ?l] by simp
      then have "unat ?l mod 2 = unat len2 div 2"
        using unat_drop_bit_1 [of len2] by simp
      then have "2 * n * unat len2 = 4 * n * (unat ?l mod 2) + 2 * n * (unat len2 mod 2)"
        by (metis halved)
      with True l s1 t1 s2 t2 c2 c3 show ?thesis
        by (subst crc32_combine_loop.simps) (simp flip: crc32_zeros_add)
    next
      case False
      have "crc32_combine_loop crc3 ?m (gf2_matrix (?z (4 * n))) = Some (?z (2 * (4 * n) * unat ?m) crc3)"
        by (rule "1.IH" [OF s1 t1 l s2 t2 False refl])
      moreover have "2 * n * unat len2 = 2 * (4 * n) * unat ?m + (4 * n * (unat ?l mod 2) + 2 * n * (unat len2 mod 2))"
        using halved [of n "unat len2"] halved [of "2 * n" "unat ?l"] unat_drop_bit_1 [of len2] unat_drop_bit_1 [of ?l]
        by simp
      ultimately show ?thesis using False l s1 t1 s2 t2 c2 c3
        by (subst crc32_combine_loop.simps) (simp flip: crc32_zeros_add)
    qed
  qed
qed

lemma crc32_combine_zeros:
  "crc32_combine crc1 crc2 len2 =
     Some (if len2 = 0 then crc1 else (crc32_bit ^^ (8 * unat len2)) crc1 XOR crc2)"
proof -
  have "gf2_matrix_square crc32_odd_init = Some (gf2_matrix (crc32_bit ^^ 2))"
    using crc32_square [of 1] by (simp add: crc32_odd_init_matrix)
  moreover have "gf2_matrix_square (gf2_matrix (crc32_bit ^^ 2)) = Some (gf2_matrix (crc32_bit ^^ 4))"
    using crc32_square [of 2] by simp
  ultimately show ?thesis
    by (simp add: crc32_combine_def crc32_combine_loop_zeros [OF refl] Let_def)
qed

text \<open>The checksum of a concatenation, in the terms of \<open>combine\<close>.\<close>

lemma crc32_spec_append:
  "crc32_spec prev (xs @ ys) = (crc32_bit ^^ (8 * length ys)) (crc32_spec prev xs) XOR crc32_spec 0 ys"
proof -
  let ?z = "crc32_bit ^^ (8 * length ys)" and ?c = "crc32_feed (NOT prev) xs"
  have not: "NOT (w :: u32) = w XOR - 1" for w by simp
  have 1: "crc32_spec prev (xs @ ys) = NOT (?z ?c XOR crc32_feed 0 ys)"
    using crc32_feed_zero [of ?c ys] by (simp add: crc32_spec_def)
  have 2: "?z (crc32_spec prev xs) = ?z ?c XOR ?z (- 1)"
    unfolding crc32_spec_def not [of ?c] by (rule crc32_zeros.linear)
  have 3: "crc32_spec 0 ys = NOT (?z (- 1) XOR crc32_feed 0 ys)"
    using crc32_feed_zero [of "- 1" ys] by (simp add: crc32_spec_def)
  show ?thesis unfolding 1 2 3 by (rule bit_eqI) (auto simp: bit_simps)
qed

lemma unat_of_length:
  assumes "length (ys :: 'a list) < 2 ^ 64"
  shows "unat (word_of_nat (length ys) :: u64) = length ys" "word_of_nat (length ys) = (0 :: u64) \<longleftrightarrow> ys = []"
proof -
  show 1: "unat (word_of_nat (length ys) :: u64) = length ys"
    using assms by (simp add: unsigned_of_nat take_bit_nat_eq_self)
  have "word_of_nat (length ys) = (0 :: u64) \<longleftrightarrow> unat (word_of_nat (length ys) :: u64) = 0"
    by (rule unat_eq_zero [symmetric])
  with 1 show "word_of_nat (length ys) = (0 :: u64) \<longleftrightarrow> ys = []" by simp
qed

lemma crc32_spec_nil [simp]: "crc32_spec prev [] = prev"
  by (simp add: crc32_spec_def)

section \<open>The hasher as a streaming computation\<close>

lemma crc32_update_eq:
  "crc32_update h buf =
     (if unat (crc32_amount h) + length buf < 2 ^ 64
      then Some (h\<lparr>crc32_amount := crc32_amount h + word_of_nat (length buf),
        crc32_state := Crc32Baseline \<lparr>crc32_base_state = crc32_spec (crc32_finalize h) buf\<rparr>\<rparr>)
      else None)"
  by (cases "crc32_state h")
    (simp add: crc32_update_def crc32_add_amount_def crc32_base_update_def crc32_update_fast_16_spec crc32_finalize_def
      crc32_base_finalize_def)

lemma crc32_amount_grow:
  fixes n :: u64
  assumes "unat n + k < 2 ^ 64"
  shows "unat (n + word_of_nat k) = unat n + k"
proof -
  have "n + word_of_nat k = word_of_nat (unat n + k)" by simp
  then show ?thesis using assms by (simp only: unsigned_of_nat) (simp add: take_bit_nat_eq_self)
qed

lemma crc32_hasher_eqI:
  "crc32_amount g = crc32_amount h \<Longrightarrow> crc32_finalize g = crc32_finalize h \<Longrightarrow> (g :: crc32_hasher) = h"
  by (cases g; cases h; cases "crc32_state g"; cases "crc32_state h")
    (auto simp: crc32_finalize_def crc32_base_finalize_def)

lemma crc32_finalize_base [simp]:
  "crc32_finalize (h\<lparr>crc32_state := Crc32Baseline \<lparr>crc32_base_state = s\<rparr>\<rparr>) = s"
  "crc32_finalize \<lparr>crc32_amount = n, crc32_state = Crc32Baseline \<lparr>crc32_base_state = s\<rparr>\<rparr> = s"
  by (simp_all add: crc32_finalize_def crc32_base_finalize_def)

lemma crc32_spec_fold: "crc32_spec prev (xs @ ys) = crc32_spec (crc32_spec prev xs) ys"
  by (simp add: crc32_spec_def)

interpretation crc32_stream: streaming crc32_update
proof
  show "crc32_update h [] = Some h" for h
  proof -
    have "unat (crc32_amount h) + length [] < 2 ^ 64" using unsigned_less [of "crc32_amount h", where 'a = nat] by simp
    moreover have "h\<lparr>crc32_amount := crc32_amount h + word_of_nat (length []), crc32_state := Crc32Baseline \<lparr>crc32_base_state = crc32_spec (crc32_finalize h) []\<rparr>\<rparr> = h"
      by (rule crc32_hasher_eqI) simp_all
    ultimately show ?thesis unfolding crc32_update_eq by simp
  qed
  show "crc32_update h (xs @ ys) = do { h \<leftarrow> crc32_update h xs; crc32_update h ys }" for h xs ys
    by (cases "unat (crc32_amount h) + length xs < 2 ^ 64")
      (simp_all add: crc32_update_eq crc32_spec_fold crc32_amount_grow add.assoc)
qed

section \<open>Properties\<close>

text \<open>
  Every entry of the sixteen tables is right: row \<open>k\<close> holds, for every byte, the value
  that the reflected polynomial \<open>0xEDB88320\<close> gives when that byte and \<open>k\<close> zero bytes are
  shifted out bit by bit.
\<close>

theorem crc32_table_correct:
  "k < 16 \<Longrightarrow> CRC32_TABLE ! k ! unat (b :: byte) = (crc32_bit ^^ (8 * (k + 1))) (ucast b)"
  by (rule crc32_table_entry)

lemma crc32_table_correct_witness: "CRC32_TABLE ! 1 ! unat (0x80 :: byte) = (crc32_bit ^^ 16) 0x80"
  using crc32_table_correct [of 1 "0x80"] by simp

text \<open>
  C23: both implementations, the byte-wise one and the one that takes sixteen bytes per step
  and 64 per iteration, compute the bitwise CRC-32 of the input, on every input and every
  previous value; neither panics.
\<close>

theorem crc32_update_correct:
  "crc32_update_fast_16 prev buf = Some (crc32_spec prev buf) \<and> crc32_update_slow prev buf = crc32_spec prev buf"
  by (simp add: crc32_update_fast_16_spec crc32_update_slow_spec)

text \<open>
  C25: \<open>combine\<close> computes the checksum of a concatenation from the checksums of its parts and
  the length of the second, without the data.
\<close>

theorem crc32_combine_correct:
  "length ys < 2 ^ 64 \<Longrightarrow>
   crc32_combine (crc32_spec prev xs) (crc32_spec 0 ys) (word_of_nat (length ys)) = Some (crc32_spec prev (xs @ ys))"
  by (auto simp: crc32_combine_zeros crc32_spec_append unat_of_length)

lemma crc32_combine_correct_witness:
  "crc32_combine (crc32_spec 0 [1]) (crc32_spec 0 [2, 3]) 2 = Some (crc32_spec 0 [1, 2, 3])"
  using crc32_combine_correct [of "[2, 3]" 0 "[1]"] by simp

lemma crc32_new_fields: "crc32_finalize crc32_new = 0" "crc32_amount crc32_new = 0"
  by (simp_all add: crc32_new_def crc32_new_with_initial_def crc32_new_with_initial_len_def
      crc32_new_specialized_def crc32_new_baseline_def crc32_base_new_def crc32_DEFAULT_INIT_STATE_def)

text \<open>
  C27: a hasher depends on the concatenation of what it was fed only. For fewer than \<open>2 ^ 64\<close> bytes, feeding chunks,
  however the input is cut, and then finalizing gives the bitwise CRC-32 of the whole input, the same as the one-shot
  \<open>hash\<close>, and the amount is the number of bytes; for more, the count of the bytes overflows, which is a panic.
\<close>

theorem crc32_hasher_chunks:
  "if length (concat cs) < 2 ^ 64
   then \<exists>h. feed_all crc32_update crc32_new cs = Some h \<and>
     crc32_finalize h = crc32_spec 0 (concat cs) \<and>
     unat (crc32_amount h) = length (concat cs) \<and>
     crc32_hash (concat cs) = Some (crc32_finalize h)
   else feed_all crc32_update crc32_new cs = None \<and> crc32_hash (concat cs) = None"
  using unat_of_length [of "concat cs"]
  by (simp add: crc32_stream.feed_all_concat crc32_update_eq crc32_new_fields crc32_hash_def Let_def)

text \<open>
  Combining a hasher with the hasher of the bytes that follow is feeding it these bytes:
  state and amount agree, and the panic when the count of the bytes overflows.
\<close>

theorem crc32_hasher_combine_correct:
  "length buf < 2 ^ 64 \<Longrightarrow>
   do { other \<leftarrow> crc32_update crc32_new buf; crc32_hasher_combine h other } = crc32_update h buf"
proof -
  assume len: "length buf < 2 ^ 64"
  obtain s where s: "crc32_state h = Crc32Baseline \<lparr>crc32_base_state = s\<rparr>"
    by (metis crc32_baseline.cases crc32_state.exhaust)
  then have fin: "crc32_finalize h = s" by (simp add: crc32_finalize_def crc32_base_finalize_def)
  have "crc32_combine s (crc32_spec 0 buf) (word_of_nat (length buf)) = Some (crc32_spec s buf)"
    using crc32_spec_append [of s "[]" buf] unat_of_length [OF len] by (auto simp: crc32_combine_zeros)
  with s fin len show ?thesis
    by (simp add: crc32_update_eq crc32_new_fields crc32_hasher_combine_def crc32_add_amount_def crc32_base_combine_def Let_def
        unat_of_length)
qed

lemma crc32_hasher_combine_correct_witness:
  "do { other \<leftarrow> crc32_update crc32_new [1, 2]; crc32_hasher_combine crc32_new other } = crc32_update crc32_new [1, 2]"
  using crc32_hasher_combine_correct [of "[1, 2]" crc32_new] by simp

end
