(* ===== verification/Rust_Str.thy ===== *)
theory Rust_Str
  imports Stdx_Prelude
begin

text \<open>
  The parts of Rust's standard library on strings that the crates use. A \<open>str\<close> is the list
  of its UTF-8 bytes; every separator and every character class the crates test is ASCII, and
  the bytes of a non-ASCII character are at least \<open>0x80\<close>, so searching and splitting on
  bytes is searching and splitting on characters. The theory holds the ASCII classes,
  \<open>find\<close> and \<open>split\<close>, decimal printing and parsing of unsigned integers with its
  overflow check, the validation of UTF-8 with \<open>String::from_utf8_lossy\<close>, and
  \<open>Ordering\<close> with the contract of a total comparison.
\<close>

section \<open>ASCII classes\<close>

definition is_ascii :: "byte \<Rightarrow> bool" where
  "is_ascii b \<longleftrightarrow> b < 0x80"

definition is_ascii_digit :: "byte \<Rightarrow> bool" where
  "is_ascii_digit b \<longleftrightarrow> ascii CHR ''0'' \<le> b \<and> b \<le> ascii CHR ''9''"

definition is_ascii_alphabetic :: "byte \<Rightarrow> bool" where
  "is_ascii_alphabetic b \<longleftrightarrow>
     (ascii CHR ''A'' \<le> b \<and> b \<le> ascii CHR ''Z'') \<or> (ascii CHR ''a'' \<le> b \<and> b \<le> ascii CHR ''z'')"

definition is_ascii_alphanumeric :: "byte \<Rightarrow> bool" where
  "is_ascii_alphanumeric b \<longleftrightarrow> is_ascii_alphabetic b \<or> is_ascii_digit b"

section \<open>Searching and splitting\<close>

text \<open>\<open>position\<close> of an iterator and \<open>find\<close> of a string: the first index that satisfies \<open>p\<close>.\<close>

fun find_pos :: "('a \<Rightarrow> bool) \<Rightarrow> 'a list \<Rightarrow> nat option" where
  "find_pos p [] = None"
| "find_pos p (x # xs) = (if p x then Some 0 else map_option Suc (find_pos p xs))"

lemma find_pos_takeWhile:
  "find_pos p xs = (if \<exists>x \<in> set xs. p x then Some (length (takeWhile (\<lambda>x. \<not> p x) xs)) else None)"
  by (induction xs) auto

lemma find_pos_append_free:
  "list_all (\<lambda>x. \<not> p x) xs \<Longrightarrow> find_pos p (xs @ ys) = map_option (\<lambda>i. length xs + i) (find_pos p ys)"
  by (induction xs) (cases "find_pos p ys"; simp)+

lemma find_pos_default: "(case find_pos p xs of Some i \<Rightarrow> i | None \<Rightarrow> length xs) = length (takeWhile (\<lambda>x. \<not> p x) xs)"
proof (cases "\<exists>x \<in> set xs. p x")
  case False
  then have "length (takeWhile (\<lambda>x. \<not> p x) xs) = length xs" by (metis takeWhile_eq_all_conv)
  with False show ?thesis by (simp add: find_pos_takeWhile)
qed (simp add: find_pos_takeWhile)

lemma take_find_pos:
  "take (case find_pos p xs of Some i \<Rightarrow> i | None \<Rightarrow> length xs) xs = takeWhile (\<lambda>x. \<not> p x) xs"
  "drop (case find_pos p xs of Some i \<Rightarrow> i | None \<Rightarrow> length xs) xs = dropWhile (\<lambda>x. \<not> p x) xs"
  unfolding find_pos_default by (metis takeWhile_eq_take) (metis dropWhile_eq_drop)

text \<open>\<open>split(c)\<close>: the parts between the separators, at least one.\<close>

fun split_on :: "('a \<Rightarrow> bool) \<Rightarrow> 'a list \<Rightarrow> 'a list list" where
  "split_on p [] = [[]]"
| "split_on p (x # xs) =
     (if p x then [] # split_on p xs
      else case split_on p xs of [] \<Rightarrow> [[x]] | ys # yss \<Rightarrow> (x # ys) # yss)"

text \<open>\<open>splitn(2, c)\<close>: the part before the first separator and what follows it, if any.\<close>

definition splitn2 :: "('a \<Rightarrow> bool) \<Rightarrow> 'a list \<Rightarrow> 'a list \<times> 'a list option" where
  "splitn2 p xs =
     (case find_pos p xs of None \<Rightarrow> (xs, None) | Some i \<Rightarrow> (take i xs, Some (drop (i + 1) xs)))"

definition join_on :: "'a \<Rightarrow> 'a list list \<Rightarrow> 'a list" where
  "join_on c xss = (case xss of [] \<Rightarrow> [] | xs # xss \<Rightarrow> xs @ concat (map ((#) c) xss))"

lemma join_on_simps [simp]:
  "join_on c [] = []"
  "join_on c [xs] = xs"
  "join_on c (xs # ys # zss) = xs @ c # join_on c (ys # zss)"
  by (simp_all add: join_on_def)

lemma split_on_nonempty [simp]: "split_on p xs \<noteq> []"
  by (cases xs) (auto split: list.splits)

lemma split_on_parts: "ys \<in> set (split_on p xs) \<Longrightarrow> x \<in> set ys \<Longrightarrow> \<not> p x \<and> x \<in> set xs"
proof (induction xs arbitrary: ys)
  case (Cons a xs)
  show ?case
  proof (cases "split_on p xs")
    case (Cons zs zss)
    with Cons.prems Cons.IH [of ys] Cons.IH [of zs] show ?thesis
      by (auto split: if_splits)
  qed simp
qed simp

lemma join_split: "join_on c (split_on (\<lambda>x. x = c) xs) = xs"
proof (induction xs)
  case (Cons a xs)
  then show ?case
    by (cases "split_on (\<lambda>x. x = c) xs"; cases "tl (split_on (\<lambda>x. x = c) xs)") auto
qed simp

lemma split_on_free: "\<forall>x \<in> set xs. \<not> p x \<Longrightarrow> split_on p xs = [xs]"
  by (induction xs) auto

lemma split_on_append:
  "\<forall>x \<in> set xs. \<not> p x \<Longrightarrow> p c \<Longrightarrow> split_on p (xs @ c # ys) = xs # split_on p ys"
  by (induction xs) auto

lemma split_join:
  assumes "xss \<noteq> []" and "\<forall>xs \<in> set xss. c \<notin> set xs"
  shows "split_on (\<lambda>x. x = c) (join_on c xss) = xss"
  using assms
proof (induction xss rule: induct_list012)
  case (2 xs)
  then show ?case using split_on_free [of xs "\<lambda>x. x = c"] by auto
next
  case (3 xs ys zss)
  then have "\<forall>x \<in> set xs. x \<noteq> c" by auto
  with 3 show ?case using split_on_append [of xs "\<lambda>x. x = c" c] by simp
qed simp

lemma splitn2_free: "\<forall>x \<in> set xs. \<not> p x \<Longrightarrow> splitn2 p xs = (xs, None)"
  by (simp add: splitn2_def find_pos_takeWhile)

lemma splitn2_append: "\<forall>x \<in> set xs. \<not> p x \<Longrightarrow> p c \<Longrightarrow> splitn2 p (xs @ c # ys) = (xs, Some ys)"
  by (auto simp: splitn2_def find_pos_takeWhile)

section \<open>Decimal numbers\<close>

definition digit_byte :: "nat \<Rightarrow> byte" where
  "digit_byte d = ascii CHR ''0'' + word_of_nat d"

definition digit_val :: "byte \<Rightarrow> nat" where
  "digit_val b = unat (b - ascii CHR ''0'')"

text \<open>\<open>Display\<close> of an unsigned integer.\<close>

fun show_nat :: "nat \<Rightarrow> byte list" where
  "show_nat n = (if n < 10 then [digit_byte n] else show_nat (n div 10) @ [digit_byte (n mod 10)])"

declare show_nat.simps [simp del]

text \<open>
  \<open>from_str\<close> of an unsigned integer type with \<open>m\<close> values: an optional \<open>+\<close>, then at least
  one digit; every multiplication and addition is checked.
\<close>

fun parse_digits :: "nat \<Rightarrow> nat \<Rightarrow> byte list \<Rightarrow> nat option" where
  "parse_digits m acc [] = Some acc"
| "parse_digits m acc (b # bs) =
     (if is_ascii_digit b
      then if acc * 10 < m \<and> acc * 10 + digit_val b < m then parse_digits m (acc * 10 + digit_val b) bs else None
      else None)"

definition parse_uint :: "nat \<Rightarrow> byte list \<Rightarrow> nat option" where
  "parse_uint m s =
     (case s of
        [] \<Rightarrow> None
      | b # bs \<Rightarrow>
          if b = ascii CHR ''+'' then (if bs = [] then None else parse_digits m 0 bs)
          else parse_digits m 0 (b # bs))"

definition digits_val :: "byte list \<Rightarrow> nat" where
  "digits_val = foldl (\<lambda>acc b. acc * 10 + digit_val b) 0"

lemma digit_byte_simps:
  assumes "d < 10"
  shows "is_ascii_digit (digit_byte d)" "digit_val (digit_byte d) = d"
proof -
  have *: "unat (0x30 + word_of_nat d :: byte) = 0x30 + d"
    using assms by (simp add: unat_word_ariths unsigned_of_nat take_bit_eq_mod)
  then show "is_ascii_digit (digit_byte d)" using assms
    by (simp add: is_ascii_digit_def digit_byte_def word_le_nat_alt)
  show "digit_val (digit_byte d) = d" using assms
    by (simp add: digit_val_def digit_byte_def unsigned_of_nat take_bit_eq_mod)
qed

lemma digit_val_less: "is_ascii_digit b \<Longrightarrow> digit_val b < 10"
  and digit_byte_val: "is_ascii_digit b \<Longrightarrow> digit_byte (digit_val b) = b"
proof -
  show "is_ascii_digit b \<Longrightarrow> digit_val b < 10"
    by (auto simp: is_ascii_digit_def digit_val_def word_le_nat_alt unat_sub_if')
  show "is_ascii_digit b \<Longrightarrow> digit_byte (digit_val b) = b"
    by (simp add: digit_byte_def digit_val_def)
qed

lemma digits_val_simps [simp]:
  "digits_val [] = 0"
  "digits_val (bs @ [b]) = digits_val bs * 10 + digit_val b"
  by (simp_all add: digits_val_def)

lemma foldl_digits_mono:
  fixes acc :: nat
  shows "acc \<le> foldl (\<lambda>acc b. acc * 10 + digit_val b) acc bs"
proof (induction bs arbitrary: acc)
  case (Cons b bs)
  have "acc \<le> acc * 10 + digit_val b" by simp
  also have "\<dots> \<le> foldl (\<lambda>acc b. acc * 10 + digit_val b) (acc * 10 + digit_val b) bs" by (rule Cons.IH)
  finally show ?case by simp
qed simp

text \<open>The checked loop is the value of the digits, when it is in the range of the type.\<close>

lemma parse_digits_eq:
  assumes "acc < m"
  shows "parse_digits m acc bs =
    (let v = foldl (\<lambda>acc b. acc * 10 + digit_val b) acc bs
     in if (\<forall>b \<in> set bs. is_ascii_digit b) \<and> v < m then Some v else None)"
  using assms
proof (induction bs arbitrary: acc)
  case (Cons b bs)
  show ?case
  proof (cases "is_ascii_digit b \<and> acc * 10 + digit_val b < m")
    case True
    with Cons.IH [of "acc * 10 + digit_val b"] show ?thesis by (simp add: Let_def)
  next
    case False
    then show ?thesis using foldl_digits_mono [of "acc * 10 + digit_val b" bs] by (auto simp: Let_def)
  qed
qed (simp add: Let_def)

lemma plus_not_digit [simp]: "\<not> is_ascii_digit 0x2B"
  by (simp add: is_ascii_digit_def)

lemma parse_uint_digits:
  assumes "\<forall>b \<in> set s. is_ascii_digit b" "s \<noteq> []" "0 < m"
  shows "parse_uint m s = (if digits_val s < m then Some (digits_val s) else None)"
proof -
  have "hd s \<noteq> ascii CHR ''+''" using assms by (cases s) auto
  with assms show ?thesis
    by (cases s) (simp_all add: parse_uint_def parse_digits_eq Let_def digits_val_def del: parse_digits.simps)
qed

lemma show_nat_digits: "b \<in> set (show_nat n) \<Longrightarrow> is_ascii_digit b"
  and show_nat_nonempty [simp]: "show_nat n \<noteq> []"
  and digits_val_show_nat [simp]: "digits_val (show_nat n) = n"
proof -
  show "b \<in> set (show_nat n) \<Longrightarrow> is_ascii_digit b"
    by (induction n rule: show_nat.induct)
      (subst (asm) (2) show_nat.simps, auto simp: digit_byte_simps split: if_splits)
  show "show_nat n \<noteq> []" by (subst show_nat.simps) simp
  show "digits_val (show_nat n) = n"
  proof (induction n rule: show_nat.induct)
    case (1 n)
    show ?case
    proof (cases "n < 10")
      case True
      then show ?thesis
        using digits_val_simps(2) [of "[]" "digit_byte n"] by (subst show_nat.simps) (simp add: digit_byte_simps)
    next
      case False
      with 1 show ?thesis by (subst show_nat.simps) (simp add: digit_byte_simps)
    qed
  qed
qed

lemma parse_show_nat: "0 < m \<Longrightarrow> parse_uint m (show_nat n) = (if n < m then Some n else None)"
  using show_nat_digits [of _ n] by (simp add: parse_uint_digits)

text \<open>A run of digits without a leading zero is what its value prints.\<close>

definition no_leading_zero :: "byte list \<Rightarrow> bool" where
  "no_leading_zero s \<longleftrightarrow> \<not> (1 < length s \<and> hd s = ascii CHR ''0'')"

lemma show_digits_val:
  assumes "\<forall>b \<in> set s. is_ascii_digit b" "s \<noteq> []" "no_leading_zero s"
  shows "show_nat (digits_val s) = s"
  using assms
proof (induction s rule: rev_induct)
  case (snoc b bs)
  have b: "is_ascii_digit b" using snoc.prems by simp
  show ?case
  proof (cases "bs = []")
    case True
    then show ?thesis using b digits_val_simps(2) [of "[]" b]
      by (subst show_nat.simps) (simp add: digit_val_less digit_byte_val)
  next
    case False
    with snoc.prems have hd: "hd bs \<noteq> 0x30" by (cases bs) (auto simp: no_leading_zero_def)
    then have "no_leading_zero bs" by (simp add: no_leading_zero_def)
    with snoc False have IH: "show_nat (digits_val bs) = bs" by simp
    have pos: "0 < digits_val bs"
    proof (rule ccontr)
      assume "\<not> 0 < digits_val bs"
      then have "bs = [digit_byte 0]" using IH by (subst (asm) show_nat.simps) simp
      with hd show False by (simp add: digit_byte_def)
    qed
    then show ?thesis using b IH
      by (subst show_nat.simps) (simp add: digit_val_less digit_byte_val)
  qed
qed simp

lemma no_leading_zero_show: "no_leading_zero (show_nat n)"
proof (induction n rule: show_nat.induct)
  case (1 n)
  show ?case
  proof (cases "n < 10")
    case True
    then show ?thesis by (subst show_nat.simps) (simp add: no_leading_zero_def)
  next
    case False
    let ?q = "show_nat (n div 10)"
    have "hd ?q \<noteq> 0x30"
    proof
      assume hd: "hd ?q = 0x30"
      with 1 [OF False] have "length ?q = 1"
        by (cases ?q) (auto simp: no_leading_zero_def)
      with hd have "?q = [0x30]" by (cases ?q) auto
      then have "digits_val ?q = digits_val ([] @ [0x30])" by simp
      then show False using False by (simp only: digits_val_show_nat digits_val_simps) (simp add: digit_val_def)
    qed
    with False show ?thesis by (subst show_nat.simps) (simp add: no_leading_zero_def)
  qed
qed

section \<open>UTF-8\<close>

text \<open>
  The decoder of the standard library, on the bytes at the head of a slice: \<open>(n, True)\<close> for a
  character of \<open>n\<close> bytes, \<open>(n, False)\<close> for an ill-formed prefix of \<open>n\<close> bytes (the bytes
  that one replacement character stands for). A byte past the end reads as \<open>0\<close>.
\<close>

definition safe_get :: "byte list \<Rightarrow> nat \<Rightarrow> byte" where
  "safe_get xs i = (if i < length xs then xs ! i else 0)"

definition is_cont :: "byte \<Rightarrow> bool" where
  "is_cont b \<longleftrightarrow> 0x80 \<le> b \<and> b \<le> 0xBF"

definition utf8_second :: "byte \<Rightarrow> byte \<Rightarrow> bool" where
  "utf8_second a b =
     (if a = 0xE0 then 0xA0 \<le> b \<and> b \<le> 0xBF
      else if a = 0xED then 0x80 \<le> b \<and> b \<le> 0x9F
      else if a = 0xF0 then 0x90 \<le> b \<and> b \<le> 0xBF
      else if a = 0xF4 then 0x80 \<le> b \<and> b \<le> 0x8F
      else is_cont b)"

definition utf8_char_width :: "byte \<Rightarrow> nat" where
  "utf8_char_width a =
     (if a < 0x80 then 1
      else if 0xC2 \<le> a \<and> a \<le> 0xDF then 2
      else if 0xE0 \<le> a \<and> a \<le> 0xEF then 3
      else if 0xF0 \<le> a \<and> a \<le> 0xF4 then 4
      else 0)"

definition utf8_next :: "byte list \<Rightarrow> nat \<times> bool" where
  "utf8_next xs =
     (let a = safe_get xs 0; w = utf8_char_width a
      in if w = 1 then (1, True)
         else if w = 2 then (if is_cont (safe_get xs 1) then (2, True) else (1, False))
         else if w = 3
         then (if \<not> utf8_second a (safe_get xs 1) then (1, False)
               else if is_cont (safe_get xs 2) then (3, True) else (2, False))
         else if w = 4
         then (if \<not> utf8_second a (safe_get xs 1) then (1, False)
               else if \<not> is_cont (safe_get xs 2) then (2, False)
               else if is_cont (safe_get xs 3) then (4, True) else (3, False))
         else (1, False))"

lemma utf8_next_pos: "0 < fst (utf8_next xs)"
  by (simp add: utf8_next_def Let_def)

function utf8_valid :: "byte list \<Rightarrow> bool" where
  "utf8_valid xs =
     (if xs = [] then True
      else if snd (utf8_next xs) then utf8_valid (drop (fst (utf8_next xs)) xs) else False)"
  by pat_completeness auto
termination
  by (relation "measure length") (auto simp: utf8_next_pos)

text \<open>
  \<open>str::from_utf8\<close>: the error holds the length of the longest valid prefix and, unless the
  input ends in the middle of a character, the length of the ill-formed sequence.
\<close>

record utf8_error =
  valid_up_to :: nat
  error_len :: "nat option"

function utf8_check :: "nat \<Rightarrow> byte list \<Rightarrow> utf8_error option" where
  "utf8_check pos xs =
     (if xs = [] then None
      else if snd (utf8_next xs) then utf8_check (pos + fst (utf8_next xs)) (drop (fst (utf8_next xs)) xs)
      else (let n = fst (utf8_next xs)
            in Some \<lparr>valid_up_to = pos,
                 error_len = (if n = length xs \<and> utf8_char_width (hd xs) \<noteq> 0 then None else Some n)\<rparr>))"
  by pat_completeness auto
termination
  by (relation "measure (\<lambda>(pos, xs). length xs)") (auto simp: utf8_next_pos)

definition from_utf8 :: "byte list \<Rightarrow> (utf8_error, byte list) result" where
  "from_utf8 xs = (case utf8_check 0 xs of None \<Rightarrow> Ok xs | Some e \<Rightarrow> Err e)"

text \<open>The replacement character U+FFFD, and \<open>String::from_utf8_lossy\<close>.\<close>

definition utf8_replacement :: "byte list" where
  "utf8_replacement = [0xEF, 0xBF, 0xBD]"

function from_utf8_lossy :: "byte list \<Rightarrow> byte list" where
  "from_utf8_lossy xs =
     (if xs = [] then []
      else (let (n, ok) = utf8_next xs
            in (if ok then take n xs else utf8_replacement) @ from_utf8_lossy (drop n xs)))"
  by pat_completeness auto
termination
proof (relation "measure length")
  fix xs :: "byte list" and p n ok
  assume "xs \<noteq> []" "p = utf8_next xs" "(n, ok) = p"
  then show "(drop n xs, xs) \<in> measure length" using utf8_next_pos [of xs]
    by (metis diff_less fst_conv in_measure length_drop length_greater_0_conv)
qed simp

declare utf8_valid.simps [simp del] utf8_check.simps [simp del] from_utf8_lossy.simps [simp del]

lemma utf8_valid_nil [simp]: "utf8_valid []"
  by (simp add: utf8_valid.simps)

lemma from_utf8_lossy_nil [simp]: "from_utf8_lossy [] = []"
  by (simp add: from_utf8_lossy.simps)

lemma utf8_check_valid: "utf8_check pos xs = None \<longleftrightarrow> utf8_valid xs"
proof (induction pos xs rule: utf8_check.induct)
  case (1 pos xs)
  then show ?case by (simp add: utf8_check.simps [of pos xs] utf8_valid.simps [of xs] Let_def)
qed

lemma from_utf8_valid: "from_utf8 xs = Ok ys \<longleftrightarrow> utf8_valid xs \<and> ys = xs"
  using utf8_check_valid [of 0 xs] by (auto simp: from_utf8_def split: option.splits)

text \<open>A character does not read past its own bytes.\<close>

lemma not_cont_0 [simp]: "\<not> is_cont 0" "\<not> utf8_second a 0"
  by (simp_all add: is_cont_def utf8_second_def)

lemma utf8_next_ok:
  "utf8_next xs = (n, True) \<longleftrightarrow>
     n = utf8_char_width (safe_get xs 0) \<and> n \<in> {1, 2, 3, 4} \<and>
     (n = 2 \<longrightarrow> is_cont (safe_get xs 1)) \<and>
     (n = 3 \<or> n = 4 \<longrightarrow> utf8_second (safe_get xs 0) (safe_get xs 1) \<and> is_cont (safe_get xs 2)) \<and>
     (n = 4 \<longrightarrow> is_cont (safe_get xs 3))"
  by (auto simp: utf8_next_def Let_def)

lemma utf8_next_len:
  assumes "utf8_next xs = (n, True)" and "xs \<noteq> []"
  shows "n \<le> length xs"
proof -
  have "1 \<le> length xs" using assms(2) by (simp add: Suc_leI)
  moreover have cont: "is_cont (safe_get xs i) \<Longrightarrow> i < length xs" for i
    by (cases "i < length xs") (auto simp: safe_get_def)
  moreover have "n = 1 \<or> n = 2 \<and> is_cont (safe_get xs 1) \<or> n = 3 \<and> is_cont (safe_get xs 2) \<or>
      n = 4 \<and> is_cont (safe_get xs 3)"
    using assms(1) unfolding utf8_next_ok by blast
  ultimately show ?thesis using cont [of 1] cont [of 2] cont [of 3] by linarith
qed

lemma utf8_next_append:
  assumes "utf8_next xs = (n, True)" and "xs \<noteq> []"
  shows "utf8_next (take n xs @ ys) = (n, True)"
proof -
  have n: "n \<le> length xs" "0 < n" using utf8_next_len [OF assms] utf8_next_pos [of xs] assms by simp_all
  have get: "safe_get (take n xs @ ys) i = safe_get xs i" if "i < n" for i
    using n that by (simp add: safe_get_def nth_append)
  have "safe_get (take n xs @ ys) 0 = safe_get xs 0" using get n by blast
  then show ?thesis using assms(1) get [of 1] get [of 2] get [of 3] unfolding utf8_next_ok by auto
qed

lemma utf8_valid_char:
  assumes "utf8_next xs = (n, True)" and "xs \<noteq> []"
  shows "utf8_valid (take n xs @ ys) \<longleftrightarrow> utf8_valid ys"
proof -
  have n: "n \<le> length xs" "0 < n" using utf8_next_len [OF assms] utf8_next_pos [of xs] assms by auto
  then have "take n xs @ ys \<noteq> []" using assms(2) by auto
  then show ?thesis using utf8_next_append [OF assms, of ys] n
    by (subst utf8_valid.simps) (simp add: drop_append)
qed

lemma utf8_valid_append: "utf8_valid xs \<Longrightarrow> utf8_valid (xs @ ys) \<longleftrightarrow> utf8_valid ys"
proof (induction xs rule: utf8_valid.induct)
  case (1 xs)
  show ?case
  proof (cases "xs = []")
    case False
    obtain n ok where nx: "utf8_next xs = (n, ok)" by fastforce
    with False "1.prems" have ok: "ok" "utf8_valid (drop n xs)" by (simp_all add: utf8_valid.simps [of xs] split: if_splits)
    have "xs @ ys = take n xs @ (drop n xs @ ys)" by simp
    moreover have "utf8_valid (take n xs @ (drop n xs @ ys)) \<longleftrightarrow> utf8_valid (drop n xs @ ys)"
      using nx ok False by (intro utf8_valid_char) simp_all
    ultimately show ?thesis using "1.IH" [OF False] nx ok by (metis fst_conv snd_conv)
  qed simp
qed

lemma utf8_valid_ascii: "\<forall>b \<in> set xs. is_ascii b \<Longrightarrow> utf8_valid xs"
proof (induction xs)
  case (Cons b xs)
  then show ?case by (subst utf8_valid.simps) (simp add: utf8_next_def Let_def safe_get_def is_ascii_def utf8_char_width_def)
qed simp

lemma utf8_valid_replacement: "utf8_valid (utf8_replacement @ ys) \<longleftrightarrow> utf8_valid ys"
  by (rule utf8_valid_append) code_simp

text \<open>Lossy decoding gives valid UTF-8, and changes nothing that is valid already.\<close>

lemma utf8_valid_lossy: "utf8_valid (from_utf8_lossy xs)"
proof (induction xs rule: from_utf8_lossy.induct)
  case (1 xs)
  show ?case
  proof (cases "xs = []")
    case False
    obtain n ok where nx: "utf8_next xs = (n, ok)" by fastforce
    have IH: "utf8_valid (from_utf8_lossy (drop n xs))" using 1 False nx by simp
    show ?thesis
    proof (cases ok)
      case True
      then show ?thesis using False nx IH utf8_valid_char [of xs n "from_utf8_lossy (drop n xs)"]
        by (subst from_utf8_lossy.simps) simp
    next
      case False
      then show ?thesis using nx IH \<open>xs \<noteq> []\<close>
        by (subst from_utf8_lossy.simps) (simp add: utf8_valid_replacement)
    qed
  qed simp
qed

lemma from_utf8_lossy_valid: "utf8_valid xs \<Longrightarrow> from_utf8_lossy xs = xs"
proof (induction xs rule: utf8_valid.induct)
  case (1 xs)
  show ?case
  proof (cases "xs = []")
    case False
    obtain n ok where nx: "utf8_next xs = (n, ok)" by fastforce
    with False 1 have "ok" "from_utf8_lossy (drop n xs) = drop n xs"
      by (simp_all add: utf8_valid.simps [of xs] split: if_splits)
    with nx False show ?thesis by (subst from_utf8_lossy.simps) simp
  qed simp
qed

section \<open>Orderings\<close>

datatype ordering = Less | Equal | Greater

fun ordering_reverse :: "ordering \<Rightarrow> ordering" where
  "ordering_reverse Less = Greater"
| "ordering_reverse Equal = Equal"
| "ordering_reverse Greater = Less"

text \<open>\<open>cmp\<close> on a type with a primitive linear order.\<close>

definition prim_cmp :: "'a :: linorder \<Rightarrow> 'a \<Rightarrow> ordering" where
  "prim_cmp a b = (if a < b then Less else if a = b then Equal else Greater)"

text \<open>\<open>match a { Equal => b, non_eq => non_eq }\<close>.\<close>

definition cmp_then :: "ordering \<Rightarrow> ordering \<Rightarrow> ordering" where
  "cmp_then a b = (case a of Equal \<Rightarrow> b | _ \<Rightarrow> a)"

text \<open>
  The contract of Rust's \<open>Ord\<close> beside \<open>Eq\<close>: the comparison is \<open>Equal\<close> exactly on equal
  values, comparing the other way round gives the reverse, and \<open>Less\<close> is transitive; the
  contract is relative to a set of values.
\<close>

locale total_cmp =
  fixes cmp :: "'a \<Rightarrow> 'a \<Rightarrow> ordering" and eqv :: "'a \<Rightarrow> 'a \<Rightarrow> bool"
  assumes cmp_equal: "cmp a b = Equal \<longleftrightarrow> eqv a b"
    and cmp_reverse: "cmp b a = ordering_reverse (cmp a b)"
    and cmp_trans: "cmp a b \<noteq> Greater \<Longrightarrow> cmp b c \<noteq> Greater \<Longrightarrow>
      cmp a c = (if cmp a b = Less \<or> cmp b c = Less then Less else Equal)"
begin

lemma cmp_refl: "eqv a a"
  using cmp_reverse [of a a] cmp_equal [of a a] by (cases "cmp a a") auto

lemma cmp_equal_left: "cmp a b = Equal \<Longrightarrow> cmp a c = cmp b c"
proof (cases "cmp b c")
  case Greater
  assume ab: "cmp a b = Equal"
  then have "cmp b a = Equal" using cmp_reverse [of b a] by simp
  moreover have "cmp c b = Less" using Greater cmp_reverse [of c b] by simp
  ultimately have "cmp c a = Less" using cmp_trans [of c b a] by simp
  with Greater show ?thesis using cmp_reverse [of a c] by simp
qed (use cmp_trans [of a b c] in auto)

end

lemma prim_cmp_total: "total_cmp prim_cmp (=)"
  by unfold_locales (auto simp: prim_cmp_def split: if_splits)

interpretation word_cmp: total_cmp "prim_cmp :: 'a :: len word \<Rightarrow> 'a word \<Rightarrow> ordering" "(=)"
  by (rule prim_cmp_total)

text \<open>Comparison of sequences: element by element, then by length.\<close>

fun list_cmp :: "('a \<Rightarrow> 'a \<Rightarrow> ordering) \<Rightarrow> 'a list \<Rightarrow> 'a list \<Rightarrow> ordering" where
  "list_cmp cmp [] [] = Equal"
| "list_cmp cmp [] (y # ys) = Less"
| "list_cmp cmp (x # xs) [] = Greater"
| "list_cmp cmp (x # xs) (y # ys) = cmp_then (cmp x y) (list_cmp cmp xs ys)"

context total_cmp
begin

lemma list_cmp_reverse: "list_cmp cmp ys xs = ordering_reverse (list_cmp cmp xs ys)"
proof (induction xs arbitrary: ys)
  case Nil
  then show ?case by (cases ys) simp_all
next
  case (Cons x xs)
  show ?case
  proof (cases ys)
    case (Cons y ys')
    then show ?thesis using cmp_reverse [of y x] Cons.IH [of ys'] by (cases "cmp x y") (auto simp: cmp_then_def)
  qed simp
qed

lemma list_cmp_equal: "list_cmp cmp xs ys = Equal \<longleftrightarrow> list_all2 eqv xs ys"
proof (induction xs arbitrary: ys)
  case Nil
  then show ?case by (cases ys) simp_all
next
  case (Cons x xs)
  then show ?case by (cases ys) (auto simp: cmp_then_def cmp_equal [symmetric] split: ordering.splits)
qed

lemma list_cmp_trans:
  "list_cmp cmp xs ys \<noteq> Greater \<Longrightarrow> list_cmp cmp ys zs \<noteq> Greater \<Longrightarrow>
   list_cmp cmp xs zs = (if list_cmp cmp xs ys = Less \<or> list_cmp cmp ys zs = Less then Less else Equal)"
proof (induction xs arbitrary: ys zs)
  case Nil
  then show ?case by (cases ys; cases zs) auto
next
  case (Cons x xs)
  from Cons.prems obtain y ys' where ys: "ys = y # ys'" by (cases ys) auto
  with Cons.prems obtain z zs' where zs: "zs = z # zs'" by (cases zs) auto
  show ?case using Cons.prems Cons.IH [of ys' zs'] cmp_trans [of x y z]
    by (auto simp: ys zs cmp_then_def split: ordering.splits if_splits)
qed

lemma list_total: "total_cmp (list_cmp cmp) (list_all2 eqv)"
  by (unfold_locales) (fact list_cmp_equal list_cmp_reverse list_cmp_trans)+

end

interpretation str_cmp: total_cmp "list_cmp (prim_cmp :: byte \<Rightarrow> byte \<Rightarrow> ordering)" "list_all2 (=)"
  by (rule word_cmp.list_total)

end
