(* ===== verification/Semver.thy ===== *)
theory Semver
  imports Rust_Str
begin

text \<open>
  The crate \<open>semver\<close> (\<open>src/semver/semver.rs\<close>): the parser of SemVer 2.0.0 versions, their
  display, equality and precedence. A version borrows its pre-release and build strings from
  the input; the model holds their bytes. The lemmas show that the parser accepts exactly
  what \<open>Display\<close> prints for a well-formed version, and returns that version; that each error
  has its cause; and that the precedence is a total order, consistent with the equality that
  ignores build metadata.
\<close>

section \<open>Definitions\<close>

datatype semver_error =
    SvEmptyInput | SvInvalidCharacter | SvLeadingZero | SvEmptyIdentifier
  | SvInvalidNumber | SvInvalidFormat | SvTrailingData

fun semver_error_fmt :: "semver_error \<Rightarrow> string" where
  "semver_error_fmt SvEmptyInput = ''empty input''"
| "semver_error_fmt SvInvalidCharacter = ''invalid character in version string''"
| "semver_error_fmt SvLeadingZero = ''numeric identifier contains leading zero''"
| "semver_error_fmt SvEmptyIdentifier = ''empty identifier''"
| "semver_error_fmt SvInvalidNumber = ''invalid numeric identifier''"
| "semver_error_fmt SvInvalidFormat = ''invalid version format''"
| "semver_error_fmt SvTrailingData = ''unexpected trailing data''"

datatype semver_identifier = SvNumeric u64 | SvAlpha "byte list"

text \<open>\<open>str::parse::<u64>\<close>.\<close>

definition u64_from_str :: "byte list \<Rightarrow> u64 option" where
  "u64_from_str s = map_option word_of_nat (parse_uint (2 ^ 64) s)"

definition semver_ident_char :: "byte \<Rightarrow> bool" where
  "semver_ident_char c \<longleftrightarrow> \<not> (\<not> is_ascii_alphanumeric c \<and> c \<noteq> ascii CHR ''-'')"

definition semver_identifier_parse :: "byte list \<Rightarrow> (semver_error, semver_identifier) result" where
  "semver_identifier_parse input =
     (if input = [] then Err SvEmptyIdentifier
      else if \<not> list_all semver_ident_char input then Err SvInvalidCharacter
      else if list_all is_ascii_digit input
      then if 1 < length input \<and> hd input = ascii CHR ''0'' then Err SvLeadingZero
           else (case u64_from_str input of None \<Rightarrow> Err SvInvalidNumber | Some n \<Rightarrow> Ok (SvNumeric n))
      else Ok (SvAlpha input))"

fun semver_identifier_cmp :: "semver_identifier \<Rightarrow> semver_identifier \<Rightarrow> ordering" where
  "semver_identifier_cmp (SvNumeric _) (SvAlpha _) = Less"
| "semver_identifier_cmp (SvAlpha _) (SvNumeric _) = Greater"
| "semver_identifier_cmp (SvNumeric a) (SvNumeric b) = prim_cmp a b"
| "semver_identifier_cmp (SvAlpha a) (SvAlpha b) = list_cmp prim_cmp a b"

record semver_pre_release =
  sv_identifiers :: "semver_identifier list"

text \<open>\<open>collect::<Result<Vec<_>, _>>\<close>: the first error, or all the values.\<close>

fun collect_results :: "('e, 'a) result list \<Rightarrow> ('e, 'a list) result" where
  "collect_results [] = Ok []"
| "collect_results (Err e # rs) = Err e"
| "collect_results (Ok a # rs) = (case collect_results rs of Err e \<Rightarrow> Err e | Ok as \<Rightarrow> Ok (a # as))"

definition semver_pre_release_parse :: "byte list \<Rightarrow> (semver_error, semver_pre_release) result" where
  "semver_pre_release_parse input =
     (if input = [] then Err SvEmptyIdentifier
      else case collect_results (map semver_identifier_parse (split_on (\<lambda>c. c = ascii CHR ''.'') input)) of
             Err e \<Rightarrow> Err e
           | Ok ids \<Rightarrow> Ok \<lparr>sv_identifiers = ids\<rparr>)"

fun semver_identifier_fmt :: "semver_identifier \<Rightarrow> byte list" where
  "semver_identifier_fmt (SvNumeric n) = show_nat (unat n)"
| "semver_identifier_fmt (SvAlpha s) = s"

text \<open>The loop of \<open>Display\<close>, with its index.\<close>

fun semver_fmt_loop :: "nat \<Rightarrow> semver_identifier list \<Rightarrow> byte list" where
  "semver_fmt_loop i [] = []"
| "semver_fmt_loop i (ident # ids) =
     (if i > 0 then ascii_bytes ''.'' else []) @ semver_identifier_fmt ident @ semver_fmt_loop (i + 1) ids"

definition semver_pre_release_fmt :: "semver_pre_release \<Rightarrow> byte list" where
  "semver_pre_release_fmt p = semver_fmt_loop 0 (sv_identifiers p)"

text \<open>The loop over the zipped identifiers, \<open>Equal\<close> when no pair differs.\<close>

fun semver_zip_cmp :: "(semver_identifier \<times> semver_identifier) list \<Rightarrow> ordering" where
  "semver_zip_cmp [] = Equal"
| "semver_zip_cmp ((a, b) # rest) =
     (case semver_identifier_cmp a b of Equal \<Rightarrow> semver_zip_cmp rest | non_eq \<Rightarrow> non_eq)"

definition semver_pre_release_cmp :: "semver_pre_release \<Rightarrow> semver_pre_release \<Rightarrow> ordering" where
  "semver_pre_release_cmp a b =
     (case semver_zip_cmp (zip (sv_identifiers a) (sv_identifiers b)) of
        Equal \<Rightarrow> prim_cmp (length (sv_identifiers a)) (length (sv_identifiers b))
      | non_eq \<Rightarrow> non_eq)"

record semver_build =
  sv_raw :: "byte list"

text \<open>The validation loop of the build metadata: the first offending part decides.\<close>

fun semver_build_check :: "byte list list \<Rightarrow> semver_error option" where
  "semver_build_check [] = None"
| "semver_build_check (part # parts) =
     (if part = [] then Some SvEmptyIdentifier
      else if \<not> list_all semver_ident_char part then Some SvInvalidCharacter
      else semver_build_check parts)"

definition semver_build_parse :: "byte list \<Rightarrow> (semver_error, semver_build) result" where
  "semver_build_parse input =
     (if input = [] then Err SvEmptyIdentifier
      else case semver_build_check (split_on (\<lambda>c. c = ascii CHR ''.'') input) of
             Some e \<Rightarrow> Err e
           | None \<Rightarrow> Ok \<lparr>sv_raw = input\<rparr>)"

record semver_version =
  sv_major :: u64
  sv_minor :: u64
  sv_patch :: u64
  sv_pre_release :: "semver_pre_release option"
  sv_build :: "semver_build option"

definition semver_check_digits :: "byte list \<Rightarrow> (semver_error, nat) result" where
  "semver_check_digits s =
     (if s = [] then Err SvInvalidCharacter
      else case find_pos (\<lambda>c. \<not> is_ascii_digit c) s of
             Some pos \<Rightarrow> if pos = 0 then Err SvInvalidCharacter else Ok pos
           | None \<Rightarrow> Ok (length s))"

definition semver_parse_number :: "byte list \<Rightarrow> (semver_error, u64) result" where
  "semver_parse_number s =
     (if 1 < length s \<and> hd s = ascii CHR ''0'' then Err SvLeadingZero
      else case u64_from_str s of None \<Rightarrow> Err SvInvalidNumber | Some n \<Rightarrow> Ok n)"

definition semver_expect_dot :: "byte list \<Rightarrow> (semver_error, byte list) result" where
  "semver_expect_dot s =
     (case s of b # bs \<Rightarrow> if b = ascii CHR ''.'' then Ok bs else Err SvInvalidFormat | [] \<Rightarrow> Err SvInvalidFormat)"

text \<open>\<open>check_digits\<close>, \<open>split_at\<close> and \<open>parse_number\<close>, the three lines each number is read with.\<close>

definition semver_number :: "byte list \<Rightarrow> (semver_error, u64 \<times> byte list) result" where
  "semver_number input =
     (case semver_check_digits input of
        Err e \<Rightarrow> Err e
      | Ok after \<Rightarrow>
          (case semver_parse_number (take after input) of
             Err e \<Rightarrow> Err e
           | Ok n \<Rightarrow> Ok (n, drop after input)))"

text \<open>What follows the three numbers.\<close>

definition semver_suffix ::
  "byte list \<Rightarrow> (semver_error, semver_pre_release option \<times> semver_build option) result" where
  "semver_suffix rest =
     (case (case rest of
              c # r \<Rightarrow>
                if c = ascii CHR ''-''
                then (let end_pos = (case find_pos (\<lambda>c. c = ascii CHR ''+'') r of Some i \<Rightarrow> i | None \<Rightarrow> length r)
                      in case semver_pre_release_parse (take end_pos r) of
                           Err e \<Rightarrow> Err e
                         | Ok pre \<Rightarrow> Ok (Some pre, drop end_pos r))
                else Ok (None, rest)
            | [] \<Rightarrow> Ok (None, rest)) of
        Err e \<Rightarrow> Err e
      | Ok (pre_release, after_pre_release) \<Rightarrow>
          (case after_pre_release of
             [] \<Rightarrow> Ok (pre_release, None)
           | c # r \<Rightarrow>
               if c = ascii CHR ''+''
               then (case semver_build_parse r of Err e \<Rightarrow> Err e | Ok b \<Rightarrow> Ok (pre_release, Some b))
               else Err SvTrailingData))"

definition semver_parse :: "byte list \<Rightarrow> (semver_error, semver_version) result" where
  "semver_parse input =
     (if input = [] then Err SvEmptyInput
      else case semver_number input of Err e \<Rightarrow> Err e | Ok (major, rest) \<Rightarrow>
        (case semver_expect_dot rest of Err e \<Rightarrow> Err e | Ok rest \<Rightarrow>
        (case semver_number rest of Err e \<Rightarrow> Err e | Ok (minor, rest) \<Rightarrow>
        (case semver_expect_dot rest of Err e \<Rightarrow> Err e | Ok rest \<Rightarrow>
        (case semver_number rest of Err e \<Rightarrow> Err e | Ok (patch, rest) \<Rightarrow>
        (case semver_suffix rest of Err e \<Rightarrow> Err e | Ok (pre_release, build) \<Rightarrow>
           Ok \<lparr>sv_major = major, sv_minor = minor, sv_patch = patch,
               sv_pre_release = pre_release, sv_build = build\<rparr>))))))"

definition semver_fmt :: "semver_version \<Rightarrow> byte list" where
  "semver_fmt v =
     show_nat (unat (sv_major v)) @ ascii_bytes ''.'' @ show_nat (unat (sv_minor v)) @ ascii_bytes ''.'' @
     show_nat (unat (sv_patch v)) @
     (case sv_pre_release v of Some p \<Rightarrow> ascii_bytes ''-'' @ semver_pre_release_fmt p | None \<Rightarrow> []) @
     (case sv_build v of Some b \<Rightarrow> ascii_bytes ''+'' @ sv_raw b | None \<Rightarrow> [])"

definition semver_eq :: "semver_version \<Rightarrow> semver_version \<Rightarrow> bool" where
  "semver_eq a b \<longleftrightarrow>
     sv_major a = sv_major b \<and> sv_minor a = sv_minor b \<and> sv_patch a = sv_patch b \<and>
     sv_pre_release a = sv_pre_release b"

definition semver_cmp :: "semver_version \<Rightarrow> semver_version \<Rightarrow> ordering" where
  "semver_cmp a b =
     (case prim_cmp (sv_major a) (sv_major b) of
        Equal \<Rightarrow>
          (case prim_cmp (sv_minor a) (sv_minor b) of
             Equal \<Rightarrow>
               (case prim_cmp (sv_patch a) (sv_patch b) of
                  Equal \<Rightarrow>
                    (case (sv_pre_release a, sv_pre_release b) of
                       (None, Some _) \<Rightarrow> Greater
                     | (Some _, None) \<Rightarrow> Less
                     | (None, None) \<Rightarrow> Equal
                     | (Some p, Some q) \<Rightarrow> semver_pre_release_cmp p q)
                | non_eq \<Rightarrow> non_eq)
           | non_eq \<Rightarrow> non_eq)
      | non_eq \<Rightarrow> non_eq)"

section \<open>The grammar\<close>

text \<open>The versions that SemVer's grammar has, as a predicate on the parsed value.\<close>

fun semver_identifier_wf :: "semver_identifier \<Rightarrow> bool" where
  "semver_identifier_wf (SvNumeric n) \<longleftrightarrow> True"
| "semver_identifier_wf (SvAlpha s) \<longleftrightarrow>
     s \<noteq> [] \<and> list_all semver_ident_char s \<and> \<not> list_all is_ascii_digit s"

definition semver_pre_release_wf :: "semver_pre_release \<Rightarrow> bool" where
  "semver_pre_release_wf p \<longleftrightarrow> sv_identifiers p \<noteq> [] \<and> list_all semver_identifier_wf (sv_identifiers p)"

definition semver_build_wf :: "semver_build \<Rightarrow> bool" where
  "semver_build_wf b \<longleftrightarrow>
     list_all (\<lambda>part. part \<noteq> [] \<and> list_all semver_ident_char part)
       (split_on (\<lambda>c. c = ascii CHR ''.'') (sv_raw b))"

definition semver_wf :: "semver_version \<Rightarrow> bool" where
  "semver_wf v \<longleftrightarrow> pred_option semver_pre_release_wf (sv_pre_release v) \<and> pred_option semver_build_wf (sv_build v)"

section \<open>Parsing and printing\<close>

lemma ident_char_not_sep: "semver_ident_char c \<Longrightarrow> c \<noteq> 0x2E \<and> c \<noteq> 0x2B"
  by (auto simp: semver_ident_char_def is_ascii_alphanumeric_def is_ascii_alphabetic_def is_ascii_digit_def)

lemma digit_ident_char: "is_ascii_digit c \<Longrightarrow> semver_ident_char c"
  by (simp add: semver_ident_char_def is_ascii_alphanumeric_def)

lemma digit_not_sep: "is_ascii_digit c \<Longrightarrow> c \<noteq> 0x2E \<and> c \<noteq> 0x2D \<and> c \<noteq> 0x2B"
  by (auto simp: is_ascii_digit_def)

lemma unat_u64_less [simp]: "unat (n :: u64) < 2 ^ 64"
  using unsigned_less [of n] by simp

lemma u64_from_str_show [simp]: "u64_from_str (show_nat (unat n)) = Some n"
  using unat_u64_less [of n] by (simp add: u64_from_str_def parse_show_nat)

lemma u64_from_str_digits:
  assumes "list_all is_ascii_digit s" "s \<noteq> []"
  shows "u64_from_str s = (if digits_val s < 2 ^ 64 then Some (word_of_nat (digits_val s)) else None)"
  using assms by (simp add: u64_from_str_def parse_uint_digits list_all_iff)

lemma digits_eq_show_iff:
  assumes "list_all is_ascii_digit s" "s \<noteq> []"
  shows "no_leading_zero s \<and> u64_from_str s = Some n \<longleftrightarrow> s = show_nat (unat n)"
proof
  assume s: "no_leading_zero s \<and> u64_from_str s = Some n"
  then have "digits_val s < 2 ^ 64" "n = word_of_nat (digits_val s)"
    using u64_from_str_digits [OF assms] by (auto split: if_splits)
  then have "unat n = digits_val s" by (simp add: unsigned_of_nat take_bit_nat_eq_self)
  then show "s = show_nat (unat n)" using s assms show_digits_val [of s] by (simp add: list_all_iff)
next
  assume "s = show_nat (unat n)"
  then show "no_leading_zero s \<and> u64_from_str s = Some n" by (simp add: no_leading_zero_show)
qed

lemma semver_identifier_parse_iff:
  "semver_identifier_parse s = Ok i \<longleftrightarrow> semver_identifier_wf i \<and> s = semver_identifier_fmt i"
proof (cases i)
  case (SvNumeric n)
  have "semver_identifier_parse s = Ok i \<longleftrightarrow>
      s \<noteq> [] \<and> list_all is_ascii_digit s \<and> no_leading_zero s \<and> u64_from_str s = Some n"
    using digit_ident_char
    by (auto simp: SvNumeric semver_identifier_parse_def no_leading_zero_def list_all_iff split: option.splits)
  also have "\<dots> \<longleftrightarrow> s = show_nat (unat n)"
    using digits_eq_show_iff [of s n] show_nat_digits [of _ "unat n"] by (auto simp: list_all_iff)
  finally show ?thesis by (simp add: SvNumeric)
next
  case (SvAlpha t)
  then show ?thesis by (auto simp: semver_identifier_parse_def split: option.splits)
qed

lemma semver_identifier_fmt_chars:
  "semver_identifier_wf i \<Longrightarrow> list_all semver_ident_char (semver_identifier_fmt i) \<and> semver_identifier_fmt i \<noteq> []"
  using show_nat_digits digit_ident_char by (cases i) (auto simp: list_all_iff)

lemma collect_results_iff: "collect_results rs = Ok as \<longleftrightarrow> rs = map Ok as"
proof
  show "collect_results rs = Ok as \<Longrightarrow> rs = map Ok as"
    by (induction rs arbitrary: as rule: collect_results.induct) (auto split: sum.splits)
  show "rs = map Ok as \<Longrightarrow> collect_results rs = Ok as"
    by (induction as arbitrary: rs) simp_all
qed

lemma semver_fmt_loop_join:
  "semver_fmt_loop 0 ids = join_on 0x2E (map semver_identifier_fmt ids)"
proof -
  have "semver_fmt_loop (Suc i) ids = concat (map ((#) 0x2E) (map semver_identifier_fmt ids))" for i ids
    by (induction ids arbitrary: i) simp_all
  then show ?thesis by (cases ids) (simp_all add: join_on_def)
qed

lemma list_all2_map_Ok: "map f xs = map Ok ys \<longleftrightarrow> list_all2 (\<lambda>x y. f x = Ok y) xs ys"
  by (auto simp: list_all2_conv_all_nth list_eq_iff_nth_eq)

lemma semver_identifiers_parse_iff:
  "list_all2 (\<lambda>x y. semver_identifier_parse x = Ok y) parts ids \<longleftrightarrow>
     list_all semver_identifier_wf ids \<and> parts = map semver_identifier_fmt ids"
  unfolding semver_identifier_parse_iff
  by (auto simp: list_all2_conv_all_nth list_all_length intro: nth_equalityI)

lemma semver_pre_release_parse_iff:
  "semver_pre_release_parse s = Ok p \<longleftrightarrow> semver_pre_release_wf p \<and> s = semver_pre_release_fmt p"
proof -
  let ?parts = "split_on (\<lambda>c. c = 0x2E) s" and ?ids = "sv_identifiers p"
  have collect: "(case r of Err e \<Rightarrow> Err e | Ok ids \<Rightarrow> Ok \<lparr>sv_identifiers = ids\<rparr>) = Ok p \<longleftrightarrow> r = Ok ?ids" for r
    by (cases r; cases p) auto
  have "semver_pre_release_parse s = Ok p \<longleftrightarrow>
      s \<noteq> [] \<and> list_all semver_identifier_wf ?ids \<and> ?parts = map semver_identifier_fmt ?ids"
    by (simp add: semver_pre_release_parse_def collect collect_results_iff list_all2_map_Ok
        semver_identifiers_parse_iff)
  also have "\<dots> \<longleftrightarrow> semver_pre_release_wf p \<and> s = semver_pre_release_fmt p"
  proof
    assume l: "s \<noteq> [] \<and> list_all semver_identifier_wf ?ids \<and> ?parts = map semver_identifier_fmt ?ids"
    then have "?ids \<noteq> []" using split_on_nonempty [of "\<lambda>c. c = 0x2E" s] by auto
    moreover have "s = join_on 0x2E (map semver_identifier_fmt ?ids)"
      using join_split [of "0x2E" s] l by simp
    ultimately show "semver_pre_release_wf p \<and> s = semver_pre_release_fmt p"
      using l by (simp add: semver_pre_release_wf_def semver_pre_release_fmt_def semver_fmt_loop_join)
  next
    assume r: "semver_pre_release_wf p \<and> s = semver_pre_release_fmt p"
    then have s: "s = join_on 0x2E (map semver_identifier_fmt ?ids)" and wf: "list_all semver_identifier_wf ?ids" "?ids \<noteq> []"
      by (simp_all add: semver_pre_release_wf_def semver_pre_release_fmt_def semver_fmt_loop_join)
    have free: "\<forall>xs \<in> set (map semver_identifier_fmt ?ids). 0x2E \<notin> set xs"
      using wf semver_identifier_fmt_chars ident_char_not_sep by (fastforce simp: list_all_iff)
    have "s \<noteq> []" using wf s semver_identifier_fmt_chars
      by (cases ?ids; cases "tl ?ids") (auto simp: list_all_iff)
    with split_join [OF _ free] wf s show
      "s \<noteq> [] \<and> list_all semver_identifier_wf ?ids \<and> ?parts = map semver_identifier_fmt ?ids" by simp
  qed
  finally show ?thesis .
qed

lemma semver_build_check_iff:
  "semver_build_check parts = None \<longleftrightarrow> list_all (\<lambda>part. part \<noteq> [] \<and> list_all semver_ident_char part) parts"
  by (induction parts) auto

lemma semver_build_parse_iff:
  "semver_build_parse s = Ok b \<longleftrightarrow> semver_build_wf b \<and> s = sv_raw b"
  using semver_build_check_iff [of "split_on (\<lambda>c. c = 0x2E) s"]
  by (cases b; cases "semver_build_check (split_on (\<lambda>c. c = 0x2E) s)")
    (auto simp: semver_build_parse_def semver_build_wf_def)

text \<open>Reading a number: the digits, canonical and in range, up to the first other byte.\<close>

definition nondigit_start :: "byte list \<Rightarrow> bool" where
  "nondigit_start s \<longleftrightarrow> s = [] \<or> \<not> is_ascii_digit (hd s)"

lemma semver_number_iff:
  "semver_number s = Ok (n, rest) \<longleftrightarrow> s = show_nat (unat n) @ rest \<and> nondigit_start rest"
proof -
  define ds where "ds = takeWhile is_ascii_digit s"
  have s: "s = ds @ dropWhile is_ascii_digit s" by (simp add: ds_def)
  have parts: "take (length ds) s = ds" "drop (length ds) s = dropWhile is_ascii_digit s"
    unfolding ds_def by (metis takeWhile_eq_take) (metis dropWhile_eq_drop)
  have digits: "list_all is_ascii_digit ds" by (auto simp: ds_def list_all_iff dest: set_takeWhileD)
  have "semver_check_digits s = (if ds = [] then Err SvInvalidCharacter else Ok (length ds))"
    using find_pos_default [where p = "\<lambda>c. \<not> is_ascii_digit c" and xs = s]
    by (auto simp: semver_check_digits_def ds_def [symmetric] split: option.splits)
  then have "semver_number s = Ok (n, rest) \<longleftrightarrow>
      ds \<noteq> [] \<and> no_leading_zero ds \<and> u64_from_str ds = Some n \<and> rest = dropWhile is_ascii_digit s"
    using parts by (auto simp: semver_number_def semver_parse_number_def no_leading_zero_def split: option.splits)
  also have "\<dots> \<longleftrightarrow> ds = show_nat (unat n) \<and> rest = dropWhile is_ascii_digit s"
    using digits_eq_show_iff [OF digits, of n] by (metis show_nat_nonempty)
  also have "\<dots> \<longleftrightarrow> s = show_nat (unat n) @ rest \<and> nondigit_start rest"
  proof
    assume "ds = show_nat (unat n) \<and> rest = dropWhile is_ascii_digit s"
    then show "s = show_nat (unat n) @ rest \<and> nondigit_start rest"
      using s hd_dropWhile [of is_ascii_digit s] by (auto simp: nondigit_start_def)
  next
    assume r: "s = show_nat (unat n) @ rest \<and> nondigit_start rest"
    have "takeWhile is_ascii_digit rest = []" "dropWhile is_ascii_digit rest = rest"
      using r by (cases rest; simp add: nondigit_start_def)+
    with r show_nat_digits [of _ "unat n"] show "ds = show_nat (unat n) \<and> rest = dropWhile is_ascii_digit s"
      by (simp add: ds_def)
  qed
  finally show ?thesis .
qed

lemma semver_expect_dot_iff: "semver_expect_dot s = Ok rest \<longleftrightarrow> s = 0x2E # rest"
  by (auto simp: semver_expect_dot_def split: list.splits)

lemma semver_pre_release_fmt_plus:
  assumes "semver_pre_release_wf p"
  shows "0x2B \<notin> set (semver_pre_release_fmt p)"
proof -
  have "0x2B \<notin> set (join_on 0x2E (map semver_identifier_fmt ids))"
    if "list_all semver_identifier_wf ids" for ids
    using that semver_identifier_fmt_chars ident_char_not_sep
    by (induction ids rule: induct_list012) (fastforce simp: list_all_iff)+
  with assms show ?thesis by (simp add: semver_pre_release_wf_def semver_pre_release_fmt_def semver_fmt_loop_join)
qed

definition semver_suffix_fmt :: "semver_pre_release option \<Rightarrow> semver_build option \<Rightarrow> byte list" where
  "semver_suffix_fmt pre build =
     (case pre of Some p \<Rightarrow> 0x2D # semver_pre_release_fmt p | None \<Rightarrow> []) @
     (case build of Some b \<Rightarrow> 0x2B # sv_raw b | None \<Rightarrow> [])"

definition semver_build_tail :: "semver_pre_release option \<Rightarrow> byte list \<Rightarrow>
    (semver_error, semver_pre_release option \<times> semver_build option) result" where
  "semver_build_tail pre s =
     (case s of
        [] \<Rightarrow> Ok (pre, None)
      | c # r \<Rightarrow>
          if c = 0x2B then (case semver_build_parse r of Err e \<Rightarrow> Err e | Ok b \<Rightarrow> Ok (pre, Some b))
          else Err SvTrailingData)"

lemma semver_build_tail_iff:
  "semver_build_tail pre s = Ok (p, b) \<longleftrightarrow>
     p = pre \<and> pred_option semver_build_wf b \<and> s = (case b of Some b \<Rightarrow> 0x2B # sv_raw b | None \<Rightarrow> [])"
proof (cases s)
  case (Cons c r)
  show ?thesis
  proof (cases "semver_build_parse r")
    case (Inl e)
    then have "\<not> (semver_build_wf b' \<and> r = sv_raw b')" for b'
      using semver_build_parse_iff [of r b'] by simp
    with Inl Cons show ?thesis by (cases b) (simp_all add: semver_build_tail_def)
  next
    case (Inr b')
    with semver_build_parse_iff [of r] have "semver_build_wf x \<and> r = sv_raw x \<longleftrightarrow> x = b'" for x
      by (metis sum.inject(2))
    with Inr Cons show ?thesis by (cases b) (auto simp: semver_build_tail_def)
  qed
qed (cases b; auto simp: semver_build_tail_def)

lemma semver_suffix_cases:
  "semver_suffix s =
     (case s of
        c # r \<Rightarrow>
          if c = 0x2D
          then (case semver_pre_release_parse (takeWhile (\<lambda>c. c \<noteq> 0x2B) r) of
                  Err e \<Rightarrow> Err e
                | Ok p \<Rightarrow> semver_build_tail (Some p) (dropWhile (\<lambda>c. c \<noteq> 0x2B) r))
          else semver_build_tail None s
      | [] \<Rightarrow> semver_build_tail None s)"
  unfolding semver_suffix_def Let_def take_find_pos
  by (auto simp: semver_build_tail_def split: list.splits sum.splits)

lemma semver_suffix_iff:
  "semver_suffix s = Ok (pre, build) \<longleftrightarrow>
     pred_option semver_pre_release_wf pre \<and> pred_option semver_build_wf build \<and> s = semver_suffix_fmt pre build"
proof (cases pre)
  case None
  show ?thesis
    by (cases s; cases build)
      (auto simp: None semver_suffix_cases semver_build_tail_iff semver_suffix_fmt_def split: sum.splits)
next
  case (Some p)
  let ?t = "case build of Some b \<Rightarrow> 0x2B # sv_raw b | None \<Rightarrow> []"
  have "semver_suffix s = Ok (pre, build) \<longleftrightarrow>
      (\<exists>r. s = 0x2D # r \<and> semver_pre_release_parse (takeWhile (\<lambda>c. c \<noteq> 0x2B) r) = Ok p \<and>
         pred_option semver_build_wf build \<and> dropWhile (\<lambda>c. c \<noteq> 0x2B) r = ?t)"
    by (cases s) (auto simp: Some semver_suffix_cases semver_build_tail_iff split: sum.splits)
  also have "\<dots> \<longleftrightarrow> (\<exists>r. s = 0x2D # r \<and> semver_pre_release_wf p \<and> pred_option semver_build_wf build \<and>
      takeWhile (\<lambda>c. c \<noteq> 0x2B) r = semver_pre_release_fmt p \<and> dropWhile (\<lambda>c. c \<noteq> 0x2B) r = ?t)"
    by (auto simp: semver_pre_release_parse_iff)
  also have "\<dots> \<longleftrightarrow> semver_pre_release_wf p \<and> pred_option semver_build_wf build \<and>
      s = 0x2D # semver_pre_release_fmt p @ ?t"
  proof (intro iffI; elim exE conjE)
    fix r assume "s = 0x2D # r" "semver_pre_release_wf p" "pred_option semver_build_wf build"
      "takeWhile (\<lambda>c. c \<noteq> 0x2B) r = semver_pre_release_fmt p" "dropWhile (\<lambda>c. c \<noteq> 0x2B) r = ?t"
    then show "semver_pre_release_wf p \<and> pred_option semver_build_wf build \<and> s = 0x2D # semver_pre_release_fmt p @ ?t"
      by (metis takeWhile_dropWhile_id)
  next
    assume wf: "semver_pre_release_wf p" "pred_option semver_build_wf build" "s = 0x2D # semver_pre_release_fmt p @ ?t"
    have free: "\<forall>c \<in> set (semver_pre_release_fmt p). c \<noteq> 0x2B"
      using semver_pre_release_fmt_plus [OF wf(1)] by auto
    then have "takeWhile (\<lambda>c. c \<noteq> 0x2B) (semver_pre_release_fmt p @ ?t) = semver_pre_release_fmt p"
      by (cases build) (simp_all add: takeWhile_append)
    moreover have "dropWhile (\<lambda>c. c \<noteq> 0x2B) (semver_pre_release_fmt p @ ?t) = ?t"
      using free by (cases build) (simp_all add: dropWhile_append)
    ultimately show "\<exists>r. s = 0x2D # r \<and> semver_pre_release_wf p \<and> pred_option semver_build_wf build \<and>
      takeWhile (\<lambda>c. c \<noteq> 0x2B) r = semver_pre_release_fmt p \<and> dropWhile (\<lambda>c. c \<noteq> 0x2B) r = ?t" using wf by blast
  qed
  finally show ?thesis by (simp add: Some semver_suffix_fmt_def)
qed


section \<open>Precedence\<close>

interpretation semver_identifier: total_cmp semver_identifier_cmp "(=)"
proof
  fix a b c :: semver_identifier
  show "semver_identifier_cmp a b = Equal \<longleftrightarrow> a = b"
    by (cases a; cases b) (simp_all add: word_cmp.cmp_equal str_cmp.cmp_equal list.rel_eq)
  show "semver_identifier_cmp b a = ordering_reverse (semver_identifier_cmp a b)"
    by (cases a; cases b)
      (simp_all add: word_cmp.cmp_reverse [symmetric] str_cmp.cmp_reverse [symmetric])
  assume "semver_identifier_cmp a b \<noteq> Greater" "semver_identifier_cmp b c \<noteq> Greater"
  then show "semver_identifier_cmp a c =
      (if semver_identifier_cmp a b = Less \<or> semver_identifier_cmp b c = Less then Less else Equal)"
    by (cases a; cases b; cases c) (auto dest: word_cmp.cmp_trans str_cmp.cmp_trans)
qed

text \<open>The loop over the zipped identifiers, then the lengths, is the lexicographic comparison.\<close>

lemma semver_zip_cmp_list:
  "(case semver_zip_cmp (zip xs ys) of Equal \<Rightarrow> prim_cmp (length xs) (length ys) | non_eq \<Rightarrow> non_eq) =
   list_cmp semver_identifier_cmp xs ys"
proof (induction xs arbitrary: ys)
  case Nil
  then show ?case by (cases ys) (simp_all add: prim_cmp_def)
next
  case (Cons x xs)
  show ?case
  proof (cases ys)
    case (Cons y ys')
    have "prim_cmp (length (x # xs)) (length ys) = prim_cmp (length xs) (length ys')"
      by (simp add: Cons prim_cmp_def)
    then show ?thesis using Cons.IH [of ys'] Cons
      by (cases "semver_identifier_cmp x y"; cases "semver_zip_cmp (zip xs ys')") (simp_all add: cmp_then_def)
  qed (simp add: prim_cmp_def)
qed

lemma semver_pre_release_cmp_list:
  "semver_pre_release_cmp a b = list_cmp semver_identifier_cmp (sv_identifiers a) (sv_identifiers b)"
  unfolding semver_pre_release_cmp_def by (rule semver_zip_cmp_list)

interpretation semver_identifiers: total_cmp "list_cmp semver_identifier_cmp" "list_all2 (=)"
  by (rule semver_identifier.list_total)

interpretation semver_pre_release: total_cmp semver_pre_release_cmp "(=)"
proof
  fix a b c :: semver_pre_release
  show "semver_pre_release_cmp a b = Equal \<longleftrightarrow> a = b"
    by (cases a; cases b) (simp add: semver_pre_release_cmp_list semver_identifiers.cmp_equal list.rel_eq)
  show "semver_pre_release_cmp b a = ordering_reverse (semver_pre_release_cmp a b)"
    unfolding semver_pre_release_cmp_list by (rule semver_identifiers.cmp_reverse)
  assume "semver_pre_release_cmp a b \<noteq> Greater" "semver_pre_release_cmp b c \<noteq> Greater"
  then show "semver_pre_release_cmp a c =
      (if semver_pre_release_cmp a b = Less \<or> semver_pre_release_cmp b c = Less then Less else Equal)"
    unfolding semver_pre_release_cmp_list by (rule semver_identifiers.cmp_trans)
qed


text \<open>A chain of comparisons: a lexicographic combination of total comparisons.\<close>

lemma cmp_then_total:
  assumes "total_cmp c1 e1" and "total_cmp c2 e2"
  shows "total_cmp (\<lambda>a b. cmp_then (c1 a b) (c2 a b)) (\<lambda>a b. e1 a b \<and> e2 a b)"
proof
  fix a b c
  show "cmp_then (c1 a b) (c2 a b) = Equal \<longleftrightarrow> e1 a b \<and> e2 a b"
    using total_cmp.cmp_equal [OF assms(1), of a b] total_cmp.cmp_equal [OF assms(2), of a b]
    by (auto simp: cmp_then_def split: ordering.splits)
  show "cmp_then (c1 b a) (c2 b a) = ordering_reverse (cmp_then (c1 a b) (c2 a b))"
    using total_cmp.cmp_reverse [OF assms(1), of b a] total_cmp.cmp_reverse [OF assms(2), of b a]
    by (auto simp: cmp_then_def split: ordering.splits)
  assume "cmp_then (c1 a b) (c2 a b) \<noteq> Greater" "cmp_then (c1 b c) (c2 b c) \<noteq> Greater"
  then show "cmp_then (c1 a c) (c2 a c) =
      (if cmp_then (c1 a b) (c2 a b) = Less \<or> cmp_then (c1 b c) (c2 b c) = Less then Less else Equal)"
    using total_cmp.cmp_trans [OF assms(1), of a b c] total_cmp.cmp_trans [OF assms(2), of a b c]
    by (auto simp: cmp_then_def split: ordering.splits if_splits)
qed

lemma key_total: "total_cmp c e \<Longrightarrow> total_cmp (\<lambda>a b. c (f a) (f b)) (\<lambda>a b. e (f a) (f b))"
  unfolding total_cmp_def by blast

text \<open>The last comparison: a version without a pre-release comes after those with one.\<close>

fun semver_opt_cmp :: "semver_pre_release option \<Rightarrow> semver_pre_release option \<Rightarrow> ordering" where
  "semver_opt_cmp None (Some _) = Greater"
| "semver_opt_cmp (Some _) None = Less"
| "semver_opt_cmp None None = Equal"
| "semver_opt_cmp (Some p) (Some q) = semver_pre_release_cmp p q"

lemma semver_opt_total: "total_cmp semver_opt_cmp (=)"
proof
  fix a b c :: "semver_pre_release option"
  show "semver_opt_cmp a b = Equal \<longleftrightarrow> a = b"
    by (cases a; cases b) (simp_all add: semver_pre_release.cmp_equal)
  show "semver_opt_cmp b a = ordering_reverse (semver_opt_cmp a b)"
    by (cases a; cases b) (simp_all add: semver_pre_release.cmp_reverse [symmetric])
  assume "semver_opt_cmp a b \<noteq> Greater" "semver_opt_cmp b c \<noteq> Greater"
  then show "semver_opt_cmp a c = (if semver_opt_cmp a b = Less \<or> semver_opt_cmp b c = Less then Less else Equal)"
    by (cases a; cases b; cases c) (auto dest: semver_pre_release.cmp_trans)
qed

lemma semver_cmp_chain:
  "semver_cmp a b =
     cmp_then (prim_cmp (sv_major a) (sv_major b))
       (cmp_then (prim_cmp (sv_minor a) (sv_minor b))
          (cmp_then (prim_cmp (sv_patch a) (sv_patch b)) (semver_opt_cmp (sv_pre_release a) (sv_pre_release b))))"
proof -
  have "(case (p, q) of (None, Some _) \<Rightarrow> Greater | (Some _, None) \<Rightarrow> Less | (None, None) \<Rightarrow> Equal
      | (Some p, Some q) \<Rightarrow> semver_pre_release_cmp p q) = semver_opt_cmp p q" for p q
    by (cases p; cases q) simp_all
  then show ?thesis unfolding semver_cmp_def cmp_then_def by (simp only: split: ordering.split) simp
qed

interpretation semver: total_cmp semver_cmp semver_eq
proof -
  note total = cmp_then_total [OF key_total [OF prim_cmp_total, of sv_major]
    cmp_then_total [OF key_total [OF prim_cmp_total, of sv_minor]
      cmp_then_total [OF key_total [OF prim_cmp_total, of sv_patch]
        key_total [OF semver_opt_total, of sv_pre_release]]]]
  show "total_cmp semver_cmp semver_eq"
    unfolding semver_cmp_chain [abs_def] semver_eq_def [abs_def] by (rule total)
qed

section \<open>Properties\<close>

lemma result_split:
  "(case q of Err e \<Rightarrow> Err e | Ok a \<Rightarrow> f a) = Ok b \<longleftrightarrow> (\<exists>a. q = Ok a \<and> f a = Ok b)"
  "(case r of Err e \<Rightarrow> Err e | Ok (a, c) \<Rightarrow> g a c) = Ok b \<longleftrightarrow> (\<exists>a c. r = Ok (a, c) \<and> g a c = Ok b)"
  by (cases q; cases r; auto)+

lemma nondigit_start_sep [simp]: "nondigit_start (0x2E # s)"
  by (simp add: nondigit_start_def is_ascii_digit_def)

lemma nondigit_start_suffix: "nondigit_start (semver_suffix_fmt pre build)"
  by (cases pre; cases build) (simp_all add: nondigit_start_def semver_suffix_fmt_def is_ascii_digit_def)

text \<open>
  C30: the parser accepts exactly the texts that \<open>Display\<close> prints for the well-formed
  versions, and returns the version that was printed: it decides SemVer's grammar (numbers in
  range and without leading zeros, non-empty identifiers over letters, digits and hyphens),
  \<open>to_string\<close> of a parsed version is the input, and parsing what is printed gives the version
  back, build metadata included.
\<close>

theorem semver_parse_correct: "semver_parse s = Ok v \<longleftrightarrow> semver_wf v \<and> s = semver_fmt v"
proof -
  have "semver_parse s = Ok v \<longleftrightarrow>
      (\<exists>rest. s = show_nat (unat (sv_major v)) @ 0x2E # show_nat (unat (sv_minor v)) @ 0x2E #
            show_nat (unat (sv_patch v)) @ rest \<and>
          nondigit_start rest \<and> semver_suffix rest = Ok (sv_pre_release v, sv_build v))"
    (is "_ \<longleftrightarrow> ?r")
  proof
    assume "semver_parse s = Ok v"
    then show ?r by (cases v) (auto simp: semver_parse_def result_split semver_number_iff semver_expect_dot_iff
          split: if_splits)
  next
    assume ?r
    then obtain rest where s: "s = show_nat (unat (sv_major v)) @ 0x2E # show_nat (unat (sv_minor v)) @ 0x2E #
        show_nat (unat (sv_patch v)) @ rest" "nondigit_start rest" "semver_suffix rest = Ok (sv_pre_release v, sv_build v)"
      by blast
    have num: "semver_number (show_nat (unat n) @ 0x2E # t) = Ok (n, 0x2E # t)" for n t
      by (simp add: semver_number_iff)
    have "semver_number (show_nat (unat (sv_patch v)) @ rest) = Ok (sv_patch v, rest)"
      using s(2) by (simp add: semver_number_iff)
    with s num show "semver_parse s = Ok v"
      by (simp add: semver_parse_def semver_expect_dot_def)
  qed
  also have "\<dots> \<longleftrightarrow> semver_wf v \<and> s = semver_fmt v"
  proof -
    have "semver_fmt v = show_nat (unat (sv_major v)) @ 0x2E # show_nat (unat (sv_minor v)) @ 0x2E #
        show_nat (unat (sv_patch v)) @ semver_suffix_fmt (sv_pre_release v) (sv_build v)"
      by (simp add: semver_fmt_def semver_suffix_fmt_def split: option.split)
    then show ?thesis by (auto simp: semver_suffix_iff semver_wf_def nondigit_start_suffix)
  qed
  finally show ?thesis .
qed

text \<open>
  The errors of the major number: an empty input, a first byte that is no digit, a
  superfluous zero and a value beyond \<open>u64\<close> are each reported as such, before anything that
  follows the digits is looked at; and then a missing dot.
\<close>

theorem semver_parse_number_errors:
  "semver_parse [] = Err SvEmptyInput \<and>
   (c \<noteq> [] \<and> nondigit_start c \<longrightarrow> semver_parse c = Err SvInvalidCharacter) \<and>
   (ds \<noteq> [] \<and> list_all is_ascii_digit ds \<and> nondigit_start rest \<longrightarrow>
      (\<not> no_leading_zero ds \<longrightarrow> semver_parse (ds @ rest) = Err SvLeadingZero) \<and>
      (no_leading_zero ds \<and> 2 ^ 64 \<le> digits_val ds \<longrightarrow> semver_parse (ds @ rest) = Err SvInvalidNumber) \<and>
      (no_leading_zero ds \<and> digits_val ds < 2 ^ 64 \<and> take 1 rest \<noteq> ascii_bytes ''.'' \<longrightarrow>
         semver_parse (ds @ rest) = Err SvInvalidFormat))"
proof (intro conjI impI)
  show "semver_parse [] = Err SvEmptyInput" by (simp add: semver_parse_def)
  assume "c \<noteq> [] \<and> nondigit_start c"
  then show "semver_parse c = Err SvInvalidCharacter"
    by (cases c) (simp_all add: semver_parse_def semver_number_def semver_check_digits_def nondigit_start_def)
next
  assume ds: "ds \<noteq> [] \<and> list_all is_ascii_digit ds \<and> nondigit_start rest"
  have "find_pos (\<lambda>c. \<not> is_ascii_digit c) (ds @ rest) = (if rest = [] then None else Some (length ds))"
    using ds find_pos_append_free [of "\<lambda>c. \<not> is_ascii_digit c" ds rest]
    by (cases rest) (simp_all add: nondigit_start_def)
  then have "semver_check_digits (ds @ rest) = Ok (length ds)"
    using ds by (simp add: semver_check_digits_def)
  then have num: "semver_number (ds @ rest) =
      (case semver_parse_number ds of Err e \<Rightarrow> Err e | Ok n \<Rightarrow> Ok (n, rest))"
    by (cases "semver_parse_number ds") (simp_all add: semver_number_def)
  have parse: "semver_parse_number ds = (if no_leading_zero ds
      then if digits_val ds < 2 ^ 64 then Ok (word_of_nat (digits_val ds)) else Err SvInvalidNumber
      else Err SvLeadingZero)"
    using ds by (simp add: semver_parse_number_def no_leading_zero_def u64_from_str_digits)
  show "\<not> no_leading_zero ds \<Longrightarrow> semver_parse (ds @ rest) = Err SvLeadingZero"
    using ds num parse by (simp add: semver_parse_def)
  show "no_leading_zero ds \<and> 2 ^ 64 \<le> digits_val ds \<Longrightarrow> semver_parse (ds @ rest) = Err SvInvalidNumber"
    using ds num parse by (simp add: semver_parse_def)
  assume ok: "no_leading_zero ds \<and> digits_val ds < 2 ^ 64 \<and> take 1 rest \<noteq> ascii_bytes ''.''"
  then have "semver_expect_dot rest = Err SvInvalidFormat"
    by (cases rest) (simp_all add: semver_expect_dot_def)
  with ok ds num parse show "semver_parse (ds @ rest) = Err SvInvalidFormat"
    by (simp add: semver_parse_def)
qed

lemma semver_parse_number_errors_witness:
  "semver_parse (ascii_bytes ''x'') = Err SvInvalidCharacter \<and>
   semver_parse (ascii_bytes ''01'' @ ascii_bytes ''.2'') = Err SvLeadingZero \<and>
   semver_parse (ascii_bytes ''18446744073709551616'' @ ascii_bytes ''.2'') = Err SvInvalidNumber \<and>
   semver_parse (ascii_bytes ''1'' @ ascii_bytes ''-2'') = Err SvInvalidFormat"
proof (intro conjI)
  show "semver_parse (ascii_bytes ''x'') = Err SvInvalidCharacter"
    using semver_parse_number_errors [of "ascii_bytes ''x''"] by (simp add: nondigit_start_def is_ascii_digit_def)
  show "semver_parse (ascii_bytes ''01'' @ ascii_bytes ''.2'') = Err SvLeadingZero"
    using semver_parse_number_errors [of "[]" "ascii_bytes ''01''" "ascii_bytes ''.2''"]
    by (simp add: nondigit_start_def is_ascii_digit_def no_leading_zero_def)
  have "2 ^ 64 \<le> digits_val (ascii_bytes ''18446744073709551616'')"
    by (simp add: digits_val_def digit_val_def)
  then show "semver_parse (ascii_bytes ''18446744073709551616'' @ ascii_bytes ''.2'') = Err SvInvalidNumber"
    using semver_parse_number_errors [of "[]" "ascii_bytes ''18446744073709551616''" "ascii_bytes ''.2''"]
    by (simp add: nondigit_start_def is_ascii_digit_def no_leading_zero_def)
  show "semver_parse (ascii_bytes ''1'' @ ascii_bytes ''-2'') = Err SvInvalidFormat"
    using semver_parse_number_errors [of "[]" "ascii_bytes ''1''" "ascii_bytes ''-2''"]
    by (simp add: nondigit_start_def is_ascii_digit_def no_leading_zero_def digits_val_def digit_val_def)
qed

text \<open>
  C32: the precedence is a total order that agrees with the equality (which ignores build
  metadata): \<open>Equal\<close> exactly on equal versions, reversed by swapping, transitive.
\<close>

theorem semver_cmp_total:
  "(semver_cmp a b = Equal \<longleftrightarrow> semver_eq a b) \<and>
   semver_cmp b a = ordering_reverse (semver_cmp a b) \<and>
   (semver_cmp a b = Less \<and> semver_cmp b c \<noteq> Greater \<longrightarrow> semver_cmp a c = Less) \<and>
   semver_cmp (a\<lparr>sv_build := x\<rparr>) b = semver_cmp a b"
proof (intro conjI)
  show "semver_cmp (a\<lparr>sv_build := x\<rparr>) b = semver_cmp a b" by (simp add: semver_cmp_chain)
qed (use semver.cmp_equal [of a b] semver.cmp_reverse [of b a] semver.cmp_trans [of a b c] in simp_all)

lemma semver_cmp_total_witness:
  "let v = (\<lambda>n. \<lparr>sv_major = 1, sv_minor = n, sv_patch = 0, sv_pre_release = None, sv_build = None\<rparr>)
   in semver_cmp (v 1) (v 2) = Less \<and> semver_cmp (v 2) (v 3) \<noteq> Greater \<and> semver_cmp (v 1) (v 3) = Less"
  using semver_cmp_total [of "\<lparr>sv_major = 1, sv_minor = 1, sv_patch = 0, sv_pre_release = None, sv_build = None\<rparr>"
      "\<lparr>sv_major = 1, sv_minor = 2, sv_patch = 0, sv_pre_release = None, sv_build = None\<rparr>"
      "\<lparr>sv_major = 1, sv_minor = 3, sv_patch = 0, sv_pre_release = None, sv_build = None\<rparr>"]
  by (simp add: semver_cmp_def prim_cmp_def)

end
