(* ===== verification/Percent_Encoding.thy ===== *)
theory Percent_Encoding
  imports Rust_Str
begin

text \<open>
  The crate \<open>percent_encoding\<close> (\<open>src/percent_encoding\<close>): the sets of ASCII bytes
  (\<open>ascii_set.rs\<close>), the encoding iterator that alternates between runs of unchanged bytes and
  escapes, and the decoder with its copy-on-write conversions. An iterator is the value that
  \<open>next\<close> takes and returns; a \<open>slice::Iter\<close> is the list of the bytes it has left. The
  lemmas show that an \<open>AsciiSet\<close> is the set of bytes it stands for, that encoding escapes
  exactly the bytes asked for and produces ASCII only (which is what the unchecked
  conversions to \<open>str\<close> rely on), and that decoding inverts it.
\<close>

section \<open>Definitions\<close>

subsection \<open>ASCII sets\<close>

record ascii_set =
  as_mask :: "u32 list"

definition ASCII_RANGE_LEN :: nat where
  "ASCII_RANGE_LEN = 0x80"

definition BITS_PER_CHUNK :: nat where
  "BITS_PER_CHUNK = 8 * 4"

definition ascii_set_EMPTY :: ascii_set where
  "ascii_set_EMPTY = \<lparr>as_mask = replicate (ASCII_RANGE_LEN div BITS_PER_CHUNK) 0\<rparr>"

definition ascii_set_contains :: "ascii_set \<Rightarrow> byte \<Rightarrow> bool option" where
  "ascii_set_contains s byte =
     do {
       chunk \<leftarrow> slice_get (as_mask s) (unat byte div BITS_PER_CHUNK);
       let mask = push_bit (unat byte mod BITS_PER_CHUNK) 1;
       Some (chunk AND mask \<noteq> 0)
     }"

definition should_percent_encode :: "ascii_set \<Rightarrow> byte \<Rightarrow> bool option" where
  "should_percent_encode s byte = (if \<not> is_ascii byte then Some True else ascii_set_contains s byte)"

definition ascii_set_add :: "ascii_set \<Rightarrow> byte \<Rightarrow> ascii_set option" where
  "ascii_set_add s byte =
     do {
       let i = unat byte div BITS_PER_CHUNK;
       chunk \<leftarrow> slice_get (as_mask s) i;
       mask \<leftarrow> slice_set (as_mask s) i (chunk OR push_bit (unat byte mod BITS_PER_CHUNK) 1);
       Some \<lparr>as_mask = mask\<rparr>
     }"

definition ascii_set_remove :: "ascii_set \<Rightarrow> byte \<Rightarrow> ascii_set option" where
  "ascii_set_remove s byte =
     do {
       let i = unat byte div BITS_PER_CHUNK;
       chunk \<leftarrow> slice_get (as_mask s) i;
       mask \<leftarrow> slice_set (as_mask s) i (chunk AND NOT (push_bit (unat byte mod BITS_PER_CHUNK) 1));
       Some \<lparr>as_mask = mask\<rparr>
     }"

definition ascii_set_union :: "ascii_set \<Rightarrow> ascii_set \<Rightarrow> ascii_set option" where
  "ascii_set_union s other =
     do {
       a0 \<leftarrow> slice_get (as_mask s) 0; b0 \<leftarrow> slice_get (as_mask other) 0;
       a1 \<leftarrow> slice_get (as_mask s) 1; b1 \<leftarrow> slice_get (as_mask other) 1;
       a2 \<leftarrow> slice_get (as_mask s) 2; b2 \<leftarrow> slice_get (as_mask other) 2;
       a3 \<leftarrow> slice_get (as_mask s) 3; b3 \<leftarrow> slice_get (as_mask other) 3;
       Some \<lparr>as_mask = [a0 OR b0, a1 OR b1, a2 OR b2, a3 OR b3]\<rparr>
     }"

definition ascii_set_complement :: "ascii_set \<Rightarrow> ascii_set option" where
  "ascii_set_complement s =
     do {
       a0 \<leftarrow> slice_get (as_mask s) 0;
       a1 \<leftarrow> slice_get (as_mask s) 1;
       a2 \<leftarrow> slice_get (as_mask s) 2;
       a3 \<leftarrow> slice_get (as_mask s) 3;
       Some \<lparr>as_mask = [NOT a0, NOT a1, NOT a2, NOT a3]\<rparr>
     }"

definition ascii_set_add_op :: "ascii_set \<Rightarrow> ascii_set \<Rightarrow> ascii_set option" where
  "ascii_set_add_op s other = ascii_set_union s other"

definition ascii_set_not_op :: "ascii_set \<Rightarrow> ascii_set option" where
  "ascii_set_not_op s = ascii_set_complement s"

definition CONTROLS :: ascii_set where
  "CONTROLS = \<lparr>as_mask = [NOT 0, 0, 0, push_bit (0x7F mod 32) 1]\<rparr>"

primrec ascii_set_add_all :: "ascii_set \<Rightarrow> byte list \<Rightarrow> ascii_set option" where
  "ascii_set_add_all s [] = Some s"
| "ascii_set_add_all s (b # bs) = do { s \<leftarrow> ascii_set_add s b; ascii_set_add_all s bs }"

definition NON_ALPHANUMERIC :: "ascii_set option" where
  "NON_ALPHANUMERIC = ascii_set_add_all CONTROLS
     (ascii_bytes ('' !'' @ [CHR 0x22] @ ''#$%&'' @ [CHR 0x27] @ ''()*+,-./:;<=>?@['' @ [CHR 0x5C] @
        '']^_'' @ [CHR 0x60] @ ''{|}~''))"

subsection \<open>Encoding\<close>

definition PERCENT_ENC_TABLE :: "byte list" where
  "PERCENT_ENC_TABLE = ascii_bytes (
     ''%00%01%02%03%04%05%06%07%08%09%0A%0B%0C%0D%0E%0F'' @
     ''%10%11%12%13%14%15%16%17%18%19%1A%1B%1C%1D%1E%1F'' @
     ''%20%21%22%23%24%25%26%27%28%29%2A%2B%2C%2D%2E%2F'' @
     ''%30%31%32%33%34%35%36%37%38%39%3A%3B%3C%3D%3E%3F'' @
     ''%40%41%42%43%44%45%46%47%48%49%4A%4B%4C%4D%4E%4F'' @
     ''%50%51%52%53%54%55%56%57%58%59%5A%5B%5C%5D%5E%5F'' @
     ''%60%61%62%63%64%65%66%67%68%69%6A%6B%6C%6D%6E%6F'' @
     ''%70%71%72%73%74%75%76%77%78%79%7A%7B%7C%7D%7E%7F'' @
     ''%80%81%82%83%84%85%86%87%88%89%8A%8B%8C%8D%8E%8F'' @
     ''%90%91%92%93%94%95%96%97%98%99%9A%9B%9C%9D%9E%9F'' @
     ''%A0%A1%A2%A3%A4%A5%A6%A7%A8%A9%AA%AB%AC%AD%AE%AF'' @
     ''%B0%B1%B2%B3%B4%B5%B6%B7%B8%B9%BA%BB%BC%BD%BE%BF'' @
     ''%C0%C1%C2%C3%C4%C5%C6%C7%C8%C9%CA%CB%CC%CD%CE%CF'' @
     ''%D0%D1%D2%D3%D4%D5%D6%D7%D8%D9%DA%DB%DC%DD%DE%DF'' @
     ''%E0%E1%E2%E3%E4%E5%E6%E7%E8%E9%EA%EB%EC%ED%EE%EF'' @
     ''%F0%F1%F2%F3%F4%F5%F6%F7%F8%F9%FA%FB%FC%FD%FE%FF'')"

definition percent_encode_byte :: "byte \<Rightarrow> byte list" where
  "percent_encode_byte byte = (let index = unat byte * 3 in take 3 (drop index PERCENT_ENC_TABLE))"

record percent_encode =
  pe_bytes :: "byte list"
  pe_ascii_set :: ascii_set

definition percent_encode_new :: "byte list \<Rightarrow> ascii_set \<Rightarrow> percent_encode" where
  "percent_encode_new input s = \<lparr>pe_bytes = input, pe_ascii_set = s\<rparr>"

definition utf8_percent_encode :: "byte list \<Rightarrow> ascii_set \<Rightarrow> percent_encode" where
  "utf8_percent_encode input s = percent_encode_new input s"

text \<open>The search for the next byte to encode; \<open>Some None\<close> when there is none.\<close>

fun percent_encode_scan :: "ascii_set \<Rightarrow> nat \<Rightarrow> byte list \<Rightarrow> nat option option" where
  "percent_encode_scan s i [] = Some None"
| "percent_encode_scan s i (b # bs) =
     do { enc \<leftarrow> should_percent_encode s b; if enc then Some (Some i) else percent_encode_scan s (i + 1) bs }"

definition percent_encode_next :: "percent_encode \<Rightarrow> (percent_encode \<times> byte list option) option" where
  "percent_encode_next it =
     (case pe_bytes it of
        [] \<Rightarrow> Some (it, None)
      | first_byte # remaining \<Rightarrow>
          do {
            enc \<leftarrow> should_percent_encode (pe_ascii_set it) first_byte;
            if enc then Some (it\<lparr>pe_bytes := remaining\<rparr>, Some (percent_encode_byte first_byte))
            else do {
              pos \<leftarrow> percent_encode_scan (pe_ascii_set it) 0 remaining;
              case pos of
                Some i \<Rightarrow> Some (it\<lparr>pe_bytes := drop (1 + i) (pe_bytes it)\<rparr>, Some (take (1 + i) (pe_bytes it)))
              | None \<Rightarrow> Some (it\<lparr>pe_bytes := []\<rparr>, Some (pe_bytes it))
            }
          })"

definition percent_encode_size_hint :: "percent_encode \<Rightarrow> nat \<times> nat option" where
  "percent_encode_size_hint it = (if pe_bytes it = [] then (0, Some 0) else (1, Some (length (pe_bytes it))))"

lemma percent_encode_next_shorter:
  "percent_encode_next it = Some (it', Some s) \<Longrightarrow> length (pe_bytes it') < length (pe_bytes it)"
  by (auto simp: percent_encode_next_def split: list.splits bind_splits if_splits option.splits)

text \<open>Collecting an iterator: the pieces \<open>next\<close> returns until it returns \<open>None\<close>.\<close>

function percent_encode_collect :: "percent_encode \<Rightarrow> byte list list option" where
  "percent_encode_collect it =
     (case percent_encode_next it of
        None \<Rightarrow> None
      | Some (it', None) \<Rightarrow> Some []
      | Some (it', Some s) \<Rightarrow> map_option ((#) s) (percent_encode_collect it'))"
  by pat_completeness auto
termination
  by (relation "measure (\<lambda>it. length (pe_bytes it))") (auto intro: percent_encode_next_shorter)

declare percent_encode_collect.simps [simp del]

definition percent_encode_fmt :: "percent_encode \<Rightarrow> byte list option" where
  "percent_encode_fmt it = map_option concat (percent_encode_collect it)"

datatype 'a cow = Borrowed 'a | Owned 'a

fun cow_get :: "'a cow \<Rightarrow> 'a" where
  "cow_get (Borrowed a) = a"
| "cow_get (Owned a) = a"

definition percent_encode_into_cow :: "percent_encode \<Rightarrow> byte list cow option" where
  "percent_encode_into_cow iter =
     (case percent_encode_next iter of
        None \<Rightarrow> None
      | Some (iter, None) \<Rightarrow> Some (Borrowed [])
      | Some (iter, Some first) \<Rightarrow>
          (case percent_encode_next iter of
             None \<Rightarrow> None
           | Some (iter, None) \<Rightarrow> Some (Borrowed first)
           | Some (iter, Some second) \<Rightarrow>
               do { rest \<leftarrow> percent_encode_collect iter; Some (Owned (first @ second @ concat rest)) }))"

subsection \<open>Decoding\<close>

text \<open>\<open>char::to_digit(16)\<close>.\<close>

definition to_digit_16 :: "byte \<Rightarrow> byte option" where
  "to_digit_16 c =
     (if ascii CHR ''0'' \<le> c \<and> c \<le> ascii CHR ''9'' then Some (c - ascii CHR ''0'')
      else if ascii CHR ''a'' \<le> c \<and> c \<le> ascii CHR ''f'' then Some (c - ascii CHR ''a'' + 10)
      else if ascii CHR ''A'' \<le> c \<and> c \<le> ascii CHR ''F'' then Some (c - ascii CHR ''A'' + 10)
      else None)"

text \<open>The iterator is left where it was when no two hexadecimal digits follow.\<close>

definition after_percent_sign :: "byte list \<Rightarrow> (byte \<times> byte list) option" where
  "after_percent_sign iter =
     (case iter of
        hc # lc # rest \<Rightarrow> do { h \<leftarrow> to_digit_16 hc; l \<leftarrow> to_digit_16 lc; Some (h * 0x10 + l, rest) }
      | _ \<Rightarrow> None)"

record percent_decode =
  pd_bytes :: "byte list"

definition percent_decode_new :: "byte list \<Rightarrow> percent_decode" where
  "percent_decode_new input = \<lparr>pd_bytes = input\<rparr>"

definition percent_decode_str :: "byte list \<Rightarrow> percent_decode" where
  "percent_decode_str input = percent_decode_new input"

definition percent_decode_next :: "percent_decode \<Rightarrow> (percent_decode \<times> byte) option" where
  "percent_decode_next it =
     (case pd_bytes it of
        [] \<Rightarrow> None
      | byte # rest \<Rightarrow>
          Some (if byte = ascii CHR ''%''
                then (case after_percent_sign rest of
                        Some (b, rest') \<Rightarrow> (\<lparr>pd_bytes = rest'\<rparr>, b)
                      | None \<Rightarrow> (\<lparr>pd_bytes = rest\<rparr>, byte))
                else (\<lparr>pd_bytes = rest\<rparr>, byte)))"

definition percent_decode_size_hint :: "percent_decode \<Rightarrow> nat \<times> nat option" where
  "percent_decode_size_hint it = (let bytes = length (pd_bytes it) in ((bytes + 2) div 3, Some bytes))"

lemma after_percent_sign_length: "after_percent_sign xs = Some (b, ys) \<Longrightarrow> length xs = length ys + 2"
  by (auto simp: after_percent_sign_def split: list.splits bind_splits)

lemma percent_decode_next_shorter:
  "percent_decode_next it = Some (it', b) \<Longrightarrow> length (pd_bytes it') < length (pd_bytes it)"
  by (auto simp: percent_decode_next_def split: list.splits if_splits option.splits dest: after_percent_sign_length)

function percent_decode_collect :: "percent_decode \<Rightarrow> byte list" where
  "percent_decode_collect it =
     (case percent_decode_next it of None \<Rightarrow> [] | Some (it', b) \<Rightarrow> b # percent_decode_collect it')"
  by pat_completeness auto
termination
  by (relation "measure (\<lambda>it. length (pd_bytes it))") (auto intro: percent_decode_next_shorter)

declare percent_decode_collect.simps [simp del]

text \<open>
  The loop of \<open>if_any\<close>: \<open>any\<close> consumes the bytes up to and including the next percent sign.
\<close>

function percent_if_any_loop :: "byte list \<Rightarrow> byte list \<Rightarrow> byte list option" where
  "percent_if_any_loop initial_bytes iter =
     (case find_pos (\<lambda>b. b = ascii CHR ''%'') iter of
        None \<Rightarrow> None
      | Some i \<Rightarrow>
          (case after_percent_sign (drop (i + 1) iter) of
             Some (decoded_byte, bytes_iter) \<Rightarrow>
               (let unchanged_bytes_len = length initial_bytes - length bytes_iter - 3
                in Some (take unchanged_bytes_len initial_bytes @ [decoded_byte] @
                     percent_decode_collect \<lparr>pd_bytes = bytes_iter\<rparr>))
           | None \<Rightarrow> percent_if_any_loop initial_bytes (drop (i + 1) iter)))"
  by pat_completeness auto
termination
proof (relation "measure (\<lambda>(ini, iter). length iter)")
  fix ini iter :: "byte list" and i
  assume "find_pos (\<lambda>b. b = ascii CHR ''%'') iter = Some i"
  then have "iter \<noteq> []" by (cases iter) auto
  then show "((ini, drop (i + 1) iter), ini, iter) \<in> measure (\<lambda>(ini, iter). length iter)" by simp
qed simp

declare percent_if_any_loop.simps [simp del]

definition percent_if_any :: "percent_decode \<Rightarrow> byte list option" where
  "percent_if_any it = percent_if_any_loop (pd_bytes it) (pd_bytes it)"

definition percent_decode_into_cow :: "percent_decode \<Rightarrow> byte list cow" where
  "percent_decode_into_cow iter = (case percent_if_any iter of Some v \<Rightarrow> Owned v | None \<Rightarrow> Borrowed (pd_bytes iter))"

definition percent_decode_utf8 :: "percent_decode \<Rightarrow> (utf8_error, byte list cow) result" where
  "percent_decode_utf8 it =
     (case percent_decode_into_cow it of
        Borrowed bytes \<Rightarrow> (case from_utf8 bytes of Ok s \<Rightarrow> Ok (Borrowed s) | Err e \<Rightarrow> Err e)
      | Owned bytes \<Rightarrow> (case from_utf8 bytes of Ok s \<Rightarrow> Ok (Owned s) | Err e \<Rightarrow> Err e))"

text \<open>\<open>String::from_utf8_lossy\<close> borrows its argument when it is valid.\<close>

definition from_utf8_lossy_cow :: "byte list \<Rightarrow> byte list cow" where
  "from_utf8_lossy_cow bytes = (if utf8_valid bytes then Borrowed bytes else Owned (from_utf8_lossy bytes))"

definition decode_utf8_lossy :: "byte list cow \<Rightarrow> byte list cow" where
  "decode_utf8_lossy input =
     (case input of
        Borrowed bytes \<Rightarrow> from_utf8_lossy_cow bytes
      | Owned bytes \<Rightarrow>
          (case from_utf8_lossy_cow bytes of
             Borrowed utf8 \<Rightarrow> Owned bytes
           | Owned s \<Rightarrow> Owned s))"

definition percent_decode_utf8_lossy :: "percent_decode \<Rightarrow> byte list cow" where
  "percent_decode_utf8_lossy it = decode_utf8_lossy (percent_decode_into_cow it)"

section \<open>ASCII sets are sets of bytes\<close>

definition ascii_set_wf :: "ascii_set \<Rightarrow> bool" where
  "ascii_set_wf s \<longleftrightarrow> length (as_mask s) = ASCII_RANGE_LEN div BITS_PER_CHUNK"

definition ascii_set_bytes :: "ascii_set \<Rightarrow> byte set" where
  "ascii_set_bytes s = {b. is_ascii b \<and> ascii_set_contains s b = Some True}"

lemma ascii_set_wf_length: "ascii_set_wf s \<longleftrightarrow> length (as_mask s) = 4"
  by (simp add: ascii_set_wf_def ASCII_RANGE_LEN_def BITS_PER_CHUNK_def)

lemma ascii_index: "is_ascii b \<Longrightarrow> unat b div 32 < 4"
  by (simp add: is_ascii_def word_less_nat_alt)

lemma ascii_set_contains_bit:
  assumes "ascii_set_wf s" and "is_ascii b"
  shows "ascii_set_contains s b = Some (bit (as_mask s ! (unat b div 32)) (unat b mod 32))"
  using assms ascii_index [of b]
  by (simp add: ascii_set_contains_def slice_get_def BITS_PER_CHUNK_def ascii_set_wf_length push_bit_of_1
      and_exp_eq_0_iff_not_bit)

lemma ascii_set_bytes_bit:
  "ascii_set_wf s \<Longrightarrow> b \<in> ascii_set_bytes s \<longleftrightarrow> is_ascii b \<and> bit (as_mask s ! (unat b div 32)) (unat b mod 32)"
  by (auto simp: ascii_set_bytes_def ascii_set_contains_bit)

lemma ascii_position: "b = c \<longleftrightarrow> unat b div 32 = unat c div 32 \<and> unat b mod 32 = unat (c :: byte) mod 32"
  by (metis div_mod_decomp word_unat_eq_iff)

lemma ascii_set_add_wf:
  assumes "ascii_set_wf s" and "is_ascii b"
  obtains t where "ascii_set_add s b = Some t" "ascii_set_wf t" "ascii_set_bytes t = insert b (ascii_set_bytes s)"
proof -
  let ?i = "unat b div 32" and ?k = "unat b mod 32"
  define t where "t = \<lparr>as_mask = (as_mask s)[?i := as_mask s ! ?i OR push_bit ?k 1]\<rparr>"
  have i: "?i < length (as_mask s)" using assms ascii_index by (simp add: ascii_set_wf_length)
  then have "ascii_set_add s b = Some t"
    by (simp add: ascii_set_add_def slice_get_def slice_set_def BITS_PER_CHUNK_def t_def Let_def)
  moreover have wf: "ascii_set_wf t" using assms(1) by (simp add: t_def ascii_set_wf_length)
  moreover have "ascii_set_bytes t = insert b (ascii_set_bytes s)"
  proof (rule set_eqI)
    fix c
    show "c \<in> ascii_set_bytes t \<longleftrightarrow> c \<in> insert b (ascii_set_bytes s)"
      using i assms ascii_position [of c b]
      unfolding insert_iff ascii_set_bytes_bit [OF wf] ascii_set_bytes_bit [OF assms(1)]
      by (auto simp: t_def nth_list_update bit_or_iff push_bit_of_1 bit_exp_iff)
  qed
  ultimately show ?thesis by (rule that)
qed

lemma ascii_set_remove_wf:
  assumes "ascii_set_wf s" and "is_ascii b"
  obtains t where "ascii_set_remove s b = Some t" "ascii_set_wf t" "ascii_set_bytes t = ascii_set_bytes s - {b}"
proof -
  let ?i = "unat b div 32" and ?k = "unat b mod 32"
  define t where "t = \<lparr>as_mask = (as_mask s)[?i := as_mask s ! ?i AND NOT (push_bit ?k 1)]\<rparr>"
  have i: "?i < length (as_mask s)" using assms ascii_index by (simp add: ascii_set_wf_length)
  then have "ascii_set_remove s b = Some t"
    by (simp add: ascii_set_remove_def slice_get_def slice_set_def BITS_PER_CHUNK_def t_def Let_def)
  moreover have wf: "ascii_set_wf t" using assms(1) by (simp add: t_def ascii_set_wf_length)
  moreover have "ascii_set_bytes t = ascii_set_bytes s - {b}"
  proof (rule set_eqI)
    fix c
    show "c \<in> ascii_set_bytes t \<longleftrightarrow> c \<in> ascii_set_bytes s - {b}"
      using i assms ascii_position [of c b]
      unfolding Diff_iff ascii_set_bytes_bit [OF wf] ascii_set_bytes_bit [OF assms(1)]
      by (auto simp: t_def nth_list_update bit_and_iff bit_not_iff push_bit_of_1 bit_exp_iff)
  qed
  ultimately show ?thesis by (rule that)
qed

lemma ascii_set_chunks:
  assumes "ascii_set_wf s"
  obtains a b c d where "s = \<lparr>as_mask = [a, b, c, d]\<rparr>"
  using assms length_eq_4 [of "as_mask s"] by (cases s) (auto simp: ascii_set_wf_length)

lemma ascii_chunk_cases: "is_ascii b \<Longrightarrow> unat b div 32 = 0 \<or> unat b div 32 = 1 \<or> unat b div 32 = 2 \<or> unat b div 32 = 3"
  using ascii_index [of b] by linarith

lemma ascii_set_union_wf:
  assumes "ascii_set_wf s" and "ascii_set_wf t"
  obtains u where "ascii_set_union s t = Some u" "ascii_set_wf u" "ascii_set_bytes u = ascii_set_bytes s \<union> ascii_set_bytes t"
proof -
  obtain a b c d where s: "s = \<lparr>as_mask = [a, b, c, d]\<rparr>" using assms(1) by (rule ascii_set_chunks)
  obtain a' b' c' d' where t: "t = \<lparr>as_mask = [a', b', c', d']\<rparr>" using assms(2) by (rule ascii_set_chunks)
  define u where "u = \<lparr>as_mask = [a OR a', b OR b', c OR c', d OR d']\<rparr>"
  have "ascii_set_union s t = Some u" by (simp add: s t u_def ascii_set_union_def slice_get_def)
  moreover have wf: "ascii_set_wf u" by (simp add: u_def ascii_set_wf_length)
  moreover have "ascii_set_bytes u = ascii_set_bytes s \<union> ascii_set_bytes t"
  proof (rule set_eqI)
    fix x
    show "x \<in> ascii_set_bytes u \<longleftrightarrow> x \<in> ascii_set_bytes s \<union> ascii_set_bytes t"
      using ascii_chunk_cases [of x]
      unfolding Un_iff ascii_set_bytes_bit [OF wf] ascii_set_bytes_bit [OF assms(1)] ascii_set_bytes_bit [OF assms(2)]
      by (auto simp: u_def s t bit_or_iff numeral_2_eq_2 numeral_3_eq_3)
  qed
  ultimately show ?thesis by (rule that)
qed

lemma ascii_set_complement_wf:
  assumes "ascii_set_wf s"
  obtains u where "ascii_set_complement s = Some u" "ascii_set_wf u" "ascii_set_bytes u = {b. is_ascii b} - ascii_set_bytes s"
proof -
  obtain a b c d where s: "s = \<lparr>as_mask = [a, b, c, d]\<rparr>" using assms(1) by (rule ascii_set_chunks)
  define u where "u = \<lparr>as_mask = [NOT a, NOT b, NOT c, NOT d]\<rparr>"
  have "ascii_set_complement s = Some u" by (simp add: s u_def ascii_set_complement_def slice_get_def)
  moreover have wf: "ascii_set_wf u" by (simp add: u_def ascii_set_wf_length)
  moreover have "ascii_set_bytes u = {b. is_ascii b} - ascii_set_bytes s"
  proof (rule set_eqI)
    fix x :: byte
    have "is_ascii x \<Longrightarrow> as_mask u ! (unat x div 32) = NOT (as_mask s ! (unat x div 32))"
      using ascii_chunk_cases [of x] by (auto simp: u_def s numeral_2_eq_2 numeral_3_eq_3)
    then show "x \<in> ascii_set_bytes u \<longleftrightarrow> x \<in> {b. is_ascii b} - ascii_set_bytes s"
      unfolding Diff_iff ascii_set_bytes_bit [OF wf] ascii_set_bytes_bit [OF assms]
      by (cases "is_ascii x") (simp_all add: bit_not_iff)
  qed
  ultimately show ?thesis by (rule that)
qed

lemma CONTROLS_wf: "ascii_set_wf CONTROLS"
  by (simp add: CONTROLS_def ascii_set_wf_length)

lemma CONTROLS_bytes: "ascii_set_bytes CONTROLS = {b. b < 0x20} \<union> {0x7F}"
proof -
  have "byte_all (\<lambda>b. (b < 0x80 \<and> ascii_set_contains CONTROLS b = Some True) = (b < 0x20 \<or> b = 0x7F))" by code_simp
  from byte_allD [OF this] show ?thesis by (auto simp: ascii_set_bytes_def is_ascii_def)
qed

lemma NON_ALPHANUMERIC_mask:
  "NON_ALPHANUMERIC = Some \<lparr>as_mask = [0xFFFFFFFF, 0xFC00FFFF, 0xF8000001, 0xF8000001]\<rparr>"
  by code_simp

lemma NON_ALPHANUMERIC_bytes:
  "\<exists>u. NON_ALPHANUMERIC = Some u \<and> ascii_set_wf u \<and> ascii_set_bytes u = {b. is_ascii b \<and> \<not> is_ascii_alphanumeric b}"
proof -
  let ?u = "\<lparr>as_mask = [0xFFFFFFFF, 0xFC00FFFF, 0xF8000001, 0xF8000001]\<rparr>"
  have "byte_all (\<lambda>b. (is_ascii b \<and> ascii_set_contains ?u b = Some True) = (is_ascii b \<and> \<not> is_ascii_alphanumeric b))"
    by code_simp
  from byte_allD [OF this] have "ascii_set_bytes ?u = {b. is_ascii b \<and> \<not> is_ascii_alphanumeric b}"
    by (auto simp: ascii_set_bytes_def)
  moreover have "ascii_set_wf ?u" by (simp add: ascii_set_wf_length)
  ultimately show ?thesis using NON_ALPHANUMERIC_mask by blast
qed

section \<open>The runs of the encoder\<close>

text \<open>The escape of a byte: the percent sign and two upper-case hexadecimal digits.\<close>

definition upper_digit :: "nat \<Rightarrow> byte" where
  "upper_digit n = (if n < 10 then ascii CHR ''0'' + word_of_nat n else ascii CHR ''A'' + word_of_nat (n - 10))"

lemma take_drop_concat:
  "i < length xss \<Longrightarrow> \<forall>xs \<in> set xss. length xs = k \<Longrightarrow> take k (drop (i * k) (concat xss)) = xss ! i"
proof (induction xss arbitrary: i)
  case (Cons xs xss)
  then show ?case by (cases i) simp_all
qed simp

definition percent_escapes :: "byte list list" where
  "percent_escapes = map (\<lambda>k. [0x25, upper_digit (k div 16), upper_digit (k mod 16)]) [0..<256]"

lemma percent_table_escapes: "PERCENT_ENC_TABLE = concat percent_escapes"
  by code_simp

lemma percent_encode_byte_eq:
  "percent_encode_byte b = [0x25, upper_digit (unat b div 16), upper_digit (unat b mod 16)]"
proof -
  have "percent_encode_byte b = percent_escapes ! unat b"
    unfolding percent_encode_byte_def percent_table_escapes Let_def
    by (rule take_drop_concat) (auto simp: percent_escapes_def)
  then show ?thesis by (simp add: percent_escapes_def)
qed

lemma upper_digit_16:
  "n < 16 \<Longrightarrow> to_digit_16 (upper_digit n) = Some (word_of_nat n) \<and> is_ascii (upper_digit n)"
proof -
  assume "n < 16"
  moreover have "\<forall>n \<in> set [0..<16]. to_digit_16 (upper_digit n) = Some (word_of_nat n) \<and> is_ascii (upper_digit n)"
    by code_simp
  ultimately show ?thesis by auto
qed

lemma percent_encode_byte_ascii: "c \<in> set (percent_encode_byte b) \<Longrightarrow> is_ascii c"
  using upper_digit_16 [of "unat b div 16"] upper_digit_16 [of "unat b mod 16"]
  by (auto simp: percent_encode_byte_eq is_ascii_def less_mult_imp_div_less)

text \<open>
  The contract of an encoder that yields pieces: an escape for a byte that must be encoded,
  else the longest run of bytes that are kept. Both the percent-encoder and the serializer
  of forms are such encoders.
\<close>

locale run_encoder =
  fixes should :: "byte \<Rightarrow> bool"
    and enc :: "byte \<Rightarrow> byte list"
    and step :: "byte list \<Rightarrow> (byte list \<times> byte list) option"
    and pieces :: "byte list \<Rightarrow> byte list list"
  assumes step_nil: "step [] = None"
    and step_enc: "should b \<Longrightarrow> step (b # bs) = Some (enc b, bs)"
    and step_run: "\<not> should b \<Longrightarrow>
      step (b # bs) = Some (b # takeWhile (\<lambda>c. \<not> should c) bs, dropWhile (\<lambda>c. \<not> should c) bs)"
    and pieces_step: "pieces xs = (case step xs of None \<Rightarrow> [] | Some (p, rest) \<Rightarrow> p # pieces rest)"
    and enc_ascii: "c \<in> set (enc b) \<Longrightarrow> is_ascii c"
    and enc_nonempty: "enc b \<noteq> []"
    and kept_ascii: "\<not> should b \<Longrightarrow> is_ascii b"
begin

definition encoding :: "byte list \<Rightarrow> byte list" where
  "encoding xs = concat (map (\<lambda>b. if should b then enc b else [b]) xs)"

lemma encoding_simps [simp]:
  "encoding [] = []"
  "encoding (b # xs) = (if should b then enc b else [b]) @ encoding xs"
  "encoding (xs @ ys) = encoding xs @ encoding ys"
  by (simp_all add: encoding_def)

lemma encoding_kept: "\<forall>b \<in> set xs. \<not> should b \<Longrightarrow> encoding xs = xs"
  by (induction xs) simp_all

lemma pieces_nil [simp]: "pieces [] = []"
  using pieces_step [of "[]"] by (simp add: step_nil)

lemma pieces_props:
  "concat (pieces xs) = encoding xs \<and> length (pieces xs) \<le> length xs \<and>
   (\<forall>p \<in> set (pieces xs). p \<noteq> [] \<and> (\<forall>c \<in> set p. is_ascii c))"
proof (induction xs rule: length_induct)
  case (1 xs)
  show ?case
  proof (cases xs)
    case (Cons b bs)
    show ?thesis
    proof (cases "should b")
      case True
      then show ?thesis using 1 Cons pieces_step [of xs]
        by (auto simp: step_enc enc_nonempty dest: enc_ascii)
    next
      case False
      let ?run = "takeWhile (\<lambda>c. \<not> should c) bs" and ?rest = "dropWhile (\<lambda>c. \<not> should c) bs"
      have run: "\<forall>c \<in> set ?run. \<not> should c" by (auto dest: set_takeWhileD)
      have "length ?rest < length xs" using Cons length_dropWhile_le [of "\<lambda>c. \<not> should c" bs] by simp
      with 1 have IH: "concat (pieces ?rest) = encoding ?rest" "length (pieces ?rest) \<le> length ?rest"
        "\<forall>p \<in> set (pieces ?rest). p \<noteq> [] \<and> (\<forall>c \<in> set p. is_ascii c)" by blast+
      have "encoding bs = ?run @ encoding ?rest"
        using encoding_simps(3) [of ?run ?rest] encoding_kept [OF run] by simp
      then show ?thesis using False run IH Cons pieces_step [of xs] kept_ascii
          length_dropWhile_le [of "\<lambda>c. \<not> should c" bs]
        by (auto simp: step_run)
    qed
  qed simp
qed

lemma pieces_empty: "pieces xs = [] \<longleftrightarrow> xs = []"
proof (cases xs)
  case (Cons b bs)
  then show ?thesis using pieces_step [of xs] by (cases "should b") (simp_all add: step_enc step_run)
qed simp

text \<open>No piece, or one run: the input itself.\<close>

lemma pieces_at_most_one: "list_all (\<lambda>b. \<not> should b) xs \<Longrightarrow> xs \<noteq> [] \<Longrightarrow> pieces xs = [xs]"
proof (cases xs)
  case (Cons b bs)
  assume "list_all (\<lambda>b. \<not> should b) xs"
  then have kept: "\<not> should b" and run: "takeWhile (\<lambda>c. \<not> should c) bs = bs" "dropWhile (\<lambda>c. \<not> should c) bs = []"
    using Cons by (auto simp: list_all_iff takeWhile_eq_all_conv)
  show ?thesis using pieces_step [of xs] unfolding Cons step_run [OF kept] run by simp
qed simp

end

text \<open>A decoder for such an encoder, and that it inverts the encoding.\<close>

locale run_codec = run_encoder +
  fixes dec :: "byte list \<Rightarrow> byte list"
  assumes dec_nil: "dec [] = []"
    and dec_enc: "should b \<Longrightarrow> dec (enc b @ xs) = b # dec xs"
    and dec_kept: "\<not> should b \<Longrightarrow> dec (b # xs) = b # dec xs"
begin

lemma dec_encoding: "dec (encoding xs) = xs"
  by (induction xs) (simp_all add: dec_nil dec_enc dec_kept)

end


section \<open>The percent-encoder is such a codec\<close>

definition percent_should :: "ascii_set \<Rightarrow> byte \<Rightarrow> bool" where
  "percent_should s b \<longleftrightarrow> should_percent_encode s b = Some True"

definition percent_step :: "ascii_set \<Rightarrow> byte list \<Rightarrow> (byte list \<times> byte list) option" where
  "percent_step s bs =
     (case percent_encode_next \<lparr>pe_bytes = bs, pe_ascii_set = s\<rparr> of
        Some (it, Some p) \<Rightarrow> Some (p, pe_bytes it) | _ \<Rightarrow> None)"

definition percent_pieces :: "ascii_set \<Rightarrow> byte list \<Rightarrow> byte list list" where
  "percent_pieces s bs =
     (case percent_encode_collect \<lparr>pe_bytes = bs, pe_ascii_set = s\<rparr> of Some ps \<Rightarrow> ps | None \<Rightarrow> [])"

lemma should_percent_encode_wf: "ascii_set_wf s \<Longrightarrow> should_percent_encode s b = Some (percent_should s b)"
  by (auto simp: percent_should_def should_percent_encode_def ascii_set_contains_bit)

lemma percent_should_iff: "percent_should s b \<longleftrightarrow> \<not> is_ascii b \<or> b \<in> ascii_set_bytes s"
  by (auto simp: percent_should_def should_percent_encode_def ascii_set_bytes_def)

lemma percent_encode_scan_wf:
  "ascii_set_wf s \<Longrightarrow> percent_encode_scan s i bs = Some (map_option (\<lambda>k. i + k) (find_pos (percent_should s) bs))"
proof (induction bs arbitrary: i)
  case (Cons b bs)
  then show ?case by (cases "find_pos (percent_should s) bs") (simp_all add: should_percent_encode_wf)
qed simp

lemma percent_encode_next_wf:
  assumes "ascii_set_wf s"
  shows "percent_encode_next \<lparr>pe_bytes = bs, pe_ascii_set = s\<rparr> =
    Some (case bs of
            [] \<Rightarrow> (\<lparr>pe_bytes = [], pe_ascii_set = s\<rparr>, None)
          | b # rest \<Rightarrow>
              if percent_should s b then (\<lparr>pe_bytes = rest, pe_ascii_set = s\<rparr>, Some (percent_encode_byte b))
              else (\<lparr>pe_bytes = dropWhile (\<lambda>c. \<not> percent_should s c) rest, pe_ascii_set = s\<rparr>,
                    Some (b # takeWhile (\<lambda>c. \<not> percent_should s c) rest)))"
proof (cases bs)
  case (Cons b rest)
  then show ?thesis
    using take_find_pos [where p = "percent_should s" and xs = rest]
    by (cases "find_pos (percent_should s) rest")
      (simp_all add: percent_encode_next_def should_percent_encode_wf [OF assms] percent_encode_scan_wf [OF assms])
qed (simp add: percent_encode_next_def)

lemma percent_step_wf:
  "ascii_set_wf s \<Longrightarrow> percent_step s bs =
    (case bs of
       [] \<Rightarrow> None
     | b # rest \<Rightarrow>
         if percent_should s b then Some (percent_encode_byte b, rest)
         else Some (b # takeWhile (\<lambda>c. \<not> percent_should s c) rest, dropWhile (\<lambda>c. \<not> percent_should s c) rest))"
  by (simp add: percent_step_def percent_encode_next_wf split: list.split)

lemma percent_encode_collect_step:
  assumes "ascii_set_wf s"
  shows "percent_encode_collect \<lparr>pe_bytes = bs, pe_ascii_set = s\<rparr> =
    (case percent_step s bs of
       None \<Rightarrow> Some []
     | Some (p, rest) \<Rightarrow> map_option ((#) p) (percent_encode_collect \<lparr>pe_bytes = rest, pe_ascii_set = s\<rparr>))"
  by (subst percent_encode_collect.simps)
    (simp add: percent_step_wf [OF assms] percent_encode_next_wf [OF assms] split: list.split)

lemma percent_encode_collect_wf:
  assumes "ascii_set_wf s"
  shows "percent_encode_collect \<lparr>pe_bytes = bs, pe_ascii_set = s\<rparr> = Some (percent_pieces s bs)"
proof -
  have "\<exists>ps. percent_encode_collect \<lparr>pe_bytes = bs, pe_ascii_set = s\<rparr> = Some ps"
  proof (induction bs rule: length_induct)
    case (1 bs)
    show ?case
    proof (cases "percent_step s bs")
      case (Some pr)
      obtain p rest where pr: "pr = (p, rest)" by fastforce
      then have "length rest < length bs"
        using Some length_dropWhile_le [of "\<lambda>c. \<not> percent_should s c" "tl bs"]
        by (auto simp: percent_step_wf [OF assms] split: list.splits if_splits)
      with 1 Some pr show ?thesis by (subst percent_encode_collect_step [OF assms]) fastforce
    qed (simp add: percent_encode_collect_step [OF assms])
  qed
  then show ?thesis by (auto simp: percent_pieces_def)
qed

lemma percent_pieces_step:
  assumes "ascii_set_wf s"
  shows "percent_pieces s bs = (case percent_step s bs of None \<Rightarrow> [] | Some (p, rest) \<Rightarrow> p # percent_pieces s rest)"
  using percent_encode_collect_step [OF assms, of bs] percent_encode_collect_wf [OF assms]
  by (simp split: option.splits prod.splits)

interpretation percent: run_encoder "percent_should \<lparr>as_mask = [m0, m1, m2, m3]\<rparr>" percent_encode_byte
  "percent_step \<lparr>as_mask = [m0, m1, m2, m3]\<rparr>" "percent_pieces \<lparr>as_mask = [m0, m1, m2, m3]\<rparr>" for m0 m1 m2 m3
proof -
  have wf: "ascii_set_wf \<lparr>as_mask = [m0, m1, m2, m3]\<rparr>" by (simp add: ascii_set_wf_length)
  show "run_encoder (percent_should \<lparr>as_mask = [m0, m1, m2, m3]\<rparr>) percent_encode_byte
      (percent_step \<lparr>as_mask = [m0, m1, m2, m3]\<rparr>) (percent_pieces \<lparr>as_mask = [m0, m1, m2, m3]\<rparr>)"
    by unfold_locales
      (rule percent_pieces_step [OF wf] |
       simp add: percent_step_wf [OF wf] percent_encode_byte_ascii |
       simp add: percent_encode_byte_eq percent_should_iff)+
qed

lemma percent_encode_into_cow_pieces:
  assumes "ascii_set_wf s"
  shows "map_option cow_get (percent_encode_into_cow (percent_encode_new xs s)) = Some (concat (percent_pieces s xs))"
proof -
  have nxt: "percent_encode_next \<lparr>pe_bytes = bs, pe_ascii_set = s\<rparr> =
      Some (case percent_step s bs of
              None \<Rightarrow> (\<lparr>pe_bytes = bs, pe_ascii_set = s\<rparr>, None)
            | Some (p, rest) \<Rightarrow> (\<lparr>pe_bytes = rest, pe_ascii_set = s\<rparr>, Some p))" for bs
    by (simp add: percent_encode_next_wf [OF assms] percent_step_wf [OF assms] split: list.split)
  show ?thesis
  proof (cases "percent_step s xs")
    case None
    then show ?thesis using percent_pieces_step [OF assms, of xs]
      by (simp add: percent_encode_into_cow_def percent_encode_new_def nxt)
  next
    case (Some pr)
    obtain p rest where pr: "pr = (p, rest)" by fastforce
    show ?thesis
    proof (cases "percent_step s rest")
      case None
      then show ?thesis using Some pr percent_pieces_step [OF assms, of xs] percent_pieces_step [OF assms, of rest]
        by (simp add: percent_encode_into_cow_def percent_encode_new_def nxt)
    next
      case (Some qr)
      obtain q rest2 where qr: "qr = (q, rest2)" by fastforce
      then show ?thesis
        using Some \<open>percent_step s xs = Some pr\<close> pr percent_pieces_step [OF assms, of xs]
          percent_pieces_step [OF assms, of rest] percent_encode_collect_wf [OF assms, of rest2]
        by (simp add: percent_encode_into_cow_def percent_encode_new_def nxt)
    qed
  qed
qed

text \<open>The equations of the decoder.\<close>

abbreviation percent_decoded :: "byte list \<Rightarrow> byte list" where
  "percent_decoded xs \<equiv> percent_decode_collect \<lparr>pd_bytes = xs\<rparr>"

lemma percent_decoded_nil [simp]: "percent_decoded [] = []"
  by (subst percent_decode_collect.simps) (simp add: percent_decode_next_def)

lemma percent_decoded_cons:
  "percent_decoded (b # rest) =
     (case (if b = 0x25 then after_percent_sign rest else None) of
        Some (d, rest') \<Rightarrow> d # percent_decoded rest' | None \<Rightarrow> b # percent_decoded rest)"
  by (subst percent_decode_collect.simps) (simp add: percent_decode_next_def split: option.split)

lemma after_percent_escape: "after_percent_sign (tl (percent_encode_byte b) @ rest) = Some (b, rest)"
proof -
  have "unat b div 16 < 16" by (simp add: less_mult_imp_div_less)
  then have "after_percent_sign (tl (percent_encode_byte b) @ rest) =
      Some (word_of_nat (unat b div 16) * 0x10 + word_of_nat (unat b mod 16), rest)"
    using upper_digit_16 [of "unat b div 16"] upper_digit_16 [of "unat b mod 16"]
    by (simp add: after_percent_sign_def percent_encode_byte_eq)
  moreover have "word_of_nat (unat b div 16) * 0x10 + word_of_nat (unat b mod 16) = b"
  proof -
    have "b = word_of_nat (unat b div 16 * 16 + unat b mod 16)" by (simp only: div_mult_mod_eq) simp
    also have "\<dots> = word_of_nat (unat b div 16) * 0x10 + word_of_nat (unat b mod 16)"
      by (simp only: of_nat_add of_nat_mult of_nat_numeral)
    finally show ?thesis by (rule sym)
  qed
  ultimately show ?thesis by simp
qed

lemma percent_decoded_escape: "percent_decoded (percent_encode_byte b @ rest) = b # percent_decoded rest"
proof -
  have "percent_decoded (0x25 # tl (percent_encode_byte b) @ rest) = b # percent_decoded rest"
    by (simp add: percent_decoded_cons after_percent_escape)
  then show ?thesis by (simp add: percent_encode_byte_eq)
qed

lemma percent_decoded_other: "b \<noteq> 0x25 \<Longrightarrow> percent_decoded (b # rest) = b # percent_decoded rest"
  by (simp add: percent_decoded_cons)

text \<open>The sets that hold the percent sign: bit 5 of the second chunk is set.\<close>

interpretation percent_codec: run_codec "percent_should \<lparr>as_mask = [m0, m1 OR 0x20, m2, m3]\<rparr>" percent_encode_byte
  "percent_step \<lparr>as_mask = [m0, m1 OR 0x20, m2, m3]\<rparr>" "percent_pieces \<lparr>as_mask = [m0, m1 OR 0x20, m2, m3]\<rparr>"
  "\<lambda>xs. percent_decode_collect \<lparr>pd_bytes = xs\<rparr>" for m0 m1 m2 m3
proof unfold_locales
  let ?s = "\<lparr>as_mask = [m0, m1 OR 0x20, m2, m3]\<rparr>"
  have "ascii_set_wf ?s" by (simp add: ascii_set_wf_length)
  then have percent: "percent_should ?s 0x25"
    by (simp add: percent_should_iff ascii_set_bytes_bit is_ascii_def bit_or_iff bit_simps)
  show "percent_decode_collect \<lparr>pd_bytes = []\<rparr> = []" by simp
  show "percent_decode_collect \<lparr>pd_bytes = percent_encode_byte b @ xs\<rparr> = b # percent_decode_collect \<lparr>pd_bytes = xs\<rparr>" for b xs
    by (rule percent_decoded_escape)
  show "percent_decode_collect \<lparr>pd_bytes = b # xs\<rparr> = b # percent_decode_collect \<lparr>pd_bytes = xs\<rparr>"
    if "\<not> percent_should ?s b" for b xs
    using that percent by (intro percent_decoded_other) auto
qed

section \<open>The copy-on-write decoder\<close>

text \<open>Decoding shortens by at most a factor of three.\<close>

lemma percent_decoded_length:
  "length (percent_decoded xs) \<le> length xs \<and> length xs \<le> 3 * length (percent_decoded xs)"
proof (induction xs rule: length_induct)
  case (1 xs)
  show ?case
  proof (cases xs)
    case (Cons b rest)
    show ?thesis
    proof (cases "if b = 0x25 then after_percent_sign rest else None")
      case None
      then have dec: "percent_decoded xs = b # percent_decoded rest" unfolding Cons percent_decoded_cons None by simp
      have "length rest < length xs" using Cons by simp
      with 1 have "length (percent_decoded rest) \<le> length rest \<and> length rest \<le> 3 * length (percent_decoded rest)" by blast
      with dec Cons show ?thesis by simp
    next
      case (Some dr)
      obtain d rest' where dr: "dr = (d, rest')" by fastforce
      with Some have len: "length rest = length rest' + 2" using after_percent_sign_length by (auto split: if_splits)
      have dec: "percent_decoded xs = d # percent_decoded rest'" unfolding Cons percent_decoded_cons Some dr by simp
      have "length rest' < length xs" using Cons len by simp
      with 1 have "length (percent_decoded rest') \<le> length rest' \<and> length rest' \<le> 3 * length (percent_decoded rest')" by blast
      with dec Cons len show ?thesis by simp
    qed
  qed simp
qed

lemma percent_decoded_run: "0x25 \<notin> set run \<Longrightarrow> percent_decoded (run @ xs) = run @ percent_decoded xs"
  by (induction run) (auto simp: percent_decoded_other)

lemma find_pos_split:
  assumes "find_pos (\<lambda>b. b = c) xs = Some i"
  shows "xs = take i xs @ c # drop (i + 1) xs" "c \<notin> set (take i xs)" "i < length xs"
proof -
  from assms have "c \<in> set xs" and i: "i = length (takeWhile (\<lambda>x. x \<noteq> c) xs)"
    by (auto simp: find_pos_takeWhile split: if_splits)
  then obtain ys zs where "xs = ys @ c # zs" "c \<notin> set ys" by (meson split_list_first)
  moreover from this i have "i = length ys" by (auto simp: takeWhile_append)
  ultimately show "xs = take i xs @ c # drop (i + 1) xs" "c \<notin> set (take i xs)" "i < length xs" by auto
qed

lemma percent_if_any_loop_eq:
  "percent_if_any_loop (pre @ iter) iter =
     (if percent_decoded iter = iter then None else Some (pre @ percent_decoded iter))"
proof (induction iter arbitrary: pre rule: length_induct)
  case (1 iter)
  show ?case
  proof (cases "find_pos (\<lambda>b. b = 0x25) iter")
    case None
    then have "0x25 \<notin> set iter" by (auto simp: find_pos_takeWhile split: if_splits)
    with percent_decoded_run [of iter "[]"] None show ?thesis by (subst percent_if_any_loop.simps) simp
  next
    case (Some i)
    define run rest where "run = take i iter" and "rest = drop (i + 1) iter"
    from find_pos_split [OF Some] have iter: "iter = run @ 0x25 # rest" "0x25 \<notin> set run" and i: "i = length run"
      by (simp_all add: run_def rest_def)
    then have dec: "percent_decoded iter = run @ percent_decoded (0x25 # rest)" by (simp add: percent_decoded_run)
    show ?thesis
    proof (cases "after_percent_sign rest")
      case None
      then have keep: "percent_decoded iter = run @ 0x25 # percent_decoded rest" by (simp add: dec percent_decoded_cons)
      have "length rest < length iter" by (simp add: iter(1))
      with 1 have "percent_if_any_loop ((pre @ run @ [0x25]) @ rest) rest =
          (if percent_decoded rest = rest then None else Some ((pre @ run @ [0x25]) @ percent_decoded rest))" by blast
      moreover have "percent_if_any_loop (pre @ iter) iter = percent_if_any_loop (pre @ iter) rest"
        using Some None by (subst percent_if_any_loop.simps) (simp add: rest_def)
      ultimately show ?thesis by (simp add: keep) (simp add: iter(1))
    next
      case after: (Some dr)
      obtain d rest' where dr: "dr = (d, rest')" by fastforce
      with after have len: "length rest = length rest' + 2" using after_percent_sign_length by simp
      have esc: "percent_decoded iter = run @ d # percent_decoded rest'" by (simp add: dec percent_decoded_cons after dr)
      then have "length (percent_decoded iter) < length iter"
        using percent_decoded_length [of rest'] len by (simp add: iter(1))
      then have neq: "percent_decoded iter \<noteq> iter" by auto
      have "length (pre @ iter) - length rest' - 3 = length (pre @ run)" by (simp add: iter(1) len)
      moreover have "take (length (pre @ run)) (pre @ iter) = pre @ run" by (simp add: iter(1))
      moreover have "percent_if_any_loop (pre @ iter) iter =
          Some (take (length (pre @ iter) - length rest' - 3) (pre @ iter) @ [d] @ percent_decoded rest')"
        using Some after dr by (subst percent_if_any_loop.simps) (simp add: rest_def Let_def)
      ultimately have "percent_if_any_loop (pre @ iter) iter = Some ((pre @ run) @ [d] @ percent_decoded rest')"
        by (simp only:)
      with neq esc show ?thesis by simp
    qed
  qed
qed

lemma percent_decode_into_cow_eq:
  "percent_decode_into_cow it =
     (if percent_decode_collect it = pd_bytes it then Borrowed (pd_bytes it) else Owned (percent_decode_collect it))"
  using percent_if_any_loop_eq [of "[]" "pd_bytes it"]
  by (cases it) (simp add: percent_decode_into_cow_def percent_if_any_def)

section \<open>Properties\<close>

text \<open>
  An \<open>AsciiSet\<close> implements a set of ASCII bytes: each operation keeps the four chunks
  and changes the set it stands for as its name says, membership is decided without a panic,
  the empty set, \<open>CONTROLS\<close> and \<open>NON_ALPHANUMERIC\<close> are the sets they are documented to be.
\<close>

theorem ascii_set_refines:
  assumes "ascii_set_wf s" "ascii_set_wf t" "is_ascii b"
  shows "(ascii_set_contains s b = Some (b \<in> ascii_set_bytes s)) \<and>
    (\<exists>u. ascii_set_add s b = Some u \<and> ascii_set_wf u \<and> ascii_set_bytes u = insert b (ascii_set_bytes s)) \<and>
    (\<exists>u. ascii_set_remove s b = Some u \<and> ascii_set_wf u \<and> ascii_set_bytes u = ascii_set_bytes s - {b}) \<and>
    (\<exists>u. ascii_set_union s t = Some u \<and> ascii_set_wf u \<and> ascii_set_bytes u = ascii_set_bytes s \<union> ascii_set_bytes t) \<and>
    (\<exists>u. ascii_set_complement s = Some u \<and> ascii_set_wf u \<and> ascii_set_bytes u = {b. is_ascii b} - ascii_set_bytes s) \<and>
    (ascii_set_wf ascii_set_EMPTY \<and> ascii_set_bytes ascii_set_EMPTY = {}) \<and>
    (ascii_set_wf CONTROLS \<and> ascii_set_bytes CONTROLS = {b. b < 0x20} \<union> {0x7F}) \<and>
    (\<exists>u. NON_ALPHANUMERIC = Some u \<and> ascii_set_wf u \<and>
           ascii_set_bytes u = {b. is_ascii b \<and> \<not> is_ascii_alphanumeric b})"
proof (intro conjI)
  show "ascii_set_contains s b = Some (b \<in> ascii_set_bytes s)"
    using assms by (simp add: ascii_set_contains_bit ascii_set_bytes_bit)
  show "\<exists>u. ascii_set_add s b = Some u \<and> ascii_set_wf u \<and> ascii_set_bytes u = insert b (ascii_set_bytes s)"
    using ascii_set_add_wf [OF assms(1,3)] by metis
  show "\<exists>u. ascii_set_remove s b = Some u \<and> ascii_set_wf u \<and> ascii_set_bytes u = ascii_set_bytes s - {b}"
    using ascii_set_remove_wf [OF assms(1,3)] by metis
  show "\<exists>u. ascii_set_union s t = Some u \<and> ascii_set_wf u \<and> ascii_set_bytes u = ascii_set_bytes s \<union> ascii_set_bytes t"
    using ascii_set_union_wf [OF assms(1,2)] by metis
  show "\<exists>u. ascii_set_complement s = Some u \<and> ascii_set_wf u \<and> ascii_set_bytes u = {b. is_ascii b} - ascii_set_bytes s"
    using ascii_set_complement_wf [OF assms(1)] by metis
  show wf: "ascii_set_wf ascii_set_EMPTY"
    by (simp add: ascii_set_EMPTY_def ascii_set_wf_def)
  show "ascii_set_bytes ascii_set_EMPTY = {}"
    using ascii_set_bytes_bit [OF wf] ascii_index by (auto simp: ascii_set_EMPTY_def ASCII_RANGE_LEN_def BITS_PER_CHUNK_def)
  show "ascii_set_wf CONTROLS" "ascii_set_bytes CONTROLS = {b. b < 0x20} \<union> {0x7F}"
    by (rule CONTROLS_wf, rule CONTROLS_bytes)
  show "\<exists>u. NON_ALPHANUMERIC = Some u \<and> ascii_set_wf u \<and>
      ascii_set_bytes u = {b. is_ascii b \<and> \<not> is_ascii_alphanumeric b}"
    by (rule NON_ALPHANUMERIC_bytes)
qed

lemma ascii_set_refines_witness:
  "\<exists>u. ascii_set_add CONTROLS 0x20 = Some u \<and> ascii_set_wf u \<and> ascii_set_bytes u = insert 0x20 (ascii_set_bytes CONTROLS)"
proof -
  have "is_ascii 0x20" by (simp add: is_ascii_def)
  from ascii_set_refines [OF CONTROLS_wf CONTROLS_wf this] show ?thesis by blast
qed

text \<open>
  The encoder terminates without a panic, escapes exactly the non-ASCII bytes and the
  bytes of the set, as a percent sign and two upper-case hexadecimal digits, and keeps the
  others; \<open>Display\<close> and the conversion to \<open>Cow\<close> give the same text. Every piece it yields
  is non-empty and ASCII, so the unchecked conversions of the pieces to \<open>str\<close> are sound, and
  there are as many pieces as \<open>size_hint\<close> says.
\<close>

theorem percent_encode_correct:
  assumes "ascii_set_wf s"
  shows "\<exists>ps. percent_encode_collect (percent_encode_new xs s) = Some ps \<and>
    percent_encode_fmt (percent_encode_new xs s) = Some (concat ps) \<and>
    map_option cow_get (percent_encode_into_cow (percent_encode_new xs s)) = Some (concat ps) \<and>
    concat ps = concat (map (\<lambda>b. if \<not> is_ascii b \<or> b \<in> ascii_set_bytes s
      then [0x25, upper_digit (unat b div 16), upper_digit (unat b mod 16)] else [b]) xs) \<and>
    (\<forall>p \<in> set ps. p \<noteq> [] \<and> utf8_valid p) \<and>
    (case percent_encode_size_hint (percent_encode_new xs s) of
       (lower, upper) \<Rightarrow> lower \<le> length ps \<and> pred_option (\<lambda>u. length ps \<le> u) upper)"
proof -
  obtain m0 m1 m2 m3 where s: "s = \<lparr>as_mask = [m0, m1, m2, m3]\<rparr>" using assms by (rule ascii_set_chunks)
  have props: "concat (percent_pieces s xs) = percent.encoding m0 m1 m2 m3 xs" "length (percent_pieces s xs) \<le> length xs"
    "\<forall>p \<in> set (percent_pieces s xs). p \<noteq> [] \<and> (\<forall>c \<in> set p. is_ascii c)"
    using percent.pieces_props [of m0 m1 m2 m3 xs] s by simp_all
  have "percent_pieces s xs = [] \<longleftrightarrow> xs = []" using percent.pieces_empty s by simp
  then have lower: "xs \<noteq> [] \<Longrightarrow> 1 \<le> length (percent_pieces s xs)" by (cases "percent_pieces s xs") auto
  have enc: "percent.encoding m0 m1 m2 m3 xs = concat (map (\<lambda>b. if \<not> is_ascii b \<or> b \<in> ascii_set_bytes s
      then [0x25, upper_digit (unat b div 16), upper_digit (unat b mod 16)] else [b]) xs)"
    unfolding percent.encoding_def s percent_should_iff percent_encode_byte_eq ..
  have cow: "map_option cow_get (percent_encode_into_cow (percent_encode_new xs s)) = Some (concat (percent_pieces s xs))"
    by (rule percent_encode_into_cow_pieces [OF assms])
  have collect: "percent_encode_collect (percent_encode_new xs s) = Some (percent_pieces s xs)"
    using percent_encode_collect_wf [OF assms, of xs] by (simp add: percent_encode_new_def)
  show ?thesis
  proof (intro exI conjI)
    show "percent_encode_fmt (percent_encode_new xs s) = Some (concat (percent_pieces s xs))"
      by (simp add: percent_encode_fmt_def collect)
    show "\<forall>p \<in> set (percent_pieces s xs). p \<noteq> [] \<and> utf8_valid p" using props(3) utf8_valid_ascii by blast
    show "case percent_encode_size_hint (percent_encode_new xs s) of
        (lower, upper) \<Rightarrow> lower \<le> length (percent_pieces s xs) \<and> pred_option (\<lambda>u. length (percent_pieces s xs) \<le> u) upper"
      using props(2) lower by (cases "xs = []") (simp_all add: percent_encode_size_hint_def percent_encode_new_def)
  qed (use collect cow props(1) enc in simp_all)
qed

lemma percent_encode_correct_witness:
  "\<exists>ps. percent_encode_collect (percent_encode_new [0x41, 0, 0xC3] CONTROLS) = Some ps \<and>
    concat ps = ascii_bytes ''A%00%C3''"
  using percent_encode_correct [OF CONTROLS_wf, of "[0x41, 0, 0xC3]"]
  by (auto simp: CONTROLS_bytes is_ascii_def upper_digit_def)

text \<open>
  C33: decoding what the encoder printed gives the input back, byte for byte, whenever the
  percent sign is in the set; so does the copy-on-write conversion.
\<close>

theorem percent_roundtrip:
  assumes "ascii_set_wf s" and "ascii CHR ''%'' \<in> ascii_set_bytes s"
  shows "\<exists>t. percent_encode_fmt (percent_encode_new xs s) = Some t \<and>
    percent_decode_collect (percent_decode_new t) = xs \<and>
    cow_get (percent_decode_into_cow (percent_decode_new t)) = xs"
proof -
  obtain m0 m1 m2 m3 where s: "s = \<lparr>as_mask = [m0, m1, m2, m3]\<rparr>" using assms(1) by (rule ascii_set_chunks)
  then have "bit m1 5" using assms by (simp add: ascii_set_bytes_bit)
  then have "m1 OR 2 ^ 5 = m1" by (intro bit_word_eqI) (unfold bit_or_iff bit_exp_iff, blast)
  with s have s': "s = \<lparr>as_mask = [m0, m1 OR 0x20, m2, m3]\<rparr>" by simp
  have "percent_decode_collect \<lparr>pd_bytes = concat (percent_pieces s xs)\<rparr> = xs"
    using percent_codec.dec_encoding [of m0 m1 m2 m3 xs] percent.pieces_props [of m0 "m1 OR 0x20" m2 m3 xs] s' by simp
  then show ?thesis
    by (simp add: percent_encode_fmt_def percent_encode_new_def percent_encode_collect_wf [OF assms(1)]
        percent_decode_new_def percent_decode_into_cow_eq)
qed

lemma percent_roundtrip_witness:
  "\<exists>s t. percent_encode_fmt (percent_encode_new [0x25, 0x34, 0x31] s) = Some t \<and>
     percent_decode_collect (percent_decode_new t) = [0x25, 0x34, 0x31]"
proof -
  obtain u where "ascii_set_wf u" "ascii_set_bytes u = insert 0x25 (ascii_set_bytes CONTROLS)"
    using ascii_set_add_wf [OF CONTROLS_wf, of "0x25"] by (auto simp: is_ascii_def)
  with percent_roundtrip [of u "[0x25, 0x34, 0x31]"] show ?thesis by auto
qed

lemma percent_decode_utf8_eq:
  "percent_decode_utf8 it =
     (case from_utf8 (percent_decode_collect it) of
        Ok s \<Rightarrow> Ok (if percent_decode_collect it = pd_bytes it then Borrowed s else Owned s)
      | Err e \<Rightarrow> Err e)"
  by (simp add: percent_decode_utf8_def percent_decode_into_cow_eq split: sum.split)

lemma decode_utf8_lossy_eq: "cow_get (decode_utf8_lossy c) = from_utf8_lossy (cow_get c)"
  by (cases c) (simp_all add: decode_utf8_lossy_def from_utf8_lossy_cow_def from_utf8_lossy_valid)

text \<open>
  The copy-on-write conversion of a decoder is its collected iterator, it borrows the
  input exactly when decoding changes nothing, and \<open>size_hint\<close> bounds the number of bytes
  from below by a third (rounded up) and from above by the length of the input. The decoded
  bytes are returned as a string exactly when they are valid UTF-8; the lossy conversion
  replaces the ill-formed sequences and always gives valid UTF-8.
\<close>

theorem percent_decode_cow_correct:
  "let it = percent_decode_new xs; d = percent_decode_collect it
   in percent_decode_into_cow it = (if d = xs then Borrowed xs else Owned d) \<and>
      (case percent_decode_size_hint it of
         (lower, upper) \<Rightarrow> lower \<le> length d \<and> pred_option (\<lambda>u. length d \<le> u) upper) \<and>
      (case percent_decode_utf8 it of Ok c \<Rightarrow> cow_get c = d \<and> utf8_valid d | Err e \<Rightarrow> \<not> utf8_valid d) \<and>
      cow_get (percent_decode_utf8_lossy it) = from_utf8_lossy d \<and>
      utf8_valid (cow_get (percent_decode_utf8_lossy it))"
proof -
  let ?it = "percent_decode_new xs"
  let ?d = "percent_decode_collect ?it"
  have "percent_decode_into_cow ?it = (if ?d = xs then Borrowed xs else Owned ?d)"
    by (simp add: percent_decode_new_def percent_decode_into_cow_eq)
  moreover have "case percent_decode_size_hint ?it of
      (lower, upper) \<Rightarrow> lower \<le> length ?d \<and> pred_option (\<lambda>u. length ?d \<le> u) upper"
    using percent_decoded_length [of xs] by (auto simp: percent_decode_new_def percent_decode_size_hint_def Let_def)
  moreover have "case percent_decode_utf8 ?it of Ok c \<Rightarrow> cow_get c = ?d \<and> utf8_valid ?d | Err e \<Rightarrow> \<not> utf8_valid ?d"
  proof (cases "from_utf8 ?d")
    case (Inl e)
    then show ?thesis using from_utf8_valid [of ?d ?d] by (simp add: percent_decode_utf8_eq)
  next
    case (Inr s)
    then show ?thesis using from_utf8_valid [of ?d s] by (simp add: percent_decode_utf8_eq)
  qed
  moreover have "cow_get (percent_decode_utf8_lossy ?it) = from_utf8_lossy ?d"
    by (simp add: percent_decode_utf8_lossy_def decode_utf8_lossy_eq percent_decode_into_cow_eq percent_decode_new_def)
  ultimately show ?thesis by (simp add: Let_def utf8_valid_lossy)
qed

end
