(* ===== verification/Form_Urlencoded.thy ===== *)
theory Form_Urlencoded
  imports Percent_Encoding
begin

text \<open>
  The crate \<open>form_urlencoded\<close> (\<open>src/form_urlencoded/form_urlencoded.rs\<close>): the iterator that
  parses \<open>application/x-www-form-urlencoded\<close> text into pairs, the byte serializer and the
  \<open>Serializer\<close> with its target string. It calls \<open>percent_encoding\<close> for escapes. A panic
  (a call after \<open>finish\<close>, a suffix beyond the target, a truncation inside a character) is
  \<open>None\<close>. The lemmas show that parsing inverts serializing on every list of pairs of valid
  strings, that what is parsed is always valid UTF-8, and that a finished serializer panics.
\<close>

section \<open>Definitions\<close>

subsection \<open>Parsing\<close>

definition replace_plus :: "byte list \<Rightarrow> byte list cow" where
  "replace_plus input =
     (case find_pos (\<lambda>b. b = ascii CHR ''+'') input of
        None \<Rightarrow> Borrowed input
      | Some first_position \<Rightarrow>
          (let replaced = input[first_position := ascii CHR '' '']
           in Owned (take (first_position + 1) replaced @
                map (\<lambda>byte. if byte = ascii CHR ''+'' then ascii CHR '' '' else byte)
                  (drop (first_position + 1) replaced))))"

definition form_decode_utf8_lossy :: "byte list cow \<Rightarrow> byte list cow" where
  "form_decode_utf8_lossy input =
     (case input of
        Borrowed bytes \<Rightarrow> from_utf8_lossy_cow bytes
      | Owned bytes \<Rightarrow>
          (case from_utf8_lossy_cow bytes of
             Borrowed utf8 \<Rightarrow> Owned bytes
           | Owned s \<Rightarrow> Owned s))"

definition form_decode :: "byte list \<Rightarrow> byte list cow" where
  "form_decode input =
     (let replaced = replace_plus input
      in form_decode_utf8_lossy
           (case percent_decode_into_cow (percent_decode_new (cow_get replaced)) of
              Owned v \<Rightarrow> Owned v
            | Borrowed _ \<Rightarrow> replaced))"

record form_parse =
  fp_input :: "byte list"

definition form_parse_new :: "byte list \<Rightarrow> form_parse" where
  "form_parse_new input = \<lparr>fp_input = input\<rparr>"

definition unwrap_or_empty :: "'a list option \<Rightarrow> 'a list" where
  "unwrap_or_empty x = (case x of Some xs \<Rightarrow> xs | None \<Rightarrow> [])"

lemma splitn2_shorter:
  assumes "xs \<noteq> []"
  shows "length (unwrap_or_empty (snd (splitn2 p xs))) < length xs"
  using assms by (auto simp: splitn2_def unwrap_or_empty_def split: option.splits)

function form_parse_next :: "form_parse \<Rightarrow> (form_parse \<times> (byte list cow \<times> byte list cow)) option" where
  "form_parse_next it =
     (if fp_input it = [] then None
      else (let split2 = splitn2 (\<lambda>b. b = ascii CHR ''&'') (fp_input it);
                sequence = fst split2;
                it = it\<lparr>fp_input := unwrap_or_empty (snd split2)\<rparr>
            in if sequence = [] then form_parse_next it
               else (let split2 = splitn2 (\<lambda>b. b = ascii CHR ''='') sequence;
                         name = fst split2;
                         value = unwrap_or_empty (snd split2)
                     in Some (it, (form_decode name, form_decode value)))))"
  by pat_completeness auto
termination
  by (relation "measure (\<lambda>it. length (fp_input it))") (auto intro: splitn2_shorter)

declare form_parse_next.simps [simp del]

lemma form_parse_next_shorter:
  "form_parse_next it = Some (it', kv) \<Longrightarrow> length (fp_input it') < length (fp_input it)"
proof (induction it rule: form_parse_next.induct)
  case (1 it)
  let ?rest = "unwrap_or_empty (snd (splitn2 (\<lambda>b. b = 0x26) (fp_input it)))"
  have ne: "fp_input it \<noteq> []" using "1.prems" by (subst (asm) form_parse_next.simps) (simp split: if_splits)
  then have len: "length ?rest < length (fp_input it)" by (rule splitn2_shorter)
  show ?case
  proof (cases "fst (splitn2 (\<lambda>b. b = 0x26) (fp_input it)) = []")
    case True
    then have "form_parse_next (it\<lparr>fp_input := ?rest\<rparr>) = Some (it', kv)"
      using "1.prems" ne by (subst (asm) form_parse_next.simps) (simp add: Let_def)
    with "1.IH" ne True have "length (fp_input it') < length ?rest" by simp
    with len show ?thesis by simp
  next
    case False
    with "1.prems" ne len show ?thesis by (subst (asm) form_parse_next.simps) (auto simp: Let_def)
  qed
qed

text \<open>\<open>ParseIntoOwned\<close>, and its items until the end.\<close>

definition form_parse_owned_next :: "form_parse \<Rightarrow> (form_parse \<times> (byte list \<times> byte list)) option" where
  "form_parse_owned_next inner =
     (case form_parse_next inner of
        None \<Rightarrow> None
      | Some (inner, (k, v)) \<Rightarrow> Some (inner, (cow_get k, cow_get v)))"

function form_parse_collect :: "form_parse \<Rightarrow> (byte list \<times> byte list) list" where
  "form_parse_collect it =
     (case form_parse_owned_next it of None \<Rightarrow> [] | Some (it', kv) \<Rightarrow> kv # form_parse_collect it')"
  by pat_completeness auto
termination
  by (relation "measure (\<lambda>it. length (fp_input it))")
    (auto simp: form_parse_owned_next_def split: option.splits dest: form_parse_next_shorter)

declare form_parse_collect.simps [simp del]

subsection \<open>Serializing bytes\<close>

record byte_serialize =
  bs_bytes :: "byte list"

definition byte_serialize_new :: "byte list \<Rightarrow> byte_serialize" where
  "byte_serialize_new input = \<lparr>bs_bytes = input\<rparr>"

definition byte_serialized_unchanged :: "byte \<Rightarrow> bool" where
  "byte_serialized_unchanged byte \<longleftrightarrow>
     byte = ascii CHR ''*'' \<or> byte = ascii CHR ''-'' \<or> byte = ascii CHR ''.'' \<or>
     (ascii CHR ''0'' \<le> byte \<and> byte \<le> ascii CHR ''9'') \<or>
     (ascii CHR ''A'' \<le> byte \<and> byte \<le> ascii CHR ''Z'') \<or>
     byte = ascii CHR ''_'' \<or>
     (ascii CHR ''a'' \<le> byte \<and> byte \<le> ascii CHR ''z'')"

definition byte_serialize_next :: "byte_serialize \<Rightarrow> (byte_serialize \<times> byte list) option" where
  "byte_serialize_next it =
     (case bs_bytes it of
        [] \<Rightarrow> None
      | first # tail \<Rightarrow>
          if \<not> byte_serialized_unchanged first
          then Some (it\<lparr>bs_bytes := tail\<rparr>,
                 if first = ascii CHR '' '' then ascii_bytes ''+'' else percent_encode_byte first)
          else (let position = find_pos (\<lambda>b. \<not> byte_serialized_unchanged b) tail;
                    (unchanged_slice, remaining) =
                      (case position of
                         Some i \<Rightarrow> (take (1 + i) (bs_bytes it), drop (1 + i) (bs_bytes it))
                       | None \<Rightarrow> (bs_bytes it, []))
                in Some (it\<lparr>bs_bytes := remaining\<rparr>, unchanged_slice)))"

definition byte_serialize_size_hint :: "byte_serialize \<Rightarrow> nat \<times> nat option" where
  "byte_serialize_size_hint it = (if bs_bytes it = [] then (0, Some 0) else (1, Some (length (bs_bytes it))))"

lemma byte_serialize_next_shorter:
  "byte_serialize_next it = Some (it', s) \<Longrightarrow> length (bs_bytes it') < length (bs_bytes it)"
  by (auto simp: byte_serialize_next_def Let_def split: list.splits if_splits option.splits)

function byte_serialize_collect :: "byte_serialize \<Rightarrow> byte list list" where
  "byte_serialize_collect it =
     (case byte_serialize_next it of None \<Rightarrow> [] | Some (it', s) \<Rightarrow> s # byte_serialize_collect it')"
  by pat_completeness auto
termination
  by (relation "measure (\<lambda>it. length (bs_bytes it))") (auto intro: byte_serialize_next_shorter)

declare byte_serialize_collect.simps [simp del]

subsection \<open>The serializer\<close>

type_synonym encoding_override = "(byte list \<Rightarrow> byte list) option"

record form_serializer =
  fs_target :: "byte list option"
  fs_start_position :: nat
  fs_encoding :: encoding_override

definition form_for_suffix :: "byte list \<Rightarrow> nat \<Rightarrow> form_serializer option" where
  "form_for_suffix target start_position =
     (if length target < start_position then None
      else Some \<lparr>fs_target = Some target, fs_start_position = start_position, fs_encoding = None\<rparr>)"

definition form_new :: "byte list \<Rightarrow> form_serializer option" where
  "form_new target = form_for_suffix target 0"

text \<open>\<open>String::truncate\<close>: no effect beyond the end, a panic inside a character.\<close>

definition is_char_boundary :: "byte list \<Rightarrow> nat \<Rightarrow> bool" where
  "is_char_boundary s n \<longleftrightarrow> n = 0 \<or> n = length s \<or> n < length s \<and> \<not> is_cont (s ! n)"

definition string_truncate :: "byte list \<Rightarrow> nat \<Rightarrow> byte list option" where
  "string_truncate s n =
     (if n \<le> length s then if is_char_boundary s n then Some (take n s) else None else Some s)"

definition form_clear :: "form_serializer \<Rightarrow> form_serializer option" where
  "form_clear s =
     do {
       target \<leftarrow> fs_target s;
       target \<leftarrow> string_truncate target (fs_start_position s);
       Some (s\<lparr>fs_target := Some target\<rparr>)
     }"

definition form_encoding_override :: "form_serializer \<Rightarrow> encoding_override \<Rightarrow> form_serializer" where
  "form_encoding_override s new = s\<lparr>fs_encoding := new\<rparr>"

definition form_encode :: "encoding_override \<Rightarrow> byte list \<Rightarrow> byte list" where
  "form_encode encoding_override input = (case encoding_override of Some f \<Rightarrow> f input | None \<Rightarrow> input)"

definition append_encoded :: "byte list \<Rightarrow> byte list \<Rightarrow> encoding_override \<Rightarrow> byte list" where
  "append_encoded s string encoding =
     string @ concat (byte_serialize_collect (byte_serialize_new (form_encode encoding s)))"

definition append_separator_if_needed :: "byte list \<Rightarrow> nat \<Rightarrow> byte list" where
  "append_separator_if_needed string start_position =
     (if length string > start_position then string @ ascii_bytes ''&'' else string)"

definition form_append_pair_to ::
  "byte list \<Rightarrow> nat \<Rightarrow> encoding_override \<Rightarrow> byte list \<Rightarrow> byte list \<Rightarrow> byte list" where
  "form_append_pair_to string start_position encoding name value =
     (let string = append_separator_if_needed string start_position;
          string = append_encoded name string encoding;
          string = string @ ascii_bytes ''=''
      in append_encoded value string encoding)"

definition form_append_key_only_to :: "byte list \<Rightarrow> nat \<Rightarrow> encoding_override \<Rightarrow> byte list \<Rightarrow> byte list" where
  "form_append_key_only_to string start_position encoding name =
     (let string = append_separator_if_needed string start_position
      in append_encoded name string encoding)"

definition form_append_pair :: "form_serializer \<Rightarrow> byte list \<Rightarrow> byte list \<Rightarrow> form_serializer option" where
  "form_append_pair s name value =
     do {
       string \<leftarrow> fs_target s;
       Some (s\<lparr>fs_target := Some (form_append_pair_to string (fs_start_position s) (fs_encoding s) name value)\<rparr>)
     }"

definition form_append_key_only :: "form_serializer \<Rightarrow> byte list \<Rightarrow> form_serializer option" where
  "form_append_key_only s name =
     do {
       string \<leftarrow> fs_target s;
       Some (s\<lparr>fs_target := Some (form_append_key_only_to string (fs_start_position s) (fs_encoding s) name)\<rparr>)
     }"

definition form_extend_pairs :: "form_serializer \<Rightarrow> (byte list \<times> byte list) list \<Rightarrow> form_serializer option" where
  "form_extend_pairs s iter =
     do {
       string \<leftarrow> fs_target s;
       let string = foldl (\<lambda>string (k, v). form_append_pair_to string (fs_start_position s) (fs_encoding s) k v) string iter;
       Some (s\<lparr>fs_target := Some string\<rparr>)
     }"

definition form_extend_keys_only :: "form_serializer \<Rightarrow> byte list list \<Rightarrow> form_serializer option" where
  "form_extend_keys_only s iter =
     do {
       string \<leftarrow> fs_target s;
       let string = foldl (\<lambda>string k. form_append_key_only_to string (fs_start_position s) (fs_encoding s) k) string iter;
       Some (s\<lparr>fs_target := Some string\<rparr>)
     }"

definition form_finish :: "form_serializer \<Rightarrow> (form_serializer \<times> byte list) option" where
  "form_finish s = do { target \<leftarrow> fs_target s; Some (s\<lparr>fs_target := None\<rparr>, target) }"

section \<open>The byte serializer is a codec\<close>

definition plus_to_space :: "byte \<Rightarrow> byte" where
  "plus_to_space b = (if b = 0x2B then 0x20 else b)"

definition form_enc :: "byte \<Rightarrow> byte list" where
  "form_enc b = (if b = 0x20 then [0x2B] else percent_encode_byte b)"

definition form_step :: "byte list \<Rightarrow> (byte list \<times> byte list) option" where
  "form_step bs = map_option (\<lambda>(it, s). (s, bs_bytes it)) (byte_serialize_next \<lparr>bs_bytes = bs\<rparr>)"

definition form_decoded :: "byte list \<Rightarrow> byte list" where
  "form_decoded xs = percent_decode_collect \<lparr>pd_bytes = map plus_to_space xs\<rparr>"

lemma byte_serialize_next_eq:
  "byte_serialize_next \<lparr>bs_bytes = bs\<rparr> =
     (case bs of
        [] \<Rightarrow> None
      | b # rest \<Rightarrow>
          if \<not> byte_serialized_unchanged b then Some (\<lparr>bs_bytes = rest\<rparr>, form_enc b)
          else Some (\<lparr>bs_bytes = dropWhile byte_serialized_unchanged rest\<rparr>,
                 b # takeWhile byte_serialized_unchanged rest))"
proof (cases bs)
  case (Cons b rest)
  then show ?thesis
    using take_find_pos [where p = "\<lambda>b. \<not> byte_serialized_unchanged b" and xs = rest]
    by (cases "find_pos (\<lambda>b. \<not> byte_serialized_unchanged b) rest")
      (simp_all add: byte_serialize_next_def form_enc_def)
qed (simp add: byte_serialize_next_def)

lemma byte_serialize_collect_step:
  "byte_serialize_collect \<lparr>bs_bytes = bs\<rparr> =
     (case form_step bs of None \<Rightarrow> [] | Some (p, rest) \<Rightarrow> p # byte_serialize_collect \<lparr>bs_bytes = rest\<rparr>)"
proof (cases "byte_serialize_next \<lparr>bs_bytes = bs\<rparr>")
  case (Some r)
  then obtain rest s where "r = (\<lparr>bs_bytes = rest\<rparr>, s)" by (metis byte_serialize.cases prod.exhaust)
  with Some show ?thesis by (subst byte_serialize_collect.simps) (simp add: form_step_def)
qed (subst byte_serialize_collect.simps, simp add: form_step_def)

lemma unchanged_chars: "byte_serialized_unchanged b \<Longrightarrow>
    is_ascii b \<and> b \<noteq> 0x25 \<and> b \<noteq> 0x2B \<and> b \<noteq> 0x20 \<and> b \<noteq> 0x26 \<and> b \<noteq> 0x3D"
proof -
  have "byte_all (\<lambda>b. byte_serialized_unchanged b \<longrightarrow>
      is_ascii b \<and> b \<noteq> 0x25 \<and> b \<noteq> 0x2B \<and> b \<noteq> 0x20 \<and> b \<noteq> 0x26 \<and> b \<noteq> 0x3D)" by code_simp
  from byte_allD [OF this, of b] show "byte_serialized_unchanged b \<Longrightarrow> ?thesis" by blast
qed

lemma upper_digit_plain: "n < 16 \<Longrightarrow> upper_digit n \<notin> {0x2B, 0x26, 0x3D}"
proof -
  assume "n < 16"
  moreover have "\<forall>n \<in> set [0..<16]. upper_digit n \<notin> {0x2B, 0x26, 0x3D}" by code_simp
  ultimately show ?thesis by auto
qed

lemma escape_plain: "c \<in> set (percent_encode_byte b) \<Longrightarrow> c \<noteq> 0x2B \<and> c \<noteq> 0x26 \<and> c \<noteq> 0x3D"
  using upper_digit_plain [of "unat b div 16"] upper_digit_plain [of "unat b mod 16"]
  by (auto simp: percent_encode_byte_eq less_mult_imp_div_less)

interpretation form: run_codec "\<lambda>b. \<not> byte_serialized_unchanged b" form_enc form_step
  "\<lambda>bs. byte_serialize_collect \<lparr>bs_bytes = bs\<rparr>" form_decoded
proof
  fix b c :: byte and bs xs :: "byte list"
  show "form_step [] = None" by (simp add: form_step_def byte_serialize_next_eq)
  show "\<not> byte_serialized_unchanged b \<Longrightarrow> form_step (b # bs) = Some (form_enc b, bs)"
    by (simp add: form_step_def byte_serialize_next_eq)
  show "\<not> \<not> byte_serialized_unchanged b \<Longrightarrow> form_step (b # bs) =
      Some (b # takeWhile (\<lambda>c. \<not> \<not> byte_serialized_unchanged c) bs, dropWhile (\<lambda>c. \<not> \<not> byte_serialized_unchanged c) bs)"
    by (simp add: form_step_def byte_serialize_next_eq)
  show "byte_serialize_collect \<lparr>bs_bytes = xs\<rparr> =
      (case form_step xs of None \<Rightarrow> [] | Some (p, rest) \<Rightarrow> p # byte_serialize_collect \<lparr>bs_bytes = rest\<rparr>)"
    by (rule byte_serialize_collect_step)
  show "c \<in> set (form_enc b) \<Longrightarrow> is_ascii c"
    by (auto simp: form_enc_def is_ascii_def [of "0x2B"] percent_encode_byte_ascii split: if_splits)
  show "form_enc b \<noteq> []" by (simp add: form_enc_def percent_encode_byte_eq)
  show "\<not> \<not> byte_serialized_unchanged b \<Longrightarrow> is_ascii b" using unchanged_chars by blast
  show "form_decoded [] = []" by (simp add: form_decoded_def)
  have "map plus_to_space (percent_encode_byte b) = percent_encode_byte b"
    using escape_plain [of _ b] by (auto simp: plus_to_space_def intro: map_idI)
  then show "form_decoded (form_enc b @ xs) = b # form_decoded xs"
    by (simp add: form_decoded_def form_enc_def percent_decoded_escape)
      (simp add: plus_to_space_def percent_decoded_other)
  show "\<not> \<not> byte_serialized_unchanged b \<Longrightarrow> form_decoded (b # xs) = b # form_decoded xs"
    using unchanged_chars [of b] by (simp add: form_decoded_def plus_to_space_def percent_decoded_other)
qed

lemma form_encoding_plain: "c \<in> set (form.encoding xs) \<Longrightarrow> c \<noteq> 0x26 \<and> c \<noteq> 0x3D"
proof (induction xs)
  case (Cons b xs)
  then show ?case using unchanged_chars [of b] escape_plain [of c b]
    by (auto simp: form_enc_def [of b] split: if_splits)
qed simp

section \<open>Decoding a name or a value\<close>

lemma replace_plus_eq: "cow_get (replace_plus xs) = map plus_to_space xs"
proof (cases "find_pos (\<lambda>b. b = 0x2B) xs")
  case None
  then have "0x2B \<notin> set xs" by (auto simp: find_pos_takeWhile split: if_splits)
  with None show ?thesis by (auto simp: replace_plus_def plus_to_space_def intro: map_idI [symmetric])
next
  case (Some i)
  from find_pos_split [OF Some] obtain run rest where xs: "xs = run @ 0x2B # rest" "0x2B \<notin> set run" and i: "i = length run"
    by (metis length_take less_imp_le min_absorb2)
  have "map plus_to_space run = run" using xs(2) by (auto simp: plus_to_space_def intro: map_idI)
  then show ?thesis using Some by (simp add: replace_plus_def xs(1) i plus_to_space_def Let_def)
qed

lemma form_decode_eq: "cow_get (form_decode xs) = from_utf8_lossy (form_decoded xs)"
proof -
  have lossy: "cow_get (form_decode_utf8_lossy c) = from_utf8_lossy (cow_get c)" for c
    by (cases c) (simp_all add: form_decode_utf8_lossy_def from_utf8_lossy_cow_def from_utf8_lossy_valid)
  show ?thesis
    unfolding form_decode_def Let_def lossy
    by (simp add: percent_decode_into_cow_eq percent_decode_new_def replace_plus_eq form_decoded_def)
qed

lemma form_parse_next_item: "form_parse_next it = Some (it', kv) \<Longrightarrow> \<exists>n m. kv = (form_decode n, form_decode m)"
proof (induction it rule: form_parse_next.induct)
  case (1 it)
  then show ?case by (subst (asm) (2) form_parse_next.simps) (auto simp: Let_def split: if_splits)
qed

lemma form_parse_owned_item:
  "form_parse_owned_next it = Some (it', kv) \<Longrightarrow> \<exists>n m. kv = (cow_get (form_decode n), cow_get (form_decode m))"
  by (auto simp: form_parse_owned_next_def split: option.splits dest!: form_parse_next_item)

section \<open>Parsing what was serialized\<close>

definition form_pair_text :: "byte list \<times> byte list \<Rightarrow> byte list" where
  "form_pair_text kv = form.encoding (fst kv) @ 0x3D # form.encoding (snd kv)"

lemma form_parse_next_pair:
  "form_parse_next \<lparr>fp_input = form_pair_text (k, v) @ (if last_pair then [] else 0x26 # rest)\<rparr> =
     Some (\<lparr>fp_input = if last_pair then [] else rest\<rparr>, (form_decode (form.encoding k), form_decode (form.encoding v)))"
proof -
  let ?seq = "form_pair_text (k, v)"
  have amp: "\<forall>c \<in> set ?seq. c \<noteq> 0x26" using form_encoding_plain by (auto simp: form_pair_text_def)
  have split: "splitn2 (\<lambda>b. b = 0x26) (?seq @ (if last_pair then [] else 0x26 # rest)) =
      (?seq, if last_pair then None else Some rest)"
    using splitn2_free [OF amp] splitn2_append [OF amp] by simp
  have "\<forall>c \<in> set (form.encoding k). c \<noteq> 0x3D" using form_encoding_plain by blast
  then have eq: "splitn2 (\<lambda>b. b = 0x3D) ?seq = (form.encoding k, Some (form.encoding v))"
    by (simp add: form_pair_text_def splitn2_append)
  have "?seq \<noteq> []" by (simp add: form_pair_text_def)
  then show ?thesis
    by (subst form_parse_next.simps) (simp add: split eq Let_def unwrap_or_empty_def)
qed

lemma form_parse_collect_pairs:
  "form_parse_collect \<lparr>fp_input = join_on 0x26 (map form_pair_text ps)\<rparr> =
     map (\<lambda>(k, v). (from_utf8_lossy k, from_utf8_lossy v)) ps"
proof -
  have item: "cow_get (form_decode (form.encoding k)) = from_utf8_lossy k" for k
    by (simp add: form_decode_eq form.dec_encoding)
  show ?thesis
  proof (induction ps rule: induct_list012)
    case 1
    then show ?case
      by (subst form_parse_collect.simps) (simp add: form_parse_owned_next_def form_parse_next.simps)
  next
    case (2 kv)
    obtain k v where kv: "kv = (k, v)" by fastforce
    have "form_parse_next \<lparr>fp_input = []\<rparr> = None" by (simp add: form_parse_next.simps)
    then have "form_parse_collect \<lparr>fp_input = []\<rparr> = []"
      by (subst form_parse_collect.simps) (simp add: form_parse_owned_next_def)
    then show ?case using form_parse_next_pair [of k v True]
      by (subst form_parse_collect.simps) (simp add: kv form_parse_owned_next_def item)
  next
    case (3 kv kw ps)
    obtain k v where kv: "kv = (k, v)" by fastforce
    show ?case using form_parse_next_pair [of k v False] "3.IH"(2)
      by (subst form_parse_collect.simps) (simp add: kv form_parse_owned_next_def item)
  qed
qed

lemma form_append_pair_to_eq:
  "form_append_pair_to string n None k v =
     string @ (if n < length string then [0x26] else []) @ form_pair_text (k, v)"
  using form.pieces_props [of k] form.pieces_props [of v]
  by (simp add: form_append_pair_to_def append_encoded_def append_separator_if_needed_def form_encode_def
      byte_serialize_new_def form_pair_text_def Let_def)

lemma form_extend_text:
  "foldl (\<lambda>string (k, v). form_append_pair_to string n None k v) string ps =
     string @ (if n < length string \<and> ps \<noteq> [] then [0x26] else []) @ join_on 0x26 (map form_pair_text ps)"
  if "n \<le> length string"
  using that
proof (induction ps arbitrary: string)
  case (Cons kv ps)
  obtain k v where kv: "kv = (k, v)" by fastforce
  let ?s = "form_append_pair_to string n None k v"
  have "n < length ?s" using Cons.prems by (simp add: form_append_pair_to_eq form_pair_text_def)
  then show ?case using Cons.IH [of ?s]
    by (cases ps) (simp_all add: kv form_append_pair_to_eq)
qed simp

section \<open>Properties\<close>

text \<open>
  C36: parsing inverts serializing. Pairs of valid strings, any number of them, empty names
  and values included, appended to an empty target and finished, parse back to the same
  pairs in the same order; no step panics.
\<close>

theorem form_roundtrip:
  assumes "\<forall>(k, v) \<in> set ps. utf8_valid k \<and> utf8_valid v"
  shows "map_option (\<lambda>(s, t). form_parse_collect (form_parse_new t))
    (do { s \<leftarrow> form_new []; s \<leftarrow> form_extend_pairs s ps; form_finish s }) = Some ps"
proof -
  have "map (\<lambda>(k, v). (from_utf8_lossy k, from_utf8_lossy v)) ps = ps"
    using assms by (auto simp: from_utf8_lossy_valid intro!: map_idI)
  then show ?thesis using form_extend_text [of 0 "[]" ps] form_parse_collect_pairs [of ps]
    by (simp add: form_new_def form_for_suffix_def form_extend_pairs_def form_finish_def form_parse_new_def)
qed

lemma form_roundtrip_witness:
  "map_option (\<lambda>(s, t). form_parse_collect (form_parse_new t))
    (do { s \<leftarrow> form_new []; s \<leftarrow> form_extend_pairs s [(ascii_bytes ''a b'', ascii_bytes ''1+1=2&''), ([], [])];
          form_finish s }) = Some [(ascii_bytes ''a b'', ascii_bytes ''1+1=2&''), ([], [])]"
  by (rule form_roundtrip) (auto intro!: utf8_valid_ascii simp: is_ascii_def)

text \<open>
  C40: whatever the input, the parser ends, and every name and every value it yields is
  valid UTF-8, the type invariant of the strings it returns.
\<close>

theorem form_parse_utf8: "list_all (\<lambda>(k, v). utf8_valid k \<and> utf8_valid v) (form_parse_collect it)"
  unfolding list_all_iff
proof (induction it rule: form_parse_collect.induct)
  case (1 it)
  show ?case
  proof (cases "form_parse_owned_next it")
    case None
    then show ?thesis by (subst form_parse_collect.simps) simp
  next
    case (Some r)
    obtain it' k v where r: "r = (it', (k, v))" by (metis prod.exhaust)
    have "\<exists>n m. (k, v) = (cow_get (form_decode n), cow_get (form_decode m))"
      by (rule form_parse_owned_item [OF Some [unfolded r]])
    then have "utf8_valid k \<and> utf8_valid v" by (auto simp: form_decode_eq utf8_valid_lossy)
    moreover have "\<forall>(k, v) \<in> set (form_parse_collect it'). utf8_valid k \<and> utf8_valid v" using 1 Some r by blast
    ultimately show ?thesis using Some r by (subst form_parse_collect.simps) simp
  qed
qed

text \<open>
  The byte serializer keeps the unreserved bytes, writes a space as a plus sign and
  escapes every other byte; its pieces are non-empty and ASCII, so the unchecked conversion
  of a run to \<open>str\<close> is sound, and they are as many as \<open>size_hint\<close> says.
\<close>

theorem byte_serialize_correct:
  "concat (byte_serialize_collect (byte_serialize_new xs)) =
     concat (map (\<lambda>b. if byte_serialized_unchanged b then [b] else if b = ascii CHR '' '' then ascii_bytes ''+''
       else [0x25, upper_digit (unat b div 16), upper_digit (unat b mod 16)]) xs) \<and>
   list_all (\<lambda>p. p \<noteq> [] \<and> utf8_valid p) (byte_serialize_collect (byte_serialize_new xs)) \<and>
   (case byte_serialize_size_hint (byte_serialize_new xs) of
      (lower, upper) \<Rightarrow> lower \<le> length (byte_serialize_collect (byte_serialize_new xs)) \<and>
        pred_option (\<lambda>u. length (byte_serialize_collect (byte_serialize_new xs)) \<le> u) upper)"
proof (intro conjI)
  let ?ps = "byte_serialize_collect \<lparr>bs_bytes = xs\<rparr>"
  have props: "concat ?ps = form.encoding xs" "length ?ps \<le> length xs" "\<forall>p \<in> set ?ps. p \<noteq> [] \<and> (\<forall>c \<in> set p. is_ascii c)"
    using form.pieces_props [of xs] by simp_all
  have "form.encoding xs = concat (map (\<lambda>b. if byte_serialized_unchanged b then [b] else if b = ascii CHR '' '' then ascii_bytes ''+''
       else [0x25, upper_digit (unat b div 16), upper_digit (unat b mod 16)]) xs)"
  proof (induction xs)
    case (Cons b xs)
    then show ?case by (simp add: form_enc_def [of b] percent_encode_byte_eq)
  qed simp
  with props show "concat (byte_serialize_collect (byte_serialize_new xs)) =
     concat (map (\<lambda>b. if byte_serialized_unchanged b then [b] else if b = ascii CHR '' '' then ascii_bytes ''+''
       else [0x25, upper_digit (unat b div 16), upper_digit (unat b mod 16)]) xs)"
    by (simp add: byte_serialize_new_def)
  show "list_all (\<lambda>p. p \<noteq> [] \<and> utf8_valid p) (byte_serialize_collect (byte_serialize_new xs))"
    using props(3) utf8_valid_ascii by (simp add: byte_serialize_new_def list_all_iff)
  have "xs \<noteq> [] \<Longrightarrow> 1 \<le> length ?ps" using form.pieces_empty [of xs] by (cases ?ps) auto
  with props(2) show "case byte_serialize_size_hint (byte_serialize_new xs) of
      (lower, upper) \<Rightarrow> lower \<le> length (byte_serialize_collect (byte_serialize_new xs)) \<and>
        pred_option (\<lambda>u. length (byte_serialize_collect (byte_serialize_new xs)) \<le> u) upper"
    by (cases "xs = []") (simp_all add: byte_serialize_size_hint_def byte_serialize_new_def)
qed

text \<open>
  The life of a serializer. A suffix that starts beyond the target is refused; \<open>finish\<close>
  hands out the target, and from then on every operation that needs it panics, \<open>finish\<close>
  included, while an unfinished serializer never panics on appending.
\<close>

theorem form_serializer_finished:
  "(form_for_suffix target start = None \<longleftrightarrow> length target < start) \<and>
   (case form_finish s of
      None \<Rightarrow> fs_target s = None
    | Some (s', t) \<Rightarrow> fs_target s = Some t \<and>
        form_finish s' = None \<and> form_clear s' = None \<and> form_append_pair s' k v = None \<and>
        form_append_key_only s' k = None \<and> form_extend_pairs s' ps = None \<and> form_extend_keys_only s' ks = None) \<and>
   (form_append_pair s k v = None \<longleftrightarrow> fs_target s = None) \<and>
   (form_extend_pairs s ps = None \<longleftrightarrow> fs_target s = None) \<and>
   (form_append_key_only s k = None \<longleftrightarrow> fs_target s = None) \<and>
   (form_extend_keys_only s ks = None \<longleftrightarrow> fs_target s = None)"
  by (cases "fs_target s")
    (simp_all add: form_for_suffix_def form_finish_def form_clear_def form_append_pair_def form_append_key_only_def
      form_extend_pairs_def form_extend_keys_only_def Let_def)

end
