(* ===== verification/Uuid.thy ===== *)
theory Uuid
  imports Rust_Str
begin

text \<open>
  The crate \<open>uuid\<close> (\<open>src/uuid/uuid.rs\<close>, \<open>src/uuid/hex.rs\<close>): the sixteen bytes of a UUID, the
  canonical text form, the 128-bit integer form, the version, and the generators of versions
  4 and 7. The random bytes of the \<open>rand\<close> crate and the system clock are arguments of the
  generators; the per-thread state of version 7 is passed explicitly. The lemmas show that
  parsing and printing are inverse up to the case of the digits, that the integer form is a
  bijection, and that version 7 UUIDs of one thread are strictly increasing whatever the
  clock and the random source do.
\<close>

section \<open>Definitions\<close>

subsection \<open>Hexadecimal digits\<close>

definition uuid_encode_nibble :: "byte \<Rightarrow> byte" where
  "uuid_encode_nibble nibble = nibble + ascii CHR ''0'' + (if nibble > 9 then 0x27 else 0)"

definition uuid_hex_value :: "byte \<Rightarrow> byte" where
  "uuid_hex_value b =
     (if ascii CHR ''0'' \<le> b \<and> b \<le> ascii CHR ''9'' then b - ascii CHR ''0''
      else if ascii CHR ''a'' \<le> b \<and> b \<le> ascii CHR ''f'' then b - ascii CHR ''a'' + 10
      else if ascii CHR ''A'' \<le> b \<and> b \<le> ascii CHR ''F'' then b - ascii CHR ''A'' + 10
      else 0xFF)"

text \<open>The loop that builds the table, entry by entry.\<close>

definition build_hex_decode_table :: "byte list" where
  "build_hex_decode_table =
     foldl (\<lambda>table i. table[i := uuid_hex_value (word_of_nat i)]) (replicate 256 0xFF) [0..<256]"

definition UUID_HEX_DECODE :: "byte list" where
  "UUID_HEX_DECODE = build_hex_decode_table"

definition uuid_decode_pair :: "byte \<Rightarrow> byte \<Rightarrow> byte option" where
  "uuid_decode_pair hi lo =
     (let h = UUID_HEX_DECODE ! unat hi; l = UUID_HEX_DECODE ! unat lo
      in if h = 0xFF \<or> l = 0xFF then None else Some (push_bit 4 h OR l))"

subsection \<open>The type, its text and its integer form\<close>

text \<open>\<open>Uuid([u8; 16])\<close>: the bytes, sixteen of them (\<open>uuid_wf\<close> below).\<close>

datatype uuid = Uuid "byte list"

fun uuid_bytes :: "uuid \<Rightarrow> byte list" where
  "uuid_bytes (Uuid bytes) = bytes"

datatype uuid_version =
    UvNil | UvV1 | UvV2 | UvV3 | UvV4 | UvV5 | UvV6 | UvV7 | UvV8 | UvMax | UvUnknown

datatype uuid_error = InvalidUuid

fun uuid_error_fmt :: "uuid_error \<Rightarrow> string" where
  "uuid_error_fmt InvalidUuid = ''invalid uuid''"

text \<open>The loop over the eight groups of four digits; the outer option is a panic.\<close>

fun uuid_parse_loop ::
  "byte list \<Rightarrow> (nat \<times> nat) list \<Rightarrow> byte list \<Rightarrow> (uuid_error, byte list) result option" where
  "uuid_parse_loop bytes [] buf = Some (Ok buf)"
| "uuid_parse_loop bytes ((j, pos) # rest) buf =
     do {
       c0 \<leftarrow> slice_get bytes pos; c1 \<leftarrow> slice_get bytes (pos + 1);
       case uuid_decode_pair c0 c1 of
         None \<Rightarrow> Some (Err InvalidUuid)
       | Some b0 \<Rightarrow>
           do {
             c2 \<leftarrow> slice_get bytes (pos + 2); c3 \<leftarrow> slice_get bytes (pos + 3);
             case uuid_decode_pair c2 c3 of
               None \<Rightarrow> Some (Err InvalidUuid)
             | Some b1 \<Rightarrow>
                 do {
                   buf \<leftarrow> slice_set buf (j * 2) b0;
                   buf \<leftarrow> slice_set buf (j * 2 + 1) b1;
                   uuid_parse_loop bytes rest buf
                 }
           }
     }"

definition uuid_positions :: "nat list" where
  "uuid_positions = [0, 4, 9, 14, 19, 24, 28, 32]"

definition uuid_parse :: "byte list \<Rightarrow> (uuid_error, uuid) result option" where
  "uuid_parse bytes =
     (if length bytes \<noteq> 36 then Some (Err InvalidUuid)
      else do {
        b8 \<leftarrow> slice_get bytes 8; b13 \<leftarrow> slice_get bytes 13; b18 \<leftarrow> slice_get bytes 18; b23 \<leftarrow> slice_get bytes 23;
        if b8 \<noteq> ascii CHR ''-'' \<or> b13 \<noteq> ascii CHR ''-'' \<or> b18 \<noteq> ascii CHR ''-'' \<or> b23 \<noteq> ascii CHR ''-''
        then Some (Err InvalidUuid)
        else do {
          r \<leftarrow> uuid_parse_loop bytes (enumerate 0 uuid_positions) (replicate 16 0);
          Some (case r of Err e \<Rightarrow> Err e | Ok buf \<Rightarrow> Ok (Uuid buf))
        }
      })"

definition uuid_groups :: "(nat \<times> nat) list" where
  "uuid_groups = [(0, 8), (9, 13), (14, 18), (19, 23), (24, 36)]"

text \<open>One group: two digits per byte from position \<open>j\<close> up to \<open>e\<close>.\<close>

function uuid_encode_group :: "byte list \<Rightarrow> nat \<Rightarrow> nat \<Rightarrow> nat \<Rightarrow> byte list \<Rightarrow> (nat \<times> byte list) option" where
  "uuid_encode_group bytes src j e buf =
     (if j < e
      then do {
        b \<leftarrow> slice_get bytes src;
        buf \<leftarrow> slice_set buf j (uuid_encode_nibble (drop_bit 4 b));
        buf \<leftarrow> slice_set buf (j + 1) (uuid_encode_nibble (b AND 0x0F));
        uuid_encode_group bytes (src + 1) (j + 2) e buf
      }
      else Some (src, buf))"
  by pat_completeness auto
termination
  by (relation "measure (\<lambda>(bytes, src, j, e, buf). e - j)") auto

declare uuid_encode_group.simps [simp del]

fun uuid_encode_groups :: "byte list \<Rightarrow> nat \<Rightarrow> (nat \<times> nat) list \<Rightarrow> nat \<Rightarrow> byte list \<Rightarrow> byte list option" where
  "uuid_encode_groups bytes gi [] src buf = Some buf"
| "uuid_encode_groups bytes gi ((s, e) # groups) src buf =
     do {
       (src, buf) \<leftarrow> uuid_encode_group bytes src s e buf;
       buf \<leftarrow> (if gi < 4 then slice_set buf e (ascii CHR ''-'') else Some buf);
       uuid_encode_groups bytes (gi + 1) groups src buf
     }"

definition uuid_encode_lower :: "uuid \<Rightarrow> byte list option" where
  "uuid_encode_lower u = uuid_encode_groups (uuid_bytes u) 0 uuid_groups 0 (replicate 36 0)"

text \<open>\<open>Display\<close>, \<open>Debug\<close> and \<open>to_heapless_string\<close> all write \<open>encode_lower\<close>.\<close>

definition uuid_fmt :: "uuid \<Rightarrow> byte list option" where
  "uuid_fmt u = uuid_encode_lower u"

definition uuid_to_heapless_string :: "uuid \<Rightarrow> byte list option" where
  "uuid_to_heapless_string u =
     do { buf \<leftarrow> uuid_encode_lower u; if length buf \<le> 36 then Some buf else None }"

definition uuid_from_bytes :: "byte list \<Rightarrow> uuid" where
  "uuid_from_bytes bytes = Uuid bytes"

definition uuid_from_slice :: "byte list \<Rightarrow> (uuid_error, uuid) result" where
  "uuid_from_slice bytes = (if length bytes = 16 then Ok (Uuid bytes) else Err InvalidUuid)"

definition uuid_as_bytes :: "uuid \<Rightarrow> byte list" where
  "uuid_as_bytes u = uuid_bytes u"

definition uuid_from_u128 :: "u128 \<Rightarrow> uuid" where
  "uuid_from_u128 v = Uuid [
     ucast (drop_bit 120 v), ucast (drop_bit 112 v), ucast (drop_bit 104 v), ucast (drop_bit 96 v),
     ucast (drop_bit 88 v), ucast (drop_bit 80 v), ucast (drop_bit 72 v), ucast (drop_bit 64 v),
     ucast (drop_bit 56 v), ucast (drop_bit 48 v), ucast (drop_bit 40 v), ucast (drop_bit 32 v),
     ucast (drop_bit 24 v), ucast (drop_bit 16 v), ucast (drop_bit 8 v), ucast v]"

text \<open>\<open>from_be_bytes\<close>: the first byte is the most significant.\<close>

definition be_val :: "byte list \<Rightarrow> nat" where
  "be_val bs = foldl (\<lambda>acc b. acc * 256 + unat b) 0 bs"

definition uuid_as_u128 :: "uuid \<Rightarrow> u128" where
  "uuid_as_u128 u = word_of_nat (be_val (uuid_bytes u))"

definition uuid_nil :: uuid where
  "uuid_nil = Uuid (replicate 16 0)"

definition uuid_max :: uuid where
  "uuid_max = Uuid (replicate 16 0xFF)"

definition uuid_get_version :: "uuid \<Rightarrow> uuid_version option" where
  "uuid_get_version u =
     do {
       b6 \<leftarrow> slice_get (uuid_bytes u) 6;
       let v = drop_bit 4 b6;
       Some (if v = 1 then UvV1 else if v = 2 then UvV2 else if v = 3 then UvV3 else if v = 4 then UvV4
             else if v = 5 then UvV5 else if v = 6 then UvV6 else if v = 7 then UvV7 else if v = 8 then UvV8
             else let all_zero = list_all (\<lambda>b. b = 0) (uuid_bytes u);
                      all_max = list_all (\<lambda>b. b = 0xFF) (uuid_bytes u)
                  in if all_zero then UvNil else if all_max then UvMax else UvUnknown)
     }"

definition uuid_timestamp :: "uuid \<Rightarrow> u64 option option" where
  "uuid_timestamp u =
     do {
       v \<leftarrow> uuid_get_version u;
       if v \<noteq> UvV7 then Some None
       else do {
         b \<leftarrow> slice_gets (uuid_bytes u) 0 6;
         Some (Some (push_bit 40 (ucast (b ! 0)) OR push_bit 32 (ucast (b ! 1)) OR push_bit 24 (ucast (b ! 2)) OR
           push_bit 16 (ucast (b ! 3)) OR push_bit 8 (ucast (b ! 4)) OR ucast (b ! 5)))
       }
     }"

subsection \<open>Generators\<close>

text \<open>\<open>random\<close> is what \<open>rand::rng().fill_bytes\<close> writes into the sixteen bytes.\<close>

definition uuid_new_v4 :: "byte list \<Rightarrow> uuid option" where
  "uuid_new_v4 random =
     do {
       let bytes = random;
       b6 \<leftarrow> slice_get bytes 6;
       bytes \<leftarrow> slice_set bytes 6 ((b6 AND 0x0F) OR 0x40);
       b8 \<leftarrow> slice_get bytes 8;
       bytes \<leftarrow> slice_set bytes 8 ((b8 AND 0x3F) OR 0x80);
       Some (Uuid bytes)
     }"

record v7_state =
  v7_ts :: u64
  v7_ctr :: u32

definition V7_STATE_init :: v7_state where
  "V7_STATE_init = \<lparr>v7_ts = 0, v7_ctr = 0\<rparr>"

definition v7_random_counter :: "byte list \<Rightarrow> u32" where
  "v7_random_counter seed = word_of_nat (be_val seed) AND 0x7FFFFFFF"

text \<open>The closure on the thread-local state; \<open>None\<close> is the overflow of \<open>ts += 1\<close>.\<close>

definition v7_advance :: "u64 \<Rightarrow> byte list \<Rightarrow> v7_state \<Rightarrow> v7_state option" where
  "v7_advance now_ms seed s =
     (if now_ms > v7_ts s then Some \<lparr>v7_ts = now_ms, v7_ctr = v7_random_counter seed\<rparr>
      else if v7_ctr s = 0xFFFFFFFF
      then (if v7_ts s = - 1 then None else Some \<lparr>v7_ts = v7_ts s + 1, v7_ctr = v7_random_counter seed\<rparr>)
      else Some \<lparr>v7_ts = v7_ts s, v7_ctr = v7_ctr s + 1\<rparr>)"

definition u64_to_be_bytes :: "u64 \<Rightarrow> byte list" where
  "u64_to_be_bytes v = map (\<lambda>k. ucast (drop_bit k v)) [56, 48, 40, 32, 24, 16, 8, 0]"

definition v7_pack :: "u64 \<Rightarrow> u32 \<Rightarrow> byte list \<Rightarrow> uuid option" where
  "v7_pack timestamp counter random =
     do {
       bytes \<leftarrow> slice_sets random 0 (take 6 (drop 2 (u64_to_be_bytes timestamp)));
       bytes \<leftarrow> slice_set bytes 6 (0x70 OR ucast (drop_bit 28 counter AND 0x0F));
       bytes \<leftarrow> slice_set bytes 7 (ucast (drop_bit 20 counter));
       bytes \<leftarrow> slice_set bytes 8 (0x80 OR ucast (drop_bit 14 counter AND 0x3F));
       bytes \<leftarrow> slice_set bytes 9 (ucast (drop_bit 6 counter));
       b10 \<leftarrow> slice_get bytes 10;
       bytes \<leftarrow> slice_set bytes 10 (ucast (push_bit 2 (counter AND 0x3F)) OR (b10 AND 0x03));
       Some (Uuid bytes)
     }"

definition uuid_new_v7_at :: "u64 \<Rightarrow> byte list \<Rightarrow> byte list \<Rightarrow> v7_state \<Rightarrow> (v7_state \<times> uuid) option" where
  "uuid_new_v7_at now_ms seed random s =
     do {
       s \<leftarrow> v7_advance now_ms seed s;
       u \<leftarrow> v7_pack (v7_ts s) (v7_ctr s) random;
       Some (s, u)
     }"

text \<open>The derived order of \<open>Uuid\<close>: lexicographic on the bytes.\<close>

definition uuid_cmp :: "uuid \<Rightarrow> uuid \<Rightarrow> ordering" where
  "uuid_cmp a b = list_cmp prim_cmp (uuid_bytes a) (uuid_bytes b)"

section \<open>Hexadecimal digits\<close>

lemma foldl_table:
  "length table = m \<Longrightarrow> n \<le> m \<Longrightarrow>
   length (foldl (\<lambda>t i. t[i := f i]) table [0..<n]) = m \<and>
   (\<forall>i < m. foldl (\<lambda>t i. t[i := f i]) table [0..<n] ! i = (if i < n then f i else table ! i))"
  by (induction n) (auto simp: nth_list_update)

lemma hex_decode_table [simp]: "UUID_HEX_DECODE ! unat b = uuid_hex_value b"
  using foldl_table [of "replicate 256 0xFF" 256 256 "\<lambda>i. uuid_hex_value (word_of_nat i)"]
  by (simp add: UUID_HEX_DECODE_def build_hex_decode_table_def)

definition to_ascii_lowercase :: "byte \<Rightarrow> byte" where
  "to_ascii_lowercase c = (if ascii CHR ''A'' \<le> c \<and> c \<le> ascii CHR ''Z'' then c + 0x20 else c)"

lemma lowercase_hyphen: "to_ascii_lowercase c = 0x2D \<longleftrightarrow> c = 0x2D"
proof -
  have "byte_all (\<lambda>c. (to_ascii_lowercase c = 0x2D) = (c = 0x2D))" by code_simp
  then show ?thesis by (rule byte_allD)
qed

lemma hex_value_iff:
  assumes "uint n \<le> 15"
  shows "uuid_hex_value c = n \<longleftrightarrow> to_ascii_lowercase c = uuid_encode_nibble n"
proof -
  have "byte_all (\<lambda>c. uuid_hex_value c \<noteq> 0xFF \<longrightarrow>
      uuid_hex_value c \<le> 15 \<and> to_ascii_lowercase c = uuid_encode_nibble (uuid_hex_value c))" by code_simp
  from byte_allD [OF this, of c] have val: "uuid_hex_value c \<noteq> 0xFF \<Longrightarrow> to_ascii_lowercase c = uuid_encode_nibble (uuid_hex_value c)"
    by blast
  have "byte_all (\<lambda>c. let l = to_ascii_lowercase c
      in (0x30 \<le> l \<and> l \<le> 0x39 \<longrightarrow> uuid_hex_value c = l - 0x30) \<and> (0x61 \<le> l \<and> l \<le> 0x66 \<longrightarrow> uuid_hex_value c = l - 0x57))"
    by code_simp
  from byte_allD [OF this, of c] have low: "to_ascii_lowercase c = l \<Longrightarrow>
      (0x30 \<le> l \<and> l \<le> 0x39 \<longrightarrow> uuid_hex_value c = l - 0x30) \<and> (0x61 \<le> l \<and> l \<le> 0x66 \<longrightarrow> uuid_hex_value c = l - 0x57)" for l
    by (simp add: Let_def)
  have "list_all (\<lambda>k. let n = word_of_int k :: byte; l = uuid_encode_nibble n
      in n \<noteq> 0xFF \<and> (0x30 \<le> l \<and> l \<le> 0x39 \<and> l - 0x30 = n \<or> 0x61 \<le> l \<and> l \<le> 0x66 \<and> l - 0x57 = n)) [0..15]" by code_simp
  from byte_less_all [OF this assms] have "n \<noteq> 0xFF"
    "0x30 \<le> uuid_encode_nibble n \<and> uuid_encode_nibble n \<le> 0x39 \<and> uuid_encode_nibble n - 0x30 = n \<or>
     0x61 \<le> uuid_encode_nibble n \<and> uuid_encode_nibble n \<le> 0x66 \<and> uuid_encode_nibble n - 0x57 = n"
    by (simp_all add: Let_def)
  note n = this
  show ?thesis
  proof
    show "uuid_hex_value c = n \<Longrightarrow> to_ascii_lowercase c = uuid_encode_nibble n" using val n(1) by simp
    assume "to_ascii_lowercase c = uuid_encode_nibble n"
    from low [OF this] n(2) show "uuid_hex_value c = n" by metis
  qed
qed

lemma nibble_le: "uint (drop_bit 4 b :: byte) \<le> 15" "uint (b AND 0x0F :: byte) \<le> 15"
proof -
  have "byte_all (\<lambda>b. drop_bit 4 b \<le> 15 \<and> b AND 0x0F \<le> 15)" by code_simp
  from byte_allD [OF this, of b] show "uint (drop_bit 4 b) \<le> 15" "uint (b AND 0x0F) \<le> 15"
    by (simp_all add: word_le_def)
qed

lemma hex_value_or_invalid: "uuid_hex_value c = 0xFF \<or> uint (uuid_hex_value c) \<le> 15"
proof -
  have "byte_all (\<lambda>c. uuid_hex_value c = 0xFF \<or> uuid_hex_value c \<le> 15)" by code_simp
  from byte_allD [OF this, of c] show ?thesis by (simp add: word_le_def)
qed

lemma nibbles_join:
  assumes "uint h \<le> 15" "uint l \<le> 15"
  shows "push_bit 4 h OR l = (b :: byte) \<longleftrightarrow> h = drop_bit 4 b \<and> l = b AND 0x0F"
proof
  have "list_all (\<lambda>i. list_all (\<lambda>j. let h = word_of_int i :: byte; l = word_of_int j
      in drop_bit 4 (push_bit 4 h OR l) = h \<and> (push_bit 4 h OR l) AND 0x0F = l) [0..15]) [0..15]" by code_simp
  from byte_less_all [OF this assms(1)]
  have "list_all (\<lambda>j. drop_bit 4 (push_bit 4 h OR word_of_int j) = h \<and> (push_bit 4 h OR word_of_int j) AND 0x0F = word_of_int j) [0..15]"
    by (simp only: Let_def)
  from byte_less_all [OF this assms(2)] show "push_bit 4 h OR l = b \<Longrightarrow> h = drop_bit 4 b \<and> l = b AND 0x0F" by auto
  have "byte_all (\<lambda>b. push_bit 4 (drop_bit 4 b) OR (b AND 0x0F) = b)" by code_simp
  from byte_allD [OF this, of b] show "h = drop_bit 4 b \<and> l = b AND 0x0F \<Longrightarrow> push_bit 4 h OR l = b" by simp
qed

text \<open>A pair of characters is read as a byte exactly when it prints it, up to case.\<close>

lemma decode_pair_iff:
  "uuid_decode_pair h l = Some b \<longleftrightarrow>
     to_ascii_lowercase h = uuid_encode_nibble (drop_bit 4 b) \<and>
     to_ascii_lowercase l = uuid_encode_nibble (b AND 0x0F)"
proof -
  have ne: "uint n \<le> 15 \<Longrightarrow> n \<noteq> 0xFF" for n :: byte by auto
  have "uuid_decode_pair h l = Some b \<longleftrightarrow> uuid_hex_value h = drop_bit 4 b \<and> uuid_hex_value l = b AND 0x0F"
  proof (cases "uuid_hex_value h = 0xFF \<or> uuid_hex_value l = 0xFF")
    case True
    then show ?thesis using ne [OF nibble_le(1) [of b]] ne [OF nibble_le(2) [of b]]
      by (auto simp: uuid_decode_pair_def Let_def)
  next
    case False
    then have "uint (uuid_hex_value h) \<le> 15" "uint (uuid_hex_value l) \<le> 15"
      using hex_value_or_invalid [of h] hex_value_or_invalid [of l] by blast+
    then show ?thesis using False nibbles_join by (simp add: uuid_decode_pair_def Let_def)
  qed
  also have "\<dots> \<longleftrightarrow> to_ascii_lowercase h = uuid_encode_nibble (drop_bit 4 b) \<and>
     to_ascii_lowercase l = uuid_encode_nibble (b AND 0x0F)"
    using hex_value_iff [OF nibble_le(1) [of b]] hex_value_iff [OF nibble_le(2) [of b]] by simp
  finally show ?thesis .
qed

section \<open>Parsing and printing\<close>

definition uuid_wf :: "uuid \<Rightarrow> bool" where
  "uuid_wf u \<longleftrightarrow> length (uuid_bytes u) = 16"

definition hex_pair :: "byte \<Rightarrow> byte list" where
  "hex_pair b = [uuid_encode_nibble (drop_bit 4 b), uuid_encode_nibble (b AND 0x0F)]"

definition uuid_text :: "byte list \<Rightarrow> byte list" where
  "uuid_text bs =
     concat (map hex_pair (take 4 bs)) @ 0x2D # concat (map hex_pair (take 2 (drop 4 bs))) @ 0x2D #
     concat (map hex_pair (take 2 (drop 6 bs))) @ 0x2D # concat (map hex_pair (take 2 (drop 8 bs))) @ 0x2D #
     concat (map hex_pair (take 6 (drop 10 bs)))"

lemma uuid_encode_group_eq:
  assumes "length done = j" "src + n \<le> length bytes" "2 * n \<le> length rest" "e = j + 2 * n"
  shows "uuid_encode_group bytes src j e (done @ rest) =
    Some (src + n, done @ concat (map hex_pair (take n (drop src bytes))) @ drop (2 * n) rest)"
  using assms
proof (induction n arbitrary: "done" src j rest)
  case 0
  then show ?case by (simp add: uuid_encode_group.simps)
next
  case (Suc n)
  then obtain x y rest' where rest: "rest = x # y # rest'"
    by (cases rest; cases "tl rest") auto
  let ?b = "bytes ! src"
  have drop: "drop src bytes = ?b # drop (Suc src) bytes" using Suc.prems by (simp add: Cons_nth_drop_Suc)
  have "uuid_encode_group bytes src j e (done @ rest) =
      uuid_encode_group bytes (src + 1) (j + 2) e ((done @ hex_pair ?b) @ rest')"
    using Suc.prems
    by (subst uuid_encode_group.simps)
      (simp add: rest slice_get_def slice_set_def hex_pair_def list_update_append)
  also have "\<dots> = Some (src + 1 + n, (done @ hex_pair ?b) @ concat (map hex_pair (take n (drop (src + 1) bytes))) @ drop (2 * n) rest')"
    using Suc.prems by (intro Suc.IH) (simp_all add: hex_pair_def rest)
  finally show ?case by (simp add: drop rest)
qed

lemma uuid_encode_lower_eq:
  assumes "length bs = 16"
  shows "uuid_encode_lower (Uuid bs) = Some (uuid_text bs)"
proof -
  have hp: "length (concat (map hex_pair xs)) = 2 * length xs" for xs by (induction xs) (simp_all add: hex_pair_def)
  let ?h = "\<lambda>n src. concat (map hex_pair (take n (drop src bs)))"
  have step: "uuid_encode_groups bs gi ((s, e) # gs) src (done @ replicate k 0) =
      uuid_encode_groups bs (gi + 1) gs (src + n) ((done @ ?h n src @ [0x2D]) @ replicate m 0)"
    if "gi < 4" "length done = s" "e = s + 2 * n" "k = 2 * n + 1 + m" "src + n \<le> 16" for gi s e gs src "done" k n m
  proof -
    have "uuid_encode_group bs src s e (done @ replicate k 0) = Some (src + n, done @ ?h n src @ replicate (1 + m) 0)"
    proof -
      have "drop (2 * n) (replicate k (0 :: byte)) = replicate (1 + m) 0"
        unfolding drop_replicate using that(4) by simp
      moreover have "src + n \<le> length bs" "2 * n \<le> length (replicate k (0 :: byte))" using that assms by simp_all
      ultimately show ?thesis using uuid_encode_group_eq [OF that(2) _ _ that(3)] by metis
    qed
    moreover have "slice_set (done @ ?h n src @ replicate (1 + m) 0) e 0x2D = Some ((done @ ?h n src @ [0x2D]) @ replicate m 0)"
      using that assms by (simp add: slice_set_def list_update_append hp)
    ultimately show ?thesis using that by simp
  qed
  define t1 where "t1 = [] @ ?h 4 0 @ [0x2D]"
  define t2 where "t2 = t1 @ ?h 2 4 @ [0x2D]"
  define t3 where "t3 = t2 @ ?h 2 6 @ [0x2D]"
  define t4 where "t4 = t3 @ ?h 2 8 @ [0x2D]"
  have len: "length t1 = 9" "length t2 = 14" "length t3 = 19" "length t4 = 24"
    using assms by (simp_all add: t1_def t2_def t3_def t4_def hp)
  have "uuid_encode_groups bs 0 uuid_groups 0 ([] @ replicate 36 0) =
      uuid_encode_groups bs (0 + 1) (tl uuid_groups) (0 + 4) (t1 @ replicate 27 0)"
    unfolding uuid_groups_def t1_def list.sel by (rule step) simp_all
  also have "0 + 4 = (4 :: nat)" by simp
  also have "uuid_encode_groups bs (0 + 1) (tl uuid_groups) 4 (t1 @ replicate 27 0) =
      uuid_encode_groups bs (0 + 1 + 1) (tl (tl uuid_groups)) (4 + 2) (t2 @ replicate 22 0)"
    unfolding uuid_groups_def t2_def list.sel by (rule step) (simp_all add: len)
  also have "4 + 2 = (6 :: nat)" by simp
  also have "uuid_encode_groups bs (0 + 1 + 1) (tl (tl uuid_groups)) 6 (t2 @ replicate 22 0) =
      uuid_encode_groups bs (0 + 1 + 1 + 1) (tl (tl (tl uuid_groups))) (6 + 2) (t3 @ replicate 17 0)"
    unfolding uuid_groups_def t3_def list.sel by (rule step) (simp_all add: len)
  also have "6 + 2 = (8 :: nat)" by simp
  also have "uuid_encode_groups bs (0 + 1 + 1 + 1) (tl (tl (tl uuid_groups))) 8 (t3 @ replicate 17 0) =
      uuid_encode_groups bs (0 + 1 + 1 + 1 + 1) (tl (tl (tl (tl uuid_groups)))) (8 + 2) (t4 @ replicate 12 0)"
    unfolding uuid_groups_def t4_def list.sel by (rule step) (simp_all add: len)
  also have "\<dots> = Some (t4 @ ?h 6 10)"
    using uuid_encode_group_eq [OF len(4), of 10 6 bs "replicate 12 0" 36] assms by (simp add: uuid_groups_def)
  finally show ?thesis
    by (simp add: uuid_encode_lower_def uuid_text_def t1_def t2_def t3_def t4_def)
qed


text \<open>The parser reads the pairs of digits at the sixteen offsets.\<close>

definition pair_at :: "byte list \<Rightarrow> nat \<Rightarrow> byte option" where
  "pair_at t p = uuid_decode_pair (t ! p) (t ! (p + 1))"

lemma uuid_parse_loop_eq:
  assumes "length done = j * 2" "\<forall>p \<in> set ps. p + 3 < length t"
  shows "uuid_parse_loop t (enumerate j ps) (done @ replicate (2 * length ps) 0) =
    Some (case those (concat (map (\<lambda>p. [pair_at t p, pair_at t (p + 2)]) ps)) of
            None \<Rightarrow> Err InvalidUuid | Some bs \<Rightarrow> Ok (done @ bs))"
  using assms
proof (induction ps arbitrary: "done" j)
  case (Cons p ps)
  then have get: "slice_get t p = Some (t ! p)" "slice_get t (p + 1) = Some (t ! (p + 1))"
    "slice_get t (p + 2) = Some (t ! (p + 2))" "slice_get t (p + 3) = Some (t ! (p + 3))"
    by (simp_all add: slice_get_def)
  show ?case
  proof (cases "pair_at t p")
    case None
    then show ?thesis using get by (simp add: pair_at_def)
  next
    case b0: (Some b0)
    show ?thesis
    proof (cases "pair_at t (p + 2)")
      case None
      then show ?thesis using b0 get by (simp add: pair_at_def numeral_3_eq_3 numeral_2_eq_2)
    next
      case b1: (Some b1)
      have set: "slice_set (done @ 0 # 0 # r) (j * 2) b0 = Some (done @ b0 # 0 # r)"
        "slice_set (done @ b0 # 0 # r) (j * 2 + 1) b1 = Some ((done @ [b0, b1]) @ r)" for r
        using Cons.prems by (simp_all add: slice_set_def list_update_append)
      have "uuid_parse_loop t (enumerate j (p # ps)) (done @ replicate (2 * length (p # ps)) 0) =
          uuid_parse_loop t (enumerate (Suc j) ps) ((done @ [b0, b1]) @ replicate (2 * length ps) 0)"
        using b0 b1 get set by (simp add: pair_at_def numeral_3_eq_3 numeral_2_eq_2)
      also have "\<dots> = Some (case those (concat (map (\<lambda>p. [pair_at t p, pair_at t (p + 2)]) ps)) of
            None \<Rightarrow> Err InvalidUuid | Some bs \<Rightarrow> Ok ((done @ [b0, b1]) @ bs))"
        using Cons.prems by (intro Cons.IH) simp_all
      finally show ?thesis using b0 b1
        by (simp add: option.map_comp comp_def split: option.split)
    qed
  qed
qed simp

definition uuid_offsets :: "nat list" where
  "uuid_offsets = [0, 2, 4, 6, 9, 11, 14, 16, 19, 21, 24, 26, 28, 30, 32, 34]"

lemma uuid_parse_eq:
  "uuid_parse t =
     Some (if length t = 36 \<and> t ! 8 = 0x2D \<and> t ! 13 = 0x2D \<and> t ! 18 = 0x2D \<and> t ! 23 = 0x2D
           then (case those (map (pair_at t) uuid_offsets) of None \<Rightarrow> Err InvalidUuid | Some bs \<Rightarrow> Ok (Uuid bs))
           else Err InvalidUuid)"
proof (cases "length t = 36")
  case True
  then have "uuid_parse_loop t (enumerate 0 uuid_positions) ([] @ replicate (2 * length uuid_positions) 0) =
      Some (case those (concat (map (\<lambda>p. [pair_at t p, pair_at t (p + 2)]) uuid_positions)) of
            None \<Rightarrow> Err InvalidUuid | Some bs \<Rightarrow> Ok ([] @ bs))"
    by (intro uuid_parse_loop_eq) (simp_all add: uuid_positions_def)
  moreover have "concat (map (\<lambda>p. [pair_at t p, pair_at t (p + 2)]) uuid_positions) = map (pair_at t) uuid_offsets"
    by (simp add: uuid_positions_def uuid_offsets_def numeral_2_eq_2)
  moreover have "2 * length uuid_positions = 16" by (simp add: uuid_positions_def)
  ultimately have "uuid_parse_loop t (enumerate 0 uuid_positions) (replicate 16 0) =
      Some (case those (map (pair_at t) uuid_offsets) of None \<Rightarrow> Err InvalidUuid | Some bs \<Rightarrow> Ok bs)"
    by (simp only: append_Nil)
  with True show ?thesis by (simp add: uuid_parse_def slice_get_def split: option.split)
qed (simp add: uuid_parse_def)


lemma those_eq_Some: "those os = Some xs \<longleftrightarrow> os = map Some xs"
proof (induction os arbitrary: xs)
  case (Cons a os)
  then show ?case by (cases a; cases xs) (auto simp: Cons)
qed auto

lemma pairs_text:
  assumes "length t = 36" and "length bs = 16"
  shows "t ! 8 = 0x2D \<and> t ! 13 = 0x2D \<and> t ! 18 = 0x2D \<and> t ! 23 = 0x2D \<and> map (pair_at t) uuid_offsets = map Some bs \<longleftrightarrow>
    map to_ascii_lowercase t = uuid_text bs"
proof -
  obtain c0 c1 c2 c3 c4 c5 c6 c7 c8 c9 c10 c11 c12 c13 c14 c15 c16 c17 c18 c19 c20 c21 c22 c23 c24 c25 c26 c27 c28 c29 c30 c31 c32 c33 c34 c35 where t: "t = [c0, c1, c2, c3, c4, c5, c6, c7, c8, c9, c10, c11, c12, c13, c14, c15, c16, c17, c18, c19, c20, c21, c22, c23, c24, c25, c26, c27, c28, c29, c30, c31, c32, c33, c34, c35]"
    using assms(1) by (auto simp: numeral_eq_Suc length_Suc_conv)
  obtain x0 x1 x2 x3 x4 x5 x6 x7 x8 x9 x10 x11 x12 x13 x14 x15 where bs: "bs = [x0, x1, x2, x3, x4, x5, x6, x7, x8, x9, x10, x11, x12, x13, x14, x15]"
    using assms(2) by (auto simp: numeral_eq_Suc length_Suc_conv)
  show ?thesis
    unfolding t bs
    by (simp add: uuid_offsets_def uuid_text_def hex_pair_def pair_at_def decode_pair_iff lowercase_hyphen) blast
qed

lemma uuid_text_length: "length bs = 16 \<Longrightarrow> length (uuid_text bs) = 36"
proof -
  have hp: "length (concat (map hex_pair xs)) = 2 * length xs" for xs by (induction xs) (simp_all add: hex_pair_def)
  show "length bs = 16 \<Longrightarrow> length (uuid_text bs) = 36" by (simp add: uuid_text_def hp)
qed

section \<open>The integer form\<close>

lemma be_val_simps [simp]:
  "be_val [] = 0"
  "be_val (b # bs) = unat b * 256 ^ length bs + be_val bs"
proof -
  have "foldl (\<lambda>acc b. acc * 256 + unat b) acc bs = acc * 256 ^ length bs + foldl (\<lambda>acc b. acc * 256 + unat b) 0 bs" for acc and bs :: "byte list"
  proof (induction bs arbitrary: acc)
    case (Cons b bs)
    show ?case unfolding foldl_Cons using Cons [of "acc * 256 + unat b"] Cons [of "0 * 256 + unat b"]
      by (simp add: algebra_simps)
  qed simp
  from this [of "unat b" bs] show "be_val (b # bs) = unat b * 256 ^ length bs + be_val bs" by (simp add: be_val_def)
qed (simp add: be_val_def)

lemma be_val_less: "be_val bs < 256 ^ length bs"
proof (induction bs)
  case (Cons b bs)
  have "Suc (unat b) \<le> 256" using unat_byte_less [of b] by linarith
  have "be_val (b # bs) < Suc (unat b) * 256 ^ length bs" using Cons by simp
  also have "\<dots> \<le> 256 * 256 ^ length bs" using \<open>Suc (unat b) \<le> 256\<close> by (intro mult_le_mono1)
  finally show ?case by simp
qed simp

lemma mixed_radix_less:
  fixes x y a b m :: nat
  assumes "a < m" "b < m"
  shows "x * m + a < y * m + b \<longleftrightarrow> x < y \<or> x = y \<and> a < b"
    and "x * m + a = y * m + b \<longleftrightarrow> x = y \<and> a = b"
proof -
  have less: "x' * m + a' < y' * m + b'" if "x' < y'" "a' < m" for x' y' a' b'
  proof -
    have "Suc x' * m \<le> y' * m" using that(1) by (intro mult_le_mono1) simp
    then show ?thesis using that(2) by simp
  qed
  show "x * m + a < y * m + b \<longleftrightarrow> x < y \<or> x = y \<and> a < b"
    using less [of x y a b] less [of y x b a] assms by (cases x y rule: linorder_cases) auto
  show "x * m + a = y * m + b \<longleftrightarrow> x = y \<and> a = b"
    using less [of x y a b] less [of y x b a] assms by (cases x y rule: linorder_cases) auto
qed

text \<open>The bytes, most significant first, compare as the number they write.\<close>

lemma list_cmp_be_val:
  "length xs = length ys \<Longrightarrow> list_cmp prim_cmp xs ys = prim_cmp (be_val xs) (be_val ys)"
proof (induction xs ys rule: list_induct2)
  case (Cons x xs y ys)
  have "unat x < unat y \<longleftrightarrow> x < y" "unat x = unat y \<longleftrightarrow> x = y" by (simp_all add: word_less_nat_alt word_unat_eq_iff)
  then show ?case
    using Cons mixed_radix_less [of "be_val xs" "256 ^ length xs" "be_val ys" "unat x" "unat y"]
      be_val_less [of xs] be_val_less [of ys]
    by (auto simp: prim_cmp_def cmp_then_def split: if_splits)
qed (simp add: prim_cmp_def)

lemma be_val_inj: "length xs = length ys \<Longrightarrow> be_val xs = be_val ys \<longleftrightarrow> xs = ys"
proof (induction xs ys rule: list_induct2)
  case (Cons x xs y ys)
  then show ?case
    using mixed_radix_less(2) [of "be_val xs" "256 ^ length xs" "be_val ys" "unat x" "unat y"]
      be_val_less [of xs] be_val_less [of ys] by (auto simp: word_unat_eq_iff)
qed simp

lemma unat_drop_div: "unat (drop_bit n (v :: 'a :: len word)) = unat v div 2 ^ n"
  by (simp only: unat_drop_bit_eq) (simp add: drop_bit_eq_div)

lemma unat_byte_of: "unat (ucast (drop_bit n v) :: byte) = unat v div 2 ^ n mod 256"
  for v :: "'a :: len word"
proof -
  have "unat (ucast w :: byte) = unat w mod 256" for w :: "'a word" by (simp add: unsigned_ucast_eq take_bit_eq_mod)
  then show ?thesis by (simp only: unat_drop_div)
qed

text \<open>The bytes of a word: its value modulo a power of 256.\<close>

lemma be_val_bytes:
  "be_val (map (\<lambda>k. ucast (drop_bit (8 * k) v)) (rev [0..<n])) = unat (v :: 'a :: len word) mod 256 ^ n"
proof (induction n)
  case (Suc n)
  have "unat v mod 256 ^ Suc n = 256 ^ n * (unat v div 256 ^ n mod 256) + unat v mod 256 ^ n"
    by (metis mod_mult2_eq power_Suc2)
  moreover have "(2 :: nat) ^ (8 * n) = 256 ^ n" by (simp add: power_mult)
  ultimately show ?case using Suc by (simp add: unat_byte_of)
qed simp

lemma uuid_from_u128_bytes: "uuid_from_u128 v = Uuid (map (\<lambda>k. ucast (drop_bit (8 * k) v)) (rev [0..<16]))"
  by (simp add: uuid_from_u128_def upt_16)

lemma unat_u128_less: "unat (v :: u128) < 256 ^ 16"
  using unsigned_less [of v] by simp


section \<open>Version 7\<close>

text \<open>The bytes that carry the counter, as numbers.\<close>

lemma byte_or_field:
  assumes "unat (n :: byte) < 64"
  shows "unat (0x80 OR n) = 0x80 + unat n"
    and "unat n < 16 \<Longrightarrow> unat (0x70 OR n) = 0x70 + unat n"
proof -
  have "int (unat n) < 64" using assms by linarith
  then have n: "uint n \<le> 63" by simp
  have "list_all (\<lambda>k. let n = word_of_int k :: byte in 0x80 OR n = 0x80 + n) [0..63]" by code_simp
  from byte_less_all [OF this n] have "0x80 OR n = 0x80 + n" by (simp only: Let_def)
  then show "unat (0x80 OR n) = 0x80 + unat n" using assms by (simp add: unat_word_ariths)
  have "list_all (\<lambda>k. let n = word_of_int k :: byte in 0x70 OR n = 0x70 + n) [0..15]" by code_simp
  moreover have "uint n \<le> 15" if "unat n < 16"
  proof -
    have "int (unat n) < 16" using that by linarith
    then show ?thesis by simp
  qed
  ultimately have "unat n < 16 \<Longrightarrow> 0x70 OR n = 0x70 + n"
    using byte_less_all [of "\<lambda>n. 0x70 OR n = 0x70 + n" 15 n] by (simp only: Let_def)
  then show "unat n < 16 \<Longrightarrow> unat (0x70 OR n) = 0x70 + unat n" by (simp add: unat_word_ariths)
qed

lemma unat_and_mask: "unat (v AND mask k) = unat (v :: 'a :: len word) mod 2 ^ k"
proof -
  have "v AND mask k = take_bit k v" by (simp add: take_bit_eq_mask)
  then have "unat (v AND mask k) = take_bit k (unat v)" by (simp only: unsigned_take_bit_eq)
  then show ?thesis by (simp only: take_bit_eq_mod)
qed

lemma v7_counter_bytes:
  fixes c :: u32 and r :: byte
  shows "unat (0x70 OR ucast (drop_bit 28 c AND 0x0F) :: byte) = 0x70 + unat c div 2 ^ 28"
    and "unat (0x80 OR ucast (drop_bit 14 c AND 0x3F) :: byte) = 0x80 + unat c div 2 ^ 14 mod 64"
    and "unat (ucast (push_bit 2 (c AND 0x3F)) OR (r AND 0x03) :: byte) = unat c mod 64 * 4 + unat r mod 4"
proof -
  have c: "unat c < 2 ^ 32" using unsigned_less [of c] by simp
  have uc: "unat (ucast w :: byte) = unat w mod 256" for w :: u32 by (simp add: unsigned_ucast_eq take_bit_eq_mod)
  have m4: "unat (drop_bit 28 c AND 0x0F) = unat c div 2 ^ 28 mod 16"
  proof -
    have "unat (drop_bit 28 c AND mask 4) = unat c div 2 ^ 28 mod 2 ^ 4" by (simp only: unat_and_mask unat_drop_div)
    then show ?thesis by (simp add: mask_eq_exp_minus_1)
  qed
  have "unat c div 2 ^ 28 < 16" using c by (simp add: less_mult_imp_div_less)
  then show "unat (0x70 OR ucast (drop_bit 28 c AND 0x0F) :: byte) = 0x70 + unat c div 2 ^ 28"
    using byte_or_field(2) [of "ucast (drop_bit 28 c AND 0x0F)"] by (simp add: uc m4)
  have m6: "unat (drop_bit 14 c AND 0x3F) = unat c div 2 ^ 14 mod 64"
  proof -
    have "unat (drop_bit 14 c AND mask 6) = unat c div 2 ^ 14 mod 2 ^ 6" by (simp only: unat_and_mask unat_drop_div)
    then show ?thesis by (simp add: mask_eq_exp_minus_1)
  qed
  show "unat (0x80 OR ucast (drop_bit 14 c AND 0x3F) :: byte) = 0x80 + unat c div 2 ^ 14 mod 64"
    using byte_or_field(1) [of "ucast (drop_bit 14 c AND 0x3F)"] by (simp add: uc m6)
  have l6: "unat (c AND 0x3F) = unat c mod 64" using unat_and_mask [of c 6] by (simp add: mask_eq_exp_minus_1)
  have push: "ucast (push_bit 2 w) = push_bit 2 (ucast w :: byte)" for w :: u32
    by (rule bit_word_eqI) (auto simp: bit_simps)
  have join: "unat (push_bit 2 (ucast (c AND 0x3F)) OR (r AND 0x03) :: byte) =
      unat (ucast (c AND 0x3F) :: byte) * 2 ^ 2 + unat (r AND 0x03)"
  proof (rule unat_push_or)
    have "unat c mod 64 < 64" by simp
    then show "unat (ucast (c AND 0x3F) :: byte) * 2 ^ 2 < 256" by (simp add: uc l6)
    show "unat (r AND 0x03) < 2 ^ 2" using unat_and_mask_mod [of r 2] by (simp add: mask_eq_exp_minus_1)
  qed simp
  show "unat (ucast (push_bit 2 (c AND 0x3F)) OR (r AND 0x03) :: byte) = unat c mod 64 * 4 + unat r mod 4"
    unfolding push join using unat_and_mask_mod [of r 2] by (simp add: uc l6 mask_eq_exp_minus_1)
qed

text \<open>The eleven bytes that \<open>new_v7_at\<close> writes; the five after them stay random.\<close>

definition v7_time_bytes :: "u64 \<Rightarrow> byte list" where
  "v7_time_bytes ts = map (\<lambda>k. ucast (drop_bit (8 * k) ts)) (rev [0..<6])"

definition v7_counter_part :: "u32 \<Rightarrow> byte \<Rightarrow> byte list" where
  "v7_counter_part c r =
     [0x70 OR ucast (drop_bit 28 c AND 0x0F), ucast (drop_bit 20 c), 0x80 OR ucast (drop_bit 14 c AND 0x3F),
      ucast (drop_bit 6 c), ucast (push_bit 2 (c AND 0x3F)) OR (r AND 0x03)]"

lemma v7_pack_eq:
  assumes "length random = 16"
  shows "v7_pack ts c random = Some (Uuid (v7_time_bytes ts @ v7_counter_part c (random ! 10) @ drop 11 random))"
proof -
  obtain r0 r1 r2 r3 r4 r5 r6 r7 r8 r9 r10 rest where random: "random = [r0, r1, r2, r3, r4, r5, r6, r7, r8, r9, r10] @ rest"
    using assms by (auto simp: numeral_eq_Suc length_Suc_conv)
  have time: "take 6 (drop 2 (u64_to_be_bytes ts)) = v7_time_bytes ts" "length (v7_time_bytes ts) = 6"
    by (simp_all add: u64_to_be_bytes_def v7_time_bytes_def upt_rec)
  have upd: "slice_set (v7_time_bytes ts @ xs) (6 + i) b = (if i < length xs then Some (v7_time_bytes ts @ xs[i := b]) else None)" for xs i b
    by (simp add: slice_set_def time(2) list_update_append)
  have get: "slice_get (v7_time_bytes ts @ xs) (6 + i) = (if i < length xs then Some (xs ! i) else None)" for xs i
    by (simp add: slice_get_def time(2) nth_append)
  have "slice_sets random 0 (v7_time_bytes ts) = Some (v7_time_bytes ts @ [r6, r7, r8, r9, r10] @ rest)"
    using slice_sets_in [of 0 "v7_time_bytes ts" random] by (simp add: time(2) random)
  then show ?thesis
    using upd [of _ 0] upd [of _ 1] upd [of _ 2] upd [of _ 3] upd [of _ 4] get [of _ 4]
    unfolding v7_pack_def time(1) by (simp add: v7_counter_part_def random)
qed

lemma v7_time_val: "unat ts < 2 ^ 48 \<Longrightarrow> be_val (v7_time_bytes ts) = unat ts"
  using be_val_bytes [of ts 6] by (simp add: v7_time_bytes_def)

text \<open>The counter part is strictly monotone in the counter, whatever the random bits below it.\<close>

lemma v7_counter_less:
  assumes "c < d"
  shows "be_val (v7_counter_part c r) < be_val (v7_counter_part d s)"
proof -
  have split: "n = ((n div 268435456 * 256 + n div 1048576 mod 256) * 64 + n div 16384 mod 64) * 16384 +
      (n div 64 mod 256 * 64 + n mod 64)" for n :: nat
  proof -
    have "n div 1048576 = n div 268435456 * 256 + n div 1048576 mod 256"
      using div_mult_mod_eq [of "n div 1048576" 256] by (simp flip: div_mult2_eq)
    moreover have "n div 16384 = n div 1048576 * 64 + n div 16384 mod 64"
      using div_mult_mod_eq [of "n div 16384" 64] by (simp flip: div_mult2_eq)
    moreover have "n div 64 = n div 16384 * 256 + n div 64 mod 256"
      using div_mult_mod_eq [of "n div 64" 256] by (simp flip: div_mult2_eq)
    moreover have "n = n div 64 * 64 + n mod 64" by simp
    moreover have "m = ((a * 256 + d3) * 64 + d2) * 16384 + (d1 * 64 + d0)"
      if "q20 = a * 256 + d3" "q14 = q20 * 64 + d2" "q6 = q14 * 256 + d1" "m = q6 * 64 + d0"
      for m a d3 d2 d1 d0 q20 q14 q6 :: nat
      unfolding that by simp
    ultimately show ?thesis by blast
  qed
  have val: "be_val (v7_counter_part c r) =
      ((0x7000 + (unat c div 268435456 * 256 + unat c div 1048576 mod 256)) * 256 + 0x80 + unat c div 16384 mod 64) * 65536 +
      (unat c div 64 mod 256 * 256 + (unat c mod 64 * 4 + unat r mod 4))" for c r
  proof -
    have pow: "(2 :: nat) ^ 28 = 268435456" "(2 :: nat) ^ 20 = 1048576" "(2 :: nat) ^ 14 = 16384" "(2 :: nat) ^ 6 = 64"
      by simp_all
    have be5: "be_val [a, b, c, d, e] = (((unat a * 256 + unat b) * 256 + unat c) * 256 + unat d) * 256 + unat e" for a b c d e
      by (simp add: be_val_def)
    have "((((0x70 + a) * 256 + e) * 256 + (0x80 + g)) * 256 + h) * 256 + (k * 4 + q) =
        ((0x7000 + (a * 256 + e)) * 256 + 0x80 + g) * 65536 + (h * 256 + (k * 4 + q))" for a e g h k q :: nat by simp
    then show ?thesis unfolding v7_counter_part_def be5 v7_counter_bytes unat_byte_of pow .
  qed
  define f where "f = (\<lambda>c :: u32. unat c div 268435456 * 256 + unat c div 1048576 mod 256)"
  define g h k where "g = (\<lambda>c :: u32. unat c div 16384 mod 64)" and "h = (\<lambda>c :: u32. unat c div 64 mod 256)"
    and "k = (\<lambda>c :: u32. unat c mod 64)"
  note fields = f_def g_def h_def k_def
  have b: "g c < 64" "h c < 256" "k c < 64" for c by (simp_all add: fields)
  have lex: "unat c = (f c * 64 + g c) * 16384 + (h c * 64 + k c)" for c using split [of "unat c"] by (simp only: fields)
  have low: "h c * 64 + k c < 16384" for c using b [of c] by linarith
  have "f c * 64 + g c < f d * 64 + g d \<or> f c * 64 + g c = f d * 64 + g d \<and> h c * 64 + k c < h d * 64 + k d"
    using assms low [of c] low [of d] mixed_radix_less(1) unfolding word_less_nat_alt lex by blast
  then have cases: "f c < f d \<or> f c = f d \<and> g c < g d \<or> f c = f d \<and> g c = g d \<and> (h c < h d \<or> h c = h d \<and> k c < k d)"
    using b [of c] b [of d] by (simp add: mixed_radix_less)
  have v: "be_val (v7_counter_part c r) = ((0x7000 + f c) * 256 + 0x80 + g c) * 65536 + (h c * 256 + (k c * 4 + unat r mod 4))" for c r
    unfolding val fields ..
  have less: "((0x7000 + f1) * 256 + 0x80 + g1) * 65536 + (h1 * 256 + (k1 * 4 + p)) <
      ((0x7000 + f2) * 256 + 0x80 + g2) * 65536 + (h2 * 256 + (k2 * 4 + q))"
    if "f1 < f2 \<or> f1 = f2 \<and> g1 < g2 \<or> f1 = f2 \<and> g1 = g2 \<and> (h1 < h2 \<or> h1 = h2 \<and> k1 < k2)"
      "g1 < 64" "h1 < 256" "k1 < 64" "p < 4" for f1 f2 g1 g2 h1 h2 k1 k2 p q :: nat
    using that by auto
  show ?thesis unfolding v by (rule less [OF cases b]) simp
qed


lemma be_val_append: "be_val (xs @ ys) = be_val xs * 256 ^ length ys + be_val ys"
  by (induction xs) (simp_all add: power_add algebra_simps)

text \<open>The state grows in the order of its timestamp, then of its counter.\<close>

definition v7_before :: "v7_state \<Rightarrow> v7_state \<Rightarrow> bool" where
  "v7_before s t \<longleftrightarrow> v7_ts s < v7_ts t \<or> v7_ts s = v7_ts t \<and> v7_ctr s < v7_ctr t"

lemma u32_max: "(0xFFFFFFFF :: u32) = - 1"
  by simp

lemma v7_advance_before: "v7_advance now seed s = Some t \<Longrightarrow> v7_before s t"
proof -
  have inc: "x \<noteq> - 1 \<Longrightarrow> x < x + 1" for x :: "'a :: len word"
  proof -
    assume "x \<noteq> - 1"
    then have "x + 1 \<noteq> 0" by (metis add_eq_0_iff add.commute)
    then show "x < x + 1" by (simp add: unatSuc word_less_nat_alt add.commute [of x])
  qed
  show "v7_advance now seed s = Some t \<Longrightarrow> v7_before s t"
    using inc [of "v7_ts s"] inc [of "v7_ctr s", folded u32_max]
    by (auto simp: v7_advance_def v7_before_def split: if_splits)
qed

lemma v7_before_trans: "v7_before s t \<Longrightarrow> v7_before t u \<Longrightarrow> v7_before s u"
  by (auto simp: v7_before_def)

definition v7_uuid_of :: "v7_state \<Rightarrow> uuid \<Rightarrow> bool" where
  "v7_uuid_of s u \<longleftrightarrow> (\<exists>r rest. length rest = 5 \<and> u = Uuid (v7_time_bytes (v7_ts s) @ v7_counter_part (v7_ctr s) r @ rest))"

lemma v7_uuid_less:
  assumes "v7_uuid_of s u" "v7_uuid_of t w" "v7_before s t" "v7_ts t < 2 ^ 48"
  shows "uuid_cmp u w = Less"
proof -
  obtain r rest where u: "u = Uuid (v7_time_bytes (v7_ts s) @ v7_counter_part (v7_ctr s) r @ rest)" "length rest = 5"
    using assms(1) by (auto simp: v7_uuid_of_def)
  obtain r' rest' where w: "w = Uuid (v7_time_bytes (v7_ts t) @ v7_counter_part (v7_ctr t) r' @ rest')" "length rest' = 5"
    using assms(2) by (auto simp: v7_uuid_of_def)
  have len: "length (v7_time_bytes ts) = 6" "length (v7_counter_part c q) = 5" for ts c q
    by (simp_all add: v7_time_bytes_def v7_counter_part_def)
  have ts: "unat (v7_ts t) < 2 ^ 48" "unat (v7_ts s) \<le> unat (v7_ts t)"
    using assms(3,4) by (auto simp: v7_before_def word_less_nat_alt)
  then have time: "be_val (v7_time_bytes (v7_ts t)) = unat (v7_ts t)" "be_val (v7_time_bytes (v7_ts s)) = unat (v7_ts s)"
    by (simp_all add: v7_time_val)
  let ?c = "be_val (v7_counter_part (v7_ctr s) r)" and ?d = "be_val (v7_counter_part (v7_ctr t) r')"
  have bounds: "?c < 256 ^ 5" "?d < 256 ^ 5" "be_val rest < 256 ^ 5" "be_val rest' < 256 ^ 5"
    using be_val_less [of "v7_counter_part (v7_ctr s) r"] be_val_less [of "v7_counter_part (v7_ctr t) r'"]
      be_val_less [of rest] be_val_less [of rest'] len u(2) w(2) by simp_all
  have "unat (v7_ts s) * 256 ^ 5 + ?c < unat (v7_ts t) * 256 ^ 5 + ?d"
    using assms(3) v7_counter_less [of "v7_ctr s" "v7_ctr t" r r']
    unfolding mixed_radix_less(1) [OF bounds(1,2)] by (auto simp: v7_before_def word_less_nat_alt)
  then have "(unat (v7_ts s) * 256 ^ 5 + ?c) * 256 ^ 5 + be_val rest < (unat (v7_ts t) * 256 ^ 5 + ?d) * 256 ^ 5 + be_val rest'"
    unfolding mixed_radix_less(1) [OF bounds(3,4)] by blast
  moreover have "be_val (uuid_bytes u) = (unat (v7_ts s) * 256 ^ 5 + ?c) * 256 ^ 5 + be_val rest"
    using u len time by (simp add: be_val_append algebra_simps)
  moreover have "be_val (uuid_bytes w) = (unat (v7_ts t) * 256 ^ 5 + ?d) * 256 ^ 5 + be_val rest'"
    using w len time by (simp add: be_val_append algebra_simps)
  moreover have "length (uuid_bytes u) = length (uuid_bytes w)" using u w len by simp
  ultimately show ?thesis by (simp add: uuid_cmp_def list_cmp_be_val prim_cmp_def)
qed

lemma uuid_new_v7_at_eq:
  assumes "length random = 16"
  shows "uuid_new_v7_at now seed random s = Some (t, u) \<longleftrightarrow>
    v7_advance now seed s = Some t \<and> u = Uuid (v7_time_bytes (v7_ts t) @ v7_counter_part (v7_ctr t) (random ! 10) @ drop 11 random)"
  using v7_pack_eq [OF assms] by (cases "v7_advance now seed s") (auto simp: uuid_new_v7_at_def)

text \<open>
  The UUIDs one thread generates from a state on, with any clock readings and any random
  bytes.
\<close>

inductive v7_trace :: "v7_state \<Rightarrow> uuid list \<Rightarrow> v7_state \<Rightarrow> bool" where
  v7_nil: "v7_trace s [] s"
| v7_step: "uuid_new_v7_at now seed random s = Some (t, u) \<Longrightarrow> length random = 16 \<Longrightarrow> length seed = 4 \<Longrightarrow>
    v7_trace t us s' \<Longrightarrow> v7_trace s (u # us) s'"

inductive_cases v7_trace_consE: "v7_trace s (u # us) s'"

lemma v7_trace_states:
  "v7_trace s us s' \<Longrightarrow> \<exists>ss. list_all2 v7_uuid_of ss us \<and> sorted_wrt v7_before (s # ss) \<and>
     (\<forall>t \<in> set ss. v7_ts t \<le> v7_ts s') \<and> v7_ts s \<le> v7_ts s'"
proof (induction rule: v7_trace.induct)
  case (v7_step now seed random s t u us s')
  from v7_step.IH obtain ss where ss: "list_all2 v7_uuid_of ss us" "sorted_wrt v7_before (t # ss)"
    "\<forall>t \<in> set ss. v7_ts t \<le> v7_ts s'" "v7_ts t \<le> v7_ts s'" by blast
  have adv: "v7_advance now seed s = Some t"
    and u: "u = Uuid (v7_time_bytes (v7_ts t) @ v7_counter_part (v7_ctr t) (random ! 10) @ drop 11 random)"
    using v7_step.hyps uuid_new_v7_at_eq by blast+
  have before: "v7_before s t" by (rule v7_advance_before [OF adv])
  then have "v7_ts s \<le> v7_ts t" by (auto simp: v7_before_def)
  moreover have "v7_uuid_of t u"
    unfolding v7_uuid_of_def u by (rule exI [of _ "random ! 10"], rule exI [of _ "drop 11 random"]) (simp add: v7_step.hyps)
  moreover have "\<forall>w \<in> set ss. v7_before s w" using ss(2) before v7_before_trans by auto
  ultimately show ?case using ss before by (intro exI [of _ "t # ss"]) auto
qed (intro exI [of _ "[]"], simp)

lemma v7_version_byte: "drop_bit 4 (v7_counter_part c r ! 0) = 7"
proof -
  have "unat c < 2 ^ 32" using unsigned_less [of c] by simp
  then have "unat c div 2 ^ 28 < 16" by (simp add: less_mult_imp_div_less)
  then have "unat (drop_bit 4 (0x70 OR ucast (drop_bit 28 c AND 0x0F) :: byte)) = 7"
    unfolding unat_drop_div v7_counter_bytes by simp
  then show ?thesis by (simp add: v7_counter_part_def word_unat_eq_iff)
qed

lemma v7_time_join:
  "let b = v7_time_bytes ts
   in push_bit 40 (ucast (b ! 0)) OR push_bit 32 (ucast (b ! 1)) OR push_bit 24 (ucast (b ! 2)) OR
      push_bit 16 (ucast (b ! 3)) OR push_bit 8 (ucast (b ! 4)) OR ucast (b ! 5) = take_bit 48 ts"
proof -
  have "v7_time_bytes ts = [ucast (drop_bit 40 ts), ucast (drop_bit 32 ts), ucast (drop_bit 24 ts),
      ucast (drop_bit 16 ts), ucast (drop_bit 8 ts), ucast ts]"
    by (simp add: v7_time_bytes_def upt_rec)
  moreover have "push_bit 40 (ucast (ucast (drop_bit 40 ts) :: byte)) OR push_bit 32 (ucast (ucast (drop_bit 32 ts) :: byte)) OR
      push_bit 24 (ucast (ucast (drop_bit 24 ts) :: byte)) OR push_bit 16 (ucast (ucast (drop_bit 16 ts) :: byte)) OR
      push_bit 8 (ucast (ucast (drop_bit 8 ts) :: byte)) OR ucast (ucast ts :: byte) = take_bit 48 ts" (is "?joined = _")
  proof (rule bit_word_eqI)
    fix n assume "n < LENGTH(64)"
    then have n: "n < 64" by simp
    have part: "bit (push_bit k (ucast (ucast (drop_bit k ts) :: byte)) :: u64) n \<longleftrightarrow> k \<le> n \<and> n < k + 8 \<and> bit ts n" for k
      using n by (auto simp: bit_push_bit_iff bit_ucast_iff bit_drop_bit_eq)
    have low: "bit (ucast (ucast ts :: byte) :: u64) n \<longleftrightarrow> n < 8 \<and> bit ts n"
      using n by (auto simp: bit_ucast_iff)
    show "bit ?joined n = bit (take_bit 48 ts) n"
      unfolding bit_or_iff part low bit_take_bit_iff by (cases "bit ts n") (simp_all, linarith)
  qed
  ultimately show ?thesis by (simp only: Let_def nth_Cons_0 nth_Cons_numeral) simp
qed

section \<open>Properties\<close>

text \<open>
  C11: version 7 UUIDs are strictly increasing. Whatever the clock readings (repeated, or
  going backwards) and the random bytes, the UUIDs one thread generates compare as they were
  generated, as long as its logical timestamp fits the 48 bits of the format.
\<close>

theorem uuid_v7_monotone:
  assumes "v7_trace s us s'" and "v7_ts s' < 2 ^ 48"
  shows "sorted_wrt (\<lambda>a b. uuid_cmp a b = Less) us"
proof -
  obtain ss where ss: "list_all2 v7_uuid_of ss us" "sorted_wrt v7_before ss" "\<forall>t \<in> set ss. v7_ts t < 2 ^ 48"
    using v7_trace_states [OF assms(1)] assms(2) by fastforce
  then show ?thesis
  proof (induction ss us rule: list_all2_induct)
    case (Cons t ss u us)
    have "uuid_cmp u w = Less" if "w \<in> set us" for w
    proof -
      from that Cons.hyps(2) obtain i where "i < length us" "w = us ! i" "v7_uuid_of (ss ! i) w" "ss ! i \<in> set ss"
        by (metis in_set_conv_nth list_all2_conv_all_nth)
      with Cons show ?thesis using v7_uuid_less [of t u "ss ! i" w] by simp
    qed
    with Cons show ?case by simp
  qed simp
qed

lemma uuid_v7_monotone_witness:
  "\<exists>us s'. v7_trace V7_STATE_init us s' \<and> length us = 2 \<and> sorted_wrt (\<lambda>a b. uuid_cmp a b = Less) us"
proof -
  let ?r = "replicate 16 0" and ?z = "replicate 4 0"
  let ?t = "\<lparr>v7_ts = 5, v7_ctr = v7_random_counter ?z\<rparr>"
  obtain u where u: "uuid_new_v7_at 5 ?z ?r V7_STATE_init = Some (?t, u)"
    using uuid_new_v7_at_eq [of ?r 5 ?z V7_STATE_init ?t] by (simp add: v7_advance_def V7_STATE_init_def)
  have "v7_random_counter ?z = 0" by (simp add: v7_random_counter_def be_val_def numeral_eq_Suc)
  then have "v7_advance 4 ?z ?t = Some \<lparr>v7_ts = 5, v7_ctr = 1\<rparr>" by (simp add: v7_advance_def)
  then obtain w where w: "uuid_new_v7_at 4 ?z ?r ?t = Some (\<lparr>v7_ts = 5, v7_ctr = 1\<rparr>, w)"
    using uuid_new_v7_at_eq [of ?r 4 ?z ?t "\<lparr>v7_ts = 5, v7_ctr = 1\<rparr>"] by simp
  have "v7_trace V7_STATE_init [u, w] \<lparr>v7_ts = 5, v7_ctr = 1\<rparr>"
    by (rule v7_step [OF u]) (simp_all add: v7_step [OF w] v7_nil)
  moreover from this have "sorted_wrt (\<lambda>a b. uuid_cmp a b = Less) [u, w]"
    by (rule uuid_v7_monotone) (simp add: word_less_nat_alt)
  ultimately show ?thesis by (intro exI [of _ "[u, w]"]) auto
qed

text \<open>
  C37: parsing and printing. The parser never panics; it accepts exactly the texts that are,
  up to the case of the hexadecimal digits, what \<open>Display\<close> prints for a UUID, and returns
  that UUID; printing a UUID never panics and gives 36 bytes.
\<close>

theorem uuid_parse_correct:
  "uuid_parse t \<noteq> None \<and>
   (uuid_parse t = Some (Ok u) \<longleftrightarrow> uuid_wf u \<and> uuid_fmt u = Some (map to_ascii_lowercase t)) \<and>
   (uuid_wf u \<longrightarrow> (\<exists>s. uuid_fmt u = Some s \<and> uuid_to_heapless_string u = Some s \<and> length s = 36))"
proof (intro conjI)
  obtain bs where u: "u = Uuid bs" by (cases u)
  have wf: "uuid_wf u \<longleftrightarrow> length bs = 16" by (simp add: uuid_wf_def u)
  have fmt: "uuid_fmt u = Some (uuid_text bs)" if "uuid_wf u"
    using uuid_encode_lower_eq [of bs] that wf by (simp add: uuid_fmt_def u)
  show "uuid_parse t \<noteq> None" by (simp add: uuid_parse_eq)
  have "uuid_parse t = Some (Ok u) \<longleftrightarrow> length t = 36 \<and> t ! 8 = 0x2D \<and> t ! 13 = 0x2D \<and> t ! 18 = 0x2D \<and> t ! 23 = 0x2D \<and>
      map (pair_at t) uuid_offsets = map Some bs"
    using those_eq_Some [of "map (pair_at t) uuid_offsets" bs]
    by (auto simp: uuid_parse_eq u split: option.splits)
  also have "\<dots> \<longleftrightarrow> uuid_wf u \<and> uuid_fmt u = Some (map to_ascii_lowercase t)"
  proof (cases "length bs = 16")
    case True
    then show ?thesis using fmt wf pairs_text [of t bs] uuid_text_length [of bs]
      by (cases "length t = 36") (auto dest: arg_cong [of _ _ length])
  next
    case False
    then have "map (pair_at t) uuid_offsets \<noteq> map Some bs"
      by (auto simp: uuid_offsets_def dest!: arg_cong [of _ _ length])
    with False show ?thesis by (simp add: wf)
  qed
  finally show "uuid_parse t = Some (Ok u) \<longleftrightarrow> uuid_wf u \<and> uuid_fmt u = Some (map to_ascii_lowercase t)" .
  show "uuid_wf u \<longrightarrow> (\<exists>s. uuid_fmt u = Some s \<and> uuid_to_heapless_string u = Some s \<and> length s = 36)"
    using fmt uuid_text_length wf by (auto simp: uuid_to_heapless_string_def uuid_fmt_def)
qed

lemma uuid_parse_correct_witness: "\<exists>s. uuid_fmt uuid_nil = Some s \<and> length s = 36"
  using uuid_parse_correct [of "[]" uuid_nil] by (auto simp: uuid_wf_def uuid_nil_def)

text \<open>The integer form is a bijection with the UUIDs, and their order is its order.\<close>

theorem uuid_u128_roundtrip:
  "uuid_wf (uuid_from_u128 v) \<and> uuid_as_u128 (uuid_from_u128 v) = v \<and>
   (uuid_wf u \<longrightarrow> uuid_from_u128 (uuid_as_u128 u) = u) \<and>
   uuid_cmp (uuid_from_u128 v) (uuid_from_u128 w) = prim_cmp v w"
proof (intro conjI impI)
  have val: "be_val (uuid_bytes (uuid_from_u128 v)) = unat v" for v
    using be_val_bytes [of v 16] unat_u128_less [of v] by (simp add: uuid_from_u128_bytes)
  have len: "length (uuid_bytes (uuid_from_u128 v)) = 16" for v by (simp add: uuid_from_u128_def)
  show "uuid_wf (uuid_from_u128 v)" using len by (simp add: uuid_wf_def)
  show "uuid_as_u128 (uuid_from_u128 v) = v" by (simp add: uuid_as_u128_def val)
  show "uuid_cmp (uuid_from_u128 v) (uuid_from_u128 w) = prim_cmp v w"
    by (simp add: uuid_cmp_def list_cmp_be_val len val prim_cmp_def word_less_nat_alt word_unat_eq_iff)
  assume "uuid_wf u"
  then obtain bs where u: "u = Uuid bs" and bs: "length bs = 16" by (cases u) (simp add: uuid_wf_def)
  have "be_val bs < 256 ^ 16" using be_val_less [of bs] bs by simp
  then have "unat (uuid_as_u128 u) = be_val bs"
    by (simp add: uuid_as_u128_def u unsigned_of_nat take_bit_nat_eq_self)
  then have "be_val (uuid_bytes (uuid_from_u128 (uuid_as_u128 u))) = be_val bs" by (simp add: val)
  then have "uuid_bytes (uuid_from_u128 (uuid_as_u128 u)) = bs" 
    using be_val_inj [of "uuid_bytes (uuid_from_u128 (uuid_as_u128 u))" bs] len bs by simp
  then show "uuid_from_u128 (uuid_as_u128 u) = u" by (cases "uuid_from_u128 (uuid_as_u128 u)") (simp add: u)
qed

lemma uuid_u128_roundtrip_witness: "uuid_from_u128 (uuid_as_u128 uuid_max) = uuid_max"
  using uuid_u128_roundtrip [of 0 uuid_max] by (simp add: uuid_wf_def uuid_max_def)

text \<open>
  C38: generation never blocks and gives what it says: from every state whose timestamp is
  not the last one, and for every clock reading and random bytes, \<open>new_v7\<close> returns a
  version 7 UUID with the logical timestamp (its low 48 bits), that timestamp is never
  behind the clock, and \<open>new_v4\<close> returns a version 4 UUID.
\<close>

theorem uuid_generators:
  assumes "length random = 16" and "v7_ts s \<noteq> - 1"
  shows "(\<exists>t u. uuid_new_v7_at now seed random s = Some (t, u) \<and> uuid_wf u \<and> uuid_get_version u = Some UvV7 \<and>
      uuid_timestamp u = Some (Some (take_bit 48 (v7_ts t))) \<and> now \<le> v7_ts t) \<and>
    (\<exists>u. uuid_new_v4 random = Some u \<and> uuid_wf u \<and> uuid_get_version u = Some UvV4)"
proof (rule conjI)
  obtain t where t: "v7_advance now seed s = Some t" "now \<le> v7_ts t"
    using assms(2) v7_advance_before [of now seed s]
    by (cases "v7_advance now seed s") (auto simp: v7_advance_def v7_before_def split: if_splits)
  define u where "u = Uuid (v7_time_bytes (v7_ts t) @ v7_counter_part (v7_ctr t) (random ! 10) @ drop 11 random)"
  have new: "uuid_new_v7_at now seed random s = Some (t, u)"
    using uuid_new_v7_at_eq [OF assms(1)] t(1) by (simp add: u_def)
  have len: "length (v7_time_bytes ts) = 6" "length (v7_counter_part c q) = 5" for ts c q
    by (simp_all add: v7_time_bytes_def v7_counter_part_def)
  have "uuid_wf u" using assms(1) by (simp add: uuid_wf_def u_def len)
  moreover have version: "uuid_get_version u = Some UvV7" by (simp add: uuid_get_version_def u_def v7_version_byte slice_get_def nth_append len)
  moreover have "uuid_timestamp u = Some (Some (take_bit 48 (v7_ts t)))"
  proof -
    have "slice_gets (uuid_bytes u) 0 6 = Some (v7_time_bytes (v7_ts t))"
      using slice_gets_in [of 0 6 "uuid_bytes u"] by (simp add: u_def len)
    then show ?thesis using v7_time_join [of "v7_ts t"] by (simp add: uuid_timestamp_def version Let_def)
  qed
  ultimately show "\<exists>t u. uuid_new_v7_at now seed random s = Some (t, u) \<and> uuid_wf u \<and> uuid_get_version u = Some UvV7 \<and>
      uuid_timestamp u = Some (Some (take_bit 48 (v7_ts t))) \<and> now \<le> v7_ts t"
    using new t(2) by blast
  have "byte_all (\<lambda>b. drop_bit 4 ((b AND 0x0F) OR 0x40) = 4)" by code_simp
  from byte_allD [OF this] show "\<exists>u. uuid_new_v4 random = Some u \<and> uuid_wf u \<and> uuid_get_version u = Some UvV4"
    using assms(1) by (simp add: uuid_new_v4_def slice_get_def slice_set_def uuid_wf_def uuid_get_version_def)
qed

lemma uuid_generators_witness:
  "\<exists>t u. uuid_new_v7_at 3 [1, 2, 3, 4] (replicate 16 0) V7_STATE_init = Some (t, u) \<and> uuid_get_version u = Some UvV7"
  using uuid_generators [of "replicate 16 0" V7_STATE_init 3 "[1, 2, 3, 4]"] by (auto simp: V7_STATE_init_def)

end
