(* ===== verification/Net_Addr.thy ===== *)
theory Net_Addr
  imports Rust_Str
begin

text \<open>
  The parts of \<open>std::net\<close> that the network crate uses. An \<open>Ipv4Addr\<close> is its 32 bits, an
  \<open>Ipv6Addr\<close> its 128 bits (\<open>to_bits\<close> and \<open>from_bits\<close> are the identity, and the
  order of the octets is the order of the bits). The theory holds the split of a word into
  octets and segments, \<open>Display\<close> of both kinds of address with the compressed run of zero
  segments, and the recursive descent parser behind \<open>FromStr\<close>; it shows that parsing
  what was printed gives the address back.
\<close>

unbundle bit_operations_syntax

type_synonym ipv4_addr = u32
type_synonym ipv6_addr = u128

section \<open>Words in pieces\<close>

text \<open>The \<open>n\<close> lowest pieces of a word, the most significant first, and the word of its pieces.\<close>

definition word_pieces :: "nat \<Rightarrow> 'a :: len word \<Rightarrow> 'b :: len word list" where
  "word_pieces n w = map (\<lambda>i. ucast (drop_bit (i * LENGTH('b)) w)) (rev [0..<n])"

definition word_join :: "'b :: len word list \<Rightarrow> 'a :: len word" where
  "word_join xs = foldl (\<lambda>acc x. push_bit (LENGTH('b)) acc OR ucast x) 0 xs"

lemma length_word_pieces [simp]: "length (word_pieces n w) = n"
  by (simp add: word_pieces_def)

lemma word_pieces_nth:
  "i < n \<Longrightarrow> (word_pieces n w :: 'b :: len word list) ! i = ucast (drop_bit ((n - Suc i) * LENGTH('b)) w)"
  by (simp add: word_pieces_def rev_nth)

lemma bit_word_join:
  fixes xs :: "'b :: len word list"
  shows "bit (word_join xs :: 'a :: len word) i \<longleftrightarrow>
    i < LENGTH('a) \<and> i div LENGTH('b) < length xs \<and> bit (rev xs ! (i div LENGTH('b))) (i mod LENGTH('b))"
proof (induction xs arbitrary: i rule: rev_induct)
  case Nil
  show ?case by (simp add: word_join_def)
next
  case (snoc x xs)
  have step: "word_join (xs @ [x]) = (push_bit (LENGTH('b)) (word_join xs) OR ucast x :: 'a word)"
    by (simp add: word_join_def)
  show ?case
  proof (cases "i < LENGTH('b)")
    case True
    then show ?thesis unfolding step by (auto simp: bit_simps)
  next
    case False
    then have "i div LENGTH('b) = Suc ((i - LENGTH('b)) div LENGTH('b))"
      and "i mod LENGTH('b) = (i - LENGTH('b)) mod LENGTH('b)"
      by (simp_all add: le_div_geq le_mod_geq)
    with False snoc.IH [of "i - LENGTH('b)"] show ?thesis unfolding step
      by (auto simp: bit_simps dest: bit_imp_le_length)
  qed
qed

lemma word_join_pieces:
  assumes "LENGTH('a) = n * LENGTH('b)"
  shows "word_join (word_pieces n w :: 'b :: len word list) = (w :: 'a :: len word)"
proof (rule bit_word_eqI)
  fix i assume i: "i < LENGTH('a)"
  with assms have less: "i div LENGTH('b) < n" by (simp add: less_mult_imp_div_less)
  have "rev (word_pieces n w :: 'b word list) ! (i div LENGTH('b)) = ucast (drop_bit (i div LENGTH('b) * LENGTH('b)) w)"
    using less by (simp add: word_pieces_def rev_map)
  then show "bit (word_join (word_pieces n w :: 'b word list) :: 'a word) i = bit w i"
    using i less by (simp add: bit_word_join bit_simps)
qed

lemma word_pieces_join:
  assumes "LENGTH('a) = length xs * LENGTH('b)"
  shows "word_pieces (length xs) (word_join xs :: 'a :: len word) = (xs :: 'b :: len word list)"
proof (rule nth_equalityI)
  fix k assume "k < length (word_pieces (length xs) (word_join xs :: 'a word) :: 'b word list)"
  then have k: "k < length xs" by simp
  define j where "j = length xs - Suc k"
  have j: "j < length xs" and nth: "rev xs ! j = xs ! k" using k by (simp_all add: j_def rev_nth)
  show "(word_pieces (length xs) (word_join xs :: 'a word) :: 'b word list) ! k = xs ! k"
  proof (rule bit_word_eqI)
    fix i assume i: "i < LENGTH('b)"
    then have quot: "(j * LENGTH('b) + i) div LENGTH('b) = j" "(j * LENGTH('b) + i) mod LENGTH('b) = i"
      by simp_all
    have "j * LENGTH('b) + i < Suc j * LENGTH('b)" using i by simp
    also have "\<dots> \<le> length xs * LENGTH('b)" using j by (intro mult_le_mono1) simp
    finally have "j * LENGTH('b) + i < LENGTH('a)" using assms by simp
    then show "bit ((word_pieces (length xs) (word_join xs :: 'a word) :: 'b word list) ! k) i = bit (xs ! k) i"
      using k i j nth quot by (simp add: word_pieces_nth bit_simps bit_word_join flip: j_def)
  qed
qed simp

section \<open>Printing\<close>

definition octets :: "ipv4_addr \<Rightarrow> byte list" where
  "octets a = word_pieces 4 a"

definition segments :: "ipv6_addr \<Rightarrow> u16 list" where
  "segments a = word_pieces 8 a"

definition ipv4_addr_fmt :: "ipv4_addr \<Rightarrow> byte list" where
  "ipv4_addr_fmt a = join_on (ascii CHR ''.'') (map (\<lambda>b. show_nat (unat b)) (octets a))"

text \<open>The format \<open>{:x}\<close> of an unsigned integer.\<close>

definition hex_byte :: "nat \<Rightarrow> byte" where
  "hex_byte d = (if d < 10 then digit_byte d else ascii CHR ''a'' + word_of_nat (d - 10))"

fun show_hex :: "nat \<Rightarrow> byte list" where
  "show_hex n = (if n < 16 then [hex_byte n] else show_hex (n div 16) @ [hex_byte (n mod 16)])"

declare show_hex.simps [simp del]

definition to_ipv4_mapped :: "ipv6_addr \<Rightarrow> ipv4_addr option" where
  "to_ipv4_mapped a = (if take 6 (segments a) = [0, 0, 0, 0, 0, 0xFFFF] then Some (ucast a) else None)"

text \<open>The longest run of zero segments, the first one of several: a start and a length.\<close>

fun zero_span :: "nat \<Rightarrow> u16 list \<Rightarrow> nat \<times> nat \<Rightarrow> nat \<times> nat \<Rightarrow> nat \<times> nat" where
  "zero_span i [] longest current = longest"
| "zero_span i (x # xs) longest (start, len) =
     (if x = 0
      then let current = (if len = 0 then i else start, len + 1)
           in zero_span (i + 1) xs (if snd current > snd longest then current else longest) current
      else zero_span (i + 1) xs longest (0, 0))"

definition fmt_subslice :: "u16 list \<Rightarrow> byte list" where
  "fmt_subslice chunk = join_on (ascii CHR '':'') (map (\<lambda>s. show_hex (unat s)) chunk)"

definition ipv6_addr_fmt :: "ipv6_addr \<Rightarrow> byte list" where
  "ipv6_addr_fmt a =
     (case to_ipv4_mapped a of
        Some ipv4 \<Rightarrow> ascii_bytes ''::ffff:'' @ ipv4_addr_fmt ipv4
      | None \<Rightarrow>
          (let (start, len) = zero_span 0 (segments a) (0, 0) (0, 0) in
           if len > 1
           then fmt_subslice (take start (segments a)) @ ascii_bytes ''::'' @ fmt_subslice (drop (start + len) (segments a))
           else fmt_subslice (segments a)))"

section \<open>Parsing\<close>

text \<open>
  The parser of the standard library: a reader takes the bytes left and gives its value with
  the bytes after it; a reader that fails leaves the bytes as they were.
\<close>

datatype addr_parse_error = AddrParseIpv4 | AddrParseIpv6

definition addr_parse_error_fmt :: "addr_parse_error \<Rightarrow> byte list" where
  "addr_parse_error_fmt e =
     ascii_bytes (case e of AddrParseIpv4 \<Rightarrow> ''invalid IPv4 address syntax''
                          | AddrParseIpv6 \<Rightarrow> ''invalid IPv6 address syntax'')"

definition to_digit :: "nat \<Rightarrow> byte \<Rightarrow> nat option" where
  "to_digit radix b =
     (let v = (if is_ascii_digit b then digit_val b
               else if ascii CHR ''a'' \<le> b \<and> b \<le> ascii CHR ''z'' then unat (b - ascii CHR ''a'') + 10
               else if ascii CHR ''A'' \<le> b \<and> b \<le> ascii CHR ''Z'' then unat (b - ascii CHR ''A'') + 10
               else radix)
      in if v < radix then Some v else None)"

text \<open>The digits at the front: their number, their value and the rest; \<open>None\<close> past the limit.\<close>

fun read_digits :: "nat \<Rightarrow> nat \<Rightarrow> nat \<Rightarrow> nat \<Rightarrow> byte list \<Rightarrow> (nat \<times> nat \<times> byte list) option" where
  "read_digits radix max_digits digit_count result [] = Some (digit_count, result, [])"
| "read_digits radix max_digits digit_count result (b # bs) =
     (case to_digit radix b of
        None \<Rightarrow> Some (digit_count, result, b # bs)
      | Some d \<Rightarrow>
          if digit_count + 1 > max_digits then None
          else read_digits radix max_digits (digit_count + 1) (result * radix + d) bs)"

definition read_number :: "nat \<Rightarrow> nat \<Rightarrow> bool \<Rightarrow> nat \<Rightarrow> byte list \<Rightarrow> (nat \<times> byte list) option" where
  "read_number radix max_digits allow_zero_prefix limit s =
     (case read_digits radix max_digits 0 0 s of
        None \<Rightarrow> None
      | Some (digit_count, result, rest) \<Rightarrow>
          if digit_count = 0 then None
          else if \<not> allow_zero_prefix \<and> hd s = ascii CHR ''0'' \<and> digit_count > 1 then None
          else if result < limit then Some (result, rest) else None)"

definition read_separator :: "byte \<Rightarrow> nat \<Rightarrow> (byte list \<Rightarrow> 'a option) \<Rightarrow> byte list \<Rightarrow> 'a option" where
  "read_separator sep index inner s =
     (if index > 0
      then (case s of b # r \<Rightarrow> if b = sep then inner r else None | [] \<Rightarrow> None)
      else inner s)"

fun read_octets :: "nat \<Rightarrow> nat \<Rightarrow> byte list \<Rightarrow> (byte list \<times> byte list) option" where
  "read_octets i 0 s = Some ([], s)"
| "read_octets i (Suc n) s =
     (case read_separator (ascii CHR ''.'') i (read_number 10 3 False 256) s of
        None \<Rightarrow> None
      | Some (g, s) \<Rightarrow>
          (case read_octets (i + 1) n s of
             None \<Rightarrow> None
           | Some (gs, s) \<Rightarrow> Some (word_of_nat g # gs, s)))"

definition read_ipv4_addr :: "byte list \<Rightarrow> (ipv4_addr \<times> byte list) option" where
  "read_ipv4_addr s = map_option (\<lambda>(gs, s). (word_join gs, s)) (read_octets 0 4 s)"

definition ipv4_addr_from_str :: "byte list \<Rightarrow> (addr_parse_error, ipv4_addr) result" where
  "ipv4_addr_from_str s =
     (if length s > 15 then Err AddrParseIpv4
      else case read_ipv4_addr s of
             Some (a, rest) \<Rightarrow> if rest = [] then Ok a else Err AddrParseIpv4
           | None \<Rightarrow> Err AddrParseIpv4)"

text \<open>
  The groups of an IPv6 address, at most \<open>n\<close> more, with the embedded IPv4 address that may
  end them.
\<close>

fun read_groups :: "nat \<Rightarrow> nat \<Rightarrow> byte list \<Rightarrow> u16 list \<times> bool \<times> byte list" where
  "read_groups i 0 s = ([], False, s)"
| "read_groups i (Suc n) s =
     (case (if 0 < n then read_separator (ascii CHR '':'') i read_ipv4_addr s else None) of
        Some (v4, s) \<Rightarrow> (word_pieces 2 v4, True, s)
      | None \<Rightarrow>
          (case read_separator (ascii CHR '':'') i (read_number 16 4 True 65536) s of
             None \<Rightarrow> ([], False, s)
           | Some (g, s) \<Rightarrow>
               (let (gs, v4, s) = read_groups (i + 1) n s in (word_of_nat g # gs, v4, s))))"

definition read_given_char :: "byte \<Rightarrow> byte list \<Rightarrow> byte list option" where
  "read_given_char c s = (case s of b # r \<Rightarrow> if b = c then Some r else None | [] \<Rightarrow> None)"

definition read_ipv6_addr :: "byte list \<Rightarrow> (ipv6_addr \<times> byte list) option" where
  "read_ipv6_addr s =
     (let (head, head_ipv4, s) = read_groups 0 8 s in
      if length head = 8 then Some (word_join head, s)
      else if head_ipv4 then None
      else do {
        s \<leftarrow> read_given_char (ascii CHR '':'') s;
        s \<leftarrow> read_given_char (ascii CHR '':'') s;
        let (tail, _, s) = read_groups 0 (8 - (length head + 1)) s;
        Some (word_join (head @ replicate (8 - length head - length tail) 0 @ tail), s)
      })"

definition ipv6_addr_from_str :: "byte list \<Rightarrow> (addr_parse_error, ipv6_addr) result" where
  "ipv6_addr_from_str s =
     (case read_ipv6_addr s of
        Some (a, rest) \<Rightarrow> if rest = [] then Ok a else Err AddrParseIpv6
      | None \<Rightarrow> Err AddrParseIpv6)"

section \<open>What is printed is read back\<close>

lemma to_digit_10: "to_digit 10 b = (if is_ascii_digit b then Some (digit_val b) else None)"
  by (auto simp: to_digit_def Let_def dest: digit_val_less)

lemma to_digit_16_digit: "is_ascii_digit b \<Longrightarrow> to_digit 16 b = Some (digit_val b)"
  by (auto simp: to_digit_def Let_def dest: digit_val_less)

lemma hex_byte_digit:
  assumes "d < 16"
  shows "to_digit 16 (hex_byte d) = Some d"
proof (cases "d < 10")
  case True
  then show ?thesis by (simp add: hex_byte_def to_digit_16_digit digit_byte_simps)
next
  case False
  then have "d \<in> {10, 11, 12, 13, 14, 15}" using assms by auto
  then show ?thesis
    by (elim insertE) (simp_all add: hex_byte_def to_digit_def Let_def is_ascii_digit_def)
qed

definition stops :: "nat \<Rightarrow> byte list \<Rightarrow> bool" where
  "stops radix r \<longleftrightarrow> (case r of [] \<Rightarrow> True | b # _ \<Rightarrow> to_digit radix b = None)"

lemma stops_simps [simp]:
  "stops radix []"
  "stops radix (b # r) \<longleftrightarrow> to_digit radix b = None"
  by (simp_all add: stops_def)

lemma separators_no_digit [simp]:
  "to_digit 10 0x2E = None" "to_digit 10 0x3A = None" "to_digit 10 0x2F = None"
  "to_digit 16 0x2E = None" "to_digit 16 0x3A = None" "to_digit 16 0x2F = None"
  by (simp_all add: to_digit_def is_ascii_digit_def)

definition digits_value :: "nat \<Rightarrow> nat \<Rightarrow> byte list \<Rightarrow> nat" where
  "digits_value radix = foldl (\<lambda>acc b. acc * radix + the (to_digit radix b))"

lemma read_digits_run:
  assumes "\<forall>b \<in> set ds. to_digit radix b \<noteq> None" "stops radix r" "c + length ds \<le> m"
  shows "read_digits radix m c acc (ds @ r) = Some (c + length ds, digits_value radix acc ds, r)"
  using assms
proof (induction ds arbitrary: c acc)
  case Nil
  then show ?case by (cases r) (auto simp: digits_value_def)
next
  case (Cons d ds)
  then show ?case by (auto simp: digits_value_def)
qed

lemma read_digits_10_rest:
  "read_digits 10 m c acc s = Some (k, v, rest) \<Longrightarrow> rest = dropWhile is_ascii_digit s"
  by (induction s arbitrary: c acc) (auto simp: to_digit_10 split: if_splits)

lemma read_number_10_rest:
  "read_number 10 m z l s = Some (v, rest) \<Longrightarrow> rest = dropWhile is_ascii_digit s"
  by (auto simp: read_number_def dest: read_digits_10_rest split: option.splits if_splits)

lemma digits_value_10: "\<forall>b \<in> set ds. is_ascii_digit b \<Longrightarrow> digits_value 10 0 ds = digits_val ds"
  unfolding digits_value_def digits_val_def
  by (rule foldl_cong) (auto simp: to_digit_10)

lemma length_show_nat: "0 < k \<Longrightarrow> n < 10 ^ k \<Longrightarrow> length (show_nat n) \<le> k"
proof (induction k arbitrary: n)
  case (Suc k)
  show ?case
  proof (cases "n < 10")
    case True
    then show ?thesis by (subst show_nat.simps) simp
  next
    case False
    then have "k \<noteq> 0" using Suc.prems by (cases k) auto
    moreover have "n div 10 < 10 ^ k" using Suc.prems by (auto simp: less_mult_imp_div_less mult.commute)
    ultimately show ?thesis using Suc.IH [of "n div 10"] False by (subst show_nat.simps) simp
  qed
qed simp

lemma read_number_show_nat:
  assumes "n < 256" "stops 10 r"
  shows "read_number 10 3 False 256 (show_nat n @ r) = Some (n, r)"
proof -
  have "length (show_nat n) \<le> 3" using assms by (intro length_show_nat) simp_all
  moreover have dig: "\<forall>b \<in> set (show_nat n). is_ascii_digit b" using show_nat_digits by blast
  ultimately have "read_digits 10 3 0 0 (show_nat n @ r) = Some (length (show_nat n), n, r)"
    using read_digits_run [of "show_nat n" 10 r 0 3 0] assms
    by (simp add: to_digit_10 digits_value_10)
  moreover have "\<not> (hd (show_nat n @ r) = 0x30 \<and> length (show_nat n) > 1)"
    using no_leading_zero_show [of n] by (auto simp: no_leading_zero_def)
  ultimately show ?thesis using assms by (auto simp: read_number_def)
qed

lemma show_hex_digits: "b \<in> set (show_hex n) \<Longrightarrow> to_digit 16 b \<noteq> None"
  and show_hex_nonempty [simp]: "show_hex n \<noteq> []"
  and digits_value_show_hex: "digits_value 16 0 (show_hex n) = n"
proof -
  show "b \<in> set (show_hex n) \<Longrightarrow> to_digit 16 b \<noteq> None"
    by (induction n rule: show_hex.induct)
      (subst (asm) (2) show_hex.simps, auto simp: hex_byte_digit split: if_splits)
  show "show_hex n \<noteq> []" by (subst show_hex.simps) simp
  show "digits_value 16 0 (show_hex n) = n"
  proof (induction n rule: show_hex.induct)
    case (1 n)
    then show ?case
      by (cases "n < 16"; subst show_hex.simps) (simp_all add: digits_value_def hex_byte_digit)
  qed
qed

lemma length_show_hex: "0 < k \<Longrightarrow> n < 16 ^ k \<Longrightarrow> length (show_hex n) \<le> k"
proof (induction k arbitrary: n)
  case (Suc k)
  show ?case
  proof (cases "n < 16")
    case True
    then show ?thesis by (subst show_hex.simps) simp
  next
    case False
    then have "k \<noteq> 0" using Suc.prems by (cases k) auto
    moreover have "n div 16 < 16 ^ k" using Suc.prems by (auto simp: less_mult_imp_div_less mult.commute)
    ultimately show ?thesis using Suc.IH [of "n div 16"] False by (subst show_hex.simps) simp
  qed
qed simp

lemma read_number_show_hex:
  assumes "n < 65536" "stops 16 r"
  shows "read_number 16 4 True 65536 (show_hex n @ r) = Some (n, r)"
proof -
  have "length (show_hex n) \<le> 4" using assms by (intro length_show_hex) simp_all
  then have "read_digits 16 4 0 0 (show_hex n @ r) = Some (length (show_hex n), n, r)"
    using read_digits_run [of "show_hex n" 16 r 0 4 0] assms show_hex_digits [of _ n]
    by (simp add: digits_value_show_hex)
  then show ?thesis using assms by (simp add: read_number_def)
qed

lemma read_number_none: "stops radix r \<Longrightarrow> read_number radix m z l r = None"
  by (cases r) (auto simp: read_number_def)

lemma unat_piece_less: "unat (b :: byte) < 256" "unat (w :: u16) < 65536"
  using unsigned_less [of b, where 'a = nat] unsigned_less [of w, where 'a = nat] by simp_all

text \<open>The text of octets \<open>i\<close> and following, each with its separator but the very first.\<close>

definition sep_text :: "byte \<Rightarrow> nat \<Rightarrow> byte list list \<Rightarrow> byte list" where
  "sep_text c i ts = (if i = 0 then join_on c ts else concat (map ((#) c) ts))"

lemma sep_text_Cons: "sep_text c i (t # ts) = (if i = 0 then [] else [c]) @ t @ sep_text c (Suc i) ts"
  by (simp add: sep_text_def join_on_def)

lemma sep_text_Nil [simp]: "sep_text c i [] = []"
  by (simp add: sep_text_def)

lemma read_octets_text:
  assumes "stops 10 r"
  shows "read_octets i (length os) (sep_text (ascii CHR ''.'') i (map (\<lambda>b. show_nat (unat b)) os) @ r) = Some (os, r)"
  using assms
proof (induction os arbitrary: i)
  case (Cons b os)
  let ?rest = "sep_text (ascii CHR ''.'') (Suc i) (map (\<lambda>b. show_nat (unat b)) os) @ r"
  have "stops 10 ?rest" using Cons.prems by (cases os) (simp_all add: sep_text_Cons)
  then have "read_number 10 3 False 256 (show_nat (unat b) @ ?rest) = Some (unat b, ?rest)"
    using unat_piece_less(1) [of b] by (intro read_number_show_nat) simp_all
  then have "read_separator (ascii CHR ''.'') i (read_number 10 3 False 256)
      (sep_text (ascii CHR ''.'') i (map (\<lambda>b. show_nat (unat b)) (b # os)) @ r) = Some (unat b, ?rest)"
    by (cases "i = 0") (simp_all add: read_separator_def sep_text_Cons)
  then show ?case using Cons.IH [OF Cons.prems, of "Suc i"] by simp
qed simp

lemma ipv4_addr_fmt_sep: "ipv4_addr_fmt a = sep_text (ascii CHR ''.'') 0 (map (\<lambda>b. show_nat (unat b)) (octets a))"
  by (simp add: ipv4_addr_fmt_def sep_text_def)

lemma read_ipv4_addr_fmt: "stops 10 r \<Longrightarrow> read_ipv4_addr (ipv4_addr_fmt a @ r) = Some (a, r)"
  using read_octets_text [of r 0 "octets a"] word_join_pieces [of 4 a, where 'b = 8]
  by (simp add: read_ipv4_addr_def ipv4_addr_fmt_sep octets_def)

lemma word_pieces_4: "word_pieces 4 (a :: 'a :: len word) =
    [ucast (drop_bit (3 * LENGTH('b)) a), ucast (drop_bit (2 * LENGTH('b)) a), ucast (drop_bit (LENGTH('b)) a),
     ucast a :: 'b :: len word]"
  by (simp add: word_pieces_def numeral_eq_Suc)

lemma length_ipv4_addr_fmt: "length (ipv4_addr_fmt a) \<le> 15"
proof -
  have *: "length (show_nat (unat b)) \<le> 3" for b :: byte
    by (intro length_show_nat) (auto intro: less_trans [OF unat_piece_less(1)])
  show ?thesis unfolding ipv4_addr_fmt_def octets_def word_pieces_4
    using * [of "ucast (drop_bit (3 * LENGTH(8)) a)"] * [of "ucast (drop_bit (2 * LENGTH(8)) a)"]
      * [of "ucast (drop_bit (LENGTH(8)) a)"] * [of "ucast a"] by simp
qed

lemma ipv4_addr_roundtrip: "ipv4_addr_from_str (ipv4_addr_fmt a) = Ok a"
  using read_ipv4_addr_fmt [of "[]" a] length_ipv4_addr_fmt [of a]
  by (simp add: ipv4_addr_from_str_def)

text \<open>The reader of IPv4 addresses takes digits and dots, and fails without a dot after the digits.\<close>

lemma read_octets_chars:
  "read_octets i n s = Some (gs, rest) \<Longrightarrow>
   \<exists>p. s = p @ rest \<and> (\<forall>b \<in> set p. is_ascii_digit b \<or> b = ascii CHR ''.'')"
proof (induction i n s arbitrary: gs rest rule: read_octets.induct)
  case (2 i n s)
  from "2.prems" obtain g s' gs' where
    g: "read_separator (ascii CHR ''.'') i (read_number 10 3 False 256) s = Some (g, s')"
    and tl: "read_octets (i + 1) n s' = Some (gs', rest)"
    by (auto split: option.splits)
  from "2.IH" [OF g refl tl] obtain p where
    p: "s' = p @ rest" "\<forall>b \<in> set p. is_ascii_digit b \<or> b = ascii CHR ''.''" by auto
  have run: "\<exists>q. t = q @ s' \<and> (\<forall>b \<in> set q. is_ascii_digit b \<or> b = ascii CHR ''.'')"
    if "read_number 10 3 False 256 t = Some (g, s')" for t
    using read_number_10_rest [OF that]
    by (intro exI [of _ "takeWhile is_ascii_digit t"]) (auto dest: set_takeWhileD)
  have "\<exists>q. s = q @ s' \<and> (\<forall>b \<in> set q. is_ascii_digit b \<or> b = ascii CHR ''.'')"
  proof (cases "i = 0")
    case True
    with g run show ?thesis by (simp add: read_separator_def)
  next
    case False
    with g obtain t where t: "s = ascii CHR ''.'' # t" "read_number 10 3 False 256 t = Some (g, s')"
      by (auto simp: read_separator_def split: list.splits if_splits)
    from run [OF t(2)] obtain q where "t = q @ s'" "\<forall>b \<in> set q. is_ascii_digit b \<or> b = ascii CHR ''.''" by auto
    with t(1) show ?thesis by (intro exI [of _ "ascii CHR ''.'' # q"]) auto
  qed
  then obtain q where "s = q @ s'" "\<forall>b \<in> set q. is_ascii_digit b \<or> b = ascii CHR ''.''" by auto
  with p show ?case by (intro exI [of _ "q @ p"]) auto
qed simp

lemma ipv4_addr_from_str_chars:
  "ipv4_addr_from_str s = Ok a \<Longrightarrow> b \<in> set s \<Longrightarrow> is_ascii_digit b \<or> b = ascii CHR ''.''"
  by (auto simp: ipv4_addr_from_str_def read_ipv4_addr_def split: if_splits option.splits dest!: read_octets_chars)

lemma read_ipv4_addr_no_dot:
  assumes "\<And>t. dropWhile is_ascii_digit s \<noteq> ascii CHR ''.'' # t"
  shows "read_ipv4_addr s = None"
proof (cases "read_number 10 3 False 256 s")
  case None
  then show ?thesis by (simp add: read_ipv4_addr_def numeral_eq_Suc read_separator_def)
next
  case (Some gs)
  obtain g t where gs: "gs = (g, t)" by (cases gs)
  have t: "t = dropWhile is_ascii_digit s" using read_number_10_rest Some gs by simp
  have "read_octets (Suc 0) 3 t = None"
    using assms unfolding t [symmetric] by (cases t) (auto simp: numeral_eq_Suc read_separator_def)
  with Some gs show ?thesis by (simp add: read_ipv4_addr_def numeral_eq_Suc read_separator_def)
qed

text \<open>A text that ends the groups: the end or the double colon.\<close>

definition groups_end :: "byte list \<Rightarrow> bool" where
  "groups_end r \<longleftrightarrow> (case r of [] \<Rightarrow> True | b # s \<Rightarrow> b = ascii CHR '':'' \<and> (case s of [] \<Rightarrow> False | c # _ \<Rightarrow> c = ascii CHR '':''))"

lemma groups_end_simps [simp]:
  "groups_end []" "groups_end (b # r) \<longleftrightarrow> b = 0x3A \<and> (\<exists>t. r = 0x3A # t)"
  by (auto simp: groups_end_def split: list.splits)

lemma read_ipv4_addr_hex:
  assumes "\<forall>b \<in> set xs. to_digit 16 b \<noteq> None" "r = [] \<or> hd r = 0x3A"
  shows "read_ipv4_addr (xs @ r) = None"
proof (rule read_ipv4_addr_no_dot, rule notI)
  fix t assume "dropWhile is_ascii_digit (xs @ r) = ascii CHR ''.'' # t"
  with assms show False
  proof (induction xs)
    case Nil
    then show ?case by (cases r) (auto simp: is_ascii_digit_def)
  next
    case (Cons x xs)
    then show ?case by (auto split: if_splits)
  qed
qed

lemma read_groups_end:
  assumes "groups_end r"
  shows "read_groups i n r = ([], False, r)"
proof (cases n)
  case (Suc m)
  have "read_separator 0x3A i read_ipv4_addr r = None"
    using assms read_ipv4_addr_hex [of "[]" r] read_ipv4_addr_hex [of "[]" "tl r"]
    by (cases r) (auto simp: read_separator_def)
  moreover have "read_separator 0x3A i (read_number 16 4 True 65536) r = None"
    using assms read_number_none [of 16 r] read_number_none [of 16 "tl r"]
    by (cases r) (auto simp: read_separator_def)
  ultimately show ?thesis using Suc by simp
qed simp

lemma read_groups_text:
  assumes "groups_end r" "length gs \<le> n"
  shows "read_groups i n (sep_text (ascii CHR '':'') i (map (\<lambda>s. show_hex (unat s)) gs) @ r) = (gs, False, r)"
  using assms
proof (induction gs arbitrary: i n)
  case Nil
  then show ?case using read_groups_end by simp
next
  case (Cons g gs)
  then obtain m where n: "n = Suc m" by (cases n) auto
  let ?rest = "sep_text (ascii CHR '':'') (Suc i) (map (\<lambda>s. show_hex (unat s)) gs) @ r"
  have colon: "?rest = [] \<or> hd ?rest = 0x3A"
    using Cons.prems by (cases gs; cases r) (auto simp: sep_text_Cons)
  then have stop: "stops 16 ?rest" by (cases ?rest) auto
  have "read_ipv4_addr (show_hex (unat g) @ ?rest) = None"
    using show_hex_digits colon by (intro read_ipv4_addr_hex) auto
  then have "read_separator (ascii CHR '':'') i read_ipv4_addr
      (sep_text (ascii CHR '':'') i (map (\<lambda>s. show_hex (unat s)) (g # gs)) @ r) = None"
    by (cases "i = 0") (simp_all add: read_separator_def sep_text_Cons)
  moreover have "read_number 16 4 True 65536 (show_hex (unat g) @ ?rest) = Some (unat g, ?rest)"
    using unat_piece_less(2) [of g] stop by (intro read_number_show_hex) simp_all
  then have "read_separator (ascii CHR '':'') i (read_number 16 4 True 65536)
      (sep_text (ascii CHR '':'') i (map (\<lambda>s. show_hex (unat s)) (g # gs)) @ r) = Some (unat g, ?rest)"
    by (cases "i = 0") (simp_all add: read_separator_def sep_text_Cons)
  ultimately show ?case using Cons n by (cases "m = 0") simp_all
qed

lemma fmt_subslice_sep: "fmt_subslice gs = sep_text (ascii CHR '':'') 0 (map (\<lambda>s. show_hex (unat s)) gs)"
  by (simp add: fmt_subslice_def sep_text_def)

lemma read_groups_subslice:
  "groups_end r \<Longrightarrow> length gs \<le> n \<Longrightarrow> read_groups 0 n (fmt_subslice gs @ r) = (gs, False, r)"
  using read_groups_text [of r gs n 0] by (simp add: fmt_subslice_sep)

text \<open>The span found is a run of zeros.\<close>

lemma zero_span_run:
  assumes "zero_span i xs (ls, ll) (cs, cl) = (start, len)"
    and "length pre = i"
    and "ls + ll \<le> i" "\<forall>k < ll. pre ! (ls + k) = 0"
    and "cl \<noteq> 0 \<longrightarrow> cs + cl = i" "\<forall>k < cl. pre ! (cs + k) = 0"
  shows "start + len \<le> length (pre @ xs) \<and> (\<forall>k < len. (pre @ xs) ! (start + k) = 0)"
  using assms
proof (induction xs arbitrary: i ls ll cs cl pre)
  case Nil
  then show ?case by simp
next
  case (Cons x xs)
  show ?case
  proof (cases "x = 0")
    case False
    then have "zero_span (Suc i) xs (ls, ll) (0, 0) = (start, len)" using Cons.prems(1) by simp
    then show ?thesis using Cons.IH [of "Suc i" ls ll 0 0 "pre @ [x]"] Cons.prems by (simp add: nth_append)
  next
    case True
    let ?cs = "if cl = 0 then i else cs"
    have cur: "?cs + Suc cl = Suc i" "\<forall>k < Suc cl. (pre @ [x]) ! (?cs + k) = 0"
      using Cons.prems(2,5,6) True by (auto simp: nth_append less_Suc_eq)
    have old: "\<forall>k < ll. (pre @ [x]) ! (ls + k) = 0" using Cons.prems(2,3,4) by (auto simp: nth_append)
    show ?thesis
    proof (cases "Suc cl > ll")
      case gt: True
      then have "zero_span (Suc i) xs (?cs, Suc cl) (?cs, Suc cl) = (start, len)"
        using Cons.prems(1) True by (simp add: Let_def split: if_splits)
      from Cons.IH [OF this, of "pre @ [x]"] cur Cons.prems(2) show ?thesis by simp
    next
      case False
      then have "zero_span (Suc i) xs (ls, ll) (?cs, Suc cl) = (start, len)"
        using Cons.prems(1) True by (simp add: Let_def split: if_splits)
      from Cons.IH [OF this, of "pre @ [x]"] cur old Cons.prems(2,3) show ?thesis by simp
    qed
  qed
qed

lemma zero_span_zeros:
  assumes "zero_span 0 xs (0, 0) (0, 0) = (start, len)"
  shows "start + len \<le> length xs" "xs = take start xs @ replicate len 0 @ drop (start + len) xs"
proof -
  have run: "start + len \<le> length xs \<and> (\<forall>k < len. xs ! (start + k) = 0)"
    using zero_span_run [OF assms, of "[]"] by simp
  then show "start + len \<le> length xs" by simp
  have "take len (drop start xs) = replicate len 0"
    using run by (intro nth_equalityI) auto
  then show "xs = take start xs @ replicate len 0 @ drop (start + len) xs"
    by (metis append_take_drop_id drop_drop add.commute)
qed

lemma length_segments [simp]: "length (segments a) = 8"
  by (simp add: segments_def)

lemma word_join_segments: "word_join (segments a) = a"
  unfolding segments_def by (rule word_join_pieces) simp

lemma segments_low: "(word_pieces 2 (ucast a :: u32) :: u16 list) = drop 6 (segments a)"
proof -
  have "(ucast (ucast a :: u32) :: u16) = ucast a"
    "(ucast (drop_bit 16 (ucast a :: u32)) :: u16) = ucast (drop_bit 16 a)"
    by (rule bit_word_eqI, simp add: bit_simps)+
  then show ?thesis by (simp add: segments_def word_pieces_def numeral_eq_Suc)
qed

lemma read_ipv6_addr_fmt: "read_ipv6_addr (ipv6_addr_fmt a) = Some (a, [])"
proof (cases "to_ipv4_mapped a")
  case (Some v4)
  then have seg: "take 6 (segments a) = [0, 0, 0, 0, 0, 0xFFFF]" and v4: "v4 = ucast a"
    by (auto simp: to_ipv4_mapped_def split: if_splits)
  have "read_groups 0 7 (ascii_bytes ''ffff:'' @ ipv4_addr_fmt v4) = (0xFFFF # word_pieces 2 v4, True, [])"
  proof -
    have t: "ascii_bytes ''ffff:'' @ ipv4_addr_fmt v4 = show_hex 65535 @ 0x3A # ipv4_addr_fmt v4"
      by (simp add: ascii_bytes_def show_hex.simps hex_byte_def)
    have "read_ipv4_addr (show_hex 65535 @ 0x3A # ipv4_addr_fmt v4) = None"
      using show_hex_digits by (intro read_ipv4_addr_hex) auto
    moreover have "read_number 16 4 True 65536 (show_hex 65535 @ 0x3A # ipv4_addr_fmt v4) = Some (65535, 0x3A # ipv4_addr_fmt v4)"
      by (rule read_number_show_hex) simp_all
    moreover have "read_groups (Suc 0) 6 (0x3A # ipv4_addr_fmt v4) = (word_pieces 2 v4, True, [])"
      using read_ipv4_addr_fmt [of "[]" v4] read_groups.simps(2) [of "Suc 0" 5 "0x3A # ipv4_addr_fmt v4"]
      by (simp add: read_separator_def)
    ultimately show ?thesis unfolding t
      using read_groups.simps(2) [of 0 6 "show_hex 65535 @ 0x3A # ipv4_addr_fmt v4"]
      by (simp add: read_separator_def)
  qed
  then have "read_ipv6_addr (ipv6_addr_fmt a) = Some (word_join (replicate 5 0 @ (0xFFFF :: u16) # word_pieces 2 v4), [])"
    using Some read_groups_end [of "ascii_bytes ''::ffff:'' @ ipv4_addr_fmt v4" 0 8]
    by (simp add: ipv6_addr_fmt_def read_ipv6_addr_def read_given_char_def ascii_bytes_def)
  also have "replicate 5 0 @ 0xFFFF # word_pieces 2 v4 = segments a"
    using append_take_drop_id [of 6 "segments a"] unfolding seg v4 segments_low by (simp add: numeral_eq_Suc)
  finally show ?thesis by (simp add: word_join_segments)
next
  case None
  obtain start len where span: "zero_span 0 (segments a) (0, 0) (0, 0) = (start, len)" by fastforce
  note zeros = zero_span_zeros [OF span]
  show ?thesis
  proof (cases "len > 1")
    case True
    let ?hd = "take start (segments a)" and ?tl = "drop (start + len) (segments a)"
    have "read_groups 0 8 (fmt_subslice ?hd @ ascii_bytes ''::'' @ fmt_subslice ?tl) =
        (?hd, False, ascii_bytes ''::'' @ fmt_subslice ?tl)"
      using zeros by (intro read_groups_subslice) (auto simp: ascii_bytes_def)
    moreover have "read_groups 0 (8 - (length ?hd + 1)) (fmt_subslice ?tl @ []) = (?tl, False, [])"
      using zeros True by (intro read_groups_subslice) auto
    moreover have "8 - length ?hd - length ?tl = len" "length ?hd \<noteq> 8" using zeros True by auto
    ultimately show ?thesis
      using None True span zeros(2) [symmetric] word_join_segments [of a]
      by (simp add: ipv6_addr_fmt_def read_ipv6_addr_def read_given_char_def ascii_bytes_def)
  next
    case False
    then show ?thesis
      using None span read_groups_subslice [of "[]" "segments a" 8] word_join_segments [of a]
      by (simp add: ipv6_addr_fmt_def read_ipv6_addr_def)
  qed
qed

lemma ipv6_addr_roundtrip: "ipv6_addr_from_str (ipv6_addr_fmt a) = Ok a"
  by (simp add: ipv6_addr_from_str_def read_ipv6_addr_fmt)

text \<open>The characters of the printed addresses.\<close>

lemma join_on_set: "b \<in> set (join_on c xss) \<Longrightarrow> b = c \<or> (\<exists>xs \<in> set xss. b \<in> set xs)"
  by (cases xss) (auto simp: join_on_def split: if_splits)

lemma ipv4_addr_fmt_chars: "b \<in> set (ipv4_addr_fmt a) \<Longrightarrow> is_ascii_digit b \<or> b = ascii CHR ''.''"
  unfolding ipv4_addr_fmt_def by (drule join_on_set) (auto dest: show_nat_digits)

lemma fmt_subslice_chars: "b \<in> set (fmt_subslice gs) \<Longrightarrow> to_digit 16 b \<noteq> None \<or> b = ascii CHR '':''"
  unfolding fmt_subslice_def by (drule join_on_set) (auto dest: show_hex_digits)

lemma ipv4_addr_fmt_no_slash: "ascii CHR ''/'' \<notin> set (ipv4_addr_fmt a)"
  by (auto dest: ipv4_addr_fmt_chars simp: is_ascii_digit_def)

lemma ipv6_addr_fmt_no_slash: "ascii CHR ''/'' \<notin> set (ipv6_addr_fmt a)"
  using ipv4_addr_fmt_no_slash fmt_subslice_chars [of "0x2F"]
  by (auto simp: ipv6_addr_fmt_def ascii_bytes_def split: option.splits prod.splits if_splits)

lemma ipv6_addr_fmt_colon: "ascii CHR '':'' \<in> set (ipv6_addr_fmt a)"
proof -
  obtain x y zs where "segments a = x # y # zs"
    using length_segments [of a] by (cases "segments a"; cases "tl (segments a)") auto
  then have "0x3A \<in> set (fmt_subslice (segments a))" by (simp add: fmt_subslice_def)
  then show ?thesis
    by (cases "zero_span 0 (segments a) (0, 0) (0, 0)")
      (auto simp: ipv6_addr_fmt_def ascii_bytes_def split: option.splits)
qed

lemma ipv4_addr_from_digits:
  assumes "\<forall>b \<in> set s. is_ascii_digit b"
  shows "ipv4_addr_from_str s = Err AddrParseIpv4"
proof -
  have none: "dropWhile is_ascii_digit s = []" using assms by simp
  have "read_ipv4_addr s = None" by (rule read_ipv4_addr_no_dot) (simp only: none, simp)
  then show ?thesis by (simp add: ipv4_addr_from_str_def)
qed

lemma show_nat_no_slash: "ascii CHR ''/'' \<notin> set (show_nat n)"
  by (auto dest!: show_nat_digits simp: is_ascii_digit_def)

end
