(* ===== verification/Cidr.thy ===== *)
theory Cidr
  imports Net_Addr
begin

text \<open>
  What the IPv4 and the IPv6 side of the network crate share: the error type
  (\<open>src/ipnetwork/src/error.rs\<close>), the split of a CIDR text
  (\<open>src/ipnetwork/src/parse.rs\<close>), the set of addresses of a block as the specification of
  both sides, and the two contracts that the sides are interpreted in: \<open>cidr_network\<close> for the
  address arithmetic and \<open>range_iterator\<close> for the iterator over the addresses.
\<close>

unbundle bit_operations_syntax

section \<open>Errors and the parts of a CIDR text\<close>

datatype network_size_error = NetworkIsTooLarge

datatype ip_network_error =
  InvalidAddr "byte list" | InvalidPrefix | InvalidCidrFormat "byte list" | NetworkSizeError network_size_error

definition network_size_error_fmt :: "network_size_error \<Rightarrow> byte list" where
  "network_size_error_fmt e = ascii_bytes ''Network is too large to fit into an unsigned 32-bit integer!''"

definition ip_network_error_fmt :: "ip_network_error \<Rightarrow> byte list" where
  "ip_network_error_fmt e =
     (case e of
        InvalidAddr s \<Rightarrow> ascii_bytes ''invalid address: '' @ s
      | InvalidPrefix \<Rightarrow> ascii_bytes ''invalid prefix''
      | InvalidCidrFormat s \<Rightarrow> ascii_bytes ''invalid cidr format: '' @ s
      | NetworkSizeError e \<Rightarrow> ascii_bytes ''network size error: '' @ network_size_error_fmt e)"

definition ip_network_error_from :: "addr_parse_error \<Rightarrow> ip_network_error" where
  "ip_network_error_from e = InvalidAddr (addr_parse_error_fmt e)"

definition cidr_parts :: "byte list \<Rightarrow> (ip_network_error, byte list \<times> byte list option) result" where
  "cidr_parts cidr =
     (case find_pos (\<lambda>b. b = ascii CHR ''/'') cidr of
        Some sep \<Rightarrow>
          (let ip = take sep cidr; prefix = drop sep cidr in
           case find_pos (\<lambda>b. b = ascii CHR ''/'') (drop 1 prefix) of
             Some _ \<Rightarrow> Err (InvalidCidrFormat (ascii_bytes ''CIDR must contain a single '' @
               [0x27, ascii CHR ''/'', 0x27] @ ascii_bytes '': '' @ cidr))
           | None \<Rightarrow> Ok (ip, Some (drop 1 prefix)))
      | None \<Rightarrow> Ok (cidr, None))"

definition parse_prefix :: "byte list \<Rightarrow> byte \<Rightarrow> (ip_network_error, byte) result" where
  "parse_prefix prefix max_prefix =
     (case parse_uint 256 prefix of
        None \<Rightarrow> Err InvalidPrefix
      | Some v \<Rightarrow> (let mask = word_of_nat v in if mask > max_prefix then Err InvalidPrefix else Ok mask))"

lemma cidr_parts_no_slash: "ascii CHR ''/'' \<notin> set s \<Longrightarrow> cidr_parts s = Ok (s, None)"
  by (auto simp: cidr_parts_def find_pos_takeWhile)

lemma cidr_parts_slash:
  assumes "ascii CHR ''/'' \<notin> set a" "ascii CHR ''/'' \<notin> set p"
  shows "cidr_parts (a @ ascii CHR ''/'' # p) = Ok (a, Some p)"
proof -
  have "find_pos (\<lambda>b. b = ascii CHR ''/'') (a @ ascii CHR ''/'' # p) = Some (length a)"
    using assms find_pos_append_free [of "\<lambda>b. b = ascii CHR ''/''" a "ascii CHR ''/'' # p"]
    by (auto simp: list_all_iff)
  moreover have "find_pos (\<lambda>b. b = ascii CHR ''/'') p = None"
    using assms by (auto simp: find_pos_takeWhile)
  ultimately show ?thesis by (simp add: cidr_parts_def Let_def)
qed

lemma cidr_parts_addr: "cidr_parts s = Ok (a, p) \<Longrightarrow> set a \<subseteq> set s"
  by (auto simp: cidr_parts_def Let_def split: option.splits dest: in_set_takeD)

lemma parse_prefix_show:
  assumes "p \<le> m"
  shows "parse_prefix (show_nat (unat p)) m = Ok p"
  using assms unat_piece_less(1) [of p] by (simp add: parse_prefix_def parse_show_nat Let_def)

lemma parse_prefix_le: "parse_prefix s m = Ok p \<Longrightarrow> p \<le> m"
  by (auto simp: parse_prefix_def Let_def split: option.splits if_splits)

section \<open>Checked arithmetic\<close>

text \<open>Addition and subtraction of an unsigned type; \<open>None\<close> is the overflow panic.\<close>

definition word_add :: "'a :: len word \<Rightarrow> 'a word \<Rightarrow> 'a word option" where
  "word_add a b = (if unat a + unat b < 2 ^ LENGTH('a) then Some (a + b) else None)"

definition word_sub :: "'a :: len word \<Rightarrow> 'a word \<Rightarrow> 'a word option" where
  "word_sub a b = (if b \<le> a then Some (a - b) else None)"

lemma unat_plus_one: "n \<noteq> - 1 \<Longrightarrow> unat (n + 1 :: 'a :: len word) = Suc (unat n)"
  using unatSuc [of n] by (simp add: add.commute eq_neg_iff_add_eq_0)

lemma word_add_one: "word_add n 1 = (if n = - 1 then None else Some (n + 1 :: 'a :: len word))"
proof (cases "n = - 1")
  case True
  then show ?thesis by (simp add: word_add_def unsigned_minus_1_eq_mask mask_eq_exp_minus_1)
next
  case False
  then show ?thesis using unat_plus_one [OF False] unsigned_less [of "n + 1", where 'a = nat]
    by (simp add: word_add_def)
qed

lemma word_measure: "n \<noteq> - 1 \<Longrightarrow> 2 ^ LENGTH('a) - unat (n + 1 :: 'a :: len word) < 2 ^ LENGTH('a) - unat n"
  using unsigned_less [of n, where 'a = nat] by (simp add: unat_plus_one diff_less_mono2)

lemma unat_shift_one: "k < LENGTH('a) \<Longrightarrow> unat (push_bit k 1 :: 'a :: len word) = 2 ^ k"
  unfolding unsigned_push_bit_eq unfolding push_bit_eq_mult take_bit_eq_mod by simp

lemma ucast_up_eq_0:
  assumes "LENGTH('a) \<le> LENGTH('b)"
  shows "(ucast (w :: 'a :: len word) :: 'b :: len word) = 0 \<longleftrightarrow> w = 0"
proof
  assume zero: "(ucast w :: 'b word) = 0"
  show "w = 0"
  proof (rule bit_word_eqI)
    fix i assume "i < LENGTH('a)"
    moreover have "\<not> bit (ucast w :: 'b word) i" unfolding zero by simp
    ultimately show "bit w i = bit 0 i" using assms by (simp add: bit_simps)
  qed
qed simp

section \<open>Blocks of addresses\<close>

text \<open>
  The specification: the addresses that agree with \<open>a\<close> in the \<open>p\<close> leading bits.
\<close>

definition cidr_block :: "'a :: len word \<Rightarrow> nat \<Rightarrow> 'a word set" where
  "cidr_block a p = {ip. drop_bit (LENGTH('a) - p) ip = drop_bit (LENGTH('a) - p) a}"

definition prefix_mask :: "nat \<Rightarrow> 'a :: len word" where
  "prefix_mask p = NOT (mask (LENGTH('a) - p))"

lemma bit_prefix_mask: "bit (prefix_mask p :: 'a :: len word) i \<longleftrightarrow> i < LENGTH('a) \<and> LENGTH('a) - p \<le> i"
  by (auto simp: prefix_mask_def bit_simps)

lemma prefix_mask_shift: "p \<le> LENGTH('a) \<Longrightarrow> push_bit (LENGTH('a) - p) (- 1) = (prefix_mask p :: 'a :: len word)"
  by (rule bit_word_eqI) (auto simp: bit_prefix_mask bit_simps)

lemma and_prefix_mask_eq:
  "(a AND prefix_mask p = b AND prefix_mask p) \<longleftrightarrow> drop_bit (LENGTH('a) - p) (a :: 'a :: len word) = drop_bit (LENGTH('a) - p) b"
proof
  assume eq: "a AND prefix_mask p = b AND prefix_mask p"
  show "drop_bit (LENGTH('a) - p) a = drop_bit (LENGTH('a) - p) b"
  proof (rule bit_word_eqI)
    fix i assume "i < LENGTH('a)"
    from eq have "bit (a AND prefix_mask p) (LENGTH('a) - p + i) = bit (b AND prefix_mask p) (LENGTH('a) - p + i)" by simp
    then show "bit (drop_bit (LENGTH('a) - p) a) i = bit (drop_bit (LENGTH('a) - p) b) i"
      by (auto simp: bit_prefix_mask bit_simps dest: bit_imp_le_length)
  qed
next
  assume eq: "drop_bit (LENGTH('a) - p) a = drop_bit (LENGTH('a) - p) b"
  show "a AND prefix_mask p = b AND prefix_mask p"
  proof (rule bit_word_eqI)
    fix i assume "i < LENGTH('a)"
    from eq have "bit (drop_bit (LENGTH('a) - p) a) (i - (LENGTH('a) - p)) =
        bit (drop_bit (LENGTH('a) - p) b) (i - (LENGTH('a) - p))" by simp
    then show "bit (a AND prefix_mask p) i = bit (b AND prefix_mask p) i"
      by (auto simp: bit_prefix_mask bit_simps)
  qed
qed

lemma unat_mask: "h \<le> LENGTH('a) \<Longrightarrow> unat (mask h :: 'a :: len word) = 2 ^ h - 1"
  unfolding mask_eq_exp_minus_1 [symmetric] by (rule bit_eqI) (auto simp: bit_unsigned_iff bit_simps)

text \<open>The lowest and the highest address of a block, as numbers.\<close>

lemma unat_network:
  fixes a :: "'a :: len word" and p :: nat
  defines "h \<equiv> LENGTH('a) - p"
  shows "unat (a AND prefix_mask p) = unat a div 2 ^ h * 2 ^ h"
proof -
  have "a AND prefix_mask p = push_bit h (drop_bit h a)"
    by (rule bit_word_eqI) (auto simp: bit_prefix_mask bit_simps h_def)
  moreover have "unat a div 2 ^ h * 2 ^ h < 2 ^ LENGTH('a)"
    by (rule le_less_trans [OF _ unsigned_less [of a]]) simp
  moreover have "unat (push_bit h (drop_bit h a)) = unat a div 2 ^ h * 2 ^ h mod 2 ^ LENGTH('a)"
    unfolding unsigned_push_bit_eq unat_drop_bit_eq
    unfolding push_bit_eq_mult drop_bit_eq_div take_bit_eq_mod ..
  ultimately show ?thesis by simp
qed

lemma unat_broadcast:
  fixes a :: "'a :: len word" and p :: nat
  defines "h \<equiv> LENGTH('a) - p"
  shows "unat (a OR NOT (prefix_mask p)) = unat a div 2 ^ h * 2 ^ h + (2 ^ h - 1)"
proof -
  have "a OR NOT (prefix_mask p) = (a AND prefix_mask p) OR mask h"
    by (rule bit_word_eqI) (auto simp: bit_prefix_mask bit_simps h_def)
  also have "\<dots> = (a AND prefix_mask p) + mask h"
    by (rule disjunctive_add_eq_or [symmetric], rule bit_word_eqI) (auto simp: bit_prefix_mask bit_simps h_def)
  finally have eq: "a OR NOT (prefix_mask p) = (a AND prefix_mask p) + mask h" .
  have h: "h \<le> LENGTH('a)" by (simp add: h_def)
  then have "(2 :: nat) ^ LENGTH('a) = 2 ^ (LENGTH('a) - h) * 2 ^ h" by (simp flip: power_add)
  moreover have "unat a div 2 ^ h < 2 ^ (LENGTH('a) - h)"
    using unsigned_less [of a, where 'a = nat] h by (simp add: less_mult_imp_div_less flip: power_add)
  ultimately have "unat a div 2 ^ h * 2 ^ h + 2 ^ h \<le> (2 :: nat) ^ LENGTH('a)"
    by (metis Suc_leI add.commute mult_Suc mult_le_mono1)
  moreover have "0 < (2 :: nat) ^ h" by simp
  ultimately have less: "unat a div 2 ^ h * 2 ^ h + (2 ^ h - 1) < (2 :: nat) ^ LENGTH('a)" by linarith
  show ?thesis unfolding eq unat_word_ariths unat_network unat_mask [OF h]
    using less by (simp only: mod_less flip: h_def)
qed

lemma cidr_block_iff: "ip \<in> cidr_block a p \<longleftrightarrow> unat ip div 2 ^ (LENGTH('a) - p) = unat (a :: 'a :: len word) div 2 ^ (LENGTH('a) - p)"
  unfolding cidr_block_def mem_Collect_eq word_unat_eq_iff unat_drop_bit_eq
  unfolding drop_bit_eq_div ..

lemma div_eq_iff_range:
  assumes "0 < (m :: nat)"
  shows "x div m = q \<longleftrightarrow> q * m \<le> x \<and> x \<le> q * m + (m - 1)"
proof
  assume "x div m = q"
  then have "q * m + x mod m = x" using div_mult_mod_eq [of x m] by simp
  moreover have "x mod m < m" using assms by simp
  ultimately show "q * m \<le> x \<and> x \<le> q * m + (m - 1)" by linarith
next
  assume "q * m \<le> x \<and> x \<le> q * m + (m - 1)"
  with assms show "x div m = q" by (intro div_nat_eqI) (auto simp: mult.commute)
qed

lemma cidr_block_range: "cidr_block a p = {a AND prefix_mask p..a OR NOT (prefix_mask p)}"
  unfolding set_eq_iff cidr_block_iff
  by (simp only: atLeastAtMost_iff word_le_nat_alt unat_network unat_broadcast div_eq_iff_range zero_less_power zero_less_numeral simp_thms)

lemma cidr_block_self [simp]: "a \<in> cidr_block a p"
  by (simp add: cidr_block_def)

lemma cidr_block_bounds: "a AND prefix_mask p \<in> cidr_block a p" "a OR NOT (prefix_mask p) \<in> cidr_block a p"
  "a AND prefix_mask p \<le> a" "a \<le> a OR NOT (prefix_mask p)"
proof -
  have "a \<in> {a AND prefix_mask p..a OR NOT (prefix_mask p)}" unfolding cidr_block_range [symmetric] by simp
  then show "a AND prefix_mask p \<le> a" "a \<le> a OR NOT (prefix_mask p)" by auto
  then show "a AND prefix_mask p \<in> cidr_block a p" "a OR NOT (prefix_mask p) \<in> cidr_block a p"
    unfolding cidr_block_range by auto
qed

text \<open>Two blocks are nested or disjoint.\<close>

lemma cidr_block_nested:
  assumes "p \<le> q" "q \<le> LENGTH('a)" and "x \<in> cidr_block (a :: 'a :: len word) p" "x \<in> cidr_block b q"
  shows "cidr_block b q \<subseteq> cidr_block a p"
proof
  fix y assume "y \<in> cidr_block b q"
  with assms have xy: "drop_bit (LENGTH('a) - q) y = drop_bit (LENGTH('a) - q) x" by (simp add: cidr_block_def)
  have "LENGTH('a) - p = (q - p) + (LENGTH('a) - q)" using assms by simp
  then have drop: "drop_bit (LENGTH('a) - p) z = drop_bit (q - p) (drop_bit (LENGTH('a) - q) z)" for z :: "'a word"
    by (simp only: drop_bit_drop_bit)
  have "drop_bit (LENGTH('a) - p) y = drop_bit (LENGTH('a) - p) x" unfolding drop [of x] drop [of y] xy ..
  with assms(3) show "y \<in> cidr_block a p" by (simp only: cidr_block_def mem_Collect_eq)
qed

lemma unat_image_range: "unat ` {l..u :: 'a :: len word} = {unat l..unat u}"
proof (rule set_eqI, rule iffI)
  fix n assume n: "n \<in> {unat l..unat u}"
  then have "n < 2 ^ LENGTH('a)" using unsigned_less [of u, where 'a = nat] by (auto intro: le_less_trans)
  then have "unat (word_of_nat n :: 'a word) = n" by (simp add: unsigned_of_nat take_bit_eq_mod)
  with n show "n \<in> unat ` {l..u}" by (intro image_eqI [of _ _ "word_of_nat n"]) (auto simp: word_le_nat_alt)
qed (auto simp: word_le_nat_alt)

lemma cidr_block_card: "card (cidr_block (a :: 'a :: len word) p) = 2 ^ (LENGTH('a) - p)"
proof -
  have "card (cidr_block a p) = card (unat ` cidr_block a p)"
    by (rule card_image [symmetric]) (simp add: inj_on_def word_unat_eq_iff)
  then show ?thesis unfolding cidr_block_range unat_image_range unat_network unat_broadcast by simp
qed

section \<open>Masks\<close>

definition leading_zeros :: "'a :: len word \<Rightarrow> nat" where
  "leading_zeros w = length (takeWhile (\<lambda>i. \<not> bit w i) (rev [0..<LENGTH('a)]))"

lemma leading_zeros_le: "leading_zeros (w :: 'a :: len word) \<le> LENGTH('a)"
  unfolding leading_zeros_def by (rule le_trans [OF length_takeWhile_le]) simp

lemma leading_zeros_zero:
  assumes "i < LENGTH('a)" "LENGTH('a) - leading_zeros (w :: 'a :: len word) \<le> i"
  shows "\<not> bit w i"
proof -
  let ?P = "\<lambda>i. \<not> bit w i" and ?xs = "rev [0..<LENGTH('a)]"
  have k: "LENGTH('a) - Suc i < length (takeWhile ?P ?xs)"
    using assms leading_zeros_le [of w] unfolding leading_zeros_def by simp
  from set_takeWhileD [OF nth_mem [OF this]] have "?P (takeWhile ?P ?xs ! (LENGTH('a) - Suc i))" ..
  moreover have "takeWhile ?P ?xs ! (LENGTH('a) - Suc i) = i"
    using k assms by (simp add: takeWhile_nth rev_nth)
  ultimately show ?thesis by simp
qed

lemma leading_zeros_next:
  assumes "leading_zeros (w :: 'a :: len word) < LENGTH('a)"
  shows "bit w (LENGTH('a) - Suc (leading_zeros w))"
  using nth_length_takeWhile [of "\<lambda>i. \<not> bit w i" "rev [0..<LENGTH('a)]"] assms
  by (simp add: leading_zeros_def rev_nth)

text \<open>A mask is the one of a prefix when nothing is left after its leading ones are shifted out.\<close>

lemma prefix_mask_iff:
  assumes "p \<le> LENGTH('a)"
  shows "(m :: 'a :: len word) = prefix_mask p \<longleftrightarrow> p = leading_zeros (NOT m) \<and> push_bit p m = 0"
proof
  assume m: "m = prefix_mask p"
  let ?k = "leading_zeros (NOT m)"
  have "p = ?k"
  proof (rule ccontr)
    assume "p \<noteq> ?k"
    then consider "p < ?k" | "?k < p" by linarith
    then show False
    proof cases
      case 1
      then have "LENGTH('a) - ?k \<le> LENGTH('a) - Suc p" "LENGTH('a) - Suc p < LENGTH('a) - p"
        using leading_zeros_le [of "NOT m"] by linarith+
      then show False using leading_zeros_zero [of "LENGTH('a) - Suc p" "NOT m"]
        by (simp add: m bit_prefix_mask bit_simps)
    next
      case 2
      then show False using leading_zeros_next [of "NOT m"] assms
        by (auto simp: m bit_prefix_mask bit_simps)
    qed
  qed
  moreover have "push_bit p m = 0"
    by (rule bit_word_eqI) (auto simp: m bit_prefix_mask bit_simps)
  ultimately show "p = ?k \<and> push_bit p m = 0" by simp
next
  assume eq: "p = leading_zeros (NOT m) \<and> push_bit p m = 0"
  show "m = prefix_mask p"
  proof (rule bit_word_eqI)
    fix i assume i: "i < LENGTH('a)"
    show "bit m i = bit (prefix_mask p :: 'a word) i"
    proof (cases "LENGTH('a) - p \<le> i")
      case True
      then show ?thesis using leading_zeros_zero [of i "NOT m"] eq i by (simp add: bit_prefix_mask bit_simps)
    next
      case False
      have "\<not> bit (push_bit p m) (i + p)" unfolding conjunct2 [OF eq] by simp
      then show ?thesis using False i by (simp add: bit_prefix_mask bit_simps)
    qed
  qed
qed

section \<open>The contract of a network\<close>

locale cidr_network =
  fixes valid :: "'n \<Rightarrow> bool"
    and addr :: "'n \<Rightarrow> 'a :: len word"
    and plen :: "'n \<Rightarrow> nat"
    and network_of :: "'n \<Rightarrow> 'a word option"
    and broadcast_of :: "'n \<Rightarrow> 'a word option"
    and contains_in :: "'n \<Rightarrow> 'a word \<Rightarrow> bool option"
    and subnet :: "'n \<Rightarrow> 'n \<Rightarrow> bool option"
    and overlap :: "'n \<Rightarrow> 'n \<Rightarrow> bool option"
  assumes plen_le: "valid n \<Longrightarrow> plen n \<le> LENGTH('a)"
    and network_law: "valid n \<Longrightarrow> network_of n = Some (addr n AND prefix_mask (plen n))"
    and broadcast_law: "valid n \<Longrightarrow> broadcast_of n = Some (addr n OR NOT (prefix_mask (plen n)))"
    and contains_law: "valid n \<Longrightarrow>
      contains_in n ip = Some (ip AND prefix_mask (plen n) = addr n AND prefix_mask (plen n))"
    and subnet_law: "valid m \<Longrightarrow> valid n \<Longrightarrow>
      subnet m n = Some (addr n \<le> addr m \<and> the (broadcast_of m) \<le> the (broadcast_of n))"
    and overlap_law: "valid m \<Longrightarrow> valid n \<Longrightarrow>
      overlap m n = Some (the (contains_in n (addr m)) \<or> the (contains_in n (the (broadcast_of m))) \<or>
        the (contains_in m (addr n)) \<or> the (contains_in m (the (broadcast_of n))))"
begin

definition block :: "'n \<Rightarrow> 'a word set" where
  "block n = cidr_block (addr n) (plen n)"

lemma contains_block: "valid n \<Longrightarrow> contains_in n ip = Some (ip \<in> block n)"
  by (simp only: contains_law and_prefix_mask_eq block_def cidr_block_def mem_Collect_eq)

lemma block_range: "valid n \<Longrightarrow> block n = {the (network_of n)..the (broadcast_of n)}"
  by (simp only: block_def cidr_block_range network_law broadcast_law option.sel)

lemma contains_range:
  assumes "valid n"
  shows "contains_in n ip = Some (the (network_of n) \<le> ip \<and> ip \<le> the (broadcast_of n))"
  using contains_block [OF assms] block_range [OF assms] by simp

lemma network_le_broadcast: "valid n \<Longrightarrow> the (network_of n) \<le> the (broadcast_of n)"
  by (simp only: network_law broadcast_law option.sel) (rule order_trans [OF cidr_block_bounds(3) cidr_block_bounds(4)])

lemma network_broadcast_unat:
  "valid n \<Longrightarrow> unat (the (broadcast_of n)) = unat (the (network_of n)) + (2 ^ (LENGTH('a) - plen n) - 1)"
  by (simp only: network_law broadcast_law option.sel unat_network unat_broadcast)

lemma overlap_correct:
  assumes "valid m" "valid n"
  shows "overlap m n = Some (block m \<inter> block n \<noteq> {})"
proof -
  have mem: "addr m \<in> block m" "addr n \<in> block n" "the (broadcast_of m) \<in> block m" "the (broadcast_of n) \<in> block n"
    using assms cidr_block_bounds by (simp_all add: block_def broadcast_law)
  have "addr m \<in> block n \<or> addr n \<in> block m" if "x \<in> block m" "x \<in> block n" for x
  proof (cases "plen m \<le> plen n")
    case True
    from cidr_block_nested [OF this plen_le [OF assms(2)], of x "addr m" "addr n"] that mem(2)
    show ?thesis unfolding block_def by blast
  next
    case False
    then have "plen n \<le> plen m" by simp
    from cidr_block_nested [OF this plen_le [OF assms(1)], of x "addr n" "addr m"] that mem(1)
    show ?thesis unfolding block_def by blast
  qed
  then have "(addr m \<in> block n \<or> the (broadcast_of m) \<in> block n \<or> addr n \<in> block m \<or> the (broadcast_of n) \<in> block m)
      \<longleftrightarrow> block m \<inter> block n \<noteq> {}" using mem by blast
  then show ?thesis using assms by (simp add: overlap_law contains_block)
qed

text \<open>Between networks written with their network address the subnet test is inclusion.\<close>

lemma subnet_correct:
  assumes "valid m" "valid n" "network_of m = Some (addr m)" "network_of n = Some (addr n)"
  shows "subnet m n = Some (block m \<subseteq> block n)"
  using assms network_le_broadcast [OF assms(1)]
  by (simp add: subnet_law block_range)

end

section \<open>The contract of an iterator over addresses\<close>

definition word_range :: "'a :: len word \<Rightarrow> 'a word \<Rightarrow> 'a word list" where
  "word_range lo hi = map word_of_nat [unat lo..<Suc (unat hi)]"

lemma set_word_range: "set (word_range lo hi) = {lo..hi}"
proof -
  have "set (word_range lo hi) = word_of_nat ` unat ` {lo..hi}"
    unfolding unat_image_range word_range_def by (simp only: set_map set_upt atLeastLessThanSuc_atLeastAtMost)
  then show ?thesis by (simp add: image_image)
qed

lemma word_range_step:
  assumes "lo < hi"
  shows "word_range lo hi = lo # word_range (lo + 1) hi"
proof -
  have "lo \<noteq> - 1" using assms word_n1_ge [of hi] by auto
  with assms unat_plus_one [of lo] show ?thesis by (simp add: word_range_def word_less_nat_alt upt_conv_Cons)
qed

lemma length_word_range: "length (word_range lo hi) = Suc (unat hi) - unat lo"
  by (simp add: word_range_def del: upt_Suc)

lemma word_range_nth: "k < length (word_range lo hi) \<Longrightarrow> word_range lo hi ! k = lo + word_of_nat k"
  by (simp add: word_range_def del: upt_Suc)

lemma word_range_last: "word_range w w = [w]"
  by (simp add: word_range_def)

locale range_iterator =
  fixes advance :: "'s \<Rightarrow> ('s \<times> 'a :: len word option) option"
    and cursor :: "'s \<Rightarrow> 'a word option"
    and limit :: "'s \<Rightarrow> 'a word"
    and collect :: "'s \<Rightarrow> 'a word list option"
  assumes advance_done: "cursor s = None \<Longrightarrow> advance s = Some (s, None)"
    and advance_last: "cursor s = Some (limit s) \<Longrightarrow>
      \<exists>s'. advance s = Some (s', Some (limit s)) \<and> cursor s' = None"
    and advance_step: "cursor s = Some n \<Longrightarrow> n \<noteq> limit s \<Longrightarrow> n \<noteq> - 1 \<Longrightarrow>
      \<exists>s'. advance s = Some (s', Some n) \<and> cursor s' = Some (n + 1) \<and> limit s' = limit s"
    and collect_law: "collect s =
      (case advance s of
         None \<Rightarrow> None
       | Some (s', x) \<Rightarrow> (case x of None \<Rightarrow> Some [] | Some a \<Rightarrow> map_option ((#) a) (collect s')))"
begin

lemma collect_done: "cursor s = None \<Longrightarrow> collect s = Some []"
  by (subst collect_law) (simp add: advance_done)

lemma collect_range:
  assumes "cursor s = Some n" "n \<le> limit s"
  shows "collect s = Some (word_range n (limit s))"
  using assms
proof (induction "unat (limit s) - unat n" arbitrary: s n)
  case 0
  then have "n = limit s" by (simp add: word_le_nat_alt word_unat_eq_iff)
  with 0 advance_last [of s] obtain s' where "advance s = Some (s', Some n)" "cursor s' = None" by auto
  then show ?case using \<open>n = limit s\<close> by (subst collect_law) (simp add: collect_done word_range_last)
next
  case (Suc k)
  then have less: "n < limit s" by (simp add: word_less_nat_alt)
  then have "n \<noteq> - 1" using word_n1_ge [of "limit s"] by auto
  with Suc.prems less advance_step [of s n] obtain s' where
    s': "advance s = Some (s', Some n)" "cursor s' = Some (n + 1)" "limit s' = limit s" by auto
  have "collect s' = Some (word_range (n + 1) (limit s'))"
    using Suc.hyps(2) less s' unat_plus_one [OF \<open>n \<noteq> - 1\<close>] by (intro Suc.hyps(1)) (auto simp: word_le_nat_alt word_less_nat_alt)
  then show ?case using s' less by (subst collect_law) (simp add: word_range_step)
qed

end

end
