(* ===== verification/Ipv4_Network.thy ===== *)
theory Ipv4_Network
  imports Cidr
begin

text \<open>
  The IPv4 side of the network crate (\<open>src/ipnetwork/src/ipv4.rs\<close>): construction, the mask,
  network and broadcast address, membership, size, the \<open>n\<close>th address, the iterator and the
  text form. \<open>None\<close> of an outer option is a panic: a failed \<open>debug_assert\<close> or an arithmetic
  overflow. The side is interpreted in the contracts of \<open>Cidr\<close>.
\<close>

unbundle bit_operations_syntax

definition IPV4_BITS :: byte where
  "IPV4_BITS = 32"

record ipv4_network =
  v4_addr :: ipv4_addr
  v4_prefix :: byte

definition ipv4_new_checked :: "ipv4_addr \<Rightarrow> byte \<Rightarrow> ipv4_network option" where
  "ipv4_new_checked addr prefix =
     (if prefix > IPV4_BITS then None else Some \<lparr>v4_addr = addr, v4_prefix = prefix\<rparr>)"

definition ipv4_new :: "ipv4_addr \<Rightarrow> byte \<Rightarrow> (ip_network_error, ipv4_network) result" where
  "ipv4_new addr prefix =
     (case ipv4_new_checked addr prefix of Some a \<Rightarrow> Ok a | None \<Rightarrow> Err InvalidPrefix)"

definition ipv4_mask_to_prefix_checked :: "ipv4_addr \<Rightarrow> byte option" where
  "ipv4_mask_to_prefix_checked netmask =
     (let prefix = word_of_nat (leading_zeros (NOT netmask)) :: byte in
      if push_bit (unat prefix) (ucast netmask :: u64) AND 0xFFFFFFFF \<noteq> 0 then None else Some prefix)"

definition ipv4_mask_to_prefix :: "ipv4_addr \<Rightarrow> (ip_network_error, byte) result" where
  "ipv4_mask_to_prefix netmask =
     (case ipv4_mask_to_prefix_checked netmask of Some prefix \<Rightarrow> Ok prefix | None \<Rightarrow> Err InvalidPrefix)"

definition ipv4_with_netmask :: "ipv4_addr \<Rightarrow> ipv4_addr \<Rightarrow> (ip_network_error, ipv4_network) result" where
  "ipv4_with_netmask netaddr netmask =
     (case ipv4_mask_to_prefix netmask of
        Err e \<Rightarrow> Err e
      | Ok prefix \<Rightarrow> Ok \<lparr>v4_addr = netaddr, v4_prefix = prefix\<rparr>)"

definition ipv4_mask :: "ipv4_network \<Rightarrow> ipv4_addr option" where
  "ipv4_mask self =
     (if v4_prefix self > 32 then None
      else if v4_prefix self = 0 then Some 0
      else Some (push_bit (unat (IPV4_BITS - v4_prefix self)) (- 1)))"

definition ipv4_network_address :: "ipv4_network \<Rightarrow> ipv4_addr option" where
  "ipv4_network_address self = do { mask \<leftarrow> ipv4_mask self; Some (v4_addr self AND mask) }"

definition ipv4_broadcast :: "ipv4_network \<Rightarrow> ipv4_addr option" where
  "ipv4_broadcast self = do { mask \<leftarrow> ipv4_mask self; Some (v4_addr self OR NOT mask) }"

definition ipv4_contains :: "ipv4_network \<Rightarrow> ipv4_addr \<Rightarrow> bool option" where
  "ipv4_contains self ip =
     (if v4_prefix self > IPV4_BITS then None
      else let mask = ucast (NOT (drop_bit (unat (v4_prefix self)) (0xFFFFFFFF :: u64))) :: u32;
               net = v4_addr self AND mask
           in Some (ip AND mask = net))"

definition ipv4_is_subnet_of :: "ipv4_network \<Rightarrow> ipv4_network \<Rightarrow> bool option" where
  "ipv4_is_subnet_of self other =
     (if v4_addr other \<le> v4_addr self
      then do { theirs \<leftarrow> ipv4_broadcast other; ours \<leftarrow> ipv4_broadcast self; Some (theirs \<ge> ours) }
      else Some False)"

definition ipv4_is_supernet_of :: "ipv4_network \<Rightarrow> ipv4_network \<Rightarrow> bool option" where
  "ipv4_is_supernet_of self other = ipv4_is_subnet_of other self"

definition ipv4_overlaps :: "ipv4_network \<Rightarrow> ipv4_network \<Rightarrow> bool option" where
  "ipv4_overlaps self other =
     do {
       c \<leftarrow> ipv4_contains other (v4_addr self);
       if c then Some True else do {
         b \<leftarrow> ipv4_broadcast self;
         c \<leftarrow> ipv4_contains other b;
         if c then Some True else do {
           c \<leftarrow> ipv4_contains self (v4_addr other);
           if c then Some True else do {
             b \<leftarrow> ipv4_broadcast other;
             ipv4_contains self b
           }}}}"

definition ipv4_size :: "ipv4_network \<Rightarrow> u32 option" where
  "ipv4_size self =
     (if v4_prefix self > 32 then None
      else if v4_prefix self = 0 then Some (- 1)
      else Some (push_bit (unat (IPV4_BITS - v4_prefix self)) 1))"

definition ipv4_nth :: "ipv4_network \<Rightarrow> u32 \<Rightarrow> ipv4_addr option option" where
  "ipv4_nth self n =
     do {
       size \<leftarrow> ipv4_size self;
       if n < size then do {
         net \<leftarrow> ipv4_network_address self;
         a \<leftarrow> word_add net n;
         Some (Some a)
       } else Some None
     }"

section \<open>The iterator\<close>

record ipv4_network_iterator =
  v4_next :: "u32 option"
  v4_end :: u32

definition ipv4_iter :: "ipv4_network \<Rightarrow> ipv4_network_iterator option" where
  "ipv4_iter self =
     do {
       start \<leftarrow> ipv4_network_address self;
       size \<leftarrow> ipv4_size self;
       d \<leftarrow> word_sub size 1;
       e \<leftarrow> word_add start d;
       Some \<lparr>v4_next = Some start, v4_end = e\<rparr>
     }"

definition ipv4_iter_next :: "ipv4_network_iterator \<Rightarrow> (ipv4_network_iterator \<times> ipv4_addr option) option" where
  "ipv4_iter_next self =
     (case v4_next self of
        None \<Rightarrow> Some (self, None)
      | Some n \<Rightarrow>
          do {
            succ \<leftarrow> (if n = v4_end self then Some None else map_option Some (word_add n 1));
            Some (self\<lparr>v4_next := succ\<rparr>, Some n)
          })"

definition ipv4_iter_size_hint :: "ipv4_network_iterator \<Rightarrow> (nat \<times> nat option) option" where
  "ipv4_iter_size_hint self =
     (case v4_next self of
        Some n \<Rightarrow>
          do {
            d \<leftarrow> word_sub (v4_end self) n;
            elms \<leftarrow> word_add d 1;
            Some (unat elms, Some (unat elms))
          }
      | None \<Rightarrow> Some (0, None))"

section \<open>Text\<close>

definition ipv4_fmt :: "ipv4_network \<Rightarrow> byte list" where
  "ipv4_fmt self = ipv4_addr_fmt (v4_addr self) @ ascii_bytes ''/'' @ show_nat (unat (v4_prefix self))"

definition ipv4_from_str :: "byte list \<Rightarrow> (ip_network_error, ipv4_network) result" where
  "ipv4_from_str s =
     (case cidr_parts s of
        Err e \<Rightarrow> Err e
      | Ok (addr_str, prefix_str) \<Rightarrow>
          (case ipv4_addr_from_str addr_str of
             Err e \<Rightarrow> Err (ip_network_error_from e)
           | Ok addr \<Rightarrow>
               (case (case prefix_str of
                        Some v \<Rightarrow>
                          (case ipv4_addr_from_str v of
                             Ok netmask \<Rightarrow> ipv4_mask_to_prefix netmask
                           | Err _ \<Rightarrow> parse_prefix v IPV4_BITS)
                      | None \<Rightarrow> Ok IPV4_BITS) of
                  Err e \<Rightarrow> Err e
                | Ok prefix \<Rightarrow> ipv4_new addr prefix)))"

definition ipv4_from_addr :: "ipv4_addr \<Rightarrow> ipv4_network" where
  "ipv4_from_addr a = \<lparr>v4_addr = a, v4_prefix = 32\<rparr>"

section \<open>The invariant and the contract\<close>

definition ipv4_wf :: "ipv4_network \<Rightarrow> bool" where
  "ipv4_wf n \<longleftrightarrow> v4_prefix n \<le> IPV4_BITS"

lemma ipv4_wf_unat: "ipv4_wf n \<longleftrightarrow> unat (v4_prefix n) \<le> 32"
  by (simp add: ipv4_wf_def IPV4_BITS_def word_le_nat_alt)

lemma ipv4_new_checked_iff: "ipv4_new_checked a p = Some n \<longleftrightarrow> n = \<lparr>v4_addr = a, v4_prefix = p\<rparr> \<and> ipv4_wf n"
  by (auto simp: ipv4_new_checked_def ipv4_wf_def)

lemma ipv4_new_wf: "ipv4_new a p = Ok n \<Longrightarrow> ipv4_wf n"
  by (auto simp: ipv4_new_def ipv4_new_checked_iff split: option.splits)

lemma ipv4_new_ok: "ipv4_wf n \<Longrightarrow> ipv4_new (v4_addr n) (v4_prefix n) = Ok n"
  by (simp add: ipv4_new_def ipv4_new_checked_def ipv4_wf_def)

lemma ipv4_mask_wf: "ipv4_wf n \<Longrightarrow> ipv4_mask n = Some (prefix_mask (unat (v4_prefix n)))"
proof -
  assume wf: "ipv4_wf n"
  let ?p = "unat (v4_prefix n)"
  have sub: "unat (32 - v4_prefix n) = 32 - ?p" if "v4_prefix n \<noteq> 0"
    using wf by (subst unat_sub) (simp_all add: ipv4_wf_def IPV4_BITS_def)
  have zero: "(prefix_mask 0 :: u32) = 0"
    by (rule bit_word_eqI) (simp add: bit_prefix_mask)
  show ?thesis
  proof (cases "v4_prefix n = 0")
    case True
    then show ?thesis using wf by (simp add: ipv4_mask_def ipv4_wf_def IPV4_BITS_def zero)
  next
    case False
    then show ?thesis using wf sub [OF False] prefix_mask_shift [of ?p, where 'a = 32]
      by (simp only: ipv4_mask_def ipv4_wf_unat IPV4_BITS_def word_less_nat_alt) simp
  qed
qed

lemma ipv4_contains_mask:
  assumes "p \<le> 32"
  shows "(ucast (NOT (drop_bit p (0xFFFFFFFF :: u64))) :: u32) = prefix_mask p"
proof -
  have eq: "(0xFFFFFFFF :: u64) = mask 32" by (simp add: mask_eq_exp_minus_1)
  show ?thesis unfolding eq using assms
    by (intro bit_word_eqI) (auto simp: bit_prefix_mask bit_simps)
qed

lemmas ipv4_defs = ipv4_network_address_def ipv4_broadcast_def ipv4_mask_wf

lemma ipv4_contains_wf:
  assumes "ipv4_wf n"
  shows "ipv4_contains n ip =
    Some (ip AND prefix_mask (unat (v4_prefix n)) = v4_addr n AND prefix_mask (unat (v4_prefix n)))"
  using assms ipv4_contains_mask [of "unat (v4_prefix n)"] unfolding ipv4_contains_def Let_def
  by (simp only: ipv4_wf_unat) (simp add: IPV4_BITS_def word_less_nat_alt)

interpretation ipv4: cidr_network ipv4_wf v4_addr "\<lambda>n. unat (v4_prefix n)" ipv4_network_address
  ipv4_broadcast ipv4_contains ipv4_is_subnet_of ipv4_overlaps
proof unfold_locales
  fix n m :: ipv4_network and ip :: ipv4_addr
  show "ipv4_wf n \<Longrightarrow> unat (v4_prefix n) \<le> LENGTH(32)" by (simp add: ipv4_wf_unat)
  show "ipv4_wf n \<Longrightarrow> ipv4_network_address n = Some (v4_addr n AND prefix_mask (unat (v4_prefix n)))"
    by (simp add: ipv4_defs)
  show "ipv4_wf n \<Longrightarrow> ipv4_broadcast n = Some (v4_addr n OR NOT (prefix_mask (unat (v4_prefix n))))"
    by (simp add: ipv4_defs)
  show "ipv4_wf n \<Longrightarrow> ipv4_contains n ip =
      Some (ip AND prefix_mask (unat (v4_prefix n)) = v4_addr n AND prefix_mask (unat (v4_prefix n)))"
    by (rule ipv4_contains_wf)
  show "ipv4_wf m \<Longrightarrow> ipv4_wf n \<Longrightarrow> ipv4_is_subnet_of m n =
      Some (v4_addr n \<le> v4_addr m \<and> the (ipv4_broadcast m) \<le> the (ipv4_broadcast n))"
    by (simp add: ipv4_is_subnet_of_def ipv4_defs)
  show "ipv4_wf m \<Longrightarrow> ipv4_wf n \<Longrightarrow> ipv4_overlaps m n =
      Some (the (ipv4_contains n (v4_addr m)) \<or> the (ipv4_contains n (the (ipv4_broadcast m))) \<or>
        the (ipv4_contains m (v4_addr n)) \<or> the (ipv4_contains m (the (ipv4_broadcast n))))"
    by (simp add: ipv4_overlaps_def ipv4_contains_wf ipv4_broadcast_def ipv4_mask_wf)
qed

section \<open>Masks and prefixes\<close>

lemma ipv4_shifted_mask:
  assumes "p \<le> 32"
  shows "push_bit p (ucast m :: u64) AND 0xFFFFFFFF = 0 \<longleftrightarrow> push_bit p (m :: u32) = 0"
proof -
  have eq: "(0xFFFFFFFF :: u64) = mask 32" by (simp add: mask_eq_exp_minus_1)
  have "(ucast (push_bit p m) :: u64) = push_bit p (ucast m :: u64) AND 0xFFFFFFFF"
    unfolding eq using assms by (intro bit_word_eqI) (auto simp: bit_simps)
  then show ?thesis using ucast_up_eq_0 [of "push_bit p m", where 'b = 64] by simp
qed

lemma ipv4_mask_to_prefix_iff:
  "ipv4_mask_to_prefix_checked m = Some p \<longleftrightarrow> unat p \<le> 32 \<and> m = prefix_mask (unat p)"
proof -
  let ?k = "leading_zeros (NOT m)"
  have k: "?k \<le> 32" using leading_zeros_le [of "NOT m"] by simp
  then have unat_k: "unat (word_of_nat ?k :: byte) = ?k" by (simp add: unsigned_of_nat take_bit_eq_mod)
  then have "ipv4_mask_to_prefix_checked m = Some p \<longleftrightarrow> push_bit ?k m = 0 \<and> p = word_of_nat ?k"
    using ipv4_shifted_mask [OF k, of m] by (auto simp: ipv4_mask_to_prefix_checked_def Let_def)
  also have "\<dots> \<longleftrightarrow> unat p \<le> 32 \<and> unat p = ?k \<and> push_bit (unat p) m = 0"
    using unat_k k by (auto simp: word_unat_eq_iff)
  finally show ?thesis using prefix_mask_iff [of "unat p" m] by auto
qed

section \<open>All addresses\<close>

text \<open>The addresses that a loop over the iterator sees.\<close>

function ipv4_iter_collect :: "ipv4_network_iterator \<Rightarrow> ipv4_addr list option" where
  "ipv4_iter_collect it =
     (case ipv4_iter_next it of
        None \<Rightarrow> None
      | Some (it', x) \<Rightarrow> (case x of None \<Rightarrow> Some [] | Some a \<Rightarrow> map_option ((#) a) (ipv4_iter_collect it')))"
  by pat_completeness auto
termination
  by (relation "measure (\<lambda>it. case v4_next it of None \<Rightarrow> 0 | Some n \<Rightarrow> 2 ^ LENGTH(32) - unat n)")
    (auto simp: ipv4_iter_next_def word_add_one word_measure
      simp del: len_of_numeral_defs power_numeral split: option.splits if_splits)

declare ipv4_iter_collect.simps [simp del]

interpretation ipv4_iterator: range_iterator ipv4_iter_next v4_next v4_end ipv4_iter_collect
proof unfold_locales
  fix s :: ipv4_network_iterator and n :: u32
  show "v4_next s = None \<Longrightarrow> ipv4_iter_next s = Some (s, None)"
    by (simp add: ipv4_iter_next_def)
  show "v4_next s = Some (v4_end s) \<Longrightarrow> \<exists>s'. ipv4_iter_next s = Some (s', Some (v4_end s)) \<and> v4_next s' = None"
    by (simp add: ipv4_iter_next_def)
  show "v4_next s = Some n \<Longrightarrow> n \<noteq> v4_end s \<Longrightarrow> n \<noteq> - 1 \<Longrightarrow>
      \<exists>s'. ipv4_iter_next s = Some (s', Some n) \<and> v4_next s' = Some (n + 1) \<and> v4_end s' = v4_end s"
    by (simp add: ipv4_iter_next_def word_add_one)
  show "ipv4_iter_collect s = (case ipv4_iter_next s of None \<Rightarrow> None
      | Some (s', x) \<Rightarrow> (case x of None \<Rightarrow> Some [] | Some a \<Rightarrow> map_option ((#) a) (ipv4_iter_collect s')))"
    by (rule ipv4_iter_collect.simps)
qed

text \<open>The size: \<open>2 ^ (32 - prefix)\<close>, but one less for the prefix \<open>0\<close>.\<close>

lemma ipv4_size_wf:
  assumes "ipv4_wf n"
  shows "\<exists>k. ipv4_size n = Some k \<and>
    unat k = (if v4_prefix n = 0 then 2 ^ 32 - 1 else 2 ^ (32 - unat (v4_prefix n)))"
proof (cases "v4_prefix n = 0")
  case True
  then show ?thesis by (simp add: ipv4_size_def unsigned_minus_1_eq_mask mask_eq_exp_minus_1)
next
  case False
  then have "0 < unat (v4_prefix n)" by (simp add: unat_gt_0)
  then have h: "32 - unat (v4_prefix n) < 32" by simp
  have sub: "unat (32 - v4_prefix n) = 32 - unat (v4_prefix n)"
    using assms by (subst unat_sub) (simp_all add: ipv4_wf_def IPV4_BITS_def)
  have "ipv4_size n = Some (push_bit (32 - unat (v4_prefix n)) 1)"
    using False assms unfolding ipv4_size_def IPV4_BITS_def sub by (simp add: ipv4_wf_def IPV4_BITS_def)
  then show ?thesis using unat_shift_one [of "32 - unat (v4_prefix n)", where 'a = 32] h False by simp
qed

text \<open>The addresses of a network are its block, in order; the prefix \<open>0\<close> misses the last one.\<close>

definition ipv4_last :: "ipv4_network \<Rightarrow> ipv4_addr" where
  "ipv4_last n = (if v4_prefix n = 0 then the (ipv4_broadcast n) - 1 else the (ipv4_broadcast n))"

lemma ipv4_prefix_0: "v4_prefix n = 0 \<Longrightarrow> ipv4_network_address n = Some 0 \<and> ipv4_broadcast n = Some (- 1)"
  by (simp add: ipv4_network_address_def ipv4_broadcast_def ipv4_mask_def)

lemma ipv4_iter_wf:
  assumes "ipv4_wf n"
  shows "ipv4_iter n = Some \<lparr>v4_next = ipv4_network_address n, v4_end = ipv4_last n\<rparr>"
proof (cases "v4_prefix n = 0")
  case True
  then show ?thesis
    by (simp add: ipv4_iter_def ipv4_prefix_0 ipv4_size_def ipv4_last_def word_sub_def word_add_def)
next
  case False
  obtain k where k: "ipv4_size n = Some k" "unat k = 2 ^ (32 - unat (v4_prefix n))"
    using ipv4_size_wf [OF assms] False by auto
  let ?last = "the (ipv4_broadcast n)"
  obtain net where net: "ipv4_network_address n = Some net" using ipv4.network_law [OF assms] by simp
  have one: "1 \<le> k" using k(2) by (simp add: word_le_nat_alt)
  have km: "unat (k - 1) = 2 ^ (32 - unat (v4_prefix n)) - 1" using one k(2) by (simp add: unat_sub)
  have last: "unat net + unat (k - 1) = unat ?last" using ipv4.network_broadcast_unat [OF assms] km net by simp
  then have less: "unat net + unat (k - 1) < 2 ^ 32"
    using unsigned_less [of ?last, where 'a = nat] by simp
  then have "net + (k - 1) = ?last" using last by (simp add: word_unat_eq_iff unat_word_ariths)
  with less one k(1) False net show ?thesis
    by (simp add: ipv4_iter_def word_sub_def word_add_def ipv4_last_def)
qed

lemma ipv4_iter_addresses:
  assumes "ipv4_wf n"
  shows "\<exists>it. ipv4_iter n = Some it \<and>
    ipv4_iter_collect it = Some (word_range (the (ipv4_network_address n)) (ipv4_last n))"
proof -
  let ?net = "the (ipv4_network_address n)"
  have net: "ipv4_network_address n = Some ?net" using ipv4.network_law [OF assms] by simp
  have "?net \<le> ipv4_last n"
    using ipv4.network_le_broadcast [OF assms] ipv4_prefix_0 [of n] by (simp add: ipv4_last_def)
  then show ?thesis using ipv4_iter_wf [OF assms] net
      ipv4_iterator.collect_range [of "\<lparr>v4_next = ipv4_network_address n, v4_end = ipv4_last n\<rparr>" ?net]
    by simp
qed

lemma ipv4_nth_wf:
  assumes "ipv4_wf n"
  shows "ipv4_nth n k =
    Some (if unat k < (if v4_prefix n = 0 then 2 ^ 32 - 1 else 2 ^ (32 - unat (v4_prefix n)))
          then Some (the (ipv4_network_address n) + k) else None)"
proof -
  obtain s where s: "ipv4_size n = Some s"
    "unat s = (if v4_prefix n = 0 then 2 ^ 32 - 1 else 2 ^ (32 - unat (v4_prefix n)))"
    using ipv4_size_wf [OF assms] by auto
  obtain net where net: "ipv4_network_address n = Some net" using ipv4.network_law [OF assms] by simp
  have "unat net + unat k < 2 ^ 32" if "unat k < unat s"
  proof (cases "v4_prefix n = 0")
    case True
    then show ?thesis using that s(2) ipv4_prefix_0 [of n] net by simp
  next
    case False
    then show ?thesis
      using that s(2) ipv4.network_broadcast_unat [OF assms] unsigned_less [of "the (ipv4_broadcast n)", where 'a = nat] net by simp
  qed
  then have "word_add net k = Some (net + k)" if "unat k < unat s" using that by (simp add: word_add_def)
  then show ?thesis using s(1) net unfolding s(2) [symmetric] by (simp add: ipv4_nth_def word_less_nat_alt)
qed

lemma ipv4_count:
  assumes "ipv4_wf n"
  shows "length (word_range (the (ipv4_network_address n)) (ipv4_last n)) =
    (if v4_prefix n = 0 then 2 ^ 32 - 1 else 2 ^ (32 - unat (v4_prefix n)))"
proof (cases "v4_prefix n = 0")
  case True
  then show ?thesis using ipv4_prefix_0 [of n] by (simp add: length_word_range ipv4_last_def)
next
  case False
  then show ?thesis using ipv4.network_broadcast_unat [OF assms] by (simp add: length_word_range ipv4_last_def)
qed

lemma ipv4_size_hint_fresh:
  assumes "ipv4_wf n" and "ipv4_iter n = Some it"
    and "k = length (word_range (the (ipv4_network_address n)) (ipv4_last n))"
  shows "ipv4_iter_size_hint it = Some (k, Some k)"
proof -
  obtain net where net: "ipv4_network_address n = Some net" using ipv4.network_law [OF assms(1)] by simp
  have it: "it = \<lparr>v4_next = Some net, v4_end = ipv4_last n\<rparr>" using ipv4_iter_wf [OF assms(1)] assms(2) net by simp
  have le: "net \<le> ipv4_last n"
    using ipv4.network_le_broadcast [OF assms(1)] ipv4_prefix_0 [of n] net by (simp add: ipv4_last_def)
  have k: "k = Suc (unat (ipv4_last n - net))"
    using le net by (simp add: assms(3) length_word_range unat_sub word_le_nat_alt Suc_diff_le)
  have "k < 2 ^ 32"
  proof (cases "v4_prefix n = 0")
    case False
    then have "0 < unat (v4_prefix n)" by (simp add: unat_gt_0)
    then have "(2 :: nat) ^ (32 - unat (v4_prefix n)) < 2 ^ 32" by (intro power_strict_increasing) simp_all
    with False show ?thesis unfolding assms(3) ipv4_count [OF assms(1)] by simp
  qed (simp add: assms(3) ipv4_count [OF assms(1)])
  with k have "ipv4_last n - net \<noteq> - 1" by (auto simp: unsigned_minus_1_eq_mask mask_eq_exp_minus_1)
  then show ?thesis using le k unat_plus_one [of "ipv4_last n - net"]
    by (simp add: it ipv4_iter_size_hint_def word_sub_def word_add_one)
qed

section \<open>Reading what was printed\<close>

lemma ipv4_roundtrip: "ipv4_wf n \<Longrightarrow> ipv4_from_str (ipv4_fmt n) = Ok n"
proof -
  assume wf: "ipv4_wf n"
  have "cidr_parts (ipv4_fmt n) = Ok (ipv4_addr_fmt (v4_addr n), Some (show_nat (unat (v4_prefix n))))"
    using cidr_parts_slash [OF ipv4_addr_fmt_no_slash show_nat_no_slash] by (simp add: ipv4_fmt_def ascii_bytes_def)
  moreover have "ipv4_addr_from_str (show_nat (unat (v4_prefix n))) = Err AddrParseIpv4"
    using show_nat_digits by (intro ipv4_addr_from_digits) blast
  ultimately show ?thesis using wf parse_prefix_show [of "v4_prefix n" IPV4_BITS]
    by (simp add: ipv4_from_str_def ipv4_addr_roundtrip ipv4_new_ok ipv4_wf_def)
qed

lemma ipv4_from_str_wf: "ipv4_from_str s = Ok n \<Longrightarrow> ipv4_wf n"
  by (auto simp: ipv4_from_str_def split: sum.splits prod.splits dest: ipv4_new_wf)

end
