(* ===== verification/Ipv6_Network.thy ===== *)
theory Ipv6_Network
  imports Cidr
begin

text \<open>
  The IPv6 side of the network crate (\<open>src/ipnetwork/src/ipv6.rs\<close>), with the same
  operations as the IPv4 side, a mask that is read segment by segment, and an iterator whose
  bounds are computed with checked shifts. \<open>None\<close> of an outer option is a panic. The side is
  interpreted in the contracts of \<open>Cidr\<close>.
\<close>

unbundle bit_operations_syntax

definition IPV6_BITS :: byte where
  "IPV6_BITS = 128"

definition IPV6_SEGMENT_BITS :: byte where
  "IPV6_SEGMENT_BITS = 16"

record ipv6_network =
  v6_addr :: ipv6_addr
  v6_prefix :: byte

definition ipv6_new_checked :: "ipv6_addr \<Rightarrow> byte \<Rightarrow> ipv6_network option" where
  "ipv6_new_checked addr prefix =
     (if prefix > IPV6_BITS then None else Some \<lparr>v6_addr = addr, v6_prefix = prefix\<rparr>)"

definition ipv6_new :: "ipv6_addr \<Rightarrow> byte \<Rightarrow> (ip_network_error, ipv6_network) result" where
  "ipv6_new addr prefix =
     (case ipv6_new_checked addr prefix of Some a \<Rightarrow> Ok a | None \<Rightarrow> Err InvalidPrefix)"

text \<open>
  The first loop of the mask test, over the segments that are left: it ends at the first
  segment that is not all ones, or returns from the function (\<open>None\<close>) when that segment is
  no mask; the value is the prefix with the segments after it.
\<close>

fun ipv6_mask_loop :: "u16 list \<Rightarrow> byte \<Rightarrow> (byte \<times> u16 list) option" where
  "ipv6_mask_loop [] prefix = Some (prefix, [])"
| "ipv6_mask_loop (segment # rest) prefix =
     (if segment = 0xFFFF then ipv6_mask_loop rest (prefix + IPV6_SEGMENT_BITS)
      else if segment = 0 then Some (prefix, rest)
      else let prefix_bits = word_of_nat (leading_zeros (NOT segment)) :: byte in
           if push_bit (unat prefix_bits) segment \<noteq> 0 then None
           else Some (prefix + prefix_bits, rest))"

text \<open>The second loop: no bit is set in the segments that are left.\<close>

fun ipv6_rest_unset :: "u16 list \<Rightarrow> bool" where
  "ipv6_rest_unset [] = True"
| "ipv6_rest_unset (segment # rest) = (if segment \<noteq> 0 then False else ipv6_rest_unset rest)"

definition ipv6_mask_to_prefix_checked :: "ipv6_addr \<Rightarrow> byte option" where
  "ipv6_mask_to_prefix_checked netmask =
     (case ipv6_mask_loop (segments netmask) 0 of
        None \<Rightarrow> None
      | Some (prefix, rest) \<Rightarrow> if ipv6_rest_unset rest then Some prefix else None)"

definition ipv6_mask_to_prefix :: "ipv6_addr \<Rightarrow> (ip_network_error, byte) result" where
  "ipv6_mask_to_prefix netmask =
     (case ipv6_mask_to_prefix_checked netmask of Some prefix \<Rightarrow> Ok prefix | None \<Rightarrow> Err InvalidPrefix)"

definition ipv6_with_netmask :: "ipv6_addr \<Rightarrow> ipv6_addr \<Rightarrow> (ip_network_error, ipv6_network) result" where
  "ipv6_with_netmask netaddr netmask =
     (case ipv6_mask_to_prefix netmask of
        Err e \<Rightarrow> Err e
      | Ok prefix \<Rightarrow> Ok \<lparr>v6_addr = netaddr, v6_prefix = prefix\<rparr>)"

definition ipv6_mask :: "ipv6_network \<Rightarrow> ipv6_addr option" where
  "ipv6_mask self =
     (if v6_prefix self > IPV6_BITS then None
      else if v6_prefix self = 0 then Some 0
      else Some (push_bit (unat (IPV6_BITS - v6_prefix self)) (- 1)))"

definition ipv6_network_address :: "ipv6_network \<Rightarrow> ipv6_addr option" where
  "ipv6_network_address self = do { mask \<leftarrow> ipv6_mask self; Some (v6_addr self AND mask) }"

definition ipv6_broadcast :: "ipv6_network \<Rightarrow> ipv6_addr option" where
  "ipv6_broadcast self = do { mask \<leftarrow> ipv6_mask self; Some (v6_addr self OR NOT mask) }"

definition ipv6_contains :: "ipv6_network \<Rightarrow> ipv6_addr \<Rightarrow> bool option" where
  "ipv6_contains self ip =
     do {
       net \<leftarrow> ipv6_network_address self;
       mask \<leftarrow> ipv6_mask self;
       Some (ip AND mask = net)
     }"

definition ipv6_is_subnet_of :: "ipv6_network \<Rightarrow> ipv6_network \<Rightarrow> bool option" where
  "ipv6_is_subnet_of self other =
     (if v6_addr other \<le> v6_addr self
      then do { theirs \<leftarrow> ipv6_broadcast other; ours \<leftarrow> ipv6_broadcast self; Some (theirs \<ge> ours) }
      else Some False)"

definition ipv6_is_supernet_of :: "ipv6_network \<Rightarrow> ipv6_network \<Rightarrow> bool option" where
  "ipv6_is_supernet_of self other = ipv6_is_subnet_of other self"

definition ipv6_overlaps :: "ipv6_network \<Rightarrow> ipv6_network \<Rightarrow> bool option" where
  "ipv6_overlaps self other =
     do {
       c \<leftarrow> ipv6_contains other (v6_addr self);
       if c then Some True else do {
         b \<leftarrow> ipv6_broadcast self;
         c \<leftarrow> ipv6_contains other b;
         if c then Some True else do {
           c \<leftarrow> ipv6_contains self (v6_addr other);
           if c then Some True else do {
             b \<leftarrow> ipv6_broadcast other;
             ipv6_contains self b
           }}}}"

definition ipv6_size :: "ipv6_network \<Rightarrow> u128 option" where
  "ipv6_size self =
     (if v6_prefix self > IPV6_BITS then None
      else if v6_prefix self = 0 then Some (- 1)
      else Some (push_bit (unat (IPV6_BITS - v6_prefix self)) 1))"

definition ipv6_nth :: "ipv6_network \<Rightarrow> u128 \<Rightarrow> ipv6_addr option option" where
  "ipv6_nth self n =
     do {
       size \<leftarrow> ipv6_size self;
       if n < size then do {
         net \<leftarrow> ipv6_network_address self;
         a \<leftarrow> word_add net n;
         Some (Some a)
       } else Some None
     }"

section \<open>The iterator\<close>

record ipv6_network_iterator =
  v6_next :: "u128 option"
  v6_end :: u128

text \<open>\<open>checked_shl\<close> and \<open>checked_shr\<close> with \<open>unwrap_or(0)\<close>.\<close>

definition shl_or_zero :: "u128 \<Rightarrow> nat \<Rightarrow> u128" where
  "shl_or_zero w n = (if n < 128 then push_bit n w else 0)"

definition shr_or_zero :: "u128 \<Rightarrow> nat \<Rightarrow> u128" where
  "shr_or_zero w n = (if n < 128 then drop_bit n w else 0)"

definition ipv6_iter :: "ipv6_network \<Rightarrow> ipv6_network_iterator option" where
  "ipv6_iter self =
     do {
       let dec = v6_addr self;
       left \<leftarrow> word_sub IPV6_BITS (v6_prefix self);
       let start = dec AND shl_or_zero (- 1) (unat left);
       let e = dec OR shr_or_zero (- 1) (unat (v6_prefix self));
       Some \<lparr>v6_next = Some start, v6_end = e\<rparr>
     }"

definition ipv6_iter_next :: "ipv6_network_iterator \<Rightarrow> (ipv6_network_iterator \<times> ipv6_addr option) option" where
  "ipv6_iter_next self =
     (case v6_next self of
        None \<Rightarrow> Some (self, None)
      | Some n \<Rightarrow>
          do {
            succ \<leftarrow> (if n = v6_end self then Some None else map_option Some (word_add n 1));
            Some (self\<lparr>v6_next := succ\<rparr>, Some n)
          })"

text \<open>The cast to \<open>usize\<close> keeps the low 64 bits.\<close>

definition ipv6_iter_size_hint :: "ipv6_network_iterator \<Rightarrow> (nat \<times> nat option) option" where
  "ipv6_iter_size_hint self =
     (case v6_next self of
        Some n \<Rightarrow>
          do {
            d \<leftarrow> word_sub (v6_end self) n;
            e \<leftarrow> word_add d 1;
            let elms = unat (ucast e :: u64);
            Some (elms, Some elms)
          }
      | None \<Rightarrow> Some (0, None))"

section \<open>Text\<close>

definition ipv6_fmt :: "ipv6_network \<Rightarrow> byte list" where
  "ipv6_fmt self = ipv6_addr_fmt (v6_addr self) @ ascii_bytes ''/'' @ show_nat (unat (v6_prefix self))"

definition ipv6_from_str :: "byte list \<Rightarrow> (ip_network_error, ipv6_network) result" where
  "ipv6_from_str s =
     (case cidr_parts s of
        Err e \<Rightarrow> Err e
      | Ok (addr_str, prefix_str) \<Rightarrow>
          (case ipv6_addr_from_str addr_str of
             Err e \<Rightarrow> Err (ip_network_error_from e)
           | Ok addr \<Rightarrow>
               (case parse_prefix (case prefix_str of Some v \<Rightarrow> v | None \<Rightarrow> show_nat (unat IPV6_BITS)) IPV6_BITS of
                  Err e \<Rightarrow> Err e
                | Ok prefix \<Rightarrow> ipv6_new addr prefix)))"

definition ipv6_from_addr :: "ipv6_addr \<Rightarrow> ipv6_network" where
  "ipv6_from_addr a = \<lparr>v6_addr = a, v6_prefix = 128\<rparr>"

section \<open>The invariant and the contract\<close>

definition ipv6_wf :: "ipv6_network \<Rightarrow> bool" where
  "ipv6_wf n \<longleftrightarrow> v6_prefix n \<le> IPV6_BITS"

lemma ipv6_wf_unat: "ipv6_wf n \<longleftrightarrow> unat (v6_prefix n) \<le> 128"
  by (simp add: ipv6_wf_def IPV6_BITS_def word_le_nat_alt)

lemma ipv6_new_checked_iff: "ipv6_new_checked a p = Some n \<longleftrightarrow> n = \<lparr>v6_addr = a, v6_prefix = p\<rparr> \<and> ipv6_wf n"
  by (auto simp: ipv6_new_checked_def ipv6_wf_def)

lemma ipv6_new_wf: "ipv6_new a p = Ok n \<Longrightarrow> ipv6_wf n"
  by (auto simp: ipv6_new_def ipv6_new_checked_iff split: option.splits)

lemma ipv6_new_ok: "ipv6_wf n \<Longrightarrow> ipv6_new (v6_addr n) (v6_prefix n) = Ok n"
  by (simp add: ipv6_new_def ipv6_new_checked_def ipv6_wf_def)

lemma ipv6_left: "ipv6_wf n \<Longrightarrow> unat (IPV6_BITS - v6_prefix n) = 128 - unat (v6_prefix n)"
  by (subst unat_sub) (simp_all add: ipv6_wf_def IPV6_BITS_def)

lemma ipv6_not_above: "ipv6_wf n \<Longrightarrow> \<not> IPV6_BITS < v6_prefix n"
  by (simp add: ipv6_wf_def)

lemma ipv6_mask_wf:
  assumes "ipv6_wf n"
  shows "ipv6_mask n = Some (prefix_mask (unat (v6_prefix n)))"
proof (cases "v6_prefix n = 0")
  case True
  have "(prefix_mask 0 :: u128) = 0" by (rule bit_word_eqI) (simp add: bit_prefix_mask)
  with True show ?thesis by (simp add: ipv6_mask_def IPV6_BITS_def)
next
  case False
  then show ?thesis
    using assms prefix_mask_shift [of "unat (v6_prefix n)", where 'a = 128]
    unfolding ipv6_mask_def ipv6_left [OF assms] by (simp add: ipv6_wf_unat ipv6_not_above)
qed

lemmas ipv6_defs = ipv6_network_address_def ipv6_broadcast_def ipv6_mask_wf

lemma ipv6_contains_wf:
  assumes "ipv6_wf n"
  shows "ipv6_contains n ip =
    Some (ip AND prefix_mask (unat (v6_prefix n)) = v6_addr n AND prefix_mask (unat (v6_prefix n)))"
  using assms by (simp add: ipv6_contains_def ipv6_defs)

interpretation ipv6: cidr_network ipv6_wf v6_addr "\<lambda>n. unat (v6_prefix n)" ipv6_network_address
  ipv6_broadcast ipv6_contains ipv6_is_subnet_of ipv6_overlaps
proof unfold_locales
  fix n m :: ipv6_network and ip :: ipv6_addr
  show "ipv6_wf n \<Longrightarrow> unat (v6_prefix n) \<le> LENGTH(128)" by (simp add: ipv6_wf_unat)
  show "ipv6_wf n \<Longrightarrow> ipv6_network_address n = Some (v6_addr n AND prefix_mask (unat (v6_prefix n)))"
    by (simp add: ipv6_defs)
  show "ipv6_wf n \<Longrightarrow> ipv6_broadcast n = Some (v6_addr n OR NOT (prefix_mask (unat (v6_prefix n))))"
    by (simp add: ipv6_defs)
  show "ipv6_wf n \<Longrightarrow> ipv6_contains n ip =
      Some (ip AND prefix_mask (unat (v6_prefix n)) = v6_addr n AND prefix_mask (unat (v6_prefix n)))"
    by (rule ipv6_contains_wf)
  show "ipv6_wf m \<Longrightarrow> ipv6_wf n \<Longrightarrow> ipv6_is_subnet_of m n =
      Some (v6_addr n \<le> v6_addr m \<and> the (ipv6_broadcast m) \<le> the (ipv6_broadcast n))"
    by (simp add: ipv6_is_subnet_of_def ipv6_defs)
  show "ipv6_wf m \<Longrightarrow> ipv6_wf n \<Longrightarrow> ipv6_overlaps m n =
      Some (the (ipv6_contains n (v6_addr m)) \<or> the (ipv6_contains n (the (ipv6_broadcast m))) \<or>
        the (ipv6_contains m (v6_addr n)) \<or> the (ipv6_contains m (the (ipv6_broadcast n))))"
    by (simp add: ipv6_overlaps_def ipv6_contains_wf ipv6_broadcast_def ipv6_mask_wf)
qed

section \<open>All addresses\<close>

text \<open>The addresses that a loop over the iterator sees.\<close>

function ipv6_iter_collect :: "ipv6_network_iterator \<Rightarrow> ipv6_addr list option" where
  "ipv6_iter_collect it =
     (case ipv6_iter_next it of
        None \<Rightarrow> None
      | Some (it', x) \<Rightarrow> (case x of None \<Rightarrow> Some [] | Some a \<Rightarrow> map_option ((#) a) (ipv6_iter_collect it')))"
  by pat_completeness auto
termination
  by (relation "measure (\<lambda>it. case v6_next it of None \<Rightarrow> 0 | Some n \<Rightarrow> 2 ^ LENGTH(128) - unat n)")
    (auto simp: ipv6_iter_next_def word_add_one word_measure
      simp del: len_of_numeral_defs power_numeral split: option.splits if_splits)

declare ipv6_iter_collect.simps [simp del]

interpretation ipv6_iterator: range_iterator ipv6_iter_next v6_next v6_end ipv6_iter_collect
proof unfold_locales
  fix s :: ipv6_network_iterator and n :: u128
  show "v6_next s = None \<Longrightarrow> ipv6_iter_next s = Some (s, None)"
    by (simp add: ipv6_iter_next_def)
  show "v6_next s = Some (v6_end s) \<Longrightarrow> \<exists>s'. ipv6_iter_next s = Some (s', Some (v6_end s)) \<and> v6_next s' = None"
    by (simp add: ipv6_iter_next_def)
  show "v6_next s = Some n \<Longrightarrow> n \<noteq> v6_end s \<Longrightarrow> n \<noteq> - 1 \<Longrightarrow>
      \<exists>s'. ipv6_iter_next s = Some (s', Some n) \<and> v6_next s' = Some (n + 1) \<and> v6_end s' = v6_end s"
    by (simp add: ipv6_iter_next_def word_add_one)
  show "ipv6_iter_collect s = (case ipv6_iter_next s of None \<Rightarrow> None
      | Some (s', x) \<Rightarrow> (case x of None \<Rightarrow> Some [] | Some a \<Rightarrow> map_option ((#) a) (ipv6_iter_collect s')))"
    by (rule ipv6_iter_collect.simps)
qed

lemma ipv6_iter_wf:
  assumes "ipv6_wf n"
  shows "ipv6_iter n = Some \<lparr>v6_next = ipv6_network_address n, v6_end = the (ipv6_broadcast n)\<rparr>"
proof -
  let ?p = "unat (v6_prefix n)"
  have "shl_or_zero (- 1) (128 - ?p) = prefix_mask ?p" "shr_or_zero (- 1) ?p = NOT (prefix_mask ?p)"
    by (rule bit_word_eqI, auto simp: shl_or_zero_def shr_or_zero_def bit_prefix_mask bit_simps)+
  then show ?thesis
    using assms ipv6_left [OF assms] ipv6.network_law [OF assms] ipv6.broadcast_law [OF assms]
    by (simp add: ipv6_iter_def word_sub_def ipv6_wf_def Let_def)
qed

lemma ipv6_iter_addresses:
  assumes "ipv6_wf n"
  shows "\<exists>it. ipv6_iter n = Some it \<and>
    ipv6_iter_collect it = Some (word_range (the (ipv6_network_address n)) (the (ipv6_broadcast n)))"
proof -
  obtain net where net: "ipv6_network_address n = Some net" using ipv6.network_law [OF assms] by simp
  show ?thesis using ipv6_iter_wf [OF assms] net ipv6.network_le_broadcast [OF assms]
      ipv6_iterator.collect_range [of "\<lparr>v6_next = ipv6_network_address n, v6_end = the (ipv6_broadcast n)\<rparr>" net]
    by simp
qed

section \<open>Reading what was printed\<close>

lemma ipv6_roundtrip: "ipv6_wf n \<Longrightarrow> ipv6_from_str (ipv6_fmt n) = Ok n"
proof -
  assume wf: "ipv6_wf n"
  have "cidr_parts (ipv6_fmt n) = Ok (ipv6_addr_fmt (v6_addr n), Some (show_nat (unat (v6_prefix n))))"
    using cidr_parts_slash [OF ipv6_addr_fmt_no_slash show_nat_no_slash] by (simp add: ipv6_fmt_def ascii_bytes_def)
  then show ?thesis using wf parse_prefix_show [of "v6_prefix n" IPV6_BITS]
    by (simp add: ipv6_from_str_def ipv6_addr_roundtrip ipv6_new_ok ipv6_wf_def)
qed

lemma ipv6_from_str_wf: "ipv6_from_str s = Ok n \<Longrightarrow> ipv6_wf n"
  by (auto simp: ipv6_from_str_def split: sum.splits prod.splits dest: ipv6_new_wf)

section \<open>Masks and prefixes\<close>

text \<open>The segments of a prefix mask.\<close>

fun mask_segments :: "nat \<Rightarrow> nat \<Rightarrow> u16 list" where
  "mask_segments k 0 = []"
| "mask_segments k (Suc n) = prefix_mask (min k 16) # mask_segments (k - 16) n"

lemma length_mask_segments [simp]: "length (mask_segments k n) = n"
  by (induction n arbitrary: k) auto

lemma mask_segments_nth: "i < n \<Longrightarrow> mask_segments k n ! i = prefix_mask (min (k - 16 * i) 16)"
  by (induction n arbitrary: k i) (auto simp: nth_Cons split: nat.splits)

lemma segments_prefix_mask:
  assumes "p \<le> 128"
  shows "segments (prefix_mask p) = mask_segments p 8"
proof (rule nth_equalityI)
  fix i assume "i < length (segments (prefix_mask p))"
  then have i: "i < 8" by simp
  have "(ucast (drop_bit ((8 - Suc i) * 16) (prefix_mask p :: u128)) :: u16) = prefix_mask (min (p - 16 * i) 16)"
  proof (rule bit_word_eqI)
    fix b assume "b < LENGTH(16)"
    then have "b < 16" by simp
    then show "bit (ucast (drop_bit ((8 - Suc i) * 16) (prefix_mask p :: u128)) :: u16) b =
        bit (prefix_mask (min (p - 16 * i) 16) :: u16) b"
      using i assms by (simp add: bit_simps bit_prefix_mask) linarith
  qed
  then show "segments (prefix_mask p) ! i = mask_segments p 8 ! i"
    using i by (simp add: mask_segments_nth segments_def word_pieces_nth)
qed simp

lemma mask_segments_iff:
  assumes "p \<le> 128"
  shows "m = prefix_mask p \<longleftrightarrow> segments m = mask_segments p 8"
  using segments_prefix_mask [OF assms] word_join_segments [of m] word_join_segments [of "prefix_mask p"] by metis

lemma mask_segments_0: "mask_segments 0 n = replicate n 0"
proof -
  have "(prefix_mask 0 :: u16) = 0" by (rule bit_word_eqI) (simp add: bit_prefix_mask)
  then show ?thesis by (induction n) simp_all
qed

lemma ipv6_rest_unset_iff: "ipv6_rest_unset rest \<longleftrightarrow> rest = mask_segments 0 (length rest)"
  unfolding mask_segments_0 by (induction rest) auto

lemma prefix_mask_inj:
  "p \<le> LENGTH('a) \<Longrightarrow> q \<le> LENGTH('a) \<Longrightarrow> (prefix_mask p :: 'a :: len word) = prefix_mask q \<longleftrightarrow> p = q"
  using prefix_mask_iff [of p "prefix_mask q :: 'a word"] prefix_mask_iff [of q "prefix_mask q :: 'a word"] by metis

lemma prefix_mask_ends: "(prefix_mask 16 :: u16) = 0xFFFF" "(prefix_mask 0 :: u16) = 0"
proof -
  have "(prefix_mask 16 :: u16) = - 1" by (rule bit_word_eqI) (simp add: bit_prefix_mask)
  then show "(prefix_mask 16 :: u16) = 0xFFFF" by simp
  show "(prefix_mask 0 :: u16) = 0" by (rule bit_word_eqI) (simp add: bit_prefix_mask)
qed

lemma prefix_mask_min:
  "(0xFFFF :: u16) = prefix_mask (min k 16) \<longleftrightarrow> 16 \<le> k"
  "(0 :: u16) = prefix_mask (min k 16) \<longleftrightarrow> k = 0"
  unfolding prefix_mask_ends [symmetric] by (subst prefix_mask_inj; simp; linarith)+

definition ipv6_mask_run :: "u16 list \<Rightarrow> byte \<Rightarrow> byte option" where
  "ipv6_mask_run segs prefix =
     (case ipv6_mask_loop segs prefix of
        None \<Rightarrow> None
      | Some (prefix, rest) \<Rightarrow> if ipv6_rest_unset rest then Some prefix else None)"

lemma ipv6_mask_run_iff:
  "ipv6_mask_run segs pre = Some p \<longleftrightarrow>
     (\<exists>k \<le> 16 * length segs. segs = mask_segments k (length segs) \<and> p = pre + word_of_nat k)"
proof (induction segs arbitrary: pre)
  case Nil
  then show ?case by (auto simp: ipv6_mask_run_def)
next
  case (Cons seg rest)
  let ?n = "length rest"
  have rhs: "(\<exists>k \<le> 16 * length (seg # rest). seg # rest = mask_segments k (length (seg # rest)) \<and> p = pre + word_of_nat k)
      \<longleftrightarrow> (\<exists>k \<le> 16 * Suc ?n. seg = prefix_mask (min k 16) \<and> rest = mask_segments (k - 16) ?n \<and> p = pre + word_of_nat k)"
    (is "_ \<longleftrightarrow> ?R") by auto
  consider (ones) "seg = 0xFFFF" | (zero) "seg = 0" | (other) "seg \<noteq> 0xFFFF" "seg \<noteq> 0" by blast
  then have "ipv6_mask_run (seg # rest) pre = Some p \<longleftrightarrow> ?R"
  proof cases
    case ones
    have "?R \<longleftrightarrow> (\<exists>k \<le> 16 * ?n. rest = mask_segments k ?n \<and> p = pre + 16 + word_of_nat k)" (is "_ \<longleftrightarrow> ?S")
    proof
      assume ?R
      then obtain k where "k \<le> 16 * Suc ?n" "16 \<le> k" "rest = mask_segments (k - 16) ?n" "p = pre + word_of_nat k"
        unfolding ones prefix_mask_min by auto
      then show ?S by (intro exI [of _ "k - 16"]) (simp add: of_nat_diff)
    next
      assume ?S
      then obtain k where "k \<le> 16 * ?n" "rest = mask_segments k ?n" "p = pre + 16 + word_of_nat k" by auto
      then show ?R unfolding ones prefix_mask_min by (intro exI [of _ "k + 16"]) simp
    qed
    then show ?thesis using Cons.IH [of "pre + 16"]
      by (simp add: ones ipv6_mask_run_def IPV6_SEGMENT_BITS_def)
  next
    case zero
    then show ?thesis by (auto simp: prefix_mask_min ipv6_mask_run_def ipv6_rest_unset_iff)
  next
    case other
    let ?j = "leading_zeros (NOT seg)"
    have j: "?j \<le> 16" using leading_zeros_le [of "NOT seg"] by simp
    then have unat_j: "unat (word_of_nat ?j :: byte) = ?j" by (simp add: unsigned_of_nat take_bit_eq_mod)
    have iff: "seg = prefix_mask (min k 16) \<longleftrightarrow> k = ?j \<and> push_bit ?j seg = 0" for k
      using prefix_mask_iff [of "min k 16" seg] prefix_mask_min(1) [of k] other j by (auto simp: min_def)
    have "ipv6_mask_run (seg # rest) pre = Some p \<longleftrightarrow>
        push_bit ?j seg = 0 \<and> rest = mask_segments 0 ?n \<and> p = pre + word_of_nat ?j"
      using other unat_j by (auto simp: ipv6_mask_run_def ipv6_rest_unset_iff Let_def)
    then show ?thesis unfolding iff using j by auto
  qed
  then show ?case unfolding rhs .
qed

lemma ipv6_mask_to_prefix_iff:
  "ipv6_mask_to_prefix_checked m = Some p \<longleftrightarrow> unat p \<le> 128 \<and> m = prefix_mask (unat p)"
proof -
  have "ipv6_mask_to_prefix_checked m = Some p \<longleftrightarrow>
      (\<exists>k \<le> 128. segments m = mask_segments k 8 \<and> p = word_of_nat k)"
    using ipv6_mask_run_iff [of "segments m" 0 p] by (simp add: ipv6_mask_to_prefix_checked_def ipv6_mask_run_def)
  also have "\<dots> \<longleftrightarrow> (\<exists>k \<le> 128. m = prefix_mask k \<and> unat p = k)"
  proof -
    have "p = word_of_nat k \<longleftrightarrow> unat p = k" if "k \<le> 128" for k
      using that by (auto simp: unsigned_of_nat take_bit_eq_mod)
    then show ?thesis using mask_segments_iff by metis
  qed
  finally show ?thesis by auto
qed

section \<open>Sizes\<close>

lemma ipv6_size_wf:
  assumes "ipv6_wf n"
  shows "\<exists>k. ipv6_size n = Some k \<and>
    unat k = (if v6_prefix n = 0 then 2 ^ 128 - 1 else 2 ^ (128 - unat (v6_prefix n)))"
proof (cases "v6_prefix n = 0")
  case True
  then show ?thesis by (simp add: ipv6_size_def IPV6_BITS_def unsigned_minus_1_eq_mask mask_eq_exp_minus_1)
next
  case False
  then have "0 < unat (v6_prefix n)" by (simp add: unat_gt_0)
  then have h: "128 - unat (v6_prefix n) < 128" by simp
  have "ipv6_size n = Some (push_bit (128 - unat (v6_prefix n)) 1)"
    using False ipv6_not_above [OF assms] unfolding ipv6_size_def ipv6_left [OF assms] by simp
  then show ?thesis using unat_shift_one [of "128 - unat (v6_prefix n)", where 'a = 128] h False by simp
qed

lemma ipv6_prefix_0: "v6_prefix n = 0 \<Longrightarrow> ipv6_network_address n = Some 0 \<and> ipv6_broadcast n = Some (- 1)"
  by (simp add: ipv6_network_address_def ipv6_broadcast_def ipv6_mask_def IPV6_BITS_def)

lemma ipv6_nth_wf:
  assumes "ipv6_wf n"
  shows "ipv6_nth n k =
    Some (if unat k < (if v6_prefix n = 0 then 2 ^ 128 - 1 else 2 ^ (128 - unat (v6_prefix n)))
          then Some (the (ipv6_network_address n) + k) else None)"
proof -
  obtain s where s: "ipv6_size n = Some s"
    "unat s = (if v6_prefix n = 0 then 2 ^ 128 - 1 else 2 ^ (128 - unat (v6_prefix n)))"
    using ipv6_size_wf [OF assms] by auto
  obtain net where net: "ipv6_network_address n = Some net" using ipv6.network_law [OF assms] by simp
  have "unat net + unat k < 2 ^ 128" if "unat k < unat s"
  proof (cases "v6_prefix n = 0")
    case True
    then show ?thesis using that s(2) ipv6_prefix_0 [of n] net by simp
  next
    case False
    then show ?thesis
      using that s(2) ipv6.network_broadcast_unat [OF assms]
        unsigned_less [of "the (ipv6_broadcast n)", where 'a = nat] net by simp
  qed
  then have "word_add net k = Some (net + k)" if "unat k < unat s" using that by (simp add: word_add_def)
  then show ?thesis using s(1) net unfolding s(2) [symmetric] by (simp add: ipv6_nth_def word_less_nat_alt)
qed

lemma ipv6_count:
  assumes "ipv6_wf n"
  shows "length (word_range (the (ipv6_network_address n)) (the (ipv6_broadcast n))) = 2 ^ (128 - unat (v6_prefix n))"
  using ipv6.network_broadcast_unat [OF assms] by (simp add: length_word_range)

end
