(* ===== verification/Ip_Network.thy ===== *)
theory Ip_Network
  imports Ipv4_Network Ipv6_Network
begin

text \<open>
  The network of either kind (\<open>src/ipnetwork/src/lib.rs\<close>) with the size type
  (\<open>src/ipnetwork/src/size.rs\<close>): every operation dispatches to the IPv4 or the IPv6 side,
  and the text form is tried as IPv4 first. The properties of the crate are stated here over
  both sides.
\<close>

unbundle bit_operations_syntax

section \<open>The size of a network\<close>

datatype network_size = SizeV4 u32 | SizeV6 u128

fun network_size_as_u128 :: "network_size \<Rightarrow> u128" where
  "network_size_as_u128 (SizeV4 a) = ucast a"
| "network_size_as_u128 (SizeV6 a) = a"

fun network_size_to_u32 :: "network_size \<Rightarrow> (network_size_error, u32) result" where
  "network_size_to_u32 (SizeV4 a) = Ok a"
| "network_size_to_u32 (SizeV6 _) = Err NetworkIsTooLarge"

definition network_size_eq :: "network_size \<Rightarrow> network_size \<Rightarrow> bool" where
  "network_size_eq self other \<longleftrightarrow> network_size_as_u128 self = network_size_as_u128 other"

definition network_size_cmp :: "network_size \<Rightarrow> network_size \<Rightarrow> ordering" where
  "network_size_cmp self other = prim_cmp (network_size_as_u128 self) (network_size_as_u128 other)"

definition network_size_fmt :: "network_size \<Rightarrow> byte list" where
  "network_size_fmt self = show_nat (unat (network_size_as_u128 self))"

text \<open>Sizes compare by value, so a size of one kind can equal one of the other.\<close>

interpretation network_size: total_cmp network_size_cmp network_size_eq
  by unfold_locales
    (auto simp: network_size_cmp_def network_size_eq_def prim_cmp_def split: if_splits)

section \<open>The network\<close>

datatype ip_addr = IpAddrV4 ipv4_addr | IpAddrV6 ipv6_addr

datatype ip_network = NetV4 ipv4_network | NetV6 ipv6_network

definition ip_network_new :: "ip_addr \<Rightarrow> byte \<Rightarrow> (ip_network_error, ip_network) result" where
  "ip_network_new ip prefix =
     (case ip of
        IpAddrV4 a \<Rightarrow> (case ipv4_new a prefix of Err e \<Rightarrow> Err e | Ok n \<Rightarrow> Ok (NetV4 n))
      | IpAddrV6 a \<Rightarrow> (case ipv6_new a prefix of Err e \<Rightarrow> Err e | Ok n \<Rightarrow> Ok (NetV6 n)))"

definition ip_mask_to_prefix :: "ip_addr \<Rightarrow> (ip_network_error, byte) result" where
  "ip_mask_to_prefix netmask =
     (case netmask of IpAddrV4 m \<Rightarrow> ipv4_mask_to_prefix m | IpAddrV6 m \<Rightarrow> ipv6_mask_to_prefix m)"

definition ip_mask_to_prefix_checked :: "ip_addr \<Rightarrow> byte option" where
  "ip_mask_to_prefix_checked netmask =
     (case netmask of IpAddrV4 m \<Rightarrow> ipv4_mask_to_prefix_checked m | IpAddrV6 m \<Rightarrow> ipv6_mask_to_prefix_checked m)"

definition ip_network_with_netmask :: "ip_addr \<Rightarrow> ip_addr \<Rightarrow> (ip_network_error, ip_network) result" where
  "ip_network_with_netmask netaddr netmask =
     (case ip_mask_to_prefix netmask of Err e \<Rightarrow> Err e | Ok prefix \<Rightarrow> ip_network_new netaddr prefix)"

fun ip_network_ip :: "ip_network \<Rightarrow> ip_addr" where
  "ip_network_ip (NetV4 a) = IpAddrV4 (v4_addr a)"
| "ip_network_ip (NetV6 a) = IpAddrV6 (v6_addr a)"

fun ip_network_prefix :: "ip_network \<Rightarrow> byte" where
  "ip_network_prefix (NetV4 a) = v4_prefix a"
| "ip_network_prefix (NetV6 a) = v6_prefix a"

fun ip_network_network :: "ip_network \<Rightarrow> ip_addr option" where
  "ip_network_network (NetV4 a) = map_option IpAddrV4 (ipv4_network_address a)"
| "ip_network_network (NetV6 a) = map_option IpAddrV6 (ipv6_network_address a)"

fun ip_network_broadcast :: "ip_network \<Rightarrow> ip_addr option" where
  "ip_network_broadcast (NetV4 a) = map_option IpAddrV4 (ipv4_broadcast a)"
| "ip_network_broadcast (NetV6 a) = map_option IpAddrV6 (ipv6_broadcast a)"

fun ip_network_mask :: "ip_network \<Rightarrow> ip_addr option" where
  "ip_network_mask (NetV4 a) = map_option IpAddrV4 (ipv4_mask a)"
| "ip_network_mask (NetV6 a) = map_option IpAddrV6 (ipv6_mask a)"

fun ip_network_is_ipv4 :: "ip_network \<Rightarrow> bool" where
  "ip_network_is_ipv4 (NetV4 _) = True"
| "ip_network_is_ipv4 (NetV6 _) = False"

fun ip_network_is_ipv6 :: "ip_network \<Rightarrow> bool" where
  "ip_network_is_ipv6 (NetV4 _) = False"
| "ip_network_is_ipv6 (NetV6 _) = True"

fun ip_network_contains :: "ip_network \<Rightarrow> ip_addr \<Rightarrow> bool option" where
  "ip_network_contains (NetV4 net) (IpAddrV4 ip) = ipv4_contains net ip"
| "ip_network_contains (NetV6 net) (IpAddrV6 ip) = ipv6_contains net ip"
| "ip_network_contains _ _ = Some False"

fun ip_network_size :: "ip_network \<Rightarrow> network_size option" where
  "ip_network_size (NetV4 a) = map_option SizeV4 (ipv4_size a)"
| "ip_network_size (NetV6 a) = map_option SizeV6 (ipv6_size a)"

datatype ip_network_iterator = IterV4 ipv4_network_iterator | IterV6 ipv6_network_iterator

fun ip_network_iter :: "ip_network \<Rightarrow> ip_network_iterator option" where
  "ip_network_iter (NetV4 a) = map_option IterV4 (ipv4_iter a)"
| "ip_network_iter (NetV6 a) = map_option IterV6 (ipv6_iter a)"

fun ip_network_iter_next :: "ip_network_iterator \<Rightarrow> (ip_network_iterator \<times> ip_addr option) option" where
  "ip_network_iter_next (IterV4 it) = map_option (\<lambda>(it, x). (IterV4 it, map_option IpAddrV4 x)) (ipv4_iter_next it)"
| "ip_network_iter_next (IterV6 it) = map_option (\<lambda>(it, x). (IterV6 it, map_option IpAddrV6 x)) (ipv6_iter_next it)"

fun ip_network_iter_size_hint :: "ip_network_iterator \<Rightarrow> (nat \<times> nat option) option" where
  "ip_network_iter_size_hint (IterV4 it) = ipv4_iter_size_hint it"
| "ip_network_iter_size_hint (IterV6 it) = ipv6_iter_size_hint it"

definition ip_network_from_str :: "byte list \<Rightarrow> (ip_network_error, ip_network) result" where
  "ip_network_from_str s =
     (case ipv4_from_str s of
        Ok net \<Rightarrow> Ok (NetV4 net)
      | Err _ \<Rightarrow>
          (case ipv6_from_str s of
             Ok net \<Rightarrow> Ok (NetV6 net)
           | Err _ \<Rightarrow> Err (InvalidAddr s)))"

fun ip_network_from_addr :: "ip_addr \<Rightarrow> ip_network" where
  "ip_network_from_addr (IpAddrV4 a) = NetV4 (ipv4_from_addr a)"
| "ip_network_from_addr (IpAddrV6 a) = NetV6 (ipv6_from_addr a)"

fun ip_network_fmt :: "ip_network \<Rightarrow> byte list" where
  "ip_network_fmt (NetV4 net) = ipv4_fmt net"
| "ip_network_fmt (NetV6 net) = ipv6_fmt net"

section \<open>The invariant\<close>

text \<open>Every way to make a network keeps the prefix within the bits of its address.\<close>

fun ip_network_wf :: "ip_network \<Rightarrow> bool" where
  "ip_network_wf (NetV4 n) = ipv4_wf n"
| "ip_network_wf (NetV6 n) = ipv6_wf n"

lemma ip_network_new_wf: "ip_network_new a p = Ok n \<Longrightarrow> ip_network_wf n"
  by (auto simp: ip_network_new_def split: ip_addr.splits sum.splits dest: ipv4_new_wf ipv6_new_wf)

lemma ip_network_with_netmask_wf: "ip_network_with_netmask a m = Ok n \<Longrightarrow> ip_network_wf n"
  by (auto simp: ip_network_with_netmask_def split: sum.splits dest: ip_network_new_wf)

lemma ip_network_from_str_wf: "ip_network_from_str s = Ok n \<Longrightarrow> ip_network_wf n"
  by (auto simp: ip_network_from_str_def split: sum.splits dest: ipv4_from_str_wf ipv6_from_str_wf)

lemma ip_network_from_addr_wf: "ip_network_wf (ip_network_from_addr a)"
  by (cases a) (simp_all add: ipv4_from_addr_def ipv6_from_addr_def ipv4_wf_def ipv6_wf_def IPV4_BITS_def IPV6_BITS_def)

lemma ipv4_with_netmask_wf: "ipv4_with_netmask a m = Ok n \<Longrightarrow> ipv4_wf n"
  by (auto simp: ipv4_with_netmask_def ipv4_mask_to_prefix_def ipv4_wf_unat ipv4_mask_to_prefix_iff
      split: sum.splits option.splits)

lemma ipv6_with_netmask_wf: "ipv6_with_netmask a m = Ok n \<Longrightarrow> ipv6_wf n"
  by (auto simp: ipv6_with_netmask_def ipv6_mask_to_prefix_def ipv6_wf_unat ipv6_mask_to_prefix_iff
      split: sum.splits option.splits)

text \<open>A text with a colon in its address part is no IPv4 network.\<close>

lemma ipv4_from_str_colon:
  assumes "ascii CHR '':'' \<in> set a" "cidr_parts s = Ok (a, p)"
  shows "\<exists>e. ipv4_from_str s = Err e"
proof -
  have "\<not> is_ascii_digit 0x3A" by (simp add: is_ascii_digit_def)
  then have "ipv4_addr_from_str a \<noteq> Ok v" for v
    using assms(1) ipv4_addr_from_str_chars [of a v "0x3A"] by auto
  then obtain e where "ipv4_addr_from_str a = Err e" by (cases "ipv4_addr_from_str a") auto
  with assms(2) show ?thesis by (simp add: ipv4_from_str_def)
qed

lemma ip_network_read_fmt:
  assumes "ip_network_wf n"
  shows "ip_network_from_str (ip_network_fmt n) = Ok n"
proof (cases n)
  case (NetV4 m)
  with assms show ?thesis by (simp add: ip_network_from_str_def ipv4_roundtrip)
next
  case (NetV6 m)
  have "cidr_parts (ipv6_fmt m) = Ok (ipv6_addr_fmt (v6_addr m), Some (show_nat (unat (v6_prefix m))))"
    using cidr_parts_slash [OF ipv6_addr_fmt_no_slash show_nat_no_slash] by (simp add: ipv6_fmt_def ascii_bytes_def)
  from ipv4_from_str_colon [OF ipv6_addr_fmt_colon this] obtain e where "ipv4_from_str (ipv6_fmt m) = Err e" ..
  with assms NetV6 show ?thesis by (simp add: ip_network_from_str_def ipv6_roundtrip)
qed

section \<open>Properties\<close>

text \<open>
  C18: membership is agreement in the leading bits. An address is in a network exactly when it
  has the network's prefix bits; these addresses are the range from the network address to the
  broadcast address and there are \<open>2 ^ (bits - prefix)\<close> of them; an address of the other kind is
  never in it. The test never panics on a well-formed network.
\<close>

theorem ip_network_contains_correct:
  assumes "ip_network_wf n"
  shows "case n of
      NetV4 m \<Rightarrow>
        (let block = cidr_block (v4_addr m) (unat (v4_prefix m)) in
         (\<forall>ip. ip_network_contains n (IpAddrV4 ip) = Some (ip \<in> block)) \<and>
         (\<forall>ip. ip_network_contains n (IpAddrV6 ip) = Some False) \<and>
         (\<exists>lo hi. ip_network_network n = Some (IpAddrV4 lo) \<and> ip_network_broadcast n = Some (IpAddrV4 hi) \<and>
           block = {lo..hi}) \<and>
         card block = 2 ^ (32 - unat (ip_network_prefix n)))
    | NetV6 m \<Rightarrow>
        (let block = cidr_block (v6_addr m) (unat (v6_prefix m)) in
         (\<forall>ip. ip_network_contains n (IpAddrV6 ip) = Some (ip \<in> block)) \<and>
         (\<forall>ip. ip_network_contains n (IpAddrV4 ip) = Some False) \<and>
         (\<exists>lo hi. ip_network_network n = Some (IpAddrV6 lo) \<and> ip_network_broadcast n = Some (IpAddrV6 hi) \<and>
           block = {lo..hi}) \<and>
         card block = 2 ^ (128 - unat (ip_network_prefix n)))"
proof (cases n)
  case (NetV4 m)
  with assms have wf: "ipv4_wf m" by simp
  obtain lo hi where bounds: "ipv4_network_address m = Some lo" "ipv4_broadcast m = Some hi"
    using ipv4.network_law [OF wf] ipv4.broadcast_law [OF wf] by simp
  have block: "cidr_block (v4_addr m) (unat (v4_prefix m)) = {lo..hi}"
    using ipv4.block_range [OF wf] bounds by (simp add: ipv4.block_def)
  show ?thesis using NetV4 ipv4.contains_block [OF wf] bounds block
      cidr_block_card [of "v4_addr m" "unat (v4_prefix m)"]
    by (simp add: ipv4.block_def Let_def)
next
  case (NetV6 m)
  with assms have wf: "ipv6_wf m" by simp
  obtain lo hi where bounds: "ipv6_network_address m = Some lo" "ipv6_broadcast m = Some hi"
    using ipv6.network_law [OF wf] ipv6.broadcast_law [OF wf] by simp
  have block: "cidr_block (v6_addr m) (unat (v6_prefix m)) = {lo..hi}"
    using ipv6.block_range [OF wf] bounds by (simp add: ipv6.block_def)
  show ?thesis using NetV6 ipv6.contains_block [OF wf] bounds block
      cidr_block_card [of "v6_addr m" "unat (v6_prefix m)"]
    by (simp add: ipv6.block_def Let_def)
qed

theorem ip_network_contains_correct_witness:
  "ip_network_contains (NetV4 \<lparr>v4_addr = 0x0A000032, v4_prefix = 24\<rparr>) (IpAddrV4 0x0A0000FF) = Some True \<and>
   ip_network_contains (NetV4 \<lparr>v4_addr = 0x0A000032, v4_prefix = 24\<rparr>) (IpAddrV6 0x0A0000FF) = Some False"
  using ip_network_contains_correct [of "NetV4 \<lparr>v4_addr = 0x0A000032, v4_prefix = 24\<rparr>"]
  by (simp add: ipv4_wf_def IPV4_BITS_def Let_def cidr_block_def)

text \<open>
  Masks and prefixes determine each other. The mask of a well-formed network is the only one
  of its kind that reads as the network's prefix; a value that is no mask gives
  \<open>InvalidPrefix\<close>. For IPv6 the mask is read segment by segment.
\<close>

theorem ip_mask_prefix_correct:
  assumes "ip_network_wf n"
  shows "(ip_network_mask n = Some m \<longleftrightarrow>
      ip_network_is_ipv4 n = (case m of IpAddrV4 _ \<Rightarrow> True | IpAddrV6 _ \<Rightarrow> False) \<and>
      ip_mask_to_prefix m = Ok (ip_network_prefix n)) \<and>
    ip_mask_to_prefix m = (case ip_mask_to_prefix_checked m of Some p \<Rightarrow> Ok p | None \<Rightarrow> Err InvalidPrefix)"
proof -
  have v4: "ipv4_mask_to_prefix a = Ok p \<longleftrightarrow> unat p \<le> 32 \<and> a = prefix_mask (unat p)" for a p
    using ipv4_mask_to_prefix_iff [of a p] by (auto simp: ipv4_mask_to_prefix_def split: option.splits)
  have v6: "ipv6_mask_to_prefix a = Ok p \<longleftrightarrow> unat p \<le> 128 \<and> a = prefix_mask (unat p)" for a p
    using ipv6_mask_to_prefix_iff [of a p] by (auto simp: ipv6_mask_to_prefix_def split: option.splits)
  have "ip_network_mask n = Some m \<longleftrightarrow>
      ip_network_is_ipv4 n = (case m of IpAddrV4 _ \<Rightarrow> True | IpAddrV6 _ \<Rightarrow> False) \<and>
      ip_mask_to_prefix m = Ok (ip_network_prefix n)"
    using assms by (cases n; cases m) (auto simp: ip_mask_to_prefix_def v4 v6 ipv4_mask_wf ipv6_mask_wf ipv4_wf_unat ipv6_wf_unat)
  then show ?thesis
    by (cases m) (simp_all add: ip_mask_to_prefix_def ip_mask_to_prefix_checked_def ipv4_mask_to_prefix_def ipv6_mask_to_prefix_def)
qed

theorem ip_mask_prefix_correct_witness:
  "ip_network_mask (NetV4 \<lparr>v4_addr = 0x0A000032, v4_prefix = 24\<rparr>) = Some (IpAddrV4 0xFFFFFF00) \<and>
   ip_mask_to_prefix (IpAddrV4 0xFFFFFF00) = Ok 24"
proof -
  have "ip_network_mask (NetV4 \<lparr>v4_addr = 0x0A000032, v4_prefix = 24\<rparr>) = Some (IpAddrV4 0xFFFFFF00)"
    by code_simp
  moreover have "ip_network_wf (NetV4 \<lparr>v4_addr = 0x0A000032, v4_prefix = 24\<rparr>)"
    by (simp add: ipv4_wf_def IPV4_BITS_def)
  ultimately show ?thesis
    using ip_mask_prefix_correct [of "NetV4 \<lparr>v4_addr = 0x0A000032, v4_prefix = 24\<rparr>" "IpAddrV4 0xFFFFFF00"] by simp
qed

text \<open>
  C28: a loop over the iterator of a network ends without a panic and sees every address of the
  network once, in ascending order, and \<open>nth\<close> finds the same addresses by index; what is left
  out is the last address of the IPv4 network of prefix 0 and the last index of the IPv6 network of
  prefix 0. The size hint of a fresh IPv4 iterator is exact.
\<close>

theorem ip_network_iter_correct:
  assumes "ipv4_wf m" "ipv6_wf n"
  shows "(\<exists>it lo hi xs. ipv4_iter m = Some it \<and> ipv4_network_address m = Some lo \<and> ipv4_broadcast m = Some hi \<and>
      xs = word_range lo (if v4_prefix m = 0 then hi - 1 else hi) \<and>
      ipv4_iter_collect it = Some xs \<and>
      ipv4_iter_size_hint it = Some (length xs, Some (length xs)) \<and>
      (\<forall>k. ipv4_nth m k = Some (if unat k < length xs then Some (xs ! unat k) else None))) \<and>
    (\<exists>it lo hi xs. ipv6_iter n = Some it \<and> ipv6_network_address n = Some lo \<and> ipv6_broadcast n = Some hi \<and>
      xs = word_range lo hi \<and>
      ipv6_iter_collect it = Some xs \<and>
      (\<forall>k. ipv6_nth n k =
        Some (if unat k < length xs \<and> \<not> (v6_prefix n = 0 \<and> k = - 1) then Some (xs ! unat k) else None)))"
proof
  obtain lo hi where v4: "ipv4_network_address m = Some lo" "ipv4_broadcast m = Some hi"
    using ipv4.network_law [OF assms(1)] ipv4.broadcast_law [OF assms(1)] by simp
  let ?xs = "word_range lo (if v4_prefix m = 0 then hi - 1 else hi)"
  have last: "ipv4_last m = (if v4_prefix m = 0 then hi - 1 else hi)" using v4 by (simp add: ipv4_last_def)
  obtain it where it: "ipv4_iter m = Some it" "ipv4_iter_collect it = Some ?xs"
    using ipv4_iter_addresses [OF assms(1)] v4(1) last by auto
  have "ipv4_iter_size_hint it = Some (length ?xs, Some (length ?xs))"
    by (rule ipv4_size_hint_fresh [OF assms(1) it(1)]) (simp add: v4(1) last)
  moreover have "ipv4_nth m k = Some (if unat k < length ?xs then Some (?xs ! unat k) else None)" for k
    using ipv4_nth_wf [OF assms(1), of k] ipv4_count [OF assms(1)] v4(1) last word_range_nth [of "unat k" lo] by auto
  ultimately show "\<exists>it lo hi xs. ipv4_iter m = Some it \<and> ipv4_network_address m = Some lo \<and> ipv4_broadcast m = Some hi \<and>
      xs = word_range lo (if v4_prefix m = 0 then hi - 1 else hi) \<and>
      ipv4_iter_collect it = Some xs \<and>
      ipv4_iter_size_hint it = Some (length xs, Some (length xs)) \<and>
      (\<forall>k. ipv4_nth m k = Some (if unat k < length xs then Some (xs ! unat k) else None))"
    using it v4 by blast
next
  obtain lo hi where v6: "ipv6_network_address n = Some lo" "ipv6_broadcast n = Some hi"
    using ipv6.network_law [OF assms(2)] ipv6.broadcast_law [OF assms(2)] by simp
  let ?xs = "word_range lo hi"
  obtain it where it: "ipv6_iter n = Some it" "ipv6_iter_collect it = Some ?xs"
    using ipv6_iter_addresses [OF assms(2)] v6 by auto
  have len: "length ?xs = 2 ^ (128 - unat (v6_prefix n))" using ipv6_count [OF assms(2)] v6 by simp
  have top: "k = - 1 \<longleftrightarrow> unat k = 2 ^ 128 - 1" for k :: u128
    by (simp add: word_unat_eq_iff unsigned_minus_1_eq_mask mask_eq_exp_minus_1)
  have "ipv6_nth n k =
      Some (if unat k < length ?xs \<and> \<not> (v6_prefix n = 0 \<and> k = - 1) then Some (?xs ! unat k) else None)" for k
    using ipv6_nth_wf [OF assms(2), of k] len v6(1) word_range_nth [of "unat k" lo hi] top [of k] by auto
  then show "\<exists>it lo hi xs. ipv6_iter n = Some it \<and> ipv6_network_address n = Some lo \<and> ipv6_broadcast n = Some hi \<and>
      xs = word_range lo hi \<and>
      ipv6_iter_collect it = Some xs \<and>
      (\<forall>k. ipv6_nth n k =
        Some (if unat k < length xs \<and> \<not> (v6_prefix n = 0 \<and> k = - 1) then Some (xs ! unat k) else None))"
    using it v6 by blast
qed

theorem ip_network_iter_correct_witness:
  "(case ipv4_iter \<lparr>v4_addr = 0xC0A87A02, v4_prefix = 30\<rparr> of
      Some it \<Rightarrow> ipv4_iter_collect it = Some [0xC0A87A00, 0xC0A87A01, 0xC0A87A02, 0xC0A87A03]
    | None \<Rightarrow> False) \<and>
   (case ipv6_iter \<lparr>v6_addr = 1, v6_prefix = 127\<rparr> of
      Some it \<Rightarrow> ipv6_iter_collect it = Some [0, 1]
    | None \<Rightarrow> False)"
proof -
  let ?m = "\<lparr>v4_addr = 0xC0A87A02, v4_prefix = 30\<rparr>" and ?n = "\<lparr>v6_addr = 1, v6_prefix = 127\<rparr>"
  have wf: "ipv4_wf ?m" "ipv6_wf ?n"
    by (simp_all add: ipv4_wf_def ipv6_wf_def IPV4_BITS_def IPV6_BITS_def)
  have v4: "ipv4_network_address ?m = Some 0xC0A87A00" "ipv4_broadcast ?m = Some 0xC0A87A03" by code_simp+
  have v6: "ipv6_network_address ?n = Some 0" "ipv6_broadcast ?n = Some 1" by code_simp+
  have "word_range 0xC0A87A00 0xC0A87A03 = [0xC0A87A00, 0xC0A87A01, 0xC0A87A02, 0xC0A87A03 :: u32]"
    "word_range 0 1 = [0, 1 :: u128]"
    by (simp_all add: word_range_def upt_rec)
  then show ?thesis using ip_network_iter_correct [OF wf] v4 v6 by auto
qed

text \<open>
  C24: reading what \<open>Display\<close> prints for a well-formed network of either kind gives the network
  back: an IPv4 network is read by the IPv4 parser, an IPv6 network (with its longest run of zero
  segments compressed, or with an embedded IPv4 address) is rejected by it and read by the other.
\<close>

theorem ip_network_roundtrip:
  assumes "ip_network_wf n"
  shows "ip_network_from_str (ip_network_fmt n) = Ok n"
  by (rule ip_network_read_fmt [OF assms])

theorem ip_network_roundtrip_witness:
  "ip_network_from_str (ip_network_fmt (NetV6 \<lparr>v6_addr = 0x20010DB8000000000000000000010000, v6_prefix = 96\<rparr>)) =
   Ok (NetV6 \<lparr>v6_addr = 0x20010DB8000000000000000000010000, v6_prefix = 96\<rparr>)"
  by (rule ip_network_roundtrip) (simp add: ipv6_wf_def IPV6_BITS_def)

text \<open>
  C35: the invariant that the address arithmetic relies on. Every network that a constructor or
  a parser returns has a prefix of at most 32 (IPv4) or 128 (IPv6) bits, and on such a network no
  operation of \<open>IpNetwork\<close> fails its assertion or overflows. The iterator is another type: its size hint
  overflows for the IPv6 network of prefix 0.
\<close>

theorem ip_network_invariant:
  "(case ip_network_new a p of Ok n \<Rightarrow> ip_network_wf n | Err e \<Rightarrow> e = InvalidPrefix) \<and>
   (case ip_network_with_netmask a m of Ok n \<Rightarrow> ip_network_wf n | Err e \<Rightarrow> e = InvalidPrefix) \<and>
   (case ip_network_from_str s of Ok n \<Rightarrow> ip_network_wf n | Err e \<Rightarrow> e = InvalidAddr s) \<and>
   ip_network_wf (ip_network_from_addr a) \<and>
   (case ipv4_with_netmask a4 m4 of Ok n \<Rightarrow> ipv4_wf n | Err e \<Rightarrow> e = InvalidPrefix) \<and>
   (case ipv6_with_netmask a6 m6 of Ok n \<Rightarrow> ipv6_wf n | Err e \<Rightarrow> e = InvalidPrefix) \<and>
   (if ip_network_wf n
    then ip_network_network n \<noteq> None \<and> ip_network_broadcast n \<noteq> None \<and> ip_network_mask n \<noteq> None \<and>
      ip_network_size n \<noteq> None \<and> ip_network_iter n \<noteq> None \<and> ip_network_contains n ip \<noteq> None
    else ip_network_mask n = None)"
proof (intro conjI)
  have new: "ip_network_new a p = Err e \<Longrightarrow> e = InvalidPrefix" for a p e
    by (auto simp: ip_network_new_def ipv4_new_def ipv6_new_def split: ip_addr.splits sum.splits option.splits)
  have prefix: "ip_mask_to_prefix m = Err e \<Longrightarrow> e = InvalidPrefix" for m e
    by (auto simp: ip_mask_to_prefix_def ipv4_mask_to_prefix_def ipv6_mask_to_prefix_def split: ip_addr.splits option.splits)
  show "case ip_network_new a p of Ok n \<Rightarrow> ip_network_wf n | Err e \<Rightarrow> e = InvalidPrefix"
    by (auto split: sum.splits dest: ip_network_new_wf new)
  show "case ip_network_with_netmask a m of Ok n \<Rightarrow> ip_network_wf n | Err e \<Rightarrow> e = InvalidPrefix"
    by (auto simp: ip_network_with_netmask_def split: sum.splits dest: ip_network_new_wf new prefix)
  show "case ip_network_from_str s of Ok n \<Rightarrow> ip_network_wf n | Err e \<Rightarrow> e = InvalidAddr s"
    by (auto split: sum.splits dest: ip_network_from_str_wf) (auto simp: ip_network_from_str_def split: sum.splits)
  show "ip_network_wf (ip_network_from_addr a)" by (rule ip_network_from_addr_wf)
  show "case ipv4_with_netmask a4 m4 of Ok n \<Rightarrow> ipv4_wf n | Err e \<Rightarrow> e = InvalidPrefix"
    by (auto split: sum.splits dest: ipv4_with_netmask_wf)
      (auto simp: ipv4_with_netmask_def ipv4_mask_to_prefix_def split: sum.splits option.splits)
  show "case ipv6_with_netmask a6 m6 of Ok n \<Rightarrow> ipv6_wf n | Err e \<Rightarrow> e = InvalidPrefix"
    by (auto split: sum.splits dest: ipv6_with_netmask_wf)
      (auto simp: ipv6_with_netmask_def ipv6_mask_to_prefix_def split: sum.splits option.splits)
  show "if ip_network_wf n
    then ip_network_network n \<noteq> None \<and> ip_network_broadcast n \<noteq> None \<and> ip_network_mask n \<noteq> None \<and>
      ip_network_size n \<noteq> None \<and> ip_network_iter n \<noteq> None \<and> ip_network_contains n ip \<noteq> None
    else ip_network_mask n = None"
  proof (cases n)
    case (NetV4 m)
    then show ?thesis using ipv4_size_wf [of m]
      by (cases ip) (auto simp: ipv4_defs ipv4_contains_wf ipv4_iter_wf ipv4_wf_def ipv4_mask_def IPV4_BITS_def)
  next
    case (NetV6 m)
    then show ?thesis using ipv6_size_wf [of m]
      by (cases ip) (auto simp: ipv6_defs ipv6_contains_wf ipv6_iter_wf ipv6_wf_def ipv6_mask_def)
  qed
qed

text \<open>
  The relations between two networks. Two networks overlap exactly when they have a common
  address, whatever addresses they are written with. Between networks that are written with
  their network address, \<open>is_subnet_of\<close> is inclusion and \<open>is_supernet_of\<close> its converse.
\<close>

theorem ip_network_relations:
  assumes "ipv4_wf a" "ipv4_wf b" "ipv6_wf c" "ipv6_wf d"
  shows "ipv4_overlaps a b =
      Some (cidr_block (v4_addr a) (unat (v4_prefix a)) \<inter> cidr_block (v4_addr b) (unat (v4_prefix b)) \<noteq> {}) \<and>
    ipv6_overlaps c d =
      Some (cidr_block (v6_addr c) (unat (v6_prefix c)) \<inter> cidr_block (v6_addr d) (unat (v6_prefix d)) \<noteq> {}) \<and>
    (ipv4_network_address a = Some (v4_addr a) \<and> ipv4_network_address b = Some (v4_addr b) \<longrightarrow>
      ipv4_is_subnet_of a b =
        Some (cidr_block (v4_addr a) (unat (v4_prefix a)) \<subseteq> cidr_block (v4_addr b) (unat (v4_prefix b))) \<and>
      ipv4_is_supernet_of b a = ipv4_is_subnet_of a b) \<and>
    (ipv6_network_address c = Some (v6_addr c) \<and> ipv6_network_address d = Some (v6_addr d) \<longrightarrow>
      ipv6_is_subnet_of c d =
        Some (cidr_block (v6_addr c) (unat (v6_prefix c)) \<subseteq> cidr_block (v6_addr d) (unat (v6_prefix d))) \<and>
      ipv6_is_supernet_of d c = ipv6_is_subnet_of c d)"
  using ipv4.overlap_correct [OF assms(1,2)] ipv6.overlap_correct [OF assms(3,4)]
    ipv4.subnet_correct [OF assms(1,2)] ipv6.subnet_correct [OF assms(3,4)]
  by (simp add: ipv4.block_def ipv6.block_def ipv4_is_supernet_of_def ipv6_is_supernet_of_def)

theorem ip_network_relations_witness:
  "ipv4_is_subnet_of \<lparr>v4_addr = 0x0A000000, v4_prefix = 30\<rparr> \<lparr>v4_addr = 0x0A000000, v4_prefix = 24\<rparr> = Some True \<and>
   cidr_block (0x0A000000 :: u32) 30 \<subseteq> cidr_block 0x0A000000 24"
proof -
  let ?a = "\<lparr>v4_addr = 0x0A000000, v4_prefix = 30\<rparr>" and ?b = "\<lparr>v4_addr = 0x0A000000, v4_prefix = 24\<rparr>"
    and ?c = "\<lparr>v6_addr = 0, v6_prefix = 0\<rparr>"
  have wf: "ipv4_wf ?a" "ipv4_wf ?b" "ipv6_wf ?c"
    by (simp_all add: ipv4_wf_def ipv6_wf_def IPV4_BITS_def IPV6_BITS_def)
  have net: "ipv4_network_address ?a = Some 0x0A000000" "ipv4_network_address ?b = Some 0x0A000000" by code_simp+
  have sub: "ipv4_is_subnet_of ?a ?b = Some True" by code_simp
  then show ?thesis using ip_network_relations [OF wf(1,2,3,3)] net by simp
qed

section \<open>Corner cases\<close>

text \<open>
  Written with another address than the network address, a network inside a block is not
  always reported as its subnet, and one that is larger can be.
\<close>

lemma is_subnet_of_host_bits:
  "ipv4_is_subnet_of \<lparr>v4_addr = 0x0A000000, v4_prefix = 30\<rparr> \<lparr>v4_addr = 0x0A000001, v4_prefix = 24\<rparr> = Some False"
  "ipv4_is_subnet_of \<lparr>v4_addr = 0x0A0000FF, v4_prefix = 24\<rparr> \<lparr>v4_addr = 0x0A0000FE, v4_prefix = 31\<rparr> = Some True"
  by code_simp+

text \<open>The iterator of the whole IPv4 space leaves out the last address.\<close>

lemma ipv4_iter_misses_last:
  "ipv4_contains \<lparr>v4_addr = 0, v4_prefix = 0\<rparr> 0xFFFFFFFF = Some True"
  "map_option v4_end (ipv4_iter \<lparr>v4_addr = 0, v4_prefix = 0\<rparr>) = Some 0xFFFFFFFE"
  "ipv4_nth \<lparr>v4_addr = 0, v4_prefix = 0\<rparr> 0xFFFFFFFF = Some None"
proof -
  show "ipv4_contains \<lparr>v4_addr = 0, v4_prefix = 0\<rparr> 0xFFFFFFFF = Some True" by code_simp
qed (simp_all add: ipv4_iter_def ipv4_nth_def ipv4_size_def ipv4_prefix_0 word_sub_def word_add_def)

text \<open>
  The size hint of an IPv6 iterator overflows for the prefix 0 and drops the high bits of the
  count: for the prefix 64 it says that no address is left.
\<close>

lemma ipv6_size_hint_wraps:
  "Option.bind (ipv6_iter \<lparr>v6_addr = 0, v6_prefix = 0\<rparr>) ipv6_iter_size_hint = None"
  "Option.bind (ipv6_iter \<lparr>v6_addr = 0, v6_prefix = 64\<rparr>) ipv6_iter_size_hint = Some (0, Some 0)"
  by (simp_all add: ipv6_iter_def ipv6_iter_size_hint_def word_sub_def word_add_def shl_or_zero_def shr_or_zero_def
      IPV6_BITS_def Let_def drop_bit_eq_div unsigned_minus_1_eq_mask mask_eq_exp_minus_1)

end
