(* ===== verification/Civil.thy ===== *)
theory Civil
  imports Rust_Str
begin

text \<open>
  The calendar of the time crate (\<open>src/time/civil.rs\<close>): days of the proleptic Gregorian
  calendar to and from a day count, weekdays, the day of the year and ISO weeks. A machine
  integer is an \<open>int\<close>; where a conversion drops bits (\<open>as i32\<close>, \<open>as u8\<close>) the wrap-around is
  written out, and where an addition can overflow the result is an option. \<open>None\<close> is the panic.
  The specification counts the days of the years and months before a date.
\<close>

section \<open>Machine integers\<close>

text \<open>The values of \<open>iN\<close>, the conversions to \<open>iN\<close> and \<open>uN\<close>, and division towards zero.\<close>

definition in_signed :: "nat \<Rightarrow> int \<Rightarrow> bool" where
  "in_signed w x \<longleftrightarrow> - (2 ^ (w - 1)) \<le> x \<and> x < 2 ^ (w - 1)"

definition as_signed :: "nat \<Rightarrow> int \<Rightarrow> int" where
  "as_signed w x = (x + 2 ^ (w - 1)) mod 2 ^ w - 2 ^ (w - 1)"

definition as_unsigned :: "nat \<Rightarrow> int \<Rightarrow> int" where
  "as_unsigned w x = x mod 2 ^ w"

definition checked_signed :: "nat \<Rightarrow> int \<Rightarrow> int option" where
  "checked_signed w x = (if in_signed w x then Some x else None)"

definition tdiv :: "int \<Rightarrow> int \<Rightarrow> int" where
  "tdiv a b = (if 0 \<le> a then a div b else - ((- a) div b))"

definition trem :: "int \<Rightarrow> int \<Rightarrow> int" where
  "trem a b = a - tdiv a b * b"

section \<open>The calendar\<close>

definition SECS_PER_DAY :: int where
  "SECS_PER_DAY = 86400"

definition NANOS_PER_SEC :: int where
  "NANOS_PER_SEC = 1000000000"

definition DAYS_PER_CYCLE :: int where
  "DAYS_PER_CYCLE = 146097"

definition EPOCH_DAYS :: int where
  "EPOCH_DAYS = 719468"

definition is_leap :: "int \<Rightarrow> bool" where
  "is_leap year \<longleftrightarrow> (trem year 4 = 0 \<and> trem year 100 \<noteq> 0) \<or> trem year 400 = 0"

definition days_in_month :: "int \<Rightarrow> int \<Rightarrow> int" where
  "days_in_month year month =
     (if month \<in> {1, 3, 5, 7, 8, 10, 12} then 31
      else if month \<in> {4, 6, 9, 11} then 30
      else if month = 2 then (if is_leap year then 29 else 28)
      else 0)"

definition days_from_civil :: "int \<Rightarrow> int \<Rightarrow> int \<Rightarrow> int" where
  "days_from_civil year month day =
     (let year = year - (if month \<le> 2 then 1 else 0);
          era = tdiv (if year \<ge> 0 then year else year - 399) 400;
          yoe = year - era * 400;
          doy = tdiv (153 * (month + (if month > 2 then - 3 else 9)) + 2) 5 + day - 1;
          doe = yoe * 365 + tdiv yoe 4 - tdiv yoe 100 + doy
      in era * DAYS_PER_CYCLE + doe - EPOCH_DAYS)"

definition civil_from_days :: "int \<Rightarrow> (int \<times> int \<times> int) option" where
  "civil_from_days days =
     do {
       days \<leftarrow> checked_signed 64 (days + EPOCH_DAYS);
       n \<leftarrow> (if days \<ge> 0 then Some days else checked_signed 64 (days - (DAYS_PER_CYCLE - 1)));
       let era = tdiv n DAYS_PER_CYCLE;
       let doe = days - era * DAYS_PER_CYCLE;
       let yoe = tdiv (doe - tdiv doe 1460 + tdiv doe 36524 - tdiv doe 146096) 365;
       let year = as_signed 32 (yoe + era * 400);
       let doy = doe - (365 * yoe + tdiv yoe 4 - tdiv yoe 100);
       let mp = tdiv (5 * doy + 2) 153;
       let day = as_unsigned 8 (doy - tdiv (153 * mp + 2) 5 + 1);
       let month = as_unsigned 8 (mp + (if mp < 10 then 3 else - 9));
       year \<leftarrow> (if month \<le> 2 then checked_signed 32 (year + 1) else Some year);
       Some (year, month, day)
     }"

definition ordinal :: "int \<Rightarrow> int \<Rightarrow> int \<Rightarrow> int" where
  "ordinal year month day =
     as_unsigned 16 (days_from_civil year month day - days_from_civil year 1 1 + 1)"

definition weekday_from_days :: "int \<Rightarrow> int option" where
  "weekday_from_days days = map_option (\<lambda>n. as_unsigned 8 (n mod 7)) (checked_signed 64 (days + 3))"

definition iso_weeks_in_year :: "int \<Rightarrow> int option" where
  "iso_weeks_in_year year =
     do {
       jan1 \<leftarrow> weekday_from_days (days_from_civil year 1 1);
       Some (if jan1 = 3 \<or> (is_leap year \<and> jan1 = 2) then 53 else 52)
     }"

definition iso_week :: "int \<Rightarrow> int \<Rightarrow> int \<Rightarrow> (int \<times> int) option" where
  "iso_week year month day =
     do {
       let days = days_from_civil year month day;
       w \<leftarrow> weekday_from_days days;
       let weekday = w + 1;
       let week = tdiv (ordinal year month day - weekday + 10) 7;
       if week < 1
       then do {
         y \<leftarrow> checked_signed 32 (year - 1);
         weeks \<leftarrow> iso_weeks_in_year y;
         Some (y, weeks)
       }
       else do {
         weeks \<leftarrow> iso_weeks_in_year year;
         if week > weeks then do { y \<leftarrow> checked_signed 32 (year + 1); Some (y, 1) }
         else Some (year, as_unsigned 8 week)
       }
     }"

section \<open>Arithmetic\<close>

lemma tdiv_nonneg: "0 \<le> a \<Longrightarrow> tdiv a b = a div b"
  by (simp add: tdiv_def)

lemma trem_zero_iff: "0 < b \<Longrightarrow> trem a b = 0 \<longleftrightarrow> a mod b = 0"
proof -
  assume b: "0 < b"
  show ?thesis
  proof (cases "0 \<le> a")
    case True
    then show ?thesis by (simp add: trem_def tdiv_def minus_div_mult_eq_mod)
  next
    case False
    have "trem a b = - ((- a) mod b)"
      using False minus_div_mult_eq_mod [of "- a" b] by (simp add: trem_def tdiv_def)
    then show ?thesis by (simp add: mod_eq_0_iff_dvd)
  qed
qed

lemma is_leap_mod: "is_leap y \<longleftrightarrow> (y mod 4 = 0 \<and> y mod 100 \<noteq> 0) \<or> y mod 400 = 0"
  by (simp add: is_leap_def trem_zero_iff)

lemma floor_tdiv:
  assumes "0 < b"
  shows "tdiv (if y \<ge> 0 then y else y - (b - 1)) b = y div b"
proof (cases "0 \<le> y")
  case False
  have "(b - 1 - y) div b = - (y div b)"
  proof (rule int_div_pos_eq)
    show "b - 1 - y = b * - (y div b) + (b - 1 - y mod b)"
      using mult_div_mod_eq [of b y] by (simp add: algebra_simps)
    show "0 \<le> b - 1 - y mod b" using pos_mod_bound [OF assms, of y] by linarith
    show "b - 1 - y mod b < b" using pos_mod_sign [OF assms, of y] by linarith
  qed
  with False assms show ?thesis by (simp add: tdiv_def)
qed (simp add: tdiv_def)

lemma era_floor: "tdiv (if y \<ge> 0 then y else y - 399) 400 = y div 400"
  using floor_tdiv [of 400 y] by (simp split: if_splits)

lemma cycle_floor: "tdiv (if n \<ge> 0 then n else n - 146096) 146097 = n div 146097"
  using floor_tdiv [of 146097 n] by (simp split: if_splits)

lemma all_below:
  assumes "list_all P (map int [0..<n])" "0 \<le> k" "k < int n"
  shows "P k"
proof -
  have "k = int (nat k)" "nat k \<in> set [0..<n]" using assms(2,3) by auto
  then have "k \<in> set (map int [0..<n])" by (simp only: set_map) (rule image_eqI)
  with assms(1) show ?thesis unfolding list_all_iff by blast
qed

text \<open>The first day of year \<open>k\<close> of a cycle of 400 years that starts in March.\<close>

definition year_start :: "int \<Rightarrow> int" where
  "year_start k = 365 * k + k div 4 - k div 100"

text \<open>The year of a cycle from a day of it.\<close>

definition year_of :: "int \<Rightarrow> int" where
  "year_of doe = (doe - doe div 1460 + doe div 36524 - doe div 146096) div 365"

text \<open>The first day of a month of a year that starts in March, and the month of a day of it.\<close>

definition month_start :: "int \<Rightarrow> int" where
  "month_start mp = (153 * mp + 2) div 5"

definition month_of :: "int \<Rightarrow> int" where
  "month_of doy = (5 * doy + 2) div 153"

lemma days_from_civil_eq:
  assumes "1 \<le> m" "m \<le> 12"
  shows "days_from_civil y m d =
    (let y' = y - (if m \<le> 2 then 1 else 0) in
     y' div 400 * 146097 + year_start (y' mod 400) + month_start ((m + 9) mod 12) + d - 1 - 719468)"
proof -
  define y' where "y' = y - (if m \<le> 2 then 1 else 0)"
  have yoe: "y' - y' div 400 * 400 = y' mod 400" by (simp add: minus_div_mult_eq_mod)
  have mp: "m + (if m > 2 then - 3 else 9) = (m + 9) mod 12"
  proof (cases "m > 2")
    case True
    have "(m - 3) mod 12 = (m + 9) mod 12" using mod_add_self2 [of "m - 3" 12] by (simp add: add.commute)
    then show ?thesis using True assms by simp
  qed (use assms in simp)
  have "0 \<le> (m + 9) mod 12" "0 \<le> y' mod 400" by simp_all
  then show ?thesis
    unfolding days_from_civil_def Let_def y'_def [symmetric] era_floor unfolding yoe mp
    by (simp add: tdiv_nonneg year_start_def month_start_def DAYS_PER_CYCLE_def EPOCH_DAYS_def)
qed

text \<open>
  The last year of a cycle is the one with the leap day of the cycle, so the cycle ends one
  day after the others would. The year of a day is checked at the first and the last day of each of
  the 400 years and follows for the days between, as the estimate grows with the day.
\<close>

definition year_end :: "int \<Rightarrow> int" where
  "year_end k = (if k = 399 then 146097 else year_start (k + 1))"

definition year_guess :: "int \<Rightarrow> int" where
  "year_guess doe = doe - doe div 1460 + doe div 36524"

definition year_check :: "int \<Rightarrow> bool" where
  "year_check k \<longleftrightarrow> 365 * k \<le> year_guess (year_start k) \<and>
     year_guess (if k = 399 then 146095 else year_end k - 1) < 365 * (k + 1) \<and>
     0 \<le> year_start k \<and> year_end k \<le> (if k = 399 then 146097 else 146096) \<and> year_start k + 365 \<le> year_end k \<and> year_end k \<le> year_start k + 366 \<and>
     (year_end k = year_start k + 366 \<longleftrightarrow> ((k + 1) mod 4 = 0 \<and> (k + 1) mod 100 \<noteq> 0) \<or> (k + 1) mod 400 = 0)"

lemma year_checks: "list_all year_check (map int [0..<400])"
  by code_simp

lemma year_checked: "0 \<le> k \<Longrightarrow> k \<le> 399 \<Longrightarrow> year_check k"
  by (rule all_below [OF year_checks]) simp_all

lemma sub_div_mono: "0 < c \<Longrightarrow> a \<le> b \<Longrightarrow> a - a div c \<le> b - b div (c :: int)"
proof -
  assume c: "0 < c" and ab: "a \<le> b"
  have "(b - a) * 1 \<le> (b - a) * c" using c ab by (intro mult_left_mono) auto
  then have "b \<le> a + (b - a) * c" by simp
  then have "b div c \<le> (a + (b - a) * c) div c" using c by (rule zdiv_mono1)
  then show ?thesis using c by simp
qed

lemma year_guess_mono: "a \<le> b \<Longrightarrow> year_guess a \<le> year_guess b"
  using sub_div_mono [of 1460 a b] zdiv_mono1 [of a b 36524] by (simp add: year_guess_def)

lemma year_of_unique:
  assumes "0 \<le> k" "k \<le> 399" "year_start k \<le> doe" "doe < year_end k"
  shows "year_of doe = k"
proof -
  note check = year_checked [OF assms(1,2), unfolded year_check_def]
  have top: "doe \<le> 146096" "0 \<le> doe" using assms(3,4) check by (auto split: if_splits)
  show ?thesis
  proof (cases "doe = 146096")
    case True
    then have "k = 399" using assms(4) check by (auto split: if_splits)
    then show ?thesis by (simp add: True year_of_def)
  next
    case False
    then have last: "doe div 146096 = 0" using top by simp
    have "365 * k \<le> year_guess doe" using check year_guess_mono [OF assms(3)] by linarith
    moreover have "year_guess doe < 365 * (k + 1)"
      using check year_guess_mono [of doe "if k = 399 then 146095 else year_end k - 1"] assms(4) False top
      by (auto simp: year_end_def split: if_splits)
    ultimately show ?thesis using last by (simp add: year_of_def year_guess_def)
  qed
qed

lemma year_of_exists:
  assumes "0 \<le> doe" "doe < 146097"
  shows "\<exists>k. 0 \<le> k \<and> k \<le> 399 \<and> year_start k \<le> doe \<and> doe < year_end k"
proof -
  define P where "P n \<longleftrightarrow> doe < year_end (int n)" for n
  have P: "P 399" using assms by (simp add: P_def year_end_def)
  define n where "n = (LEAST n. P n)"
  have n: "P n" "n \<le> 399" unfolding n_def by (rule LeastI [of P, OF P], rule Least_le [of P, OF P])
  have "year_start (int n) \<le> doe"
  proof (cases n)
    case 0
    then show ?thesis using assms by (simp add: year_start_def)
  next
    case (Suc j)
    then have "\<not> P j" using not_less_Least [of j P] by (simp add: n_def)
    moreover have "year_end (int j) = year_start (int n)" using n Suc by (simp add: year_end_def add.commute)
    ultimately show ?thesis by (simp add: P_def)
  qed
  with n show ?thesis by (intro exI [of _ "int n"]) (simp add: P_def)
qed

text \<open>The months of a year that starts in March, checked on each of the 366 days.\<close>

definition month_check :: "int \<Rightarrow> bool" where
  "month_check doy \<longleftrightarrow> 0 \<le> month_of doy \<and> month_of doy \<le> 11 \<and>
     month_start (month_of doy) \<le> doy \<and> doy - month_start (month_of doy) < 31 \<and> (if month_of doy = 11 then doy < 366 else doy < month_start (month_of doy + 1))"

lemma month_checks: "list_all month_check (map int [0..<366])"
  by code_simp

lemma month_checked: "0 \<le> doy \<Longrightarrow> doy < 366 \<Longrightarrow> month_check doy"
  by (rule all_below [OF month_checks]) simp_all

lemma months_cases: "1 \<le> m \<Longrightarrow> m \<le> 12 \<Longrightarrow> (m :: int) \<in> {1, 2, 3, 4, 5, 6, 7, 8, 9, 10, 11, 12}"
  unfolding insert_iff empty_iff by presburger

text \<open>The length of a month is the distance of the two starts; February ends the year.\<close>

lemma month_length:
  assumes "1 \<le> m" "m \<le> 12"
  shows "month_start ((m + 9) mod 12) + days_in_month y m =
      (if m = 2 then (if is_leap y then 366 else 365) else month_start ((m + 9) mod 12 + 1))"
    "0 \<le> month_start ((m + 9) mod 12)"
    "(m \<noteq> 2 \<longrightarrow> month_start ((m + 9) mod 12 + 1) \<le> 337) \<and> ((m + 9) mod 12 = 11 \<longleftrightarrow> m = 2)"
    "(m + 9) mod 12 + (if (m + 9) mod 12 < 10 then 3 else - 9) = m"
proof -
  have "m \<in> {1, 2, 3, 4, 5, 6, 7, 8, 9, 10, 11, 12}" by (rule months_cases [OF assms])
  then show "month_start ((m + 9) mod 12) + days_in_month y m =
      (if m = 2 then (if is_leap y then 366 else 365) else month_start ((m + 9) mod 12 + 1))"
    "0 \<le> month_start ((m + 9) mod 12)"
    "(m \<noteq> 2 \<longrightarrow> month_start ((m + 9) mod 12 + 1) \<le> 337) \<and> ((m + 9) mod 12 = 11 \<longleftrightarrow> m = 2)"
    "(m + 9) mod 12 + (if (m + 9) mod 12 < 10 then 3 else - 9) = m"
    by (elim insertE; simp add: month_start_def days_in_month_def)+
qed

lemma month_start_mono: "a \<le> b \<Longrightarrow> month_start a \<le> month_start b"
  by (simp add: month_start_def zdiv_mono1)

lemma month_of_unique:
  assumes "0 \<le> mp" "mp \<le> 11" "0 \<le> doy" "doy < 366" "month_start mp \<le> doy" "mp \<noteq> 11 \<Longrightarrow> doy < month_start (mp + 1)"
  shows "month_of doy = mp"
proof (rule ccontr)
  note check = month_checked [OF assms(3,4), unfolded month_check_def]
  assume "month_of doy \<noteq> mp"
  then consider "month_of doy < mp" | "mp < month_of doy" by linarith
  then show False
  proof cases
    case 1
    then have "month_start (month_of doy + 1) \<le> month_start mp" by (intro month_start_mono) simp
    moreover have "doy < month_start (month_of doy + 1)" using check 1 assms(2) by (auto split: if_splits)
    ultimately show False using assms(5) by linarith
  next
    case 2
    then have "month_start (mp + 1) \<le> month_start (month_of doy)" by (intro month_start_mono) simp
    moreover have "doy < month_start (mp + 1)" using check 2 by (intro assms(6)) linarith
    ultimately show False using check by linarith
  qed
qed

section \<open>Dates\<close>

definition civil_valid :: "int \<Rightarrow> int \<Rightarrow> int \<Rightarrow> bool" where
  "civil_valid y m d \<longleftrightarrow> 1 \<le> m \<and> m \<le> 12 \<and> 1 \<le> d \<and> d \<le> days_in_month y m"

text \<open>A date in parts: the cycle, the year of the cycle and the day of a year that starts in March.\<close>

definition in_cycle :: "int \<Rightarrow> int \<Rightarrow> int \<Rightarrow> int \<Rightarrow> bool" where
  "in_cycle n era yoe doy \<longleftrightarrow> n + 719468 = era * 146097 + year_start yoe + doy \<and>
     0 \<le> yoe \<and> yoe \<le> 399 \<and> 0 \<le> doy \<and> year_start yoe + doy < year_end yoe"

lemma in_cycle_exists: "\<exists>era yoe doy. in_cycle n era yoe doy"
proof -
  let ?d = "n + 719468"
  obtain k where "0 \<le> k" "k \<le> 399" "year_start k \<le> ?d mod 146097" "?d mod 146097 < year_end k"
    using year_of_exists [of "?d mod 146097"] by auto
  then show ?thesis unfolding in_cycle_def
    using div_mult_mod_eq [of ?d 146097]
    by (intro exI [of _ "?d div 146097"] exI [of _ k] exI [of _ "?d mod 146097 - year_start k"]) simp
qed

lemma in_cycle_parts:
  assumes "in_cycle n era yoe doy"
  shows "(n + 719468) div 146097 = era" "(n + 719468) mod 146097 = year_start yoe + doy"
    "year_of (year_start yoe + doy) = yoe" "doy < 366"
proof -
  note c = assms [unfolded in_cycle_def]
  have y: "year_check yoe" using c by (intro year_checked) auto
  then have "0 \<le> year_start yoe + doy" "year_start yoe + doy < 146097" "doy < 366"
    using c unfolding year_check_def by (auto split: if_splits)
  moreover have "n + 719468 = (year_start yoe + doy) + era * 146097" using c by simp
  ultimately show "doy < 366" "(n + 719468) div 146097 = era" "(n + 719468) mod 146097 = year_start yoe + doy"
    by (simp_all only: mod_mult_self1 div_mult_self1) simp_all
  show "year_of (year_start yoe + doy) = yoe" using c by (intro year_of_unique) auto
qed

text \<open>The date of such a day.\<close>

definition cycle_date :: "int \<Rightarrow> int \<Rightarrow> int \<Rightarrow> int \<times> int \<times> int" where
  "cycle_date era yoe doy =
     (let mp = month_of doy; month = mp + (if mp < 10 then 3 else - 9)
      in (yoe + era * 400 + (if month \<le> 2 then 1 else 0), month, doy - month_start mp + 1))"

lemma as_signed_id: "in_signed w x \<Longrightarrow> 0 < w \<Longrightarrow> as_signed w x = x"
proof -
  assume x: "in_signed w x" and w: "0 < w"
  have "(2 :: int) ^ w = 2 * 2 ^ (w - 1)" using w by (simp flip: power_Suc)
  then have "(x + 2 ^ (w - 1)) mod 2 ^ w = x + 2 ^ (w - 1)"
    using x by (intro mod_pos_pos_trivial) (auto simp: in_signed_def)
  then show ?thesis by (simp add: as_signed_def)
qed

lemma civil_from_days_cycle:
  assumes c: "in_cycle n era yoe doy" and n: "\<bar>n\<bar> \<le> 2 ^ 62"
    and y: "in_signed 32 (fst (cycle_date era yoe doy))" "in_signed 32 (yoe + era * 400)"
  shows "civil_from_days n = Some (cycle_date era yoe doy)"
proof -
  note parts = in_cycle_parts [OF c]
  have bounds: "0 \<le> yoe" "yoe \<le> 399" "0 \<le> doy" using c by (auto simp: in_cycle_def)
  note month = month_checked [OF bounds(3) parts(4), unfolded month_check_def]
  let ?doe = "year_start yoe + doy" and ?mp = "month_of doy"
  have doe: "0 \<le> ?doe" using year_checked [OF bounds(1,2)] bounds unfolding year_check_def by simp
  have guess: "0 \<le> ?doe - ?doe div 1460 + ?doe div 36524 - ?doe div 146096"
  proof (cases "?doe = 146096")
    case False
    have "?doe < 146097" using parts(2) by (metis pos_mod_bound zero_less_numeral)
    then have "?doe div 146096 = 0" using doe False by simp
    then show ?thesis using year_guess_mono [OF doe] by (simp add: year_guess_def)
  qed simp
  have era: "tdiv (if n + 719468 \<ge> 0 then n + 719468 else n + 719468 - 146096) 146097 = era"
    unfolding cycle_floor parts ..
  have days: "checked_signed 64 (n + EPOCH_DAYS) = Some (n + 719468)"
    "(if n + 719468 \<ge> 0 then Some (n + 719468) else checked_signed 64 (n + 719468 - (DAYS_PER_CYCLE - 1))) =
      Some (if n + 719468 \<ge> 0 then n + 719468 else n + 719468 - 146096)"
    using n by (auto simp: checked_signed_def in_signed_def EPOCH_DAYS_def DAYS_PER_CYCLE_def)
  have sub: "n + 719468 - era * DAYS_PER_CYCLE = ?doe"
    using c by (simp add: in_cycle_def DAYS_PER_CYCLE_def)
  have yoe: "tdiv (?doe - tdiv ?doe 1460 + tdiv ?doe 36524 - tdiv ?doe 146096) 365 = yoe"
    using guess parts(3) doe by (simp add: tdiv_nonneg year_of_def)
  have doy: "?doe - (365 * yoe + tdiv yoe 4 - tdiv yoe 100) = doy"
    using bounds by (simp add: tdiv_nonneg year_start_def)
  have mp: "tdiv (5 * doy + 2) 153 = ?mp" "tdiv (153 * ?mp + 2) 5 = month_start ?mp"
    using bounds month by (simp_all add: tdiv_nonneg month_of_def month_start_def)
  have cast: "as_unsigned 8 (doy - month_start ?mp + 1) = doy - month_start ?mp + 1"
    "as_unsigned 8 (?mp + (if ?mp < 10 then 3 else - 9)) = ?mp + (if ?mp < 10 then 3 else - 9)"
    using month by (auto simp: as_unsigned_def)
  have year: "as_signed 32 (yoe + era * 400) = yoe + era * 400" using y(2) by (intro as_signed_id) simp_all
  have next_year: "(if ?mp + (if ?mp < 10 then 3 else - 9) \<le> 2 then checked_signed 32 (yoe + era * 400 + 1)
      else Some (yoe + era * 400)) = Some (fst (cycle_date era yoe doy))"
    using y(1) by (auto simp: cycle_date_def Let_def checked_signed_def)
  show ?thesis
    unfolding civil_from_days_def Let_def days bind.bind_lunit
    unfolding era [folded DAYS_PER_CYCLE_def] sub yoe doy mp cast year next_year bind.bind_lunit
    by (simp add: cycle_date_def Let_def)
qed

text \<open>Whether a year of a cycle has the extra day, which comes at its end.\<close>

lemma year_length:
  assumes "0 \<le> yoe" "yoe \<le> 399"
  shows "year_end yoe = year_start yoe + (if is_leap (yoe + era * 400 + 1) then 366 else 365)"
proof -
  note check = year_checked [OF assms, unfolded year_check_def]
  have "(yoe + era * 400 + 1) mod 400 = (yoe + 1) mod 400" "(yoe + era * 400 + 1) mod 4 = (yoe + 1) mod 4"
    "(yoe + era * 400 + 1) mod 100 = (yoe + 1) mod 100"
    using mod_mult_self1 [of "yoe + 1" era 400] mod_mult_self1 [of "yoe + 1" "era * 100" 4]
      mod_mult_self1 [of "yoe + 1" "era * 4" 100] by (simp_all add: algebra_simps)
  then have "is_leap (yoe + era * 400 + 1) \<longleftrightarrow> ((yoe + 1) mod 4 = 0 \<and> (yoe + 1) mod 100 \<noteq> 0) \<or> (yoe + 1) mod 400 = 0"
    by (simp add: is_leap_mod)
  then show ?thesis using check by auto
qed

lemma date_cycle:
  assumes "civil_valid y m d"
  defines "y' \<equiv> y - (if m \<le> 2 then 1 else 0)"
  defines "doy \<equiv> month_start ((m + 9) mod 12) + d - 1"
  shows "in_cycle (days_from_civil y m d) (y' div 400) (y' mod 400) doy"
    "cycle_date (y' div 400) (y' mod 400) doy = (y, m, d)"
proof -
  have m: "1 \<le> m" "m \<le> 12" and d: "1 \<le> d" "d \<le> days_in_month y m" using assms(1) by (auto simp: civil_valid_def)
  note len = month_length(1) [OF m, of y] month_length(2-4) [OF m]
  have y': "y' mod 400 + y' div 400 * 400 = y'" by simp
  have yoe: "0 \<le> y' mod 400" "y' mod 400 \<le> 399" using pos_mod_bound [of 400 y'] by simp_all
  have doy: "0 \<le> doy" using len(2) d(1) by (simp add: doy_def)
  have feb: "m = 2 \<Longrightarrow> y = y' mod 400 + y' div 400 * 400 + 1" by (simp add: y') (simp add: y'_def)
  have top: "year_start (y' mod 400) + doy < year_end (y' mod 400)"
  proof (cases "m = 2")
    case True
    then show ?thesis using d(2) len(1) year_length [OF yoe, of "y' div 400"] feb
      by (simp add: doy_def)
  next
    case False
    then have "doy < 337" using d(2) len(1,3) by (auto simp: doy_def)
    then show ?thesis using year_length [OF yoe, of "y' div 400"] by simp
  qed
  show cyc: "in_cycle (days_from_civil y m d) (y' div 400) (y' mod 400) doy"
    using yoe doy top unfolding in_cycle_def days_from_civil_eq [OF m] Let_def y'_def [symmetric]
    by (simp add: doy_def)
  have "month_of doy = (m + 9) mod 12"
  proof (rule month_of_unique)
    show "(m + 9) mod 12 \<le> 11" using pos_mod_bound [of 12 "m + 9"] by simp
    show "doy < 366" by (rule in_cycle_parts(4) [OF cyc])
    show "(m + 9) mod 12 \<noteq> 11 \<Longrightarrow> doy < month_start ((m + 9) mod 12 + 1)" using len(1,3) d(2) by (auto simp: doy_def)
  qed (use doy d(1) in \<open>simp_all add: doy_def\<close>)
  then show "cycle_date (y' div 400) (y' mod 400) doy = (y, m, d)"
    using len(4) y' by (simp add: cycle_date_def Let_def doy_def y'_def)
qed

lemma cycle_date_valid:
  assumes "in_cycle n era yoe doy" and "cycle_date era yoe doy = (y, m, d)"
  shows "civil_valid y m d" "days_from_civil y m d = n"
proof -
  note parts = in_cycle_parts [OF assms(1)]
  have c: "0 \<le> yoe" "yoe \<le> 399" "0 \<le> doy" "n + 719468 = era * 146097 + year_start yoe + doy"
    "year_start yoe + doy < year_end yoe" using assms(1) by (auto simp: in_cycle_def)
  note month = month_checked [OF c(3) parts(4), unfolded month_check_def]
  let ?mp = "month_of doy"
  have ymd: "m = ?mp + (if ?mp < 10 then 3 else - 9)" "d = doy - month_start ?mp + 1"
    "y = yoe + era * 400 + (if m \<le> 2 then 1 else 0)"
    using assms(2) by (auto simp: cycle_date_def Let_def)
  have m: "1 \<le> m" "m \<le> 12" and mp: "(m + 9) mod 12 = ?mp" using month ymd(1) by (auto split: if_splits)
  note len = month_length(1) [OF m, of y] month_length(2-4) [OF m]
  have "d \<le> days_in_month y m"
  proof (cases "m = 2")
    case True
    then have "y = yoe + era * 400 + 1" using ymd(3) by simp
    then show ?thesis using True len(1) c(5) year_length [OF c(1,2), of era] ymd(2) mp by (simp split: if_splits)
  next
    case False
    then have "?mp \<noteq> 11" using len(3) mp by simp
    then show ?thesis using False len(1) month ymd(2) mp by auto
  qed
  then show "civil_valid y m d" using m month ymd(2) by (simp add: civil_valid_def)
  have "y - (if m \<le> 2 then 1 else 0) = yoe + era * 400" using ymd(3) by simp
  then show "days_from_civil y m d = n"
    using c ymd(2) by (simp add: days_from_civil_eq [OF m] Let_def mp)
qed

section \<open>Days, dates and weeks\<close>

lemma in_signed_32: "\<bar>x\<bar> < 2 ^ 31 \<Longrightarrow> in_signed 32 x"
  by (auto simp: in_signed_def)

lemma date_cycle_bounds:
  assumes "civil_valid y m d" "\<bar>y\<bar> < 2 ^ 31"
  shows "\<bar>days_from_civil y m d\<bar> \<le> 2 ^ 50"
proof -
  define y' where "y' = y - (if m \<le> 2 then 1 else 0)"
  have c: "in_cycle (days_from_civil y m d) (y' div 400) (y' mod 400) (month_start ((m + 9) mod 12) + d - 1)"
    unfolding y'_def by (rule date_cycle(1) [OF assms(1)])
  from in_cycle_parts(1) [OF c] have div: "(days_from_civil y m d + 719468) div 146097 = y' div 400" .
  have "\<bar>y'\<bar> \<le> 2 ^ 31" using assms(2) by (auto simp: y'_def)
  then have "\<bar>y' div 400\<bar> \<le> 5368710" by simp
  with div show ?thesis by simp
qed

lemma civil_from_days_from_civil:
  assumes "civil_valid y m d" "\<bar>y\<bar> < 2 ^ 31"
  shows "civil_from_days (days_from_civil y m d) = Some (y, m, d)"
proof -
  define y' where "y' = y - (if m \<le> 2 then 1 else 0)"
  note c = date_cycle [OF assms(1), folded y'_def]
  have "in_signed 32 y" "in_signed 32 y'" using assms(2) by (auto simp: in_signed_def y'_def)
  then show ?thesis using civil_from_days_cycle [OF c(1)] c(2) date_cycle_bounds [OF assms] by simp
qed

lemma days_from_civil_from_days:
  assumes "\<bar>n\<bar> \<le> 780000000000"
  shows "\<exists>y m d. civil_from_days n = Some (y, m, d) \<and> civil_valid y m d \<and> days_from_civil y m d = n \<and> \<bar>y\<bar> < 2 ^ 31"
proof -
  obtain era yoe doy where c: "in_cycle n era yoe doy" using in_cycle_exists by blast
  obtain y m d where ymd: "cycle_date era yoe doy = (y, m, d)" by (cases "cycle_date era yoe doy") auto
  have "(n + 719468) div 146097 = era" by (rule in_cycle_parts(1) [OF c])
  then have "\<bar>era\<bar> \<le> 5338930" using assms by linarith
  moreover have "0 \<le> yoe" "yoe \<le> 399" using c by (auto simp: in_cycle_def)
  moreover have "y = yoe + era * 400 \<or> y = yoe + era * 400 + 1" using ymd by (auto simp: cycle_date_def Let_def split: if_splits)
  ultimately have "\<bar>yoe + era * 400\<bar> < 2 ^ 31" "\<bar>y\<bar> < 2 ^ 31" by auto
  moreover from this have "civil_from_days n = Some (y, m, d)"
    using civil_from_days_cycle [OF c] assms ymd by (simp add: in_signed_32)
  ultimately show ?thesis using cycle_date_valid [OF c ymd] by blast
qed

text \<open>The first day of the year that starts in March after the year \<open>z\<close> is the length of it later.\<close>

definition march_start :: "int \<Rightarrow> int" where
  "march_start z = z div 400 * 146097 + year_start (z mod 400)"

lemma march_start_next: "march_start (z + 1) = march_start z + (if is_leap (z + 1) then 366 else 365)"
proof -
  define era yoe where "era = z div 400" and "yoe = z mod 400"
  have z: "z = yoe + era * 400" and yoe: "0 \<le> yoe" "yoe \<le> 399"
    unfolding era_def yoe_def using pos_mod_bound [of 400 z] by simp_all
  note len = year_length [OF yoe, of era]
  show ?thesis
  proof (cases "yoe = 399")
    case True
    then have "(z + 1) div 400 = era + 1" "(z + 1) mod 400 = 0" by (simp_all add: z)
    then show ?thesis using len True
      by (simp add: march_start_def z year_end_def) (simp add: year_start_def)
  next
    case False
    then have nxt: "z + 1 = (yoe + 1) + era * 400" "0 \<le> yoe + 1" "yoe + 1 < 400" using z yoe by simp_all
    have "(z + 1) div 400 = era" "(z + 1) mod 400 = yoe + 1"
      unfolding nxt(1) div_mult_self1 mod_mult_self1 using nxt(2,3) by simp_all
    moreover have "z div 400 = era" "z mod 400 = yoe" by (simp_all add: era_def yoe_def)
    ultimately show ?thesis using len False z by (simp add: march_start_def year_end_def)
  qed
qed

lemma days_from_civil_march:
  assumes "1 \<le> m" "m \<le> 12"
  shows "days_from_civil y m d =
    march_start (y - (if m \<le> 2 then 1 else 0)) + month_start ((m + 9) mod 12) + d - 1 - 719468"
  using days_from_civil_eq [OF assms, of y d] by (simp add: march_start_def Let_def)

lemma year_days: "days_from_civil (y + 1) 1 1 = days_from_civil y 1 1 + (if is_leap y then 366 else 365)"
  using march_start_next [of "y - 1"] by (simp add: days_from_civil_march)

text \<open>The calendar as one counts it: the date after a date.\<close>

definition next_date :: "int \<times> int \<times> int \<Rightarrow> int \<times> int \<times> int" where
  "next_date = (\<lambda>(y, m, d).
     if d < days_in_month y m then (y, m, d + 1)
     else if m < 12 then (y, m + 1, 1)
     else (y + 1, 1, 1))"

lemma days_in_month_pos: "1 \<le> m \<Longrightarrow> m \<le> 12 \<Longrightarrow> 28 \<le> days_in_month y m \<and> days_in_month y m \<le> 31"
  using months_cases [of m] by (auto simp: days_in_month_def)

lemma month_end:
  assumes "1 \<le> m" "m < 12"
  shows "days_from_civil y (m + 1) 1 = days_from_civil y m (days_in_month y m) + 1"
proof (cases "m = 2")
  case True
  then show ?thesis using march_start_next [of "y - 1"] month_length(1) [of 2 y]
    by (simp add: days_from_civil_march) (simp add: month_start_def)
next
  case False
  have m: "1 \<le> m" "m \<le> 12" using assms by simp_all
  have "m \<in> {1, 2, 3, 4, 5, 6, 7, 8, 9, 10, 11, 12}" by (rule months_cases [OF m])
  then have "(m + 1 + 9) mod 12 = (m + 9) mod 12 + 1 \<and> (m + 1 \<le> 2 \<longleftrightarrow> m \<le> 2)" using False assms by auto
  then show ?thesis using month_length(1) [OF m, of y] False assms
    by (simp add: days_from_civil_march)
qed

lemma next_date_days:
  assumes "civil_valid y m d" "next_date (y, m, d) = (y2, m2, d2)"
  shows "civil_valid y2 m2 d2 \<and> days_from_civil y2 m2 d2 = days_from_civil y m d + 1"
proof -
  have m: "1 \<le> m" "m \<le> 12" and d: "1 \<le> d" "d \<le> days_in_month y m" using assms(1) by (auto simp: civil_valid_def)
  consider (day) "d < days_in_month y m" | (month) "d = days_in_month y m" "m < 12" | (year) "d = days_in_month y m" "m = 12"
    using m d by linarith
  then show ?thesis
  proof cases
    case day
    then show ?thesis using assms m d by (auto simp: next_date_def civil_valid_def days_from_civil_march)
  next
    case month
    then show ?thesis using assms m month_end [OF m(1) month(2), of y] days_in_month_pos [of "m + 1" y]
      by (auto simp: next_date_def civil_valid_def)
  next
    case year
    then show ?thesis using assms days_in_month_pos [of 1 "y + 1"]
      by (auto simp: next_date_def civil_valid_def days_from_civil_march days_in_month_def month_start_def)
  qed
qed

text \<open>The day of the year.\<close>

lemma year_position:
  assumes "civil_valid y m d"
  shows "days_from_civil y 1 1 \<le> days_from_civil y m d" "days_from_civil y m d < days_from_civil (y + 1) 1 1"
proof -
  have m: "1 \<le> m" "m \<le> 12" and d: "1 \<le> d" "d \<le> days_in_month y m" using assms by (auto simp: civil_valid_def)
  have d31: "d \<le> 31" using d(2) days_in_month_pos [OF m, of y] by simp
  have "march_start y \<ge> march_start (y - 1) + 365" using march_start_next [of "y - 1"] by simp
  moreover have "m \<in> {1, 2, 3, 4, 5, 6, 7, 8, 9, 10, 11, 12}" by (rule months_cases [OF m])
  ultimately show "days_from_civil y 1 1 \<le> days_from_civil y m d" "days_from_civil y m d < days_from_civil (y + 1) 1 1"
    using d(1) d31 by (elim insertE; simp add: days_from_civil_march month_start_def)+
qed

lemma ordinal_eq:
  assumes "civil_valid y m d"
  shows "ordinal y m d = days_from_civil y m d - days_from_civil y 1 1 + 1"
  using year_position [OF assms] year_days [of y] by (simp add: ordinal_def as_unsigned_def split: if_splits)

lemma weekday_eq: "\<bar>n\<bar> \<le> 2 ^ 50 \<Longrightarrow> weekday_from_days n = Some ((n + 3) mod 7)"
proof -
  assume "\<bar>n\<bar> \<le> 2 ^ 50"
  then have "in_signed 64 (n + 3)" by (auto simp: in_signed_def)
  moreover have "as_unsigned 8 ((n + 3) mod 7) = (n + 3) mod 7"
    using pos_mod_bound [of 7 "n + 3"] by (simp add: as_unsigned_def)
  ultimately show ?thesis by (simp add: weekday_from_days_def checked_signed_def)
qed

lemma jan1_bounds: "\<bar>y\<bar> < 2 ^ 31 \<Longrightarrow> \<bar>days_from_civil y 1 1\<bar> \<le> 2 ^ 50"
  by (rule date_cycle_bounds) (simp_all add: civil_valid_def days_in_month_def)

lemma iso_weeks_eq:
  "\<bar>y\<bar> < 2 ^ 31 \<Longrightarrow> iso_weeks_in_year y =
     Some (let w = (days_from_civil y 1 1 + 3) mod 7 in if w = 3 \<or> (is_leap y \<and> w = 2) then 53 else 52)"
  unfolding iso_weeks_in_year_def weekday_eq [OF jan1_bounds] by (simp add: Let_def)

text \<open>The weeks of a year by its last Thursday, day \<open>r\<close> of a year that starts on day \<open>j\<close>.\<close>

lemma week_count:
  assumes "(r + j) mod 7 = 0" "L - 7 \<le> r" "r < L" "L = 365 \<or> L = (366 :: int)"
  shows "r div 7 + 1 = (if (j + 3) mod 7 = 3 \<or> (L = 366 \<and> (j + 3) mod 7 = 2) then 53 else 52)"
proof -
  have "r \<in> {358, 359, 360, 361, 362, 363, 364, 365}" using assms(2-4) unfolding insert_iff empty_iff by presburger
  then show ?thesis using assms by (elim insertE; simp) presburger+
qed

text \<open>
  An ISO week belongs to the year that has its Thursday, and is numbered by that Thursday.
\<close>

definition thursday :: "int \<Rightarrow> int" where
  "thursday n = n - (n + 3) mod 7 + 3"

lemma thursday_mod: "thursday n mod 7 = 0"
  unfolding thursday_def by presburger

lemma thursday_near: "n - 3 \<le> thursday n" "thursday n \<le> n + 3"
  using pos_mod_bound [of 7 "n + 3"] pos_mod_sign [of 7 "n + 3"] by (simp_all add: thursday_def)

lemma iso_week_eq:
  assumes v: "civil_valid y m d" and y: "\<bar>y\<bar> < 2 ^ 31 - 1"
  defines "t \<equiv> thursday (days_from_civil y m d) - days_from_civil y 1 1"
  shows "iso_week y m d =
      (if t < 0 then do { weeks \<leftarrow> iso_weeks_in_year (y - 1); Some (y - 1, weeks) }
       else do { weeks \<leftarrow> iso_weeks_in_year y;
         if t div 7 + 1 > weeks then Some (y + 1, 1) else Some (y, as_unsigned 8 (t div 7 + 1)) })"
proof -
  define n where "n = days_from_civil y m d"
  define w where "w = (n + 3) mod 7"
  have y31: "\<bar>y\<bar> < 2 ^ 31" "\<bar>y - 1\<bar> < 2 ^ 31" "\<bar>y + 1\<bar> < 2 ^ 31" using y by auto
  have t7: "ordinal y m d - (w + 1) + 10 = t + 7"
    using ordinal_eq [OF v] by (simp add: t_def thursday_def n_def w_def)
  have "- 3 \<le> t" using year_position(1) [OF v] thursday_near(1) [of n] unfolding t_def n_def by linarith
  then have week: "tdiv (ordinal y m d - (w + 1) + 10) 7 = t div 7 + 1" unfolding t7 by (simp add: tdiv_nonneg)
  have wd: "weekday_from_days n = Some w"
    using weekday_eq date_cycle_bounds [OF v y31(1)] by (simp add: n_def w_def)
  have years: "checked_signed 32 (y - 1) = Some (y - 1)" "checked_signed 32 (y + 1) = Some (y + 1)"
    using in_signed_32 [OF y31(2)] in_signed_32 [OF y31(3)] by (simp_all add: checked_signed_def)
  have "t div 7 + 1 < 1 \<longleftrightarrow> t < 0" by (simp add: pos_imp_zdiv_neg_iff)
  then show ?thesis
    unfolding iso_week_def n_def [symmetric] Let_def wd bind.bind_lunit week years by simp
qed

definition year_len :: "int \<Rightarrow> int" where
  "year_len y = (if is_leap y then 366 else 365)"

lemma year_len_cases: "year_len y = 365 \<or> year_len y = 366" "year_len y = 366 \<longleftrightarrow> is_leap y"
  by (simp_all add: year_len_def)

lemma year_len_days: "days_from_civil (y + 1) 1 1 = days_from_civil y 1 1 + year_len y"
  using year_days [of y] by (simp add: year_len_def)

lemma iso_weeks_last_thursday:
  assumes "\<bar>y\<bar> < 2 ^ 31" "(r + days_from_civil y 1 1) mod 7 = 0" "year_len y - 7 \<le> r" "r < year_len y"
  shows "iso_weeks_in_year y = Some (r div 7 + 1)"
  unfolding iso_weeks_eq [OF assms(1)] Let_def week_count [OF assms(2-4) year_len_cases(1)]
  by (simp add: year_len_cases(2))

lemma iso_week_thursday:
  assumes v: "civil_valid y m d" and y: "\<bar>y\<bar> < 2 ^ 31 - 1"
  defines "thu \<equiv> thursday (days_from_civil y m d)"
  shows "\<exists>Y. days_from_civil Y 1 1 \<le> thu \<and> thu < days_from_civil (Y + 1) 1 1 \<and>
    iso_week y m d = Some (Y, (thu - days_from_civil Y 1 1) div 7 + 1)"
proof -
  define j L K where "j = days_from_civil y 1 1" and "L = year_len y" and "K = year_len (y - 1)"
  define t where "t = thu - j"
  have y31: "\<bar>y\<bar> < 2 ^ 31" "\<bar>y - 1\<bar> < 2 ^ 31" using y by auto
  have t7: "(t + j) mod 7 = 0" using thursday_mod by (simp add: t_def thu_def)
  have LK: "L = 365 \<or> L = 366" "K = 365 \<or> K = 366" unfolding L_def K_def by (rule year_len_cases(1))+
  have j1: "days_from_civil (y - 1) 1 1 = j - K" using year_len_days [of "y - 1"] by (simp add: j_def K_def)
  have j2: "days_from_civil (y + 1) 1 1 = j + L" using year_len_days [of y] by (simp add: j_def L_def)
  have thu: "thu = t + j" by (simp add: t_def)
  have bounds: "- 3 \<le> t" "t < L + 3"
    using year_position [OF v] j2 thursday_near [of "days_from_civil y m d"] unfolding t_def thu_def j_def by linarith+
  note iso = iso_week_eq [OF v y, folded thu_def j_def, folded t_def]
  consider (before) "t < 0" | (after) "L \<le> t" | (within) "0 \<le> t" "t < L" by linarith
  then show ?thesis
  proof cases
    case before
    have "iso_weeks_in_year (y - 1) = Some ((t + K) div 7 + 1)"
      using iso_weeks_last_thursday [OF y31(2), of "t + K"] t7 before bounds(1) unfolding j1 K_def by simp
    then have "iso_week y m d = Some (y - 1, (t + K) div 7 + 1)" using iso before by simp
    then show ?thesis using before bounds j1 LK(2) unfolding thu
      by (intro exI [of _ "y - 1"]) (auto simp: j_def algebra_simps)
  next
    case after
    have "(t - 7 + j) mod 7 = 0" using t7 by presburger
    then have "iso_weeks_in_year y = Some ((t - 7) div 7 + 1)"
      using iso_weeks_last_thursday [OF y31(1), of "t - 7"] after bounds(2) unfolding j_def L_def by simp
    then have "iso_week y m d = Some (y + 1, 1)" using iso after LK(1) by auto
    moreover have "(t - L) div 7 = 0" using after bounds by simp
    moreover have "days_from_civil (y + 1 + 1) 1 1 \<ge> j + L + 365"
      using year_len_days [of "y + 1"] year_len_cases(1) [of "y + 1"] j2 by auto
    ultimately show ?thesis using after bounds j2 unfolding thu
      by (intro exI [of _ "y + 1"]) (auto simp: algebra_simps)
  next
    case within
    define r where "r = t + 7 * ((L - 1 - t) div 7)"
    have "(r + j) mod 7 = 0" using t7 unfolding r_def by presburger
    moreover have r: "L - 7 \<le> r" "r < L" "t \<le> r" unfolding r_def using within by presburger+
    ultimately have "iso_weeks_in_year y = Some (r div 7 + 1)"
      using iso_weeks_last_thursday [OF y31(1), of r] unfolding j_def L_def by simp
    moreover have "t div 7 \<le> r div 7" using r(3) by (simp add: zdiv_mono1)
    moreover have "as_unsigned 8 (t div 7 + 1) = t div 7 + 1" using within LK(1) by (auto simp: as_unsigned_def)
    ultimately have "iso_week y m d = Some (y, t div 7 + 1)" using iso within by simp
    then show ?thesis using within j2 unfolding thu by (intro exI [of _ y]) (auto simp: j_def)
  qed
qed

section \<open>Properties\<close>

text \<open>
  C7: the day count is the calendar. Day 0 is 1970-01-01; the date after a date (the next day of the
  month, the first of the next month or the first of January) is a date again and has the next day
  number; every date of a year above \<open>i32::MIN\<close> comes back from its day number, and every day number up
  to 780,000,000,000 either way is the number of the date it is converted to.
\<close>

theorem civil_roundtrip:
  assumes "civil_valid y m d" "\<bar>y\<bar> < 2 ^ 31" "\<bar>n\<bar> \<le> 780000000000"
  shows "days_from_civil 1970 1 1 = 0 \<and>
    (case next_date (y, m, d) of (y2, m2, d2) \<Rightarrow>
       civil_valid y2 m2 d2 \<and> days_from_civil y2 m2 d2 = days_from_civil y m d + 1) \<and>
    civil_from_days (days_from_civil y m d) = Some (y, m, d) \<and>
    (\<exists>y m d. civil_from_days n = Some (y, m, d) \<and> civil_valid y m d \<and> days_from_civil y m d = n)"
proof (intro conjI)
  show "days_from_civil 1970 1 1 = 0" by code_simp
  show "case next_date (y, m, d) of (y2, m2, d2) \<Rightarrow>
      civil_valid y2 m2 d2 \<and> days_from_civil y2 m2 d2 = days_from_civil y m d + 1"
    using next_date_days [OF assms(1)] by (auto split: prod.splits)
  show "civil_from_days (days_from_civil y m d) = Some (y, m, d)"
    by (rule civil_from_days_from_civil [OF assms(1,2)])
  show "\<exists>y m d. civil_from_days n = Some (y, m, d) \<and> civil_valid y m d \<and> days_from_civil y m d = n"
    using days_from_civil_from_days [OF assms(3)] by blast
qed

theorem civil_roundtrip_witness:
  "next_date (2024, 2, 29) = (2024, 3, 1) \<and> days_from_civil 2024 3 1 = days_from_civil 2024 2 29 + 1 \<and>
   civil_from_days (days_from_civil 2024 2 29) = Some (2024, 2, 29) \<and>
   (\<exists>y m d. civil_from_days (- 719469) = Some (y, m, d) \<and> civil_valid y m d \<and> days_from_civil y m d = - 719469)"
proof -
  have leap: "is_leap 2024" by code_simp
  then have "civil_valid 2024 2 29" and nxt: "next_date (2024, 2, 29) = (2024, 3, 1)"
    by (simp_all add: civil_valid_def days_in_month_def next_date_def)
  from civil_roundtrip [OF this(1), of "- 719469"] show ?thesis using nxt by simp
qed

text \<open>
  The ISO week of a date. A week runs from Monday to Sunday; it belongs to the year its Thursday
  lies in, and its number counts the Thursdays of that year up to it. The weekday of a day and the day
  of the year are those of the calendar. This holds for every date whose neighbouring years are values
  of \<open>i32\<close>.
\<close>

theorem iso_week_correct:
  assumes "civil_valid y m d" "\<bar>y\<bar> < 2 ^ 31 - 1"
  shows "weekday_from_days (days_from_civil y m d) = Some ((days_from_civil y m d + 3) mod 7) \<and>
    ordinal y m d = days_from_civil y m d - days_from_civil y 1 1 + 1 \<and> 1 \<le> ordinal y m d \<and> ordinal y m d \<le> year_len y \<and>
    (\<exists>Y. days_from_civil Y 1 1 \<le> thursday (days_from_civil y m d) \<and>
       thursday (days_from_civil y m d) < days_from_civil (Y + 1) 1 1 \<and>
       iso_week y m d = Some (Y, (thursday (days_from_civil y m d) - days_from_civil Y 1 1) div 7 + 1))"
proof -
  have "\<bar>y\<bar> < 2 ^ 31" using assms(2) by simp
  then have "weekday_from_days (days_from_civil y m d) = Some ((days_from_civil y m d + 3) mod 7)"
    using weekday_eq date_cycle_bounds [OF assms(1)] by simp
  moreover have "ordinal y m d = days_from_civil y m d - days_from_civil y 1 1 + 1" by (rule ordinal_eq [OF assms(1)])
  ultimately show ?thesis
    using year_position [OF assms(1)] year_len_days [of y] iso_week_thursday [OF assms] by simp
qed

theorem iso_week_correct_witness:
  "civil_valid 2021 1 3 \<and> iso_week 2021 1 3 = Some (2020, 53) \<and> ordinal 2021 1 3 = 3 \<and>
   (\<exists>Y. iso_week 2021 1 3 = Some (Y, (thursday (days_from_civil 2021 1 3) - days_from_civil Y 1 1) div 7 + 1))"
proof -
  have v: "civil_valid 2021 1 3" by (simp add: civil_valid_def days_in_month_def)
  have "iso_week 2021 1 3 = Some (2020, 53)" "ordinal 2021 1 3 = 3" by code_simp+
  with iso_week_correct [OF v] v show ?thesis by simp
qed

end
