(* ===== verification/Posix_Tz.thy ===== *)
theory Posix_Tz
  imports Civil
begin

text \<open>
  Rules of the time crate for the far future (\<open>src/time/posix.rs\<close>): the POSIX \<open>TZ\<close> strings of TZif
  footers, the packed day rules of the embedded database and their evaluation at an instant. A
  string is its list of bytes. An outer \<open>None\<close> of the evaluation is a panic (an overflow, or an
  index out of bounds); the parsers return the \<open>Option\<close> of the source.
\<close>

section \<open>The rules\<close>

record zone_info =
  zi_offset :: int
  zi_is_dst :: bool
  zi_abbrev :: "byte list"

datatype posix_rule =
    JulianNoLeap int
  | Julian int
  | MonthWeekDay (mwd_month: int) (mwd_week: int) (mwd_day: int)

record dst_rule =
  dr_name :: "byte list"
  dr_east :: int
  dr_start :: "posix_rule \<times> int"
  dr_end :: "posix_rule \<times> int"

record posix_tz =
  pt_std_name :: "byte list"
  pt_std_east :: int
  pt_dst :: "dst_rule option"

definition daylight_rule_from_packed_day :: "u16 \<Rightarrow> posix_rule" where
  "daylight_rule_from_packed_day day =
     (if drop_bit 14 day = 1 then Julian (uint (day AND 0x3FFF))
      else if drop_bit 14 day = 2 then
        MonthWeekDay (uint (drop_bit 10 day AND 0xF)) (uint (drop_bit 7 day AND 0x7)) (uint (drop_bit 4 day AND 0x7))
      else JulianNoLeap (uint (day AND 0x3FFF)))"

definition DAYS_BEFORE_MONTH :: "int list" where
  "DAYS_BEFORE_MONTH = [0, 31, 59, 90, 120, 151, 181, 212, 243, 273, 304, 334]"

definition DAYS_PER_MONTH :: "bool \<Rightarrow> int list" where
  "DAYS_PER_MONTH leap =
     (if leap then [31, 29, 31, 30, 31, 30, 31, 31, 30, 31, 30, 31]
      else [31, 28, 31, 30, 31, 30, 31, 31, 30, 31, 30, 31])"

fun rule_day_of_year :: "posix_rule \<Rightarrow> int \<Rightarrow> int \<Rightarrow> int option" where
  "rule_day_of_year (JulianNoLeap n) year jan1 =
     (let ordinal = n - 1 in Some (if is_leap year \<and> n \<ge> 60 then ordinal + 1 else ordinal))"
| "rule_day_of_year (Julian n) year jan1 = Some n"
| "rule_day_of_year (MonthWeekDay month week day) year jan1 =
     (if month < 1 then None
      else do {
        let month0 = nat (month - 1);
        let leap = is_leap year;
        before \<leftarrow> slice_get DAYS_BEFORE_MONTH month0;
        let first_doy = before + (if leap \<and> month > 2 then 1 else 0);
        let first_weekday = (jan1 + first_doy + 3) mod 7;
        let target = trem (day + 6) 7;
        let dom = 1 + (target - first_weekday) mod 7 + (week - 1) * 7;
        last \<leftarrow> slice_get (DAYS_PER_MONTH leap) month0;
        let dom = (if week = 5 \<and> dom > last then dom - 7 else dom);
        Some (first_doy + dom - 1)
      })"

definition transition_instant_fast :: "int \<Rightarrow> int \<Rightarrow> posix_rule \<Rightarrow> int \<Rightarrow> int \<Rightarrow> int option" where
  "transition_instant_fast year jan1 rule time offset_before =
     map_option (\<lambda>doy. (jan1 + doy) * SECS_PER_DAY + time - offset_before) (rule_day_of_year rule year jan1)"

definition evaluate_daylight :: "dst_rule \<Rightarrow> int \<Rightarrow> byte list \<Rightarrow> int \<Rightarrow> zone_info option" where
  "evaluate_daylight rule standard_east standard_name seconds =
     do {
       approx_local \<leftarrow> checked_signed 64 (seconds + standard_east);
       let days = approx_local div SECS_PER_DAY;
       (year, _, _) \<leftarrow> civil_from_days days;
       let jan1 = days_from_civil year 1 1;
       start \<leftarrow> transition_instant_fast year jan1 (fst (dr_start rule)) (snd (dr_start rule)) standard_east;
       end \<leftarrow> transition_instant_fast year jan1 (fst (dr_end rule)) (snd (dr_end rule)) (dr_east rule);
       let in_dst = (if start \<le> end then seconds \<ge> start \<and> seconds < end else seconds \<ge> start \<or> seconds < end);
       Some (if in_dst then \<lparr>zi_offset = dr_east rule, zi_is_dst = True, zi_abbrev = dr_name rule\<rparr>
             else \<lparr>zi_offset = standard_east, zi_is_dst = False, zi_abbrev = standard_name\<rparr>)
     }"

definition posix_lookup :: "posix_tz \<Rightarrow> int \<Rightarrow> zone_info option" where
  "posix_lookup self secs =
     (case pt_dst self of
        None \<Rightarrow> Some \<lparr>zi_offset = pt_std_east self, zi_is_dst = False, zi_abbrev = pt_std_name self\<rparr>
      | Some dst \<Rightarrow> evaluate_daylight dst (pt_std_east self) (pt_std_name self) secs)"

section \<open>Parsing\<close>

text \<open>\<open>str::parse::<i32>\<close> of a run of digits, and \<open>strip_prefix\<close> of one ASCII character.\<close>

definition parse_i32 :: "byte list \<Rightarrow> int option" where
  "parse_i32 s = map_option int (parse_uint (2 ^ 31) s)"

fun strip_byte :: "byte \<Rightarrow> byte list \<Rightarrow> byte list option" where
  "strip_byte c (b # bs) = (if b = c then Some bs else None)"
| "strip_byte c [] = None"

definition posix_parse_name :: "byte list \<Rightarrow> (byte list \<times> byte list) option" where
  "posix_parse_name s =
     (if s = [] then None
      else if hd s = ascii CHR ''<'' then
        map_option (\<lambda>end. (take (end - 1) (drop 1 s), drop (end + 1) s)) (find_pos (\<lambda>b. b = ascii CHR ''>'') s)
      else
        let end = (case find_pos (\<lambda>b. \<not> is_ascii_alphabetic b) s of Some i \<Rightarrow> i | None \<Rightarrow> length s)
        in if end = 0 then None else Some (take end s, drop end s))"

definition posix_parse_digits :: "byte list \<Rightarrow> (int \<times> byte list) option" where
  "posix_parse_digits s =
     (let end = (case find_pos (\<lambda>b. \<not> is_ascii_digit b) s of Some i \<Rightarrow> i | None \<Rightarrow> length s)
      in if end = 0 then None else map_option (\<lambda>n. (n, drop end s)) (parse_i32 (take end s)))"

text \<open>
  The parts of \<open>parse_hms\<close>: \<open>:mm\<close> and \<open>:ss\<close>, the two digits after a colon, below 60; and the sign.
\<close>

definition posix_sexagesimal :: "byte list \<Rightarrow> (int \<times> byte list) option" where
  "posix_sexagesimal s =
     (let ds = takeWhile is_ascii_digit s
      in if length ds \<noteq> 2 then None
         else do { v \<leftarrow> parse_i32 ds; if v > 59 then None else Some (v, dropWhile is_ascii_digit s) })"

definition posix_sign :: "byte list \<Rightarrow> int \<times> byte list" where
  "posix_sign s =
     (case s of
        [] \<Rightarrow> (1, s)
      | b # bs \<Rightarrow> if b = ascii CHR ''+'' then (1, bs) else if b = ascii CHR ''-'' then (- 1, bs) else (1, s))"

definition posix_parse_hms :: "byte list \<Rightarrow> (int \<times> byte list) option" where
  "posix_parse_hms s =
     (let (sign, s) = posix_sign s;
          ds = takeWhile is_ascii_digit s;
          s = dropWhile is_ascii_digit s
      in if ds = [] then None
         else do {
           hours \<leftarrow> parse_i32 ds;
           if hours > 167 then None
           else (case strip_byte (ascii CHR '':'') s of
               None \<Rightarrow> Some (sign * (hours * 3600), s)
             | Some s \<Rightarrow> do {
                 (minutes, s) \<leftarrow> posix_sexagesimal s;
                 case strip_byte (ascii CHR '':'') s of
                   None \<Rightarrow> Some (sign * (hours * 3600 + minutes * 60), s)
                 | Some s \<Rightarrow> do {
                     (seconds, s) \<leftarrow> posix_sexagesimal s;
                     Some (sign * (hours * 3600 + minutes * 60 + seconds), s)
                   }
               })
         })"

definition posix_parse_day :: "byte list \<Rightarrow> (posix_rule \<times> byte list) option" where
  "posix_parse_day s =
     (if s = [] then None
      else if hd s = ascii CHR ''J'' then do {
        (n, rest) \<leftarrow> posix_parse_digits (tl s);
        if 1 \<le> n \<and> n \<le> 365 then Some (JulianNoLeap n, rest) else None
      }
      else if hd s = ascii CHR ''M'' then do {
        (month, rest) \<leftarrow> posix_parse_digits (tl s);
        rest \<leftarrow> strip_byte (ascii CHR ''.'') rest;
        (week, rest) \<leftarrow> posix_parse_digits rest;
        rest \<leftarrow> strip_byte (ascii CHR ''.'') rest;
        (day, rest) \<leftarrow> posix_parse_digits rest;
        if \<not> (1 \<le> month \<and> month \<le> 12) \<or> \<not> (1 \<le> week \<and> week \<le> 5) \<or> day > 6 then None
        else Some (MonthWeekDay month week day, rest)
      }
      else do {
        (n, rest) \<leftarrow> posix_parse_digits s;
        if n > 365 then None else Some (Julian n, rest)
      })"

definition posix_parse_rule :: "byte list \<Rightarrow> (posix_rule \<times> int \<times> byte list) option" where
  "posix_parse_rule s =
     do {
       (rule, rest) \<leftarrow> posix_parse_day s;
       case strip_byte (ascii CHR ''/'') rest of
         Some rest \<Rightarrow> do { (time, rest) \<leftarrow> posix_parse_hms rest; Some (rule, time, rest) }
       | None \<Rightarrow> Some (rule, 2 * 3600, rest)
     }"

text \<open>The two choices inside \<open>PosixTz::parse\<close>: the daylight offset, and the rules with their default.\<close>

definition posix_dst_offset :: "int \<Rightarrow> byte list \<Rightarrow> (int \<times> byte list) option" where
  "posix_dst_offset std_east rest =
     (if rest \<noteq> [] \<and> (is_ascii_digit (hd rest) \<or> hd rest = ascii CHR ''+'' \<or> hd rest = ascii CHR ''-'')
      then do { (dst_west, rest) \<leftarrow> posix_parse_hms rest; Some (- dst_west, rest) }
      else Some (std_east + 3600, rest))"

definition posix_dst_rules :: "byte list \<Rightarrow> ((posix_rule \<times> int) \<times> (posix_rule \<times> int)) option" where
  "posix_dst_rules rest =
     (case strip_byte (ascii CHR '','') rest of
        Some rest \<Rightarrow> do {
          (start_rule, start_time, rest) \<leftarrow> posix_parse_rule rest;
          rest \<leftarrow> strip_byte (ascii CHR '','') rest;
          (end_rule, end_time, rest) \<leftarrow> posix_parse_rule rest;
          if rest \<noteq> [] then None else Some ((start_rule, start_time), (end_rule, end_time))
        }
      | None \<Rightarrow>
          if rest = [] then Some ((MonthWeekDay 3 2 0, 2 * 3600), (MonthWeekDay 11 1 0, 2 * 3600))
          else None)"

definition posix_parse :: "byte list \<Rightarrow> posix_tz option" where
  "posix_parse s =
     do {
       (std_name, rest) \<leftarrow> posix_parse_name s;
       (std_west, rest) \<leftarrow> posix_parse_hms rest;
       let std_east = - std_west;
       if rest = [] \<or> \<not> (is_ascii_alphabetic (hd rest) \<or> hd rest = ascii CHR ''<'')
       then Some \<lparr>pt_std_name = std_name, pt_std_east = std_east, pt_dst = None\<rparr>
       else do {
         (dst_name, rest) \<leftarrow> posix_parse_name rest;
         (dst_east, rest) \<leftarrow> posix_dst_offset std_east rest;
         (start, end) \<leftarrow> posix_dst_rules rest;
         Some \<lparr>pt_std_name = std_name, pt_std_east = std_east,
           pt_dst = Some \<lparr>dr_name = dst_name, dr_east = dst_east, dr_start = start, dr_end = end\<rparr>\<rparr>
       }
     }"

section \<open>The packing of the generator\<close>

definition RULE_JNOLEAP :: u16 where
  "RULE_JNOLEAP = push_bit 14 0"

definition RULE_JULIAN :: u16 where
  "RULE_JULIAN = push_bit 14 1"

definition RULE_MWD :: u16 where
  "RULE_MWD = push_bit 14 2"

definition rule_mwd :: "byte \<Rightarrow> byte \<Rightarrow> byte \<Rightarrow> u16" where
  "rule_mwd month week day =
     RULE_MWD OR push_bit 10 (ucast month) OR push_bit 7 (ucast week) OR push_bit 4 (ucast day)"

text \<open>The day that \<open>parse_transition\<close> of the generator stores for the day rule it has read.\<close>

fun pack_day :: "posix_rule \<Rightarrow> u16" where
  "pack_day (JulianNoLeap n) = RULE_JNOLEAP OR word_of_int n"
| "pack_day (Julian n) = RULE_JULIAN OR word_of_int n"
| "pack_day (MonthWeekDay month week day) =
     RULE_MWD OR push_bit 10 (word_of_int month) OR push_bit 7 (word_of_int week) OR push_bit 4 (word_of_int day)"

section \<open>The day of a rule\<close>

fun rule_ok :: "posix_rule \<Rightarrow> bool" where
  "rule_ok (JulianNoLeap n) \<longleftrightarrow> 1 \<le> n \<and> n \<le> 365"
| "rule_ok (Julian n) \<longleftrightarrow> 0 \<le> n \<and> n \<le> 365"
| "rule_ok (MonthWeekDay m w d) \<longleftrightarrow> 1 \<le> m \<and> m \<le> 12 \<and> 1 \<le> w \<and> w \<le> 5 \<and> 0 \<le> d \<and> d \<le> 6"

text \<open>The two tables agree with the calendar.\<close>

lemma month_tables:
  assumes "1 \<le> m" "m \<le> 12"
  shows "slice_get DAYS_BEFORE_MONTH (nat (m - 1)) =
      Some (days_from_civil y m 1 - days_from_civil y 1 1 - (if is_leap y \<and> m > 2 then 1 else 0))"
    and "slice_get (DAYS_PER_MONTH (is_leap y)) (nat (m - 1)) = Some (days_in_month y m)"
proof -
  have m: "m \<in> {1, 2, 3, 4, 5, 6, 7, 8, 9, 10, 11, 12}" by (rule months_cases [OF assms])
  have march: "march_start y = march_start (y - 1) + (if is_leap y then 366 else 365)"
    using march_start_next [of "y - 1"] by simp
  show "slice_get DAYS_BEFORE_MONTH (nat (m - 1)) =
      Some (days_from_civil y m 1 - days_from_civil y 1 1 - (if is_leap y \<and> m > 2 then 1 else 0))"
    using m march by (elim insertE; simp add: slice_get_def DAYS_BEFORE_MONTH_def days_from_civil_march month_start_def)
  show "slice_get (DAYS_PER_MONTH (is_leap y)) (nat (m - 1)) = Some (days_in_month y m)"
    using m by (elim insertE; simp add: slice_get_def DAYS_PER_MONTH_def days_in_month_def)
qed

lemma days_in_month_day: "days_from_civil y m d = days_from_civil y m 1 + d - 1"
  by (simp add: days_from_civil_def Let_def)

lemma weekday_of_offset:
  assumes "0 \<le> (d :: int)" "d \<le> 6"
  shows "(N + ((d + 6) mod 7 - (N + 3) mod 7) mod 7 + 4) mod 7 = d"
proof -
  have x: "((d + 6) mod 7 - (N + 3) mod 7) mod 7 = (d + 3 - N) mod 7" by (simp add: mod_simps algebra_simps)
  have "(N + ((d + 6) mod 7 - (N + 3) mod 7) mod 7 + 4) mod 7 = (N + 4 + (d + 3 - N) mod 7) mod 7"
    unfolding x by (simp only: add.assoc add.commute [of _ 4])
  also have "\<dots> = (N + 4 + (d + 3 - N)) mod 7" by (rule mod_add_right_eq)
  also have "\<dots> = (d + 7) mod 7" by (simp add: add.commute)
  finally show ?thesis using assms by simp
qed

lemma rule_day_mwd:
  assumes "rule_ok (MonthWeekDay m w d)"
  shows "\<exists>dom. rule_day_of_year (MonthWeekDay m w d) y (days_from_civil y 1 1) =
      Some (days_from_civil y m dom - days_from_civil y 1 1) \<and> civil_valid y m dom \<and>
    (days_from_civil y m dom + 4) mod 7 = d \<and>
    (if w = 5 then days_in_month y m < dom + 7 else (dom - 1) div 7 + 1 = w)"
proof -
  have m: "1 \<le> m" "m \<le> 12" and w: "1 \<le> w" "w \<le> 5" and d: "0 \<le> d" "d \<le> 6" using assms by auto
  define N where "N = days_from_civil y m 1"
  define x where "x = ((d + 6) mod 7 - (N + 3) mod 7) mod 7"
  define dom0 where "dom0 = 1 + x + (w - 1) * 7"
  define dom where "dom = (if w = 5 \<and> dom0 > days_in_month y m then dom0 - 7 else dom0)"
  have x: "0 \<le> x" "x < 7" by (simp_all add: x_def)
  have len: "28 \<le> days_in_month y m" "days_in_month y m \<le> 31" using days_in_month_pos [OF m] by auto
  have "dom = 1 + x + 7 * (if w = 5 \<and> dom0 > days_in_month y m then w - 2 else w - 1)"
    by (simp add: dom_def dom0_def)
  then obtain k where k: "dom = 1 + x + 7 * k" by blast
  have "(days_from_civil y m dom + 4) mod 7 = (N + x + 4 + 7 * k) mod 7"
    using days_in_month_day [of y m dom] by (simp add: k N_def algebra_simps)
  also have "\<dots> = d" using weekday_of_offset [OF d, of N] by (simp add: x_def)
  finally have "(days_from_civil y m dom + 4) mod 7 = d" .
  moreover have "1 \<le> dom" "dom \<le> days_in_month y m" using x w len by (auto simp: dom_def dom0_def)
  moreover have "if w = 5 then days_in_month y m < dom + 7 else (dom - 1) div 7 + 1 = w"
  proof (cases "w = 5")
    case True
    then show ?thesis using x len by (auto simp: dom_def dom0_def)
  next
    case False
    then have "(dom - 1) div 7 = w - 1" using x by (simp add: dom_def dom0_def)
    then show ?thesis using False by simp
  qed
  moreover have "rule_day_of_year (MonthWeekDay m w d) y (days_from_civil y 1 1) =
      Some (days_from_civil y m dom - days_from_civil y 1 1)"
  proof -
    have t: "trem (d + 6) 7 = (d + 6) mod 7" using d by (simp add: trem_def tdiv_nonneg minus_div_mult_eq_mod)
    show ?thesis
      using m days_in_month_day [of y m dom]
      by (simp add: month_tables [OF m, of y] t Let_def N_def [symmetric] x_def [symmetric]) (auto simp: dom_def dom0_def)
  qed
  ultimately show ?thesis using m by (auto simp: civil_valid_def)
qed

lemma ordinal_table:
  assumes "civil_valid y m d"
  shows "ordinal y m d = days_from_civil y m 1 - days_from_civil y 1 1 + d"
  using ordinal_eq [OF assms] days_in_month_day [of y m d] by simp

lemma rule_day_julian:
  assumes "civil_valid y m d" "\<not> (m = 2 \<and> d = 29)"
  shows "rule_day_of_year (JulianNoLeap (ordinal 2001 m d)) y (days_from_civil y 1 1) = Some (ordinal y m d - 1)"
proof -
  have m: "1 \<le> m" "m \<le> 12" and d: "1 \<le> d" "d \<le> days_in_month y m" using assms(1) by (auto simp: civil_valid_def)
  have common: "\<not> is_leap 2001" by code_simp
  have v: "civil_valid 2001 m d"
    using m d common assms(2) months_cases [OF m] by (auto simp: civil_valid_def days_in_month_def split: if_splits)
  have "days_from_civil y m 1 - days_from_civil y 1 1 - (if is_leap y \<and> m > 2 then 1 else 0) =
      days_from_civil 2001 m 1 - days_from_civil 2001 1 1"
    using month_tables(1) [OF m, of y] month_tables(1) [OF m, of 2001] common by simp
  then have diff: "ordinal y m d = ordinal 2001 m d + (if is_leap y \<and> m > 2 then 1 else 0)"
    using ordinal_table [OF assms(1)] ordinal_table [OF v] by simp
  have "ordinal 2001 m d \<ge> 60 \<longleftrightarrow> m > 2"
  proof -
    have "days_from_civil 2001 m 1 - days_from_civil 2001 1 1 = DAYS_BEFORE_MONTH ! nat (m - 1)"
      using month_tables(1) [OF m, of 2001] common m by (simp add: slice_get_def DAYS_BEFORE_MONTH_def split: if_splits)
    then show ?thesis using ordinal_table [OF v] months_cases [OF m] v common
      by (elim insertE; simp add: DAYS_BEFORE_MONTH_def civil_valid_def days_in_month_def)
  qed
  then show ?thesis using diff by (simp add: Let_def)
qed

section \<open>The texts of the rules\<close>

text \<open>The strings the compiler of the IANA database writes: the shortest form of each part.\<close>

definition two_digit_text :: "nat \<Rightarrow> byte list" where
  "two_digit_text n = [digit_byte (n div 10), digit_byte (n mod 10)]"

definition hms_text :: "int \<Rightarrow> byte list" where
  "hms_text t =
     (let a = nat \<bar>t\<bar>; h = a div 3600; m = a mod 3600 div 60; s = a mod 60
      in (if t < 0 then [ascii CHR ''-''] else []) @ show_nat h @
         (if m = 0 \<and> s = 0 then []
          else ascii CHR '':'' # two_digit_text m @ (if s = 0 then [] else ascii CHR '':'' # two_digit_text s)))"

definition name_text :: "byte list \<Rightarrow> byte list" where
  "name_text n =
     (if n \<noteq> [] \<and> list_all is_ascii_alphabetic n then n else ascii CHR ''<'' # n @ [ascii CHR ''>''])"

fun day_text :: "posix_rule \<Rightarrow> byte list" where
  "day_text (JulianNoLeap n) = ascii CHR ''J'' # show_nat (nat n)"
| "day_text (Julian n) = show_nat (nat n)"
| "day_text (MonthWeekDay m w d) =
     ascii CHR ''M'' # show_nat (nat m) @ ascii CHR ''.'' # show_nat (nat w) @ ascii CHR ''.'' # show_nat (nat d)"

definition rule_text :: "posix_rule \<times> int \<Rightarrow> byte list" where
  "rule_text r = day_text (fst r) @ (if snd r = 2 * 3600 then [] else ascii CHR ''/'' # hms_text (snd r))"

definition posix_text :: "posix_tz \<Rightarrow> byte list" where
  "posix_text tz =
     name_text (pt_std_name tz) @ hms_text (- pt_std_east tz) @
     (case pt_dst tz of
        None \<Rightarrow> []
      | Some r \<Rightarrow> name_text (dr_name r) @
          (if dr_east r = pt_std_east tz + 3600 then [] else hms_text (- dr_east r)) @
          ascii CHR '','' # rule_text (dr_start r) @ ascii CHR '','' # rule_text (dr_end r))"

definition hms_ok :: "int \<Rightarrow> bool" where
  "hms_ok t \<longleftrightarrow> \<bar>t\<bar> < 168 * 3600"

definition posix_ok :: "posix_tz \<Rightarrow> bool" where
  "posix_ok tz \<longleftrightarrow> ascii CHR ''>'' \<notin> set (pt_std_name tz) \<and> hms_ok (pt_std_east tz) \<and>
     (case pt_dst tz of
        None \<Rightarrow> True
      | Some r \<Rightarrow> ascii CHR ''>'' \<notin> set (dr_name r) \<and>
          (dr_east r = pt_std_east tz + 3600 \<or> hms_ok (dr_east r)) \<and>
          rule_ok (fst (dr_start r)) \<and> hms_ok (snd (dr_start r)) \<and> rule_ok (fst (dr_end r)) \<and> hms_ok (snd (dr_end r)))"

section \<open>Parsing the texts\<close>

definition stops :: "(byte \<Rightarrow> bool) \<Rightarrow> byte list \<Rightarrow> bool" where
  "stops p s \<longleftrightarrow> s = [] \<or> \<not> p (hd s)"

lemma run_stops_simps [simp]: "stops p []" "stops p (b # s) \<longleftrightarrow> \<not> p b"
  by (simp_all add: stops_def)

lemma run_append:
  assumes "\<forall>b \<in> set xs. p b" "stops p ys"
  shows "takeWhile p (xs @ ys) = xs" "dropWhile p (xs @ ys) = ys"
proof -
  have "takeWhile p ys = []" "dropWhile p ys = ys" using assms(2) by (cases ys; simp)+
  then show "takeWhile p (xs @ ys) = xs" "dropWhile p (xs @ ys) = ys" using assms(1) by simp_all
qed

lemma byte_classes [simp]:
  "\<not> is_ascii_digit 0x3A" "\<not> is_ascii_digit 0x2C" "\<not> is_ascii_digit 0x2D" "\<not> is_ascii_digit 0x2E"
  "\<not> is_ascii_digit 0x2F" "\<not> is_ascii_digit 0x3C" "\<not> is_ascii_digit 0x4A" "\<not> is_ascii_digit 0x4D"
  "\<not> is_ascii_alphabetic 0x2C" "\<not> is_ascii_alphabetic 0x2D" "\<not> is_ascii_alphabetic 0x3C" "\<not> is_ascii_alphabetic 0x3E"
  "\<not> is_ascii_alphabetic 0x2B"
  by (simp_all add: is_ascii_digit_def is_ascii_alphabetic_def)

lemma digit_not_alphabetic: "is_ascii_digit b \<Longrightarrow> \<not> is_ascii_alphabetic b"
  by (auto simp: is_ascii_digit_def is_ascii_alphabetic_def word_le_nat_alt)

lemma posix_parse_digits_eq:
  "posix_parse_digits s =
     (if takeWhile is_ascii_digit s = [] then None
      else map_option (\<lambda>n. (n, dropWhile is_ascii_digit s)) (parse_i32 (takeWhile is_ascii_digit s)))"
  using find_pos_default [where p = "\<lambda>b. \<not> is_ascii_digit b" and xs = s]
    take_find_pos [where p = "\<lambda>b. \<not> is_ascii_digit b" and xs = s]
  by (simp add: posix_parse_digits_def)

lemma posix_parse_name_eq:
  "posix_parse_name s =
     (if s \<noteq> [] \<and> hd s = 0x3C then
        (if 0x3E \<in> set s
         then Some (takeWhile (\<lambda>b. b \<noteq> 0x3E) (tl s), tl (dropWhile (\<lambda>b. b \<noteq> 0x3E) (tl s))) else None)
      else if takeWhile is_ascii_alphabetic s = [] then None
      else Some (takeWhile is_ascii_alphabetic s, dropWhile is_ascii_alphabetic s))"
proof (cases "s \<noteq> [] \<and> hd s = 0x3C")
  case True
  then obtain r where s: "s = 0x3C # r" by (cases s) auto
  have "takeWhile (\<lambda>b. b \<noteq> 0x3E) r = take (length (takeWhile (\<lambda>b. b \<noteq> 0x3E) r)) r"
    by (rule takeWhile_eq_take)
  moreover have "drop (Suc (length (takeWhile (\<lambda>b. b \<noteq> 0x3E) r))) r = tl (dropWhile (\<lambda>b. b \<noteq> 0x3E) r)"
    by (simp add: dropWhile_eq_drop drop_Suc tl_drop)
  ultimately show ?thesis by (auto simp: s posix_parse_name_def find_pos_takeWhile)
next
  case False
  then show ?thesis
    using find_pos_default [where p = "\<lambda>b. \<not> is_ascii_alphabetic b" and xs = s]
      take_find_pos [where p = "\<lambda>b. \<not> is_ascii_alphabetic b" and xs = s]
    by (auto simp: posix_parse_name_def Let_def)
qed

lemma parse_i32_show: "n < 2 ^ 31 \<Longrightarrow> parse_i32 (show_nat n) = Some (int n)"
  by (simp add: parse_i32_def parse_show_nat)

lemma two_digit_text_parse:
  assumes "n < 60" "stops is_ascii_digit rest"
  shows "posix_sexagesimal (two_digit_text n @ rest) = Some (int n, rest)"
proof -
  have digits: "\<forall>b \<in> set (two_digit_text n). is_ascii_digit b"
    using assms(1) digit_byte_simps(1) by (simp add: two_digit_text_def)
  have "digits_val (two_digit_text n) = n"
    using assms(1) digit_byte_simps(2) by (simp add: two_digit_text_def digits_val_def)
  then have "parse_i32 (two_digit_text n) = Some (int n)"
    using parse_uint_digits [OF digits] assms(1) by (simp add: parse_i32_def two_digit_text_def)
  then show ?thesis using run_append [OF digits assms(2)] assms(1)
    by (simp add: posix_sexagesimal_def) (simp add: two_digit_text_def)
qed

lemma posix_parse_number:
  assumes "0 \<le> n" "n \<le> 365" "stops is_ascii_digit rest"
  shows "posix_parse_digits (show_nat (nat n) @ rest) = Some (n, rest)"
  using run_append [OF _ assms(3), of "show_nat (nat n)"] show_nat_digits assms parse_i32_show [of "nat n"]
  by (simp add: posix_parse_digits_eq)

lemma hms_sign:
  assumes "is_ascii_digit b"
  shows "b \<noteq> 0x2B" "b \<noteq> 0x2D"
  using assms by auto

lemma show_nat_cons: obtains b r where "show_nat n = b # r" "is_ascii_digit b"
  using show_nat_digits [of _ n] show_nat_nonempty [of n] by (cases "show_nat n") auto

lemma hms_text_parse:
  assumes "hms_ok t" "stops is_ascii_digit rest" "stops (\<lambda>b. b = 0x3A) rest"
  shows "posix_parse_hms (hms_text t @ rest) = Some (t, rest)"
proof -
  define a where "a = nat \<bar>t\<bar>"
  define h m s where "h = a div 3600" and "m = a mod 3600 div 60" and "s = a mod 60"
  define tail where "tail = (if m = 0 \<and> s = 0 then []
    else ascii CHR '':'' # two_digit_text m @ (if s = 0 then [] else ascii CHR '':'' # two_digit_text s)) @ rest"
  have a: "a = h * 3600 + m * 60 + s"
    using div_mult_mod_eq [of a 3600] div_mult_mod_eq [of "a mod 3600" 60] mod_mod_cancel [of 60 3600 a, simplified]
    unfolding h_def m_def s_def by linarith
  have bounds: "h < 168" "m < 60" "s < 60" using assms(1) by (simp_all add: h_def m_def s_def a_def hms_ok_def)
  have t: "t = (if t < 0 then - 1 else 1) * (int h * 3600 + int m * 60 + int s)"
    using a by (simp add: a_def) linarith
  have shape: "hms_text t @ rest = (if t < 0 then [0x2D] else []) @ show_nat h @ tail"
    by (simp add: hms_text_def tail_def Let_def a_def h_def m_def s_def)
  have tail_digit: "stops is_ascii_digit tail" using assms(2) by (simp add: tail_def)
  have head: "takeWhile is_ascii_digit (show_nat h @ tail) = show_nat h"
    "dropWhile is_ascii_digit (show_nat h @ tail) = tail"
    using run_append [OF _ tail_digit, of "show_nat h"] show_nat_digits by blast+
  have sign: "posix_sign ((if t < 0 then [0x2D] else []) @ show_nat h @ tail) = (if t < 0 then - 1 else 1, show_nat h @ tail)"
  proof -
    obtain b r where "show_nat h = b # r" "is_ascii_digit b" by (rule show_nat_cons)
    then show ?thesis using hms_sign [of b] by (simp add: posix_sign_def)
  qed
  have rest_colon: "strip_byte 0x3A rest = None" using assms(3) by (cases rest) auto
  have "posix_parse_hms (hms_text t @ rest) = Some ((if t < 0 then - 1 else 1) * (int h * 3600 + int m * 60 + int s), rest)"
    unfolding posix_parse_hms_def shape sign Let_def prod.case head
    using bounds parse_i32_show [of h] rest_colon two_digit_text_parse assms(2)
    by (auto simp: tail_def)
  then show ?thesis using t by metis
qed

lemma name_text_parse:
  assumes "ascii CHR ''>'' \<notin> set n" "stops is_ascii_alphabetic rest"
  shows "posix_parse_name (name_text n @ rest) = Some (n, rest)"
proof (cases "n \<noteq> [] \<and> list_all is_ascii_alphabetic n")
  case True
  then have "hd n \<noteq> 0x3C" by (cases n) auto
  then show ?thesis using True run_append [OF _ assms(2), of n]
    by (auto simp: posix_parse_name_eq name_text_def list_all_iff)
next
  case False
  then have "name_text n @ rest = 0x3C # n @ 0x3E # rest" by (auto simp: name_text_def)
  moreover have "\<forall>b \<in> set n. b \<noteq> 0x3E" using assms(1) by auto
  ultimately show ?thesis using run_append [of n "\<lambda>b. b \<noteq> 0x3E" "0x3E # rest"]
    by (simp add: posix_parse_name_eq)
qed

lemma day_text_parse:
  assumes "rule_ok r" "stops is_ascii_digit rest"
  shows "posix_parse_day (day_text r @ rest) = Some (r, rest)"
proof (cases r)
  case (JulianNoLeap n)
  then show ?thesis using posix_parse_number [of n rest] assms by (simp add: posix_parse_day_def)
next
  case (Julian n)
  obtain b t where b: "show_nat (nat n) = b # t" "is_ascii_digit b" by (rule show_nat_cons)
  then have "b \<noteq> 0x4A" "b \<noteq> 0x4D" by auto
  then show ?thesis using posix_parse_number [of n rest] assms b Julian by (simp add: posix_parse_day_def)
next
  case (MonthWeekDay m w d)
  define r3 r2 where "r3 = show_nat (nat d) @ rest" and "r2 = show_nat (nat w) @ 0x2E # r3"
  have "posix_parse_digits r3 = Some (d, rest)" using posix_parse_number [of d rest] assms MonthWeekDay
    by (simp add: r3_def)
  moreover have "posix_parse_digits r2 = Some (w, 0x2E # r3)"
    using posix_parse_number [of w "0x2E # r3"] assms MonthWeekDay by (simp add: r2_def)
  moreover have "posix_parse_digits (show_nat (nat m) @ 0x2E # r2) = Some (m, 0x2E # r2)"
    using posix_parse_number [of m "0x2E # r2"] assms MonthWeekDay by simp
  ultimately show ?thesis using assms MonthWeekDay by (simp add: posix_parse_day_def r2_def r3_def)
qed

lemma rule_text_parse:
  assumes "rule_ok (fst r)" "hms_ok (snd r)" "rest = [] \<or> hd rest = 0x2C"
  shows "posix_parse_rule (rule_text r @ rest) = Some (fst r, snd r, rest)"
proof -
  have rest: "stops is_ascii_digit rest" "stops (\<lambda>b. b = 0x3A) rest" "strip_byte 0x2F rest = None"
    using assms(3) by (cases rest; auto)+
  show ?thesis
  proof (cases "snd r = 2 * 3600")
    case True
    then show ?thesis using day_text_parse [OF assms(1) rest(1)] rest(3) by (simp add: posix_parse_rule_def rule_text_def)
  next
    case False
    then show ?thesis using day_text_parse [OF assms(1), of "0x2F # hms_text (snd r) @ rest"]
        hms_text_parse [OF assms(2) rest(1,2)] by (simp add: posix_parse_rule_def rule_text_def)
  qed
qed

lemma hms_text_head: "hms_text t @ rest = b # s \<Longrightarrow> is_ascii_digit b \<or> b = 0x2D"
  using show_nat_cons [of "nat \<bar>t\<bar> div 3600"] by (fastforce simp: hms_text_def Let_def split: if_splits)

lemma hms_text_nonempty [simp]: "hms_text t \<noteq> []"
  by (simp add: hms_text_def Let_def)

lemma hms_text_hd: "is_ascii_digit (hd (hms_text t @ rest)) \<or> hd (hms_text t @ rest) = 0x2D"
  using hms_text_head [of t rest] by (cases "hms_text t @ rest") auto

lemma hms_text_stops: "stops is_ascii_alphabetic (hms_text t @ rest)"
  using hms_text_hd [of t rest] digit_not_alphabetic by (auto simp: stops_def)

lemma name_text_hd: "is_ascii_alphabetic (hd (name_text n @ rest)) \<or> hd (name_text n @ rest) = 0x3C"
  by (cases n) (auto simp: name_text_def)

lemma name_text_nonempty [simp]: "name_text n \<noteq> []"
  by (simp add: name_text_def)

lemma name_text_stops: "stops is_ascii_digit (name_text n @ rest)" "stops (\<lambda>b. b = 0x3A) (name_text n @ rest)"
  using name_text_hd [of n rest] digit_not_alphabetic by (auto simp: stops_def is_ascii_alphabetic_def)

lemma posix_parse_text:
  assumes "posix_ok tz"
  shows "posix_parse (posix_text tz) = Some tz"
proof (cases "pt_dst tz")
  case None
  then show ?thesis
    using assms name_text_parse [OF _ hms_text_stops, of "pt_std_name tz" "- pt_std_east tz" "[]"]
      hms_text_parse [of "- pt_std_east tz" "[]"]
    by (simp add: posix_parse_def posix_text_def posix_ok_def hms_ok_def)
next
  case (Some r)
  define rules where "rules = rule_text (dr_start r) @ 0x2C # rule_text (dr_end r)"
  define east where "east = (if dr_east r = pt_std_east tz + 3600 then [] else hms_text (- dr_east r)) @ 0x2C # rules"
  define dst where "dst = name_text (dr_name r) @ east"
  have ok: "0x3E \<notin> set (pt_std_name tz)" "hms_ok (- pt_std_east tz)" "0x3E \<notin> set (dr_name r)"
    "dr_east r = pt_std_east tz + 3600 \<or> hms_ok (- dr_east r)"
    "rule_ok (fst (dr_start r))" "hms_ok (snd (dr_start r))" "rule_ok (fst (dr_end r))" "hms_ok (snd (dr_end r))"
    using assms Some by (simp_all add: posix_ok_def hms_ok_def)
  have shape: "posix_text tz = name_text (pt_std_name tz) @ hms_text (- pt_std_east tz) @ dst"
    by (simp add: posix_text_def Some dst_def east_def rules_def)
  have std: "posix_parse_name (posix_text tz) = Some (pt_std_name tz, hms_text (- pt_std_east tz) @ dst)"
    "posix_parse_hms (hms_text (- pt_std_east tz) @ dst) = Some (- pt_std_east tz, dst)"
    unfolding shape using name_text_parse [OF _ hms_text_stops] ok(1)
      hms_text_parse [OF ok(2) name_text_stops, of "dr_name r" east] by (simp_all add: dst_def)
  have head: "dst \<noteq> []" "is_ascii_alphabetic (hd dst) \<or> hd dst = 0x3C" using name_text_hd by (simp_all add: dst_def)
  have "stops is_ascii_alphabetic east" using hms_text_stops by (auto simp: east_def)
  then have name: "posix_parse_name dst = Some (dr_name r, east)"
    unfolding dst_def using ok(3) by (intro name_text_parse) simp_all
  have east: "posix_dst_offset (- (- pt_std_east tz)) east = Some (dr_east r, 0x2C # rules)"
    using ok(4) hms_text_hd [of "- dr_east r" "0x2C # rules"] hms_text_parse [of "- dr_east r" "0x2C # rules"]
    by (auto simp: east_def posix_dst_offset_def)
  have "posix_parse_rule rules = Some (fst (dr_start r), snd (dr_start r), 0x2C # rule_text (dr_end r))"
    "posix_parse_rule (rule_text (dr_end r)) = Some (fst (dr_end r), snd (dr_end r), [])"
    using rule_text_parse [OF ok(5,6)] rule_text_parse [OF ok(7,8), of "[]"] by (simp_all add: rules_def)
  then have "posix_dst_rules (0x2C # rules) = Some (dr_start r, dr_end r)" by (simp add: posix_dst_rules_def)
  then show ?thesis using head Some
    unfolding posix_parse_def std bind.bind_lunit prod.case Let_def name east by (simp add: posix_tz.equality)
qed

section \<open>What the parser returns\<close>

lemma parse_i32_nonneg: "parse_i32 s = Some n \<Longrightarrow> 0 \<le> n"
  by (auto simp: parse_i32_def)

lemma posix_parse_digits_nonneg: "posix_parse_digits s = Some (n, r) \<Longrightarrow> 0 \<le> n"
  using parse_i32_nonneg by (auto simp: posix_parse_digits_eq split: if_splits)

lemma posix_sexagesimal_range: "posix_sexagesimal s = Some (v, r) \<Longrightarrow> 0 \<le> v \<and> v \<le> 59"
  using parse_i32_nonneg by (auto simp: posix_sexagesimal_def Let_def bind_eq_Some_conv split: if_splits)

lemma hms_ok_signed:
  assumes "sign = 1 \<or> sign = - 1" "0 \<le> h" "h \<le> 167" "0 \<le> m" "m \<le> 59" "0 \<le> v" "v \<le> 59"
  shows "hms_ok (sign * (h * 3600 + m * 60 + v))"
  using assms by (auto simp: hms_ok_def)

lemma posix_parse_hms_ok:
  assumes "posix_parse_hms s = Some (t, r)"
  shows "hms_ok t"
proof -
  obtain sign s0 where sign: "posix_sign s = (sign, s0)" by (cases "posix_sign s")
  then have pm: "sign = 1 \<or> sign = - 1" by (auto simp: posix_sign_def split: list.splits if_splits)
  define s1 where "s1 = dropWhile is_ascii_digit s0"
  from assms obtain h where h: "parse_i32 (takeWhile is_ascii_digit s0) = Some h" "h \<le> 167"
    unfolding posix_parse_hms_def sign Let_def prod.case
    by (cases "parse_i32 (takeWhile is_ascii_digit s0)") (auto split: if_splits)
  note nonneg = parse_i32_nonneg [OF h(1)]
  have rest: "(case strip_byte (ascii CHR '':'') s1 of
        None \<Rightarrow> Some (sign * (h * 3600), s1)
      | Some s \<Rightarrow> do {
          (minutes, s) \<leftarrow> posix_sexagesimal s;
          case strip_byte (ascii CHR '':'') s of
            None \<Rightarrow> Some (sign * (h * 3600 + minutes * 60), s)
          | Some s \<Rightarrow> do {
              (seconds, s) \<leftarrow> posix_sexagesimal s;
              Some (sign * (h * 3600 + minutes * 60 + seconds), s) } }) = Some (t, r)"
    using assms h unfolding posix_parse_hms_def sign Let_def prod.case s1_def by (simp split: if_splits)
  show ?thesis
  proof (cases "strip_byte (ascii CHR '':'') s1")
    case None
    then show ?thesis using rest hms_ok_signed [OF pm nonneg h(2), of 0 0] by simp
  next
    case (Some s2)
    then obtain m s3 where m: "posix_sexagesimal s2 = Some (m, s3)" using rest by (auto simp: bind_eq_Some_conv)
    note mr = posix_sexagesimal_range [OF m]
    show ?thesis
    proof (cases "strip_byte (ascii CHR '':'') s3")
      case None
      then show ?thesis using rest Some m mr hms_ok_signed [OF pm nonneg h(2), of m 0] by auto
    next
      case (Some s4)
      then obtain v s5 where v: "posix_sexagesimal s4 = Some (v, s5)" "t = sign * (h * 3600 + m * 60 + v)"
        using rest \<open>strip_byte _ s1 = Some s2\<close> m by (auto simp: bind_eq_Some_conv)
      then show ?thesis using mr posix_sexagesimal_range [OF v(1)] hms_ok_signed [OF pm nonneg h(2)] by blast
    qed
  qed
qed

lemma posix_parse_day_ok: "posix_parse_day s = Some (rule, r) \<Longrightarrow> rule_ok rule"
  by (auto simp: posix_parse_day_def bind_eq_Some_conv split: if_splits prod.splits dest!: posix_parse_digits_nonneg)

lemma posix_parse_rule_ok: "posix_parse_rule s = Some (rule, t, r) \<Longrightarrow> rule_ok rule \<and> hms_ok t"
  by (auto simp: posix_parse_rule_def bind_eq_Some_conv hms_ok_def split: option.splits
      dest!: posix_parse_day_ok posix_parse_hms_ok)

lemma posix_parse_name_ok: "posix_parse_name s = Some (n, r) \<Longrightarrow> ascii CHR ''>'' \<notin> set n"
  by (auto simp: posix_parse_name_eq split: if_splits dest: set_takeWhileD)

lemma posix_dst_rules_ok:
  assumes "posix_dst_rules rest = Some rules"
  shows "rule_ok (fst (fst rules)) \<and> hms_ok (snd (fst rules)) \<and> rule_ok (fst (snd rules)) \<and> hms_ok (snd (snd rules))"
proof (cases "strip_byte (ascii CHR '','') rest")
  case None
  then show ?thesis using assms by (auto simp: posix_dst_rules_def hms_ok_def split: if_splits)
next
  case (Some rest1)
  then obtain r1 t1 rest2 rest3 r2 t2 where "posix_parse_rule rest1 = Some (r1, t1, rest2)"
    "posix_parse_rule rest3 = Some (r2, t2, [])" "rules = ((r1, t1), (r2, t2))"
    using assms by (auto simp: posix_dst_rules_def bind_eq_Some_conv split: if_splits)
  then show ?thesis by (auto dest!: posix_parse_rule_ok)
qed

lemma posix_parse_ok:
  assumes "posix_parse s = Some tz"
  shows "posix_ok tz"
proof -
  from assms obtain name rest west rest2 where std: "posix_parse_name s = Some (name, rest)"
    "posix_parse_hms rest = Some (west, rest2)"
    by (auto simp: posix_parse_def bind_eq_Some_conv)
  note std_ok = posix_parse_name_ok [OF std(1)] posix_parse_hms_ok [OF std(2)]
  show ?thesis
  proof (cases "rest2 = [] \<or> \<not> (is_ascii_alphabetic (hd rest2) \<or> hd rest2 = ascii CHR ''<'')")
    case True
    then have "tz = \<lparr>pt_std_name = name, pt_std_east = - west, pt_dst = None\<rparr>"
      using assms by (simp add: posix_parse_def std)
    then show ?thesis using std_ok by (simp add: posix_ok_def hms_ok_def)
  next
    case False
    then obtain dname rest3 east rest4 rules where dst: "posix_parse_name rest2 = Some (dname, rest3)"
      "posix_dst_offset (- west) rest3 = Some (east, rest4)" "posix_dst_rules rest4 = Some rules"
      and tz: "tz = \<lparr>pt_std_name = name, pt_std_east = - west,
        pt_dst = Some \<lparr>dr_name = dname, dr_east = east, dr_start = fst rules, dr_end = snd rules\<rparr>\<rparr>"
      using assms by (auto simp: posix_parse_def std bind_eq_Some_conv Let_def split: prod.splits)
    have "east = - west + 3600 \<or> hms_ok east"
      using dst(2) posix_parse_hms_ok
      by (fastforce simp: posix_dst_offset_def bind_eq_Some_conv hms_ok_def split: if_splits)
    moreover note posix_dst_rules_ok [OF dst(3)]
    ultimately show ?thesis using std_ok posix_parse_name_ok [OF dst(1)]
      by (auto simp: tz posix_ok_def hms_ok_def)
  qed
qed

section \<open>The instants of the rules\<close>

text \<open>The day number that a rule denotes in a year.\<close>

fun rule_denotes :: "posix_rule \<Rightarrow> int \<Rightarrow> int \<Rightarrow> bool" where
  "rule_denotes (JulianNoLeap k) y n \<longleftrightarrow>
     (\<exists>m d. civil_valid y m d \<and> \<not> (m = 2 \<and> d = 29) \<and> ordinal 2001 m d = k \<and> n = days_from_civil y m d)"
| "rule_denotes (Julian k) y n \<longleftrightarrow> n = days_from_civil y 1 1 + k"
| "rule_denotes (MonthWeekDay m w d) y n \<longleftrightarrow>
     (\<exists>dom. civil_valid y m dom \<and> n = days_from_civil y m dom \<and> (n + 4) mod 7 = d \<and>
        (if w = 5 then days_in_month y m < dom + 7 else (dom - 1) div 7 + 1 = w))"

lemma jan1_mono: "y \<le> z \<Longrightarrow> days_from_civil y 1 1 \<le> days_from_civil z 1 1"
proof (induction z rule: int_ge_induct)
  case (step z)
  then show ?case using year_days [of z] by simp
qed simp

lemma year_unique:
  assumes "days_from_civil y 1 1 \<le> n" "n < days_from_civil (y + 1) 1 1"
    "days_from_civil z 1 1 \<le> n" "n < days_from_civil (z + 1) 1 1"
  shows "y = z"
  using jan1_mono [of "y + 1" z] jan1_mono [of "z + 1" y] assms by linarith

lemma common_day:
  assumes "1 \<le> k" "k \<le> 365"
  shows "\<exists>m d. civil_valid 2001 m d \<and> ordinal 2001 m d = k"
proof -
  define n where "n = days_from_civil 2001 1 1 + k - 1"
  have j: "days_from_civil 2001 1 1 = 11323" "days_from_civil 2002 1 1 = 11688" by code_simp+
  obtain y m d where ymd: "civil_valid y m d" "days_from_civil y m d = n"
    using days_from_civil_from_days [of n] assms j by (auto simp: n_def)
  have "y = 2001" using year_unique [of y n 2001] year_position [OF ymd(1)] ymd(2) assms j by (simp add: n_def)
  then show ?thesis using ymd ordinal_eq [OF ymd(1)] by (auto simp: n_def)
qed

lemma common_valid: "civil_valid 2001 m d \<Longrightarrow> civil_valid y m d \<and> \<not> (m = 2 \<and> d = 29)"
proof -
  assume v: "civil_valid 2001 m d"
  have common: "\<not> is_leap 2001" by code_simp
  show ?thesis using v common by (auto simp: civil_valid_def days_in_month_def split: if_splits)
qed

lemma rule_day_denotes:
  assumes "rule_ok r"
  shows "\<exists>n. rule_day_of_year r y (days_from_civil y 1 1) = Some (n - days_from_civil y 1 1) \<and> rule_denotes r y n"
proof (cases r)
  case (JulianNoLeap k)
  then obtain m d where md: "civil_valid 2001 m d" "ordinal 2001 m d = k" using common_day [of k] assms by auto
  from common_valid [OF md(1), of y] have v: "civil_valid y m d" "\<not> (m = 2 \<and> d = 29)" by auto
  show ?thesis using rule_day_julian [OF v] ordinal_eq [OF v(1)] v md JulianNoLeap
    by (intro exI [of _ "days_from_civil y m d"]) auto
next
  case (MonthWeekDay m w d)
  then obtain dom where "rule_day_of_year r y (days_from_civil y 1 1) = Some (days_from_civil y m dom - days_from_civil y 1 1)"
    "rule_denotes r y (days_from_civil y m dom)"
    using rule_day_mwd [of m w d y] assms by (auto simp del: rule_day_of_year.simps)
  then show ?thesis by blast
qed auto

lemma rule_denotes_unique:
  assumes "rule_ok r" "rule_denotes r y n" "rule_denotes r y n'"
  shows "n = n'"
proof (cases r)
  case (JulianNoLeap k)
  then obtain m d m' d' where md: "civil_valid y m d" "\<not> (m = 2 \<and> d = 29)" "ordinal 2001 m d = k" "n = days_from_civil y m d"
    "civil_valid y m' d'" "\<not> (m' = 2 \<and> d' = 29)" "ordinal 2001 m' d' = k" "n' = days_from_civil y m' d'"
    using assms(2,3) by auto
  then have "ordinal y m d = ordinal y m' d'"
    using rule_day_julian [OF md(1,2)] rule_day_julian [OF md(5,6)] by simp
  then show ?thesis using ordinal_eq [OF md(1)] ordinal_eq [OF md(5)] md(4,8) by simp
next
  case (MonthWeekDay m w d)
  then obtain a b where ab: "n = days_from_civil y m a" "n' = days_from_civil y m b" "(n + 4) mod 7 = (n' + 4) mod 7"
    "a \<le> days_in_month y m" "b \<le> days_in_month y m"
    "if w = 5 then days_in_month y m < a + 7 else (a - 1) div 7 + 1 = w"
    "if w = 5 then days_in_month y m < b + 7 else (b - 1) div 7 + 1 = w"
    using assms(2,3) by (auto simp: civil_valid_def)
  have diff: "n - n' = a - b" using days_in_month_day [of y m a] days_in_month_day [of y m b] ab(1,2) by simp
  have "\<bar>a - b\<bar> < 7"
  proof (cases "w = 5")
    case False
    then have "(a - 1) div 7 = (b - 1) div 7" using ab(6,7) by simp
    then show ?thesis by presburger
  qed (use ab in auto)
  moreover have "(n - n') mod 7 = 0" using ab(3) by presburger
  ultimately show ?thesis using diff by presburger
qed (use assms in auto)

lemma transition_instant_denotes:
  assumes "rule_ok r"
  shows "\<exists>n. rule_denotes r y n \<and>
    transition_instant_fast y (days_from_civil y 1 1) r time off = Some (n * 86400 + time - off)"
  using rule_day_denotes [OF assms, of y] by (auto simp: transition_instant_fast_def SECS_PER_DAY_def)

definition dst_rule_ok :: "dst_rule \<Rightarrow> bool" where
  "dst_rule_ok r \<longleftrightarrow> rule_ok (fst (dr_start r)) \<and> rule_ok (fst (dr_end r))"

text \<open>Whether an instant lies in the daylight saving window between two instants of a year.\<close>

definition in_window :: "int \<Rightarrow> int \<Rightarrow> int \<Rightarrow> bool" where
  "in_window s e t \<longleftrightarrow> (if s \<le> e then s \<le> t \<and> t < e else s \<le> t \<or> t < e)"

lemma evaluate_daylight_denotes:
  assumes "dst_rule_ok r" "\<bar>std\<bar> \<le> 2 ^ 31" "\<bar>t\<bar> \<le> 2 ^ 45"
  shows "\<exists>y m d S E. civil_from_days ((t + std) div 86400) = Some (y, m, d) \<and>
    rule_denotes (fst (dr_start r)) y S \<and> rule_denotes (fst (dr_end r)) y E \<and>
    evaluate_daylight r std name t =
      Some (if in_window (S * 86400 + snd (dr_start r) - std) (E * 86400 + snd (dr_end r) - dr_east r) t
            then \<lparr>zi_offset = dr_east r, zi_is_dst = True, zi_abbrev = dr_name r\<rparr>
            else \<lparr>zi_offset = std, zi_is_dst = False, zi_abbrev = name\<rparr>)"
proof -
  have local: "checked_signed 64 (t + std) = Some (t + std)"
    using assms(2,3) by (auto simp: checked_signed_def in_signed_def)
  have "\<bar>(t + std) div 86400\<bar> \<le> 780000000000" using assms(2,3) by auto
  then obtain y m d where ymd: "civil_from_days ((t + std) div 86400) = Some (y, m, d)"
    using days_from_civil_from_days by blast
  obtain S E where SE: "rule_denotes (fst (dr_start r)) y S" "rule_denotes (fst (dr_end r)) y E"
    and ST: "transition_instant_fast y (days_from_civil y 1 1) (fst (dr_start r)) (snd (dr_start r)) std =
        Some (S * 86400 + snd (dr_start r) - std)"
      "transition_instant_fast y (days_from_civil y 1 1) (fst (dr_end r)) (snd (dr_end r)) (dr_east r) =
        Some (E * 86400 + snd (dr_end r) - dr_east r)"
    using transition_instant_denotes assms(1) unfolding dst_rule_ok_def by metis
  have "evaluate_daylight r std name t =
      Some (if in_window (S * 86400 + snd (dr_start r) - std) (E * 86400 + snd (dr_end r) - dr_east r) t
            then \<lparr>zi_offset = dr_east r, zi_is_dst = True, zi_abbrev = dr_name r\<rparr>
            else \<lparr>zi_offset = std, zi_is_dst = False, zi_abbrev = name\<rparr>)"
    unfolding evaluate_daylight_def local bind.bind_lunit Let_def SECS_PER_DAY_def ymd prod.case ST in_window_def
    by simp
  then show ?thesis using ymd SE by blast
qed

section \<open>Packed days\<close>

lemma word_bits_below:
  assumes "(x :: u16) < 2 ^ k" "k < 16" "bit x n"
  shows "n < k"
proof -
  have "take_bit k x = x" using assms(1,2) by (simp add: take_bit_eq_mask less_mask_eq)
  then show ?thesis using assms(3) bit_take_bit_iff [of k x n] by simp
qed

lemma RULE_MWD_bit: "bit RULE_MWD n \<longleftrightarrow> n = 15"
proof -
  have eq: "RULE_MWD = 2 ^ 15" by (simp add: RULE_MWD_def)
  show ?thesis unfolding eq bit_exp_iff possible_bit_word by auto
qed

lemma pack_fields:
  fixes M W D :: u16
  assumes "M < 2 ^ 4" "W < 2 ^ 3" "D < 2 ^ 3"
  defines "x \<equiv> RULE_MWD OR push_bit 10 M OR push_bit 7 W OR push_bit 4 D"
  shows "drop_bit 14 x = 2" "drop_bit 10 x AND 0xF = M" "drop_bit 7 x AND 0x7 = W" "drop_bit 4 x AND 0x7 = D"
proof -
  note high = word_bits_below [OF assms(1)] word_bits_below [OF assms(2)] word_bits_below [OF assms(3)]
  have masks: "0xF = (mask 4 :: u16)" "0x7 = (mask 3 :: u16)" by (simp_all add: mask_eq_exp_minus_1)
  show "drop_bit 10 x AND 0xF = M"
    unfolding x_def masks by (rule bit_eqI) (use high in \<open>fastforce simp: bit_simps RULE_MWD_bit\<close>)
  show "drop_bit 7 x AND 0x7 = W"
    unfolding x_def masks by (rule bit_eqI) (use high in \<open>fastforce simp: bit_simps RULE_MWD_bit\<close>)
  show "drop_bit 4 x AND 0x7 = D"
    unfolding x_def masks by (rule bit_eqI) (use high in \<open>fastforce simp: bit_simps RULE_MWD_bit\<close>)
  have "drop_bit 14 x = 2 ^ 1" unfolding x_def
    by (rule bit_eqI) (use high in \<open>fastforce simp: bit_simps RULE_MWD_bit simp del: power_one_right\<close>)
  then show "drop_bit 14 x = 2" by simp
qed

lemma unpack_mwd:
  assumes "0 \<le> m" "m \<le> 12" "0 \<le> w" "w \<le> 5" "0 \<le> d" "d \<le> 6"
  shows "daylight_rule_from_packed_day (pack_day (MonthWeekDay m w d)) = MonthWeekDay m w d"
proof -
  have u: "uint (word_of_int m :: u16) = m" "uint (word_of_int w :: u16) = w" "uint (word_of_int d :: u16) = d"
    using assms by (simp_all add: unsigned_of_int take_bit_eq_mod)
  have "(word_of_int m :: u16) < 2 ^ 4" "(word_of_int w :: u16) < 2 ^ 3" "(word_of_int d :: u16) < 2 ^ 3"
    using assms u by (simp_all add: word_less_def)
  note fields = pack_fields [OF this]
  show ?thesis unfolding daylight_rule_from_packed_day_def pack_day.simps fields u by simp
qed

lemma RULE_JULIAN_bit: "bit RULE_JULIAN n \<longleftrightarrow> n = 14"
proof -
  have eq: "RULE_JULIAN = 2 ^ 14" by (simp add: RULE_JULIAN_def)
  show ?thesis unfolding eq bit_exp_iff possible_bit_word by auto
qed

lemma pack_number:
  fixes N :: u16
  assumes "N < 2 ^ 9"
  shows "drop_bit 14 (RULE_JULIAN OR N) = 1" "(RULE_JULIAN OR N) AND 0x3FFF = N"
    "drop_bit 14 (RULE_JNOLEAP OR N) = 0" "(RULE_JNOLEAP OR N) AND 0x3FFF = N"
proof -
  note high = word_bits_below [OF assms]
  have m: "0x3FFF = (mask 14 :: u16)" by (simp add: mask_eq_exp_minus_1)
  have z: "RULE_JNOLEAP = 0" by (simp add: RULE_JNOLEAP_def)
  show "(RULE_JULIAN OR N) AND 0x3FFF = N" "(RULE_JNOLEAP OR N) AND 0x3FFF = N" unfolding m z
    by (rule bit_eqI; use high in \<open>fastforce simp: bit_simps RULE_JULIAN_bit\<close>)+
  show "drop_bit 14 (RULE_JULIAN OR N) = 1" "drop_bit 14 (RULE_JNOLEAP OR N) = 0" unfolding z
    by (rule bit_eqI; use high in \<open>fastforce simp: bit_simps RULE_JULIAN_bit\<close>)+
qed

lemma unpack_pack:
  assumes "rule_ok r"
  shows "daylight_rule_from_packed_day (pack_day r) = r"
proof -
  have u: "uint (word_of_int n :: u16) = n" "(word_of_int n :: u16) < 2 ^ 9" if "0 \<le> n" "n \<le> 365" for n
    using that by (simp_all add: unsigned_of_int take_bit_eq_mod word_less_def)
  show ?thesis
  proof (cases r)
    case (MonthWeekDay m w d)
    then show ?thesis using unpack_mwd [of m w d] assms by simp
  qed (use assms u pack_number [OF u(2)] in \<open>simp_all add: daylight_rule_from_packed_day_def\<close>)
qed

lemma rule_mwd_packs: "rule_mwd m w d = pack_day (MonthWeekDay (uint m) (uint w) (uint d))"
  by (simp add: rule_mwd_def unsigned_ucast_eq)

section \<open>Properties\<close>

text \<open>
  C22: POSIX \<open>TZ\<close> strings. The parser returns exactly the values whose names have no \<open>>\<close>, whose times and
  offsets are below 168 hours either way (or one hour ahead of standard time by default) and whose day
  rules are in range; and it reads the text of such a value, as the compiler of the IANA database
  writes it, back to the value.
\<close>

theorem posix_parse_correct:
  "((\<exists>s. posix_parse s = Some tz) \<longleftrightarrow> posix_ok tz) \<and> (posix_parse (posix_text tz) = Some tz \<longleftrightarrow> posix_ok tz)"
  using posix_parse_ok posix_parse_text by blast

text \<open>
  C29: daylight saving time. At any instant within a million years of the epoch a rule in range is evaluated
  without a panic: with \<open>y\<close> the year of the instant in standard time, each of the two day rules denotes
  exactly one day of \<open>y\<close> (the \<open>w\<close>-th or the last weekday \<open>d\<close> of a month, the day that does not count
  29 February, or the day counted from zero), and daylight time is in effect from the start day's time
  on the standard clock up to the end day's time on the daylight clock, or outside that when the end is first.
\<close>

theorem posix_daylight_correct:
  assumes "dst_rule_ok r" "\<bar>std\<bar> \<le> 2 ^ 31" "\<bar>t\<bar> \<le> 2 ^ 45"
  shows "\<exists>y m d S E. civil_from_days ((t + std) div 86400) = Some (y, m, d) \<and>
    {n. rule_denotes (fst (dr_start r)) y n} = {S} \<and> {n. rule_denotes (fst (dr_end r)) y n} = {E} \<and>
    evaluate_daylight r std name t =
      Some (if in_window (S * 86400 + snd (dr_start r) - std) (E * 86400 + snd (dr_end r) - dr_east r) t
            then \<lparr>zi_offset = dr_east r, zi_is_dst = True, zi_abbrev = dr_name r\<rparr>
            else \<lparr>zi_offset = std, zi_is_dst = False, zi_abbrev = name\<rparr>)"
proof -
  have only: "{n. rule_denotes q y n} = {k}" if "rule_ok q" "rule_denotes q y k" for q y k
    using rule_denotes_unique that by blast
  show ?thesis using evaluate_daylight_denotes [OF assms, of name] only assms(1) unfolding dst_rule_ok_def by metis
qed

definition new_york :: dst_rule where
  "new_york = \<lparr>dr_name = ascii_bytes ''EDT'', dr_east = - 14400,
     dr_start = (MonthWeekDay 3 2 0, 7200), dr_end = (MonthWeekDay 11 1 0, 7200)\<rparr>"

theorem posix_daylight_correct_witness:
  "dst_rule_ok new_york \<and> map_option zi_is_dst (evaluate_daylight new_york (- 18000) [] 1720660440) = Some True \<and>
   (\<exists>y m d. civil_from_days ((1720660440 - 18000) div 86400) = Some (y, m, d) \<and>
      (\<exists>S. {n. rule_denotes (MonthWeekDay 3 2 0) y n} = {S}))"
proof -
  have ok: "dst_rule_ok new_york" by (simp add: dst_rule_ok_def new_york_def)
  have "map_option zi_is_dst (evaluate_daylight new_york (- 18000) [] 1720660440) = Some True" by code_simp
  moreover have "\<exists>y m d. civil_from_days ((1720660440 - 18000) div 86400) = Some (y, m, d) \<and>
      (\<exists>S. {n. rule_denotes (MonthWeekDay 3 2 0) y n} = {S})"
    using posix_daylight_correct [OF ok, of "- 18000" 1720660440 "[]"] by (auto simp: new_york_def)
  ultimately show ?thesis using ok by blast
qed

text \<open>
  Packed days. A day rule that the generator of the embedded database reads from a footer and packs
  into 16 bits is the rule that the library unpacks, whatever the text was.
\<close>

theorem posix_packed_day:
  assumes "posix_parse_day s = Some (r, rest)"
  shows "daylight_rule_from_packed_day (pack_day r) = r"
  by (rule unpack_pack [OF posix_parse_day_ok [OF assms]])

theorem posix_packed_day_witness:
  "posix_parse_day (ascii_bytes ''M3.2.0'') = Some (MonthWeekDay 3 2 0, []) \<and> pack_day (MonthWeekDay 3 2 0) = 0x8D00 \<and>
   daylight_rule_from_packed_day (pack_day (MonthWeekDay 3 2 0)) = MonthWeekDay 3 2 0"
proof -
  have "day_text (MonthWeekDay 3 2 0) = ascii_bytes ''M3.2.0''" by (simp add: show_nat.simps digit_byte_def)
  then have parse: "posix_parse_day (ascii_bytes ''M3.2.0'') = Some (MonthWeekDay 3 2 0, [])"
    using day_text_parse [of "MonthWeekDay 3 2 0" "[]"] by simp
  moreover have "pack_day (MonthWeekDay 3 2 0) = 0x8D00" by code_simp
  ultimately show ?thesis using posix_packed_day [OF parse] by blast
qed

end
