(* ===== verification/Zone_Table.thy ===== *)
theory Zone_Table
  imports Posix_Tz
begin

text \<open>
  What the two sources of time zone rules share: the binary searches over transition instants (the
  one of the standard library, used for the embedded database, and the loop of \<open>src/time/tzif.rs\<close>),
  and the interface \<open>transition_table\<close> that a source of rules offers to \<open>src/time/timezone.rs\<close>. The
  lemmas of the interface say which two offsets can apply to a wall-clock time.
\<close>

section \<open>Binary search\<close>

text \<open>\<open>slice::binary_search_by\<close> over the indices below \<open>sz\<close>, and \<open>partition_point\<close>.\<close>

function binary_search_loop :: "(nat \<Rightarrow> ordering) \<Rightarrow> nat \<Rightarrow> nat \<Rightarrow> nat" where
  "binary_search_loop cmp base sz =
     (if sz > 1
      then let half = sz div 2; mid = base + half
           in binary_search_loop cmp (if cmp mid = Greater then base else mid) (sz - half)
      else base)"
  by pat_completeness auto

termination
  by (relation "measure (\<lambda>(_, _, sz). sz)") auto

declare binary_search_loop.simps [simp del]

definition binary_search_by :: "(nat \<Rightarrow> ordering) \<Rightarrow> nat \<Rightarrow> (nat, nat) result" where
  "binary_search_by cmp sz =
     (if sz = 0 then Err 0
      else let base = binary_search_loop cmp 0 sz
           in if cmp base = Equal then Ok base else Err (base + (if cmp base = Less then 1 else 0)))"

definition partition_point :: "('a \<Rightarrow> bool) \<Rightarrow> 'a list \<Rightarrow> nat" where
  "partition_point p xs =
     (case binary_search_by (\<lambda>i. if p (xs ! i) then Less else Greater) (length xs) of Ok i \<Rightarrow> i | Err i \<Rightarrow> i)"

text \<open>The loop of \<open>Tzif::lookup\<close> and \<open>Tzif::nearby_offsets\<close>.\<close>

function bisect :: "(nat \<Rightarrow> bool) \<Rightarrow> nat \<Rightarrow> nat \<Rightarrow> nat" where
  "bisect le low high =
     (if low + 1 < high
      then let mid = (low + high) div 2 in if le mid then bisect le mid high else bisect le low mid
      else low)"
  by pat_completeness auto

termination
  by (relation "measure (\<lambda>(_, low, high). high - low)") auto

declare bisect.simps [simp del]

text \<open>
  Both find the last index that is not above the target, when whatever is above an index that is above
  the target is above it too.
\<close>

definition rises :: "nat \<Rightarrow> (nat \<Rightarrow> bool) \<Rightarrow> bool" where
  "rises n beyond \<longleftrightarrow> (\<forall>i j. i \<le> j \<and> j < n \<and> beyond i \<longrightarrow> beyond j)"

definition last_below :: "nat \<Rightarrow> nat \<Rightarrow> (nat \<Rightarrow> bool) \<Rightarrow> nat \<Rightarrow> bool" where
  "last_below lo hi beyond r \<longleftrightarrow>
     lo \<le> r \<and> r < hi \<and> (r = lo \<or> \<not> beyond r) \<and> (\<forall>j. r < j \<and> j < hi \<longrightarrow> beyond j)"

lemma risesD: "rises n beyond \<Longrightarrow> beyond i \<Longrightarrow> i \<le> j \<Longrightarrow> j < n \<Longrightarrow> beyond j"
  by (auto simp: rises_def)

lemma last_below_upper:
  assumes "last_below lo mid beyond r" "rises n beyond" "beyond k" "k \<le> mid" "mid \<le> hi" "hi \<le> n"
  shows "last_below lo hi beyond r"
  using assms risesD [OF assms(2,3)] unfolding last_below_def by (metis le_trans less_le_trans not_less)

lemma last_below_lower:
  "last_below mid hi beyond r \<Longrightarrow> \<not> beyond mid \<Longrightarrow> lo \<le> mid \<Longrightarrow> last_below lo hi beyond r"
  by (auto simp: last_below_def)

lemma binary_search_loop_last:
  assumes "0 < sz" "base + sz \<le> n" "rises n (\<lambda>i. cmp i = Greater)"
  shows "last_below base (base + sz) (\<lambda>i. cmp i = Greater) (binary_search_loop cmp base sz)"
  using assms
proof (induction cmp base sz rule: binary_search_loop.induct)
  case (1 cmp base sz)
  show ?case
  proof (cases "sz > 1")
    case False
    then show ?thesis using "1.prems"(1) by (auto simp: last_below_def binary_search_loop.simps [of cmp base sz])
  next
    case True
    define half where "half = sz div 2"
    have half: "half \<le> sz - half" "half < sz" "0 < half" using True by (auto simp: half_def)
    note ih = "1.IH" [OF True refl refl, folded half_def]
    show ?thesis
    proof (cases "cmp (base + half) = Greater")
      case greater: True
      then have "last_below base (base + (sz - half)) (\<lambda>i. cmp i = Greater) (binary_search_loop cmp base (sz - half))"
        using ih half "1.prems" by simp
      then have "last_below base (base + sz) (\<lambda>i. cmp i = Greater) (binary_search_loop cmp base (sz - half))"
        by (rule last_below_upper [OF _ "1.prems"(3)]) (use greater half "1.prems"(2) in auto)
      then show ?thesis using True greater by (subst binary_search_loop.simps) (simp add: half_def Let_def)
    next
      case not_greater: False
      then have "last_below (base + half) (base + sz) (\<lambda>i. cmp i = Greater) (binary_search_loop cmp (base + half) (sz - half))"
        using ih half "1.prems" by (simp add: add.assoc)
      then have "last_below base (base + sz) (\<lambda>i. cmp i = Greater) (binary_search_loop cmp (base + half) (sz - half))"
        by (rule last_below_lower) (use not_greater in auto)
      then show ?thesis using True not_greater by (subst binary_search_loop.simps) (simp add: half_def Let_def)
    qed
  qed
qed

lemma bisect_last:
  assumes "low < high" "high \<le> n" "rises n (\<lambda>i. \<not> le i)"
  shows "last_below low high (\<lambda>i. \<not> le i) (bisect le low high)"
  using assms
proof (induction le low high rule: bisect.induct)
  case (1 le low high)
  show ?case
  proof (cases "low + 1 < high")
    case False
    then show ?thesis using "1.prems"(1) by (auto simp: last_below_def bisect.simps [of le low high])
  next
    case True
    define mid where "mid = (low + high) div 2"
    have mid: "low < mid" "mid < high" using True by (auto simp: mid_def)
    show ?thesis
    proof (cases "le mid")
      case le: True
      then have "last_below mid high (\<lambda>i. \<not> le i) (bisect le mid high)"
        using "1.IH"(1) [OF True mid_def] mid "1.prems" by simp
      then have "last_below low high (\<lambda>i. \<not> le i) (bisect le mid high)"
        by (rule last_below_lower) (use le mid in auto)
      then show ?thesis using True le by (subst bisect.simps) (simp add: mid_def Let_def)
    next
      case gt: False
      then have "last_below low mid (\<lambda>i. \<not> le i) (bisect le low mid)"
        using "1.IH"(2) [OF True mid_def] mid "1.prems" by simp
      then have "last_below low high (\<lambda>i. \<not> le i) (bisect le low mid)"
        by (rule last_below_upper [OF _ "1.prems"(3)]) (use gt mid "1.prems"(2) in auto)
      then show ?thesis using True gt by (subst bisect.simps) (simp add: mid_def Let_def)
    qed
  qed
qed

lemma partition_point_takeWhile:
  assumes "rises (length xs) (\<lambda>i. \<not> p (xs ! i))"
  shows "partition_point p xs = length (takeWhile p xs)"
proof (cases "xs = []")
  case False
  define cmp where "cmp = (\<lambda>i. if p (xs ! i) then Less else Greater)"
  define r where "r = binary_search_loop cmp 0 (length xs)"
  have gr: "(\<lambda>i. cmp i = Greater) = (\<lambda>i. \<not> p (xs ! i))" by (auto simp: cmp_def)
  have r: "last_below 0 (length xs) (\<lambda>i. \<not> p (xs ! i)) r"
    using binary_search_loop_last [of "length xs" 0 "length xs" cmp] assms False by (simp add: gr r_def)
  define k where "k = r + (if p (xs ! r) then 1 else 0)"
  have "p (xs ! i)" if "i < k" for i
    using that r risesD [OF assms, of i r] by (cases "i = r") (auto simp: k_def last_below_def split: if_splits)
  moreover have "k \<le> length xs" "k < length xs \<Longrightarrow> \<not> p (xs ! k)"
    using r by (auto simp: k_def last_below_def split: if_splits)
  ultimately have "takeWhile p xs = take k xs" by (intro takeWhile_eq_take_P_nth) auto
  then have "length (takeWhile p xs) = k" using \<open>k \<le> length xs\<close> by simp
  then show ?thesis using False by (simp add: partition_point_def binary_search_by_def cmp_def [symmetric] r_def [symmetric] k_def Let_def) (simp add: cmp_def)
qed (simp add: partition_point_def binary_search_by_def)

section \<open>Offsets around a wall-clock time\<close>

definition OFFSET_LIMIT :: int where
  "OFFSET_LIMIT = 93599"

definition PROBE :: int where
  "PROBE = 2 * SECS_PER_DAY"

text \<open>The instants at which the offsets of a source are asked for, and at which arithmetic is exact.\<close>

definition instant_ok :: "int \<Rightarrow> bool" where
  "instant_ok t \<longleftrightarrow> \<bar>t\<bar> \<le> 2 ^ 44"

text \<open>
  A source of time zone rules: the transition instants in order, the offset before the first, from
  each and from the last on, the offset that is looked up (\<open>None\<close> is a panic) and the pair of offsets
  around a transition near a wall-clock time.
\<close>

locale transition_table =
  fixes ok :: "'z \<Rightarrow> bool"
    and count :: "'z \<Rightarrow> nat"
    and start_at :: "'z \<Rightarrow> nat \<Rightarrow> int"
    and kind :: "'z \<Rightarrow> nat \<Rightarrow> int"
    and initial :: "'z \<Rightarrow> int"
    and future :: "'z \<Rightarrow> int \<Rightarrow> int"
    and lookup :: "'z \<Rightarrow> int \<Rightarrow> int option"
    and nearby :: "'z \<Rightarrow> int \<Rightarrow> (int \<times> int) option option"
  assumes increasing: "ok z \<Longrightarrow> i < j \<Longrightarrow> j < count z \<Longrightarrow> start_at z i < start_at z j"
    and lookup_none: "ok z \<Longrightarrow> instant_ok t \<Longrightarrow> count z = 0 \<Longrightarrow> lookup z t = Some (future z t)"
    and lookup_first: "ok z \<Longrightarrow> instant_ok t \<Longrightarrow> 0 < count z \<Longrightarrow> t < start_at z 0 \<Longrightarrow> lookup z t = Some (initial z)"
    and lookup_between: "ok z \<Longrightarrow> instant_ok t \<Longrightarrow> Suc i < count z \<Longrightarrow> start_at z i \<le> t \<Longrightarrow> t < start_at z (Suc i) \<Longrightarrow>
      lookup z t = Some (kind z i)"
    and lookup_last: "ok z \<Longrightarrow> instant_ok t \<Longrightarrow> count z = Suc i \<Longrightarrow> start_at z i \<le> t \<Longrightarrow> lookup z t = Some (future z t)"
    and lookup_limit: "ok z \<Longrightarrow> lookup z t = Some off \<Longrightarrow> \<bar>off\<bar> \<le> OFFSET_LIMIT"
    and kind_limit: "ok z \<Longrightarrow> k < count z \<Longrightarrow> \<bar>kind z k\<bar> \<le> OFFSET_LIMIT"
    and nearby_total: "ok z \<Longrightarrow> instant_ok l \<Longrightarrow> nearby z l \<noteq> None"
    and nearby_some: "ok z \<Longrightarrow> instant_ok l \<Longrightarrow> nearby z l = Some (Some (b, a)) \<Longrightarrow>
      \<exists>k < count z. \<bar>start_at z k - l\<bar> \<le> 2 * OFFSET_LIMIT \<and>
        b = (if k = 0 then initial z else kind z (k - 1)) \<and> a = kind z k"
begin

text \<open>
  A wall-clock time is calm when at most one thing happens around it: within twice the largest
  offset there is at most one transition, and the offset changes at most there.
\<close>

definition calm :: "'z \<Rightarrow> int \<Rightarrow> bool" where
  "calm z l \<longleftrightarrow> (\<exists>T.
     (\<forall>k < count z. \<bar>start_at z k - l\<bar> \<le> 2 * OFFSET_LIMIT \<longrightarrow> start_at z k = T) \<and>
     (\<forall>t u. \<bar>t - l\<bar> \<le> 2 * OFFSET_LIMIT \<and> \<bar>u - l\<bar> \<le> 2 * OFFSET_LIMIT \<and> (t < T \<longleftrightarrow> u < T) \<longrightarrow> lookup z t = lookup z u))"

text \<open>The rule for the future agrees with the last transition at that transition.\<close>

definition settled :: "'z \<Rightarrow> bool" where
  "settled z \<longleftrightarrow> (\<forall>i. count z = Suc i \<longrightarrow> future z (start_at z i) = kind z i)"

lemma lookup_at_start:
  assumes "ok z" "settled z" "k < count z" "instant_ok (start_at z k)"
  shows "lookup z (start_at z k) = Some (kind z k)"
proof (cases "Suc k < count z")
  case True
  then show ?thesis using lookup_between [OF assms(1,4) True] increasing [OF assms(1), of k "Suc k"] by simp
next
  case False
  then have c: "count z = Suc k" using assms(3) by simp
  then show ?thesis using lookup_last [OF assms(1,4) c] assms(2) by (simp add: settled_def)
qed

lemma lookup_before_start:
  assumes "ok z" "k < count z" "instant_ok (start_at z k - 1)"
  shows "lookup z (start_at z k - 1) = Some (if k = 0 then initial z else kind z (k - 1))"
proof (cases k)
  case 0
  then show ?thesis using lookup_first [OF assms(1,3)] assms(2) by simp
next
  case (Suc j)
  then show ?thesis
    using lookup_between [OF assms(1,3), of j] increasing [OF assms(1), of j k] assms(2) by simp
qed

text \<open>Around a calm time the offset is one value up to an instant and another from there on.\<close>

lemma window_nearby:
  assumes "ok z" "settled z" "calm z l" "\<bar>l\<bar> \<le> 2 ^ 43" "nearby z l = Some (Some (b, a))"
  shows "\<exists>T. \<forall>t. \<bar>t - l\<bar> \<le> 2 * OFFSET_LIMIT \<longrightarrow> lookup z t = Some (if t < T then b else a)"
proof -
  have in_range: "instant_ok t" if "\<bar>t - l\<bar> \<le> 2 * OFFSET_LIMIT" for t
    using that assms(4) by (auto simp: instant_ok_def OFFSET_LIMIT_def)
  have "instant_ok l" using in_range [of l] by (simp add: OFFSET_LIMIT_def)
  from nearby_some [OF assms(1) this assms(5)] obtain k where k: "k < count z" "\<bar>start_at z k - l\<bar> \<le> 2 * OFFSET_LIMIT"
    and b: "b = (if k = 0 then initial z else kind z (k - 1))" and a: "a = kind z k" by blast
  from assms(3) k have same: "lookup z t = lookup z u"
    if "\<bar>t - l\<bar> \<le> 2 * OFFSET_LIMIT" "\<bar>u - l\<bar> \<le> 2 * OFFSET_LIMIT" "t < start_at z k \<longleftrightarrow> u < start_at z k" for t u
    using that unfolding calm_def by metis
  have "lookup z t = Some (if t < start_at z k then b else a)" if t: "\<bar>t - l\<bar> \<le> 2 * OFFSET_LIMIT" for t
  proof (cases "t < start_at z k")
    case True
    then have near: "\<bar>start_at z k - 1 - l\<bar> \<le> 2 * OFFSET_LIMIT" using t k(2) by linarith
    then show ?thesis using same [OF t near] lookup_before_start [OF assms(1) k(1) in_range [OF near]] True b by simp
  next
    case False
    then show ?thesis using same [OF t k(2)] lookup_at_start [OF assms(1,2) k(1) in_range [OF k(2)]] a by simp
  qed
  then show ?thesis by blast
qed

lemma window_probe:
  assumes "calm z l" "lookup z (l - PROBE) = Some b" "lookup z (l + PROBE) = Some a"
  shows "\<exists>T. \<forall>t. \<bar>t - l\<bar> \<le> OFFSET_LIMIT \<longrightarrow> lookup z t = Some (if t < T then b else a)"
proof -
  from assms(1) obtain T where same: "lookup z t = lookup z u"
    if "\<bar>t - l\<bar> \<le> 2 * OFFSET_LIMIT" "\<bar>u - l\<bar> \<le> 2 * OFFSET_LIMIT" "t < T \<longleftrightarrow> u < T" for t u
    unfolding calm_def by metis
  have "lookup z t = Some (if t < T then b else a)" if "\<bar>t - l\<bar> \<le> OFFSET_LIMIT" for t
    using that same [of t "l - PROBE"] same [of t "l + PROBE"] assms(2,3)
    by (auto simp: OFFSET_LIMIT_def PROBE_def SECS_PER_DAY_def)
  then show ?thesis by blast
qed

lemma lookup_total:
  assumes "ok z" "instant_ok t"
  shows "\<exists>off. lookup z t = Some off"
proof (cases "count z")
  case 0
  then show ?thesis using lookup_none assms by blast
next
  case (Suc n)
  show ?thesis
  proof (cases "t < start_at z 0")
    case False
    define i where "i = (GREATEST i. i \<le> n \<and> start_at z i \<le> t)"
    have "i \<le> n \<and> start_at z i \<le> t"
      unfolding i_def by (rule GreatestI_nat [of _ 0 n]) (use False in auto)
    moreover have "\<not> start_at z (Suc i) \<le> t" if "Suc i \<le> n"
      using Greatest_le_nat [of "\<lambda>i. i \<le> n \<and> start_at z i \<le> t" "Suc i" n] that by (auto simp: i_def)
    ultimately show ?thesis using lookup_between [OF assms, of i] lookup_last [OF assms, of i] Suc by (cases "i = n") auto
  qed (use lookup_first assms Suc in auto)
qed

lemma nearby_limit:
  assumes "ok z" "\<bar>l\<bar> \<le> 2 ^ 43" "nearby z l = Some (Some (b, a))"
  shows "\<bar>b\<bar> \<le> OFFSET_LIMIT" "\<bar>a\<bar> \<le> OFFSET_LIMIT"
proof -
  have "instant_ok l" using assms(2) by (simp add: instant_ok_def)
  from nearby_some [OF assms(1) this assms(3)] obtain k where k: "k < count z" "\<bar>start_at z k - l\<bar> \<le> 2 * OFFSET_LIMIT"
    "b = (if k = 0 then initial z else kind z (k - 1))" "a = kind z k" by blast
  have "instant_ok (start_at z k - 1)" using k(2) assms(2) by (auto simp: instant_ok_def OFFSET_LIMIT_def)
  then show "\<bar>b\<bar> \<le> OFFSET_LIMIT" "\<bar>a\<bar> \<le> OFFSET_LIMIT"
    using lookup_limit [OF assms(1) lookup_before_start [OF assms(1) k(1)]] kind_limit [OF assms(1) k(1)] k(3,4) by simp_all
qed

lemma window_candidates:
  assumes "ok z" "settled z" "calm z l" "\<bar>l\<bar> \<le> 2 ^ 43"
  shows "\<exists>b a T.
    (nearby z l = Some (Some (b, a)) \<or>
     (nearby z l = Some None \<and> lookup z (l - PROBE) = Some b \<and> lookup z (l + PROBE) = Some a)) \<and>
    (\<forall>t. \<bar>t - l\<bar> \<le> OFFSET_LIMIT \<longrightarrow> lookup z t = Some (if t < T then b else a)) \<and>
    \<bar>a\<bar> \<le> OFFSET_LIMIT \<and> \<bar>b\<bar> \<le> OFFSET_LIMIT"
proof -
  have near: "instant_ok t" if "\<bar>t - l\<bar> \<le> 2 * OFFSET_LIMIT" for t
    using that assms(4) by (auto simp: instant_ok_def OFFSET_LIMIT_def)
  have probe: "\<bar>l - PROBE - l\<bar> \<le> 2 * OFFSET_LIMIT" "\<bar>l + PROBE - l\<bar> \<le> 2 * OFFSET_LIMIT" "\<bar>l - l\<bar> \<le> 2 * OFFSET_LIMIT"
    by (simp_all add: PROBE_def SECS_PER_DAY_def OFFSET_LIMIT_def)
  obtain r where r: "nearby z l = Some r" using nearby_total [OF assms(1) near [OF probe(3)]] by blast
  show ?thesis
  proof (cases r)
    case (Some p)
    obtain b a where p: "p = (b, a)" by (cases p)
    then obtain T where T: "\<And>t. \<bar>t - l\<bar> \<le> 2 * OFFSET_LIMIT \<Longrightarrow> lookup z t = Some (if t < T then b else a)"
      using window_nearby [OF assms, of b a] r Some by blast
    have "\<bar>a\<bar> \<le> OFFSET_LIMIT" "\<bar>b\<bar> \<le> OFFSET_LIMIT"
      using nearby_limit [OF assms(1,4), of b a] r Some p by simp_all
    moreover have "lookup z t = Some (if t < T then b else a)" if "\<bar>t - l\<bar> \<le> OFFSET_LIMIT" for t
      using that by (intro T) (simp add: OFFSET_LIMIT_def)
    ultimately show ?thesis using r Some p by blast
  next
    case None
    obtain b a where ba: "lookup z (l - PROBE) = Some b" "lookup z (l + PROBE) = Some a"
      using lookup_total [OF assms(1) near [OF probe(1)]] lookup_total [OF assms(1) near [OF probe(2)]] by blast
    then show ?thesis using window_probe [OF assms(3) ba] lookup_limit [OF assms(1)] r None by blast
  qed
qed

text \<open>
  When the transitions are further apart than the window and nothing changes after the last one,
  every time is calm.
\<close>

lemma lookup_same:
  assumes "ok z" "instant_ok t" "instant_ok u" "t \<le> u" "\<And>k. k < count z \<Longrightarrow> start_at z k \<le> t \<or> u < start_at z k"
    "\<And>t. future z t = f"
  shows "lookup z t = lookup z u"
proof (cases "\<exists>k < count z. start_at z k \<le> t")
  case False
  then have "u < start_at z k" if "k < count z" for k using assms(5) that by blast
  then show ?thesis using False assms(4,6) lookup_none [OF assms(1)] lookup_first [OF assms(1)] assms(2,3)
    by (cases "count z = 0") fastforce+
next
  case True
  define i where "i = (GREATEST i. i < count z \<and> start_at z i \<le> t)"
  have i: "i < count z \<and> start_at z i \<le> t"
    unfolding i_def using True by (metis (mono_tags, lifting) GreatestI_ex_nat less_imp_le_nat)
  have nxt: "u < start_at z (Suc i)" if "Suc i < count z"
  proof (rule ccontr)
    assume "\<not> u < start_at z (Suc i)"
    then have "start_at z (Suc i) \<le> t" using assms(5) that by blast
    then have "Suc i \<le> i" unfolding i_def using that by (intro Greatest_le_nat [of _ _ "count z"]) (auto simp: i_def)
    then show False by simp
  qed
  show ?thesis
  proof (cases "Suc i < count z")
    case True
    then show ?thesis using lookup_between [OF assms(1)] i nxt assms(2-4) by (metis le_less_trans order_trans)
  next
    case False
    then have "count z = Suc i" using i by simp
    then show ?thesis using lookup_last [OF assms(1)] i assms(2-4,6) by (metis order_trans)
  qed
qed

lemma spaced_calm:
  assumes "ok z" "\<And>i j. i < j \<Longrightarrow> j < count z \<Longrightarrow> start_at z j - start_at z i > 4 * OFFSET_LIMIT"
    "\<And>t. future z t = f" "\<bar>l\<bar> \<le> 2 ^ 43"
  shows "calm z l"
proof -
  have in_range: "instant_ok t" if "\<bar>t - l\<bar> \<le> 2 * OFFSET_LIMIT" for t
    using that assms(4) by (auto simp: instant_ok_def OFFSET_LIMIT_def)
  define near where "near k \<longleftrightarrow> k < count z \<and> \<bar>start_at z k - l\<bar> \<le> 2 * OFFSET_LIMIT" for k
  define T where "T = (if \<exists>k. near k then start_at z (SOME k. near k) else l + 2 * OFFSET_LIMIT + 1)"
  have only: "start_at z k = T" if "near k" for k
  proof -
    have "near (SOME k. near k)" using that by (rule someI)
    then have "(SOME k. near k) = k"
      using that assms(2) [of k "SOME k. near k"] assms(2) [of "SOME k. near k" k] unfolding near_def by linarith
    then show ?thesis using that by (auto simp: T_def)
  qed
  have same: "lookup z t = lookup z u" if "\<bar>t - l\<bar> \<le> 2 * OFFSET_LIMIT" "\<bar>u - l\<bar> \<le> 2 * OFFSET_LIMIT" "t < T \<longleftrightarrow> u < T" "t \<le> u" for t u
  proof (rule lookup_same [OF assms(1) in_range [OF that(1)] in_range [OF that(2)] that(4)])
    show "start_at z k \<le> t \<or> u < start_at z k" if "k < count z" for k
    proof (rule ccontr)
      assume "\<not> (start_at z k \<le> t \<or> u < start_at z k)"
      then have k: "t < start_at z k" "start_at z k \<le> u" by auto
      have "\<bar>start_at z k - l\<bar> \<le> 2 * OFFSET_LIMIT" using k \<open>\<bar>t - l\<bar> \<le> _\<close> \<open>\<bar>u - l\<bar> \<le> _\<close> by linarith
      then have "near k" using that by (simp add: near_def)
      from only [OF this] show False using k \<open>t < T \<longleftrightarrow> u < T\<close> by simp
    qed
    show "future z t = f" for t by (rule assms(3))
  qed
  have "lookup z t = lookup z u" if "\<bar>t - l\<bar> \<le> 2 * OFFSET_LIMIT" "\<bar>u - l\<bar> \<le> 2 * OFFSET_LIMIT" "t < T \<longleftrightarrow> u < T" for t u
  proof (cases "t \<le> u")
    case False
    then show ?thesis using same [OF that(2,1)] that(3) by (metis linorder_le_cases)
  qed (rule same [OF that])
  then show ?thesis using only unfolding calm_def near_def by blast
qed

end

text \<open>
  With one offset up to an instant and another from it on, the instants that show a wall-clock time
  are the candidates that check out.
\<close>

lemma wall_instants:
  assumes "\<And>t off. lookup t = Some off \<Longrightarrow> \<bar>off\<bar> \<le> OFFSET_LIMIT"
    and win: "\<And>t. \<bar>t - l\<bar> \<le> OFFSET_LIMIT \<Longrightarrow> lookup t = Some (if t < T then b else a)"
    and ab: "\<bar>a\<bar> \<le> OFFSET_LIMIT" "\<bar>b\<bar> \<le> OFFSET_LIMIT"
  shows "{i. lookup i = Some (l - i)} =
    (if l - b < T then {l - b} else {}) \<union> (if l - a < T then {} else {l - a})"
proof -
  have near: "l - i = (if i < T then b else a)" if "lookup i = Some (l - i)" for i
  proof -
    have "lookup i = Some (if i < T then b else a)" using assms(1) [OF that] by (intro win) linarith
    then show ?thesis using that by simp
  qed
  have "lookup (l - b) = Some (if l - b < T then b else a)" "lookup (l - a) = Some (if l - a < T then b else a)"
    using ab by (intro win; linarith)+
  then have "lookup i = Some (l - i) \<longleftrightarrow> (i = l - b \<and> l - b < T) \<or> (i = l - a \<and> \<not> l - a < T)" for i
    using near [of i] by (cases "i < T") auto
  then show ?thesis by auto
qed

end
