(* ===== verification/Tzif.thy ===== *)
theory Tzif
  imports Zone_Table
begin

text \<open>
  The reader of TZif files (\<open>src/time/tzif.rs\<close>, RFC 8536). A file is its list of bytes, \<open>usize\<close> is a
  natural number with checked arithmetic. \<open>parse\<close> returns the \<open>Option\<close> of the source; in \<open>lookup\<close> and
  \<open>nearby_offsets\<close> an outer \<open>None\<close> is a panic and the inner option is that of the source.
\<close>

section \<open>Reading\<close>

text \<open>\<open>get\<close> of a range of a slice.\<close>

definition get_range :: "'a list \<Rightarrow> nat \<Rightarrow> nat \<Rightarrow> 'a list option" where
  "get_range xs a b = (if a \<le> b \<and> b \<le> length xs then Some (take (b - a) (drop a xs)) else None)"

record tz_header =
  h_leapcnt :: nat
  h_timecnt :: nat
  h_typecnt :: nat
  h_charcnt :: nat
  h_isstdcnt :: nat
  h_isutcnt :: nat

definition block_len :: "tz_header \<Rightarrow> nat \<Rightarrow> nat option" where
  "block_len self time_size =
     do {
       times \<leftarrow> checked_mul (h_timecnt self) time_size;
       n \<leftarrow> checked_add times (h_timecnt self);
       types \<leftarrow> checked_mul (h_typecnt self) 6;
       n \<leftarrow> checked_add n types;
       n \<leftarrow> checked_add n (h_charcnt self);
       leap_size \<leftarrow> checked_add time_size 4;
       leaps \<leftarrow> checked_mul (h_leapcnt self) leap_size;
       n \<leftarrow> checked_add n leaps;
       n \<leftarrow> checked_add n (h_isstdcnt self);
       checked_add n (h_isutcnt self)
     }"

record tzif =
  tz_time_size :: nat
  tz_timecnt :: nat
  tz_typecnt :: nat
  tz_transitions :: "byte list"
  tz_transition_types :: "byte list"
  tz_types :: "byte list"
  tz_designations :: "byte list"
  tz_footer :: "byte list"

text \<open>\<open>from_be_bytes\<close> of an unsigned integer.\<close>

definition be_val :: "byte list \<Rightarrow> int" where
  "be_val bytes = foldl (\<lambda>acc b. acc * 256 + uint b) 0 bytes"

definition be_u32 :: "byte list \<Rightarrow> nat \<Rightarrow> nat option" where
  "be_u32 data offset = do { end \<leftarrow> checked_add offset 4; map_option (\<lambda>bytes. nat (be_val bytes)) (get_range data offset end) }"

definition be_i32 :: "byte list \<Rightarrow> nat \<Rightarrow> int option" where
  "be_i32 data offset = map_option (\<lambda>v. as_signed 32 (int v)) (be_u32 data offset)"

definition be_i64 :: "byte list \<Rightarrow> nat \<Rightarrow> int option" where
  "be_i64 data offset =
     do { end \<leftarrow> checked_add offset 8; map_option (\<lambda>bytes. as_signed 64 (be_val bytes)) (get_range data offset end) }"

definition read_header :: "byte list \<Rightarrow> nat \<Rightarrow> tz_header option" where
  "read_header data offset =
     do {
       isut \<leftarrow> Option.bind (checked_add offset 20) (be_u32 data);
       isstd \<leftarrow> Option.bind (checked_add offset 24) (be_u32 data);
       leap \<leftarrow> Option.bind (checked_add offset 28) (be_u32 data);
       time \<leftarrow> Option.bind (checked_add offset 32) (be_u32 data);
       typ \<leftarrow> Option.bind (checked_add offset 36) (be_u32 data);
       chars \<leftarrow> Option.bind (checked_add offset 40) (be_u32 data);
       Some \<lparr>h_leapcnt = leap, h_timecnt = time, h_typecnt = typ, h_charcnt = chars, h_isstdcnt = isstd, h_isutcnt = isut\<rparr>
     }"

text \<open>One transition instant, and the three validations of \<open>parse\<close>: the instants, the type indices, the designations.\<close>

definition transition_value :: "nat \<Rightarrow> byte list \<Rightarrow> nat \<Rightarrow> int option" where
  "transition_value time_size transitions index =
     do {
       offset \<leftarrow> checked_mul index time_size;
       if time_size = 8 then be_i64 transitions offset else be_i32 transitions offset
     }"

fun transitions_increase :: "nat \<Rightarrow> byte list \<Rightarrow> nat list \<Rightarrow> int \<Rightarrow> bool" where
  "transitions_increase time_size transitions [] previous \<longleftrightarrow> True"
| "transitions_increase time_size transitions (index # rest) previous \<longleftrightarrow>
     (case transition_value time_size transitions index of
        None \<Rightarrow> False
      | Some v \<Rightarrow> if v \<le> previous then False else transitions_increase time_size transitions rest v)"

definition designation_ok :: "byte list \<Rightarrow> byte list \<Rightarrow> nat \<Rightarrow> bool" where
  "designation_ok types designations index \<longleftrightarrow>
     (case do { base \<leftarrow> checked_mul index 6; at \<leftarrow> checked_add base 5; d \<leftarrow> slice_get types at;
               get_range designations (unat d) (length designations) } of
        None \<Rightarrow> False
      | Some rest \<Rightarrow> 0 \<in> set rest)"

definition TZIF_MAGIC :: "byte list" where
  "TZIF_MAGIC = ascii_bytes ''TZif''"

text \<open>The choice of the block: the second one, with 64-bit times, from version 2 on.\<close>

definition tzif_block :: "byte list \<Rightarrow> (nat \<times> nat \<times> bool) option" where
  "tzif_block data =
     (if data ! 4 \<ge> ascii CHR ''2''
      then do {
        first \<leftarrow> read_header data 0;
        len \<leftarrow> block_len first 4;
        first_end \<leftarrow> checked_add 44 len;
        need \<leftarrow> checked_add first_end 44;
        if length data < need then None
        else if take 4 (drop first_end data) \<noteq> TZIF_MAGIC then None
        else Some (first_end, 8, True)
      }
      else Some (0, 4, False))"

definition tzif_footer :: "byte list \<Rightarrow> nat \<Rightarrow> bool \<Rightarrow> byte list option" where
  "tzif_footer data block_end v2 =
     (if v2
      then do {
        rest \<leftarrow> get_range data block_end (length data);
        content \<leftarrow> strip_byte 10 rest;
        end \<leftarrow> find_pos (\<lambda>b. b = 10) content;
        Some (take end content)
      }
      else Some [])"

definition tzif_parse :: "byte list \<Rightarrow> tzif option" where
  "tzif_parse data =
     (if length data < 44 \<or> take 4 data \<noteq> TZIF_MAGIC then None
      else do {
        (header_offset, time_size, v2) \<leftarrow> tzif_block data;
        header \<leftarrow> read_header data header_offset;
        if h_typecnt header = 0 \<or> h_charcnt header = 0 then None
        else do {
          block_offset \<leftarrow> checked_add header_offset 44;
          len \<leftarrow> block_len header time_size;
          block_end \<leftarrow> checked_add block_offset len;
          if length data < block_end then None
          else do {
            let block = take (block_end - block_offset) (drop block_offset data);
            times \<leftarrow> checked_mul (h_timecnt header) time_size;
            transitions \<leftarrow> get_range block 0 times;
            let cursor = times;
            end \<leftarrow> checked_add cursor (h_timecnt header);
            transition_types \<leftarrow> get_range block cursor end;
            let cursor = cursor + h_timecnt header;
            six \<leftarrow> checked_mul (h_typecnt header) 6;
            end \<leftarrow> checked_add cursor six;
            types \<leftarrow> get_range block cursor end;
            let cursor = cursor + six;
            end \<leftarrow> checked_add cursor (h_charcnt header);
            designations \<leftarrow> get_range block cursor end;
            if \<not> transitions_increase time_size transitions [0..<h_timecnt header] (- (2 ^ 63)) then None
            else if \<not> list_all (\<lambda>t. unat t < h_typecnt header) transition_types then None
            else if \<not> list_all (designation_ok types designations) [0..<h_typecnt header] then None
            else do {
              footer \<leftarrow> tzif_footer data block_end v2;
              Some \<lparr>tz_time_size = time_size, tz_timecnt = h_timecnt header, tz_typecnt = h_typecnt header,
                tz_transitions = transitions, tz_transition_types = transition_types, tz_types = types,
                tz_designations = designations, tz_footer = footer\<rparr>
            }
          }
        }
      })"

section \<open>Looking up\<close>

definition transition_at :: "tzif \<Rightarrow> nat \<Rightarrow> int" where
  "transition_at self index =
     (let offset = index * tz_time_size self
      in if tz_time_size self = 8 then (case be_i64 (tz_transitions self) offset of Some v \<Rightarrow> v | None \<Rightarrow> - (2 ^ 63))
         else (case be_i32 (tz_transitions self) offset of Some v \<Rightarrow> v | None \<Rightarrow> - (2 ^ 31)))"

definition tzif_abbrev :: "tzif \<Rightarrow> nat \<Rightarrow> byte list option" where
  "tzif_abbrev self index =
     do {
       bytes \<leftarrow> get_range (tz_designations self) index (length (tz_designations self));
       end \<leftarrow> find_pos (\<lambda>b. b = 0) bytes;
       Some (case from_utf8 (take end bytes) of Ok s \<Rightarrow> s | Err _ \<Rightarrow> [])
     }"

definition info_for_type :: "tzif \<Rightarrow> nat \<Rightarrow> zone_info option" where
  "info_for_type self index =
     (if index \<ge> tz_typecnt self then None
      else do {
        base \<leftarrow> checked_mul index 6;
        offset \<leftarrow> be_i32 (tz_types self) base;
        at \<leftarrow> checked_add base 4;
        dst \<leftarrow> slice_get (tz_types self) at;
        at \<leftarrow> checked_add base 5;
        designation \<leftarrow> slice_get (tz_types self) at;
        abbrev \<leftarrow> tzif_abbrev self (unat designation);
        Some \<lparr>zi_offset = offset, zi_is_dst = (dst \<noteq> 0), zi_abbrev = abbrev\<rparr>
      })"

text \<open>The distance of a transition to a wall-clock time; the subtraction or \<open>abs\<close> may overflow.\<close>

definition distance_to :: "int \<Rightarrow> int \<Rightarrow> int option" where
  "distance_to start local = do { diff \<leftarrow> checked_signed 64 (start - local); checked_signed 64 \<bar>diff\<bar> }"

definition nearby_offsets :: "tzif \<Rightarrow> int \<Rightarrow> (int \<times> int) option option" where
  "nearby_offsets self local =
     (if tz_timecnt self = 0 then Some None
      else do {
        let low = bisect (\<lambda>i. transition_at self i \<le> local) 0 (tz_timecnt self);
        best_distance \<leftarrow> distance_to (transition_at self low) local;
        (best, best_distance) \<leftarrow>
          (if low + 1 < tz_timecnt self
           then do {
             distance \<leftarrow> distance_to (transition_at self (low + 1)) local;
             Some (if distance < best_distance then (low + 1, distance) else (low, best_distance))
           }
           else Some (low, best_distance));
        if best_distance > 2 * OFFSET_LIMIT then Some None
        else Some (do {
          t \<leftarrow> slice_get (tz_transition_types self) best;
          aft \<leftarrow> info_for_type self (unat t);
          before \<leftarrow>
            (if best = 0 then info_for_type self 0
             else do { t \<leftarrow> slice_get (tz_transition_types self) (best - 1); info_for_type self (unat t) });
          Some (zi_offset before, zi_offset aft)
        })
      })"

definition tzif_lookup :: "tzif \<Rightarrow> int \<Rightarrow> zone_info option option" where
  "tzif_lookup self secs =
     (let footer = (if tz_footer self = [] then Some None
                    else case from_utf8 (tz_footer self) of Ok s \<Rightarrow> Some (posix_parse s) | Err _ \<Rightarrow> None)
      in case footer of
           None \<Rightarrow> Some None
         | Some footer_dst \<Rightarrow>
             if tz_timecnt self = 0 then
               (case footer_dst of
                  Some dst \<Rightarrow> map_option Some (posix_lookup dst secs)
                | None \<Rightarrow> Some (info_for_type self 0))
             else if secs < transition_at self 0 then Some (info_for_type self 0)
             else
               let low = bisect (\<lambda>i. transition_at self i \<le> secs) 0 (tz_timecnt self)
               in case (if low = tz_timecnt self - 1 then footer_dst else None) of
                    Some dst \<Rightarrow> map_option Some (posix_lookup dst secs)
                  | None \<Rightarrow> Some (do { t \<leftarrow> slice_get (tz_transition_types self) low; info_for_type self (unat t) }))"

section \<open>What a parsed file has\<close>

definition tzif_valid :: "tzif \<Rightarrow> bool" where
  "tzif_valid z \<longleftrightarrow> (tz_time_size z = 4 \<or> tz_time_size z = 8) \<and>
     length (tz_transitions z) = tz_timecnt z * tz_time_size z \<and> length (tz_transitions z) < usize_limit \<and>
     length (tz_transition_types z) = tz_timecnt z \<and> length (tz_types z) = tz_typecnt z * 6 \<and>
     length (tz_types z) < usize_limit \<and> 0 < tz_typecnt z \<and>
     list_all (\<lambda>t. unat t < tz_typecnt z) (tz_transition_types z) \<and>
     list_all (designation_ok (tz_types z) (tz_designations z)) [0..<tz_typecnt z] \<and>
     sorted_wrt (<) (map (transition_at z) [0..<tz_timecnt z])"

lemma get_range_Some: "get_range xs a b = Some ys \<longleftrightarrow> a \<le> b \<and> b \<le> length xs \<and> ys = take (b - a) (drop a xs)"
  by (auto simp: get_range_def)

lemma get_range_length: "get_range xs a b = Some ys \<Longrightarrow> length ys = b - a"
  by (auto simp: get_range_Some)

lemma be_i32_in: "i + 4 \<le> length xs \<Longrightarrow> length xs < usize_limit \<Longrightarrow> \<exists>v. be_i32 xs i = Some v"
  by (auto simp: be_i32_def be_u32_def checked_add_def get_range_def)

lemma be_i64_in: "i + 8 \<le> length xs \<Longrightarrow> length xs < usize_limit \<Longrightarrow> \<exists>v. be_i64 xs i = Some v"
  by (auto simp: be_i64_def checked_add_def get_range_def)

lemma index_room: "i < n \<Longrightarrow> i * k + k \<le> n * (k :: nat)"
proof -
  assume "i < n"
  then have "Suc i * k \<le> n * k" by (intro mult_right_mono) auto
  then show ?thesis by (simp add: add.commute)
qed

lemma transition_value_at:
  assumes "tz_time_size z = 4 \<or> tz_time_size z = 8" "length (tz_transitions z) = tz_timecnt z * tz_time_size z"
    "length (tz_transitions z) < usize_limit" "i < tz_timecnt z"
  shows "transition_value (tz_time_size z) (tz_transitions z) i = Some (transition_at z i)"
proof -
  have room: "i * tz_time_size z + tz_time_size z \<le> length (tz_transitions z)"
    using index_room [OF assms(4), of "tz_time_size z"] assms(2) by simp
  then show ?thesis using assms(1,3) be_i64_in [of "i * 8" "tz_transitions z"] be_i32_in [of "i * 4" "tz_transitions z"]
    by (auto simp: transition_value_def transition_at_def Let_def checked_mul_def)
qed

lemma transitions_increase_sorted:
  "transitions_increase ts tr xs prev \<Longrightarrow>
     sorted_wrt (<) (map (\<lambda>i. the (transition_value ts tr i)) xs) \<and> (\<forall>i \<in> set xs. prev < the (transition_value ts tr i))"
  by (induction xs arbitrary: prev) (fastforce split: option.splits if_splits)+

lemma tzif_parse_valid:
  assumes "tzif_parse data = Some z"
  shows "tzif_valid z"
proof -
  from assms obtain ho ts v2 header where blk: "tzif_block data = Some (ho, ts, v2)"
    and hdr: "read_header data ho = Some header" "h_typecnt header \<noteq> 0"
    unfolding tzif_parse_def by (auto simp: bind_eq_Some_conv split: if_splits)
  from assms obtain len bo be where len: "checked_add ho 44 = Some bo" "block_len header ts = Some len"
    "checked_add bo len = Some be"
    unfolding tzif_parse_def blk by (auto simp: bind_eq_Some_conv hdr split: if_splits)
  have ts: "ts = 4 \<or> ts = 8" using blk by (auto simp: tzif_block_def bind_eq_Some_conv split: if_splits)
  define block where "block = take (be - bo) (drop bo data)"
  from assms obtain times e1 six e2 e3 tr tt ty de foot where
    parts: "checked_mul (h_timecnt header) ts = Some times" "get_range block 0 times = Some tr"
      "checked_add times (h_timecnt header) = Some e1" "get_range block times e1 = Some tt"
      "checked_mul (h_typecnt header) 6 = Some six" "checked_add (times + h_timecnt header) six = Some e2"
      "get_range block (times + h_timecnt header) e2 = Some ty" and
    checks: "transitions_increase ts tr [0..<h_timecnt header] (- (2 ^ 63))"
      "list_all (\<lambda>t. unat t < h_typecnt header) tt" "list_all (designation_ok ty de) [0..<h_typecnt header]" and
    z: "z = \<lparr>tz_time_size = ts, tz_timecnt = h_timecnt header, tz_typecnt = h_typecnt header,
      tz_transitions = tr, tz_transition_types = tt, tz_types = ty, tz_designations = de, tz_footer = foot\<rparr>"
    unfolding tzif_parse_def blk bind.bind_lunit prod.case hdr(1) len block_def [symmetric] Let_def
    by (auto simp: bind_eq_Some_conv split: if_splits)
  have lens: "length tr = h_timecnt header * ts" "length tr < usize_limit" "length tt = h_timecnt header"
    "length ty = h_typecnt header * 6" "length ty < usize_limit"
    using parts get_range_length [OF parts(2)] get_range_length [OF parts(4)] get_range_length [OF parts(7)] by auto
  have vals: "transition_value ts tr i = Some (transition_at z i)" if "i < h_timecnt header" for i
    using transition_value_at [of z i] that ts lens by (simp add: z)
  have "map (\<lambda>i. the (transition_value ts tr i)) [0..<h_timecnt header] = map (transition_at z) [0..<h_timecnt header]"
    using vals by simp
  then have "sorted_wrt (<) (map (transition_at z) [0..<h_timecnt header])"
    using transitions_increase_sorted [OF checks(1)] by (simp only:)
  then show ?thesis using ts lens checks(2,3) hdr(2) by (simp add: tzif_valid_def z)
qed

lemma tzif_valid_increasing: "tzif_valid z \<Longrightarrow> i < j \<Longrightarrow> j < tz_timecnt z \<Longrightarrow> transition_at z i < transition_at z j"
  by (auto simp: tzif_valid_def sorted_wrt_iff_nth_less)

lemma tzif_valid_rises: "tzif_valid z \<Longrightarrow> rises (tz_timecnt z) (\<lambda>i. \<not> transition_at z i \<le> t)"
  unfolding rises_def by (metis tzif_valid_increasing le_neq_implies_less less_le_trans not_le order_less_imp_le)

lemma find_zero: "0 \<in> set xs \<Longrightarrow> \<exists>i. find_pos (\<lambda>b. b = (0 :: byte)) xs = Some i"
  by (auto simp: find_pos_takeWhile)

lemma info_for_type_total:
  assumes "tzif_valid z" "i < tz_typecnt z"
  shows "\<exists>info. info_for_type z i = Some info"
proof -
  have types: "length (tz_types z) = tz_typecnt z * 6" "length (tz_types z) < usize_limit"
    and "designation_ok (tz_types z) (tz_designations z) i"
    using assms by (auto simp: tzif_valid_def list_all_iff)
  then obtain d rest where d: "slice_get (tz_types z) (i * 6 + 5) = Some d"
    "get_range (tz_designations z) (unat d) (length (tz_designations z)) = Some rest" "0 \<in> set rest"
    by (auto simp: designation_ok_def bind_eq_Some_conv split: option.splits)
  have room: "i * 6 + 6 \<le> length (tz_types z)" using index_room [OF assms(2), of 6] types(1) by simp
  then obtain off where "be_i32 (tz_types z) (i * 6) = Some off" using be_i32_in [of "i * 6" "tz_types z"] types(2) by auto
  moreover have "\<exists>a. tzif_abbrev z (unat d) = Some a" using d(2) find_zero [OF d(3)] by (auto simp: tzif_abbrev_def)
  moreover have "slice_get (tz_types z) (i * 6 + 4) = Some (tz_types z ! (i * 6 + 4))" using room by simp
  ultimately show ?thesis using d(1) room types(2) assms(2)
    by (auto simp: info_for_type_def checked_mul_def checked_add_def)
qed

lemma posix_ok_dst: "posix_ok tz \<Longrightarrow> pt_dst tz = Some r \<Longrightarrow> dst_rule_ok r"
  by (simp add: posix_ok_def dst_rule_ok_def)

lemma posix_lookup_total:
  assumes "posix_ok tz" "instant_ok t"
  shows "\<exists>info. posix_lookup tz t = Some info"
proof (cases "pt_dst tz")
  case (Some r)
  have "\<bar>pt_std_east tz\<bar> \<le> 2 ^ 31" "\<bar>t\<bar> \<le> 2 ^ 45" using assms by (auto simp: posix_ok_def hms_ok_def instant_ok_def)
  from evaluate_daylight_denotes [OF posix_ok_dst [OF assms(1) Some] this, of "pt_std_name tz"]
  obtain info where "evaluate_daylight r (pt_std_east tz) (pt_std_name tz) t = Some info" by blast
  with Some show ?thesis by (simp add: posix_lookup_def)
qed (simp add: posix_lookup_def)

lemma posix_lookup_offset:
  "posix_lookup tz t = Some info \<Longrightarrow>
     zi_offset info = pt_std_east tz \<or> (\<exists>r. pt_dst tz = Some r \<and> zi_offset info = dr_east r)"
  by (auto simp: posix_lookup_def evaluate_daylight_def bind_eq_Some_conv Let_def split: option.splits if_splits)

text \<open>The footer that governs the future, when it can be read.\<close>

definition footer_rule :: "tzif \<Rightarrow> posix_tz option" where
  "footer_rule z = (if tz_footer z = [] then None else posix_parse (tz_footer z))"

definition footer_readable :: "tzif \<Rightarrow> bool" where
  "footer_readable z \<longleftrightarrow> utf8_valid (tz_footer z)"

lemma from_utf8_Ok: "utf8_valid xs \<Longrightarrow> from_utf8 xs = Ok xs"
  by (simp add: from_utf8_valid)

lemma from_utf8_Err: "\<not> utf8_valid xs \<Longrightarrow> \<exists>e. from_utf8 xs = Err e"
  using from_utf8_valid [of xs] by (cases "from_utf8 xs") auto

definition type_at :: "tzif \<Rightarrow> nat \<Rightarrow> zone_info option" where
  "type_at z i = do { t \<leftarrow> slice_get (tz_transition_types z) i; info_for_type z (unat t) }"

lemma type_at_total: "tzif_valid z \<Longrightarrow> i < tz_timecnt z \<Longrightarrow> \<exists>info. type_at z i = Some info"
  using info_for_type_total by (auto simp: type_at_def tzif_valid_def list_all_length)

text \<open>What the lookup returns, transition by transition.\<close>

lemma tzif_lookup_eq:
  assumes "tzif_valid z" "footer_readable z"
  shows "tzif_lookup z t =
    (if tz_timecnt z = 0 then
       (case footer_rule z of Some dst \<Rightarrow> map_option Some (posix_lookup dst t) | None \<Rightarrow> Some (info_for_type z 0))
     else if t < transition_at z 0 then Some (info_for_type z 0)
     else let low = bisect (\<lambda>i. transition_at z i \<le> t) 0 (tz_timecnt z)
       in case (if low = tz_timecnt z - 1 then footer_rule z else None) of
            Some dst \<Rightarrow> map_option Some (posix_lookup dst t)
          | None \<Rightarrow> Some (type_at z low))"
  using assms(2) unfolding tzif_lookup_def footer_readable_def footer_rule_def type_at_def
  by (cases "tz_footer z = []") (simp_all add: from_utf8_Ok Let_def)

lemma bisect_found:
  assumes "tzif_valid z" "i < tz_timecnt z" "transition_at z i \<le> t" "Suc i < tz_timecnt z \<Longrightarrow> t < transition_at z (Suc i)"
  shows "bisect (\<lambda>i. transition_at z i \<le> t) 0 (tz_timecnt z) = i"
proof -
  define r where "r = bisect (\<lambda>i. transition_at z i \<le> t) 0 (tz_timecnt z)"
  have "last_below 0 (tz_timecnt z) (\<lambda>i. \<not> transition_at z i \<le> t) r"
    unfolding r_def using assms(2) by (intro bisect_last [OF _ _ tzif_valid_rises [OF assms(1)]]) auto
  then have r: "r < tz_timecnt z" "r = 0 \<or> transition_at z r \<le> t" "\<And>j. r < j \<Longrightarrow> j < tz_timecnt z \<Longrightarrow> t < transition_at z j"
    by (auto simp: last_below_def)
  have "\<not> r < i" using r(3) [of i] assms(2,3) by auto
  moreover have "\<not> i < r"
  proof
    assume "i < r"
    then have "t < transition_at z r"
      using assms(4) r(1) tzif_valid_increasing [OF assms(1), of "Suc i" r] by (cases "Suc i = r") auto
    then show False using r(2) \<open>i < r\<close> by auto
  qed
  ultimately show ?thesis unfolding r_def by simp
qed

lemma tzif_lookup_cases:
  assumes "tzif_valid z" "footer_readable z"
  shows "tz_timecnt z = 0 \<Longrightarrow> tzif_lookup z t =
      (case footer_rule z of Some dst \<Rightarrow> map_option Some (posix_lookup dst t) | None \<Rightarrow> Some (info_for_type z 0))"
    and "0 < tz_timecnt z \<Longrightarrow> t < transition_at z 0 \<Longrightarrow> tzif_lookup z t = Some (info_for_type z 0)"
    and "Suc i < tz_timecnt z \<Longrightarrow> transition_at z i \<le> t \<Longrightarrow> t < transition_at z (Suc i) \<Longrightarrow> tzif_lookup z t = Some (type_at z i)"
    and "tz_timecnt z = Suc i \<Longrightarrow> transition_at z i \<le> t \<Longrightarrow> tzif_lookup z t =
      (case footer_rule z of Some dst \<Rightarrow> map_option Some (posix_lookup dst t) | None \<Rightarrow> Some (type_at z i))"
proof -
  have first: "transition_at z 0 \<le> transition_at z i" if "i < tz_timecnt z" for i
    using tzif_valid_increasing [OF assms(1), of 0 i] that by (cases "i = 0") auto
  show "tz_timecnt z = 0 \<Longrightarrow> tzif_lookup z t =
      (case footer_rule z of Some dst \<Rightarrow> map_option Some (posix_lookup dst t) | None \<Rightarrow> Some (info_for_type z 0))"
    and "0 < tz_timecnt z \<Longrightarrow> t < transition_at z 0 \<Longrightarrow> tzif_lookup z t = Some (info_for_type z 0)"
    by (simp_all add: tzif_lookup_eq [OF assms])
  show "Suc i < tz_timecnt z \<Longrightarrow> transition_at z i \<le> t \<Longrightarrow> t < transition_at z (Suc i) \<Longrightarrow> tzif_lookup z t = Some (type_at z i)"
    using first [of i] bisect_found [OF assms(1), of i t] by (auto simp: tzif_lookup_eq [OF assms] Let_def)
  show "tz_timecnt z = Suc i \<Longrightarrow> transition_at z i \<le> t \<Longrightarrow> tzif_lookup z t =
      (case footer_rule z of Some dst \<Rightarrow> map_option Some (posix_lookup dst t) | None \<Rightarrow> Some (type_at z i))"
    using first [of i] bisect_found [OF assms(1), of i t] by (simp add: tzif_lookup_eq [OF assms] Let_def)
qed

section \<open>A file as a transition table\<close>

definition tzif_initial :: "tzif \<Rightarrow> int" where
  "tzif_initial z = zi_offset (the (info_for_type z 0))"

definition tzif_kind :: "tzif \<Rightarrow> nat \<Rightarrow> int" where
  "tzif_kind z i = zi_offset (the (type_at z i))"

definition tzif_future :: "tzif \<Rightarrow> int \<Rightarrow> int" where
  "tzif_future z t =
     (case footer_rule z of
        Some dst \<Rightarrow> zi_offset (the (posix_lookup dst t))
      | None \<Rightarrow> if tz_timecnt z = 0 then tzif_initial z else tzif_kind z (tz_timecnt z - 1))"

definition tzif_offset_at :: "tzif \<Rightarrow> int \<Rightarrow> int option" where
  "tzif_offset_at z t = map_option (case_option 0 zi_offset) (tzif_lookup z t)"

text \<open>Every offset of the file and its footer is within the limit of a fixed offset, and no instant is extreme.\<close>

definition tzif_ok :: "tzif \<Rightarrow> bool" where
  "tzif_ok z \<longleftrightarrow> tzif_valid z \<and> footer_readable z \<and>
     list_all (\<lambda>i. \<bar>transition_at z i\<bar> \<le> 2 ^ 62) [0..<tz_timecnt z] \<and>
     list_all (\<lambda>i. \<bar>zi_offset (the (info_for_type z i))\<bar> \<le> OFFSET_LIMIT) [0..<tz_typecnt z] \<and>
     (case footer_rule z of
        None \<Rightarrow> True
      | Some tz \<Rightarrow> \<bar>pt_std_east tz\<bar> \<le> OFFSET_LIMIT \<and> (case pt_dst tz of None \<Rightarrow> True | Some r \<Rightarrow> \<bar>dr_east r\<bar> \<le> OFFSET_LIMIT))"

lemma tzif_okD:
  assumes "tzif_ok z"
  shows "tzif_valid z" "footer_readable z" "i < tz_timecnt z \<Longrightarrow> \<bar>transition_at z i\<bar> \<le> 2 ^ 62"
    "info_for_type z j = Some info \<Longrightarrow> \<bar>zi_offset info\<bar> \<le> OFFSET_LIMIT"
    "footer_rule z = Some tz \<Longrightarrow> posix_lookup tz t = Some info \<Longrightarrow> \<bar>zi_offset info\<bar> \<le> OFFSET_LIMIT"
proof -
  show "tzif_valid z" "footer_readable z" "i < tz_timecnt z \<Longrightarrow> \<bar>transition_at z i\<bar> \<le> 2 ^ 62"
    using assms by (auto simp: tzif_ok_def list_all_iff)
  show "\<bar>zi_offset info\<bar> \<le> OFFSET_LIMIT" if "info_for_type z j = Some info"
  proof -
    have "j < tz_typecnt z" using that by (simp add: info_for_type_def split: if_splits)
    then show ?thesis using assms that by (force simp: tzif_ok_def list_all_iff)
  qed
  show "\<bar>zi_offset info\<bar> \<le> OFFSET_LIMIT" if "footer_rule z = Some tz" "posix_lookup tz t = Some info"
    using assms that(1) posix_lookup_offset [OF that(2)] by (auto simp: tzif_ok_def)
qed

lemma footer_rule_ok: "footer_rule z = Some tz \<Longrightarrow> posix_ok tz"
  by (auto simp: footer_rule_def posix_parse_ok split: if_splits)

lemma type_at_limit: "tzif_ok z \<Longrightarrow> type_at z i = Some info \<Longrightarrow> \<bar>zi_offset info\<bar> \<le> OFFSET_LIMIT"
  using tzif_okD(4) by (auto simp: type_at_def bind_eq_Some_conv)

lemma distance_to_near: "\<bar>s\<bar> \<le> 2 ^ 62 \<Longrightarrow> \<bar>l\<bar> \<le> 2 ^ 44 \<Longrightarrow> distance_to s l = Some \<bar>s - l\<bar>"
  by (auto simp: distance_to_def checked_signed_def in_signed_def)

lemma info_for_type_0: "tzif_valid z \<Longrightarrow> \<exists>info. info_for_type z 0 = Some info"
  by (rule info_for_type_total) (auto simp: tzif_valid_def)

lemma nearby_offsets_eq:
  assumes "tzif_ok z" "instant_ok l" "0 < tz_timecnt z"
  shows "\<exists>k < tz_timecnt z. nearby_offsets z l =
    (if \<bar>transition_at z k - l\<bar> > 2 * OFFSET_LIMIT then Some None
     else Some (Some (if k = 0 then tzif_initial z else tzif_kind z (k - 1), tzif_kind z k)))"
proof -
  note valid = tzif_okD(1) [OF assms(1)]
  define low where "low = bisect (\<lambda>i. transition_at z i \<le> l) 0 (tz_timecnt z)"
  have low: "low < tz_timecnt z"
    using bisect_last [OF assms(3) le_refl tzif_valid_rises [OF valid]] by (simp add: low_def last_below_def)
  have dist: "distance_to (transition_at z i) l = Some \<bar>transition_at z i - l\<bar>" if "i < tz_timecnt z" for i
    using tzif_okD(3) [OF assms(1) that] assms(2) by (simp add: distance_to_near instant_ok_def)
  define k where "k = (if low + 1 < tz_timecnt z \<and> \<bar>transition_at z (low + 1) - l\<bar> < \<bar>transition_at z low - l\<bar> then low + 1 else low)"
  have k: "k < tz_timecnt z" using low by (simp add: k_def)
  have pick: "(if low + 1 < tz_timecnt z
      then do { distance \<leftarrow> distance_to (transition_at z (low + 1)) l;
        Some (if distance < \<bar>transition_at z low - l\<bar> then (low + 1, distance) else (low, \<bar>transition_at z low - l\<bar>)) }
      else Some (low, \<bar>transition_at z low - l\<bar>)) = Some (k, \<bar>transition_at z k - l\<bar>)"
    using dist by (simp add: k_def)
  have types: "do { t \<leftarrow> slice_get (tz_transition_types z) i; info_for_type z (unat t) } = type_at z i" for i
    by (simp add: type_at_def)
  obtain aft where aft: "type_at z k = Some aft" using type_at_total [OF valid k] by blast
  have "\<exists>before. (if k = 0 then info_for_type z 0 else type_at z (k - 1)) = Some before"
    using info_for_type_0 [OF valid] type_at_total [OF valid, of "k - 1"] k by auto
  then obtain before where before: "(if k = 0 then info_for_type z 0 else type_at z (k - 1)) = Some before" ..
  have "do { t \<leftarrow> slice_get (tz_transition_types z) k; aft \<leftarrow> info_for_type z (unat t);
      before \<leftarrow> (if k = 0 then info_for_type z 0
        else do { t \<leftarrow> slice_get (tz_transition_types z) (k - 1); info_for_type z (unat t) });
      Some (zi_offset before, zi_offset aft) } = Some (zi_offset before, zi_offset aft)"
    using aft before unfolding types by (auto simp: type_at_def bind_eq_Some_conv)
  then have near: "nearby_offsets z l = (if \<bar>transition_at z k - l\<bar> > 2 * OFFSET_LIMIT then Some None
      else Some (Some (zi_offset before, zi_offset aft)))"
    unfolding nearby_offsets_def Let_def low_def [symmetric] dist [OF low] bind.bind_lunit pick prod.case
    using assms(3) by simp
  have offs: "zi_offset before = (if k = 0 then tzif_initial z else tzif_kind z (k - 1))" "zi_offset aft = tzif_kind z k"
    using aft before by (auto simp: tzif_initial_def tzif_kind_def split: if_splits)
  show ?thesis by (rule exI [of _ k]) (use k in \<open>simp only: near offs simp_thms\<close>)
qed

interpretation runtime: transition_table tzif_ok tz_timecnt transition_at tzif_kind tzif_initial tzif_future
  tzif_offset_at nearby_offsets
proof
  fix z i j t l off b a
  assume ok: "tzif_ok z"
  note valid = tzif_okD(1) [OF ok] and rd = tzif_okD(2) [OF ok]
  obtain first where first: "info_for_type z 0 = Some first" using info_for_type_0 [OF valid] by blast
  show "i < j \<Longrightarrow> j < tz_timecnt z \<Longrightarrow> transition_at z i < transition_at z j" by (rule tzif_valid_increasing [OF valid])
  show "tzif_offset_at z t = Some (tzif_future z t)" if "instant_ok t" "tz_timecnt z = 0"
    using that first posix_lookup_total [OF footer_rule_ok that(1)]
    by (fastforce simp: tzif_offset_at_def tzif_future_def tzif_lookup_cases(1) [OF valid rd] tzif_initial_def split: option.splits)
  show "tzif_offset_at z t = Some (tzif_initial z)" if "instant_ok t" "0 < tz_timecnt z" "t < transition_at z 0"
    using that first by (simp add: tzif_offset_at_def tzif_lookup_cases(2) [OF valid rd] tzif_initial_def)
  show "tzif_offset_at z t = Some (tzif_kind z i)"
    if "instant_ok t" "Suc i < tz_timecnt z" "transition_at z i \<le> t" "t < transition_at z (Suc i)"
    using that type_at_total [OF valid, of i] by (auto simp: tzif_offset_at_def tzif_lookup_cases(3) [OF valid rd] tzif_kind_def)
  show "tzif_offset_at z t = Some (tzif_future z t)" if "instant_ok t" "tz_timecnt z = Suc i" "transition_at z i \<le> t"
    using that type_at_total [OF valid, of i] posix_lookup_total [OF footer_rule_ok that(1)]
    by (fastforce simp: tzif_offset_at_def tzif_future_def tzif_lookup_cases(4) [OF valid rd] tzif_kind_def split: option.splits)
  show "\<bar>off\<bar> \<le> OFFSET_LIMIT" if "tzif_offset_at z t = Some off"
  proof -
    have "0 \<le> OFFSET_LIMIT" by (simp add: OFFSET_LIMIT_def)
    then show ?thesis
      using that tzif_okD(4,5) [OF ok] type_at_limit [OF ok]
      by (auto simp: tzif_offset_at_def tzif_lookup_eq [OF valid rd] Let_def split: option.splits if_splits)
  qed
  show "\<bar>tzif_kind z k\<bar> \<le> OFFSET_LIMIT" if "k < tz_timecnt z" for k
    using type_at_total [OF valid that] type_at_limit [OF ok] by (auto simp: tzif_kind_def)
  show "nearby_offsets z l \<noteq> None" if "instant_ok l"
    using nearby_offsets_eq [OF ok that] by (cases "tz_timecnt z") (auto simp: nearby_offsets_def)
  show "\<exists>k < tz_timecnt z. \<bar>transition_at z k - l\<bar> \<le> 2 * OFFSET_LIMIT \<and>
      b = (if k = 0 then tzif_initial z else tzif_kind z (k - 1)) \<and> a = tzif_kind z k"
    if "instant_ok l" "nearby_offsets z l = Some (Some (b, a))"
  proof -
    have "0 < tz_timecnt z" using that(2) by (cases "tz_timecnt z") (auto simp: nearby_offsets_def)
    from nearby_offsets_eq [OF ok that(1) this] obtain k where k: "k < tz_timecnt z"
      and eq: "nearby_offsets z l = (if \<bar>transition_at z k - l\<bar> > 2 * OFFSET_LIMIT then Some None
        else Some (Some (if k = 0 then tzif_initial z else tzif_kind z (k - 1), tzif_kind z k)))" by blast
    have near: "\<not> \<bar>transition_at z k - l\<bar> > 2 * OFFSET_LIMIT" using eq that(2) by (intro notI) simp
    then have "(b, a) = (if k = 0 then tzif_initial z else tzif_kind z (k - 1), tzif_kind z k)"
      using eq that(2) by (simp only: if_False option.inject)
    then show ?thesis using k near by (intro exI [of _ k]) simp
  qed
qed

section \<open>The lookup by linear search\<close>

text \<open>
  The local time at an instant: the type of the last transition at or before it, type 0 before the first,
  and the footer from the last transition on (or always, when there is none).
\<close>

definition tzif_reference :: "tzif \<Rightarrow> int \<Rightarrow> zone_info option option" where
  "tzif_reference z t =
     (let past = filter (\<lambda>i. transition_at z i \<le> t) [0..<tz_timecnt z];
          governed = (length past = tz_timecnt z)
      in case (if governed then footer_rule z else None) of
           Some dst \<Rightarrow> map_option Some (posix_lookup dst t)
         | None \<Rightarrow> Some (if past = [] then info_for_type z 0 else type_at z (last past)))"

lemma past_prefix:
  assumes "tzif_valid z" "i < tz_timecnt z" "transition_at z i \<le> t" "Suc i < tz_timecnt z \<Longrightarrow> t < transition_at z (Suc i)"
  shows "filter (\<lambda>i. transition_at z i \<le> t) [0..<tz_timecnt z] = [0..<Suc i]"
proof -
  have split: "[0..<tz_timecnt z] = [0..<Suc i] @ [Suc i..<tz_timecnt z]"
    using assms(2) upt_add_eq_append [of 0 "Suc i" "tz_timecnt z - Suc i"] by simp
  have "transition_at z j \<le> t" if "j < Suc i" for j
    using that assms(3) tzif_valid_increasing [OF assms(1) _ assms(2), of j] by (cases "j = i") auto
  moreover have "\<not> transition_at z j \<le> t" if "Suc i \<le> j" "j < tz_timecnt z" for j
    using that assms(4) tzif_valid_increasing [OF assms(1), of "Suc i" j] by (cases "j = Suc i") auto
  ultimately show ?thesis unfolding split filter_append
    by (simp add: filter_id_conv filter_empty_conv del: upt_Suc)
qed

lemma tzif_lookup_reference:
  assumes "tzif_valid z" "footer_readable z"
  shows "tzif_lookup z t = tzif_reference z t"
proof (cases "\<exists>i < tz_timecnt z. transition_at z i \<le> t")
  case False
  then have "filter (\<lambda>i. transition_at z i \<le> t) [0..<tz_timecnt z] = []" by (auto simp: filter_empty_conv)
  then show ?thesis using False tzif_lookup_cases(1,2) [OF assms]
    by (cases "tz_timecnt z") (auto simp: tzif_reference_def split: option.splits)
next
  case True
  define i where "i = (GREATEST i. i < tz_timecnt z \<and> transition_at z i \<le> t)"
  have i: "i < tz_timecnt z \<and> transition_at z i \<le> t"
    unfolding i_def using True by (metis (mono_tags, lifting) GreatestI_ex_nat less_imp_le_nat)
  have nxt: "t < transition_at z (Suc i)" if "Suc i < tz_timecnt z"
  proof (rule ccontr)
    assume "\<not> t < transition_at z (Suc i)"
    then have "Suc i \<le> i"
      unfolding i_def using that by (intro Greatest_le_nat [of _ _ "tz_timecnt z"]) (auto simp: i_def)
    then show False by simp
  qed
  have past: "filter (\<lambda>i. transition_at z i \<le> t) [0..<tz_timecnt z] = [0..<Suc i]"
    using past_prefix [OF assms(1)] i nxt by blast
  show ?thesis
  proof (cases "Suc i < tz_timecnt z")
    case True
    then show ?thesis using tzif_lookup_cases(3) [OF assms True] i nxt
      by (simp add: tzif_reference_def past del: upt_Suc)
  next
    case False
    then have n: "tz_timecnt z = Suc i" using i by simp
    have "tzif_lookup z t = (case footer_rule z of Some dst \<Rightarrow> map_option Some (posix_lookup dst t) | None \<Rightarrow> Some (type_at z i))"
      using tzif_lookup_cases(4) [OF assms n] i by blast
    then show ?thesis unfolding tzif_reference_def past Let_def by (simp add: n split: option.splits)
  qed
qed

lemma tzif_reference_total:
  assumes "tzif_valid z" "instant_ok t"
  shows "\<exists>info. tzif_reference z t = Some (Some info)"
proof -
  define past where "past = filter (\<lambda>i. transition_at z i \<le> t) [0..<tz_timecnt z]"
  have "last past < tz_timecnt z" if "past \<noteq> []" using last_in_set [OF that] by (auto simp: past_def)
  then have "\<exists>info. (if past = [] then info_for_type z 0 else type_at z (last past)) = Some info"
    using info_for_type_0 [OF assms(1)] type_at_total [OF assms(1)] by auto
  moreover have "\<exists>info. posix_lookup dst t = Some info" if "footer_rule z = Some dst" for dst
    using posix_lookup_total [OF footer_rule_ok [OF that] assms(2)] .
  ultimately show ?thesis by (fastforce simp: tzif_reference_def past_def [symmetric] Let_def split: option.splits)
qed

section \<open>Files that are accepted and cannot be used\<close>

text \<open>A file of version 2 with an empty first block, one type (UTC) and the given times and footer.\<close>

definition sample_header :: "byte \<Rightarrow> byte \<Rightarrow> byte \<Rightarrow> byte list" where
  "sample_header n_times n_types n_chars =
     TZIF_MAGIC @ [ascii CHR ''2''] @ replicate 15 0 @ replicate 12 0 @
     [0, 0, 0, n_times, 0, 0, 0, n_types, 0, 0, 0, n_chars]"

definition sample_file :: "byte list \<Rightarrow> byte list \<Rightarrow> byte list" where
  "sample_file time footer =
     sample_header 0 0 0 @ sample_header (if time = [] then 0 else 1) 1 4 @ time @ (if time = [] then [] else [0]) @
     [0, 0, 0, 0, 0, 0] @ ascii_bytes ''UTC'' @ [0, 10] @ footer @ [10]"

definition sample_tzif :: "byte list \<Rightarrow> byte list \<Rightarrow> tzif" where
  "sample_tzif time footer =
     \<lparr>tz_time_size = 8, tz_timecnt = (if time = [] then 0 else 1), tz_typecnt = 1, tz_transitions = time,
      tz_transition_types = (if time = [] then [] else [0]), tz_types = [0, 0, 0, 0, 0, 0],
      tz_designations = ascii_bytes ''UTC'' @ [0], tz_footer = footer\<rparr>"

lemma sample_unreadable: "tzif_parse (sample_file [] [0xFF]) = Some (sample_tzif [] [0xFF])"
  by code_simp

lemma sample_readable: "tzif_parse (sample_file [0, 0, 0, 0, 0, 0, 0, 100] []) = Some (sample_tzif [0, 0, 0, 0, 0, 0, 0, 100] [])"
  by code_simp

lemma sample_extreme: "tzif_parse (sample_file [0x80, 0, 0, 0, 0, 0, 0, 1] []) = Some (sample_tzif [0x80, 0, 0, 0, 0, 0, 0, 1] [])"
  by code_simp

text \<open>A first transition at the smallest instants makes the distance to a wall-clock time overflow.\<close>

lemma nearby_offsets_panics: "nearby_offsets (sample_tzif [0x80, 0, 0, 0, 0, 0, 0, 1] []) 2 = None"
  by code_simp

section \<open>Properties\<close>

text \<open>
  C19: reading TZif. A file that the reader accepts has strictly increasing transition instants, type
  indices in range and terminated designations. When its footer is empty or UTF-8, the file answers every
  query: the two searches of the source return what a linear search over the transitions returns, without
  a panic. The comment on \<open>parse\<close> promises such answers for every accepted file; that does not hold: a footer
  that is not UTF-8 is accepted too, and then every lookup returns nothing, which the caller reads as UTC.
\<close>

theorem tzif_lookup_correct:
  assumes "tzif_parse data = Some z" "instant_ok t"
  shows "tzif_valid z \<and>
    (if footer_readable z then tzif_lookup z t = tzif_reference z t \<and> (\<exists>info. tzif_lookup z t = Some (Some info))
     else tzif_lookup z t = Some None)"
proof (cases "footer_readable z")
  case True
  then show ?thesis using tzif_parse_valid [OF assms(1)] tzif_lookup_reference tzif_reference_total assms(2) by auto
next
  case False
  then have "tz_footer z \<noteq> []" "\<exists>e. from_utf8 (tz_footer z) = Err e"
    using from_utf8_Err by (auto simp: footer_readable_def)
  then show ?thesis using tzif_parse_valid [OF assms(1)] False by (auto simp: tzif_lookup_def)
qed

theorem tzif_lookup_correct_witness:
  "tzif_parse (sample_file [0, 0, 0, 0, 0, 0, 0, 100] []) = Some (sample_tzif [0, 0, 0, 0, 0, 0, 0, 100] []) \<and>
   tzif_valid (sample_tzif [0, 0, 0, 0, 0, 0, 0, 100] []) \<and>
   tzif_lookup (sample_tzif [0, 0, 0, 0, 0, 0, 0, 100] []) 200 = tzif_reference (sample_tzif [0, 0, 0, 0, 0, 0, 0, 100] []) 200 \<and>
   (\<exists>info. tzif_lookup (sample_tzif [0, 0, 0, 0, 0, 0, 0, 100] []) 200 = Some (Some info)) \<and>
   tzif_lookup (sample_tzif [] [0xFF]) 0 = Some None"
proof -
  have r: "footer_readable (sample_tzif [0, 0, 0, 0, 0, 0, 0, 100] [])" "\<not> footer_readable (sample_tzif [] [0xFF])" by (code_simp, code_simp)
  have i: "instant_ok 0" "instant_ok 200" by (simp_all add: instant_ok_def)
  show ?thesis
    using tzif_lookup_correct [OF sample_readable i(2), unfolded if_P [OF r(1)]] tzif_lookup_correct [OF sample_unreadable i(1), unfolded if_not_P [OF r(2)]]
      sample_readable by blast
qed

end
