(* ===== verification/Tzdb.thy ===== *)
theory Tzdb
  imports Tzif
begin

text \<open>
  The embedded time zone database (\<open>src/time/tzdb.rs\<close>, with the transition search of
  \<open>src/time/timezone.rs\<close>). The generated tables of \<open>tzdb_data.rs\<close> are a parameter: a record with the
  zone entries and the abbreviations. An outer \<open>None\<close> is a panic.
\<close>

section \<open>Zones\<close>

record zone_record =
  zr_offset :: int
  zr_dst :: bool
  zr_abbrev :: byte

datatype zone_future =
    FutureFixed zone_record
  | DaylightSaving zone_record zone_record "u16 \<times> int" "u16 \<times> int"

record zone_data =
  zd_initial :: zone_record
  zd_starts :: "int list"
  zd_records :: "byte list"
  zd_record_table :: "zone_record list"
  zd_future :: zone_future

datatype zone_rules =
    Embedded zone_data
  | Runtime tzif

record zone_entry =
  ze_name :: "byte list"
  ze_rules :: zone_rules

record tz_database =
  db_zones :: "zone_entry list"
  db_abbreviations :: "byte list list"

definition abbreviation_at :: "tz_database \<Rightarrow> byte \<Rightarrow> byte list option" where
  "abbreviation_at db index = slice_get (db_abbreviations db) (unat index)"

definition abbreviation_or_empty :: "tz_database \<Rightarrow> byte \<Rightarrow> byte list" where
  "abbreviation_or_empty db index = (case abbreviation_at db index of Some s \<Rightarrow> s | None \<Rightarrow> [])"

definition record_info :: "tz_database \<Rightarrow> zone_record \<Rightarrow> zone_info" where
  "record_info db r = \<lparr>zi_offset = zr_offset r, zi_is_dst = zr_dst r, zi_abbrev = abbreviation_or_empty db (zr_abbrev r)\<rparr>"

definition record_at :: "zone_data \<Rightarrow> nat \<Rightarrow> zone_record option" where
  "record_at self index =
     do { r \<leftarrow> slice_get (zd_records self) index; slice_get (zd_record_table self) (unat r) }"

definition future_info :: "tz_database \<Rightarrow> zone_data \<Rightarrow> int \<Rightarrow> zone_info option" where
  "future_info db self seconds =
     (case zd_future self of
        FutureFixed r \<Rightarrow> Some (record_info db r)
      | DaylightSaving standard daylight start end \<Rightarrow>
          evaluate_daylight
            \<lparr>dr_name = abbreviation_or_empty db (zr_abbrev daylight), dr_east = zr_offset daylight,
             dr_start = (daylight_rule_from_packed_day (fst start), snd start),
             dr_end = (daylight_rule_from_packed_day (fst end), snd end)\<rparr>
            (zr_offset standard) (abbreviation_or_empty db (zr_abbrev standard)) seconds)"

definition zone_data_lookup :: "tz_database \<Rightarrow> zone_data \<Rightarrow> int \<Rightarrow> zone_info option" where
  "zone_data_lookup db self seconds =
     (let starts = zd_starts self
      in if starts = [] then future_info db self seconds
         else
           let past = partition_point (\<lambda>start. start \<le> seconds) starts
           in if past = 0 then Some (record_info db (zd_initial self))
              else if past = length starts then future_info db self seconds
              else map_option (record_info db) (record_at self (past - 1)))"

text \<open>The nearest transition: the closure \<open>consider\<close> updates the best index and its distance.\<close>

definition consider_start :: "int list \<Rightarrow> int \<Rightarrow> nat \<Rightarrow> nat \<times> int \<Rightarrow> (nat \<times> int) option" where
  "consider_start starts local index best =
     (if index < length starts
      then do {
        distance \<leftarrow> distance_to (starts ! index) local;
        Some (if distance < snd best then (index, distance) else best)
      }
      else Some best)"

definition embedded_nearby :: "zone_data \<Rightarrow> int \<Rightarrow> (int \<times> int) option option" where
  "embedded_nearby zone local =
     (let starts = zd_starts zone
      in if starts = [] then Some None
         else do {
           let past = partition_point (\<lambda>start. start \<le> local) starts;
           best \<leftarrow> (if past \<ge> 1 then consider_start starts local (past - 1) (0, 2 ^ 63 - 1) else Some (0, 2 ^ 63 - 1));
           (best_index, best_distance) \<leftarrow> consider_start starts local past best;
           if best_distance > 2 * OFFSET_LIMIT then Some None
           else do {
             aft \<leftarrow> record_at zone best_index;
             before \<leftarrow> (if best_index = 0 then Some (zd_initial zone) else record_at zone (best_index - 1));
             Some (Some (zr_offset before, zr_offset aft))
           }
         })"

section \<open>Names\<close>

text \<open>\<open>to_ascii_lowercase\<close> and the comparison of the name table.\<close>

definition to_ascii_lowercase :: "byte \<Rightarrow> byte" where
  "to_ascii_lowercase b = (if ascii CHR ''A'' \<le> b \<and> b \<le> ascii CHR ''Z'' then b + 32 else b)"

fun compare_lowercase :: "byte list \<Rightarrow> byte list \<Rightarrow> ordering" where
  "compare_lowercase (x # xs) (y # ys) =
     (let a = to_ascii_lowercase x; b = to_ascii_lowercase y
      in if a \<noteq> b then prim_cmp a b else compare_lowercase xs ys)"
| "compare_lowercase xs ys = prim_cmp (length xs) (length ys)"

definition tzdb_lookup :: "tz_database \<Rightarrow> byte list \<Rightarrow> zone_entry option" where
  "tzdb_lookup db name =
     (case binary_search_by (\<lambda>i. compare_lowercase (ze_name (db_zones db ! i)) name) (length (db_zones db)) of
        Ok index \<Rightarrow> Some (db_zones db ! index)
      | Err _ \<Rightarrow> None)"

definition all_timezones :: "tz_database \<Rightarrow> byte list list" where
  "all_timezones db = map ze_name (db_zones db)"

section \<open>A zone as a transition table\<close>

definition zd_kind :: "zone_data \<Rightarrow> nat \<Rightarrow> int" where
  "zd_kind z i = zr_offset (the (record_at z i))"

definition zd_offset_at :: "tz_database \<Rightarrow> zone_data \<Rightarrow> int \<Rightarrow> int option" where
  "zd_offset_at db z t = map_option zi_offset (zone_data_lookup db z t)"

definition zd_future_offset :: "tz_database \<Rightarrow> zone_data \<Rightarrow> int \<Rightarrow> int" where
  "zd_future_offset db z t = zi_offset (the (future_info db z t))"

fun future_ok :: "zone_future \<Rightarrow> bool" where
  "future_ok (FutureFixed r) \<longleftrightarrow> \<bar>zr_offset r\<bar> \<le> OFFSET_LIMIT"
| "future_ok (DaylightSaving s d st en) \<longleftrightarrow>
     \<bar>zr_offset s\<bar> \<le> OFFSET_LIMIT \<and> \<bar>zr_offset d\<bar> \<le> OFFSET_LIMIT \<and>
     rule_ok (daylight_rule_from_packed_day (fst st)) \<and> rule_ok (daylight_rule_from_packed_day (fst en))"

definition zone_data_ok :: "zone_data \<Rightarrow> bool" where
  "zone_data_ok z \<longleftrightarrow> sorted_wrt (<) (zd_starts z) \<and> list_all (\<lambda>s. \<bar>s\<bar> \<le> 2 ^ 62) (zd_starts z) \<and>
     length (zd_records z) = length (zd_starts z) \<and>
     list_all (\<lambda>r. unat r < length (zd_record_table z)) (zd_records z) \<and>
     list_all (\<lambda>r. \<bar>zr_offset r\<bar> \<le> OFFSET_LIMIT) (zd_record_table z) \<and>
     \<bar>zr_offset (zd_initial z)\<bar> \<le> OFFSET_LIMIT \<and> future_ok (zd_future z)"

lemma record_at_total:
  assumes "zone_data_ok z" "i < length (zd_starts z)"
  shows "\<exists>r. record_at z i = Some r \<and> \<bar>zr_offset r\<bar> \<le> OFFSET_LIMIT"
  using assms by (auto simp: record_at_def zone_data_ok_def list_all_length)

lemma record_at_limit: "zone_data_ok z \<Longrightarrow> record_at z i = Some r \<Longrightarrow> \<bar>zr_offset r\<bar> \<le> OFFSET_LIMIT"
  by (auto simp: record_at_def zone_data_ok_def list_all_length bind_eq_Some_conv slice_get_def split: if_splits)

lemma future_info_total:
  assumes "zone_data_ok z" "instant_ok t"
  shows "\<exists>info. future_info db z t = Some info"
proof (cases "zd_future z")
  case (DaylightSaving s d st en)
  define r where "r = \<lparr>dr_name = abbreviation_or_empty db (zr_abbrev d), dr_east = zr_offset d,
    dr_start = (daylight_rule_from_packed_day (fst st), snd st), dr_end = (daylight_rule_from_packed_day (fst en), snd en)\<rparr>"
  have "dst_rule_ok r" "\<bar>zr_offset s\<bar> \<le> 2 ^ 31" "\<bar>t\<bar> \<le> 2 ^ 45"
    using assms DaylightSaving by (auto simp: zone_data_ok_def dst_rule_ok_def r_def OFFSET_LIMIT_def instant_ok_def)
  from evaluate_daylight_denotes [OF this, of "abbreviation_or_empty db (zr_abbrev s)"] show ?thesis
    using DaylightSaving by (auto simp: future_info_def r_def [symmetric])
qed (simp add: future_info_def)

lemma evaluate_daylight_offset:
  "evaluate_daylight r std name t = Some info \<Longrightarrow> zi_offset info = dr_east r \<or> zi_offset info = std"
  by (auto simp: evaluate_daylight_def bind_eq_Some_conv Let_def)

lemma future_info_limit: "zone_data_ok z \<Longrightarrow> future_info db z t = Some info \<Longrightarrow> \<bar>zi_offset info\<bar> \<le> OFFSET_LIMIT"
  by (cases "zd_future z") (auto simp: zone_data_ok_def future_info_def record_info_def dest: evaluate_daylight_offset)

lemma partition_starts:
  "sorted_wrt (<) xs \<Longrightarrow> partition_point (\<lambda>s. s \<le> t) xs = length (takeWhile (\<lambda>s. s \<le> t) (xs :: int list))"
  by (intro partition_point_takeWhile)
    (auto simp: rises_def sorted_wrt_iff_nth_less, metis le_neq_implies_less less_le_trans not_le order_less_imp_le)

lemma partition_starts_eq:
  assumes "sorted_wrt (<) (xs :: int list)" "k \<le> length xs" "0 < k \<Longrightarrow> xs ! (k - 1) \<le> t" "k < length xs \<Longrightarrow> t < xs ! k"
  shows "partition_point (\<lambda>s. s \<le> t) xs = k"
proof -
  have "xs ! i \<le> t" if "i < k" for i
  proof -
    have "i = k - 1 \<or> (i < k - 1 \<and> k - 1 < length xs)" using that assms(2) by linarith
    then have "xs ! i \<le> xs ! (k - 1)" using sorted_wrt_nth_less [OF assms(1), of i "k - 1"] by auto
    then show ?thesis using assms(3) that by simp
  qed
  then have "takeWhile (\<lambda>s. s \<le> t) xs = take k xs" using assms(4) by (intro takeWhile_eq_take_P_nth) auto
  then show ?thesis using partition_starts [OF assms(1)] assms(2) by simp
qed

lemma zone_data_lookup_cases:
  assumes "zone_data_ok z"
  shows "zd_starts z = [] \<Longrightarrow> zone_data_lookup db z t = future_info db z t"
    and "zd_starts z \<noteq> [] \<Longrightarrow> t < zd_starts z ! 0 \<Longrightarrow> zone_data_lookup db z t = Some (record_info db (zd_initial z))"
    and "Suc i < length (zd_starts z) \<Longrightarrow> zd_starts z ! i \<le> t \<Longrightarrow> t < zd_starts z ! Suc i \<Longrightarrow>
      zone_data_lookup db z t = map_option (record_info db) (record_at z i)"
    and "length (zd_starts z) = Suc i \<Longrightarrow> zd_starts z ! i \<le> t \<Longrightarrow> zone_data_lookup db z t = future_info db z t"
proof -
  have sorted: "sorted_wrt (<) (zd_starts z)" using assms by (simp add: zone_data_ok_def)
  show "zd_starts z = [] \<Longrightarrow> zone_data_lookup db z t = future_info db z t" by (simp add: zone_data_lookup_def)
  show "zone_data_lookup db z t = Some (record_info db (zd_initial z))" if "zd_starts z \<noteq> []" "t < zd_starts z ! 0"
    using partition_starts_eq [OF sorted, of 0 t] that by (simp add: zone_data_lookup_def Let_def)
  show "zone_data_lookup db z t = map_option (record_info db) (record_at z i)"
    if "Suc i < length (zd_starts z)" "zd_starts z ! i \<le> t" "t < zd_starts z ! Suc i"
    using partition_starts_eq [OF sorted, of "Suc i" t] that by (auto simp: zone_data_lookup_def Let_def)
  show "zone_data_lookup db z t = future_info db z t" if "length (zd_starts z) = Suc i" "zd_starts z ! i \<le> t"
    using partition_starts_eq [OF sorted, of "Suc i" t] that by (auto simp: zone_data_lookup_def Let_def)
qed

lemma consider_start_near:
  assumes "zone_data_ok z" "instant_ok l"
  shows "consider_start (zd_starts z) l i best =
    Some (if i < length (zd_starts z) \<and> \<bar>zd_starts z ! i - l\<bar> < snd best then (i, \<bar>zd_starts z ! i - l\<bar>) else best)"
proof (cases "i < length (zd_starts z)")
  case True
  then have "\<bar>zd_starts z ! i\<bar> \<le> 2 ^ 62" "\<bar>l\<bar> \<le> 2 ^ 44" using assms by (auto simp: zone_data_ok_def list_all_length instant_ok_def)
  then show ?thesis using True by (simp add: consider_start_def distance_to_near)
qed (simp add: consider_start_def)

lemma embedded_nearby_eq:
  assumes "zone_data_ok z" "instant_ok l" "zd_starts z \<noteq> []"
  shows "\<exists>k < length (zd_starts z). embedded_nearby z l =
    (if \<bar>zd_starts z ! k - l\<bar> > 2 * OFFSET_LIMIT then Some None
     else Some (Some (if k = 0 then zr_offset (zd_initial z) else zd_kind z (k - 1), zd_kind z k)))"
proof -
  define xs p where "xs = zd_starts z" and "p = partition_point (\<lambda>s. s \<le> l) xs"
  have small: "\<bar>xs ! i - l\<bar> < 2 ^ 63 - 1" if "i < length xs" for i
    using assms(1,2) that by (auto simp: zone_data_ok_def list_all_length instant_ok_def xs_def)
  have p: "p \<le> length xs" using partition_starts [of xs l] assms(1) length_takeWhile_le by (simp add: p_def zone_data_ok_def xs_def)
  define b1 where "b1 = (if p \<ge> 1 then (p - 1, \<bar>xs ! (p - 1) - l\<bar>) else (0 :: nat, 2 ^ 63 - 1))"
  have step1: "(if p \<ge> 1 then consider_start xs l (p - 1) (0, 2 ^ 63 - 1) else Some (0, 2 ^ 63 - 1)) = Some b1"
    using consider_start_near [OF assms(1,2)] small [of "p - 1"] p by (auto simp: b1_def xs_def)
  define b2 where "b2 = (if p < length xs \<and> \<bar>xs ! p - l\<bar> < snd b1 then (p, \<bar>xs ! p - l\<bar>) else b1)"
  have step2: "consider_start xs l p b1 = Some b2" using consider_start_near [OF assms(1,2)] by (simp add: b2_def xs_def)
  obtain k where k: "k < length xs" "b2 = (k, \<bar>xs ! k - l\<bar>)"
  proof (cases "p < length xs \<and> \<bar>xs ! p - l\<bar> < snd b1")
    case True
    then show ?thesis using that [of p] by (simp add: b2_def)
  next
    case False
    then have "1 \<le> p" using small [of 0] assms(3) by (cases "p = 0") (auto simp: b1_def xs_def)
    then show ?thesis using that [of "p - 1"] False p by (auto simp: b2_def b1_def)
  qed
  obtain aft where aft: "record_at z k = Some aft" using record_at_total [OF assms(1), of k] k by (auto simp: xs_def)
  have "\<exists>b. (if k = 0 then Some (zd_initial z) else record_at z (k - 1)) = Some b"
    using record_at_total [OF assms(1), of "k - 1"] k(1) less_imp_diff_less [of k] by (auto simp: xs_def)
  then obtain before where before: "(if k = 0 then Some (zd_initial z) else record_at z (k - 1)) = Some before" ..
  have near: "embedded_nearby z l = (if \<bar>xs ! k - l\<bar> > 2 * OFFSET_LIMIT then Some None
      else Some (Some (zr_offset before, zr_offset aft)))"
    unfolding embedded_nearby_def Let_def xs_def [symmetric] p_def [symmetric] step1 bind.bind_lunit step2 k(2) prod.case
      before aft using assms(3) by (simp add: xs_def)
  have offs: "zr_offset before = (if k = 0 then zr_offset (zd_initial z) else zd_kind z (k - 1))" "zr_offset aft = zd_kind z k"
    using aft before by (auto simp: zd_kind_def split: if_splits)
  show ?thesis unfolding xs_def [symmetric] by (rule exI [of _ k]) (use k(1) in \<open>simp only: near offs simp_thms\<close>)
qed

interpretation embedded: transition_table zone_data_ok "\<lambda>z. length (zd_starts z)" "\<lambda>z i. zd_starts z ! i" zd_kind
  "\<lambda>z. zr_offset (zd_initial z)" "zd_future_offset db" "zd_offset_at db" embedded_nearby
  for db
proof
  fix z i j t l off b a
  assume ok: "zone_data_ok z"
  show "i < j \<Longrightarrow> j < length (zd_starts z) \<Longrightarrow> zd_starts z ! i < zd_starts z ! j"
    using ok sorted_wrt_nth_less by (fastforce simp: zone_data_ok_def)
  show "zd_offset_at db z t = Some (zd_future_offset db z t)" if "instant_ok t" "length (zd_starts z) = 0"
    using that future_info_total [OF ok that(1), of db] zone_data_lookup_cases(1) [OF ok]
    by (auto simp: zd_offset_at_def zd_future_offset_def)
  show "zd_offset_at db z t = Some (zr_offset (zd_initial z))"
    if "instant_ok t" "0 < length (zd_starts z)" "t < zd_starts z ! 0"
    using that zone_data_lookup_cases(2) [OF ok] by (simp add: zd_offset_at_def record_info_def)
  show "zd_offset_at db z t = Some (zd_kind z i)"
    if "instant_ok t" "Suc i < length (zd_starts z)" "zd_starts z ! i \<le> t" "t < zd_starts z ! Suc i"
    using that zone_data_lookup_cases(3) [OF ok] record_at_total [OF ok, of i]
    by (auto simp: zd_offset_at_def record_info_def zd_kind_def)
  show "zd_offset_at db z t = Some (zd_future_offset db z t)"
    if "instant_ok t" "length (zd_starts z) = Suc i" "zd_starts z ! i \<le> t"
    using that future_info_total [OF ok that(1), of db] zone_data_lookup_cases(4) [OF ok]
    by (auto simp: zd_offset_at_def zd_future_offset_def)
  show "\<bar>off\<bar> \<le> OFFSET_LIMIT" if "zd_offset_at db z t = Some off"
  proof -
    have "\<bar>zr_offset (zd_initial z)\<bar> \<le> OFFSET_LIMIT" using ok by (simp add: zone_data_ok_def)
    then show ?thesis using that future_info_limit [OF ok] record_at_limit [OF ok]
      by (auto simp: zd_offset_at_def zone_data_lookup_def Let_def record_info_def split: if_splits)
  qed
  show "\<bar>zd_kind z k\<bar> \<le> OFFSET_LIMIT" if "k < length (zd_starts z)" for k
    using record_at_total [OF ok that] by (auto simp: zd_kind_def)
  show "embedded_nearby z l \<noteq> None" if "instant_ok l"
    using embedded_nearby_eq [OF ok that] by (cases "zd_starts z") (auto simp: embedded_nearby_def)
  show "\<exists>k < length (zd_starts z). \<bar>zd_starts z ! k - l\<bar> \<le> 2 * OFFSET_LIMIT \<and>
      b = (if k = 0 then zr_offset (zd_initial z) else zd_kind z (k - 1)) \<and> a = zd_kind z k"
    if "instant_ok l" "embedded_nearby z l = Some (Some (b, a))"
  proof -
    have "zd_starts z \<noteq> []" using that(2) by (auto simp: embedded_nearby_def)
    from embedded_nearby_eq [OF ok that(1) this] obtain k where k: "k < length (zd_starts z)"
      and eq: "embedded_nearby z l = (if \<bar>zd_starts z ! k - l\<bar> > 2 * OFFSET_LIMIT then Some None
        else Some (Some (if k = 0 then zr_offset (zd_initial z) else zd_kind z (k - 1), zd_kind z k)))" by blast
    have near: "\<not> \<bar>zd_starts z ! k - l\<bar> > 2 * OFFSET_LIMIT" using eq that(2) by (intro notI) simp
    then have "(b, a) = (if k = 0 then zr_offset (zd_initial z) else zd_kind z (k - 1), zd_kind z k)"
      using eq that(2) by (simp only: if_False option.inject)
    then show ?thesis using k near by (intro exI [of _ k]) simp
  qed
qed

section \<open>The table of names\<close>

abbreviation lowercase :: "byte list \<Rightarrow> byte list" where
  "lowercase s \<equiv> map to_ascii_lowercase s"

lemma compare_lowercase_eq: "compare_lowercase xs ys = list_cmp prim_cmp (lowercase xs) (lowercase ys)"
proof (induction xs arbitrary: ys)
  case Nil
  then show ?case by (cases ys) (simp_all add: prim_cmp_def)
next
  case (Cons x xs)
  then show ?case by (cases ys) (auto simp: Let_def prim_cmp_def cmp_then_def)
qed

lemma compare_lowercase_equal: "compare_lowercase xs ys = Equal \<longleftrightarrow> lowercase xs = lowercase ys"
  unfolding compare_lowercase_eq str_cmp.cmp_equal by (simp only: list.rel_eq)

definition names_sorted :: "tz_database \<Rightarrow> bool" where
  "names_sorted db \<longleftrightarrow> sorted_wrt (\<lambda>a b. compare_lowercase (ze_name a) (ze_name b) = Less) (db_zones db)"

lemma names_sorted_less:
  assumes "names_sorted db" "i < j" "j < length (db_zones db)"
    "compare_lowercase (ze_name (db_zones db ! i)) name \<noteq> Less"
  shows "compare_lowercase (ze_name (db_zones db ! j)) name = Greater"
proof -
  define a b where "a = lowercase (ze_name (db_zones db ! i))" and "b = lowercase (ze_name (db_zones db ! j))"
  have ab: "list_cmp prim_cmp a b = Less"
    using sorted_wrt_nth_less [OF assms(1) [unfolded names_sorted_def] assms(2,3)] by (simp add: compare_lowercase_eq a_def b_def)
  have an: "list_cmp prim_cmp a (lowercase name) \<noteq> Less" using assms(4) by (simp add: compare_lowercase_eq a_def)
  have "list_cmp prim_cmp b (lowercase name) = Greater"
  proof (rule ccontr)
    assume "list_cmp prim_cmp b (lowercase name) \<noteq> Greater"
    then show False using str_cmp.cmp_trans [of a b "lowercase name"] ab an by simp
  qed
  then show ?thesis by (simp add: compare_lowercase_eq b_def)
qed

lemma tzdb_lookup_found:
  assumes "names_sorted db" "k < length (db_zones db)" "compare_lowercase (ze_name (db_zones db ! k)) name = Equal"
  shows "tzdb_lookup db name = Some (db_zones db ! k)"
proof -
  define cmp where "cmp = (\<lambda>i. compare_lowercase (ze_name (db_zones db ! i)) name)"
  define n where "n = length (db_zones db)"
  define r where "r = binary_search_loop cmp 0 n"
  have above: "cmp j = Greater" if "cmp i \<noteq> Less" "i < j" "j < n" for i j
    using names_sorted_less [OF assms(1) that(2)] that unfolding cmp_def n_def by blast
  then have "rises n (\<lambda>i. cmp i = Greater)" unfolding rises_def by (metis le_neq_implies_less ordering.distinct(3))
  moreover have k: "k < n" "cmp k = Equal" using assms(2,3) by (simp_all add: n_def cmp_def)
  ultimately have r: "last_below 0 n (\<lambda>i. cmp i = Greater) r"
    using binary_search_loop_last [of n 0 n cmp] by (simp add: r_def)
  have "\<not> r < k" using r k by (auto simp: last_below_def)
  moreover have "\<not> k < r" using r k above [of k r] by (auto simp: last_below_def)
  ultimately have "r = k" by simp
  then have "binary_search_by cmp n = Ok k" using k by (simp add: binary_search_by_def r_def [symmetric])
  then show ?thesis by (simp add: tzdb_lookup_def cmp_def [symmetric] n_def [symmetric])
qed

lemma tzdb_lookup_sound: "tzdb_lookup db name = Some e \<Longrightarrow> e \<in> set (db_zones db) \<and> compare_lowercase (ze_name e) name = Equal"
proof -
  assume found: "tzdb_lookup db name = Some e"
  define cmp where "cmp = (\<lambda>i. compare_lowercase (ze_name (db_zones db ! i)) name)"
  define n where "n = length (db_zones db)"
  have n: "0 < n" using found by (auto simp: tzdb_lookup_def binary_search_by_def n_def split: if_splits)
  have "binary_search_loop c b s < b + s" if "0 < s" for c b s
    using that
  proof (induction c b s rule: binary_search_loop.induct)
    case (1 c b s)
    then show ?case by (subst binary_search_loop.simps) (fastforce simp: Let_def)
  qed
  then have "binary_search_loop cmp 0 n < n" using n by (metis add_0)
  then show ?thesis using found n
    unfolding tzdb_lookup_def cmp_def [symmetric] n_def [symmetric] binary_search_by_def Let_def
    by (auto simp: cmp_def n_def split: if_splits)
qed

text \<open>
  Looking up a zone by name. In a table sorted by the lower-case names, the binary search finds
  the entry whose name is the given one up to the case of ASCII letters, and nothing when there is none.
\<close>

theorem tzdb_lookup_correct:
  assumes "names_sorted db"
  shows "tzdb_lookup db name = Some e \<longleftrightarrow> e \<in> set (db_zones db) \<and> lowercase (ze_name e) = lowercase name"
proof
  show "e \<in> set (db_zones db) \<and> lowercase (ze_name e) = lowercase name" if "tzdb_lookup db name = Some e"
    using tzdb_lookup_sound [OF that] by (simp add: compare_lowercase_equal)
next
  assume e: "e \<in> set (db_zones db) \<and> lowercase (ze_name e) = lowercase name"
  then obtain k where "k < length (db_zones db)" "db_zones db ! k = e" by (auto simp: in_set_conv_nth)
  then show "tzdb_lookup db name = Some e"
    using tzdb_lookup_found [OF assms, of k name] e by (simp add: compare_lowercase_equal)
qed

definition sample_db :: tz_database where
  "sample_db = \<lparr>db_zones = map (\<lambda>n. \<lparr>ze_name = ascii_bytes n, ze_rules = Runtime (sample_tzif [] [])\<rparr>)
     [''Africa/Abidjan'', ''America/New_York'', ''Europe/Paris''], db_abbreviations = []\<rparr>"

theorem tzdb_lookup_correct_witness:
  "names_sorted sample_db \<and> map_option ze_name (tzdb_lookup sample_db (ascii_bytes ''EUROPE/paris'')) = Some (ascii_bytes ''Europe/Paris'')"
proof -
  have sorted: "names_sorted sample_db" by code_simp
  define e where "e = db_zones sample_db ! 2"
  have e: "lowercase (ze_name e) = lowercase (ascii_bytes ''EUROPE/paris'')" "ze_name e = ascii_bytes ''Europe/Paris''"
    "e \<in> set (db_zones sample_db)"
    unfolding e_def by (simp_all add: sample_db_def to_ascii_lowercase_def)
  then have "tzdb_lookup sample_db (ascii_bytes ''EUROPE/paris'') = Some e"
    using tzdb_lookup_correct [OF sorted] by blast
  then show ?thesis using sorted by (simp only: option.map e(2) simp_thms)
qed

end
