(* ===== verification/Time_Zone.thy ===== *)
theory Time_Zone
  imports Tzdb
begin

text \<open>
  Time zones (\<open>src/time/timezone.rs\<close>, with the errors of \<open>src/time/error.rs\<close>): UTC, fixed offsets and
  named zones, and the resolution of a wall-clock time to an instant across gaps and folds. The crate is
  modelled with its default features. An outer \<open>None\<close> is a panic.
\<close>

section \<open>Errors\<close>

datatype error_kind =
    EkParse | EkOutOfRange | EkInvalid | EkAmbiguous | EkUnknownTimeZone | EkOffsetConflict
  | EkUnknownSystemTimeZone | EkBufferTooSmall

record time_error =
  te_kind :: error_kind
  te_message :: string

definition err_parse :: "string \<Rightarrow> time_error" where
  "err_parse message = \<lparr>te_kind = EkParse, te_message = message\<rparr>"

definition err_out_of_range :: "string \<Rightarrow> time_error" where
  "err_out_of_range message = \<lparr>te_kind = EkOutOfRange, te_message = message\<rparr>"

definition err_invalid :: "string \<Rightarrow> time_error" where
  "err_invalid message = \<lparr>te_kind = EkInvalid, te_message = message\<rparr>"

definition err_unknown_time_zone :: "string \<Rightarrow> time_error" where
  "err_unknown_time_zone message = \<lparr>te_kind = EkUnknownTimeZone, te_message = message\<rparr>"

definition err_offset_conflict :: "string \<Rightarrow> time_error" where
  "err_offset_conflict message = \<lparr>te_kind = EkOffsetConflict, te_message = message\<rparr>"

definition err_ambiguous :: "string \<Rightarrow> time_error" where
  "err_ambiguous message = \<lparr>te_kind = EkAmbiguous, te_message = message\<rparr>"

definition err_buffer_too_small :: "string \<Rightarrow> time_error" where
  "err_buffer_too_small message = \<lparr>te_kind = EkBufferTooSmall, te_message = message\<rparr>"

section \<open>Zones\<close>

datatype disambiguation = Compatible | Earlier | Later | Reject

datatype ambiguity = Exact int | Fold int int | Gap int int

datatype time_zone =
    ZoneUtc
  | ZoneFixed int
  | ZoneNamed zone_entry

definition tz_fixed :: "int \<Rightarrow> (time_error, time_zone) result" where
  "tz_fixed offset =
     (if offset < - OFFSET_LIMIT \<or> offset > OFFSET_LIMIT
      then Err (err_out_of_range ''UTC offset is outside the supported range'')
      else Ok (ZoneFixed offset))"

definition eq_ignore_ascii_case :: "byte list \<Rightarrow> byte list \<Rightarrow> bool" where
  "eq_ignore_ascii_case a b \<longleftrightarrow> map to_ascii_lowercase a = map to_ascii_lowercase b"

definition is_utc_convenience :: "byte list \<Rightarrow> bool" where
  "is_utc_convenience name \<longleftrightarrow> eq_ignore_ascii_case name (ascii_bytes ''z'')"

definition tz_system :: "(time_error, time_zone) result" where
  "tz_system = Ok ZoneUtc"

definition tz_named :: "tz_database \<Rightarrow> byte list \<Rightarrow> (time_error, time_zone) result" where
  "tz_named db name =
     (if is_utc_convenience name then Ok ZoneUtc
      else if eq_ignore_ascii_case name (ascii_bytes ''local'') then tz_system
      else case tzdb_lookup db name of
             Some entry \<Rightarrow> Ok (ZoneNamed entry)
           | None \<Rightarrow> Err (err_unknown_time_zone ''unknown time zone''))"

fun annotation_name :: "time_zone \<Rightarrow> byte list option" where
  "annotation_name (ZoneNamed entry) = Some (ze_name entry)"
| "annotation_name _ = None"

fun tz_name :: "time_zone \<Rightarrow> byte list option" where
  "tz_name ZoneUtc = Some (ascii_bytes ''UTC'')"
| "tz_name (ZoneFixed _) = None"
| "tz_name (ZoneNamed entry) = Some (ze_name entry)"

fun tz_eq :: "time_zone \<Rightarrow> time_zone \<Rightarrow> bool" where
  "tz_eq ZoneUtc ZoneUtc = True"
| "tz_eq (ZoneFixed left) (ZoneFixed right) = (left = right)"
| "tz_eq (ZoneNamed left) (ZoneNamed right) = (ze_name left = ze_name right)"
| "tz_eq _ _ = False"

fun info_at :: "tz_database \<Rightarrow> time_zone \<Rightarrow> int \<Rightarrow> zone_info option option" where
  "info_at db ZoneUtc secs = Some (Some \<lparr>zi_offset = 0, zi_is_dst = False, zi_abbrev = ascii_bytes ''UTC''\<rparr>)"
| "info_at db (ZoneFixed offset) secs = Some (Some \<lparr>zi_offset = offset, zi_is_dst = False, zi_abbrev = []\<rparr>)"
| "info_at db (ZoneNamed entry) secs =
     (case ze_rules entry of
        Embedded zone \<Rightarrow> map_option Some (zone_data_lookup db zone secs)
      | Runtime tzif \<Rightarrow> tzif_lookup tzif secs)"

definition offset_at :: "tz_database \<Rightarrow> time_zone \<Rightarrow> int \<Rightarrow> int option" where
  "offset_at db self secs = map_option (\<lambda>i. case i of Some info \<Rightarrow> zi_offset info | None \<Rightarrow> 0) (info_at db self secs)"

definition is_dst_at :: "tz_database \<Rightarrow> time_zone \<Rightarrow> int \<Rightarrow> bool option" where
  "is_dst_at db self secs = map_option (\<lambda>i. case i of Some info \<Rightarrow> zi_is_dst info | None \<Rightarrow> False) (info_at db self secs)"

fun zone_nearby :: "time_zone \<Rightarrow> int \<Rightarrow> (int \<times> int) option option" where
  "zone_nearby (ZoneNamed entry) local_secs =
     (case ze_rules entry of
        Embedded zone \<Rightarrow> embedded_nearby zone local_secs
      | Runtime tzif \<Rightarrow> nearby_offsets tzif local_secs)"
| "zone_nearby _ local_secs = Some None"

definition candidate_offsets :: "tz_database \<Rightarrow> time_zone \<Rightarrow> int \<Rightarrow> (int \<times> int) option" where
  "candidate_offsets db self local_secs =
     do {
       nearby \<leftarrow> zone_nearby self local_secs;
       case nearby of
         Some pair \<Rightarrow> Some pair
       | None \<Rightarrow> do {
           earlier \<leftarrow> checked_signed 64 (local_secs - PROBE);
           before \<leftarrow> offset_at db self earlier;
           later \<leftarrow> checked_signed 64 (local_secs + PROBE);
           aft \<leftarrow> offset_at db self later;
           Some (before, aft)
         }
     }"

text \<open>The two candidate instants and whether each shows the wall-clock time (shared by the two functions below).\<close>

definition zone_candidates :: "tz_database \<Rightarrow> time_zone \<Rightarrow> int \<Rightarrow> int \<Rightarrow> int \<Rightarrow> (int \<times> bool \<times> int \<times> bool) option" where
  "zone_candidates db self local_secs offset_before offset_after =
     do {
       instant_before \<leftarrow> checked_signed 64 (local_secs - offset_before);
       instant_after \<leftarrow> checked_signed 64 (local_secs - offset_after);
       b \<leftarrow> offset_at db self instant_before;
       a \<leftarrow> offset_at db self instant_after;
       Some (instant_before, b = offset_before, instant_after, a = offset_after)
     }"

fun resolve_with :: "tz_database \<Rightarrow> time_zone \<Rightarrow> int \<Rightarrow> disambiguation \<Rightarrow> (time_error, int) result option" where
  "resolve_with db ZoneUtc local_secs disambiguation = Some (Ok local_secs)"
| "resolve_with db (ZoneFixed offset) local_secs disambiguation = map_option Ok (checked_signed 64 (local_secs - offset))"
| "resolve_with db (ZoneNamed entry) local_secs disambiguation =
     do {
       (offset_before, offset_after) \<leftarrow> candidate_offsets db (ZoneNamed entry) local_secs;
       if offset_before = offset_after then map_option Ok (checked_signed 64 (local_secs - offset_before))
       else do {
         (instant_before, before_ok, instant_after, after_ok) \<leftarrow>
           zone_candidates db (ZoneNamed entry) local_secs offset_before offset_after;
         Some (case (before_ok, after_ok) of
             (True, True) \<Rightarrow>
               (case disambiguation of
                  Later \<Rightarrow> Ok instant_after
                | Reject \<Rightarrow> Err (err_ambiguous ''civil time occurs twice in this time zone'')
                | _ \<Rightarrow> Ok instant_before)
           | (True, False) \<Rightarrow> Ok instant_before
           | (False, True) \<Rightarrow> Ok instant_after
           | (False, False) \<Rightarrow>
               (case disambiguation of
                  Reject \<Rightarrow> Err (err_ambiguous ''civil time does not exist in this time zone'')
                | _ \<Rightarrow> Ok instant_before))
       }
     }"

definition resolve_compatible :: "tz_database \<Rightarrow> time_zone \<Rightarrow> int \<Rightarrow> int option" where
  "resolve_compatible db self local_secs =
     map_option (\<lambda>r. case r of Ok instant \<Rightarrow> instant | Err _ \<Rightarrow> local_secs) (resolve_with db self local_secs Compatible)"

fun classify :: "tz_database \<Rightarrow> time_zone \<Rightarrow> int \<Rightarrow> ambiguity option" where
  "classify db ZoneUtc local_secs = Some (Exact 0)"
| "classify db (ZoneFixed offset) local_secs = Some (Exact offset)"
| "classify db (ZoneNamed entry) local_secs =
     do {
       (offset_before, offset_after) \<leftarrow> candidate_offsets db (ZoneNamed entry) local_secs;
       if offset_before = offset_after then Some (Exact offset_before)
       else do {
         (instant_before, before_ok, instant_after, after_ok) \<leftarrow>
           zone_candidates db (ZoneNamed entry) local_secs offset_before offset_after;
         Some (case (before_ok, after_ok) of
             (True, True) \<Rightarrow> Fold offset_before offset_after
           | (True, False) \<Rightarrow> Exact offset_before
           | (False, True) \<Rightarrow> Exact offset_after
           | (False, False) \<Rightarrow> Gap offset_before offset_after)
       }
     }"

fun bounds_at :: "time_zone \<Rightarrow> int \<Rightarrow> int option \<times> int option" where
  "bounds_at (ZoneNamed entry) secs =
     (case ze_rules entry of
        Embedded zone \<Rightarrow>
          (let starts = zd_starts zone
           in if starts = [] then (None, None)
              else
                let past = partition_point (\<lambda>start. start \<le> secs) starts
                in if past = 0 then (None, Some (starts ! 0))
                   else if past = length starts then (Some (starts ! (length starts - 1)), None)
                   else (Some (starts ! (past - 1)), Some (starts ! past)))
      | Runtime _ \<Rightarrow> (None, None))"
| "bounds_at _ secs = (None, None)"

section \<open>The invariant of a zone\<close>

fun zone_ok :: "time_zone \<Rightarrow> bool" where
  "zone_ok ZoneUtc \<longleftrightarrow> True"
| "zone_ok (ZoneFixed offset) \<longleftrightarrow> \<bar>offset\<bar> \<le> OFFSET_LIMIT"
| "zone_ok (ZoneNamed entry) \<longleftrightarrow>
     (case ze_rules entry of Embedded zone \<Rightarrow> zone_data_ok zone | Runtime tzif \<Rightarrow> tzif_ok tzif)"

definition database_ok :: "tz_database \<Rightarrow> bool" where
  "database_ok db \<longleftrightarrow> names_sorted db \<and> list_all (\<lambda>e. zone_ok (ZoneNamed e)) (db_zones db)"

lemma offset_at_named:
  "offset_at db (ZoneNamed e) t = (case ze_rules e of Embedded z \<Rightarrow> zd_offset_at db z t | Runtime z \<Rightarrow> tzif_offset_at z t)"
  by (auto simp: offset_at_def zd_offset_at_def tzif_offset_at_def option.map_comp o_def split: zone_rules.splits
      intro!: arg_cong2 [of _ _ _ _ map_option] ext split: option.splits)

lemma offset_at_simple [simp]: "offset_at db ZoneUtc t = Some 0" "offset_at db (ZoneFixed offset) t = Some offset"
  by (simp_all add: offset_at_def)

lemma offset_at_total:
  assumes "zone_ok zone" "instant_ok t"
  shows "\<exists>off. offset_at db zone t = Some off"
proof (cases zone)
  case (ZoneNamed e)
  then show ?thesis using assms embedded.lookup_total runtime.lookup_total
    by (cases "ze_rules e") (auto simp: offset_at_named)
qed simp_all

lemma offset_at_limit:
  assumes "zone_ok zone" "offset_at db zone t = Some off"
  shows "\<bar>off\<bar> \<le> OFFSET_LIMIT"
proof (cases zone)
  case (ZoneNamed e)
  then show ?thesis using assms embedded.lookup_limit runtime.lookup_limit
    by (cases "ze_rules e") (auto simp: offset_at_named)
qed (use assms in \<open>auto simp: OFFSET_LIMIT_def\<close>)

lemma checked_small: "\<bar>x\<bar> \<le> 2 ^ 62 \<Longrightarrow> checked_signed 64 x = Some x"
  by (auto simp: checked_signed_def in_signed_def)

text \<open>Without any assumption on the wall-clock time, no lookup panics and the candidates are offsets.\<close>

lemma candidate_offsets_total:
  assumes "zone_ok zone" "\<bar>l\<bar> \<le> 2 ^ 43"
  shows "\<exists>b a. candidate_offsets db zone l = Some (b, a) \<and> \<bar>b\<bar> \<le> OFFSET_LIMIT \<and> \<bar>a\<bar> \<le> OFFSET_LIMIT"
proof -
  have near: "instant_ok l" "instant_ok (l - PROBE)" "instant_ok (l + PROBE)"
    using assms(2) by (auto simp: instant_ok_def PROBE_def SECS_PER_DAY_def)
  have "\<exists>r. zone_nearby zone l = Some r \<and> (\<forall>b a. r = Some (b, a) \<longrightarrow> \<bar>b\<bar> \<le> OFFSET_LIMIT \<and> \<bar>a\<bar> \<le> OFFSET_LIMIT)"
  proof (cases zone)
    case (ZoneNamed e)
    then show ?thesis
      using assms near(1) embedded.nearby_total embedded.nearby_limit runtime.nearby_total runtime.nearby_limit
      by (cases "ze_rules e") fastforce+
  qed simp_all
  then obtain r where r: "zone_nearby zone l = Some r"
    "\<And>b a. r = Some (b, a) \<Longrightarrow> \<bar>b\<bar> \<le> OFFSET_LIMIT \<and> \<bar>a\<bar> \<le> OFFSET_LIMIT" by blast
  have "checked_signed 64 (l - PROBE) = Some (l - PROBE)" "checked_signed 64 (l + PROBE) = Some (l + PROBE)"
    using assms(2) by (auto intro!: checked_small simp: PROBE_def SECS_PER_DAY_def)
  then show ?thesis
    using r offset_at_total [OF assms(1) near(2), of db] offset_at_total [OF assms(1) near(3), of db] offset_at_limit [OF assms(1)]
    by (cases r) (fastforce simp: candidate_offsets_def)+
qed

lemma resolve_total:
  assumes "zone_ok zone" "\<bar>l\<bar> \<le> 2 ^ 43"
  shows "\<exists>r. resolve_with db zone l d = Some r \<and> (\<forall>i. r = Ok i \<longrightarrow> \<bar>l - i\<bar> \<le> OFFSET_LIMIT)" "\<exists>c. classify db zone l = Some c"
proof -
  obtain b a where c: "candidate_offsets db zone l = Some (b, a)" "\<bar>b\<bar> \<le> OFFSET_LIMIT" "\<bar>a\<bar> \<le> OFFSET_LIMIT"
    using candidate_offsets_total [OF assms] by blast
  have chk: "checked_signed 64 (l - off) = Some (l - off)" "instant_ok (l - off)" if "\<bar>off\<bar> \<le> OFFSET_LIMIT" for off
    using that assms(2) by (auto intro!: checked_small simp: OFFSET_LIMIT_def instant_ok_def)
  obtain x y where xy: "offset_at db zone (l - b) = Some x" "offset_at db zone (l - a) = Some y"
    using offset_at_total [OF assms(1) chk(2)] c(2,3) by blast
  note facts = c chk(1) [OF c(2)] chk(1) [OF c(3)] xy
  show "\<exists>r. resolve_with db zone l d = Some r \<and> (\<forall>i. r = Ok i \<longrightarrow> \<bar>l - i\<bar> \<le> OFFSET_LIMIT)"
  proof (cases zone)
    case ZoneUtc
    then show ?thesis by (simp add: OFFSET_LIMIT_def)
  next
    case (ZoneFixed off)
    then show ?thesis using chk(1) [of off] assms(1) by simp
  next
    case (ZoneNamed e)
    then show ?thesis using facts by (auto simp: zone_candidates_def split: disambiguation.splits bool.splits)
  qed
  show "\<exists>c. classify db zone l = Some c" using facts by (cases zone) (auto simp: zone_candidates_def)
qed

section \<open>Wall-clock times\<close>

text \<open>The transitions of a zone, and whether its future agrees with the last one at that instant.\<close>

fun zone_starts :: "time_zone \<Rightarrow> int list" where
  "zone_starts (ZoneNamed e) =
     (case ze_rules e of Embedded z \<Rightarrow> zd_starts z | Runtime z \<Rightarrow> map (transition_at z) [0..<tz_timecnt z])"
| "zone_starts _ = []"

fun zone_settled :: "tz_database \<Rightarrow> time_zone \<Rightarrow> bool" where
  "zone_settled db (ZoneNamed e) \<longleftrightarrow>
     (case ze_rules e of
        Embedded z \<Rightarrow> zd_starts z \<noteq> [] \<longrightarrow>
          zd_future_offset db z (last (zd_starts z)) = zd_kind z (length (zd_starts z) - 1)
      | Runtime z \<Rightarrow> 0 < tz_timecnt z \<longrightarrow>
          tzif_future z (transition_at z (tz_timecnt z - 1)) = tzif_kind z (tz_timecnt z - 1))"
| "zone_settled db _ \<longleftrightarrow> True"

text \<open>
  A wall-clock time is calm in a zone when within twice the largest offset (52 hours) there is at most one
  transition and the offset changes at most there.
\<close>

definition zone_calm :: "tz_database \<Rightarrow> time_zone \<Rightarrow> int \<Rightarrow> bool" where
  "zone_calm db zone l \<longleftrightarrow> (\<exists>T.
     (\<forall>s \<in> set (zone_starts zone). \<bar>s - l\<bar> \<le> 2 * OFFSET_LIMIT \<longrightarrow> s = T) \<and>
     (\<forall>t u. \<bar>t - l\<bar> \<le> 2 * OFFSET_LIMIT \<and> \<bar>u - l\<bar> \<le> 2 * OFFSET_LIMIT \<and> (t < T \<longleftrightarrow> u < T) \<longrightarrow>
        offset_at db zone t = offset_at db zone u))"

lemma calm_embedded: "zone_calm db (ZoneNamed e) l \<Longrightarrow> ze_rules e = Embedded z \<Longrightarrow> embedded.calm db z l"
  unfolding zone_calm_def embedded.calm_def by (simp add: offset_at_named) (metis nth_mem)

lemma calm_runtime: "zone_calm db (ZoneNamed e) l \<Longrightarrow> ze_rules e = Runtime z \<Longrightarrow> runtime.calm z l"
  unfolding zone_calm_def runtime.calm_def by (simp add: offset_at_named) (metis atLeastLessThan_iff zero_le)

lemma settled_embedded: "zone_settled db (ZoneNamed e) \<Longrightarrow> ze_rules e = Embedded z \<Longrightarrow> embedded.settled db z"
  unfolding embedded.settled_def by (auto simp: last_conv_nth)

lemma settled_runtime: "zone_settled db (ZoneNamed e) \<Longrightarrow> ze_rules e = Runtime z \<Longrightarrow> runtime.settled z"
  unfolding runtime.settled_def by auto

lemma zone_window:
  assumes "zone_ok (ZoneNamed e)" "zone_settled db (ZoneNamed e)" "zone_calm db (ZoneNamed e) l" "\<bar>l\<bar> \<le> 2 ^ 43"
  shows "\<exists>b a T. candidate_offsets db (ZoneNamed e) l = Some (b, a) \<and>
    (\<forall>t. \<bar>t - l\<bar> \<le> OFFSET_LIMIT \<longrightarrow> offset_at db (ZoneNamed e) t = Some (if t < T then b else a)) \<and>
    \<bar>a\<bar> \<le> OFFSET_LIMIT \<and> \<bar>b\<bar> \<le> OFFSET_LIMIT"
proof -
  have "\<exists>b a T. (zone_nearby (ZoneNamed e) l = Some (Some (b, a)) \<or>
      (zone_nearby (ZoneNamed e) l = Some None \<and> offset_at db (ZoneNamed e) (l - PROBE) = Some b \<and>
       offset_at db (ZoneNamed e) (l + PROBE) = Some a)) \<and>
    (\<forall>t. \<bar>t - l\<bar> \<le> OFFSET_LIMIT \<longrightarrow> offset_at db (ZoneNamed e) t = Some (if t < T then b else a)) \<and>
    \<bar>a\<bar> \<le> OFFSET_LIMIT \<and> \<bar>b\<bar> \<le> OFFSET_LIMIT"
  proof (cases "ze_rules e")
    case (Embedded z)
    then show ?thesis
      using embedded.window_candidates [of z db l] calm_embedded [OF assms(3)] settled_embedded [OF assms(2)] assms(1,4)
      by (simp add: offset_at_named)
  next
    case (Runtime z)
    then show ?thesis
      using runtime.window_candidates [of z l] calm_runtime [OF assms(3)] settled_runtime [OF assms(2)] assms(1,4)
      by (simp add: offset_at_named)
  qed
  moreover have "checked_signed 64 (l - PROBE) = Some (l - PROBE)" "checked_signed 64 (l + PROBE) = Some (l + PROBE)"
    using assms(4) by (auto intro!: checked_small simp: PROBE_def SECS_PER_DAY_def)
  ultimately show ?thesis unfolding candidate_offsets_def by force
qed

text \<open>The instants at which the clocks of a zone show a wall-clock time.\<close>

definition shows_at :: "tz_database \<Rightarrow> time_zone \<Rightarrow> int \<Rightarrow> int set" where
  "shows_at db zone l = {i. offset_at db zone i = Some (l - i)}"

lemma shows_at_simple: "shows_at db ZoneUtc l = {l}" "shows_at db (ZoneFixed off) l = {l - off}"
  by (auto simp: shows_at_def)

lemma zone_candidates_window:
  assumes "\<And>t. \<bar>t - l\<bar> \<le> OFFSET_LIMIT \<Longrightarrow> offset_at db zone t = Some (if t < T then b else a)"
    "\<bar>a\<bar> \<le> OFFSET_LIMIT" "\<bar>b\<bar> \<le> OFFSET_LIMIT" "\<bar>l\<bar> \<le> 2 ^ 43" "a \<noteq> b"
  shows "zone_candidates db zone l b a = Some (l - b, l - b < T, l - a, \<not> l - a < T)"
proof -
  have "offset_at db zone (l - b) = Some (if l - b < T then b else a)" "offset_at db zone (l - a) = Some (if l - a < T then b else a)"
    using assms(2,3) by (intro assms(1); linarith)+
  moreover have "checked_signed 64 (l - b) = Some (l - b)" "checked_signed 64 (l - a) = Some (l - a)"
    using assms(2-4) by (auto intro!: checked_small simp: OFFSET_LIMIT_def)
  ultimately show ?thesis using assms(5) by (simp add: zone_candidates_def)
qed

lemma named_cases:
  assumes "zone_ok (ZoneNamed e)" "zone_settled db (ZoneNamed e)" "zone_calm db (ZoneNamed e) l" "\<bar>l\<bar> \<le> 2 ^ 43"
  obtains (one) i where "shows_at db (ZoneNamed e) l = {i}" "classify db (ZoneNamed e) l = Some (Exact (l - i))"
      "\<And>d. resolve_with db (ZoneNamed e) l d = Some (Ok i)"
    | (fold) i j where "shows_at db (ZoneNamed e) l = {i, j}" "i < j" "classify db (ZoneNamed e) l = Some (Fold (l - i) (l - j))"
      "\<And>d. resolve_with db (ZoneNamed e) l d = Some (case d of Later \<Rightarrow> Ok j
         | Reject \<Rightarrow> Err (err_ambiguous ''civil time occurs twice in this time zone'') | _ \<Rightarrow> Ok i)"
    | (gap) b a where "shows_at db (ZoneNamed e) l = {}" "b < a" "classify db (ZoneNamed e) l = Some (Gap b a)"
      "offset_at db (ZoneNamed e) (l - b) = Some a"
      "\<And>d. resolve_with db (ZoneNamed e) l d = Some (case d of
           Reject \<Rightarrow> Err (err_ambiguous ''civil time does not exist in this time zone'') | _ \<Rightarrow> Ok (l - b))"
proof -
  obtain b a T where cand: "candidate_offsets db (ZoneNamed e) l = Some (b, a)"
    and win: "\<And>t. \<bar>t - l\<bar> \<le> OFFSET_LIMIT \<Longrightarrow> offset_at db (ZoneNamed e) t = Some (if t < T then b else a)"
    and lim: "\<bar>a\<bar> \<le> OFFSET_LIMIT" "\<bar>b\<bar> \<le> OFFSET_LIMIT" using zone_window [OF assms] by blast
  have all: "shows_at db (ZoneNamed e) l = (if l - b < T then {l - b} else {}) \<union> (if l - a < T then {} else {l - a})"
    unfolding shows_at_def by (rule wall_instants [OF offset_at_limit [OF assms(1)] win lim])
  have small: "checked_signed 64 (l - b) = Some (l - b)" using lim assms(4) by (auto intro!: checked_small simp: OFFSET_LIMIT_def)
  show ?thesis
  proof (cases "a = b")
    case True
    then show ?thesis using one [of "l - b"] all cand small by auto
  next
    case False
    note zc = zone_candidates_window [OF win lim assms(4) False]
    consider "l - b < T" "\<not> l - a < T" | "l - b < T" "l - a < T" | "\<not> l - b < T" "\<not> l - a < T" | "\<not> l - b < T" "l - a < T" by blast
    then show ?thesis
    proof cases
      case 1
      then show ?thesis using fold [of "l - b" "l - a"] all cand zc False by auto
    next
      case 2
      then show ?thesis using one [of "l - b"] all cand zc False by auto
    next
      case 3
      then show ?thesis using one [of "l - a"] all cand zc False by auto
    next
      case 4
      moreover have "offset_at db (ZoneNamed e) (l - b) = Some a" using win [of "l - b"] lim 4 by simp
      ultimately show ?thesis using gap [of b a] all cand zc False by auto
    qed
  qed
qed

lemma classify_cases:
  assumes "zone_ok zone" "zone_settled db zone" "zone_calm db zone l" "\<bar>l\<bar> \<le> 2 ^ 43"
  shows "\<exists>c. classify db zone l = Some c \<and>
    (case c of
       Exact off \<Rightarrow> shows_at db zone l = {l - off}
     | Fold early late \<Rightarrow> shows_at db zone l = {l - early, l - late} \<and> l - early < l - late
     | Gap before after \<Rightarrow> shows_at db zone l = {} \<and> before < after)"
proof (cases zone)
  case (ZoneNamed e)
  from assms [unfolded ZoneNamed] show ?thesis unfolding ZoneNamed
    by (cases rule: named_cases) (simp_all del: classify.simps resolve_with.simps)
qed (simp_all add: shows_at_simple)

lemma resolve_cases:
  assumes "zone_ok zone" "zone_settled db zone" "zone_calm db zone l" "\<bar>l\<bar> \<le> 2 ^ 43"
  shows "if shows_at db zone l = {}
    then (if d = Reject
      then resolve_with db zone l d = Some (Err (err_ambiguous ''civil time does not exist in this time zone''))
      else \<exists>i off. resolve_with db zone l d = Some (Ok i) \<and> offset_at db zone i = Some off \<and> l < i + off)
    else if d = Reject \<and> 1 < card (shows_at db zone l)
      then resolve_with db zone l d = Some (Err (err_ambiguous ''civil time occurs twice in this time zone''))
      else resolve_with db zone l d = Some (Ok (if d = Later then Max (shows_at db zone l) else Min (shows_at db zone l)))"
proof (cases zone)
  case (ZoneFixed off)
  then have "checked_signed 64 (l - off) = Some (l - off)" using assms(1,4) by (auto intro!: checked_small simp: OFFSET_LIMIT_def)
  then show ?thesis by (simp add: ZoneFixed shows_at_simple)
next
  case (ZoneNamed e)
  from assms [unfolded ZoneNamed] show ?thesis
  proof (cases rule: named_cases)
    case (one i)
    then show ?thesis unfolding ZoneNamed by (simp del: classify.simps resolve_with.simps)
  next
    case (fold i j)
    then show ?thesis unfolding ZoneNamed by (cases d) (simp_all del: classify.simps resolve_with.simps)
  next
    case (gap b a)
    then show ?thesis unfolding ZoneNamed by (cases d) (auto simp del: classify.simps resolve_with.simps)
  qed
qed (simp add: shows_at_simple)

lemma embedded_calm: "ze_rules e = Embedded z \<Longrightarrow> embedded.calm db z l \<Longrightarrow> zone_calm db (ZoneNamed e) l"
  unfolding zone_calm_def embedded.calm_def by (simp add: offset_at_named) (metis in_set_conv_nth)

section \<open>Samples\<close>

text \<open>
  New York in 2024 with its two transitions, and a zone that moves twice within a day at offsets of more than
  twelve hours.
\<close>

definition sample_zone :: "int \<Rightarrow> (int \<times> int) list \<Rightarrow> zone_data" where
  "sample_zone initial moves =
     \<lparr>zd_initial = \<lparr>zr_offset = initial, zr_dst = False, zr_abbrev = 0\<rparr>, zd_starts = map fst moves,
      zd_records = map word_of_nat [0..<length moves],
      zd_record_table = map (\<lambda>m. \<lparr>zr_offset = snd m, zr_dst = False, zr_abbrev = 0\<rparr>) moves,
      zd_future = FutureFixed \<lparr>zr_offset = snd (last moves), zr_dst = False, zr_abbrev = 0\<rparr>\<rparr>"

definition sample_named :: "int \<Rightarrow> (int \<times> int) list \<Rightarrow> time_zone" where
  "sample_named initial moves = ZoneNamed \<lparr>ze_name = ascii_bytes ''X'', ze_rules = Embedded (sample_zone initial moves)\<rparr>"

definition new_york_2024 :: time_zone where
  "new_york_2024 = sample_named (- 18000) [(1710054000, - 14400), (1730613600, - 18000)]"

definition two_moves :: time_zone where
  "two_moves = sample_named 50400 [(1000000, 54000), (1086400, 46800)]"

lemma new_york_ok: "zone_ok new_york_2024" "zone_settled sample_db new_york_2024"
  by (code_simp, code_simp)

lemma new_york_calm:
  assumes "\<bar>l\<bar> \<le> 2 ^ 43"
  shows "zone_calm sample_db new_york_2024 l"
proof -
  define z where "z = sample_zone (- 18000) [(1710054000, - 14400), (1730613600, - 18000)]"
  have "zone_data_ok z" using new_york_ok(1) by (simp add: new_york_2024_def sample_named_def z_def)
  moreover have "zd_starts z ! j - zd_starts z ! i > 4 * OFFSET_LIMIT" if "i < j" "j < length (zd_starts z)" for i j
    using that by (auto simp: z_def sample_zone_def OFFSET_LIMIT_def less_Suc_eq numeral_2_eq_2)
  moreover have "zd_future_offset sample_db z t = - 18000" for t
    by (simp add: zd_future_offset_def future_info_def z_def sample_zone_def record_info_def)
  ultimately have "embedded.calm sample_db z l" using assms by (intro embedded.spaced_calm) auto
  then show ?thesis unfolding new_york_2024_def sample_named_def z_def [symmetric] by (intro embedded_calm) simp_all
qed

text \<open>
  The transition nearest to the wall-clock time need not be the one that matters: a time that exists once
  is taken for a gap, when two transitions are a day apart and the offset is above twelve hours.
\<close>

lemma two_moves_gap:
  "classify sample_db two_moves 1048600 = Some (Gap 54000 46800)" "offset_at sample_db two_moves 998200 = Some (1048600 - 998200)"
  by (code_simp, code_simp)

section \<open>Properties\<close>

text \<open>
  C15: how a wall-clock time maps to instants. For a zone whose rules are well formed and settled, and a
  time with at most one transition within 52 hours, \<open>classify\<close> answers \<open>Exact\<close> when the clocks of the zone show the
  time at exactly one instant, \<open>Fold\<close> with the offsets of the earlier and the later instant when they show it
  twice, and \<open>Gap\<close> when they never show it; and it does not panic.
\<close>

theorem classify_correct:
  assumes "zone_ok zone" "zone_settled db zone" "zone_calm db zone l" "\<bar>l\<bar> \<le> 2 ^ 43"
  shows "\<exists>c. classify db zone l = Some c \<and>
    (case c of
       Exact off \<Rightarrow> shows_at db zone l = {l - off}
     | Fold early late \<Rightarrow> shows_at db zone l = {l - early, l - late} \<and> l - early < l - late
     | Gap before after \<Rightarrow> shows_at db zone l = {} \<and> before < after)"
  by (rule classify_cases [OF assms])

theorem classify_correct_witness:
  "zone_ok new_york_2024 \<and> zone_calm sample_db new_york_2024 1730597400 \<and>
   classify sample_db new_york_2024 1730597400 = Some (Fold (- 14400) (- 18000)) \<and>
   shows_at sample_db new_york_2024 1730597400 = {1730611800, 1730615400}"
proof -
  have fold: "classify sample_db new_york_2024 1730597400 = Some (Fold (- 14400) (- 18000))" by code_simp
  have calm: "zone_calm sample_db new_york_2024 1730597400" by (rule new_york_calm) simp
  show ?thesis using classify_correct [OF new_york_ok calm] new_york_ok calm fold by simp
qed

text \<open>
  C16: resolving a wall-clock time. Under the same conditions the instant returned shows the time: the only
  one, or the later of two under \<open>Later\<close> and the earlier otherwise; under \<open>Reject\<close> a repeated or a skipped
  time is an error; otherwise a skipped time is moved forward, to an instant at which the clocks show a later time.
\<close>

theorem resolve_correct:
  assumes "zone_ok zone" "zone_settled db zone" "zone_calm db zone l" "\<bar>l\<bar> \<le> 2 ^ 43"
  shows "if shows_at db zone l = {}
    then (if d = Reject
      then resolve_with db zone l d = Some (Err (err_ambiguous ''civil time does not exist in this time zone''))
      else \<exists>i off. resolve_with db zone l d = Some (Ok i) \<and> offset_at db zone i = Some off \<and> l < i + off)
    else if d = Reject \<and> 1 < card (shows_at db zone l)
      then resolve_with db zone l d = Some (Err (err_ambiguous ''civil time occurs twice in this time zone''))
      else resolve_with db zone l d = Some (Ok (if d = Later then Max (shows_at db zone l) else Min (shows_at db zone l)))"
  by (rule resolve_cases [OF assms])

theorem resolve_correct_witness:
  "resolve_with sample_db new_york_2024 1730597400 Later = Some (Ok 1730615400) \<and>
   (if shows_at sample_db new_york_2024 1710037800 = {}
    then \<exists>i off. resolve_with sample_db new_york_2024 1710037800 Compatible = Some (Ok i) \<and>
      offset_at sample_db new_york_2024 i = Some off \<and> 1710037800 < i + off else False)"
proof -
  have "classify sample_db new_york_2024 1710037800 = Some (Gap (- 18000) (- 14400))" by code_simp
  moreover have calm: "zone_calm sample_db new_york_2024 1710037800" by (rule new_york_calm) simp
  ultimately have none: "shows_at sample_db new_york_2024 1710037800 = {}"
    using classify_cases [OF new_york_ok calm] by simp
  have "resolve_with sample_db new_york_2024 1730597400 Later = Some (Ok 1730615400)" by code_simp
  then show ?thesis using resolve_correct [OF new_york_ok calm, of Compatible] none by simp
qed

lemma sample_db_ok: "database_ok sample_db"
proof -
  have "tzif_parse (sample_file [] []) = Some (sample_tzif [] [])" by code_simp
  moreover have "footer_readable (sample_tzif [] [])" by code_simp
  moreover have "tz_timecnt (sample_tzif [] []) = 0" "tz_typecnt (sample_tzif [] []) = 1" by (code_simp, code_simp)
  moreover have "info_for_type (sample_tzif [] []) 0 = Some \<lparr>zi_offset = 0, zi_is_dst = False, zi_abbrev = ascii_bytes ''UTC''\<rparr>"
    by code_simp
  moreover have "footer_rule (sample_tzif [] []) = None" by code_simp
  ultimately have "tzif_ok (sample_tzif [] [])" using tzif_parse_valid by (simp add: tzif_ok_def OFFSET_LIMIT_def)
  moreover have "names_sorted sample_db" by code_simp
  ultimately show ?thesis by (simp add: database_ok_def sample_db_def)
qed

text \<open>
  C34: the invariant of a zone. Every zone that the constructors return (UTC, a fixed offset, a name found in a
  well-formed database) has rules that answer at every instant within half a million years of the epoch,
  without a panic, by an offset within 25:59:59 of UTC.
\<close>

theorem time_zone_invariant:
  assumes "database_ok db" "zone = ZoneUtc \<or> tz_fixed off = Ok zone \<or> tz_named db name = Ok zone" "instant_ok t"
  shows "zone_ok zone \<and> (\<exists>o'. offset_at db zone t = Some o' \<and> \<bar>o'\<bar> \<le> 93599)"
proof -
  have "zone_ok zone"
    using assms(1,2) tzdb_lookup_sound [of db name]
    by (auto simp: tz_fixed_def tz_named_def tz_system_def database_ok_def list_all_iff split: if_splits option.splits)
  then show ?thesis using offset_at_total [of zone t db] offset_at_limit [of zone db t] assms(3) by (auto simp: OFFSET_LIMIT_def)
qed

theorem time_zone_invariant_witness:
  "database_ok sample_db \<and> tz_fixed 3600 = Ok (ZoneFixed 3600) \<and> zone_ok (ZoneFixed 3600) \<and>
   (\<exists>o'. offset_at sample_db (ZoneFixed 3600) 0 = Some o' \<and> \<bar>o'\<bar> \<le> 93599)"
proof -
  have fixed: "tz_fixed 3600 = Ok (ZoneFixed 3600)" by (simp add: tz_fixed_def OFFSET_LIMIT_def)
  have "instant_ok 0" by (simp add: instant_ok_def)
  then show ?thesis using time_zone_invariant [OF sample_db_ok disjI2 [OF disjI1 [OF fixed]], of 0] sample_db_ok fixed by blast
qed

end
