(* ===== verification/Date_Time.thy ===== *)
theory Date_Time
  imports Time_Zone
begin

text \<open>
  Instants with a time zone (\<open>src/time/datetime.rs\<close>): construction from civil fields and from the Unix time,
  the fields of a value, arithmetic with durations and on the calendar, comparison. \<open>Duration\<close>,
  \<open>Instant\<close> and \<open>SystemTime\<close> of the standard library are numbers of nanoseconds with the ranges they have on
  64-bit Unix. An outer \<open>None\<close> is a panic.
\<close>

section \<open>The standard library\<close>

definition try_bind :: "('e, 'a) result option \<Rightarrow> ('a \<Rightarrow> ('e, 'b) result option) \<Rightarrow> ('e, 'b) result option" where
  "try_bind r f = (case r of None \<Rightarrow> None | Some (Err e) \<Rightarrow> Some (Err e) | Some (Ok x) \<Rightarrow> f x)"

lemma try_bind_simps [simp]:
  "try_bind None f = None" "try_bind (Some (Err e)) f = Some (Err e)" "try_bind (Some (Ok x)) f = f x"
  by (simp_all add: try_bind_def)

record duration =
  as_secs :: int
  subsec_nanos :: int

definition duration_ok :: "duration \<Rightarrow> bool" where
  "duration_ok d \<longleftrightarrow> 0 \<le> as_secs d \<and> as_secs d < 2 ^ 64 \<and> 0 \<le> subsec_nanos d \<and> subsec_nanos d < 1000000000"

definition duration_nanos :: "duration \<Rightarrow> int" where
  "duration_nanos d = as_secs d * 1000000000 + subsec_nanos d"

definition duration_of_nanos :: "int \<Rightarrow> duration" where
  "duration_of_nanos n = \<lparr>as_secs = n div 1000000000, subsec_nanos = n mod 1000000000\<rparr>"

text \<open>A point of the monotonic clock or of the system clock: nanoseconds, whose seconds are an \<open>i64\<close>.\<close>

definition clock_point :: "int \<Rightarrow> int option" where
  "clock_point n = (if in_signed 64 (n div 1000000000) then Some n else None)"

definition clock_checked_add :: "int \<Rightarrow> duration \<Rightarrow> int option" where
  "clock_checked_add t d = clock_point (t + duration_nanos d)"

definition clock_checked_sub :: "int \<Rightarrow> duration \<Rightarrow> int option" where
  "clock_checked_sub t d = clock_point (t - duration_nanos d)"

definition checked_duration_since :: "int \<Rightarrow> int \<Rightarrow> duration option" where
  "checked_duration_since t u = (if u \<le> t then Some (duration_of_nanos (t - u)) else None)"

definition system_duration_since :: "int \<Rightarrow> int \<Rightarrow> (duration, duration) result" where
  "system_duration_since t u = (if u \<le> t then Ok (duration_of_nanos (t - u)) else Err (duration_of_nanos (u - t)))"

section \<open>Civil fields\<close>

definition MIN_YEAR :: int where
  "MIN_YEAR = - 9999"

definition MAX_YEAR :: int where
  "MAX_YEAR = 9999"

definition MIN_SECS :: int where
  "MIN_SECS = days_from_civil MIN_YEAR 1 1 * SECS_PER_DAY"

definition MAX_SECS :: int where
  "MAX_SECS = days_from_civil MAX_YEAR 12 31 * SECS_PER_DAY + (SECS_PER_DAY - 1)"

definition local_seconds_checked :: "int \<Rightarrow> int \<Rightarrow> int \<Rightarrow> int \<Rightarrow> int \<Rightarrow> int \<Rightarrow> (time_error, int) result" where
  "local_seconds_checked year month day hour minute second =
     (if \<not> (MIN_YEAR \<le> year \<and> year \<le> MAX_YEAR) then Err (err_out_of_range ''year is outside the supported range'')
      else if \<not> (1 \<le> month \<and> month \<le> 12) then Err (err_invalid ''month is not in 1..=12'')
      else if day < 1 \<or> day > days_in_month year month then Err (err_invalid ''day is not valid for the given month'')
      else if hour > 23 then Err (err_invalid ''hour is not in 0..=23'')
      else if minute > 59 then Err (err_invalid ''minute is not in 0..=59'')
      else if second > 60 then Err (err_invalid ''second is not in 0..=60'')
      else
        let second = (if second = 60 then 59 else second)
        in Ok (days_from_civil year month day * SECS_PER_DAY + hour * 3600 + minute * 60 + second))"

datatype weekday = Monday | Tuesday | Wednesday | Thursday | Friday | Saturday | Sunday

definition weekday_from_index :: "int \<Rightarrow> weekday" where
  "weekday_from_index index =
     (if index = 0 then Monday else if index = 1 then Tuesday else if index = 2 then Wednesday
      else if index = 3 then Thursday else if index = 4 then Friday else if index = 5 then Saturday else Sunday)"

fun weekday_name :: "weekday \<Rightarrow> string" where
  "weekday_name Monday = ''Monday''"
| "weekday_name Tuesday = ''Tuesday''"
| "weekday_name Wednesday = ''Wednesday''"
| "weekday_name Thursday = ''Thursday''"
| "weekday_name Friday = ''Friday''"
| "weekday_name Saturday = ''Saturday''"
| "weekday_name Sunday = ''Sunday''"

fun weekday_short_name :: "weekday \<Rightarrow> string" where
  "weekday_short_name Monday = ''Mon''"
| "weekday_short_name Tuesday = ''Tue''"
| "weekday_short_name Wednesday = ''Wed''"
| "weekday_short_name Thursday = ''Thu''"
| "weekday_short_name Friday = ''Fri''"
| "weekday_short_name Saturday = ''Sat''"
| "weekday_short_name Sunday = ''Sun''"

fun number_from_monday :: "weekday \<Rightarrow> int" where
  "number_from_monday Monday = 1"
| "number_from_monday Tuesday = 2"
| "number_from_monday Wednesday = 3"
| "number_from_monday Thursday = 4"
| "number_from_monday Friday = 5"
| "number_from_monday Saturday = 6"
| "number_from_monday Sunday = 7"

fun number_from_sunday :: "weekday \<Rightarrow> int" where
  "number_from_sunday Sunday = 0"
| "number_from_sunday Monday = 1"
| "number_from_sunday Tuesday = 2"
| "number_from_sunday Wednesday = 3"
| "number_from_sunday Thursday = 4"
| "number_from_sunday Friday = 5"
| "number_from_sunday Saturday = 6"

section \<open>Values and their construction\<close>

record date_time =
  dt_secs :: int
  dt_nanos :: int
  dt_offset :: int
  dt_zone :: time_zone
  dt_monotonic :: "int option"

definition UNIX_EPOCH :: date_time where
  "UNIX_EPOCH = \<lparr>dt_secs = 0, dt_nanos = 0, dt_offset = 0, dt_zone = ZoneUtc, dt_monotonic = None\<rparr>"

definition dt_from_raw :: "int \<Rightarrow> int \<Rightarrow> int \<Rightarrow> time_zone \<Rightarrow> date_time" where
  "dt_from_raw secs nanos offset zone =
     \<lparr>dt_secs = secs, dt_nanos = nanos, dt_offset = offset, dt_zone = zone, dt_monotonic = None\<rparr>"

definition dt_from_raw_checked :: "tz_database \<Rightarrow> int \<Rightarrow> int \<Rightarrow> time_zone \<Rightarrow> (time_error, date_time) result option" where
  "dt_from_raw_checked db secs nanos zone =
     (if \<not> (MIN_SECS \<le> secs \<and> secs \<le> MAX_SECS)
      then Some (Err (err_out_of_range ''instant is outside the supported range''))
      else do {
        offset \<leftarrow> offset_at db zone secs;
        Some (Ok \<lparr>dt_secs = secs, dt_nanos = nanos, dt_offset = offset, dt_zone = zone, dt_monotonic = None\<rparr>)
      })"

definition dt_from_unix_nanos :: "tz_database \<Rightarrow> int \<Rightarrow> (time_error, date_time) result option" where
  "dt_from_unix_nanos db nanoseconds =
     (case checked_signed 64 (nanoseconds div 1000000000) of
        None \<Rightarrow> Some (Err (err_out_of_range ''instant is outside the supported range''))
      | Some seconds \<Rightarrow>
          let nanos = as_unsigned 32 (nanoseconds mod 1000000000)
          in dt_from_raw_checked db seconds nanos ZoneUtc)"

definition dt_from_unix :: "tz_database \<Rightarrow> int \<Rightarrow> (time_error, date_time) result option" where
  "dt_from_unix db seconds = dt_from_unix_nanos db (seconds * 1000000000)"

definition dt_from_parts_with ::
  "tz_database \<Rightarrow> int \<Rightarrow> int \<Rightarrow> int \<Rightarrow> int \<Rightarrow> int \<Rightarrow> int \<Rightarrow> int \<Rightarrow> time_zone \<Rightarrow> disambiguation \<Rightarrow> (time_error, date_time) result option"
where
  "dt_from_parts_with db year month day hour minute second nanosecond zone disambiguation =
     (if nanosecond \<ge> NANOS_PER_SEC then Some (Err (err_invalid ''nanosecond is not in 0..1_000_000_000''))
      else
        try_bind (Some (local_seconds_checked year month day hour minute second)) (\<lambda>local_secs.
        try_bind (resolve_with db zone local_secs disambiguation) (\<lambda>instant.
        dt_from_raw_checked db instant nanosecond zone)))"

definition dt_from_parts ::
  "tz_database \<Rightarrow> int \<Rightarrow> int \<Rightarrow> int \<Rightarrow> int \<Rightarrow> int \<Rightarrow> int \<Rightarrow> int \<Rightarrow> time_zone \<Rightarrow> (time_error, date_time) result option"
where
  "dt_from_parts db year month day hour minute second nanosecond zone =
     dt_from_parts_with db year month day hour minute second nanosecond zone Compatible"

text \<open>\<open>TimeZone::ambiguity\<close> of \<open>src/time/timezone.rs\<close>.\<close>

definition tz_ambiguity ::
  "tz_database \<Rightarrow> time_zone \<Rightarrow> int \<Rightarrow> int \<Rightarrow> int \<Rightarrow> int \<Rightarrow> int \<Rightarrow> int \<Rightarrow> (time_error, ambiguity) result option"
where
  "tz_ambiguity db self year month day hour minute second =
     try_bind (Some (local_seconds_checked year month day hour minute second)) (\<lambda>local_secs.
     map_option Ok (classify db self local_secs))"

definition dt_in_timezone :: "tz_database \<Rightarrow> date_time \<Rightarrow> time_zone \<Rightarrow> date_time option" where
  "dt_in_timezone db self zone =
     do {
       offset \<leftarrow> offset_at db zone (dt_secs self);
       Some \<lparr>dt_secs = dt_secs self, dt_nanos = dt_nanos self, dt_offset = offset, dt_zone = zone, dt_monotonic = dt_monotonic self\<rparr>
     }"

definition dt_in_timezone_checked :: "tz_database \<Rightarrow> date_time \<Rightarrow> time_zone \<Rightarrow> (time_error, date_time) result option" where
  "dt_in_timezone_checked db self zone =
     (if dt_secs self < MIN_SECS \<or> dt_secs self > MAX_SECS
      then Some (Err (err_out_of_range ''instant is outside the supported range''))
      else map_option Ok (dt_in_timezone db self zone))"

text \<open>The current time, from a reading of the system clock (since the epoch) and one of the monotonic clock.\<close>

definition dt_now_in :: "tz_database \<Rightarrow> int \<Rightarrow> int \<Rightarrow> time_zone \<Rightarrow> date_time option" where
  "dt_now_in db system_now instant_now zone =
     do {
       (seconds, nanos) \<leftarrow>
         (case system_duration_since system_now 0 of
            Ok duration \<Rightarrow> Some (as_signed 64 (as_secs duration), subsec_nanos duration)
          | Err duration \<Rightarrow>
              let seconds = as_signed 64 (as_secs duration)
              in if subsec_nanos duration = 0
                 then map_option (\<lambda>s. (s, 0)) (checked_signed 64 (- seconds))
                 else do {
                   s \<leftarrow> checked_signed 64 (- seconds);
                   s \<leftarrow> checked_signed 64 (s - 1);
                   Some (s, 1000000000 - subsec_nanos duration)
                 });
       r \<leftarrow> dt_from_unix_nanos db (seconds * 1000000000 + nanos);
       let utc = (case r of Ok dt \<Rightarrow> dt | Err _ \<Rightarrow> UNIX_EPOCH);
       result \<leftarrow> dt_in_timezone db utc zone;
       Some (result\<lparr>dt_monotonic := Some instant_now\<rparr>)
     }"

definition dt_now :: "tz_database \<Rightarrow> int \<Rightarrow> int \<Rightarrow> date_time option" where
  "dt_now db system_now instant_now = dt_now_in db system_now instant_now ZoneUtc"

definition dt_try_from_system_time :: "tz_database \<Rightarrow> int \<Rightarrow> (time_error, date_time) result option" where
  "dt_try_from_system_time db system_time =
     (let range = err_out_of_range ''instant is outside the supported range''
      in case system_duration_since system_time 0 of
           Ok duration \<Rightarrow>
             (case checked_signed 64 (as_secs duration) of
                None \<Rightarrow> Some (Err range)
              | Some seconds \<Rightarrow> dt_from_unix_nanos db (seconds * 1000000000 + subsec_nanos duration))
         | Err duration \<Rightarrow>
             (case checked_signed 64 (as_secs duration) of
                None \<Rightarrow> Some (Err range)
              | Some seconds \<Rightarrow>
                  if subsec_nanos duration = 0 then dt_from_unix_nanos db (- seconds * 1000000000 + 0)
                  else do {
                    s \<leftarrow> checked_signed 64 (- seconds - 1);
                    dt_from_unix_nanos db (s * 1000000000 + (1000000000 - subsec_nanos duration))
                  }))"

section \<open>Fields\<close>

definition dt_unix :: "date_time \<Rightarrow> int" where
  "dt_unix self = dt_secs self"

definition dt_unix_nanos :: "date_time \<Rightarrow> int" where
  "dt_unix_nanos self = dt_secs self * 1000000000 + dt_nanos self"

definition dt_timezone_name :: "date_time \<Rightarrow> byte list option" where
  "dt_timezone_name self = annotation_name (dt_zone self)"

definition dt_is_dst :: "tz_database \<Rightarrow> date_time \<Rightarrow> bool option" where
  "dt_is_dst db self = is_dst_at db (dt_zone self) (dt_secs self)"

definition dt_parts :: "date_time \<Rightarrow> (int \<times> int \<times> int \<times> int \<times> int \<times> int \<times> int) option" where
  "dt_parts self =
     do {
       local_secs \<leftarrow> checked_signed 64 (dt_secs self + dt_offset self);
       let days = local_secs div SECS_PER_DAY;
       let seconds = local_secs mod SECS_PER_DAY;
       (year, month, day) \<leftarrow> civil_from_days days;
       let hour = as_unsigned 8 (tdiv seconds 3600);
       let minute = as_unsigned 8 (tdiv (trem seconds 3600) 60);
       let second = as_unsigned 8 (trem seconds 60);
       Some (year, month, day, hour, minute, second, dt_nanos self)
     }"

definition dt_year :: "date_time \<Rightarrow> int option" where
  "dt_year self = map_option (\<lambda>(year, month, day, hour, minute, second, nanos). year) (dt_parts self)"

definition dt_month :: "date_time \<Rightarrow> int option" where
  "dt_month self = map_option (\<lambda>(year, month, day, hour, minute, second, nanos). month) (dt_parts self)"

definition dt_day :: "date_time \<Rightarrow> int option" where
  "dt_day self = map_option (\<lambda>(year, month, day, hour, minute, second, nanos). day) (dt_parts self)"

definition dt_hour :: "date_time \<Rightarrow> int option" where
  "dt_hour self = map_option (\<lambda>(year, month, day, hour, minute, second, nanos). hour) (dt_parts self)"

definition dt_minute :: "date_time \<Rightarrow> int option" where
  "dt_minute self = map_option (\<lambda>(year, month, day, hour, minute, second, nanos). minute) (dt_parts self)"

definition dt_second :: "date_time \<Rightarrow> int option" where
  "dt_second self = map_option (\<lambda>(year, month, day, hour, minute, second, nanos). second) (dt_parts self)"

definition dt_millisecond :: "date_time \<Rightarrow> int" where
  "dt_millisecond self = tdiv (dt_nanos self) 1000000"

definition dt_microsecond :: "date_time \<Rightarrow> int" where
  "dt_microsecond self = tdiv (dt_nanos self) 1000"

definition dt_weekday :: "date_time \<Rightarrow> weekday option" where
  "dt_weekday self =
     do {
       local_secs \<leftarrow> checked_signed 64 (dt_secs self + dt_offset self);
       w \<leftarrow> weekday_from_days (local_secs div SECS_PER_DAY);
       Some (weekday_from_index w)
     }"

definition dt_ordinal :: "date_time \<Rightarrow> int option" where
  "dt_ordinal self =
     do { (year, month, day, _, _, _, _) \<leftarrow> dt_parts self; Some (ordinal year month day) }"

definition dt_iso_week :: "date_time \<Rightarrow> (int \<times> int) option" where
  "dt_iso_week self =
     do { (year, month, day, _, _, _, _) \<leftarrow> dt_parts self; iso_week year month day }"

definition dt_abbreviation :: "tz_database \<Rightarrow> date_time \<Rightarrow> byte list option option" where
  "dt_abbreviation db self =
     map_option (\<lambda>i. case i of
         Some info \<Rightarrow> if zi_abbrev info = [] then None else Some (zi_abbrev info)
       | None \<Rightarrow> None) (info_at db (dt_zone self) (dt_secs self))"

definition dt_has_monotonic :: "date_time \<Rightarrow> bool" where
  "dt_has_monotonic self \<longleftrightarrow> dt_monotonic self \<noteq> None"

section \<open>Arithmetic\<close>

definition dt_checked_add :: "tz_database \<Rightarrow> date_time \<Rightarrow> duration \<Rightarrow> (time_error, date_time) result option" where
  "dt_checked_add db self duration =
     (case do {
        v \<leftarrow> checked_signed 128 (dt_unix_nanos self + as_secs duration * 1000000000);
        checked_signed 128 (v + subsec_nanos duration)
      } of
        None \<Rightarrow> Some (Err (err_out_of_range ''result is outside the supported range''))
      | Some nanoseconds \<Rightarrow>
          try_bind (dt_from_unix_nanos db nanoseconds) (\<lambda>utc.
          try_bind (dt_in_timezone_checked db utc (dt_zone self)) (\<lambda>result.
          Some (Ok (result\<lparr>dt_monotonic := Option.bind (dt_monotonic self) (\<lambda>reading. clock_checked_add reading duration)\<rparr>)))))"

definition dt_checked_sub :: "tz_database \<Rightarrow> date_time \<Rightarrow> duration \<Rightarrow> (time_error, date_time) result option" where
  "dt_checked_sub db self duration =
     (case do {
        v \<leftarrow> checked_signed 128 (dt_unix_nanos self - as_secs duration * 1000000000);
        checked_signed 128 (v - subsec_nanos duration)
      } of
        None \<Rightarrow> Some (Err (err_out_of_range ''result is outside the supported range''))
      | Some nanoseconds \<Rightarrow>
          try_bind (dt_from_unix_nanos db nanoseconds) (\<lambda>utc.
          try_bind (dt_in_timezone_checked db utc (dt_zone self)) (\<lambda>result.
          Some (Ok (result\<lparr>dt_monotonic := Option.bind (dt_monotonic self) (\<lambda>reading. clock_checked_sub reading duration)\<rparr>)))))"

definition dt_saturating_add :: "tz_database \<Rightarrow> date_time \<Rightarrow> duration \<Rightarrow> date_time option" where
  "dt_saturating_add db self duration =
     do {
       r \<leftarrow> dt_checked_add db self duration;
       case r of
         Ok dt \<Rightarrow> Some dt
       | Err _ \<Rightarrow> do {
           m \<leftarrow> dt_from_raw_checked db MAX_SECS 999999999 (dt_zone self);
           Some (case m of Ok dt \<Rightarrow> dt | Err _ \<Rightarrow> dt_from_raw MAX_SECS 999999999 (dt_offset self) (dt_zone self))
         }
     }"

definition dt_saturating_sub :: "tz_database \<Rightarrow> date_time \<Rightarrow> duration \<Rightarrow> date_time option" where
  "dt_saturating_sub db self duration =
     do {
       r \<leftarrow> dt_checked_sub db self duration;
       case r of
         Ok dt \<Rightarrow> Some dt
       | Err _ \<Rightarrow> do {
           m \<leftarrow> dt_from_raw_checked db MIN_SECS 0 (dt_zone self);
           Some (case m of Ok dt \<Rightarrow> dt | Err _ \<Rightarrow> dt_from_raw MIN_SECS 0 (dt_offset self) (dt_zone self))
         }
     }"

text \<open>The operators \<open>+\<close> and \<open>-\<close> panic where the checked operations report an error.\<close>

definition dt_add :: "tz_database \<Rightarrow> date_time \<Rightarrow> duration \<Rightarrow> date_time option" where
  "dt_add db self rhs = Option.bind (dt_checked_add db self rhs) result_unwrap"

definition dt_sub :: "tz_database \<Rightarrow> date_time \<Rightarrow> duration \<Rightarrow> date_time option" where
  "dt_sub db self rhs = Option.bind (dt_checked_sub db self rhs) result_unwrap"

definition difference_between :: "int \<Rightarrow> int \<Rightarrow> (int \<times> int) option" where
  "difference_between left right =
     (case checked_duration_since left right of
        Some duration \<Rightarrow> Some (as_signed 64 (as_secs duration), subsec_nanos duration)
      | None \<Rightarrow>
          (case checked_duration_since right left of
             Some duration \<Rightarrow>
               (let seconds = as_signed 64 (as_secs duration)
                in if subsec_nanos duration = 0 then map_option (\<lambda>s. (s, 0)) (checked_signed 64 (- seconds))
                   else do {
                     s \<leftarrow> checked_signed 64 (- seconds);
                     s \<leftarrow> checked_signed 64 (s - 1);
                     Some (s, 1000000000 - subsec_nanos duration)
                   })
           | None \<Rightarrow> Some (0, 0)))"

definition dt_signed_duration_since :: "date_time \<Rightarrow> date_time \<Rightarrow> (int \<times> int) option" where
  "dt_signed_duration_since self other =
     (case (dt_monotonic self, dt_monotonic other) of
        (Some left, Some right) \<Rightarrow> difference_between left right
      | _ \<Rightarrow> do {
          seconds \<leftarrow> checked_signed 64 (dt_secs self - dt_secs other);
          let nanos = dt_nanos self - dt_nanos other;
          if nanos < 0
          then do { seconds \<leftarrow> checked_signed 64 (seconds - 1); Some (seconds, as_unsigned 32 (nanos + 1000000000)) }
          else Some (seconds, as_unsigned 32 nanos)
        })"

definition dt_duration_since :: "date_time \<Rightarrow> date_time \<Rightarrow> (time_error, duration) result option" where
  "dt_duration_since self earlier =
     do {
       (seconds, nanos) \<leftarrow> dt_signed_duration_since self earlier;
       Some (if seconds < 0 then Err (err_out_of_range ''earlier is later than self'')
             else Ok \<lparr>as_secs = as_unsigned 64 seconds, subsec_nanos = nanos\<rparr>)
     }"

definition dt_duration_until :: "date_time \<Rightarrow> date_time \<Rightarrow> (time_error, duration) result option" where
  "dt_duration_until self later = dt_duration_since later self"

definition dt_elapsed :: "tz_database \<Rightarrow> int \<Rightarrow> int \<Rightarrow> date_time \<Rightarrow> (time_error, duration) result option" where
  "dt_elapsed db system_now instant_now self =
     do { now \<leftarrow> dt_now_in db system_now instant_now (dt_zone self); dt_duration_since now self }"

definition dt_bound :: "tz_database \<Rightarrow> time_zone \<Rightarrow> int option \<Rightarrow> date_time option option" where
  "dt_bound db zone bound =
     (case bound of
        None \<Rightarrow> Some None
      | Some secs \<Rightarrow> map_option (\<lambda>r. case r of Ok dt \<Rightarrow> Some dt | Err _ \<Rightarrow> None) (dt_from_raw_checked db secs 0 zone))"

definition dt_zone_bounds :: "tz_database \<Rightarrow> date_time \<Rightarrow> (date_time option \<times> date_time option) option" where
  "dt_zone_bounds db self =
     do {
       let (start, end) = bounds_at (dt_zone self) (dt_secs self);
       s \<leftarrow> dt_bound db (dt_zone self) start;
       e \<leftarrow> dt_bound db (dt_zone self) end;
       Some (s, e)
     }"

definition dt_add_days :: "tz_database \<Rightarrow> date_time \<Rightarrow> int \<Rightarrow> (time_error, date_time) result option" where
  "dt_add_days db self days =
     do {
       (year, month, day, hour, minute, second, nanos) \<leftarrow> dt_parts self;
       case checked_signed 64 (days_from_civil year month day + days) of
         None \<Rightarrow> Some (Err (err_out_of_range ''result is outside the supported range''))
       | Some target \<Rightarrow> do {
           (year, month, day) \<leftarrow> civil_from_days target;
           dt_from_parts db year month day hour minute second nanos (dt_zone self)
         }
     }"

definition dt_add_months :: "tz_database \<Rightarrow> date_time \<Rightarrow> int \<Rightarrow> (time_error, date_time) result option" where
  "dt_add_months db self months =
     do {
       (year, month, day, hour, minute, second, nanos) \<leftarrow> dt_parts self;
       let months_total = year * 12 + month - 1 + months;
       case checked_signed 32 (months_total div 12) of
         None \<Rightarrow> Some (Err (err_out_of_range ''result is outside the supported range''))
       | Some new_year \<Rightarrow>
           let new_month = as_unsigned 8 (months_total mod 12 + 1);
               new_day = min day (days_in_month new_year new_month)
           in dt_from_parts db new_year new_month new_day hour minute second nanos (dt_zone self)
     }"

definition dt_add_years :: "tz_database \<Rightarrow> date_time \<Rightarrow> int \<Rightarrow> (time_error, date_time) result option" where
  "dt_add_years db self years =
     do {
       (year, month, day, hour, minute, second, nanos) \<leftarrow> dt_parts self;
       case checked_signed 32 (year + years) of
         None \<Rightarrow> Some (Err (err_out_of_range ''result is outside the supported range''))
       | Some new_year \<Rightarrow>
           let new_day = min day (days_in_month new_year month)
           in dt_from_parts db new_year month new_day hour minute second nanos (dt_zone self)
     }"

text \<open>The conversion to the system clock, a number of nanoseconds.\<close>

definition dt_to_system_time :: "date_time \<Rightarrow> int" where
  "dt_to_system_time dt =
     (let nanos = dt_unix_nanos dt
      in if nanos \<ge> 0 then
           let d = \<lparr>as_secs = as_unsigned 64 (tdiv nanos 1000000000), subsec_nanos = as_unsigned 32 (trem nanos 1000000000)\<rparr>
           in (case clock_checked_add 0 d of Some t \<Rightarrow> t | None \<Rightarrow> 0)
         else
           let magnitude = - nanos;
               d = \<lparr>as_secs = as_unsigned 64 (tdiv magnitude 1000000000), subsec_nanos = as_unsigned 32 (trem magnitude 1000000000)\<rparr>
           in (case clock_checked_sub 0 d of Some t \<Rightarrow> t | None \<Rightarrow> 0))"

section \<open>Comparison\<close>

definition dt_eq :: "date_time \<Rightarrow> date_time \<Rightarrow> bool" where
  "dt_eq self other \<longleftrightarrow> dt_secs self = dt_secs other \<and> dt_nanos self = dt_nanos other"

definition dt_cmp :: "date_time \<Rightarrow> date_time \<Rightarrow> ordering" where
  "dt_cmp self other = cmp_then (prim_cmp (dt_secs self) (dt_secs other)) (prim_cmp (dt_nanos self) (dt_nanos other))"

section \<open>The range\<close>

lemma secs_range: "MIN_SECS = - 377705116800" "MAX_SECS = 253402300799"
  by (code_simp, code_simp)

lemma year_start_mono: "y \<le> z \<Longrightarrow> days_from_civil y 1 1 \<le> days_from_civil z 1 1"
proof (induction z rule: int_ge_induct)
  case (step z)
  then show ?case using year_days [of z] by (simp split: if_splits)
qed simp

lemma year_in_range:
  assumes "civil_valid y m d"
  shows "MIN_YEAR \<le> y \<and> y \<le> MAX_YEAR \<longleftrightarrow>
    MIN_SECS \<le> days_from_civil y m d * SECS_PER_DAY \<and> days_from_civil y m d * SECS_PER_DAY \<le> MAX_SECS"
proof -
  have ends: "days_from_civil (- 9999) 1 1 = - 4371587" "days_from_civil 10000 1 1 = 2932897" by (code_simp, code_simp)
  note pos = year_position [OF assms]
  have lo: "days_from_civil y m d \<ge> - 4371587" if "- 9999 \<le> y" using pos(1) year_start_mono [OF that] ends by linarith
  have lo': "days_from_civil y m d < - 4371587" if "y < - 9999"
    using pos(2) year_start_mono [of "y + 1" "- 9999"] ends that by linarith
  have hi: "days_from_civil y m d < 2932897" if "y \<le> 9999"
    using pos(2) year_start_mono [of "y + 1" 10000] ends that by linarith
  have hi': "days_from_civil y m d \<ge> 2932897" if "9999 < y"
    using pos(1) year_start_mono [of 10000 y] ends that by linarith
  show ?thesis unfolding secs_range MIN_YEAR_def MAX_YEAR_def SECS_PER_DAY_def
    using lo lo' hi hi' by (cases "y < - 9999"; cases "9999 < y") auto
qed

lemma range_small: "MIN_SECS \<le> t \<Longrightarrow> t \<le> MAX_SECS \<Longrightarrow> \<bar>t\<bar> \<le> 2 ^ 42"
  by (simp add: secs_range)

section \<open>The invariant\<close>

definition dt_ok :: "tz_database \<Rightarrow> date_time \<Rightarrow> bool" where
  "dt_ok db dt \<longleftrightarrow> MIN_SECS \<le> dt_secs dt \<and> dt_secs dt \<le> MAX_SECS \<and> 0 \<le> dt_nanos dt \<and> dt_nanos dt < NANOS_PER_SEC \<and>
     zone_ok (dt_zone dt) \<and> offset_at db (dt_zone dt) (dt_secs dt) = Some (dt_offset dt)"

lemma dt_ok_offset: "dt_ok db dt \<Longrightarrow> \<bar>dt_offset dt\<bar> \<le> OFFSET_LIMIT"
  using offset_at_limit by (auto simp: dt_ok_def)

text \<open>An operation is sound when it does not panic and what it returns is well formed.\<close>

definition dt_sound :: "tz_database \<Rightarrow> (time_error, date_time) result option \<Rightarrow> bool" where
  "dt_sound db r \<longleftrightarrow> (case r of None \<Rightarrow> False | Some (Err _) \<Rightarrow> True | Some (Ok dt) \<Rightarrow> dt_ok db dt)"

lemma dt_sound_simps [simp]: "dt_sound db (Some (Err e))" "dt_sound db (Some (Ok dt)) \<longleftrightarrow> dt_ok db dt" "\<not> dt_sound db None"
  by (simp_all add: dt_sound_def)

lemma offset_at_range:
  assumes "zone_ok zone" "MIN_SECS \<le> t" "t \<le> MAX_SECS"
  shows "\<exists>off. offset_at db zone t = Some off"
  using offset_at_total [OF assms(1)] range_small [OF assms(2,3)] by (simp add: instant_ok_def)

lemma from_raw_checked_cases:
  assumes "zone_ok zone" "0 \<le> nanos" "nanos < NANOS_PER_SEC"
  shows "MIN_SECS \<le> secs \<Longrightarrow> secs \<le> MAX_SECS \<Longrightarrow>
      \<exists>off. dt_from_raw_checked db secs nanos zone = Some (Ok (dt_from_raw secs nanos off zone)) \<and>
        offset_at db zone secs = Some off \<and> dt_ok db (dt_from_raw secs nanos off zone)"
    and "secs < MIN_SECS \<or> MAX_SECS < secs \<Longrightarrow>
      dt_from_raw_checked db secs nanos zone = Some (Err (err_out_of_range ''instant is outside the supported range''))"
    and "dt_sound db (dt_from_raw_checked db secs nanos zone)"
proof -
  show inside: "\<exists>off. dt_from_raw_checked db secs nanos zone = Some (Ok (dt_from_raw secs nanos off zone)) \<and>
      offset_at db zone secs = Some off \<and> dt_ok db (dt_from_raw secs nanos off zone)"
    if "MIN_SECS \<le> secs" "secs \<le> MAX_SECS"
    using offset_at_range [OF assms(1) that, of db] assms that by (auto simp: dt_from_raw_checked_def dt_ok_def dt_from_raw_def)
  show outside: "dt_from_raw_checked db secs nanos zone = Some (Err (err_out_of_range ''instant is outside the supported range''))"
    if "secs < MIN_SECS \<or> MAX_SECS < secs"
    using that by (auto simp: dt_from_raw_checked_def)
  show "dt_sound db (dt_from_raw_checked db secs nanos zone)"
    using inside outside by (cases "MIN_SECS \<le> secs \<and> secs \<le> MAX_SECS") force+
qed

lemma from_unix_nanos_eq:
  "dt_from_unix_nanos db n =
     Some (if MIN_SECS \<le> n div 1000000000 \<and> n div 1000000000 \<le> MAX_SECS
           then Ok (dt_from_raw (n div 1000000000) (n mod 1000000000) 0 ZoneUtc)
           else Err (err_out_of_range ''instant is outside the supported range''))"
proof -
  have "as_unsigned 32 (n mod 1000000000) = n mod 1000000000"
    using pos_mod_bound [of 1000000000 n] by (simp add: as_unsigned_def)
  moreover have "in_signed 64 s" if "MIN_SECS \<le> s" "s \<le> MAX_SECS" for s using that by (simp add: secs_range in_signed_def)
  ultimately show ?thesis
    by (auto simp: dt_from_unix_nanos_def checked_signed_def dt_from_raw_checked_def dt_from_raw_def Let_def)
qed

lemma from_unix_nanos_sound: "dt_sound db (dt_from_unix_nanos db n)"
  by (auto simp: from_unix_nanos_eq dt_ok_def dt_from_raw_def NANOS_PER_SEC_def)

lemma in_timezone_ok:
  assumes "dt_ok db dt" "zone_ok zone"
  shows "\<exists>off. dt_in_timezone db dt zone = Some (dt\<lparr>dt_offset := off, dt_zone := zone\<rparr>) \<and> dt_ok db (dt\<lparr>dt_offset := off, dt_zone := zone\<rparr>)"
  using assms offset_at_range [OF assms(2), of "dt_secs dt" db] by (auto simp: dt_in_timezone_def dt_ok_def)

lemma in_timezone_checked_eq:
  "dt_ok db dt \<Longrightarrow> dt_in_timezone_checked db dt zone = map_option Ok (dt_in_timezone db dt zone)"
  by (auto simp: dt_in_timezone_checked_def dt_ok_def)

section \<open>Civil fields of a value\<close>

lemma dt_parts_eq:
  assumes "dt_ok db dt"
  shows "\<exists>y m d. dt_parts dt = Some (y, m, d, (dt_secs dt + dt_offset dt) mod 86400 div 3600,
      (dt_secs dt + dt_offset dt) mod 3600 div 60, (dt_secs dt + dt_offset dt) mod 60, dt_nanos dt) \<and>
    civil_valid y m d \<and> days_from_civil y m d = (dt_secs dt + dt_offset dt) div 86400"
proof -
  define l where "l = dt_secs dt + dt_offset dt"
  define s where "s = l mod 86400"
  have l: "\<bar>l\<bar> \<le> 2 ^ 43" using assms dt_ok_offset [OF assms] unfolding dt_ok_def l_def secs_range OFFSET_LIMIT_def by auto
  then have chk: "checked_signed 64 l = Some l" by (intro checked_small) simp
  have "- 780000000000 \<le> l div 86400" "l div 86400 \<le> 780000000000" using l by simp_all
  then have "\<bar>l div 86400\<bar> \<le> 780000000000" by simp
  from days_from_civil_from_days [OF this] obtain y m d
    where c: "civil_from_days (l div 86400) = Some (y, m, d)" "civil_valid y m d" "days_from_civil y m d = l div 86400" by blast
  have s: "0 \<le> s" "s < 86400" by (simp_all add: s_def)
  have "as_unsigned 8 (tdiv s 3600) = s div 3600" "as_unsigned 8 (tdiv (trem s 3600) 60) = s mod 3600 div 60"
    "as_unsigned 8 (trem s 60) = s mod 60"
    using s by (simp_all add: as_unsigned_def tdiv_nonneg trem_def minus_div_mult_eq_mod)
  moreover have "s mod 3600 = l mod 3600" "s mod 60 = l mod 60"
    using mod_mod_cancel [of 3600 86400 l] mod_mod_cancel [of 60 86400 l] by (simp_all add: s_def)
  ultimately have "dt_parts dt = Some (y, m, d, s div 3600, l mod 3600 div 60, l mod 60, dt_nanos dt)"
    unfolding dt_parts_def l_def [symmetric] chk SECS_PER_DAY_def s_def [symmetric] bind.bind_lunit Let_def c(1) prod.case
    by simp
  then show ?thesis using c(2,3) unfolding l_def s_def by blast
qed

lemma local_seconds_ok:
  assumes "local_seconds_checked y m d h mi s = Ok l"
  shows "civil_valid y m d" "MIN_YEAR \<le> y" "y \<le> MAX_YEAR" "h \<le> 23" "mi \<le> 59" "s \<le> 60"
    "l = days_from_civil y m d * 86400 + h * 3600 + mi * 60 + (if s = 60 then 59 else s)"
  using assms by (auto simp: local_seconds_checked_def civil_valid_def Let_def SECS_PER_DAY_def split: if_splits)

lemma local_seconds_range:
  assumes "local_seconds_checked y m d h mi s = Ok l" "0 \<le> h" "0 \<le> mi" "0 \<le> s"
  shows "MIN_SECS \<le> l" "l \<le> MAX_SECS"
proof -
  note ok = local_seconds_ok [OF assms(1)]
  have "MIN_SECS \<le> days_from_civil y m d * 86400" "days_from_civil y m d * 86400 \<le> MAX_SECS"
    using year_in_range [OF ok(1)] ok(2,3) by (simp_all add: SECS_PER_DAY_def)
  then have "- 4371587 \<le> days_from_civil y m d" "days_from_civil y m d < 2932897" unfolding secs_range by linarith+
  then show "MIN_SECS \<le> l" "l \<le> MAX_SECS" unfolding secs_range using ok(4-7) assms(2-4) by (simp_all split: if_splits)
qed

text \<open>The seconds of a civil time and the civil time of a number of seconds are inverse.\<close>

lemma clock_unique:
  fixes D h mi s :: int
  assumes "0 \<le> h" "h \<le> 23" "0 \<le> mi" "mi \<le> 59" "0 \<le> s" "s \<le> 59"
  defines "l \<equiv> D * 86400 + h * 3600 + mi * 60 + s"
  shows "l div 86400 = D" "l mod 86400 div 3600 = h" "l mod 3600 div 60 = mi" "l mod 60 = s"
proof -
  have day: "l = 86400 * D + (h * 3600 + mi * 60 + s)" "l = 3600 * (24 * D + h) + (mi * 60 + s)" "l = 60 * (1440 * D + 60 * h + mi) + s"
    by (simp_all add: l_def)
  have r: "0 \<le> h * 3600 + mi * 60 + s" "h * 3600 + mi * 60 + s < 86400" "0 \<le> mi * 60 + s" "mi * 60 + s < 3600" "s < 60"
    using assms(1-6) by linarith+
  show "l div 86400 = D" by (rule int_div_pos_eq [OF day(1) r(1,2)])
  have "l mod 86400 = h * 3600 + mi * 60 + s" by (rule int_mod_pos_eq [OF day(1) r(1,2)])
  moreover have "(h * 3600 + mi * 60 + s) div 3600 = h" by (rule int_div_pos_eq [of _ _ _ "mi * 60 + s"]) (use r in simp_all)
  ultimately show "l mod 86400 div 3600 = h" by simp
  have "l mod 3600 = mi * 60 + s" by (rule int_mod_pos_eq [OF day(2) r(3,4)])
  moreover have "(mi * 60 + s) div 60 = mi" by (rule int_div_pos_eq [of _ _ _ s]) (use r assms(5) in simp_all)
  ultimately show "l mod 3600 div 60 = mi" by simp
  show "l mod 60 = s" by (rule int_mod_pos_eq [OF day(3) assms(5) r(5)])
qed

lemma clock_split:
  fixes l :: int
  shows "l = l div 86400 * 86400 + l mod 86400 div 3600 * 3600 + l mod 3600 div 60 * 60 + l mod 60"
    "0 \<le> l mod 86400 div 3600" "l mod 86400 div 3600 \<le> 23" "0 \<le> l mod 3600 div 60" "l mod 3600 div 60 \<le> 59"
    "0 \<le> l mod 60" "l mod 60 \<le> 59"
proof -
  have "l mod 86400 mod 3600 = l mod 3600" "l mod 3600 mod 60 = l mod 60"
    using mod_mod_cancel [of 3600 86400 l] mod_mod_cancel [of 60 3600 l] by simp_all
  then show "l = l div 86400 * 86400 + l mod 86400 div 3600 * 3600 + l mod 3600 div 60 * 60 + l mod 60"
    using div_mult_mod_eq [of l 86400] div_mult_mod_eq [of "l mod 86400" 3600] div_mult_mod_eq [of "l mod 3600" 60] by linarith
  have "0 \<le> l mod 86400" "l mod 86400 < 86400" "0 \<le> l mod 3600" "l mod 3600 < 3600" "0 \<le> l mod 60" "l mod 60 < 60" by simp_all
  then show "0 \<le> l mod 86400 div 3600" "l mod 86400 div 3600 \<le> 23" "0 \<le> l mod 3600 div 60" "l mod 3600 div 60 \<le> 59"
    "0 \<le> l mod 60" "l mod 60 \<le> 59" by simp_all
qed

lemma parts_local_seconds:
  assumes "dt_ok db dt" "dt_parts dt = Some (y, m, d, h, mi, s, n)"
  shows "n = dt_nanos dt" "civil_valid y m d" "0 \<le> h" "h \<le> 23" "0 \<le> mi" "mi \<le> 59" "0 \<le> s" "s \<le> 59"
    "dt_secs dt + dt_offset dt = days_from_civil y m d * 86400 + h * 3600 + mi * 60 + s"
    "days_from_civil y m d = (dt_secs dt + dt_offset dt) div 86400"
proof -
  define l where "l = dt_secs dt + dt_offset dt"
  from dt_parts_eq [OF assms(1), folded l_def] obtain y' m' d' where p: "dt_parts dt = Some (y', m', d', l mod 86400 div 3600, l mod 3600 div 60, l mod 60, dt_nanos dt)"
    and d': "civil_valid y' m' d'" "days_from_civil y' m' d' = l div 86400" by blast
  from p assms(2) have eqs: "n = dt_nanos dt" "h = l mod 86400 div 3600" "mi = l mod 3600 div 60" "s = l mod 60"
    and same: "y = y'" "m = m'" "d = d'" by (simp_all only: option.inject prod.inject)
  note day = d' [folded same]
  show "n = dt_nanos dt" "civil_valid y m d" "0 \<le> h" "h \<le> 23" "0 \<le> mi" "mi \<le> 59" "0 \<le> s" "s \<le> 59"
    unfolding eqs by (fact refl day(1) clock_split(2-7))+
  show "dt_secs dt + dt_offset dt = days_from_civil y m d * 86400 + h * 3600 + mi * 60 + s"
    unfolding l_def [symmetric] day(2) eqs by (rule clock_split(1))
  show "days_from_civil y m d = (dt_secs dt + dt_offset dt) div 86400" using day(2) by (simp only: l_def)
qed

lemma civil_valid_unique:
  assumes "civil_valid y m d" "civil_valid y' m' d'" "days_from_civil y m d = days_from_civil y' m' d'" "\<bar>y\<bar> < 2 ^ 31" "\<bar>y'\<bar> < 2 ^ 31"
  shows "(y, m, d) = (y', m', d')"
  using civil_from_days_from_civil [OF assms(1,4)] civil_from_days_from_civil [OF assms(2,5)] unfolding assms(3) by (simp only: option.inject)

section \<open>From fields to values and back\<close>

lemma from_parts_with_sound:
  assumes "zone_ok zone" "0 \<le> h" "0 \<le> mi" "0 \<le> s" "0 \<le> n"
  shows "dt_sound db (dt_from_parts_with db y m d h mi s n zone dis)"
proof (cases "local_seconds_checked y m d h mi s")
  case (Inr l)
  from local_seconds_range [OF Inr assms(2-4)] have "\<bar>l\<bar> \<le> 2 ^ 43" by (simp add: secs_range)
  from resolve_total(1) [OF assms(1) this] obtain r where "resolve_with db zone l dis = Some r" by blast
  then show ?thesis using Inr from_raw_checked_cases(3) [OF assms(1,5)] by (cases r) (auto simp: dt_from_parts_with_def)
qed (simp add: dt_from_parts_with_def)

lemma parts_of_local:
  assumes "dt_ok db dt" "local_seconds_checked y m d h mi s = Ok l" "0 \<le> h" "0 \<le> mi" "0 \<le> s" "dt_secs dt + dt_offset dt = l"
  shows "dt_parts dt = Some (y, m, d, h, mi, if s = 60 then 59 else s, dt_nanos dt)"
proof -
  note ok = local_seconds_ok [OF assms(2)]
  obtain y' m' d' h' mi' s' n' where p: "dt_parts dt = Some (y', m', d', h', mi', s', n')" using dt_parts_eq [OF assms(1)] by blast
  note q = parts_local_seconds [OF assms(1) p]
  define t where "t = (if s = 60 then 59 else s)"
  have t: "0 \<le> t" "t \<le> 59" "0 \<le> h" "0 \<le> mi" "h \<le> 23" "mi \<le> 59" using ok(4-6) assms(3-5) by (auto simp: t_def)
  have l: "l = days_from_civil y m d * 86400 + h * 3600 + mi * 60 + t" using ok(7) by (simp add: t_def)
  note a = clock_unique [OF t(3,5,4,6,1,2), of "days_from_civil y m d", folded l]
  have l': "l = days_from_civil y' m' d' * 86400 + h' * 3600 + mi' * 60 + s'" using q(9) assms(6) by simp
  note b = clock_unique [OF q(3-8), of "days_from_civil y' m' d'", folded l']
  have days: "days_from_civil y m d = days_from_civil y' m' d'" using a(1) b(1) by simp
  have "MIN_YEAR \<le> y' \<and> y' \<le> MAX_YEAR"
    unfolding year_in_range [OF q(2)] days [symmetric] using year_in_range [OF ok(1)] ok(2,3) by blast
  then have "(y, m, d) = (y', m', d')"
    using ok(2,3) by (intro civil_valid_unique [OF ok(1) q(2) days]) (auto simp: MIN_YEAR_def MAX_YEAR_def)
  then show ?thesis using p q(1) a b by (simp add: t_def)
qed

lemma local_of_parts:
  assumes "dt_ok db dt" "dt_parts dt = Some (y, m, d, h, mi, s, n)" "MIN_SECS \<le> dt_secs dt + dt_offset dt" "dt_secs dt + dt_offset dt \<le> MAX_SECS"
  shows "local_seconds_checked y m d h mi s = Ok (dt_secs dt + dt_offset dt)"
proof -
  note q = parts_local_seconds [OF assms(1,2)]
  have "- 4371587 \<le> days_from_civil y m d" "days_from_civil y m d \<le> 2932896"
    using assms(3,4) unfolding q(10) secs_range by simp_all
  then have "MIN_SECS \<le> days_from_civil y m d * SECS_PER_DAY" "days_from_civil y m d * SECS_PER_DAY \<le> MAX_SECS"
    unfolding secs_range SECS_PER_DAY_def by simp_all
  then have "MIN_YEAR \<le> y \<and> y \<le> MAX_YEAR" using year_in_range [OF q(2)] by blast
  then show ?thesis using q unfolding local_seconds_checked_def by (simp add: civil_valid_def SECS_PER_DAY_def)
qed

lemma shows_at_pair:
  assumes "zone_ok zone" "zone_settled db zone" "zone_calm db zone l" "\<bar>l\<bar> \<le> 2 ^ 43" "shows_at db zone l \<noteq> {}"
  shows "\<exists>a b. shows_at db zone l = {a, b}"
proof -
  obtain c where "case c of Exact off \<Rightarrow> shows_at db zone l = {l - off}
     | Fold early late \<Rightarrow> shows_at db zone l = {l - early, l - late} \<and> l - early < l - late
     | Gap before after \<Rightarrow> shows_at db zone l = {} \<and> before < after" using classify_cases [OF assms(1-4)] by blast
  then show ?thesis using assms(5) by (cases c) auto
qed

lemma shows_at_end:
  assumes "zone_ok zone" "zone_settled db zone" "zone_calm db zone l" "\<bar>l\<bar> \<le> 2 ^ 43" "i \<in> shows_at db zone l"
  shows "i = Min (shows_at db zone l) \<or> i = Max (shows_at db zone l)"
proof -
  obtain a b where "shows_at db zone l = {a, b}" using shows_at_pair [OF assms(1-4)] assms(5) by blast
  then show ?thesis using assms(5) by (auto simp: min_def max_def)
qed

section \<open>Durations\<close>

lemma unix_nanos_div:
  assumes "dt_ok db dt"
  shows "dt_unix_nanos dt div 1000000000 = dt_secs dt" "dt_unix_nanos dt mod 1000000000 = dt_nanos dt"
proof -
  have n: "dt_unix_nanos dt = 1000000000 * dt_secs dt + dt_nanos dt" by (simp add: dt_unix_nanos_def)
  have r: "0 \<le> dt_nanos dt" "dt_nanos dt < 1000000000" using assms by (auto simp: dt_ok_def NANOS_PER_SEC_def)
  show "dt_unix_nanos dt div 1000000000 = dt_secs dt" by (rule int_div_pos_eq [OF n r])
  show "dt_unix_nanos dt mod 1000000000 = dt_nanos dt" by (rule int_mod_pos_eq [OF n r])
qed

text \<open>The instants of the supported range, in nanoseconds.\<close>

definition nanos_in_range :: "int \<Rightarrow> bool" where
  "nanos_in_range n \<longleftrightarrow> MIN_SECS * 1000000000 \<le> n \<and> n \<le> MAX_SECS * 1000000000 + 999999999"

lemma nanos_in_range_div: "nanos_in_range n \<longleftrightarrow> MIN_SECS \<le> n div 1000000000 \<and> n div 1000000000 \<le> MAX_SECS"
proof -
  have "n = n div 1000000000 * 1000000000 + n mod 1000000000" "0 \<le> n mod 1000000000" "n mod 1000000000 < 1000000000" by simp_all
  then show ?thesis unfolding nanos_in_range_def secs_range by linarith
qed

lemma unix_nanos_range: "dt_ok db dt \<Longrightarrow> nanos_in_range (dt_unix_nanos dt)"
  unfolding nanos_in_range_div by (simp add: unix_nanos_div) (simp add: dt_ok_def)

text \<open>Moving a value by a number of nanoseconds keeps the zone, and is an error outside the range.\<close>

definition dt_move :: "tz_database \<Rightarrow> time_zone \<Rightarrow> int option \<Rightarrow> int \<Rightarrow> (time_error, date_time) result option" where
  "dt_move db zone clock n =
     try_bind (dt_from_unix_nanos db n) (\<lambda>utc.
     try_bind (dt_in_timezone_checked db utc zone) (\<lambda>r.
     Some (Ok (r\<lparr>dt_monotonic := clock\<rparr>))))"

lemma move_nanos:
  assumes "dt_ok db dt"
  shows "if nanos_in_range n
    then \<exists>r. dt_move db (dt_zone dt) clock n = Some (Ok r) \<and> dt_ok db r \<and> dt_unix_nanos r = n \<and> dt_zone r = dt_zone dt
    else dt_move db (dt_zone dt) clock n = Some (Err (err_out_of_range ''instant is outside the supported range''))"
proof (cases "nanos_in_range n")
  case True
  define utc where "utc = dt_from_raw (n div 1000000000) (n mod 1000000000) 0 ZoneUtc"
  have utc: "dt_from_unix_nanos db n = Some (Ok utc)" using True by (simp add: from_unix_nanos_eq nanos_in_range_div utc_def)
  then have ok: "dt_ok db utc" using from_unix_nanos_sound [of db n] by simp
  obtain off where off: "dt_in_timezone db utc (dt_zone dt) = Some (utc\<lparr>dt_offset := off, dt_zone := dt_zone dt\<rparr>)"
    "dt_ok db (utc\<lparr>dt_offset := off, dt_zone := dt_zone dt\<rparr>)"
    using in_timezone_ok [OF ok, of "dt_zone dt"] assms by (auto simp: dt_ok_def)
  moreover have "dt_unix_nanos utc = n" by (simp add: dt_unix_nanos_def utc_def dt_from_raw_def)
  ultimately show ?thesis using True utc ok by (auto simp: in_timezone_checked_eq dt_ok_def dt_unix_nanos_def dt_move_def)
qed (auto simp: from_unix_nanos_eq nanos_in_range_div dt_move_def)

lemma checked_128: "\<bar>x\<bar> \<le> 2 ^ 100 \<Longrightarrow> checked_signed 128 x = Some x"
  by (auto simp: checked_signed_def in_signed_def)

lemma nanos_bounds:
  assumes "dt_ok db dt" "duration_ok d"
  shows "\<bar>dt_unix_nanos dt\<bar> \<le> 2 ^ 99" "\<bar>as_secs d * 1000000000\<bar> \<le> 2 ^ 98" "\<bar>subsec_nanos d\<bar> \<le> 2 ^ 98"
  using unix_nanos_range [OF assms(1)] assms(2) by (auto simp: nanos_in_range_def secs_range duration_ok_def)

lemma checked_add_eq:
  assumes "dt_ok db dt" "duration_ok d"
  shows "dt_checked_add db dt d =
    dt_move db (dt_zone dt) (Option.bind (dt_monotonic dt) (\<lambda>reading. clock_checked_add reading d)) (dt_unix_nanos dt + duration_nanos d)"
proof -
  note b = nanos_bounds [OF assms]
  have "checked_signed 128 (dt_unix_nanos dt + as_secs d * 1000000000) = Some (dt_unix_nanos dt + as_secs d * 1000000000)"
    by (rule checked_128) (use b in simp)
  moreover have "checked_signed 128 (dt_unix_nanos dt + as_secs d * 1000000000 + subsec_nanos d) = Some (dt_unix_nanos dt + duration_nanos d)"
    unfolding duration_nanos_def add.assoc [symmetric] by (rule checked_128) (use b in simp)
  ultimately show ?thesis by (simp add: dt_checked_add_def dt_move_def)
qed

lemma checked_sub_eq:
  assumes "dt_ok db dt" "duration_ok d"
  shows "dt_checked_sub db dt d =
    dt_move db (dt_zone dt) (Option.bind (dt_monotonic dt) (\<lambda>reading. clock_checked_sub reading d)) (dt_unix_nanos dt - duration_nanos d)"
proof -
  note b = nanos_bounds [OF assms]
  have "checked_signed 128 (dt_unix_nanos dt - as_secs d * 1000000000) = Some (dt_unix_nanos dt - as_secs d * 1000000000)"
    by (rule checked_128) (use b in simp)
  moreover have "checked_signed 128 (dt_unix_nanos dt - as_secs d * 1000000000 - subsec_nanos d) = Some (dt_unix_nanos dt - duration_nanos d)"
    unfolding duration_nanos_def diff_diff_eq [symmetric] by (rule checked_128) (use b in simp)
  ultimately show ?thesis by (simp add: dt_checked_sub_def dt_move_def)
qed

lemma checked_add_cases:
  assumes "dt_ok db dt" "duration_ok d"
  shows "if nanos_in_range (dt_unix_nanos dt + duration_nanos d)
    then \<exists>r. dt_checked_add db dt d = Some (Ok r) \<and> dt_ok db r \<and> dt_unix_nanos r = dt_unix_nanos dt + duration_nanos d \<and> dt_zone r = dt_zone dt
    else dt_checked_add db dt d = Some (Err (err_out_of_range ''instant is outside the supported range''))"
  unfolding checked_add_eq [OF assms] by (rule move_nanos [OF assms(1)])

lemma checked_sub_cases:
  assumes "dt_ok db dt" "duration_ok d"
  shows "if nanos_in_range (dt_unix_nanos dt - duration_nanos d)
    then \<exists>r. dt_checked_sub db dt d = Some (Ok r) \<and> dt_ok db r \<and> dt_unix_nanos r = dt_unix_nanos dt - duration_nanos d \<and> dt_zone r = dt_zone dt
    else dt_checked_sub db dt d = Some (Err (err_out_of_range ''instant is outside the supported range''))"
  unfolding checked_sub_eq [OF assms] by (rule move_nanos [OF assms(1)])

lemma signed_duration_eq:
  assumes "dt_ok db a" "dt_ok db b" "dt_monotonic a = None \<or> dt_monotonic b = None"
  shows "dt_signed_duration_since a b =
    Some ((dt_unix_nanos a - dt_unix_nanos b) div 1000000000, (dt_unix_nanos a - dt_unix_nanos b) mod 1000000000)"
proof -
  define s n where "s = dt_secs a - dt_secs b" and "n = dt_nanos a - dt_nanos b"
  have bounds: "\<bar>s\<bar> \<le> 2 ^ 60" "- 1000000000 < n" "n < 1000000000"
    using assms(1,2) by (auto simp: dt_ok_def secs_range s_def n_def NANOS_PER_SEC_def)
  have diff: "dt_unix_nanos a - dt_unix_nanos b = 1000000000 * s + n" by (simp add: dt_unix_nanos_def s_def n_def)
  have "checked_signed 64 s = Some s" "checked_signed 64 (s - 1) = Some (s - 1)" using bounds(1) by (auto intro!: checked_small)
  then have "dt_signed_duration_since a b = (if n < 0 then Some (s - 1, as_unsigned 32 (n + 1000000000)) else Some (s, as_unsigned 32 n))"
    using assms(3) unfolding dt_signed_duration_since_def s_def [symmetric] n_def [symmetric] by (auto split: option.splits)
  moreover have "as_unsigned 32 (n + 1000000000) = n + 1000000000" if "n < 0" using that bounds by (simp add: as_unsigned_def)
  moreover have "as_unsigned 32 n = n" if "\<not> n < 0" using that bounds by (simp add: as_unsigned_def)
  moreover have "(1000000000 * s + n) div 1000000000 = s - 1" "(1000000000 * s + n) mod 1000000000 = n + 1000000000" if "n < 0"
    by (rule int_div_pos_eq [of _ _ _ "n + 1000000000"] int_mod_pos_eq [of _ _ "s - 1"]; use that bounds in simp)+
  moreover have "(1000000000 * s + n) div 1000000000 = s" "(1000000000 * s + n) mod 1000000000 = n" if "\<not> n < 0"
    by (rule int_div_pos_eq [of _ _ _ n] int_mod_pos_eq [of _ _ s]; use that bounds in simp)+
  ultimately show ?thesis unfolding diff by simp
qed

lemma duration_since_cases:
  assumes "dt_ok db a" "dt_ok db b" "dt_monotonic a = None \<or> dt_monotonic b = None"
  shows "dt_duration_since a b = Some (if dt_unix_nanos a < dt_unix_nanos b then Err (err_out_of_range ''earlier is later than self'')
    else Ok (duration_of_nanos (dt_unix_nanos a - dt_unix_nanos b)))"
proof -
  define k where "k = dt_unix_nanos a - dt_unix_nanos b"
  have k: "\<bar>k\<bar> \<le> 2 ^ 72" using unix_nanos_range [OF assms(1)] unix_nanos_range [OF assms(2)]
    by (auto simp: nanos_in_range_def secs_range k_def)
  have "k div 1000000000 < 0 \<longleftrightarrow> k < 0" by (rule pos_imp_zdiv_neg_iff) simp
  moreover have "as_unsigned 64 (k div 1000000000) = k div 1000000000" if "\<not> k < 0" using that k by (simp add: as_unsigned_def)
  ultimately show ?thesis
    unfolding dt_duration_since_def signed_duration_eq [OF assms] k_def [symmetric] by (auto simp: duration_of_nanos_def k_def)
qed

section \<open>Order\<close>

interpretation dt_order: total_cmp dt_cmp dt_eq
  by unfold_locales (auto simp: dt_cmp_def dt_eq_def cmp_then_def prim_cmp_def split: if_splits)

lemma dt_cmp_nanos:
  assumes "dt_ok db a" "dt_ok db b"
  shows "dt_cmp a b = prim_cmp (dt_unix_nanos a) (dt_unix_nanos b)"
proof -
  have "0 \<le> dt_nanos a" "dt_nanos a < 1000000000" "0 \<le> dt_nanos b" "dt_nanos b < 1000000000"
    using assms by (auto simp: dt_ok_def NANOS_PER_SEC_def)
  then show ?thesis unfolding dt_cmp_def prim_cmp_def cmp_then_def dt_unix_nanos_def
    by (cases "dt_secs a < dt_secs b"; cases "dt_secs a = dt_secs b") auto
qed

section \<open>Calendar arithmetic\<close>

lemma parts_year:
  assumes "dt_ok db dt" "dt_parts dt = Some (y, m, d, h, mi, s, n)"
  shows "- 10000 \<le> y" "y \<le> 10000"
proof -
  define l where "l = dt_secs dt + dt_offset dt"
  note q = parts_local_seconds [OF assms, folded l_def]
  have "- 377705216800 \<le> l" "l \<le> 253402400799"
    using assms(1) dt_ok_offset [OF assms(1)] unfolding dt_ok_def secs_range OFFSET_LIMIT_def l_def by auto
  then have days: "- 4371589 \<le> days_from_civil y m d" "days_from_civil y m d \<le> 2932898" unfolding q(10) by simp_all
  have ends: "days_from_civil (- 10000) 1 1 = - 4371953" "days_from_civil 10001 1 1 = 2933263" by (code_simp, code_simp)
  show "- 10000 \<le> y" using days(1) year_position(2) [OF q(2)] year_start_mono [of "y + 1" "- 10000"] ends(1) by linarith
  show "y \<le> 10000" using days(2) year_position(1) [OF q(2)] year_start_mono [of 10001 y] ends(2) by linarith
qed

lemma add_months_eq:
  assumes "dt_ok db dt" "dt_parts dt = Some (y, m, d, h, mi, s, n)" "\<bar>k\<bar> \<le> 2 ^ 31"
  shows "dt_add_months db dt k =
    (let ny = (12 * y + m - 1 + k) div 12; nm = (12 * y + m - 1 + k) mod 12 + 1
     in dt_from_parts db ny nm (min d (days_in_month ny nm)) h mi s n (dt_zone dt))"
proof -
  define t where "t = 12 * y + m - 1 + k"
  note q = parts_local_seconds [OF assms(1,2)]
  have "- (2 ^ 32) \<le> t" "t \<le> 2 ^ 32" using parts_year [OF assms(1,2)] assms(3) q(2) by (auto simp: t_def civil_valid_def)
  then have "- (2 ^ 30) \<le> t div 12" "t div 12 \<le> 2 ^ 30" by simp_all
  then have "checked_signed 32 (t div 12) = Some (t div 12)" by (auto simp: checked_signed_def in_signed_def)
  moreover have "as_unsigned 8 (t mod 12 + 1) = t mod 12 + 1" using pos_mod_bound [of 12 t] by (simp add: as_unsigned_def)
  moreover have "y * 12 + m - 1 + k = t" by (simp add: t_def)
  ultimately show ?thesis unfolding dt_add_months_def assms(2) bind.bind_lunit prod.case t_def [symmetric] by (simp add: Let_def)
qed

lemma add_years_eq:
  assumes "dt_ok db dt" "dt_parts dt = Some (y, m, d, h, mi, s, n)"
  shows "dt_add_years db dt k =
    (if in_signed 32 (y + k) then dt_from_parts db (y + k) m (min d (days_in_month (y + k) m)) h mi s n (dt_zone dt)
     else Some (Err (err_out_of_range ''result is outside the supported range'')))"
  unfolding dt_add_years_def assms(2) bind.bind_lunit prod.case checked_signed_def by (simp add: Let_def)

lemma years_as_months:
  assumes "dt_ok db dt" "\<bar>k\<bar> \<le> 170000000"
  shows "dt_add_years db dt k = dt_add_months db dt (12 * k)"
proof -
  obtain y m d h mi s n where p: "dt_parts dt = Some (y, m, d, h, mi, s, n)" using dt_parts_eq [OF assms(1)] by blast
  have "civil_valid y m d" by (rule parts_local_seconds(2) [OF assms(1) p])
  then have m: "0 \<le> m - 1" "m - 1 < 12" by (auto simp: civil_valid_def)
  have t: "12 * y + m - 1 + 12 * k = 12 * (y + k) + (m - 1)" by simp
  have "(12 * y + m - 1 + 12 * k) div 12 = y + k" by (rule int_div_pos_eq [OF t m])
  moreover have "(12 * y + m - 1 + 12 * k) mod 12 = m - 1" by (rule int_mod_pos_eq [OF t m])
  moreover have "in_signed 32 (y + k)" using parts_year [OF assms(1) p] assms(2) by (auto simp: in_signed_def)
  ultimately show ?thesis using assms(2) unfolding add_years_eq [OF assms(1) p] by (subst add_months_eq [OF assms(1) p]) (simp_all add: Let_def add.commute)
qed

lemma add_days_eq:
  assumes "dt_ok db dt" "dt_parts dt = Some (y, m, d, h, mi, s, n)" "\<bar>k\<bar> \<le> 700000000000"
  shows "\<exists>y' m' d'. civil_valid y' m' d' \<and> days_from_civil y' m' d' = days_from_civil y m d + k \<and>
    dt_add_days db dt k = dt_from_parts db y' m' d' h mi s n (dt_zone dt)"
proof -
  define t where "t = days_from_civil y m d + k"
  note q = parts_local_seconds [OF assms(1,2)]
  have "- 10000000 \<le> days_from_civil y m d" "days_from_civil y m d \<le> 10000000"
    using assms(1) dt_ok_offset [OF assms(1)] unfolding q(10) dt_ok_def secs_range OFFSET_LIMIT_def by auto
  then have t: "\<bar>t\<bar> \<le> 780000000000" using assms(3) by (auto simp: t_def)
  then have "checked_signed 64 t = Some t" by (intro checked_small) simp
  moreover obtain y' m' d' where "civil_from_days t = Some (y', m', d')" "civil_valid y' m' d'" "days_from_civil y' m' d' = t"
    using days_from_civil_from_days [OF t] by blast
  ultimately show ?thesis unfolding dt_add_days_def assms(2) bind.bind_lunit prod.case t_def [symmetric] by auto
qed

text \<open>In UTC and with a fixed offset a calendar day is 24 hours.\<close>

lemma resolve_fixed:
  assumes "zone = ZoneUtc \<or> zone = ZoneFixed off" "zone_ok zone" "\<bar>l\<bar> \<le> 2 ^ 43"
  shows "resolve_with db zone l dis = Some (Ok (l - (case zone of ZoneFixed off \<Rightarrow> off | _ \<Rightarrow> 0)))"
  using assms by (auto simp: OFFSET_LIMIT_def intro!: checked_small)

lemma add_days_fixed:
  assumes "dt_ok db dt" "dt_zone dt = ZoneUtc \<or> dt_zone dt = ZoneFixed off" "\<bar>k\<bar> \<le> 700000000000" "dt_add_days db dt k = Some (Ok r)"
  shows "dt_unix_nanos r = dt_unix_nanos dt + k * 86400 * 1000000000"
proof -
  obtain y m d h mi s n where p: "dt_parts dt = Some (y, m, d, h, mi, s, n)" using dt_parts_eq [OF assms(1)] by blast
  note q = parts_local_seconds [OF assms(1) p]
  obtain y' m' d' where day: "days_from_civil y' m' d' = days_from_civil y m d + k"
    and eq: "dt_from_parts db y' m' d' h mi s n (dt_zone dt) = Some (Ok r)"
    using add_days_eq [OF assms(1) p assms(3)] assms(4) by auto
  obtain l where l: "local_seconds_checked y' m' d' h mi s = Ok l"
    using eq by (cases "local_seconds_checked y' m' d' h mi s") (auto simp: dt_from_parts_def dt_from_parts_with_def split: if_splits)
  have "\<bar>l\<bar> \<le> 2 ^ 43" using local_seconds_range [OF l q(3,5,7)] by (simp add: secs_range)
  moreover have zone: "zone_ok (dt_zone dt)" "dt_offset dt = (case dt_zone dt of ZoneFixed off \<Rightarrow> off | _ \<Rightarrow> 0)"
    using assms(1,2) by (auto simp: dt_ok_def)
  ultimately have "dt_from_raw_checked db (l - dt_offset dt) n (dt_zone dt) = Some (Ok r)"
    using eq l resolve_fixed [OF assms(2) zone(1), of l db Compatible]
    by (auto simp: dt_from_parts_def dt_from_parts_with_def split: if_splits)
  then have "dt_secs r = l - dt_offset dt" "dt_nanos r = n" by (auto simp: dt_from_raw_checked_def split: if_splits option.splits bind_splits)
  moreover have "l = dt_secs dt + dt_offset dt + k * 86400"
    using local_seconds_ok(7) [OF l] q(8,9) unfolding day by (simp add: distrib_right)
  ultimately show ?thesis using q(1) by (simp add: dt_unix_nanos_def algebra_simps)
qed

section \<open>Where the calendar arithmetic goes wrong\<close>

text \<open>
  A number of days whose year does not fit into 32 bits: the year wraps around and an unrelated date is
  returned; a number near the largest 64-bit integer overflows.
\<close>

lemma add_days_wraps: "dt_add_days db UNIX_EPOCH (146097 * 2 ^ 28) = Some (Ok UNIX_EPOCH)"
proof -
  have "dt_parts UNIX_EPOCH = Some (1970, 1, 1, 0, 0, 0, 0)" by code_simp
  moreover have "checked_signed 64 (days_from_civil 1970 1 1 + 146097 * 2 ^ 28) = Some (146097 * 2 ^ 28)" by code_simp
  moreover have "civil_from_days (146097 * 2 ^ 28) = Some (1970, 1, 1)" by code_simp
  moreover have "local_seconds_checked 1970 1 1 0 0 0 = Ok 0" by code_simp
  ultimately show ?thesis
    by (simp add: dt_add_days_def dt_from_parts_def dt_from_parts_with_def dt_from_raw_checked_def UNIX_EPOCH_def secs_range NANOS_PER_SEC_def)
qed

lemma add_days_panics: "dt_add_days db UNIX_EPOCH (2 ^ 63 - 1) = None"
proof -
  have "dt_parts UNIX_EPOCH = Some (1970, 1, 1, 0, 0, 0, 0)" by code_simp
  moreover have "checked_signed 64 (days_from_civil 1970 1 1 + (2 ^ 63 - 1)) = Some (2 ^ 63 - 1)" by code_simp
  moreover have "civil_from_days (2 ^ 63 - 1) = None" by code_simp
  ultimately show ?thesis by (simp add: dt_add_days_def)
qed

section \<open>Every operation keeps the invariant\<close>

lemma from_raw_checked_sound_option:
  assumes "zone_ok zone" "MIN_SECS \<le> secs" "secs \<le> MAX_SECS" "0 \<le> nanos" "nanos < NANOS_PER_SEC"
  shows "\<exists>dt. dt_from_raw_checked db secs nanos zone = Some (Ok dt) \<and> dt_ok db dt \<and> dt_unix_nanos dt = secs * 1000000000 + nanos"
  using from_raw_checked_cases(1) [OF assms(1,4,5,2,3), of db] by (auto simp: dt_unix_nanos_def dt_from_raw_def)

lemma saturating_add_cases:
  assumes "dt_ok db dt" "duration_ok d"
  shows "\<exists>r. dt_saturating_add db dt d = Some r \<and> dt_ok db r \<and>
    dt_unix_nanos r = min (dt_unix_nanos dt + duration_nanos d) (MAX_SECS * 1000000000 + 999999999)"
proof (cases "nanos_in_range (dt_unix_nanos dt + duration_nanos d)")
  case True
  then obtain r where "dt_checked_add db dt d = Some (Ok r)" "dt_ok db r" "dt_unix_nanos r = dt_unix_nanos dt + duration_nanos d"
    using checked_add_cases [OF assms] by auto
  then show ?thesis using True by (auto simp: dt_saturating_add_def nanos_in_range_def)
next
  case False
  moreover have "nanos_in_range (dt_unix_nanos dt)" "0 \<le> duration_nanos d"
    using unix_nanos_range [OF assms(1)] assms(2) by (auto simp: duration_ok_def duration_nanos_def)
  ultimately have "MAX_SECS * 1000000000 + 999999999 < dt_unix_nanos dt + duration_nanos d" by (auto simp: nanos_in_range_def)
  moreover obtain r where "dt_from_raw_checked db MAX_SECS 999999999 (dt_zone dt) = Some (Ok r)" "dt_ok db r"
      "dt_unix_nanos r = MAX_SECS * 1000000000 + 999999999"
    using from_raw_checked_sound_option [of "dt_zone dt" MAX_SECS 999999999 db] assms(1) by (auto simp: dt_ok_def secs_range NANOS_PER_SEC_def)
  ultimately show ?thesis using checked_add_cases [OF assms] False by (auto simp: dt_saturating_add_def)
qed

lemma saturating_sub_cases:
  assumes "dt_ok db dt" "duration_ok d"
  shows "\<exists>r. dt_saturating_sub db dt d = Some r \<and> dt_ok db r \<and>
    dt_unix_nanos r = max (dt_unix_nanos dt - duration_nanos d) (MIN_SECS * 1000000000)"
proof (cases "nanos_in_range (dt_unix_nanos dt - duration_nanos d)")
  case True
  then obtain r where "dt_checked_sub db dt d = Some (Ok r)" "dt_ok db r" "dt_unix_nanos r = dt_unix_nanos dt - duration_nanos d"
    using checked_sub_cases [OF assms] by auto
  then show ?thesis using True by (auto simp: dt_saturating_sub_def nanos_in_range_def)
next
  case False
  moreover have "nanos_in_range (dt_unix_nanos dt)" "0 \<le> duration_nanos d"
    using unix_nanos_range [OF assms(1)] assms(2) by (auto simp: duration_ok_def duration_nanos_def)
  ultimately have "dt_unix_nanos dt - duration_nanos d < MIN_SECS * 1000000000" by (auto simp: nanos_in_range_def)
  moreover obtain r where "dt_from_raw_checked db MIN_SECS 0 (dt_zone dt) = Some (Ok r)" "dt_ok db r"
      "dt_unix_nanos r = MIN_SECS * 1000000000"
    using from_raw_checked_sound_option [of "dt_zone dt" MIN_SECS 0 db] assms(1) by (auto simp: dt_ok_def secs_range NANOS_PER_SEC_def)
  ultimately show ?thesis using checked_sub_cases [OF assms] False by (auto simp: dt_saturating_sub_def)
qed

lemma calendar_sound:
  assumes "dt_ok db dt"
  shows "\<bar>k\<bar> \<le> 2 ^ 31 \<Longrightarrow> dt_sound db (dt_add_months db dt k)"
    and "dt_sound db (dt_add_years db dt k)"
    and "\<bar>k\<bar> \<le> 700000000000 \<Longrightarrow> dt_sound db (dt_add_days db dt k)"
proof -
  obtain y m d h mi s n where p: "dt_parts dt = Some (y, m, d, h, mi, s, n)" using dt_parts_eq [OF assms] by blast
  note q = parts_local_seconds [OF assms p]
  have zone: "zone_ok (dt_zone dt)" "0 \<le> n" using assms q(1) by (auto simp: dt_ok_def)
  have parts: "dt_sound db (dt_from_parts db y' m' d' h mi s n (dt_zone dt))" for y' m' d'
    unfolding dt_from_parts_def by (rule from_parts_with_sound [OF zone(1) q(3,5,7) zone(2)])
  show "dt_sound db (dt_add_months db dt k)" if "\<bar>k\<bar> \<le> 2 ^ 31" using parts by (simp add: add_months_eq [OF assms p that] Let_def)
  show "dt_sound db (dt_add_years db dt k)" using parts by (simp add: add_years_eq [OF assms p])
  show "dt_sound db (dt_add_days db dt k)" if "\<bar>k\<bar> \<le> 700000000000" using add_days_eq [OF assms p that] parts by auto
qed

lemma bound_ok:
  assumes "zone_ok zone"
  shows "\<exists>r. dt_bound db zone b = Some r \<and> pred_option (dt_ok db) r"
proof (cases b)
  case (Some t)
  then show ?thesis
    using from_raw_checked_cases(1) [OF assms, of 0 t db] from_raw_checked_cases(2) [OF assms, of 0 t db]
    by (cases "MIN_SECS \<le> t \<and> t \<le> MAX_SECS") (auto simp: dt_bound_def NANOS_PER_SEC_def dt_from_raw_def not_le)
qed (simp add: dt_bound_def)

lemma zone_bounds_ok:
  assumes "dt_ok db dt"
  shows "\<exists>s e. dt_zone_bounds db dt = Some (s, e) \<and> pred_option (dt_ok db) s \<and> pred_option (dt_ok db) e"
proof -
  have zone: "zone_ok (dt_zone dt)" using assms by (simp add: dt_ok_def)
  obtain x y where "bounds_at (dt_zone dt) (dt_secs dt) = (x, y)" by fastforce
  then show ?thesis using bound_ok [OF zone, of db x] bound_ok [OF zone, of db y]
    by (auto simp: dt_zone_bounds_def)
qed

text \<open>The operators panic exactly where the checked operations report an error.\<close>

lemma dt_add_cases:
  assumes "dt_ok db dt" "duration_ok d"
  shows "if nanos_in_range (dt_unix_nanos dt + duration_nanos d)
    then \<exists>r. dt_add db dt d = Some r \<and> dt_ok db r \<and> dt_unix_nanos r = dt_unix_nanos dt + duration_nanos d
    else dt_add db dt d = None"
  using checked_add_cases [OF assms] by (auto simp: dt_add_def result_unwrap_def)

lemma dt_sub_cases:
  assumes "dt_ok db dt" "duration_ok d"
  shows "if nanos_in_range (dt_unix_nanos dt - duration_nanos d)
    then \<exists>r. dt_sub db dt d = Some r \<and> dt_ok db r \<and> dt_unix_nanos r = dt_unix_nanos dt - duration_nanos d
    else dt_sub db dt d = None"
  using checked_sub_cases [OF assms] by (auto simp: dt_sub_def result_unwrap_def)

section \<open>The system clock\<close>

lemma epoch_ok: "dt_ok db UNIX_EPOCH"
  by (simp add: dt_ok_def UNIX_EPOCH_def secs_range NANOS_PER_SEC_def)

lemma try_from_system_time_sound: "dt_sound db (dt_try_from_system_time db t)"
proof -
  have "in_signed 64 (- s - 1)" if "in_signed 64 s" "0 \<le> s" for s using that by (auto simp: in_signed_def)
  moreover have "0 \<le> (- t) div 1000000000" if "\<not> 0 \<le> t" using that by simp
  ultimately show ?thesis
    by (auto simp: dt_try_from_system_time_def system_duration_since_def duration_of_nanos_def checked_signed_def from_unix_nanos_sound Let_def
        split: option.splits)
qed

lemma now_in_ok:
  assumes "zone_ok zone" "\<bar>system_now\<bar> < 2 ^ 63 * 1000000000"
  shows "\<exists>r. dt_now_in db system_now instant_now zone = Some r \<and> dt_ok db r \<and> dt_zone r = zone"
proof -
  define s where "s = \<bar>system_now\<bar> div 1000000000"
  have s: "0 \<le> s" "s < 2 ^ 63" using assms(2) by (simp_all add: s_def)
  then have as: "as_signed 64 s = s" "checked_signed 64 (- s) = Some (- s)" "checked_signed 64 (- s - 1) = Some (- s - 1)"
    by (auto simp: as_signed_def checked_signed_def in_signed_def)
  have finish: "\<exists>r. do { r \<leftarrow> dt_from_unix_nanos db n; let utc = (case r of Ok dt \<Rightarrow> dt | Err _ \<Rightarrow> UNIX_EPOCH);
      result \<leftarrow> dt_in_timezone db utc zone; Some (result\<lparr>dt_monotonic := Some instant_now\<rparr>) } = Some r \<and> dt_ok db r \<and> dt_zone r = zone" for n
  proof -
    obtain r where r: "dt_from_unix_nanos db n = Some r" "dt_ok db (case r of Ok dt \<Rightarrow> dt | Err _ \<Rightarrow> UNIX_EPOCH)"
      using from_unix_nanos_sound [of db n] epoch_ok by (auto simp: dt_sound_def split: option.splits sum.splits)
    then show ?thesis using in_timezone_ok [OF r(2) assms(1)] by (auto simp: dt_ok_def)
  qed
  show ?thesis
  proof (cases "0 \<le> system_now")
    case True
    then show ?thesis using as finish by (simp add: dt_now_in_def system_duration_since_def duration_of_nanos_def s_def)
  next
    case False
    then have "(- system_now) div 1000000000 = s" by (simp add: s_def)
    then show ?thesis using False as finish
      by (cases "(- system_now) mod 1000000000 = 0") (simp_all add: dt_now_in_def system_duration_since_def duration_of_nanos_def Let_def)
  qed
qed

lemma to_system_time_eq:
  assumes "dt_ok db dt"
  shows "dt_to_system_time dt = dt_unix_nanos dt"
proof -
  define n where "n = \<bar>dt_unix_nanos dt\<bar>"
  have n: "0 \<le> n" "n < 2 ^ 62 * 1000000000" using unix_nanos_range [OF assms] by (auto simp: n_def nanos_in_range_def secs_range)
  then have d: "n div 1000000000 < 2 ^ 62" by simp
  have parts: "as_unsigned 64 (tdiv n 1000000000) = n div 1000000000" "as_unsigned 32 (trem n 1000000000) = n mod 1000000000"
    using n(1) d pos_mod_bound [of 1000000000 n] by (simp_all add: as_unsigned_def tdiv_nonneg trem_def minus_div_mult_eq_mod)
  have "duration_nanos \<lparr>as_secs = n div 1000000000, subsec_nanos = n mod 1000000000\<rparr> = n" by (simp add: duration_nanos_def)
  moreover have "clock_point n = Some n" using n d by (auto simp: clock_point_def in_signed_def)
  moreover have "- (2 ^ 62) \<le> (- n) div 1000000000" "(- n) div 1000000000 \<le> 0" using n by simp_all
  then have "clock_point (- n) = Some (- n)" by (auto simp: clock_point_def in_signed_def)
  ultimately show ?thesis using parts
    by (cases "0 \<le> dt_unix_nanos dt") (simp_all add: dt_to_system_time_def clock_checked_add_def clock_checked_sub_def n_def)
qed

section \<open>Samples\<close>

text \<open>The repeated half past one of New York on 3 November 2024.\<close>

lemma new_york_half_past_one:
  "local_seconds_checked 2024 11 3 1 30 0 = Ok 1730597400" "zone_calm sample_db new_york_2024 1730597400"
  by (code_simp, rule new_york_calm, simp)

section \<open>Properties\<close>

text \<open>
  C8: from civil fields to an instant. For a zone whose rules are well formed and settled and a wall-clock time with at
  most one transition within 52 hours: a time that the clocks of the zone show gives the instant chosen by the
  disambiguation, and the fields of the result are the fields given (second 60 counts as 59); a skipped time gives an
  instant at which the clocks show a later time; \<open>Reject\<close> makes a repeated or skipped time an error; an
  instant outside the supported range is an error.
\<close>

theorem from_parts_correct:
  assumes "zone_ok zone" "zone_settled db zone" "local_seconds_checked y m d h mi s = Ok l" "zone_calm db zone l"
    "0 \<le> h" "0 \<le> mi" "0 \<le> s" "0 \<le> n" "n < NANOS_PER_SEC"
  shows "if shows_at db zone l = {}
    then (if dis = Reject
      then dt_from_parts_with db y m d h mi s n zone dis = Some (Err (err_ambiguous ''civil time does not exist in this time zone''))
      else \<exists>i off. dt_from_parts_with db y m d h mi s n zone dis = dt_from_raw_checked db i n zone \<and>
        offset_at db zone i = Some off \<and> l < i + off)
    else if dis = Reject \<and> 1 < card (shows_at db zone l)
      then dt_from_parts_with db y m d h mi s n zone dis = Some (Err (err_ambiguous ''civil time occurs twice in this time zone''))
      else \<exists>i. i = (if dis = Later then Max (shows_at db zone l) else Min (shows_at db zone l)) \<and>
        dt_from_parts_with db y m d h mi s n zone dis = dt_from_raw_checked db i n zone \<and>
        (if MIN_SECS \<le> i \<and> i \<le> MAX_SECS
         then \<exists>dt. dt_from_raw_checked db i n zone = Some (Ok dt) \<and> dt_ok db dt \<and> dt_secs dt = i \<and>
           dt_parts dt = Some (y, m, d, h, mi, if s = 60 then 59 else s, n)
         else dt_from_raw_checked db i n zone = Some (Err (err_out_of_range ''instant is outside the supported range'')))"
proof -
  have l: "\<bar>l\<bar> \<le> 2 ^ 43" using local_seconds_range [OF assms(3,5-7)] by (simp add: secs_range)
  have eq: "dt_from_parts_with db y m d h mi s n zone dis =
      try_bind (resolve_with db zone l dis) (\<lambda>instant. dt_from_raw_checked db instant n zone)"
    using assms(3,9) by (simp add: dt_from_parts_with_def)
  note res = resolve_cases [OF assms(1,2,4) l, of dis]
  consider (none) "shows_at db zone l = {}" | (two) "shows_at db zone l \<noteq> {}" "dis = Reject \<and> 1 < card (shows_at db zone l)"
    | (some) "shows_at db zone l \<noteq> {}" "\<not> (dis = Reject \<and> 1 < card (shows_at db zone l))" by blast
  then show ?thesis
  proof cases
    case none
    then show ?thesis using res unfolding eq by (auto split: if_splits)
  next
    case two
    then show ?thesis using res unfolding eq by simp
  next
    case some
    define i where "i = (if dis = Later then Max (shows_at db zone l) else Min (shows_at db zone l))"
    have r: "resolve_with db zone l dis = Some (Ok i)" using res some unfolding i_def by (simp only: if_False)
    obtain a b where "shows_at db zone l = {a, b}" using shows_at_pair [OF assms(1,2,4) l some(1)] by blast
    then have shown: "offset_at db zone i = Some (l - i)" using some(1) unfolding i_def shows_at_def by (auto simp: min_def max_def split: if_splits)
    have ok: "\<exists>dt. dt_from_raw_checked db i n zone = Some (Ok dt) \<and> dt_ok db dt \<and> dt_secs dt = i \<and>
        dt_parts dt = Some (y, m, d, h, mi, if s = 60 then 59 else s, n)" if "MIN_SECS \<le> i" "i \<le> MAX_SECS"
    proof -
      have "dt_from_raw_checked db i n zone = Some (Ok (dt_from_raw i n (l - i) zone))" "dt_ok db (dt_from_raw i n (l - i) zone)"
        using from_raw_checked_cases(1) [OF assms(1,8,9) that, of db] shown by auto
      moreover have "dt_parts (dt_from_raw i n (l - i) zone) = Some (y, m, d, h, mi, if s = 60 then 59 else s, n)"
        using parts_of_local [OF calculation(2) assms(3,5-7)] by (simp add: dt_from_raw_def)
      ultimately show ?thesis by (auto simp: dt_from_raw_def)
    qed
    have "dt_from_parts_with db y m d h mi s n zone dis = dt_from_raw_checked db i n zone" using r by (simp add: eq)
    then show ?thesis using some ok from_raw_checked_cases(2) [OF assms(1,8,9), of i db] unfolding i_def [symmetric] by (auto simp: not_le)
  qed
qed

theorem from_parts_correct_witness:
  "Max (shows_at sample_db new_york_2024 1730597400) = 1730615400 \<and>
   (\<exists>dt. dt_from_parts_with sample_db 2024 11 3 1 30 0 7 new_york_2024 Later = Some (Ok dt) \<and> dt_secs dt = 1730615400 \<and>
     dt_parts dt = Some (2024, 11, 3, 1, 30, 0, 7))"
proof -
  have fold: "classify sample_db new_york_2024 1730597400 = Some (Fold (- 14400) (- 18000))" by code_simp
  have "shows_at sample_db new_york_2024 1730597400 = {1730611800, 1730615400}"
    using classify_cases [OF new_york_ok new_york_half_past_one(2)] fold by simp
  then show ?thesis
    using from_parts_correct [OF new_york_ok new_york_half_past_one, where n = 7 and dis = Later]
    by (auto simp: NANOS_PER_SEC_def secs_range)
qed

text \<open>
  C21: the fields of a value determine it. Under the same conditions, reading the fields of a well-formed value and
  constructing a value from them in its zone gives it back, with the earlier or the later choice where the time is repeated.
\<close>

theorem parts_roundtrip:
  assumes "dt_ok db dt" "zone_settled db (dt_zone dt)" "zone_calm db (dt_zone dt) (dt_secs dt + dt_offset dt)"
    "MIN_SECS \<le> dt_secs dt + dt_offset dt" "dt_secs dt + dt_offset dt \<le> MAX_SECS"
  shows "\<exists>y m d h mi s. dt_parts dt = Some (y, m, d, h, mi, s, dt_nanos dt) \<and>
    (\<exists>dis. dis \<in> {Earlier, Later} \<and> dt_from_parts_with db y m d h mi s (dt_nanos dt) (dt_zone dt) dis = Some (Ok (dt\<lparr>dt_monotonic := None\<rparr>)))"
proof -
  define l where "l = dt_secs dt + dt_offset dt"
  obtain y m d h mi s n where p: "dt_parts dt = Some (y, m, d, h, mi, s, n)" using dt_parts_eq [OF assms(1)] by blast
  have loc: "local_seconds_checked y m d h mi s = Ok l" unfolding l_def by (rule local_of_parts [OF assms(1) p assms(4,5)])
  have zone: "zone_ok (dt_zone dt)" and n: "dt_nanos dt < NANOS_PER_SEC" and off: "offset_at db (dt_zone dt) (dt_secs dt) = Some (dt_offset dt)"
    and rng: "MIN_SECS \<le> dt_secs dt" "dt_secs dt \<le> MAX_SECS"
    using assms(1) by (auto simp: dt_ok_def)
  have l: "\<bar>l\<bar> \<le> 2 ^ 43" using assms(4,5) by (simp add: secs_range l_def)
  have i: "dt_secs dt \<in> shows_at db (dt_zone dt) l" using off by (simp add: shows_at_def l_def)
  note calm = assms(3) [folded l_def]
  have "\<exists>dis \<in> {Earlier, Later}. dt_secs dt = (if dis = Later then Max (shows_at db (dt_zone dt) l) else Min (shows_at db (dt_zone dt) l))"
    using shows_at_end [OF zone assms(2) calm l i] by simp
  then obtain dis where dis: "dis \<in> {Earlier, Later}"
    "dt_secs dt = (if dis = Later then Max (shows_at db (dt_zone dt) l) else Min (shows_at db (dt_zone dt) l))" ..
  have "resolve_with db (dt_zone dt) l dis = Some (Ok (dt_secs dt))"
    using resolve_cases [OF zone assms(2) calm l, of dis] i dis by (auto split: if_splits)
  then have "dt_from_parts_with db y m d h mi s (dt_nanos dt) (dt_zone dt) dis = Some (Ok (dt\<lparr>dt_monotonic := None\<rparr>))"
    using loc n off rng by (simp add: dt_from_parts_with_def dt_from_raw_checked_def)
  then show ?thesis using p parts_local_seconds(1) [OF assms(1) p] dis(1) by blast
qed

theorem parts_roundtrip_witness:
  "dt_ok sample_db (dt_from_raw 1730615400 7 (- 18000) new_york_2024) \<and>
   (\<exists>y m d h mi s dis. dt_parts (dt_from_raw 1730615400 7 (- 18000) new_york_2024) = Some (y, m, d, h, mi, s, 7) \<and>
     dt_from_parts_with sample_db y m d h mi s 7 new_york_2024 dis = Some (Ok (dt_from_raw 1730615400 7 (- 18000) new_york_2024)))"
proof -
  define dt where "dt = dt_from_raw 1730615400 7 (- 18000) new_york_2024"
  have f: "dt_secs dt = 1730615400" "dt_nanos dt = 7" "dt_offset dt = - 18000" "dt_zone dt = new_york_2024" "dt\<lparr>dt_monotonic := None\<rparr> = dt"
    by (simp_all add: dt_def dt_from_raw_def)
  have "offset_at sample_db new_york_2024 1730615400 = Some (- 18000)" by code_simp
  then have ok: "dt_ok sample_db dt" using new_york_ok by (simp add: dt_ok_def f secs_range NANOS_PER_SEC_def)
  from parts_roundtrip [OF ok] show ?thesis
    unfolding dt_def [symmetric] using ok new_york_ok new_york_half_past_one(2) by (simp add: f secs_range) blast
qed

text \<open>
  C12: the invariant of a \<open>DateTime\<close>: an instant in the range of years -9999 to 9999, less than a second of nanoseconds,
  and the offset its zone has at that instant. The constructors from the Unix time, from civil fields and from the
  system clock, the conversion to another zone, the checked operations and those on the calendar return, without a panic, an error or
  a value with the invariant; saturating operations stop at the ends of the range; the current time and the bounds of the
  zone's rules have the invariant. The operators \<open>+\<close> and \<open>-\<close> panic, and do so exactly when the result is outside the range.
  The conversion to the system clock is exact. Two inputs are bounded: \<open>add_days\<close> takes up to
  700 000 000 000 days either way (far beyond that it wraps around or panics, \<open>add_days_wraps\<close> and
  \<open>add_days_panics\<close>), and the system clock is less than \<open>2 ^ 63\<close> seconds away from the epoch.
\<close>

theorem date_time_invariant:
  assumes "dt_ok db dt" "zone_ok zone" "duration_ok d" "0 \<le> hour" "0 \<le> minute" "0 \<le> second" "0 \<le> nano"
    "in_signed 32 k" "\<bar>days\<bar> \<le> 700000000000" "\<bar>system_now\<bar> < 2 ^ 63 * 1000000000"
  shows "dt_sound db (dt_from_unix_nanos db n) \<and> dt_sound db (dt_from_unix db n) \<and>
    dt_sound db (dt_from_parts_with db year month day hour minute second nano zone dis) \<and>
    (\<exists>r. dt_in_timezone db dt zone = Some r \<and> dt_ok db r) \<and>
    dt_sound db (dt_checked_add db dt d) \<and> dt_sound db (dt_checked_sub db dt d) \<and>
    (\<exists>r. dt_saturating_add db dt d = Some r \<and> dt_ok db r \<and>
       dt_unix_nanos r = min (dt_unix_nanos dt + duration_nanos d) (MAX_SECS * 1000000000 + 999999999)) \<and>
    (\<exists>r. dt_saturating_sub db dt d = Some r \<and> dt_ok db r \<and>
       dt_unix_nanos r = max (dt_unix_nanos dt - duration_nanos d) (MIN_SECS * 1000000000)) \<and>
    (if nanos_in_range (dt_unix_nanos dt + duration_nanos d)
     then \<exists>r. dt_add db dt d = Some r \<and> dt_ok db r \<and> dt_unix_nanos r = dt_unix_nanos dt + duration_nanos d else dt_add db dt d = None) \<and>
    (if nanos_in_range (dt_unix_nanos dt - duration_nanos d)
     then \<exists>r. dt_sub db dt d = Some r \<and> dt_ok db r \<and> dt_unix_nanos r = dt_unix_nanos dt - duration_nanos d else dt_sub db dt d = None) \<and>
    dt_sound db (dt_add_days db dt days) \<and> dt_sound db (dt_add_months db dt k) \<and> dt_sound db (dt_add_years db dt k) \<and>
    (\<exists>s e. dt_zone_bounds db dt = Some (s, e) \<and> pred_option (dt_ok db) s \<and> pred_option (dt_ok db) e) \<and>
    dt_sound db (dt_try_from_system_time db n) \<and> dt_to_system_time dt = dt_unix_nanos dt \<and>
    (\<exists>r. dt_now_in db system_now instant_now zone = Some r \<and> dt_ok db r \<and> dt_zone r = zone)"
proof (intro conjI)
  show "dt_sound db (dt_from_unix_nanos db n)" "dt_sound db (dt_from_unix db n)"
    unfolding dt_from_unix_def by (rule from_unix_nanos_sound)+
  show "dt_sound db (dt_from_parts_with db year month day hour minute second nano zone dis)"
    by (rule from_parts_with_sound [OF assms(2,4-7)])
  show "\<exists>r. dt_in_timezone db dt zone = Some r \<and> dt_ok db r" using in_timezone_ok [OF assms(1,2)] by blast
  show "dt_sound db (dt_checked_add db dt d)" using checked_add_cases [OF assms(1,3)] by (auto split: if_splits)
  show "dt_sound db (dt_checked_sub db dt d)" using checked_sub_cases [OF assms(1,3)] by (auto split: if_splits)
  have "\<bar>k\<bar> \<le> 2 ^ 31" using assms(8) by (auto simp: in_signed_def)
  then show "dt_sound db (dt_add_months db dt k)" by (rule calendar_sound(1) [OF assms(1)])
qed (fact saturating_add_cases [OF assms(1,3)] saturating_sub_cases [OF assms(1,3)] dt_add_cases [OF assms(1,3)] dt_sub_cases [OF assms(1,3)]
    calendar_sound(2) [OF assms(1)] calendar_sound(3) [OF assms(1,9)] zone_bounds_ok [OF assms(1)]
    try_from_system_time_sound to_system_time_eq [OF assms(1)] now_in_ok [OF assms(2,10)])+

theorem date_time_invariant_witness:
  "dt_ok sample_db UNIX_EPOCH \<and> duration_ok \<lparr>as_secs = 1, subsec_nanos = 5\<rparr> \<and>
   dt_sound sample_db (dt_checked_add sample_db UNIX_EPOCH \<lparr>as_secs = 1, subsec_nanos = 5\<rparr>) \<and>
   dt_sound sample_db (dt_from_parts_with sample_db 2024 2 29 12 0 0 0 ZoneUtc Compatible) \<and>
   (\<exists>r. dt_now_in sample_db 1700000000000000000 7 ZoneUtc = Some r \<and> dt_ok sample_db r \<and> dt_zone r = ZoneUtc)"
proof -
  have d: "duration_ok \<lparr>as_secs = 1, subsec_nanos = 5\<rparr>" by (simp add: duration_ok_def)
  show ?thesis
    using date_time_invariant [where db = sample_db and dt = UNIX_EPOCH and zone = ZoneUtc and d = "\<lparr>as_secs = 1, subsec_nanos = 5\<rparr>"
        and hour = 12 and minute = 0 and second = 0 and nano = 0 and k = 0 and days = 0 and year = 2024 and month = 2 and day = 29
        and dis = Compatible and system_now = 1700000000000000000 and instant_now = 7]
      epoch_ok [of sample_db] d by (simp add: in_signed_def)
qed

text \<open>
  C26: arithmetic with durations and comparison. Adding or subtracting a duration moves the instant by exactly its
  nanoseconds and keeps the zone, or is an error when the result is outside the range; the difference of two values
  (without two readings of the monotonic clock) is exact, with the nanoseconds counted upwards, and \<open>duration_since\<close>
  is an error exactly when it is negative; comparison is that of the instants and a total order whatever the zones.
\<close>

theorem duration_correct:
  assumes "dt_ok db a" "dt_ok db b" "duration_ok d" "dt_monotonic a = None \<or> dt_monotonic b = None"
  shows "(if nanos_in_range (dt_unix_nanos a + duration_nanos d)
     then \<exists>r. dt_checked_add db a d = Some (Ok r) \<and> dt_ok db r \<and> dt_unix_nanos r = dt_unix_nanos a + duration_nanos d \<and> dt_zone r = dt_zone a
     else dt_checked_add db a d = Some (Err (err_out_of_range ''instant is outside the supported range''))) \<and>
    (if nanos_in_range (dt_unix_nanos a - duration_nanos d)
     then \<exists>r. dt_checked_sub db a d = Some (Ok r) \<and> dt_ok db r \<and> dt_unix_nanos r = dt_unix_nanos a - duration_nanos d \<and> dt_zone r = dt_zone a
     else dt_checked_sub db a d = Some (Err (err_out_of_range ''instant is outside the supported range''))) \<and>
    dt_signed_duration_since a b =
      Some ((dt_unix_nanos a - dt_unix_nanos b) div 1000000000, (dt_unix_nanos a - dt_unix_nanos b) mod 1000000000) \<and>
    dt_duration_since a b = Some (if dt_unix_nanos a < dt_unix_nanos b then Err (err_out_of_range ''earlier is later than self'')
      else Ok (duration_of_nanos (dt_unix_nanos a - dt_unix_nanos b))) \<and>
    dt_cmp a b = prim_cmp (dt_unix_nanos a) (dt_unix_nanos b) \<and> (dt_cmp a b = Equal \<longleftrightarrow> dt_eq a b)"
  by (intro conjI checked_add_cases [OF assms(1,3)] checked_sub_cases [OF assms(1,3)] signed_duration_eq [OF assms(1,2,4)]
      duration_since_cases [OF assms(1,2,4)] dt_cmp_nanos [OF assms(1,2)] dt_order.cmp_equal)

theorem duration_correct_witness:
  "dt_ok sample_db UNIX_EPOCH \<and> dt_duration_since UNIX_EPOCH UNIX_EPOCH = Some (Ok (duration_of_nanos 0)) \<and>
   (\<exists>r. dt_checked_add sample_db UNIX_EPOCH \<lparr>as_secs = 1, subsec_nanos = 5\<rparr> = Some (Ok r) \<and> dt_unix_nanos r = 1000000005)"
proof -
  have d: "duration_ok \<lparr>as_secs = 1, subsec_nanos = 5\<rparr>" by (simp add: duration_ok_def)
  have n: "dt_monotonic UNIX_EPOCH = None" "dt_unix_nanos UNIX_EPOCH = 0" by (simp_all add: UNIX_EPOCH_def dt_unix_nanos_def)
  show ?thesis
    using duration_correct [OF epoch_ok [of sample_db] epoch_ok d disjI1 [OF n(1)]] epoch_ok [of sample_db] n
    by (simp add: nanos_in_range_def secs_range duration_nanos_def) blast
qed

text \<open>
  C31: arithmetic on the calendar. Adding up to 700 000 000 000 days either way gives the date so many days later at the same
  time of day (for more days the code can wrap around to another date, \<open>add_days_wraps\<close>); adding months, an \<open>i32\<close>,
  counts months of the proleptic calendar and takes the last day of a month that is too short; adding up to 170 000 000 years, whose
  months fit an \<open>i32\<close>, is adding twelve times as many months. With a fixed offset a day is exactly 86 400 seconds.
\<close>

theorem calendar_correct:
  assumes "dt_ok db dt" "dt_parts dt = Some (y, m, d, h, mi, s, n)" "\<bar>days\<bar> \<le> 700000000000" "in_signed 32 k" "\<bar>years\<bar> \<le> 170000000"
  shows "(\<exists>y' m' d'. civil_valid y' m' d' \<and> days_from_civil y' m' d' = days_from_civil y m d + days \<and>
      dt_add_days db dt days = dt_from_parts db y' m' d' h mi s n (dt_zone dt)) \<and>
    (\<exists>y' m'. 1 \<le> m' \<and> m' \<le> 12 \<and> 12 * y' + m' = 12 * y + m + k \<and>
      dt_add_months db dt k = dt_from_parts db y' m' (min d (days_in_month y' m')) h mi s n (dt_zone dt)) \<and>
    dt_add_years db dt years = dt_add_months db dt (12 * years) \<and>
    (case dt_zone dt of ZoneNamed _ \<Rightarrow> True
     | _ \<Rightarrow> (case dt_add_days db dt days of Some (Ok r) \<Rightarrow> dt_unix_nanos r = dt_unix_nanos dt + days * 86400 * 1000000000 | _ \<Rightarrow> True))"
proof (intro conjI)
  have k: "\<bar>k\<bar> \<le> 2 ^ 31" using assms(4) by (auto simp: in_signed_def)
  show "\<exists>y' m' d'. civil_valid y' m' d' \<and> days_from_civil y' m' d' = days_from_civil y m d + days \<and>
      dt_add_days db dt days = dt_from_parts db y' m' d' h mi s n (dt_zone dt)" by (rule add_days_eq [OF assms(1-3)])
  define t where "t = 12 * y + m - 1 + k"
  have "dt_add_months db dt k = dt_from_parts db (t div 12) (t mod 12 + 1) (min d (days_in_month (t div 12) (t mod 12 + 1))) h mi s n (dt_zone dt)"
    by (simp add: add_months_eq [OF assms(1,2) k] Let_def t_def)
  moreover have "12 * (t div 12) + (t mod 12 + 1) = 12 * y + m + k" using div_mult_mod_eq [of t 12] by (simp add: t_def)
  moreover have "1 \<le> t mod 12 + 1" "t mod 12 + 1 \<le> 12" using pos_mod_bound [of 12 t] by simp_all
  ultimately show "\<exists>y' m'. 1 \<le> m' \<and> m' \<le> 12 \<and> 12 * y' + m' = 12 * y + m + k \<and>
      dt_add_months db dt k = dt_from_parts db y' m' (min d (days_in_month y' m')) h mi s n (dt_zone dt)" by blast
  show "dt_add_years db dt years = dt_add_months db dt (12 * years)" by (rule years_as_months [OF assms(1,5)])
  show "case dt_zone dt of ZoneNamed _ \<Rightarrow> True
     | _ \<Rightarrow> (case dt_add_days db dt days of Some (Ok r) \<Rightarrow> dt_unix_nanos r = dt_unix_nanos dt + days * 86400 * 1000000000 | _ \<Rightarrow> True)"
    using add_days_fixed [OF assms(1) _ assms(3)] by (auto split: time_zone.splits option.splits sum.splits)
qed

theorem calendar_correct_witness:
  "dt_parts UNIX_EPOCH = Some (1970, 1, 1, 0, 0, 0, 0) \<and>
   (\<exists>y' m' d'. civil_valid y' m' d' \<and> days_from_civil y' m' d' = 1000000 \<and>
      dt_add_days sample_db UNIX_EPOCH 1000000 = dt_from_parts sample_db y' m' d' 0 0 0 0 ZoneUtc) \<and>
   dt_add_years sample_db UNIX_EPOCH 54 = dt_add_months sample_db UNIX_EPOCH 648"
proof -
  have p: "dt_parts UNIX_EPOCH = Some (1970, 1, 1, 0, 0, 0, 0)" "days_from_civil 1970 1 1 = 0" "dt_zone UNIX_EPOCH = ZoneUtc"
    by (code_simp, code_simp, simp add: UNIX_EPOCH_def)
  from calendar_correct [OF epoch_ok [of sample_db] p(1), of 1000000 0 54] p show ?thesis by (simp add: in_signed_def)
qed

end
