(* ===== verification/Date_Format.thy ===== *)
theory Date_Format
  imports Date_Time
begin

text \<open>
  Text forms of a value (\<open>src/time/format.rs\<close>, with \<open>try_format\<close> and \<open>format_to\<close> of \<open>src/time/datetime.rs\<close>): the
  fast path that writes into a buffer, and the path through \<open>core::fmt\<close>, whose functions return the
  text they write. An outer \<open>None\<close> is a panic.
\<close>

section \<open>Formats and the buffer\<close>

definition MAX_FORMATTED_LENGTH :: nat where
  "MAX_FORMATTED_LENGTH = 96"

datatype time_format = Rfc3339 | Rfc9557 | Iso8601 | Rfc2822 | HttpDate | DateOnly | TimeOnly

record fmt_buf =
  buf_bytes :: "byte list"
  buf_len :: nat

type_synonym buf_op = "fmt_buf \<Rightarrow> (bool \<times> fmt_buf) option"

text \<open>The operator \<open>&&\<close>, and the constant \<open>true\<close>.\<close>

definition buf_and :: "buf_op \<Rightarrow> buf_op \<Rightarrow> buf_op" where
  "buf_and f g self = do { (ok, self) \<leftarrow> f self; if ok then g self else Some (False, self) }"

definition buf_true :: buf_op where
  "buf_true self = Some (True, self)"

definition buf_byte :: "byte \<Rightarrow> buf_op" where
  "buf_byte b self =
     Some (if buf_len self < length (buf_bytes self)
       then (True, self\<lparr>buf_bytes := (buf_bytes self)[buf_len self := b], buf_len := buf_len self + 1\<rparr>)
       else (False, self))"

definition buf_write :: "byte list \<Rightarrow> buf_op" where
  "buf_write xs self =
     Some (if buf_len self + length xs \<le> length (buf_bytes self)
       then (True, self\<lparr>buf_bytes := take (buf_len self) (buf_bytes self) @ xs @ drop (buf_len self + length xs) (buf_bytes self),
                        buf_len := buf_len self + length xs\<rparr>)
       else (False, self))"

text \<open>The digits of a number, from the last one on, before those collected already.\<close>

function pad_loop :: "nat \<Rightarrow> byte list \<Rightarrow> byte list" where
  "pad_loop val scratch =
     (let scratch = digit_byte (val mod 10) # scratch; val = val div 10
      in if val = 0 then scratch else pad_loop val scratch)"
  by auto
termination
  by (relation "measure fst") auto

declare pad_loop.simps [simp del]

definition buf_pad :: "int \<Rightarrow> nat \<Rightarrow> buf_op" where
  "buf_pad val width self =
     (let scratch = pad_loop (nat val) []; digits = length scratch
      in if digits > 10 then None
         else if digits > width then Some (False, self)
         else
           let pad = width - digits
           in if pad > 10 then None
              else buf_and (buf_write (replicate pad (ascii CHR ''0''))) (buf_write scratch) self)"

definition buf_year :: "int \<Rightarrow> buf_op" where
  "buf_year year =
     (if 0 \<le> year \<and> year \<le> 9999 then buf_pad (as_unsigned 32 year) 4
      else if year < 0 then buf_and (buf_byte (ascii CHR ''-'')) (buf_pad (as_unsigned 32 (- year)) 4)
      else buf_and (buf_byte (ascii CHR ''+'')) (buf_pad (as_unsigned 32 year) 1))"

definition sign_byte :: "int \<Rightarrow> byte" where
  "sign_byte offset = (if offset < 0 then ascii CHR ''-'' else ascii CHR ''+'')"

definition buf_offset :: "int \<Rightarrow> buf_op" where
  "buf_offset offset =
     (let magnitude = \<bar>offset\<bar>; seconds = magnitude mod 60
      in buf_and (buf_byte (sign_byte offset))
        (buf_and (buf_pad (magnitude div 3600) 2)
        (buf_and (buf_byte (ascii CHR '':''))
        (buf_and (buf_pad (magnitude mod 3600 div 60) 2)
        (if seconds = 0 then buf_true else buf_and (buf_byte (ascii CHR '':'')) (buf_pad seconds 2))))))"

definition buf_offset_compact :: "int \<Rightarrow> buf_op" where
  "buf_offset_compact offset =
     (let magnitude = \<bar>offset\<bar>
      in buf_and (buf_byte (sign_byte offset)) (buf_and (buf_pad (magnitude div 3600) 2) (buf_pad (magnitude mod 3600 div 60) 2)))"

definition buf_fraction :: "int \<Rightarrow> buf_op" where
  "buf_fraction nanos =
     (if nanos = 0 then buf_true
      else if nanos mod 1000000 = 0 then buf_and (buf_byte (ascii CHR ''.'')) (buf_pad (nanos div 1000000) 3)
      else if nanos mod 1000 = 0 then buf_and (buf_byte (ascii CHR ''.'')) (buf_pad (nanos div 1000) 6)
      else buf_and (buf_byte (ascii CHR ''.'')) (buf_pad nanos 9))"

definition MONTHS :: "string list" where
  "MONTHS = [''Jan'', ''Feb'', ''Mar'', ''Apr'', ''May'', ''Jun'', ''Jul'', ''Aug'', ''Sep'', ''Oct'', ''Nov'', ''Dec'']"

definition month_short :: "int \<Rightarrow> byte list" where
  "month_short month =
     ascii_bytes (if month < 1 then ''???''
       else case slice_get MONTHS (nat month - 1) of Some name \<Rightarrow> name | None \<Rightarrow> ''???'')"

definition month_short_name :: "int \<Rightarrow> byte list" where
  "month_short_name month = month_short month"

section \<open>The fast path\<close>

definition format_iso :: "date_time \<Rightarrow> bool \<Rightarrow> bool \<Rightarrow> buf_op" where
  "format_iso dt z_suffix zone buf =
     do {
       (year, month, day, hour, minute, second, nanos) \<leftarrow> dt_parts dt;
       (base, buf) \<leftarrow>
         buf_and (buf_year year)
        (buf_and (buf_byte (ascii CHR ''-''))
        (buf_and (buf_pad month 2)
        (buf_and (buf_byte (ascii CHR ''-''))
        (buf_and (buf_pad day 2)
        (buf_and (buf_byte (ascii CHR ''T''))
        (buf_and (buf_pad hour 2)
        (buf_and (buf_byte (ascii CHR '':''))
        (buf_and (buf_pad minute 2)
        (buf_and (buf_byte (ascii CHR '':''))
        (buf_and (buf_pad second 2)
        (buf_and (buf_fraction nanos)
        (if z_suffix \<and> dt_offset dt = 0 then buf_byte (ascii CHR ''Z'') else buf_offset (dt_offset dt))))))))))))) buf;
       if \<not> base \<or> \<not> zone then Some (base, buf)
       else case dt_timezone_name dt of
              Some name \<Rightarrow> buf_and (buf_byte (ascii CHR ''['')) (buf_and (buf_write name) (buf_byte (ascii CHR '']''))) buf
            | None \<Rightarrow> Some (True, buf)
     }"

text \<open>The date and the time of the two formats below.\<close>

definition format_mail :: "weekday \<Rightarrow> int \<times> int \<times> int \<times> int \<times> int \<times> int \<times> int \<Rightarrow> buf_op \<Rightarrow> buf_op" where
  "format_mail weekday = (\<lambda>(year, month, day, hour, minute, second, nanos) suffix.
     buf_and (buf_write (ascii_bytes (weekday_short_name weekday)))
    (buf_and (buf_write (ascii_bytes '', ''))
    (buf_and (buf_pad day 2)
    (buf_and (buf_byte (ascii CHR '' ''))
    (buf_and (buf_write (month_short_name month))
    (buf_and (buf_byte (ascii CHR '' ''))
    (buf_and (buf_year year)
    (buf_and (buf_byte (ascii CHR '' ''))
    (buf_and (buf_pad hour 2)
    (buf_and (buf_byte (ascii CHR '':''))
    (buf_and (buf_pad minute 2)
    (buf_and (buf_byte (ascii CHR '':''))
    (buf_and (buf_pad second 2)
     suffix)))))))))))))"

definition format_rfc2822 :: "date_time \<Rightarrow> buf_op" where
  "format_rfc2822 dt buf =
     do {
       parts \<leftarrow> dt_parts dt;
       weekday \<leftarrow> dt_weekday dt;
       format_mail weekday parts (buf_and (buf_byte (ascii CHR '' '')) (buf_offset_compact (dt_offset dt))) buf
     }"

definition format_http :: "tz_database \<Rightarrow> date_time \<Rightarrow> buf_op" where
  "format_http db dt buf =
     do {
       utc \<leftarrow> dt_in_timezone db dt ZoneUtc;
       parts \<leftarrow> dt_parts utc;
       weekday \<leftarrow> dt_weekday utc;
       format_mail weekday parts (buf_write (ascii_bytes '' GMT'')) buf
     }"

definition format_date :: "date_time \<Rightarrow> buf_op" where
  "format_date dt buf =
     do {
       (year, month, day, _, _, _, _) \<leftarrow> dt_parts dt;
       buf_and (buf_year year) (buf_and (buf_byte (ascii CHR ''-'')) (buf_and (buf_pad month 2)
         (buf_and (buf_byte (ascii CHR ''-'')) (buf_pad day 2)))) buf
     }"

definition format_time :: "date_time \<Rightarrow> buf_op" where
  "format_time dt buf =
     do {
       (_, _, _, hour, minute, second, nanos) \<leftarrow> dt_parts dt;
       buf_and (buf_pad hour 2) (buf_and (buf_byte (ascii CHR '':'')) (buf_and (buf_pad minute 2)
         (buf_and (buf_byte (ascii CHR '':'')) (buf_and (buf_pad second 2) (buf_fraction nanos))))) buf
     }"

text \<open>The buffer after the call, and the number of bytes written.\<close>

definition format_into :: "tz_database \<Rightarrow> byte list \<Rightarrow> date_time \<Rightarrow> time_format \<Rightarrow> (byte list \<times> nat option) option" where
  "format_into db out dt format =
     do {
       let buf = \<lparr>buf_bytes = out, buf_len = 0\<rparr>;
       (ok, buf) \<leftarrow>
         (case format of
            Rfc3339 \<Rightarrow> format_iso dt True False buf
          | Rfc9557 \<Rightarrow> format_iso dt True True buf
          | Iso8601 \<Rightarrow> format_iso dt False False buf
          | Rfc2822 \<Rightarrow> format_rfc2822 dt buf
          | HttpDate \<Rightarrow> format_http db dt buf
          | DateOnly \<Rightarrow> format_date dt buf
          | TimeOnly \<Rightarrow> format_time dt buf);
       Some (buf_bytes buf, if ok then Some (buf_len buf) else None)
     }"

definition write_to :: "tz_database \<Rightarrow> byte list \<Rightarrow> date_time \<Rightarrow> time_format \<Rightarrow> (byte list \<times> (time_error, nat) result) option" where
  "write_to db buffer dt format =
     map_option (\<lambda>(out, n). (out, case n of
         Some len \<Rightarrow> Ok len
       | None \<Rightarrow> Err (err_buffer_too_small ''buffer is too small for the formatted value''))) (format_into db buffer dt format)"

section \<open>The path through the formatter\<close>

text \<open>\<open>{:0width}\<close> of an unsigned integer.\<close>

definition fmt_pad :: "nat \<Rightarrow> int \<Rightarrow> byte list" where
  "fmt_pad width n = (let ds = show_nat (nat n) in replicate (width - length ds) (ascii CHR ''0'') @ ds)"

definition write_year :: "int \<Rightarrow> byte list" where
  "write_year year =
     (if 0 \<le> year \<and> year \<le> 9999 then fmt_pad 4 year
      else if year < 0 then ascii CHR ''-'' # fmt_pad 4 (- year)
      else ascii CHR ''+'' # show_nat (nat year))"

definition write_offset :: "int \<Rightarrow> byte list" where
  "write_offset offset =
     (let magnitude = \<bar>offset\<bar>; hours = magnitude div 3600; minutes = magnitude mod 3600 div 60; seconds = magnitude mod 60
      in if seconds = 0 then sign_byte offset # fmt_pad 2 hours @ [ascii CHR '':''] @ fmt_pad 2 minutes
         else sign_byte offset # fmt_pad 2 hours @ [ascii CHR '':''] @ fmt_pad 2 minutes @ [ascii CHR '':''] @ fmt_pad 2 seconds)"

definition write_offset_compact :: "int \<Rightarrow> byte list" where
  "write_offset_compact offset =
     (let magnitude = \<bar>offset\<bar>; hours = magnitude div 3600; minutes = magnitude mod 3600 div 60
      in sign_byte offset # fmt_pad 2 hours @ fmt_pad 2 minutes)"

definition write_fraction :: "int \<Rightarrow> byte list" where
  "write_fraction nanos =
     (if nanos = 0 then []
      else if nanos mod 1000000 = 0 then ascii CHR ''.'' # fmt_pad 3 (nanos div 1000000)
      else if nanos mod 1000 = 0 then ascii CHR ''.'' # fmt_pad 6 (nanos div 1000)
      else ascii CHR ''.'' # fmt_pad 9 nanos)"

text \<open>\<open>-{month:02}-{day:02}\<close> and \<open>{hour:02}:{minute:02}:{second:02}\<close>.\<close>

definition write_month_day :: "int \<Rightarrow> int \<Rightarrow> byte list" where
  "write_month_day month day = [ascii CHR ''-''] @ fmt_pad 2 month @ [ascii CHR ''-''] @ fmt_pad 2 day"

definition write_clock :: "int \<Rightarrow> int \<Rightarrow> int \<Rightarrow> byte list" where
  "write_clock hour minute second = fmt_pad 2 hour @ [ascii CHR '':''] @ fmt_pad 2 minute @ [ascii CHR '':''] @ fmt_pad 2 second"

definition write_iso :: "date_time \<Rightarrow> bool \<Rightarrow> bool \<Rightarrow> byte list option" where
  "write_iso dt z_suffix zone =
     do {
       (year, month, day, hour, minute, second, nanos) \<leftarrow> dt_parts dt;
       Some (write_year year @ write_month_day month day @ [ascii CHR ''T''] @ write_clock hour minute second @ write_fraction nanos @
         (if z_suffix \<and> dt_offset dt = 0 then [ascii CHR ''Z''] else write_offset (dt_offset dt)) @
         (if zone then case dt_timezone_name dt of Some name \<Rightarrow> [ascii CHR ''[''] @ name @ [ascii CHR '']''] | None \<Rightarrow> []
          else []))
     }"

definition write_date :: "date_time \<Rightarrow> byte list option" where
  "write_date dt =
     do { (year, month, day, _, _, _, _) \<leftarrow> dt_parts dt; Some (write_year year @ write_month_day month day) }"

definition write_time :: "date_time \<Rightarrow> byte list option" where
  "write_time dt =
     do { (_, _, _, hour, minute, second, nanos) \<leftarrow> dt_parts dt; Some (write_clock hour minute second @ write_fraction nanos) }"

definition write_rfc2822 :: "date_time \<Rightarrow> byte list option" where
  "write_rfc2822 dt =
     do {
       (year, month, day, hour, minute, second, _) \<leftarrow> dt_parts dt;
       weekday \<leftarrow> dt_weekday dt;
       Some (ascii_bytes (weekday_short_name weekday) @ ascii_bytes '', '' @ fmt_pad 2 day @ [ascii CHR '' ''] @ month_short month @
         [ascii CHR '' ''] @ write_year year @ [ascii CHR '' ''] @ write_clock hour minute second @ [ascii CHR '' ''] @
         write_offset_compact (dt_offset dt))
     }"

definition write_http_date :: "tz_database \<Rightarrow> date_time \<Rightarrow> byte list option" where
  "write_http_date db dt =
     do {
       utc \<leftarrow> dt_in_timezone db dt ZoneUtc;
       (year, month, day, hour, minute, second, _) \<leftarrow> dt_parts utc;
       weekday \<leftarrow> dt_weekday utc;
       Some (ascii_bytes (weekday_short_name weekday) @ ascii_bytes '', '' @ fmt_pad 2 day @ [ascii CHR '' ''] @ month_short month @
         [ascii CHR '' ''] @ write_year year @ [ascii CHR '' ''] @ write_clock hour minute second @ ascii_bytes '' GMT'')
     }"

definition write_format :: "tz_database \<Rightarrow> date_time \<Rightarrow> time_format \<Rightarrow> byte list option" where
  "write_format db dt format =
     (case format of
        Rfc3339 \<Rightarrow> write_iso dt True False
      | Rfc9557 \<Rightarrow> write_iso dt True True
      | Iso8601 \<Rightarrow> write_iso dt False False
      | Rfc2822 \<Rightarrow> write_rfc2822 dt
      | HttpDate \<Rightarrow> write_http_date db dt
      | DateOnly \<Rightarrow> write_date dt
      | TimeOnly \<Rightarrow> write_time dt)"

text \<open>\<open>Display\<close> of a formatted value and of a value: the text, or the error of the formatter.\<close>

definition formatted_fmt :: "tz_database \<Rightarrow> date_time \<Rightarrow> time_format \<Rightarrow> (unit, byte list) result option" where
  "formatted_fmt db dt format =
     do {
       (buffer, n) \<leftarrow> format_into db (replicate MAX_FORMATTED_LENGTH 0) dt format;
       case n of
         Some len \<Rightarrow> Some (case from_utf8 (take len buffer) of Ok s \<Rightarrow> Ok s | Err _ \<Rightarrow> Err ())
       | None \<Rightarrow> map_option Ok (write_format db dt format)
     }"

definition write_datetime :: "tz_database \<Rightarrow> date_time \<Rightarrow> (unit, byte list) result option" where
  "write_datetime db dt =
     do {
       (buffer, n) \<leftarrow> format_into db (replicate MAX_FORMATTED_LENGTH 0) dt Rfc9557;
       case n of
         Some len \<Rightarrow> Some (case from_utf8 (take len buffer) of Ok s \<Rightarrow> Ok s | Err _ \<Rightarrow> Err ())
       | None \<Rightarrow> do {
           (year, month, day, hour, minute, second, nanos) \<leftarrow> dt_parts dt;
           Some (Ok (write_year year @ write_month_day month day @ [ascii CHR ''T''] @ write_clock hour minute second @ write_fraction nanos @
             (if dt_offset dt = 0 then [ascii CHR ''Z''] else write_offset (dt_offset dt)) @
             (case dt_timezone_name dt of Some name \<Rightarrow> [ascii CHR ''[''] @ name @ [ascii CHR '']''] | None \<Rightarrow> [])))
         }
     }"

text \<open>The strict variants: what a format can express.\<close>

definition dt_try_format :: "date_time \<Rightarrow> time_format \<Rightarrow> (time_error, unit) result option" where
  "dt_try_format self format =
     do {
       year \<leftarrow> (if format \<noteq> TimeOnly then dt_year self else Some 0);
       Some (if format \<noteq> TimeOnly \<and> \<not> (0 \<le> year \<and> year \<le> 9999)
         then Err (err_out_of_range ''value cannot be represented in the requested format'')
         else if format \<in> {Rfc3339, Rfc9557, Iso8601, Rfc2822} \<and> trem (dt_offset self) 60 \<noteq> 0
         then Err (err_out_of_range ''offset cannot be represented in the requested format'')
         else Ok ())
     }"

definition dt_format_to :: "tz_database \<Rightarrow> byte list \<Rightarrow> date_time \<Rightarrow> time_format \<Rightarrow> (byte list \<times> (time_error, nat) result) option" where
  "dt_format_to db buffer self format =
     do {
       r \<leftarrow> dt_try_format self format;
       case r of Err e \<Rightarrow> Some (buffer, Err e) | Ok _ \<Rightarrow> write_to db buffer self format
     }"

section \<open>What the buffer operations write\<close>

definition buf_put :: "byte list \<Rightarrow> fmt_buf \<Rightarrow> fmt_buf" where
  "buf_put t buf = buf\<lparr>buf_bytes := take (buf_len buf) (buf_bytes buf) @ t @ drop (buf_len buf + length t) (buf_bytes buf),
     buf_len := buf_len buf + length t\<rparr>"

text \<open>An operation writes a text when there is room for it, and otherwise reports that there is none.\<close>

definition buf_puts :: "buf_op \<Rightarrow> byte list \<Rightarrow> bool" where
  "buf_puts w t \<longleftrightarrow> (\<forall>buf. buf_len buf \<le> length (buf_bytes buf) \<longrightarrow>
     (if buf_len buf + length t \<le> length (buf_bytes buf) then w buf = Some (True, buf_put t buf)
      else \<exists>buf'. w buf = Some (False, buf')))"

definition buf_fails :: "buf_op \<Rightarrow> bool" where
  "buf_fails w \<longleftrightarrow> (\<forall>buf. buf_len buf \<le> length (buf_bytes buf) \<longrightarrow> (\<exists>buf'. w buf = Some (False, buf')))"

named_theorems puts

lemma buf_put_put:
  assumes "buf_len buf + length s + length t \<le> length (buf_bytes buf)"
  shows "buf_put t (buf_put s buf) = buf_put (s @ t) buf"
proof -
  have "take (buf_len buf + length s) (take (buf_len buf) (buf_bytes buf) @ s @ drop (buf_len buf + length s) (buf_bytes buf)) =
      take (buf_len buf) (buf_bytes buf) @ s" using assms by simp
  moreover have "drop (buf_len buf + length s + length t) (take (buf_len buf) (buf_bytes buf) @ s @ drop (buf_len buf + length s) (buf_bytes buf)) =
      drop (buf_len buf + length (s @ t)) (buf_bytes buf)" using assms by (simp add: ac_simps)
  ultimately show ?thesis by (simp add: buf_put_def add.assoc)
qed

lemma buf_put_size [simp]:
  "buf_len (buf_put t buf) = buf_len buf + length t"
  "buf_len buf + length t \<le> length (buf_bytes buf) \<Longrightarrow> length (buf_bytes (buf_put t buf)) = length (buf_bytes buf)"
  by (simp_all add: buf_put_def)

lemma puts_and [puts]:
  assumes "buf_puts f s" "buf_puts g t"
  shows "buf_puts (buf_and f g) (s @ t)"
  unfolding buf_puts_def
proof (intro allI impI)
  fix buf :: fmt_buf
  assume len: "buf_len buf \<le> length (buf_bytes buf)"
  note f = assms(1) [unfolded buf_puts_def, rule_format, OF len]
  show "if buf_len buf + length (s @ t) \<le> length (buf_bytes buf) then buf_and f g buf = Some (True, buf_put (s @ t) buf)
      else \<exists>buf'. buf_and f g buf = Some (False, buf')"
  proof (cases "buf_len buf + length s \<le> length (buf_bytes buf)")
    case True
    then have "buf_len (buf_put s buf) \<le> length (buf_bytes (buf_put s buf))" by simp
    note g = assms(2) [unfolded buf_puts_def, rule_format, OF this]
    show ?thesis using f g True buf_put_put [of buf s t] by (auto simp: buf_and_def add.assoc)
  next
    case False
    then show ?thesis using f by (auto simp: buf_and_def)
  qed
qed

lemma fails_and:
  "buf_fails f \<Longrightarrow> buf_fails (buf_and f g)"
  "buf_puts f s \<Longrightarrow> buf_fails g \<Longrightarrow> buf_fails (buf_and f g)"
proof -
  show "buf_fails f \<Longrightarrow> buf_fails (buf_and f g)" by (fastforce simp: buf_fails_def buf_and_def)
  assume f: "buf_puts f s" and g: "buf_fails g"
  show "buf_fails (buf_and f g)"
    unfolding buf_fails_def
  proof (intro allI impI)
    fix buf :: fmt_buf
    assume len: "buf_len buf \<le> length (buf_bytes buf)"
    note f = f [unfolded buf_puts_def, rule_format, OF len]
    show "\<exists>buf'. buf_and f g buf = Some (False, buf')"
    proof (cases "buf_len buf + length s \<le> length (buf_bytes buf)")
      case True
      then obtain buf' where "g (buf_put s buf) = Some (False, buf')" using g by (fastforce simp: buf_fails_def)
      then show ?thesis using f True by (auto simp: buf_and_def)
    next
      case False
      then show ?thesis using f by (auto simp: buf_and_def)
    qed
  qed
qed

lemma puts_true [puts]: "buf_puts buf_true []"
  by (auto simp: buf_puts_def buf_true_def buf_put_def)

lemma puts_write [puts]: "buf_puts (buf_write xs) xs"
  by (auto simp: buf_puts_def buf_write_def buf_put_def)

lemma puts_byte [puts]: "buf_puts (buf_byte b) [b]"
  unfolding buf_puts_def
proof (intro allI impI)
  fix buf :: fmt_buf
  assume "buf_len buf \<le> length (buf_bytes buf)"
  show "if buf_len buf + length [b] \<le> length (buf_bytes buf) then buf_byte b buf = Some (True, buf_put [b] buf)
      else \<exists>buf'. buf_byte b buf = Some (False, buf')"
    by (simp add: buf_byte_def buf_put_def upd_conv_take_nth_drop Suc_le_eq)
qed

lemma pad_loop_show: "pad_loop n acc = show_nat n @ acc"
proof (induction n acc rule: pad_loop.induct)
  case (1 n acc)
  then show ?case
    by (subst pad_loop.simps, subst show_nat.simps) (auto simp: Let_def div_eq_0_iff)
qed

lemma show_nat_short: "n < 10 ^ Suc k \<Longrightarrow> length (show_nat n) \<le> Suc k"
proof (induction k arbitrary: n)
  case 0
  then show ?case by (subst show_nat.simps) simp
next
  case (Suc k)
  then have "n div 10 < 10 ^ Suc k" by (simp add: div_less_iff_less_mult)
  then show ?case using Suc.IH [of "n div 10"] by (subst show_nat.simps) simp
qed

lemma show_nat_long: "10 ^ k \<le> n \<Longrightarrow> k < length (show_nat n)"
proof (induction k arbitrary: n)
  case (Suc k)
  then have "10 ^ k \<le> n div 10" by (simp add: less_eq_div_iff_mult_less_eq)
  moreover have "\<not> n < 10" using Suc.prems by (simp add: not_less) (metis Suc.prems le_trans one_le_numeral power_Suc mult.commute mult_le_mono1 nat_mult_1 one_le_power)
  ultimately show ?case using Suc.IH [of "n div 10"] by (subst show_nat.simps) simp
qed simp

lemma puts_pad [puts]:
  assumes "nat v < 10 ^ w" "0 < w" "w \<le> 10"
  shows "buf_puts (buf_pad v w) (fmt_pad w v)"
proof -
  define ds where "ds = show_nat (nat v)"
  have len: "length ds \<le> w" using show_nat_short [of "nat v" "w - 1"] assms by (simp add: ds_def)
  then have "buf_pad v w = buf_and (buf_write (replicate (w - length ds) (ascii CHR ''0''))) (buf_write ds)"
    using assms(3) by (auto simp: buf_pad_def pad_loop_show ds_def fun_eq_iff Let_def)
  then show ?thesis using puts_and [OF puts_write puts_write] by (simp add: fmt_pad_def ds_def Let_def)
qed

lemma fails_pad: "nat v < 10 ^ 10 \<Longrightarrow> 10 ^ w \<le> nat v \<Longrightarrow> buf_fails (buf_pad v w)"
  using show_nat_short [of "nat v" 9] show_nat_long [of w "nat v"]
  by (auto simp: buf_fails_def buf_pad_def pad_loop_show Let_def)

lemma puts_year:
  assumes "- 9999 \<le> y" "y \<le> 9999"
  shows "buf_puts (buf_year y) (write_year y)"
proof (cases "0 \<le> y")
  case True
  then show ?thesis using assms puts_pad [of y 4] by (simp add: buf_year_def write_year_def as_unsigned_def)
next
  case False
  then have "as_unsigned 32 (- y) = - y" using assms by (simp add: as_unsigned_def)
  then show ?thesis using False assms puts_and [OF puts_byte puts_pad [of "- y" 4], of "ascii CHR ''-''"]
    by (simp add: buf_year_def write_year_def)
qed

lemma fails_year:
  assumes "y < - 9999 \<or> 9999 < y" "\<bar>y\<bar> \<le> 20000"
  shows "buf_fails (buf_year y)"
proof (cases "y < 0")
  case True
  then have "as_unsigned 32 (- y) = - y" using assms by (simp add: as_unsigned_def)
  then show ?thesis using True assms fails_and(2) [OF puts_byte fails_pad [of "- y" 4], of "ascii CHR ''-''"] by (auto simp: buf_year_def)
next
  case False
  then have "as_unsigned 32 y = y" using assms by (simp add: as_unsigned_def)
  then show ?thesis using False assms fails_and(2) [OF puts_byte fails_pad [of y 1], of "ascii CHR ''+''"] by (auto simp: buf_year_def)
qed

lemma puts_two [puts]: "x \<le> 99 \<Longrightarrow> buf_puts (buf_pad x 2) (fmt_pad 2 x)"
  by (rule puts_pad) auto

lemma sub_hour: "(m :: int) mod 3600 div 60 \<le> 99" "m mod 60 \<le> 99"
proof -
  have "m mod 3600 < 3600" "m mod 60 < 60" by simp_all
  then show "m mod 3600 div 60 \<le> 99" "m mod 60 \<le> 99" by simp_all
qed

lemma puts_offset:
  assumes "\<bar>off\<bar> \<le> OFFSET_LIMIT"
  shows "buf_puts (buf_offset off) (write_offset off)" "buf_puts (buf_offset_compact off) (write_offset_compact off)"
proof -
  define m where "m = \<bar>off\<bar>"
  have h: "m div 3600 \<le> 99" using assms by (simp add: m_def OFFSET_LIMIT_def)
  note two = puts_two [OF h] puts_two [OF sub_hour(1) [of m]] puts_two [OF sub_hour(2) [of m]]
  show "buf_puts (buf_offset_compact off) (write_offset_compact off)"
    unfolding buf_offset_compact_def write_offset_compact_def Let_def m_def [symmetric]
    using puts_and [OF puts_byte puts_and [OF two(1,2)], of "sign_byte off"] by simp
  show "buf_puts (buf_offset off) (write_offset off)"
    unfolding buf_offset_def write_offset_def Let_def m_def [symmetric]
    using puts_and [OF puts_byte puts_and [OF two(1) puts_and [OF puts_byte puts_and [OF two(2) puts_true]]], of "sign_byte off" "ascii CHR '':''"]
      puts_and [OF puts_byte puts_and [OF two(1) puts_and [OF puts_byte puts_and [OF two(2) puts_and [OF puts_byte two(3)]]]],
        of "sign_byte off" "ascii CHR '':''" "ascii CHR '':''"]
    by simp
qed

lemma puts_fraction:
  assumes "0 \<le> n" "n < 1000000000"
  shows "buf_puts (buf_fraction n) (write_fraction n)"
proof -
  have "n div 1000000 < 1000" "n div 1000 < 1000000" using assms by simp_all
  then have "nat (n div 1000000) < 10 ^ 3" "nat (n div 1000) < 10 ^ 6" "nat n < 10 ^ 9" using assms by simp_all
  note p = puts_pad [OF this(1)] puts_pad [OF this(2)] puts_pad [OF this(3)]
  show ?thesis
    using puts_true puts_and [OF puts_byte p(1), of "ascii CHR ''.''"] puts_and [OF puts_byte p(2), of "ascii CHR ''.''"]
      puts_and [OF puts_byte p(3), of "ascii CHR ''.''"]
    by (simp add: buf_fraction_def write_fraction_def)
qed

text \<open>The fields of a value fit into the widths used.\<close>

lemma parts_fit:
  assumes "dt_ok db dt" "dt_parts dt = Some (y, m, d, h, mi, s, n)"
  shows "m \<le> 99" "d \<le> 99" "h \<le> 99" "mi \<le> 99" "s \<le> 99" "0 \<le> n" "n < 1000000000" "\<bar>y\<bar> \<le> 20000"
proof -
  note q = parts_local_seconds [OF assms]
  show "m \<le> 99" "d \<le> 99" using q(2) days_in_month_pos [of m y] by (auto simp: civil_valid_def)
  show "h \<le> 99" "mi \<le> 99" "s \<le> 99" using q(4,6,8) by simp_all
  show "0 \<le> n" "n < 1000000000" using assms(1) q(1) by (auto simp: dt_ok_def NANOS_PER_SEC_def)
  show "\<bar>y\<bar> \<le> 20000" using parts_year [OF assms] by simp
qed

lemma puts_date:
  assumes "- 9999 \<le> y" "y \<le> 9999" "m \<le> 99" "d \<le> 99"
  shows "buf_puts (buf_and (buf_year y) (buf_and (buf_byte (ascii CHR ''-'')) (buf_and (buf_pad m 2)
      (buf_and (buf_byte (ascii CHR ''-'')) (buf_pad d 2))))) (write_year y @ write_month_day m d)"
  unfolding write_month_day_def by (intro puts_and puts_year puts_byte puts_two assms)

lemma dt_weekday_total:
  assumes "dt_ok db dt"
  shows "dt_weekday dt = Some (weekday_from_index (((dt_secs dt + dt_offset dt) div 86400 + 3) mod 7))"
proof -
  define l where "l = dt_secs dt + dt_offset dt"
  have l: "\<bar>l\<bar> \<le> 2 ^ 43" using assms dt_ok_offset [OF assms] unfolding dt_ok_def l_def secs_range OFFSET_LIMIT_def by auto
  then have "checked_signed 64 l = Some l" by (intro checked_small) simp
  moreover have "- (2 ^ 43) \<le> l div 86400" "l div 86400 \<le> 2 ^ 43" using l by simp_all
  then have "weekday_from_days (l div 86400) = Some ((l div 86400 + 3) mod 7)" by (intro weekday_eq) simp
  ultimately show ?thesis unfolding dt_weekday_def l_def [symmetric] SECS_PER_DAY_def by simp
qed

definition iso_zone_op :: "date_time \<Rightarrow> bool \<Rightarrow> buf_op" where
  "iso_zone_op dt zone =
     (if zone then case dt_timezone_name dt of
        Some name \<Rightarrow> buf_and (buf_byte (ascii CHR ''['')) (buf_and (buf_write name) (buf_byte (ascii CHR '']'')))
      | None \<Rightarrow> buf_true else buf_true)"

lemma puts_iso_zone: "buf_puts (iso_zone_op dt zone)
    (if zone then case dt_timezone_name dt of Some name \<Rightarrow> [ascii CHR ''[''] @ name @ [ascii CHR '']''] | None \<Rightarrow> [] else [])"
  unfolding iso_zone_op_def by (cases "dt_timezone_name dt"; cases zone) (simp_all only: if_True if_False option.case puts_and puts)

definition iso_base_op :: "date_time \<Rightarrow> bool \<Rightarrow> int \<times> int \<times> int \<times> int \<times> int \<times> int \<times> int \<Rightarrow> buf_op" where
  "iso_base_op dt z_suffix = (\<lambda>(year, month, day, hour, minute, second, nanos).
         buf_and (buf_year year)
        (buf_and (buf_byte (ascii CHR ''-''))
        (buf_and (buf_pad month 2)
        (buf_and (buf_byte (ascii CHR ''-''))
        (buf_and (buf_pad day 2)
        (buf_and (buf_byte (ascii CHR ''T''))
        (buf_and (buf_pad hour 2)
        (buf_and (buf_byte (ascii CHR '':''))
        (buf_and (buf_pad minute 2)
        (buf_and (buf_byte (ascii CHR '':''))
        (buf_and (buf_pad second 2)
        (buf_and (buf_fraction nanos)
        (if z_suffix \<and> dt_offset dt = 0 then buf_byte (ascii CHR ''Z'') else buf_offset (dt_offset dt))))))))))))))"

lemma format_iso_eq:
  assumes "dt_parts dt = Some p"
  shows "format_iso dt z zone = buf_and (iso_base_op dt z p) (iso_zone_op dt zone)"
proof
  fix buf
  obtain y m d h mi s n where p: "p = (y, m, d, h, mi, s, n)" by (cases p)
  show "format_iso dt z zone buf = buf_and (iso_base_op dt z p) (iso_zone_op dt zone) buf"
  proof (cases "iso_base_op dt z p buf")
    case None
    then show ?thesis unfolding format_iso_def assms p iso_base_op_def prod.case bind.bind_lunit buf_and_def [of _ "iso_zone_op dt zone"] by simp
  next
    case (Some r)
    obtain ok buf' where r: "r = (ok, buf')" by (cases r)
    show ?thesis using Some unfolding format_iso_def assms p iso_base_op_def prod.case bind.bind_lunit buf_and_def [of _ "iso_zone_op dt zone"] r
      by (auto simp: iso_zone_op_def buf_true_def split: option.splits)
  qed
qed

lemma iso_cases:
  assumes "dt_ok db dt" "dt_parts dt = Some (y, m, d, h, mi, s, n)"
  shows "\<exists>t. write_iso dt z zone = Some t \<and>
    (if - 9999 \<le> y \<and> y \<le> 9999 then buf_puts (format_iso dt z zone) t else buf_fails (format_iso dt z zone))"
proof (intro exI conjI)
  let ?t = "write_year y @ write_month_day m d @ [ascii CHR ''T''] @ write_clock h mi s @ write_fraction n @
         (if z \<and> dt_offset dt = 0 then [ascii CHR ''Z''] else write_offset (dt_offset dt)) @
         (if zone then case dt_timezone_name dt of Some name \<Rightarrow> [ascii CHR ''[''] @ name @ [ascii CHR '']''] | None \<Rightarrow> [] else [])"
  show "write_iso dt z zone = Some ?t" unfolding write_iso_def assms(2) bind.bind_lunit prod.case by (rule refl)
  note fit = parts_fit [OF assms]
  show "if - 9999 \<le> y \<and> y \<le> 9999 then buf_puts (format_iso dt z zone) ?t else buf_fails (format_iso dt z zone)"
  proof (cases "- 9999 \<le> y \<and> y \<le> 9999")
    case True
    have suffix: "buf_puts (if z \<and> dt_offset dt = 0 then buf_byte (ascii CHR ''Z'') else buf_offset (dt_offset dt))
        (if z \<and> dt_offset dt = 0 then [ascii CHR ''Z''] else write_offset (dt_offset dt))"
      using puts_byte [of "ascii CHR ''Z''"] puts_offset(1) [OF dt_ok_offset [OF assms(1)]] by (simp only: split: if_split) blast
    have base: "buf_puts (iso_base_op dt z (y, m, d, h, mi, s, n)) (write_year y @ [ascii CHR ''-''] @ fmt_pad 2 m @ [ascii CHR ''-''] @ fmt_pad 2 d @
        [ascii CHR ''T''] @ fmt_pad 2 h @ [ascii CHR '':''] @ fmt_pad 2 mi @ [ascii CHR '':''] @ fmt_pad 2 s @ write_fraction n @
        (if z \<and> dt_offset dt = 0 then [ascii CHR ''Z''] else write_offset (dt_offset dt)))"
      unfolding iso_base_op_def prod.case using True by (intro puts_and puts_year puts_byte puts_two puts_fraction suffix fit) simp_all
    have "buf_puts (format_iso dt z zone) ?t"
      using puts_and [OF base puts_iso_zone [of dt zone]] unfolding format_iso_eq [OF assms(2)] write_month_day_def write_clock_def append_assoc .
    then show ?thesis using True by simp
  next
    case False
    then have "buf_fails (iso_base_op dt z (y, m, d, h, mi, s, n))"
      unfolding iso_base_op_def prod.case using fit(8) by (intro fails_and(1) fails_year) auto
    then show ?thesis unfolding if_not_P [OF False] format_iso_eq [OF assms(2)] by (rule fails_and(1))
  qed
qed

lemma mail_puts:
  assumes "dt_ok db dt" "dt_parts dt = Some (y, m, d, h, mi, s, n)" "buf_puts suffix t"
  shows "if - 9999 \<le> y \<and> y \<le> 9999 then buf_puts (format_mail w (y, m, d, h, mi, s, n) suffix)
      (ascii_bytes (weekday_short_name w) @ ascii_bytes '', '' @ fmt_pad 2 d @ [ascii CHR '' ''] @ month_short m @
         [ascii CHR '' ''] @ write_year y @ [ascii CHR '' ''] @ write_clock h mi s @ t)
    else buf_fails (format_mail w (y, m, d, h, mi, s, n) suffix)"
proof (cases "- 9999 \<le> y \<and> y \<le> 9999")
  case True
  then have "buf_puts (format_mail w (y, m, d, h, mi, s, n) suffix)
      (ascii_bytes (weekday_short_name w) @ ascii_bytes '', '' @ fmt_pad 2 d @ [ascii CHR '' ''] @ month_short m @
         [ascii CHR '' ''] @ write_year y @ [ascii CHR '' ''] @ write_clock h mi s @ t)"
    unfolding format_mail_def prod.case month_short_name_def write_clock_def append_assoc
    by (intro puts_and puts_year puts_write puts_byte puts_two parts_fit [OF assms(1,2)] assms(3)) simp_all
  then show ?thesis using True by simp
next
  case False
  have "buf_fails (format_mail w (y, m, d, h, mi, s, n) suffix)"
    unfolding format_mail_def prod.case
    using False parts_fit(8) [OF assms(1,2)]
    by (intro fails_and(2) [OF puts_write] fails_and(2) [OF puts_byte] fails_and(2) [OF puts_two] fails_and(1) fails_year parts_fit(2) [OF assms(1,2)]) auto
  then show ?thesis unfolding if_not_P [OF False] .
qed

text \<open>Either path writes the same text; the fast path gives up on years with five digits.\<close>

definition format_op :: "tz_database \<Rightarrow> date_time \<Rightarrow> time_format \<Rightarrow> buf_op" where
  "format_op db dt format =
     (case format of
        Rfc3339 \<Rightarrow> format_iso dt True False
      | Rfc9557 \<Rightarrow> format_iso dt True True
      | Iso8601 \<Rightarrow> format_iso dt False False
      | Rfc2822 \<Rightarrow> format_rfc2822 dt
      | HttpDate \<Rightarrow> format_http db dt
      | DateOnly \<Rightarrow> format_date dt
      | TimeOnly \<Rightarrow> format_time dt)"

lemma format_into_op:
  "format_into db out dt format =
     map_option (\<lambda>(ok, buf). (buf_bytes buf, if ok then Some (buf_len buf) else None)) (format_op db dt format \<lparr>buf_bytes = out, buf_len = 0\<rparr>)"
proof -
  have "(case format of
            Rfc3339 \<Rightarrow> format_iso dt True False buf
          | Rfc9557 \<Rightarrow> format_iso dt True True buf
          | Iso8601 \<Rightarrow> format_iso dt False False buf
          | Rfc2822 \<Rightarrow> format_rfc2822 dt buf
          | HttpDate \<Rightarrow> format_http db dt buf
          | DateOnly \<Rightarrow> format_date dt buf
          | TimeOnly \<Rightarrow> format_time dt buf) = format_op db dt format buf" for buf
    by (cases format) (simp_all add: format_op_def)
  then show ?thesis by (cases "format_op db dt format \<lparr>buf_bytes = out, buf_len = 0\<rparr>") (auto simp: format_into_def)
qed

definition short_year :: "date_time \<Rightarrow> bool" where
  "short_year dt \<longleftrightarrow> MIN_SECS \<le> dt_secs dt + dt_offset dt \<and> dt_secs dt + dt_offset dt \<le> MAX_SECS"

lemma short_year_iff:
  assumes "dt_ok db dt" "dt_parts dt = Some (y, m, d, h, mi, s, n)"
  shows "short_year dt \<longleftrightarrow> - 9999 \<le> y \<and> y \<le> 9999"
proof -
  note q = parts_local_seconds [OF assms]
  define D where "D = days_from_civil y m d"
  have l: "dt_secs dt + dt_offset dt = D * 86400 + h * 3600 + mi * 60 + s" using q(9) by (simp add: D_def)
  have "MIN_SECS \<le> D * 86400 \<and> D * 86400 \<le> MAX_SECS \<longleftrightarrow> - 4371587 \<le> D \<and> D \<le> 2932896" unfolding secs_range by auto
  moreover have "short_year dt \<longleftrightarrow> - 4371587 \<le> D \<and> D \<le> 2932896"
    unfolding short_year_def l secs_range using q(3-8) by auto
  ultimately show ?thesis using year_in_range [OF q(2)] unfolding D_def SECS_PER_DAY_def MIN_YEAR_def MAX_YEAR_def by simp
qed

lemma format_cases:
  assumes "dt_ok db dt"
  shows "\<exists>t. write_format db dt format = Some t \<and>
    (if short_year dt \<or> format \<in> {HttpDate, TimeOnly} then buf_puts (format_op db dt format) t else buf_fails (format_op db dt format))"
proof -
  obtain y m d h mi s n where p: "dt_parts dt = Some (y, m, d, h, mi, s, n)" using dt_parts_eq [OF assms] by blast
  note fit = parts_fit [OF assms p] and short = short_year_iff [OF assms p]
  have wd: "\<exists>w. dt_weekday dt = Some w" using dt_weekday_total [OF assms] by blast
  consider (iso) z zone where "write_format db dt format = write_iso dt z zone" "format_op db dt format = format_iso dt z zone" "format \<notin> {HttpDate, TimeOnly}"
    | (mail) "format = Rfc2822" | (http) "format = HttpDate" | (date) "format = DateOnly" | (time) "format = TimeOnly"
    by (cases format) (auto simp: write_format_def format_op_def)
  then show ?thesis
  proof cases
    case iso
    then show ?thesis using iso_cases [OF assms p, of z zone] short by (cases "short_year dt") auto
  next
    case mail
    obtain w where w: "dt_weekday dt = Some w" using wd by blast
    have "format_rfc2822 dt = format_mail w (y, m, d, h, mi, s, n) (buf_and (buf_byte (ascii CHR '' '')) (buf_offset_compact (dt_offset dt)))"
      by (rule ext) (simp add: format_rfc2822_def p w)
    moreover have suffix: "buf_puts (buf_and (buf_byte (ascii CHR '' '')) (buf_offset_compact (dt_offset dt))) ([ascii CHR '' ''] @ write_offset_compact (dt_offset dt))"
      by (intro puts_and puts_byte puts_offset dt_ok_offset [OF assms])
    ultimately show ?thesis using mail_puts [OF assms p suffix, of w, folded short] mail p w
      by (cases "short_year dt") (simp_all add: write_format_def format_op_def write_rfc2822_def)
  next
    case http
    obtain off where utc: "dt_in_timezone db dt ZoneUtc = Some (dt\<lparr>dt_offset := off, dt_zone := ZoneUtc\<rparr>)" "dt_ok db (dt\<lparr>dt_offset := off, dt_zone := ZoneUtc\<rparr>)"
      using in_timezone_ok [OF assms, of ZoneUtc] by auto
    define u where "u = dt\<lparr>dt_offset := off, dt_zone := ZoneUtc\<rparr>"
    have u: "dt_in_timezone db dt ZoneUtc = Some u" "dt_ok db u" using utc by (simp_all add: u_def)
    obtain y m d h mi s n where p: "dt_parts u = Some (y, m, d, h, mi, s, n)" using dt_parts_eq [OF u(2)] by blast
    obtain w where w: "dt_weekday u = Some w" using dt_weekday_total [OF u(2)] by blast
    have "dt_offset u = 0" using u(2) by (simp add: dt_ok_def u_def)
    then have "- 9999 \<le> y \<and> y \<le> 9999" using short_year_iff [OF u(2) p] u(2) by (simp add: short_year_def dt_ok_def)
    moreover have "format_http db dt = format_mail w (y, m, d, h, mi, s, n) (buf_write (ascii_bytes '' GMT''))"
      by (rule ext) (simp add: format_http_def u p w)
    ultimately show ?thesis using mail_puts [OF u(2) p puts_write [of "ascii_bytes '' GMT''"], of w] http u(1) p w
      by (simp add: write_format_def format_op_def write_http_date_def)
  next
    case date
    have op: "format_date dt = buf_and (buf_year y) (buf_and (buf_byte (ascii CHR ''-'')) (buf_and (buf_pad m 2)
         (buf_and (buf_byte (ascii CHR ''-'')) (buf_pad d 2))))" by (rule ext) (simp add: format_date_def p)
    show ?thesis
    proof (cases "short_year dt")
      case True
      then show ?thesis using puts_date [of y m d] short fit by (simp add: date write_format_def format_op_def write_date_def p op)
    next
      case False
      then have "buf_fails (buf_year y)" using fails_year [of y] short fit(8) by auto
      then show ?thesis using False fails_and(1) by (auto simp: date write_format_def format_op_def write_date_def p op)
    qed
  next
    case time
    have "buf_puts (format_time dt) (fmt_pad 2 h @ [ascii CHR '':''] @ fmt_pad 2 mi @ [ascii CHR '':''] @ fmt_pad 2 s @ write_fraction n)"
    proof -
      have "format_time dt = buf_and (buf_pad h 2) (buf_and (buf_byte (ascii CHR '':'')) (buf_and (buf_pad mi 2)
         (buf_and (buf_byte (ascii CHR '':'')) (buf_and (buf_pad s 2) (buf_fraction n)))))" by (rule ext) (simp add: format_time_def p)
      then show ?thesis by (simp only:) (intro puts_and puts_byte puts_two puts_fraction fit)
    qed
    then show ?thesis by (simp add: time write_format_def format_op_def write_time_def p write_clock_def)
  qed
qed

section \<open>Text\<close>

lemma fmt_pad_ascii: "b \<in> set (fmt_pad w v) \<Longrightarrow> is_ascii b"
  using show_nat_digits [of b "nat v"] by (auto simp: fmt_pad_def Let_def is_ascii_def is_ascii_digit_def word_less_nat_alt word_le_nat_alt)

lemma show_nat_ascii: "b \<in> set (show_nat n) \<Longrightarrow> is_ascii b"
  using show_nat_digits [of b n] by (auto simp: is_ascii_def is_ascii_digit_def word_less_nat_alt word_le_nat_alt)

lemma ascii_literals [simp]: "is_ascii 43" "is_ascii 44" "is_ascii 45" "is_ascii 46" "is_ascii 58" "is_ascii 32" "is_ascii 84" "is_ascii 90" "is_ascii 91" "is_ascii 93"
  by (simp_all add: is_ascii_def)

lemma month_short_ascii: "b \<in> set (month_short m) \<Longrightarrow> is_ascii b"
proof -
  have all: "list_all (\<lambda>name. list_all is_ascii (ascii_bytes name)) (''???'' # MONTHS)" by code_simp
  have "\<exists>name \<in> set (''???'' # MONTHS). month_short m = ascii_bytes name"
    by (auto simp: month_short_def slice_get_def split: option.splits if_splits)
  then show "b \<in> set (month_short m) \<Longrightarrow> is_ascii b" using all unfolding list_all_iff by metis
qed

lemma weekday_ascii: "b \<in> set (ascii_bytes (weekday_short_name w)) \<Longrightarrow> is_ascii b"
  by (cases w) (auto simp: is_ascii_def)

lemma text_ascii:
  "b \<in> set (write_year y) \<Longrightarrow> is_ascii b" "b \<in> set (write_month_day m d) \<Longrightarrow> is_ascii b" "b \<in> set (write_clock h mi s) \<Longrightarrow> is_ascii b"
  "b \<in> set (write_fraction n) \<Longrightarrow> is_ascii b" "b \<in> set (write_offset off) \<Longrightarrow> is_ascii b" "b \<in> set (write_offset_compact off) \<Longrightarrow> is_ascii b"
  by (auto simp: write_year_def write_month_day_def write_clock_def write_fraction_def write_offset_def write_offset_compact_def
      sign_byte_def Let_def dest: fmt_pad_ascii show_nat_ascii split: if_splits)

lemma text_utf8:
  "utf8_valid (write_year y)" "utf8_valid (write_month_day m d)" "utf8_valid (write_clock h mi s)" "utf8_valid (write_fraction n)"
  "utf8_valid (write_offset off)" "utf8_valid (write_offset_compact off)" "utf8_valid (fmt_pad w v)" "utf8_valid (month_short m)"
  "utf8_valid (ascii_bytes (weekday_short_name wd))"
  by (intro utf8_valid_ascii ballI; erule text_ascii fmt_pad_ascii month_short_ascii weekday_ascii)+

lemma utf8_append: "utf8_valid xs \<Longrightarrow> utf8_valid ys \<Longrightarrow> utf8_valid (xs @ ys)"
  by (simp add: utf8_valid_append)

lemma utf8_literals: "utf8_valid [ascii CHR ''Z'']" "utf8_valid [ascii CHR ''T'']" "utf8_valid [ascii CHR ''['']" "utf8_valid [ascii CHR '']'']"
  "utf8_valid [ascii CHR '' '']" "utf8_valid (ascii_bytes '', '')" "utf8_valid (ascii_bytes '' GMT'')"
  by (code_simp+)

lemma write_format_utf8:
  assumes "write_format db dt format = Some t" "\<And>name. dt_timezone_name dt = Some name \<Longrightarrow> utf8_valid name"
  shows "utf8_valid t"
proof -
  note intros = utf8_append text_utf8 utf8_literals
  have iso: "utf8_valid t" if "write_iso dt z zone = Some t" for z zone
  proof -
    obtain y m d h mi s n where p: "dt_parts dt = Some (y, m, d, h, mi, s, n)" using \<open>write_iso dt z zone = Some t\<close> by (auto simp: write_iso_def bind_eq_Some_conv)
    have t: "t = write_year y @ write_month_day m d @ [ascii CHR ''T''] @ write_clock h mi s @ write_fraction n @
         (if z \<and> dt_offset dt = 0 then [ascii CHR ''Z''] else write_offset (dt_offset dt)) @
         (if zone then case dt_timezone_name dt of Some name \<Rightarrow> [ascii CHR ''[''] @ name @ [ascii CHR '']''] | None \<Rightarrow> [] else [])"
      using that unfolding write_iso_def p bind.bind_lunit prod.case option.inject by (rule sym)
    have "utf8_valid (if z \<and> dt_offset dt = 0 then [ascii CHR ''Z''] else write_offset (dt_offset dt))"
      using utf8_literals(1) text_utf8 by (simp only: split: if_split) blast
    moreover have "utf8_valid (if zone then case dt_timezone_name dt of Some name \<Rightarrow> [ascii CHR ''[''] @ name @ [ascii CHR '']''] | None \<Rightarrow> [] else [])"
      by (cases zone; cases "dt_timezone_name dt") (simp_all only: if_True if_False option.case utf8_valid_nil utf8_append utf8_literals assms(2))
    ultimately show ?thesis unfolding t by (intro intros)
  qed
  have mail: "utf8_valid (ascii_bytes (weekday_short_name w) @ ascii_bytes '', '' @ fmt_pad 2 d @ [ascii CHR '' ''] @ month_short m @
      [ascii CHR '' ''] @ write_year y @ [ascii CHR '' ''] @ write_clock h mi s @ u)" if "utf8_valid u" for w y m d h mi s u
    by (intro intros that)
  show ?thesis
  proof (cases format)
    case Rfc2822
    then obtain p w where "dt_parts dt = Some p" "dt_weekday dt = Some w"
      using assms(1) by (cases "dt_parts dt"; cases "dt_weekday dt") (auto simp: write_format_def write_rfc2822_def)
    moreover obtain y m d h mi s n where "p = (y, m, d, h, mi, s, n)" by (cases p)
    ultimately have "t = ascii_bytes (weekday_short_name w) @ ascii_bytes '', '' @ fmt_pad 2 d @ [ascii CHR '' ''] @ month_short m @
      [ascii CHR '' ''] @ write_year y @ [ascii CHR '' ''] @ write_clock h mi s @ [ascii CHR '' ''] @ write_offset_compact (dt_offset dt)"
      using assms(1) Rfc2822 by (simp add: write_format_def write_rfc2822_def)
    then show ?thesis by (simp only:) (intro mail intros)
  next
    case HttpDate
    then obtain u where u: "dt_in_timezone db dt ZoneUtc = Some u"
      using assms(1) by (cases "dt_in_timezone db dt ZoneUtc") (auto simp: write_format_def write_http_date_def)
    then obtain p w where "dt_parts u = Some p" "dt_weekday u = Some w"
      using assms(1) HttpDate by (cases "dt_parts u"; cases "dt_weekday u") (auto simp: write_format_def write_http_date_def)
    moreover obtain y m d h mi s n where "p = (y, m, d, h, mi, s, n)" by (cases p)
    ultimately have "t = ascii_bytes (weekday_short_name w) @ ascii_bytes '', '' @ fmt_pad 2 d @ [ascii CHR '' ''] @ month_short m @
      [ascii CHR '' ''] @ write_year y @ [ascii CHR '' ''] @ write_clock h mi s @ ascii_bytes '' GMT''"
      using assms(1) HttpDate u by (simp add: write_format_def write_http_date_def)
    then show ?thesis by (simp only:) (intro mail intros)
  next
    case DateOnly
    then obtain y m d where "t = write_year y @ write_month_day m d"
      using assms(1) by (cases "dt_parts dt") (auto simp: write_format_def write_date_def)
    then show ?thesis by (simp only:) (intro intros)
  next
    case TimeOnly
    then obtain h mi s n where "t = write_clock h mi s @ write_fraction n"
      using assms(1) by (cases "dt_parts dt") (auto simp: write_format_def write_time_def)
    then show ?thesis by (simp only:) (intro intros)
  qed (use assms(1) iso in \<open>auto simp: write_format_def\<close>)
qed

lemma format_into_cases:
  assumes "dt_ok db dt" "write_format db dt format = Some t"
  shows "if (short_year dt \<or> format \<in> {HttpDate, TimeOnly}) \<and> length t \<le> length out
    then format_into db out dt format = Some (t @ drop (length t) out, Some (length t))
    else \<exists>out'. format_into db out dt format = Some (out', None)"
proof -
  let ?buf = "\<lparr>buf_bytes = out, buf_len = 0\<rparr>"
  have len: "buf_len ?buf \<le> length (buf_bytes ?buf)" by simp
  have cases: "if short_year dt \<or> format \<in> {HttpDate, TimeOnly} then buf_puts (format_op db dt format) t else buf_fails (format_op db dt format)"
    using format_cases [OF assms(1), of format] assms(2) by auto
  show ?thesis
  proof (cases "short_year dt \<or> format \<in> {HttpDate, TimeOnly}")
    case True
    then have "buf_puts (format_op db dt format) t" using cases by simp
    note p = this [unfolded buf_puts_def, rule_format, OF len]
    then show ?thesis using True by (auto simp: format_into_op buf_put_def)
  next
    case False
    then have "buf_fails (format_op db dt format)" using cases by simp
    then show ?thesis using False len by (auto simp: format_into_op buf_fails_def)
  qed
qed

lemma display_text:
  assumes "dt_ok db dt" "pred_option utf8_valid (dt_timezone_name dt)" "write_format db dt format = Some t"
  shows "formatted_fmt db dt format = Some (Ok t)"
proof -
  have "utf8_valid t" using assms(2) by (intro write_format_utf8 [OF assms(3)]) simp
  then have "from_utf8 t = Ok t" by (simp add: from_utf8_valid)
  then show ?thesis using format_into_cases [OF assms(1,3), of "replicate MAX_FORMATTED_LENGTH 0"] assms(3)
    by (auto simp: formatted_fmt_def split: if_splits)
qed

lemma write_datetime_text:
  assumes "dt_ok db dt" "pred_option utf8_valid (dt_timezone_name dt)"
  shows "\<exists>t. write_format db dt Rfc9557 = Some t \<and> write_datetime db dt = Some (Ok t)"
proof -
  obtain t where t: "write_format db dt Rfc9557 = Some t" using format_cases [OF assms(1)] by blast
  obtain y m d h mi s n where p: "dt_parts dt = Some (y, m, d, h, mi, s, n)" using dt_parts_eq [OF assms(1)] by blast
  have slow: "t = write_year y @ write_month_day m d @ [ascii CHR ''T''] @ write_clock h mi s @ write_fraction n @
      (if dt_offset dt = 0 then [ascii CHR ''Z''] else write_offset (dt_offset dt)) @
      (case dt_timezone_name dt of Some name \<Rightarrow> [ascii CHR ''[''] @ name @ [ascii CHR '']''] | None \<Rightarrow> [])"
    using t by (simp add: write_format_def write_iso_def p)
  obtain buffer k where f: "format_into db (replicate MAX_FORMATTED_LENGTH 0) dt Rfc9557 = Some (buffer, k)"
    using format_into_cases [OF assms(1) t, of "replicate MAX_FORMATTED_LENGTH 0"] by (auto split: if_splits)
  show ?thesis
  proof (cases k)
    case None
    then show ?thesis using t f unfolding write_datetime_def f bind.bind_lunit prod.case option.case p slow [symmetric] by simp
  next
    case (Some len)
    then show ?thesis using t f display_text [OF assms t] unfolding write_datetime_def formatted_fmt_def by simp
  qed
qed

lemma try_format_short:
  assumes "dt_ok db dt" "dt_try_format dt format = Some (Ok ())"
  shows "short_year dt \<or> format \<in> {HttpDate, TimeOnly}"
proof -
  obtain y m d h mi s n where p: "dt_parts dt = Some (y, m, d, h, mi, s, n)" using dt_parts_eq [OF assms(1)] by blast
  show ?thesis using assms(2) short_year_iff [OF assms(1) p] by (auto simp: dt_try_format_def dt_year_def p split: if_splits)
qed

section \<open>Years with five digits\<close>

text \<open>A value whose local year is 10000: no buffer is large enough for the fast path.\<close>

definition year_10000 :: date_time where
  "year_10000 = dt_from_raw MAX_SECS 0 3600 (ZoneFixed 3600)"

lemma year_10000_ok: "dt_ok db year_10000" "\<not> short_year year_10000"
  by (simp_all add: year_10000_def dt_from_raw_def dt_ok_def short_year_def secs_range NANOS_PER_SEC_def OFFSET_LIMIT_def)

lemma year_10000_never_fits:
  "write_to db out year_10000 Rfc3339 = Some (out', r) \<Longrightarrow> r = Err (err_buffer_too_small ''buffer is too small for the formatted value'')"
  "write_format db year_10000 Rfc3339 = Some (ascii_bytes ''+10000-01-01T00:59:59+01:00'')"
proof -
  have "dt_parts year_10000 = Some (10000, 1, 1, 0, 59, 59, 0)" by code_simp
  moreover have "dt_offset year_10000 = 3600" by (simp add: year_10000_def dt_from_raw_def)
  ultimately have "write_iso year_10000 True False = Some (ascii_bytes ''+10000-01-01T00:59:59+01:00'')"
    by (simp add: write_iso_def write_year_def write_month_day_def write_clock_def write_fraction_def write_offset_def sign_byte_def
        fmt_pad_def show_nat.simps digit_byte_def)
  then show t: "write_format db year_10000 Rfc3339 = Some (ascii_bytes ''+10000-01-01T00:59:59+01:00'')" by (simp add: write_format_def)
  show "write_to db out year_10000 Rfc3339 = Some (out', r) \<Longrightarrow> r = Err (err_buffer_too_small ''buffer is too small for the formatted value'')"
    using format_into_cases [OF year_10000_ok(1) t, of out] year_10000_ok(2) by (auto simp: write_to_def)
qed

section \<open>Properties\<close>

text \<open>
  C20: formatting. \<open>Display\<close> writes for every well-formed value exactly the text of the path through the formatter,
  whichever path it takes; the fast path writes that text into a buffer and returns its length when the buffer has
  room for it, changes nothing behind it, and otherwise reports that the buffer is too small. It does so
  for all values whose local year has four digits; for a longer year it reports a small buffer whatever
  its size (except for times of day and HTTP dates), although the comments of the source say that it writes
  as the formatter does and fails for a short buffer only. A value that \<open>try_format\<close> accepts is written by \<open>format_to\<close>.
\<close>

theorem format_correct:
  assumes "dt_ok db dt" "pred_option utf8_valid (dt_timezone_name dt)"
  shows "\<exists>t. write_format db dt format = Some t \<and> formatted_fmt db dt format = Some (Ok t) \<and>
    (if (short_year dt \<or> format \<in> {HttpDate, TimeOnly}) \<and> length t \<le> length out
     then format_into db out dt format = Some (t @ drop (length t) out, Some (length t))
     else \<exists>out'. format_into db out dt format = Some (out', None)) \<and>
    (if dt_try_format dt format = Some (Ok ()) \<and> length t \<le> length out
     then dt_format_to db out dt format = Some (t @ drop (length t) out, Ok (length t)) else True) \<and>
    (\<exists>u. write_format db dt Rfc9557 = Some u \<and> write_datetime db dt = Some (Ok u))"
proof -
  obtain t where t: "write_format db dt format = Some t" using format_cases [OF assms(1)] by blast
  note into = format_into_cases [OF assms(1) t, of out]
  have "dt_format_to db out dt format = Some (t @ drop (length t) out, Ok (length t))"
    if "dt_try_format dt format = Some (Ok ())" "length t \<le> length out"
    using into that try_format_short [OF assms(1) that(1)] by (simp add: dt_format_to_def write_to_def)
  then show ?thesis using t into display_text [OF assms t] write_datetime_text [OF assms] by (intro exI [of _ t]) simp
qed

theorem format_correct_witness:
  "dt_ok sample_db UNIX_EPOCH \<and>
   formatted_fmt sample_db UNIX_EPOCH Rfc2822 = Some (Ok (ascii_bytes ''Thu, 01 Jan 1970 00:00:00 +0000''))"
proof -
  have "write_format sample_db UNIX_EPOCH Rfc2822 = Some (ascii_bytes ''Thu, 01 Jan 1970 00:00:00 +0000'')"
    unfolding write_format_def by code_simp
  moreover have "pred_option utf8_valid (dt_timezone_name UNIX_EPOCH)" by (simp add: dt_timezone_name_def UNIX_EPOCH_def)
  ultimately show ?thesis using format_correct [OF epoch_ok [of sample_db], of Rfc2822] epoch_ok [of sample_db] by auto
qed

end
