(* ===== verification/Date_Parse.thy ===== *)
theory Date_Parse
  imports Date_Format
begin

text \<open>
  Parsing of dates and times (\<open>src/time/parse.rs\<close>): RFC 3339 and RFC 9557, a date or a time alone, RFC 2822, and the
  three formats of HTTP. The parser with its position is the rest of the input; a function that advances it
  returns the rest. An outer \<open>None\<close> is a panic, which only the assembly of the value can have.
\<close>

section \<open>The parser\<close>

definition result_bind :: "('e, 'a) result \<Rightarrow> ('a \<Rightarrow> ('e, 'b) result) \<Rightarrow> ('e, 'b) result" where
  "result_bind r f = (case r of Err e \<Rightarrow> Err e | Ok x \<Rightarrow> f x)"

lemma result_bind_simps [simp]: "result_bind (Err e) f = Err e" "result_bind (Ok x) f = f x"
  by (simp_all add: result_bind_def)

definition p_peek :: "byte list \<Rightarrow> byte option" where
  "p_peek s = (case s of [] \<Rightarrow> None | b # _ \<Rightarrow> Some b)"

definition p_bump :: "byte list \<Rightarrow> byte option \<times> byte list" where
  "p_bump s = (case p_peek s of None \<Rightarrow> (None, s) | Some b \<Rightarrow> (Some b, tl s))"

definition p_eat :: "byte \<Rightarrow> byte list \<Rightarrow> bool \<times> byte list" where
  "p_eat b s = (if p_peek s = Some b then (True, tl s) else (False, s))"

definition p_expect :: "byte \<Rightarrow> byte list \<Rightarrow> (time_error, byte list) result" where
  "p_expect b s = (case p_eat b s of (True, s) \<Rightarrow> Ok s | (False, s) \<Rightarrow> Err (err_parse ''unexpected character''))"

fun fixed_loop :: "nat \<Rightarrow> int \<Rightarrow> byte list \<Rightarrow> (time_error, int \<times> byte list) result" where
  "fixed_loop 0 val s = Ok (val, s)"
| "fixed_loop (Suc count) val s =
     (case p_bump s of
        (Some b, s) \<Rightarrow> if is_ascii_digit b then fixed_loop count (val * 10 + int (digit_val b)) s
                    else Err (err_parse ''expected a digit'')
      | (None, s) \<Rightarrow> Err (err_parse ''expected a digit''))"

definition p_fixed :: "nat \<Rightarrow> byte list \<Rightarrow> (time_error, int \<times> byte list) result" where
  "p_fixed count s = fixed_loop count 0 s"

fun number_loop :: "int \<Rightarrow> byte list \<Rightarrow> (time_error, int) result" where
  "number_loop val [] = Ok val"
| "number_loop val (b # bs) =
     (if \<not> is_ascii_digit b then Err (err_parse ''expected a digit'')
      else case Option.bind (checked_signed 64 (val * 10)) (\<lambda>v. checked_signed 64 (v + int (digit_val b))) of
             None \<Rightarrow> Err (err_parse ''number is too large'')
           | Some v \<Rightarrow> number_loop v bs)"

definition p_number :: "byte list \<Rightarrow> (time_error, int) result" where
  "p_number digits = number_loop 0 digits"

definition p_done :: "byte list \<Rightarrow> bool" where
  "p_done s \<longleftrightarrow> s = []"

definition peek_is :: "(byte \<Rightarrow> bool) \<Rightarrow> byte list \<Rightarrow> bool" where
  "peek_is p s = (case p_peek s of Some b \<Rightarrow> p b | None \<Rightarrow> False)"

section \<open>Date, clock, offset and zone\<close>

definition parse_year_month_day :: "byte list \<Rightarrow> (time_error, (int \<times> int \<times> int) \<times> byte list) result" where
  "parse_year_month_day s =
     (let (negative_year, s) = p_eat (ascii CHR ''-'') s;
          (_, s) = p_eat (ascii CHR ''+'') s;
          digits = takeWhile is_ascii_digit s;
          s = dropWhile is_ascii_digit s
      in if length digits < 4 then Err (err_parse ''expected a four digit year'')
         else
           result_bind (p_number digits) (\<lambda>year.
           let year = (if negative_year then - year else year)
           in if year < MIN_YEAR \<or> year > MAX_YEAR then Err (err_out_of_range ''year is outside the supported range'')
              else
                result_bind (p_expect (ascii CHR ''-'') s) (\<lambda>s.
                result_bind (p_fixed 2 s) (\<lambda>(month, s).
                result_bind (p_expect (ascii CHR ''-'') s) (\<lambda>s.
                result_bind (p_fixed 2 s) (\<lambda>(day, s).
                Ok ((as_signed 32 year, as_unsigned 8 month, as_unsigned 8 day), s)))))))"

text \<open>Digits beyond the ninth are read and dropped.\<close>

fun fraction_loop :: "nat \<Rightarrow> int \<Rightarrow> int \<Rightarrow> byte list \<Rightarrow> int \<times> byte list" where
  "fraction_loop significant scale nanos [] = (nanos, [])"
| "fraction_loop significant scale nanos (b # s) =
     (if is_ascii_digit b
      then if significant < 9 then fraction_loop (significant + 1) (scale div 10) (nanos + int (digit_val b) * scale) s
           else fraction_loop significant scale nanos s
      else (nanos, b # s))"

definition parse_fraction :: "byte list \<Rightarrow> (time_error, int \<times> byte list) result" where
  "parse_fraction s =
     (if peek_is (\<lambda>b. b = ascii CHR ''.'' \<or> b = ascii CHR '','') s
      then
        let start = tl s; (nanos, s) = fraction_loop 0 100000000 0 start
        in if s = start then Err (err_parse ''expected fractional digits'') else Ok (nanos, s)
      else Ok (0, s))"

definition parse_clock :: "byte list \<Rightarrow> (time_error, (int \<times> int \<times> int \<times> int) \<times> byte list) result" where
  "parse_clock s =
     result_bind (p_fixed 2 s) (\<lambda>(hour, s).
     result_bind (p_expect (ascii CHR '':'') s) (\<lambda>s.
     result_bind (p_fixed 2 s) (\<lambda>(minute, s).
     result_bind (case p_eat (ascii CHR '':'') s of
         (True, s) \<Rightarrow> p_fixed 2 s
       | (False, s) \<Rightarrow> Ok (0, s)) (\<lambda>(second, s).
     result_bind (parse_fraction s) (\<lambda>(nanos, s).
     Ok ((as_unsigned 8 hour, as_unsigned 8 minute, as_unsigned 8 second, nanos), s))))))"

text \<open>The minutes and seconds of an offset, with or without colons.\<close>

definition parse_offset_rest :: "byte list \<Rightarrow> (time_error, (int \<times> int) \<times> byte list) result" where
  "parse_offset_rest s =
     (case p_eat (ascii CHR '':'') s of
        (True, s) \<Rightarrow>
          result_bind (p_fixed 2 s) (\<lambda>(minutes, s).
          case p_eat (ascii CHR '':'') s of
            (True, s) \<Rightarrow> result_bind (p_fixed 2 s) (\<lambda>(seconds, s). Ok ((minutes, seconds), s))
          | (False, s) \<Rightarrow> Ok ((minutes, 0), s))
      | (False, s) \<Rightarrow>
          if peek_is is_ascii_digit s
          then
            result_bind (p_fixed 2 s) (\<lambda>(minutes, s).
            if peek_is is_ascii_digit s
            then result_bind (p_fixed 2 s) (\<lambda>(seconds, s). Ok ((minutes, seconds), s))
            else Ok ((minutes, 0), s))
          else Ok ((0, 0), s))"

definition parse_offset :: "byte list \<Rightarrow> (time_error, int option \<times> byte list) result" where
  "parse_offset s =
     (if peek_is (\<lambda>b. b = ascii CHR ''Z'' \<or> b = ascii CHR ''z'') s then Ok (Some 0, tl s)
      else if peek_is (\<lambda>b. b = ascii CHR ''+'' \<or> b = ascii CHR ''-'') s
      then
        let negative = (p_peek s = Some (ascii CHR ''-''))
        in
          result_bind (p_fixed 2 (tl s)) (\<lambda>(hours, s).
          result_bind (parse_offset_rest s) (\<lambda>((minutes, seconds), s).
          let magnitude = hours * 3600 + minutes * 60 + seconds
          in if hours > 23 \<or> minutes > 59 \<or> seconds > 59 then Err (err_parse ''offset is out of range'')
             else
               let offset = (if negative then - magnitude else magnitude)
               in result_bind (tz_fixed offset) (\<lambda>_. Ok (Some offset, s))))
      else Ok (None, s))"

definition parse_zone_annotation :: "tz_database \<Rightarrow> byte list \<Rightarrow> (time_error, time_zone option \<times> byte list) result" where
  "parse_zone_annotation db s =
     (if p_peek s \<noteq> Some (ascii CHR ''['') then Ok (None, s)
      else
        let s = tl s;
            name = takeWhile (\<lambda>b. b \<noteq> ascii CHR '']'') s;
            s = dropWhile (\<lambda>b. b \<noteq> ascii CHR '']'') s
        in case p_eat (ascii CHR '']'') s of
             (False, s) \<Rightarrow> Err (err_parse ''unterminated time zone annotation'')
           | (True, s) \<Rightarrow>
               (case from_utf8 name of
                  Err _ \<Rightarrow> Err (err_parse ''invalid time zone name'')
                | Ok name \<Rightarrow> result_bind (tz_named db name) (\<lambda>zone. Ok (Some zone, s))))"

definition assemble ::
  "tz_database \<Rightarrow> int \<Rightarrow> int \<Rightarrow> int \<Rightarrow> int \<Rightarrow> int \<Rightarrow> int \<Rightarrow> int \<Rightarrow> time_zone option \<Rightarrow> int option \<Rightarrow> time_zone option \<Rightarrow> (time_error, date_time) result option"
where
  "assemble db year month day hour minute second nanos zone offset default_zone =
     (if \<not> (1 \<le> month \<and> month \<le> 12) then Some (Err (err_invalid ''month is not in 1..=12''))
      else if day < 1 \<or> day > days_in_month year month then Some (Err (err_invalid ''day is not valid for the given month''))
      else if hour > 23 then Some (Err (err_invalid ''hour is not in 0..=23''))
      else if minute > 59 then Some (Err (err_invalid ''minute is not in 0..=59''))
      else
        let second = (if second = 60 then 59 else second)
        in if second > 59 then Some (Err (err_invalid ''second is not in 0..=60''))
           else if nanos \<ge> NANOS_PER_SEC then Some (Err (err_invalid ''fractional seconds are out of range''))
           else
             let local_secs = days_from_civil year month day * SECS_PER_DAY + hour * 3600 + minute * 60 + second
             in
               try_bind
                 (case (zone, offset) of
                    (Some zone, Some offset) \<Rightarrow> do {
                      instant \<leftarrow> checked_signed 64 (local_secs - offset);
                      off \<leftarrow> offset_at db zone instant;
                      Some (if off \<noteq> offset then Err (err_offset_conflict ''offset does not match the time zone'')
                            else Ok (zone, instant))
                    }
                  | (Some zone, None) \<Rightarrow> map_option (\<lambda>instant. Ok (zone, instant)) (resolve_compatible db zone local_secs)
                  | (None, Some offset) \<Rightarrow>
                      try_bind (Some (if offset = 0 then Ok ZoneUtc else tz_fixed offset)) (\<lambda>zone.
                      map_option (\<lambda>instant. Ok (zone, instant)) (checked_signed 64 (local_secs - offset)))
                  | (None, None) \<Rightarrow>
                      let zone = (case default_zone of Some zone \<Rightarrow> zone | None \<Rightarrow> ZoneUtc)
                      in map_option (\<lambda>instant. Ok (zone, instant)) (resolve_compatible db zone local_secs))
                 (\<lambda>(zone, instant). dt_from_raw_checked db instant nanos zone))"

section \<open>RFC 3339 and RFC 9557\<close>

definition parse :: "tz_database \<Rightarrow> byte list \<Rightarrow> time_zone option \<Rightarrow> (time_error, date_time) result option" where
  "parse db input default_zone =
     try_bind (Some (parse_year_month_day input)) (\<lambda>((year, month, day), s).
     if p_done s then assemble db year month day 0 0 0 0 None None default_zone
     else if \<not> peek_is (\<lambda>b. b = ascii CHR ''T'' \<or> b = ascii CHR ''t'' \<or> b = ascii CHR '' '') s
     then Some (Err (err_parse ''expected a date/time separator''))
     else
       try_bind (Some (parse_clock (tl s))) (\<lambda>((hour, minute, second, nanos), s).
       try_bind (Some (parse_offset s)) (\<lambda>(offset, s).
       try_bind (Some (parse_zone_annotation db s)) (\<lambda>(zone, s).
       if \<not> p_done s then Some (Err (err_parse ''trailing characters''))
       else assemble db year month day hour minute second nanos zone offset default_zone))))"

definition digits_at :: "byte list \<Rightarrow> nat \<Rightarrow> nat \<Rightarrow> bool" where
  "digits_at bytes start end \<longleftrightarrow>
     list_all (\<lambda>index. case slice_get bytes index of Some b \<Rightarrow> is_ascii_digit b | None \<Rightarrow> False) [start..<end]"

definition shape_tail :: "byte list \<Rightarrow> nat \<Rightarrow> bool" where
  "shape_tail bytes index =
     (case slice_get bytes index of
        None \<Rightarrow> False
      | Some b \<Rightarrow>
          if b = ascii CHR ''Z'' \<or> b = ascii CHR ''z'' then index + 1 = length bytes
          else if b = ascii CHR ''+'' \<or> b = ascii CHR ''-'' then
            index + 6 = length bytes \<and> digits_at bytes (index + 1) (index + 3) \<and> bytes ! (index + 3) = ascii CHR '':'' \<and>
            digits_at bytes (index + 4) (index + 6)
          else False)"

definition rfc3339_shape :: "byte list \<Rightarrow> bool" where
  "rfc3339_shape bytes =
     (if length bytes < 20 \<or> \<not> digits_at bytes 0 4 \<or> bytes ! 4 \<noteq> ascii CHR ''-'' \<or> \<not> digits_at bytes 5 7 \<or>
         bytes ! 7 \<noteq> ascii CHR ''-'' \<or> \<not> digits_at bytes 8 10 \<or>
         \<not> (bytes ! 10 = ascii CHR ''T'' \<or> bytes ! 10 = ascii CHR ''t'') \<or> \<not> digits_at bytes 11 13 \<or>
         bytes ! 13 \<noteq> ascii CHR '':'' \<or> \<not> digits_at bytes 14 16 \<or> bytes ! 16 \<noteq> ascii CHR '':'' \<or> \<not> digits_at bytes 17 19
      then False
      else if bytes ! 19 = ascii CHR ''.'' then
        let index = 20 + length (takeWhile is_ascii_digit (drop 20 bytes))
        in if index = 20 then False else shape_tail bytes index
      else shape_tail bytes 19)"

definition parse_rfc3339_strict :: "tz_database \<Rightarrow> byte list \<Rightarrow> (time_error, date_time) result option" where
  "parse_rfc3339_strict db input =
     (if \<not> rfc3339_shape input then Some (Err (err_parse ''input is not an RFC 3339 date-time'')) else parse db input None)"

text \<open>\<open>rfind\<close> of a byte: what stands before its last occurrence.\<close>

definition before_last :: "byte \<Rightarrow> byte list \<Rightarrow> byte list option" where
  "before_last c s =
     (case dropWhile (\<lambda>b. b \<noteq> c) (rev s) of [] \<Rightarrow> None | _ # before \<Rightarrow> Some (rev before))"

definition parse_rfc9557_strict :: "tz_database \<Rightarrow> byte list \<Rightarrow> (time_error, date_time) result option" where
  "parse_rfc9557_strict db input =
     try_bind
       (Some (case before_last (ascii CHR ''['') input of
          Some before \<Rightarrow>
            if input \<noteq> [] \<and> last input = ascii CHR '']'' then Ok before
            else Err (err_parse ''malformed RFC 9557 time zone annotation'')
        | None \<Rightarrow> Ok input))
       (\<lambda>datetime.
         if \<not> rfc3339_shape datetime then Some (Err (err_parse ''input is not an RFC 9557 date-time'')) else parse db input None)"

definition parse_date_only :: "tz_database \<Rightarrow> byte list \<Rightarrow> (time_error, date_time) result option" where
  "parse_date_only db input =
     try_bind (Some (parse_year_month_day input)) (\<lambda>((year, month, day), s).
     if \<not> p_done s then Some (Err (err_parse ''trailing characters''))
     else assemble db year month day 0 0 0 0 None None None)"

definition parse_time_only :: "tz_database \<Rightarrow> byte list \<Rightarrow> (time_error, date_time) result option" where
  "parse_time_only db input =
     try_bind (Some (parse_clock input)) (\<lambda>((hour, minute, second, nanos), s).
     if \<not> p_done s then Some (Err (err_parse ''trailing characters''))
     else assemble db 1970 1 1 hour minute second nanos None None None)"

section \<open>Digits and names\<close>

definition one_digit :: "byte \<Rightarrow> (time_error, int) result" where
  "one_digit b = (let val = b - ascii CHR ''0'' in if val < 10 then Ok (uint val) else Err (err_parse ''expected a digit''))"

definition two_digits :: "byte list \<Rightarrow> (time_error, int) result" where
  "two_digits bytes =
     (if length bytes \<noteq> 2 then Err (err_parse ''expected two digits'')
      else result_bind (one_digit (bytes ! 0)) (\<lambda>a. result_bind (one_digit (bytes ! 1)) (\<lambda>b. Ok (a * 10 + b))))"

fun four_digits_loop :: "int \<Rightarrow> byte list \<Rightarrow> (time_error, int) result" where
  "four_digits_loop val [] = Ok val"
| "four_digits_loop val (b # bs) = result_bind (one_digit b) (\<lambda>d. four_digits_loop (val * 10 + d) bs)"

definition four_digits :: "byte list \<Rightarrow> (time_error, int) result" where
  "four_digits bytes = (if length bytes \<noteq> 4 then Err (err_parse ''expected four digits'') else four_digits_loop 0 bytes)"

fun decimal_loop :: "int \<Rightarrow> byte list \<Rightarrow> (time_error, int) result" where
  "decimal_loop val [] = Ok val"
| "decimal_loop val (b # bs) =
     (let digit = b - ascii CHR ''0''
      in if digit \<ge> 10 then Err (err_parse ''expected a decimal number'') else decimal_loop (val * 10 + uint digit) bs)"

definition parse_decimal :: "byte list \<Rightarrow> nat \<Rightarrow> nat \<Rightarrow> (time_error, int) result" where
  "parse_decimal token lo hi =
     (if length token < lo \<or> length token > hi then Err (err_parse ''expected a decimal number'') else decimal_loop 0 token)"

definition two_digit_year :: "int \<Rightarrow> int" where
  "two_digit_year year = (if year < 50 then 2000 + year else 1900 + year)"

definition month_from_abbrev :: "byte list \<Rightarrow> (time_error, int) result" where
  "month_from_abbrev name =
     (if name = ascii_bytes ''Jan'' then Ok 1
      else if name = ascii_bytes ''Feb'' then Ok 2
      else if name = ascii_bytes ''Mar'' then Ok 3
      else if name = ascii_bytes ''Apr'' then Ok 4
      else if name = ascii_bytes ''May'' then Ok 5
      else if name = ascii_bytes ''Jun'' then Ok 6
      else if name = ascii_bytes ''Jul'' then Ok 7
      else if name = ascii_bytes ''Aug'' then Ok 8
      else if name = ascii_bytes ''Sep'' then Ok 9
      else if name = ascii_bytes ''Oct'' then Ok 10
      else if name = ascii_bytes ''Nov'' then Ok 11
      else if name = ascii_bytes ''Dec'' then Ok 12
      else Err (err_parse ''invalid month name''))"

definition validate_weekday_short :: "byte list \<Rightarrow> (time_error, unit) result" where
  "validate_weekday_short name =
     (if name \<in> set (map ascii_bytes [''Mon'', ''Tue'', ''Wed'', ''Thu'', ''Fri'', ''Sat'', ''Sun'']) then Ok ()
      else Err (err_parse ''invalid weekday name''))"

definition validate_weekday_long :: "byte list \<Rightarrow> (time_error, unit) result" where
  "validate_weekday_long name =
     (if name \<in> set (map ascii_bytes [''Mon'', ''Monday'', ''Tue'', ''Tuesday'', ''Wed'', ''Wednesday'', ''Thu'', ''Thursday'',
         ''Fri'', ''Friday'', ''Sat'', ''Saturday'', ''Sun'', ''Sunday'']) then Ok ()
      else Err (err_parse ''invalid weekday name''))"

fun strip_names :: "byte list list \<Rightarrow> byte list \<Rightarrow> (time_error, byte list) result" where
  "strip_names [] s = Err (err_parse ''invalid weekday name'')"
| "strip_names (name # names) s =
     (if take (length name) s = name then Ok (drop (length name) s) else strip_names names s)"

definition strip_weekday_long :: "byte list \<Rightarrow> (time_error, byte list) result" where
  "strip_weekday_long s =
     strip_names (map ascii_bytes [''Monday, '', ''Tuesday, '', ''Wednesday, '', ''Thursday, '', ''Friday, '', ''Saturday, '', ''Sunday, '']) s"

definition ascii_str :: "byte list \<Rightarrow> (time_error, byte list) result" where
  "ascii_str bytes = (case from_utf8 bytes of Ok s \<Rightarrow> Ok s | Err _ \<Rightarrow> Err (err_parse ''expected ASCII''))"

section \<open>RFC 2822\<close>

definition is_ascii_whitespace :: "byte \<Rightarrow> bool" where
  "is_ascii_whitespace b \<longleftrightarrow> b \<in> {0x20, 0x09, 0x0A, 0x0C, 0x0D}"

definition split_ascii_whitespace :: "byte list \<Rightarrow> byte list list" where
  "split_ascii_whitespace s = filter (\<lambda>t. t \<noteq> []) (split_on is_ascii_whitespace s)"

text \<open>\<open>tokens.next().ok_or_else(..)\<close>: the first of the remaining parts.\<close>

definition next_token :: "string \<Rightarrow> byte list list \<Rightarrow> (time_error, byte list \<times> byte list list) result" where
  "next_token message tokens = (case tokens of [] \<Rightarrow> Err (err_parse message) | t # ts \<Rightarrow> Ok (t, ts))"

definition parse_rfc2822_year :: "byte list \<Rightarrow> (time_error, int) result" where
  "parse_rfc2822_year token =
     result_bind (parse_decimal token 2 4) (\<lambda>val. Ok (if length token = 2 then two_digit_year val else val))"

definition parse_rfc2822_zone :: "byte list \<Rightarrow> (time_error, int) result" where
  "parse_rfc2822_zone token =
     (if eq_ignore_ascii_case token (ascii_bytes ''gmt'') \<or> eq_ignore_ascii_case token (ascii_bytes ''ut'') \<or>
         eq_ignore_ascii_case token (ascii_bytes ''utc'') \<or> eq_ignore_ascii_case token (ascii_bytes ''z'')
      then Ok 0
      else if length token \<noteq> 5 \<or> \<not> (token ! 0 = ascii CHR ''+'' \<or> token ! 0 = ascii CHR ''-'')
      then Err (err_parse ''invalid RFC 2822 time zone'')
      else
        result_bind (two_digits (take 2 (drop 1 token))) (\<lambda>hours.
        result_bind (two_digits (take 2 (drop 3 token))) (\<lambda>minutes.
        if hours > 23 \<or> minutes > 59 then Err (err_parse ''RFC 2822 time zone is out of range'')
        else
          let magnitude = hours * 3600 + minutes * 60
          in Ok (if token ! 0 = ascii CHR ''-'' then - magnitude else magnitude))))"

definition parse_hms :: "byte list \<Rightarrow> (time_error, int \<times> int \<times> int) result" where
  "parse_hms token =
     result_bind (next_token ''missing hour'' (split_on (\<lambda>b. b = ascii CHR '':'') token)) (\<lambda>(hour, parts).
     result_bind (parse_decimal hour 1 2) (\<lambda>hour.
     result_bind (next_token ''missing minute'' parts) (\<lambda>(minute, parts).
     result_bind (parse_decimal minute 2 2) (\<lambda>minute.
     result_bind (case parts of part # parts \<Rightarrow> result_bind (parse_decimal part 2 2) (\<lambda>second. Ok (second, parts)) | [] \<Rightarrow> Ok (0, [])) (\<lambda>(second, parts).
     if parts \<noteq> [] then Err (err_parse ''invalid time'')
     else Ok (as_unsigned 8 hour, as_unsigned 8 minute, as_unsigned 8 second))))))"

text \<open>The fields of an RFC 2822 date: date, time of day and offset.\<close>

definition rfc2822_fields :: "byte list \<Rightarrow> (time_error, int \<times> int \<times> int \<times> int \<times> int \<times> int \<times> int) result" where
  "rfc2822_fields input =
     result_bind (next_token ''empty RFC 2822 date'' (split_ascii_whitespace input)) (\<lambda>(first, tokens).
     result_bind
       (if first \<noteq> [] \<and> last first = ascii CHR '','' then
          result_bind (validate_weekday_long (butlast first)) (\<lambda>_. next_token ''missing day'' tokens)
        else Ok (first, tokens)) (\<lambda>(day_token, tokens).
     result_bind (parse_decimal day_token 1 2) (\<lambda>day.
     result_bind (next_token ''missing month'' tokens) (\<lambda>(month, tokens).
     result_bind (month_from_abbrev month) (\<lambda>month.
     result_bind (next_token ''missing year'' tokens) (\<lambda>(year, tokens).
     result_bind (parse_rfc2822_year year) (\<lambda>year.
     result_bind (next_token ''missing time'' tokens) (\<lambda>(time, tokens).
     result_bind (parse_hms time) (\<lambda>(hour, minute, second).
     result_bind (case tokens of [] \<Rightarrow> Ok (0, []) | zone # tokens \<Rightarrow> result_bind (parse_rfc2822_zone zone) (\<lambda>offset. Ok (offset, tokens))) (\<lambda>(offset, tokens).
     if tokens \<noteq> [] then Err (err_parse ''trailing characters'')
     else Ok (year, month, as_unsigned 8 day, hour, minute, second, offset)))))))))))"

definition parse_rfc2822 :: "tz_database \<Rightarrow> byte list \<Rightarrow> (time_error, date_time) result option" where
  "parse_rfc2822 db input =
     try_bind (Some (rfc2822_fields input)) (\<lambda>(year, month, day, hour, minute, second, offset).
     assemble db year month day hour minute second 0 None (Some offset) None)"

section \<open>HTTP dates\<close>

text \<open>\<open>str::trim\<close>: the white space of Unicode, in UTF-8.\<close>

definition WHITE_SPACE :: "byte list list" where
  "WHITE_SPACE =
     map (\<lambda>b. [b]) [0x09, 0x0A, 0x0B, 0x0C, 0x0D, 0x20] @ [[0xC2, 0x85], [0xC2, 0xA0], [0xE1, 0x9A, 0x80]] @
     map (\<lambda>b. [0xE2, 0x80, b]) [0x80, 0x81, 0x82, 0x83, 0x84, 0x85, 0x86, 0x87, 0x88, 0x89, 0x8A, 0xA8, 0xA9, 0xAF] @
     [[0xE2, 0x81, 0x9F], [0xE3, 0x80, 0x80]]"

function trim_prefix :: "byte list list \<Rightarrow> byte list \<Rightarrow> byte list" where
  "trim_prefix ws s =
     (case find (\<lambda>w. w \<noteq> [] \<and> take (length w) s = w) ws of None \<Rightarrow> s | Some w \<Rightarrow> trim_prefix ws (drop (length w) s))"
  by auto
termination
proof (relation "measure (\<lambda>(ws, s). length s)")
  fix ws s w
  assume "find (\<lambda>w. w \<noteq> [] \<and> take (length w) s = w) ws = Some (w :: byte list)"
  then have "w \<noteq> []" "take (length w) s = w" by (auto simp: find_Some_iff)
  then show "((ws, drop (length w) s), ws, s) \<in> measure (\<lambda>(ws, s). length s)" by (cases s) auto
qed simp

declare trim_prefix.simps [simp del]

definition str_trim :: "byte list \<Rightarrow> byte list" where
  "str_trim s = rev (trim_prefix (map rev WHITE_SPACE) (rev (trim_prefix WHITE_SPACE s)))"

definition byte_range :: "byte list \<Rightarrow> nat \<Rightarrow> nat \<Rightarrow> byte list" where
  "byte_range b start end = take (end - start) (drop start b)"

definition imf_fixdate_fields :: "byte list \<Rightarrow> (time_error, int \<times> int \<times> int \<times> int \<times> int \<times> int) result" where
  "imf_fixdate_fields b =
     (if length b \<noteq> 29 \<or> b ! 3 \<noteq> ascii CHR '','' \<or> b ! 4 \<noteq> ascii CHR '' '' \<or> b ! 7 \<noteq> ascii CHR '' '' \<or> b ! 11 \<noteq> ascii CHR '' '' \<or>
         b ! 16 \<noteq> ascii CHR '' '' \<or> b ! 19 \<noteq> ascii CHR '':'' \<or> b ! 22 \<noteq> ascii CHR '':'' \<or> byte_range b 25 29 \<noteq> ascii_bytes '' GMT''
      then Err (err_parse ''invalid IMF-fixdate'')
      else
        result_bind (ascii_str (byte_range b 0 3)) (\<lambda>weekday.
        result_bind (validate_weekday_short weekday) (\<lambda>_.
        result_bind (two_digits (byte_range b 5 7)) (\<lambda>day.
        result_bind (ascii_str (byte_range b 8 11)) (\<lambda>name.
        result_bind (month_from_abbrev name) (\<lambda>month.
        result_bind (four_digits (byte_range b 12 16)) (\<lambda>year.
        result_bind (two_digits (byte_range b 17 19)) (\<lambda>hour.
        result_bind (two_digits (byte_range b 20 22)) (\<lambda>minute.
        result_bind (two_digits (byte_range b 23 25)) (\<lambda>second.
        Ok (year, month, day, hour, minute, second)))))))))))"

definition rfc850_fields :: "byte list \<Rightarrow> (time_error, int \<times> int \<times> int \<times> int \<times> int \<times> int) result" where
  "rfc850_fields s =
     result_bind (strip_weekday_long s) (\<lambda>b.
     if length b \<noteq> 22 \<or> b ! 2 \<noteq> ascii CHR ''-'' \<or> b ! 6 \<noteq> ascii CHR ''-'' \<or> b ! 9 \<noteq> ascii CHR '' '' \<or> b ! 12 \<noteq> ascii CHR '':'' \<or>
        b ! 15 \<noteq> ascii CHR '':'' \<or> byte_range b 18 22 \<noteq> ascii_bytes '' GMT''
     then Err (err_parse ''invalid RFC 850 date'')
     else
       result_bind (two_digits (byte_range b 0 2)) (\<lambda>day.
       result_bind (ascii_str (byte_range b 3 6)) (\<lambda>name.
       result_bind (month_from_abbrev name) (\<lambda>month.
       result_bind (two_digits (byte_range b 7 9)) (\<lambda>year.
       result_bind (two_digits (byte_range b 10 12)) (\<lambda>hour.
       result_bind (two_digits (byte_range b 13 15)) (\<lambda>minute.
       result_bind (two_digits (byte_range b 16 18)) (\<lambda>second.
       Ok (two_digit_year year, month, day, hour, minute, second)))))))))"

definition asctime_fields :: "byte list \<Rightarrow> (time_error, int \<times> int \<times> int \<times> int \<times> int \<times> int) result" where
  "asctime_fields b =
     (if length b \<noteq> 24 \<or> b ! 3 \<noteq> ascii CHR '' '' \<or> b ! 7 \<noteq> ascii CHR '' '' \<or> b ! 10 \<noteq> ascii CHR '' '' \<or> b ! 13 \<noteq> ascii CHR '':'' \<or>
         b ! 16 \<noteq> ascii CHR '':'' \<or> b ! 19 \<noteq> ascii CHR '' ''
      then Err (err_parse ''invalid asctime date'')
      else
        result_bind (ascii_str (byte_range b 0 3)) (\<lambda>weekday.
        result_bind (validate_weekday_short weekday) (\<lambda>_.
        result_bind (ascii_str (byte_range b 4 7)) (\<lambda>name.
        result_bind (month_from_abbrev name) (\<lambda>month.
        result_bind (if b ! 8 = ascii CHR '' '' then one_digit (b ! 9) else two_digits (byte_range b 8 10)) (\<lambda>day.
        result_bind (two_digits (byte_range b 11 13)) (\<lambda>hour.
        result_bind (two_digits (byte_range b 14 16)) (\<lambda>minute.
        result_bind (two_digits (byte_range b 17 19)) (\<lambda>second.
        result_bind (four_digits (byte_range b 20 24)) (\<lambda>year.
        Ok (year, month, day, hour, minute, second)))))))))))"

definition assemble_utc :: "tz_database \<Rightarrow> (time_error, int \<times> int \<times> int \<times> int \<times> int \<times> int) result \<Rightarrow> (time_error, date_time) result option" where
  "assemble_utc db civil_fields =
     try_bind (Some civil_fields) (\<lambda>(year, month, day, hour, minute, second).
     assemble db year month day hour minute second 0 None (Some 0) None)"

definition parse_imf_fixdate :: "tz_database \<Rightarrow> byte list \<Rightarrow> (time_error, date_time) result option" where
  "parse_imf_fixdate db s = assemble_utc db (imf_fixdate_fields s)"

definition parse_rfc850_date :: "tz_database \<Rightarrow> byte list \<Rightarrow> (time_error, date_time) result option" where
  "parse_rfc850_date db s = assemble_utc db (rfc850_fields s)"

definition parse_asctime :: "tz_database \<Rightarrow> byte list \<Rightarrow> (time_error, date_time) result option" where
  "parse_asctime db s = assemble_utc db (asctime_fields s)"

definition parse_http :: "tz_database \<Rightarrow> byte list \<Rightarrow> (time_error, date_time) result option" where
  "parse_http db input =
     (let input = str_trim input
      in if \<not> list_all is_ascii input then Some (Err (err_parse ''date is not ASCII''))
         else do {
           r \<leftarrow> parse_imf_fixdate db input;
           case r of
             Ok datetime \<Rightarrow> Some (Ok datetime)
           | Err _ \<Rightarrow> do {
               r \<leftarrow> parse_rfc850_date db input;
               case r of
                 Ok datetime \<Rightarrow> Some (Ok datetime)
               | Err _ \<Rightarrow> do {
                   r \<leftarrow> parse_asctime db input;
                   Some (case r of
                     Ok datetime \<Rightarrow> Ok datetime
                   | Err _ \<Rightarrow> Err (err_parse ''input is not an IMF-fixdate (RFC 9110), RFC 850 or asctime date''))
                 }
             }
         })"

section \<open>Entry points\<close>

definition parse_with_format :: "tz_database \<Rightarrow> byte list \<Rightarrow> time_format \<Rightarrow> (time_error, date_time) result option" where
  "parse_with_format db input format =
     (case format of
        Rfc3339 \<Rightarrow> parse_rfc3339_strict db input
      | Iso8601 \<Rightarrow> parse_rfc3339_strict db input
      | Rfc9557 \<Rightarrow> parse_rfc9557_strict db input
      | DateOnly \<Rightarrow> parse_date_only db input
      | TimeOnly \<Rightarrow> parse_time_only db input
      | Rfc2822 \<Rightarrow> parse_rfc2822 db input
      | HttpDate \<Rightarrow> parse_http db input)"

definition parse_bytes :: "tz_database \<Rightarrow> byte list \<Rightarrow> time_zone option \<Rightarrow> (time_error, date_time) result option" where
  "parse_bytes db input default_zone =
     (case from_utf8 input of
        Ok s \<Rightarrow> parse db s default_zone
      | Err _ \<Rightarrow> Some (Err (err_parse ''input is not valid UTF-8'')))"

definition parse_bytes_with_format :: "tz_database \<Rightarrow> byte list \<Rightarrow> time_format \<Rightarrow> (time_error, date_time) result option" where
  "parse_bytes_with_format db input format =
     (case from_utf8 input of
        Ok s \<Rightarrow> parse_with_format db s format
      | Err _ \<Rightarrow> Some (Err (err_parse ''input is not valid UTF-8'')))"

section \<open>Whatever is parsed is well formed\<close>

lemma result_bind_Ok: "result_bind r f = Ok y \<longleftrightarrow> (\<exists>x. r = Ok x \<and> f x = Ok y)"
  by (cases r) simp_all

lemma try_bind_sound: "(\<And>x. r = Ok x \<Longrightarrow> dt_sound db (f x)) \<Longrightarrow> dt_sound db (try_bind (Some r) f)"
  by (cases r) simp_all

text \<open>What \<open>assemble\<close> relies on: fields that are not negative, a year in range, and a usable zone and offset.\<close>

definition fields_ok :: "int \<Rightarrow> int \<Rightarrow> int \<Rightarrow> int \<Rightarrow> int \<Rightarrow> bool" where
  "fields_ok y h mi s n \<longleftrightarrow> MIN_YEAR \<le> y \<and> y \<le> MAX_YEAR \<and> 0 \<le> h \<and> 0 \<le> mi \<and> 0 \<le> s \<and> 0 \<le> n"

lemma assemble_sound:
  assumes "fields_ok y h mi s n" "pred_option zone_ok zone" "pred_option (\<lambda>off. \<bar>off\<bar> \<le> OFFSET_LIMIT) offset" "pred_option zone_ok dz"
  shows "dt_sound db (assemble db y m d h mi s n zone offset dz)"
proof (cases "1 \<le> m \<and> m \<le> 12 \<and> \<not> (d < 1 \<or> d > days_in_month y m) \<and> \<not> h > 23 \<and> \<not> mi > 59 \<and> \<not> (if s = 60 then 59 else s) > 59 \<and> \<not> n \<ge> NANOS_PER_SEC")
  case False
  then show ?thesis unfolding assemble_def Let_def by (auto simp del: if_split_asm)
next
  case True
  define s' where "s' = (if s = 60 then 59 else s)"
  define l where "l = days_from_civil y m d * SECS_PER_DAY + h * 3600 + mi * 60 + s'"
  have s': "0 \<le> s'" "s' \<le> 59" using True assms(1) by (auto simp: s'_def fields_ok_def)
  have guards: "(1 \<le> m \<and> m \<le> 12) = True" "(d < 1 \<or> d > days_in_month y m) = False" "(h > 23) = False" "(mi > 59) = False" "(s' > 59) = False" "(n \<ge> NANOS_PER_SEC) = False"
    using True s' by auto
  have "civil_valid y m d" using True by (auto simp: civil_valid_def)
  then have "MIN_SECS \<le> days_from_civil y m d * SECS_PER_DAY" "days_from_civil y m d * SECS_PER_DAY \<le> MAX_SECS"
    using year_in_range assms(1) by (auto simp: fields_ok_def)
  then have l: "\<bar>l\<bar> \<le> 2 ^ 42" using assms(1) s' True unfolding l_def secs_range fields_ok_def by auto
  have raw: "dt_sound db (dt_from_raw_checked db t n z)" if "zone_ok z" for t z
    using from_raw_checked_cases(3) [OF that] True assms(1) by (simp add: fields_ok_def)
  have resolve: "\<exists>i. resolve_compatible db z l = Some i" if "zone_ok z" for z
    using resolve_total(1) [OF that, of l db Compatible] l by (auto simp: resolve_compatible_def)
  have checked: "checked_signed 64 (l - off) = Some (l - off)" "instant_ok (l - off)" if "\<bar>off\<bar> \<le> OFFSET_LIMIT" for off
    using that l by (auto intro!: checked_small simp: OFFSET_LIMIT_def instant_ok_def)
  have fixed: "tz_fixed off = Ok (ZoneFixed off)" if "\<bar>off\<bar> \<le> OFFSET_LIMIT" for off using that by (auto simp: tz_fixed_def)
  define chosen where "chosen = (case (zone, offset) of
      (Some zone, Some offset) \<Rightarrow> do {
        instant \<leftarrow> checked_signed 64 (l - offset);
        off \<leftarrow> offset_at db zone instant;
        Some (if off \<noteq> offset then Err (err_offset_conflict ''offset does not match the time zone'') else Ok (zone, instant))
      }
    | (Some zone, None) \<Rightarrow> map_option (\<lambda>instant. Ok (zone, instant)) (resolve_compatible db zone l)
    | (None, Some offset) \<Rightarrow>
        try_bind (Some (if offset = 0 then Ok ZoneUtc else tz_fixed offset)) (\<lambda>zone.
        map_option (\<lambda>instant. Ok (zone, instant)) (checked_signed 64 (l - offset)))
    | (None, None) \<Rightarrow>
        let zone = (case dz of Some zone \<Rightarrow> zone | None \<Rightarrow> ZoneUtc)
        in map_option (\<lambda>instant. Ok (zone, instant)) (resolve_compatible db zone l))"
  have "(\<exists>e. chosen = Some (Err e)) \<or> (\<exists>z i. chosen = Some (Ok (z, i)) \<and> zone_ok z)"
  proof (cases zone; cases offset)
    fix z off assume zo: "zone = Some z" "offset = Some off"
    then obtain o' where "offset_at db z (l - off) = Some o'" using offset_at_total [of z "l - off" db] assms(2,3) checked(2) [of off] by auto
    then show ?thesis using zo assms(2,3) checked(1) [of off] by (auto simp: chosen_def)
  next
    fix off assume zo: "zone = None" "offset = Some off"
    then show ?thesis using assms(3) checked(1) [of off] checked(1) [of 0] fixed [of off] by (cases "off = 0") (auto simp: chosen_def OFFSET_LIMIT_def)
  next
    fix z assume zo: "zone = Some z" "offset = None"
    then show ?thesis using assms(2) resolve [of z] by (auto simp: chosen_def)
  next
    assume zo: "zone = None" "offset = None"
    then show ?thesis using assms(4) resolve [of "case dz of Some z \<Rightarrow> z | None \<Rightarrow> ZoneUtc"] by (cases dz) (auto simp: chosen_def)
  qed
  moreover have "assemble db y m d h mi s n zone offset dz = try_bind chosen (\<lambda>(zone, instant). dt_from_raw_checked db instant n zone)"
    unfolding assemble_def Let_def s'_def [symmetric] l_def [symmetric] chosen_def by (simp only: guards if_False if_True simp_thms)
  ultimately show ?thesis using raw by (auto simp: split_beta)
qed

lemma year_month_day_range: "parse_year_month_day u = Ok ((y, m, d), v) \<Longrightarrow> MIN_YEAR \<le> y \<and> y \<le> MAX_YEAR"
proof -
  assume "parse_year_month_day u = Ok ((y, m, d), v)"
  then obtain y' where y': "y = as_signed 32 y'" "MIN_YEAR \<le> y'" "y' \<le> MAX_YEAR"
    unfolding parse_year_month_day_def by (force simp: Let_def split_beta result_bind_Ok split: if_splits)
  then show ?thesis using as_signed_id [OF in_signed_32 [of y']] by (simp add: MIN_YEAR_def MAX_YEAR_def)
qed

lemma fraction_loop_nonneg: "0 \<le> scale \<Longrightarrow> 0 \<le> nanos \<Longrightarrow> 0 \<le> fst (fraction_loop k scale nanos u)"
proof (induction k scale nanos u rule: fraction_loop.induct)
  case (2 k scale nanos b u)
  then show ?case by (simp add: pos_imp_zdiv_nonneg_iff)
qed simp

lemma as_unsigned_nonneg: "0 \<le> as_unsigned w v"
  by (simp add: as_unsigned_def)

lemma clock_nonneg: "parse_clock u = Ok ((h, mi, s, n), v) \<Longrightarrow> 0 \<le> h \<and> 0 \<le> mi \<and> 0 \<le> s \<and> 0 \<le> n"
proof -
  assume "parse_clock u = Ok ((h, mi, s, n), v)"
  then obtain h' m' s' w where "h = as_unsigned 8 h'" "mi = as_unsigned 8 m'" "s = as_unsigned 8 s'" "parse_fraction w = Ok (n, v)"
    by (auto simp: parse_clock_def result_bind_Ok)
  moreover have "0 \<le> n" if "parse_fraction w = Ok (n, v)" for w
    using that fraction_loop_nonneg [of 100000000 0 0 "tl w"] by (auto simp: parse_fraction_def Let_def split_beta split: if_splits)
  ultimately show ?thesis by (simp add: as_unsigned_nonneg)
qed

lemma offset_limit: "parse_offset u = Ok (offset, v) \<Longrightarrow> pred_option (\<lambda>off. \<bar>off\<bar> \<le> OFFSET_LIMIT) offset"
proof -
  have "\<bar>off\<bar> \<le> OFFSET_LIMIT" if "tz_fixed off = Ok z" for off z using that by (auto simp: tz_fixed_def split: if_splits)
  then show "parse_offset u = Ok (offset, v) \<Longrightarrow> ?thesis"
    by (auto simp: parse_offset_def result_bind_Ok Let_def OFFSET_LIMIT_def split: if_splits)
qed

lemma zone_annotation_ok: "database_ok db \<Longrightarrow> parse_zone_annotation db u = Ok (zone, v) \<Longrightarrow> pred_option zone_ok zone"
proof -
  assume db: "database_ok db"
  have "zone_ok z" if "tz_named db name = Ok z" for z name
    using that db tzdb_lookup_sound [of db name]
    by (auto simp: tz_named_def tz_system_def database_ok_def list_all_iff split: if_splits option.splits)
  then show "parse_zone_annotation db u = Ok (zone, v) \<Longrightarrow> ?thesis"
    by (auto simp: parse_zone_annotation_def result_bind_Ok Let_def split_beta split: if_splits sum.splits prod.splits bool.splits)
qed

lemma parse_sound:
  assumes "database_ok db" "pred_option zone_ok dz"
  shows "dt_sound db (parse db input dz)"
proof -
  have date: "fields_ok y 0 0 0 0" if "parse_year_month_day input = Ok ((y, m, d), u)" for y m d u
    using year_month_day_range [OF that] by (simp add: fields_ok_def)
  show ?thesis unfolding parse_def
  proof (rule try_bind_sound, clarify)
    fix y m d u assume p: "parse_year_month_day input = Ok ((y, m, d), u)"
    have "dt_sound db (assemble db y m d h mi s n zone offset dz)" if "parse_clock (tl u) = Ok ((h, mi, s, n), v)" "parse_offset v = Ok (offset, v')"
      "parse_zone_annotation db v' = Ok (zone, v'')" for h mi s n v offset v' zone v''
      using year_month_day_range [OF p] clock_nonneg [OF that(1)] offset_limit [OF that(2)] zone_annotation_ok [OF assms(1) that(3)] assms(2)
      by (intro assemble_sound) (simp_all add: fields_ok_def)
    moreover have "dt_sound db (assemble db y m d 0 0 0 0 None None dz)" using date [OF p] assms(2) by (intro assemble_sound) simp_all
    ultimately show "dt_sound db (if p_done u then assemble db y m d 0 0 0 0 None None dz
      else if \<not> peek_is (\<lambda>b. b = ascii CHR ''T'' \<or> b = ascii CHR ''t'' \<or> b = ascii CHR '' '') u
      then Some (Err (err_parse ''expected a date/time separator''))
      else try_bind (Some (parse_clock (tl u))) (\<lambda>((hour, minute, second, nanos), s).
        try_bind (Some (parse_offset s)) (\<lambda>(offset, s).
        try_bind (Some (parse_zone_annotation db s)) (\<lambda>(zone, s).
        if \<not> p_done s then Some (Err (err_parse ''trailing characters''))
        else assemble db y m d hour minute second nanos zone offset dz))))"
      by (auto intro!: try_bind_sound split: if_splits)
  qed
qed

lemma one_digit_bound: "one_digit b = Ok v \<Longrightarrow> 0 \<le> v \<and> v \<le> 9"
proof -
  have "uint (b - ascii CHR ''0'') \<le> 9" if "b - ascii CHR ''0'' < 10" using that by (simp add: word_less_def)
  then show "one_digit b = Ok v \<Longrightarrow> ?thesis" by (auto simp: one_digit_def Let_def split: if_splits)
qed

lemma two_digits_bound: "two_digits u = Ok v \<Longrightarrow> 0 \<le> v \<and> v \<le> 99"
proof -
  assume "two_digits u = Ok v"
  then obtain a b where "one_digit (u ! 0) = Ok a" "one_digit (u ! 1) = Ok b" "v = a * 10 + b"
    by (auto simp: two_digits_def result_bind_Ok split: if_splits)
  then show ?thesis using one_digit_bound [of "u ! 0" a] one_digit_bound [of "u ! 1" b] by simp
qed

lemma decimal_bounds:
  "decimal_loop val u = Ok v \<Longrightarrow> 0 \<le> val \<Longrightarrow> 0 \<le> v \<and> v < (val + 1) * 10 ^ length u"
  "four_digits_loop val u = Ok v \<Longrightarrow> 0 \<le> val \<Longrightarrow> 0 \<le> v \<and> v < (val + 1) * 10 ^ length u"
proof -
  have step: "(val * 10 + x + 1) * 10 ^ k \<le> (val + 1) * 10 ^ Suc k" if "x \<le> 9" for val x :: int and k
    using that mult_right_mono [of "val * 10 + x + 1" "(val + 1) * 10" "10 ^ k"] by simp
  show "decimal_loop val u = Ok v \<Longrightarrow> 0 \<le> val \<Longrightarrow> 0 \<le> v \<and> v < (val + 1) * 10 ^ length u"
  proof (induction u arbitrary: val)
    case (Cons b u)
    have d: "one_digit b = Ok (uint (b - ascii CHR ''0''))" "decimal_loop (val * 10 + uint (b - ascii CHR ''0'')) u = Ok v"
      using Cons.prems(1) by (auto simp: one_digit_def Let_def not_le split: if_splits)
    note x = one_digit_bound [OF d(1)]
    then have "0 \<le> val * 10 + uint (b - ascii CHR ''0'')" using Cons.prems(2) by linarith
    then show ?case using Cons.IH [OF d(2)] step [OF conjunct2 [OF x], of val "length u"] unfolding length_Cons by linarith
  qed simp
  show "four_digits_loop val u = Ok v \<Longrightarrow> 0 \<le> val \<Longrightarrow> 0 \<le> v \<and> v < (val + 1) * 10 ^ length u"
  proof (induction u arbitrary: val)
    case (Cons b u)
    then obtain x where d: "one_digit b = Ok x" "four_digits_loop (val * 10 + x) u = Ok v" by (auto simp: result_bind_Ok)
    note x = one_digit_bound [OF d(1)]
    then have "0 \<le> val * 10 + x" using Cons.prems(2) by linarith
    then show ?case using Cons.IH [OF d(2)] step [OF conjunct2 [OF x], of val "length u"] unfolding length_Cons by linarith
  qed simp
qed

lemma four_digits_bound: "four_digits u = Ok v \<Longrightarrow> 0 \<le> v \<and> v \<le> 9999"
  using decimal_bounds(2) [of 0 u v] by (auto simp: four_digits_def split: if_splits)

lemma parse_decimal_bound: "parse_decimal u lo hi = Ok v \<Longrightarrow> 0 \<le> v \<and> v < 10 ^ hi"
proof -
  assume a: "parse_decimal u lo hi = Ok v"
  then have "decimal_loop 0 u = Ok v" "length u \<le> hi" by (auto simp: parse_decimal_def split: if_splits)
  then have "0 \<le> v" "v < 10 ^ length u" "(10 :: int) ^ length u \<le> 10 ^ hi" using decimal_bounds(1) [of 0 u v] by (simp_all add: power_increasing)
  then show ?thesis by linarith
qed

lemma two_digit_year_range: "0 \<le> v \<Longrightarrow> v \<le> 99 \<Longrightarrow> MIN_YEAR \<le> two_digit_year v \<and> two_digit_year v \<le> MAX_YEAR"
  by (simp add: two_digit_year_def MIN_YEAR_def MAX_YEAR_def)

lemma rfc2822_year_range: "parse_rfc2822_year u = Ok y \<Longrightarrow> MIN_YEAR \<le> y \<and> y \<le> MAX_YEAR"
proof -
  assume "parse_rfc2822_year u = Ok y"
  then obtain v where v: "parse_decimal u 2 4 = Ok v" "y = (if length u = 2 then two_digit_year v else v)" by (auto simp: parse_rfc2822_year_def result_bind_Ok)
  have "0 \<le> v" "v \<le> 9999" using parse_decimal_bound [OF v(1)] by simp_all
  moreover have "v \<le> 99" if "length u = 2" using decimal_bounds(1) [of 0 u v] v(1) that by (simp add: parse_decimal_def)
  ultimately show ?thesis using v(2) two_digit_year_range [of v] by (simp add: MIN_YEAR_def MAX_YEAR_def)
qed

lemma rfc2822_zone_limit: "parse_rfc2822_zone u = Ok off \<Longrightarrow> \<bar>off\<bar> \<le> OFFSET_LIMIT"
proof -
  have two: "\<bar>hours * 3600 + minutes * 60\<bar> \<le> OFFSET_LIMIT" if "two_digits a = Ok hours" "two_digits b = Ok minutes" "\<not> hours > 23" "\<not> minutes > 59" for a b hours minutes
    using two_digits_bound [OF that(1)] two_digits_bound [OF that(2)] that(3,4) by (simp add: OFFSET_LIMIT_def)
  assume "parse_rfc2822_zone u = Ok off"
  then consider "off = 0" | hours minutes where "two_digits (take 2 (drop 1 u)) = Ok hours" "two_digits (take 2 (drop 3 u)) = Ok minutes"
      "\<not> hours > 23" "\<not> minutes > 59" "\<bar>off\<bar> = \<bar>hours * 3600 + minutes * 60\<bar>"
    unfolding parse_rfc2822_zone_def by (auto simp: result_bind_Ok Let_def simp del: ascii_bytes_simps split: if_splits)
  then show ?thesis using two by cases (auto simp: OFFSET_LIMIT_def)
qed

lemma hms_nonneg: "parse_hms u = Ok (h, mi, s) \<Longrightarrow> 0 \<le> h \<and> 0 \<le> mi \<and> 0 \<le> s"
  by (auto simp: parse_hms_def result_bind_Ok as_unsigned_nonneg split: if_splits)

lemma rfc2822_fields_ok: "rfc2822_fields u = Ok (y, m, d, h, mi, s, off) \<Longrightarrow> fields_ok y h mi s 0 \<and> \<bar>off\<bar> \<le> OFFSET_LIMIT"
proof -
  assume "rfc2822_fields u = Ok (y, m, d, h, mi, s, off)"
  then obtain a b zs where "parse_rfc2822_year a = Ok y" "parse_hms b = Ok (h, mi, s)"
    and zs: "(case zs of [] \<Rightarrow> Ok (0, []) | zone # tokens \<Rightarrow> result_bind (parse_rfc2822_zone zone) (\<lambda>offset. Ok (offset, tokens))) = Ok (off, [])"
    unfolding rfc2822_fields_def by (auto simp: result_bind_Ok split_beta split: if_splits)
  moreover obtain c where "off = 0 \<or> parse_rfc2822_zone c = Ok off" using zs by (cases zs) (auto simp: result_bind_Ok)
  ultimately show ?thesis using rfc2822_year_range [of a y] hms_nonneg [of b h mi s] rfc2822_zone_limit [of c off] by (auto simp: fields_ok_def OFFSET_LIMIT_def)
qed

lemma digit_fields_ok:
  assumes "two_digits a = Ok h" "two_digits b = Ok mi" "two_digits c = Ok s" "MIN_YEAR \<le> y" "y \<le> MAX_YEAR"
  shows "fields_ok y h mi s 0"
  using assms two_digits_bound [of a h] two_digits_bound [of b mi] two_digits_bound [of c s] by (simp add: fields_ok_def)

lemma http_fields_ok:
  "imf_fixdate_fields u = Ok (y, m, d, h, mi, s) \<Longrightarrow> fields_ok y h mi s 0"
  "rfc850_fields u = Ok (y, m, d, h, mi, s) \<Longrightarrow> fields_ok y h mi s 0"
  "asctime_fields u = Ok (y, m, d, h, mi, s) \<Longrightarrow> fields_ok y h mi s 0"
proof -
  have four: "MIN_YEAR \<le> y" "y \<le> MAX_YEAR" if "four_digits a = Ok y" for a y
    using four_digits_bound [OF that] by (simp_all add: MIN_YEAR_def MAX_YEAR_def)
  have two: "MIN_YEAR \<le> two_digit_year y" "two_digit_year y \<le> MAX_YEAR" if "two_digits a = Ok y" for a y
    using two_digits_bound [OF that] two_digit_year_range by blast+
  show "imf_fixdate_fields u = Ok (y, m, d, h, mi, s) \<Longrightarrow> fields_ok y h mi s 0"
    unfolding imf_fixdate_fields_def by (auto simp: result_bind_Ok split: if_splits intro: digit_fields_ok four)
  show "rfc850_fields u = Ok (y, m, d, h, mi, s) \<Longrightarrow> fields_ok y h mi s 0"
    unfolding rfc850_fields_def by (auto simp: result_bind_Ok split: if_splits intro: digit_fields_ok two)
  show "asctime_fields u = Ok (y, m, d, h, mi, s) \<Longrightarrow> fields_ok y h mi s 0"
    unfolding asctime_fields_def by (auto simp: result_bind_Ok split: if_splits intro: digit_fields_ok four)
qed

lemma assemble_utc_sound:
  assumes "\<And>y m d h mi s. r = Ok (y, m, d, h, mi, s) \<Longrightarrow> fields_ok y h mi s 0"
  shows "dt_sound db (assemble_utc db r)"
  unfolding assemble_utc_def by (rule try_bind_sound) (auto intro!: assemble_sound assms simp: OFFSET_LIMIT_def)

lemma parse_http_sound: "dt_sound db (parse_http db u)"
proof -
  have "dt_sound db (parse_imf_fixdate db v)" "dt_sound db (parse_rfc850_date db v)" "dt_sound db (parse_asctime db v)" for v
    unfolding parse_imf_fixdate_def parse_rfc850_date_def parse_asctime_def by (intro assemble_utc_sound; erule http_fields_ok)+
  note this [of "str_trim u"]
  then show ?thesis unfolding parse_http_def Let_def dt_sound_def
    by (auto split: option.splits sum.splits if_splits)
qed

lemma parse_rfc2822_sound: "dt_sound db (parse_rfc2822 db u)"
  unfolding parse_rfc2822_def by (rule try_bind_sound) (auto intro!: assemble_sound dest: rfc2822_fields_ok)

lemma parse_with_format_sound:
  assumes "database_ok db"
  shows "dt_sound db (parse_with_format db u format)"
proof -
  have "dt_sound db (parse_date_only db u)"
    unfolding parse_date_only_def by (rule try_bind_sound, clarsimp, frule year_month_day_range) (auto intro!: assemble_sound simp: fields_ok_def)
  moreover have "dt_sound db (parse_time_only db u)"
    unfolding parse_time_only_def
    by (rule try_bind_sound, clarsimp, frule clock_nonneg) (auto intro!: assemble_sound simp: fields_ok_def MIN_YEAR_def MAX_YEAR_def)
  moreover have "dt_sound db (parse_rfc3339_strict db u)" using parse_sound [OF assms, of None u] by (simp add: parse_rfc3339_strict_def)
  moreover have "dt_sound db (parse_rfc9557_strict db u)"
    unfolding parse_rfc9557_strict_def by (rule try_bind_sound) (use parse_sound [OF assms, of None u] in simp)
  ultimately show ?thesis using parse_http_sound parse_rfc2822_sound by (cases format) (simp_all add: parse_with_format_def)
qed

text \<open>
  C13: whatever is parsed is well formed. On every input, valid UTF-8 or not, each parser returns without a panic, and a value
  it accepts has an instant in the range of years -9999 to 9999, less than a second of nanoseconds and the offset that its
  zone has then. The database is well formed, and so is the default zone when there is one.
\<close>

theorem parse_well_formed:
  assumes "database_ok db" "pred_option zone_ok default_zone"
  shows "dt_sound db (parse db input default_zone) \<and> dt_sound db (parse_with_format db input format) \<and>
    dt_sound db (parse_bytes db input default_zone) \<and> dt_sound db (parse_bytes_with_format db input format)"
  using parse_sound [OF assms] parse_with_format_sound [OF assms(1)] by (auto simp: parse_bytes_def parse_bytes_with_format_def split: sum.split)

theorem parse_well_formed_witness:
  "database_ok sample_db \<and> dt_sound sample_db (parse_with_format sample_db (ascii_bytes ''Sat, 31 Feb 04 24:00'') Rfc2822) \<and>
   dt_sound sample_db (parse sample_db (ascii_bytes ''2024-02-29T23:59:60+25:00'') (Some (ZoneFixed 3600)))"
  using sample_db_ok parse_well_formed [of sample_db None "ascii_bytes ''Sat, 31 Feb 04 24:00''" Rfc2822]
    parse_well_formed [of sample_db "Some (ZoneFixed 3600)" "ascii_bytes ''2024-02-29T23:59:60+25:00''"]
  by (simp add: OFFSET_LIMIT_def)

end
