(* ===== verification/Date_Roundtrip.thy ===== *)
theory Date_Roundtrip
  imports Date_Parse
begin

text \<open>
  What was written reads back (\<open>src/time/format.rs\<close>, \<open>src/time/parse.rs\<close>): the digits, dates, clocks, offsets and zones that
  the formatter writes are read by the parser, and so a value comes back through \<open>Display\<close> and \<open>parse\<close>, and what each format
  keeps of it through the strict parser of that format.
\<close>

section \<open>Reading what was written\<close>

named_theorems reads

lemma p_peek_simps [simp]: "p_peek [] = None" "p_peek (b # s) = Some b" "peek_is p [] = False" "peek_is p (b # s) = p b"
  by (simp_all add: p_peek_def peek_is_def)

lemma p_eat_simps [simp]: "p_eat b [] = (False, [])" "p_eat b (c # s) = (if c = b then (True, s) else (False, c # s))"
  by (simp_all add: p_eat_def)

lemma p_expect_simps [simp]: "p_expect b (b # s) = Ok s"
  by (simp add: p_expect_def)

lemma digits_val_append: "digits_val (xs @ ys) = digits_val xs * 10 ^ length ys + digits_val ys"
proof (induction ys rule: rev_induct)
  case (snoc y ys)
  then show ?case by (simp flip: append_assoc add: algebra_simps)
qed simp

lemma digits_val_cons: "digits_val (b # bs) = digit_val b * 10 ^ length bs + digits_val bs"
  using digits_val_append [of "[b]" bs] digits_val_simps(2) [of "[]" b] by simp

lemma digits_val_zeros: "digits_val (replicate n (ascii CHR ''0'')) = 0"
  by (induction n) (simp_all add: digits_val_cons digit_val_def)

lemma fmt_pad_val: "digits_val (fmt_pad w v) = nat v"
  using digits_val_zeros [of "w - length (show_nat (nat v))"] by (simp add: fmt_pad_def Let_def digits_val_append)

lemma fmt_pad_digits: "b \<in> set (fmt_pad w v) \<Longrightarrow> is_ascii_digit b"
  using show_nat_digits [of b "nat v"] by (auto simp: fmt_pad_def Let_def is_ascii_digit_def)

lemma fmt_pad_length: "nat v < 10 ^ w \<Longrightarrow> 0 < w \<Longrightarrow> length (fmt_pad w v) = w"
  using show_nat_short [of "nat v" "w - 1"] by (simp add: fmt_pad_def Let_def)

lemma fixed_loop_digits:
  assumes "\<And>b. b \<in> set ds \<Longrightarrow> is_ascii_digit b"
  shows "fixed_loop (length ds) val (ds @ s) = Ok (val * 10 ^ length ds + int (digits_val ds), s)"
  using assms
proof (induction ds arbitrary: val)
  case (Cons b ds)
  then show ?case by (simp add: p_bump_def digits_val_cons algebra_simps)
qed simp

lemma p_fixed_pad [reads]: "0 \<le> v \<Longrightarrow> v \<le> 99 \<Longrightarrow> p_fixed 2 (fmt_pad 2 v @ s) = Ok (v, s)"
  using fixed_loop_digits [of "fmt_pad 2 v" 0 s] fmt_pad_digits [of _ 2 v] fmt_pad_length [of v 2] fmt_pad_val [of 2 v]
  by (simp add: p_fixed_def)

lemma number_loop_digits:
  assumes "\<And>b. b \<in> set ds \<Longrightarrow> is_ascii_digit b" "0 \<le> val" "val * 10 ^ length ds + int (digits_val ds) < 2 ^ 62"
  shows "number_loop val ds = Ok (val * 10 ^ length ds + int (digits_val ds))"
  using assms
proof (induction ds arbitrary: val)
  case (Cons b ds)
  define v where "v = val * 10 + int (digit_val b)"
  have eq: "v * 10 ^ length ds + int (digits_val ds) = val * 10 ^ length (b # ds) + int (digits_val (b # ds))"
    by (simp add: v_def digits_val_cons algebra_simps)
  have v: "0 \<le> v" using Cons.prems(2) by (simp add: v_def)
  have "v * 1 \<le> v * 10 ^ length ds" using v by (intro mult_left_mono) simp_all
  then have "v < 2 ^ 62" using eq Cons.prems(3) by simp
  then have "checked_signed 64 (val * 10) = Some (val * 10)" "checked_signed 64 v = Some v"
    using Cons.prems(2) v unfolding v_def by (auto simp: checked_signed_def in_signed_def)
  moreover have "number_loop v ds = Ok (v * 10 ^ length ds + int (digits_val ds))"
    using Cons.prems v eq by (intro Cons.IH) auto
  ultimately show ?case using Cons.prems(1) [of b] eq by (simp add: v_def)
qed simp

lemma takeWhile_digits:
  assumes "\<And>b. b \<in> set ds \<Longrightarrow> is_ascii_digit b" "\<not> peek_is is_ascii_digit s"
  shows "takeWhile is_ascii_digit (ds @ s) = ds" "dropWhile is_ascii_digit (ds @ s) = s"
  using assms by (cases s; auto simp: takeWhile_append dropWhile_append takeWhile_eq_all_conv dropWhile_eq_self_iff)+

lemma fraction_loop_digits:
  assumes "\<And>b. b \<in> set ds \<Longrightarrow> is_ascii_digit b" "\<not> peek_is is_ascii_digit s" "sig + length ds \<le> 9"
  shows "fraction_loop sig (10 ^ (8 - sig)) nanos (ds @ s) = (nanos + int (digits_val ds) * 10 ^ (9 - sig - length ds), s)"
  using assms
proof (induction ds arbitrary: sig nanos)
  case Nil
  then show ?case by (cases s) auto
next
  case (Cons b ds)
  have b: "is_ascii_digit b" and sig: "sig < 9" using Cons.prems by auto
  have scale: "(10 :: int) ^ (8 - sig) div 10 = 10 ^ (8 - Suc sig)" if "ds \<noteq> []"
  proof -
    have "8 - sig = Suc (8 - Suc sig)" using that Cons.prems(3) by (cases ds) auto
    then show ?thesis by simp
  qed
  have pow: "(10 :: int) ^ (8 - sig) = 10 ^ length ds * 10 ^ (9 - sig - length (b # ds))"
    using Cons.prems(3) by (simp flip: power_add)
  show ?case
  proof (cases "ds = []")
    case True
    then show ?thesis using b sig Cons.prems(2) digits_val_cons [of b "[]"] by (cases s) auto
  next
    case False
    have "fraction_loop (Suc sig) (10 ^ (8 - Suc sig)) (nanos + int (digit_val b) * 10 ^ (8 - sig)) (ds @ s) =
        (nanos + int (digit_val b) * 10 ^ (8 - sig) + int (digits_val ds) * 10 ^ (9 - Suc sig - length ds), s)"
      using Cons.prems by (intro Cons.IH) auto
    then show ?thesis using b sig scale [OF False] by (simp add: digits_val_cons pow algebra_simps)
  qed
qed

lemma parse_fraction_read [reads]:
  assumes "0 \<le> n" "n < 1000000000" "\<not> peek_is (\<lambda>b. is_ascii_digit b \<or> b = ascii CHR ''.'' \<or> b = ascii CHR '','') s"
  shows "parse_fraction (write_fraction n @ s) = Ok (n, s)"
proof -
  have s: "\<not> peek_is is_ascii_digit s" "\<not> peek_is (\<lambda>b. b = ascii CHR ''.'' \<or> b = ascii CHR '','') s" using assms(3) by (cases s; auto)+
  have digits: "parse_fraction (ascii CHR ''.'' # fmt_pad w v @ s) = Ok (v * 10 ^ (9 - w), s)" if "0 \<le> v" "nat v < 10 ^ w" "0 < w" "w \<le> 9" for v w
  proof -
    have len: "length (fmt_pad w v) = w" by (rule fmt_pad_length [OF that(2,3)])
    have "fraction_loop 0 100000000 0 (fmt_pad w v @ s) = (v * 10 ^ (9 - w), s)"
      using fraction_loop_digits [of "fmt_pad w v" s 0 0] fmt_pad_digits [of _ w v] s(1) len that(1,4) fmt_pad_val [of w v] by simp
    moreover have "fmt_pad w v @ s \<noteq> s" using len that(3) by (cases "fmt_pad w v") auto
    ultimately show ?thesis by (simp add: parse_fraction_def)
  qed
  consider "n = 0" | "n \<noteq> 0" "n mod 1000000 = 0" | "n \<noteq> 0" "n mod 1000000 \<noteq> 0" "n mod 1000 = 0" | "n \<noteq> 0" "n mod 1000000 \<noteq> 0" "n mod 1000 \<noteq> 0" by blast
  then show ?thesis
  proof cases
    case 1
    then show ?thesis using s(2) by (simp add: write_fraction_def parse_fraction_def)
  next
    case 2
    then have "n div 1000000 * 10 ^ (9 - 3) = n" using div_mult_mod_eq [of n 1000000] by simp
    then show ?thesis using 2 assms(1,2) digits [of "n div 1000000" 3] by (simp add: write_fraction_def)
  next
    case 3
    then have "n div 1000 * 10 ^ (9 - 6) = n" using div_mult_mod_eq [of n 1000] by simp
    then show ?thesis using 3 assms(1,2) digits [of "n div 1000" 6] by (simp add: write_fraction_def)
  next
    case 4
    then show ?thesis using assms(1,2) digits [of n 9] by (simp add: write_fraction_def)
  qed
qed

lemma not_digit_literals [simp]: "\<not> is_ascii_digit 45" "\<not> is_ascii_digit 43" "\<not> is_ascii_digit 58" "\<not> is_ascii_digit 90" "\<not> is_ascii_digit 91" "\<not> is_ascii_digit 84" "\<not> is_ascii_digit 44" "\<not> is_ascii_digit 46"
  by (simp_all add: is_ascii_digit_def)

lemma fmt_pad_head: "0 < w \<Longrightarrow> \<exists>b bs. fmt_pad w v = b # bs \<and> is_ascii_digit b"
proof (cases "fmt_pad w v")
  case Nil
  then show ?thesis by (simp add: fmt_pad_def Let_def)
next
  case (Cons b bs)
  then show ?thesis using fmt_pad_digits [of b w v] by simp
qed

lemma parse_year_read:
  assumes "- 9999 \<le> y" "y \<le> 9999" "1 \<le> m" "m \<le> 12" "1 \<le> d" "d \<le> 31"
  shows "parse_year_month_day (write_year y @ write_month_day m d @ s) = Ok ((y, m, d), s)"
proof -
  define ds where "ds = fmt_pad 4 \<bar>y\<bar>"
  have digits: "\<And>b. b \<in> set ds \<Longrightarrow> is_ascii_digit b" using fmt_pad_digits by (simp add: ds_def)
  have len: "length ds = 4" using assms(1,2) by (auto simp: ds_def intro!: fmt_pad_length)
  have num: "p_number ds = Ok \<bar>y\<bar>"
    using number_loop_digits [of ds 0] digits fmt_pad_val [of 4 "\<bar>y\<bar>"] assms(1,2) by (simp add: p_number_def ds_def)
  have head: "p_eat (ascii CHR ''-'') (ds @ u) = (False, ds @ u)" "p_eat (ascii CHR ''+'') (ds @ u) = (False, ds @ u)" for u
    using fmt_pad_head [of 4 "\<bar>y\<bar>"] by (auto simp: ds_def)
  have written: "write_year y = (if y < 0 then ascii CHR ''-'' # ds else ds)" using assms(2) by (auto simp: write_year_def ds_def)
  have tw: "takeWhile is_ascii_digit (ds @ ascii CHR ''-'' # u) = ds" "dropWhile is_ascii_digit (ds @ ascii CHR ''-'' # u) = ascii CHR ''-'' # u" for u
    by (rule takeWhile_digits [OF digits]; simp)+
  have casts: "as_signed 32 y = y" "as_unsigned 8 m = m" "as_unsigned 8 d = d"
    using assms as_signed_id [OF in_signed_32 [of y]] by (simp_all add: as_unsigned_def)
  have md: "p_fixed 2 (fmt_pad 2 m @ u) = Ok (m, u)" "p_fixed 2 (fmt_pad 2 d @ u) = Ok (d, u)" for u using assms by (simp_all add: reads)
  define rest where "rest = fmt_pad 2 m @ ascii CHR ''-'' # fmt_pad 2 d @ s"
  have input: "write_year y @ write_month_day m d @ s = (if y < 0 then ascii CHR ''-'' # ds else ds) @ ascii CHR ''-'' # rest"
    by (simp add: written write_month_day_def rest_def)
  have "parse_year_month_day ((if y < 0 then ascii CHR ''-'' # ds else ds) @ ascii CHR ''-'' # rest) = Ok ((y, m, d), s)"
    using head [of "ascii CHR ''-'' # rest"] tw [of rest] len num assms(1,2) casts md
    by (cases "y < 0") (simp_all add: parse_year_month_day_def MIN_YEAR_def MAX_YEAR_def rest_def)
  then show ?thesis by (simp only: input)
qed

lemma parse_clock_read:
  assumes "0 \<le> h" "h \<le> 23" "0 \<le> mi" "mi \<le> 59" "0 \<le> s" "s \<le> 59" "0 \<le> n" "n < 1000000000"
    "\<not> peek_is (\<lambda>b. is_ascii_digit b \<or> b = ascii CHR ''.'' \<or> b = ascii CHR '','') u"
  shows "parse_clock (write_clock h mi s @ write_fraction n @ u) = Ok ((h, mi, s, n), u)"
  using assms by (simp add: parse_clock_def write_clock_def reads as_unsigned_def)

definition offset_end :: "byte list \<Rightarrow> bool" where
  "offset_end s \<longleftrightarrow> \<not> peek_is (\<lambda>b. is_ascii_digit b \<or> b = ascii CHR '':'') s"

lemma parse_offset_read:
  assumes "\<bar>off\<bar> < 86400" "offset_end s"
  shows "parse_offset (write_offset off @ s) = Ok (Some off, s)"
proof -
  define m where "m = \<bar>off\<bar>"
  have m: "0 \<le> m" "m < 86400" using assms(1) by (simp_all add: m_def)
  have f: "0 \<le> m div 3600" "m div 3600 \<le> 23" "0 \<le> m mod 3600 div 60" "m mod 3600 div 60 \<le> 59" "0 \<le> m mod 60" "m mod 60 \<le> 59"
    using m clock_split(4-7) [of m] by simp_all
  have eat: "p_eat (ascii CHR '':'') s = (False, s)" using assms(2) by (cases s) (auto simp: offset_end_def)
  have "m mod 3600 mod 60 = m mod 60" by (rule mod_mod_cancel) simp
  then have total: "m div 3600 * 3600 + m mod 3600 div 60 * 60 + m mod 60 = m"
    using div_mult_mod_eq [of m 3600] div_mult_mod_eq [of "m mod 3600" 60] by linarith
  have fixed: "tz_fixed off = Ok (ZoneFixed off)" using assms(1) by (auto simp: tz_fixed_def OFFSET_LIMIT_def)
  have sign: "sign_byte off = ascii CHR ''-'' \<longleftrightarrow> off < 0" "sign_byte off = ascii CHR ''+'' \<longleftrightarrow> \<not> off < 0" by (simp_all add: sign_byte_def)
  have off': "(if off < 0 then - m else m) = off" by (simp add: m_def)
  have hours: "parse_offset (sign_byte off # fmt_pad 2 (m div 3600) @ t) =
      result_bind (parse_offset_rest t) (\<lambda>((minutes, seconds), s).
          let magnitude = m div 3600 * 3600 + minutes * 60 + seconds
          in if m div 3600 > 23 \<or> minutes > 59 \<or> seconds > 59 then Err (err_parse ''offset is out of range'')
             else let offset = (if off < 0 then - magnitude else magnitude) in result_bind (tz_fixed offset) (\<lambda>_. Ok (Some offset, s)))" for t
    using f(1,2) sign p_fixed_pad [of "m div 3600" t] by (auto simp: parse_offset_def sign_byte_def)
  have mins: "p_fixed 2 (fmt_pad 2 (m mod 3600 div 60) @ t) = Ok (m mod 3600 div 60, t)" for t by (rule p_fixed_pad) (use f in simp_all)
  have secs: "p_fixed 2 (fmt_pad 2 (m mod 60) @ t) = Ok (m mod 60, t)" for t by (rule p_fixed_pad) (use f in simp_all)
  have tail: "parse_offset (sign_byte off # fmt_pad 2 (m div 3600) @ t) = Ok (Some off, s)"
    if rest: "parse_offset_rest t = Ok ((m mod 3600 div 60, m mod 60), s)" for t
    unfolding hours rest result_bind_simps prod.case Let_def total off' fixed using f by simp
  have offset: "write_offset off = sign_byte off # fmt_pad 2 (m div 3600) @ ascii CHR '':'' # fmt_pad 2 (m mod 3600 div 60) @
      (if m mod 60 = 0 then [] else ascii CHR '':'' # fmt_pad 2 (m mod 60))"
    by (simp add: write_offset_def m_def Let_def)
  have "parse_offset_rest (ascii CHR '':'' # fmt_pad 2 (m mod 3600 div 60) @ (if m mod 60 = 0 then [] else ascii CHR '':'' # fmt_pad 2 (m mod 60)) @ s) =
      Ok ((m mod 3600 div 60, m mod 60), s)"
    using mins [of s] mins [of "ascii CHR '':'' # fmt_pad 2 (m mod 60) @ s"] secs [of s] eat
    by (cases "m mod 60 = 0") (simp_all add: parse_offset_rest_def)
  from tail [OF this] show ?thesis by (simp add: offset)
qed

lemma parse_zone_read:
  assumes "ascii CHR '']'' \<notin> set name" "utf8_valid name" "tz_named db name = Ok zone"
  shows "parse_zone_annotation db ([ascii CHR ''[''] @ name @ [ascii CHR '']'']) = Ok (Some zone, [])"
proof -
  have "takeWhile (\<lambda>b. b \<noteq> ascii CHR '']'') (name @ [ascii CHR '']'']) = name" "dropWhile (\<lambda>b. b \<noteq> ascii CHR '']'') (name @ [ascii CHR '']'']) = [ascii CHR '']'']"
    using assms(1) by (subst takeWhile_append2 dropWhile_append2; auto)+
  then show ?thesis using assms(2,3) by (simp add: parse_zone_annotation_def from_utf8_valid [THEN iffD2])
qed

text \<open>A local time of day on a calendar day, at a given offset.\<close>

lemma assemble_local:
  assumes "civil_valid y m d" "0 \<le> h" "h \<le> 23" "0 \<le> mi" "mi \<le> 59" "0 \<le> s" "s \<le> 59" "n < NANOS_PER_SEC"
    "l = days_from_civil y m d * 86400 + h * 3600 + mi * 60 + s" "\<bar>l\<bar> \<le> 2 ^ 43" "\<bar>off\<bar> \<le> OFFSET_LIMIT"
  shows "assemble db y m d h mi s n (Some zone) (Some off) dz =
      Option.bind (offset_at db zone (l - off)) (\<lambda>o'. if o' \<noteq> off then Some (Err (err_offset_conflict ''offset does not match the time zone''))
         else dt_from_raw_checked db (l - off) n zone)"
    "assemble db y m d h mi s n None (Some off) dz = dt_from_raw_checked db (l - off) n (if off = 0 then ZoneUtc else ZoneFixed off)"
proof -
  have small: "checked_signed 64 (l - off) = Some (l - off)" using assms(10,11) by (auto intro!: checked_small simp: OFFSET_LIMIT_def)
  have small0: "off = 0 \<Longrightarrow> checked_signed 64 l = Some l" using small by simp
  have fixed: "tz_fixed off = Ok (ZoneFixed off)" using assms(11) by (auto simp: tz_fixed_def)
  have local: "days_from_civil y m d * SECS_PER_DAY + h * 3600 + mi * 60 + s = l" using assms(9) by (simp add: SECS_PER_DAY_def)
  have guards: "1 \<le> m \<and> m \<le> 12" "\<not> (d < 1 \<or> d > days_in_month y m)" "\<not> h > 23" "\<not> mi > 59" "s \<noteq> 60" "\<not> s > 59" "\<not> n \<ge> NANOS_PER_SEC"
    using assms(1-8) by (auto simp: civil_valid_def)
  note unfold = assemble_def Let_def if_not_P [OF guards(2)] if_not_P [OF guards(3)] if_not_P [OF guards(4)] if_not_P [OF guards(5)]
    if_not_P [OF guards(6)] if_not_P [OF guards(7)] local small
  show "assemble db y m d h mi s n (Some zone) (Some off) dz =
      Option.bind (offset_at db zone (l - off)) (\<lambda>o'. if o' \<noteq> off then Some (Err (err_offset_conflict ''offset does not match the time zone''))
         else dt_from_raw_checked db (l - off) n zone)"
    using guards(1) unfolding unfold by (cases "offset_at db zone (l - off)") (simp_all add: small)
  show "assemble db y m d h mi s n None (Some off) dz = dt_from_raw_checked db (l - off) n (if off = 0 then ZoneUtc else ZoneFixed off)"
    using guards(1) fixed small0 unfolding unfold by (cases "off = 0") (simp_all add: small)
qed

text \<open>The text of the four ISO forms, from its fields.\<close>

definition iso_text :: "int \<Rightarrow> int \<Rightarrow> int \<Rightarrow> int \<Rightarrow> int \<Rightarrow> int \<Rightarrow> int \<Rightarrow> bool \<Rightarrow> int \<Rightarrow> byte list option \<Rightarrow> byte list" where
  "iso_text y m d h mi s n z off name =
     write_year y @ write_month_day m d @ [ascii CHR ''T''] @ write_clock h mi s @ write_fraction n @
     (if z \<and> off = 0 then [ascii CHR ''Z''] else write_offset off) @
     (case name of Some name \<Rightarrow> [ascii CHR ''[''] @ name @ [ascii CHR '']''] | None \<Rightarrow> [])"

lemma write_iso_text:
  "dt_parts dt = Some (y, m, d, h, mi, s, n) \<Longrightarrow>
   write_iso dt z zone = Some (iso_text y m d h mi s n z (dt_offset dt) (if zone then dt_timezone_name dt else None))"
  by (simp add: write_iso_def iso_text_def)

definition name_reads :: "tz_database \<Rightarrow> byte list \<Rightarrow> time_zone \<Rightarrow> bool" where
  "name_reads db name zone \<longleftrightarrow> ascii CHR '']'' \<notin> set name \<and> utf8_valid name \<and> tz_named db name = Ok zone"

lemma parse_offset_zulu: "parse_offset (ascii CHR ''Z'' # s) = Ok (Some 0, s)"
  by (simp add: parse_offset_def)

lemma parse_iso_text:
  assumes "- 9999 \<le> y" "y \<le> 9999" "civil_valid y m d" "0 \<le> h" "h \<le> 23" "0 \<le> mi" "mi \<le> 59" "0 \<le> s" "s \<le> 59" "0 \<le> n" "n < 1000000000"
    "\<bar>off\<bar> < 86400" "rel_option (name_reads db) name zone"
  shows "parse db (iso_text y m d h mi s n z off name) dz = assemble db y m d h mi s n zone (Some off) dz"
proof -
  define tail where "tail = (case name of Some name \<Rightarrow> [ascii CHR ''[''] @ name @ [ascii CHR '']''] | None \<Rightarrow> [])"
  define offset where "offset = (if z \<and> off = 0 then [ascii CHR ''Z''] else write_offset off)"
  have md: "1 \<le> m" "m \<le> 12" "1 \<le> d" "d \<le> 31" using assms(3) days_in_month_pos [of m y] by (auto simp: civil_valid_def)
  have zone: "parse_zone_annotation db tail = Ok (zone, [])"
  proof (cases name)
    case None
    then show ?thesis using assms(13) by (simp add: tail_def parse_zone_annotation_def)
  next
    case (Some nm)
    then obtain zn where "zone = Some zn" "name_reads db nm zn" using assms(13) by (cases zone) auto
    then show ?thesis using parse_zone_read [of nm db zn] Some by (simp add: tail_def name_reads_def)
  qed
  have "offset_end tail" by (simp add: tail_def offset_end_def split: option.split)
  then have off: "parse_offset (offset @ tail) = Ok (Some off, tail)"
    using parse_offset_read [OF assms(12), of tail] parse_offset_zulu [of tail] by (simp add: offset_def)
  have "\<not> peek_is (\<lambda>b. is_ascii_digit b \<or> b = ascii CHR ''.'' \<or> b = ascii CHR '','') (offset @ tail)"
    by (auto simp: offset_def write_offset_def sign_byte_def Let_def)
  note clock = parse_clock_read [OF assms(4-11) this]
  have date: "parse_year_month_day (write_year y @ write_month_day m d @ u) = Ok ((y, m, d), u)" for u
    by (rule parse_year_read [OF assms(1,2) md])
  have iso: "iso_text y m d h mi s n z off name =
      write_year y @ write_month_day m d @ ascii CHR ''T'' # write_clock h mi s @ write_fraction n @ offset @ tail"
    by (simp add: iso_text_def offset_def tail_def)
  show ?thesis unfolding parse_def iso date by (simp add: clock off zone p_done_def)
qed

section \<open>Reading a written value back\<close>

text \<open>
  The zone that a text names: an offset below 24 hours, and for a named zone a name that the database knows.
\<close>

definition zone_readable :: "tz_database \<Rightarrow> date_time \<Rightarrow> bool" where
  "zone_readable db dt \<longleftrightarrow> \<bar>dt_offset dt\<bar> < 86400 \<and>
     (case dt_zone dt of
        ZoneUtc \<Rightarrow> True
      | ZoneFixed offset \<Rightarrow> offset \<noteq> 0
      | ZoneNamed entry \<Rightarrow> name_reads db (ze_name entry) (ZoneNamed entry))"

text \<open>The same instant in UTC or at its offset, as a text without a zone tells it.\<close>

definition at_offset :: "date_time \<Rightarrow> date_time" where
  "at_offset dt = dt\<lparr>dt_zone := if dt_offset dt = 0 then ZoneUtc else ZoneFixed (dt_offset dt), dt_monotonic := None\<rparr>"

lemma from_raw_checked_ok:
  "dt_ok db dt \<Longrightarrow> dt_from_raw_checked db (dt_secs dt) (dt_nanos dt) (dt_zone dt) = Some (Ok (dt\<lparr>dt_monotonic := None\<rparr>))"
  by (cases dt) (auto simp: dt_from_raw_checked_def dt_ok_def)

lemma parse_text_none:
  assumes "dt_ok db dt" "dt_parts dt = Some (y, m, d, h, mi, s, n)" "short_year dt" "\<bar>dt_offset dt\<bar> < 86400"
  shows "parse db (iso_text y m d h mi s n z (dt_offset dt) None) dz = Some (Ok (at_offset dt))"
proof -
  note q = parts_local_seconds [OF assms(1,2)] and y = short_year_iff [OF assms(1,2), THEN iffD1, OF assms(3)]
  have n: "0 \<le> n" "n < 1000000000" using parts_fit [OF assms(1,2)] by simp_all
  have l: "\<bar>dt_secs dt + dt_offset dt\<bar> \<le> 2 ^ 43" using assms(3) by (auto simp: short_year_def secs_range)
  have "parse db (iso_text y m d h mi s n z (dt_offset dt) None) dz = assemble db y m d h mi s n None (Some (dt_offset dt)) dz"
    by (rule parse_iso_text) (use y q(2-8) n assms(4) in simp_all)
  also have "\<dots> = dt_from_raw_checked db (dt_secs dt) n (if dt_offset dt = 0 then ZoneUtc else ZoneFixed (dt_offset dt))"
    using assemble_local(2) [where n = n and off = "dt_offset dt" and db = db and dz = dz, OF q(2-8) _ q(9) l] n dt_ok_offset [OF assms(1)] by (simp add: NANOS_PER_SEC_def)
  also have "\<dots> = Some (Ok (at_offset dt))"
    using assms(1) q(1) by (cases dt) (auto simp: dt_from_raw_checked_def dt_ok_def at_offset_def)
  finally show ?thesis .
qed

lemma parse_text_named:
  assumes "dt_ok db dt" "dt_parts dt = Some (y, m, d, h, mi, s, n)" "short_year dt" "zone_readable db dt"
  shows "parse db (iso_text y m d h mi s n z (dt_offset dt) (dt_timezone_name dt)) dz = Some (Ok (dt\<lparr>dt_monotonic := None\<rparr>))"
proof (cases "dt_timezone_name dt")
  case None
  have "at_offset dt = dt\<lparr>dt_monotonic := None\<rparr>"
    using assms(1,4) None by (cases dt; cases "dt_zone dt") (auto simp: at_offset_def zone_readable_def dt_ok_def dt_timezone_name_def)
  then show ?thesis using parse_text_none [OF assms(1-3), of z dz] assms(4) None by (simp add: zone_readable_def)
next
  case (Some name)
  then obtain entry where e: "dt_zone dt = ZoneNamed entry" "name = ze_name entry" by (cases "dt_zone dt") (auto simp: dt_timezone_name_def)
  have r: "name_reads db name (dt_zone dt)" "\<bar>dt_offset dt\<bar> < 86400" using assms(4) e by (simp_all add: zone_readable_def)
  note q = parts_local_seconds [OF assms(1,2)] and y = short_year_iff [OF assms(1,2), THEN iffD1, OF assms(3)]
  have n: "0 \<le> n" "n < 1000000000" using parts_fit [OF assms(1,2)] by simp_all
  have l: "\<bar>dt_secs dt + dt_offset dt\<bar> \<le> 2 ^ 43" using assms(3) by (auto simp: short_year_def secs_range)
  have "parse db (iso_text y m d h mi s n z (dt_offset dt) (Some name)) dz =
      assemble db y m d h mi s n (Some (dt_zone dt)) (Some (dt_offset dt)) dz"
    by (rule parse_iso_text) (use y q(2-8) n r in simp_all)
  also have "\<dots> = dt_from_raw_checked db (dt_secs dt) n (dt_zone dt)"
    using assemble_local(1) [where n = n and off = "dt_offset dt" and db = db and zone = "dt_zone dt" and dz = dz, OF q(2-8) _ q(9) l] n dt_ok_offset [OF assms(1)] assms(1)
    by (simp add: NANOS_PER_SEC_def dt_ok_def)
  also have "\<dots> = Some (Ok (dt\<lparr>dt_monotonic := None\<rparr>))" using from_raw_checked_ok [OF assms(1)] q(1) by simp
  finally show ?thesis by (simp add: Some)
qed

lemma write_datetime_iso:
  assumes "dt_ok db dt" "dt_parts dt = Some (y, m, d, h, mi, s, n)" "pred_option utf8_valid (dt_timezone_name dt)"
  shows "write_datetime db dt = Some (Ok (iso_text y m d h mi s n True (dt_offset dt) (dt_timezone_name dt)))"
  using write_datetime_text [OF assms(1,3)] write_iso_text [OF assms(2), of True True] by (auto simp: write_format_def)

section \<open>The strict formats\<close>

lemma list_4: "length xs = 4 \<Longrightarrow> \<exists>a b c d. xs = [a, b, c, d]"
  by (cases xs; cases "tl xs"; cases "tl (tl xs)"; cases "tl (tl (tl xs))"; simp)

lemma list_2: "length xs = 2 \<Longrightarrow> \<exists>a b. xs = [a, b]"
  by (cases xs; cases "tl xs"; simp)

lemma pad_2:
  assumes "0 \<le> v" "v \<le> 99"
  shows "\<exists>a b. fmt_pad 2 v = [a, b] \<and> is_ascii_digit a \<and> is_ascii_digit b"
proof -
  obtain a b where ab: "fmt_pad 2 v = [a, b]" using list_2 [OF fmt_pad_length [of v 2]] assms by (auto simp: nat_less_iff)
  then show ?thesis using fmt_pad_digits [of _ 2 v] by simp
qed

lemma pad_4:
  assumes "0 \<le> v" "v \<le> 9999"
  shows "\<exists>a b c d. fmt_pad 4 v = [a, b, c, d] \<and> is_ascii_digit a \<and> is_ascii_digit b \<and> is_ascii_digit c \<and> is_ascii_digit d"
proof -
  obtain a b c d where "fmt_pad 4 v = [a, b, c, d]" using list_4 [OF fmt_pad_length [of v 4]] assms by (auto simp: nat_less_iff)
  then show ?thesis using fmt_pad_digits [of _ 4 v] by simp
qed

lemma slice_get_app [simp]: "slice_get (xs @ ys) (length xs + i) = slice_get ys i" "slice_get (xs @ ys) (length xs) = slice_get ys 0"
  by (simp_all add: slice_get_def nth_append)

lemma digits_at_app: "digits_at (xs @ ys) (length xs + a) (length xs + b) = digits_at ys a b"
proof -
  have "[length xs + a..<length xs + b] = map ((+) (length xs)) [a..<b]" by (rule nth_equalityI) simp_all
  then show ?thesis by (simp only: digits_at_def list.pred_map comp_def slice_get_app)
qed

lemma shape_tail_app: "shape_tail (xs @ ys) (length xs) = shape_tail ys 0"
proof -
  have *: "digits_at (xs @ ys) (Suc (length xs)) (length xs + 3) = digits_at ys 1 3" "digits_at (xs @ ys) (length xs + 4) (length xs + 6) = digits_at ys 4 6"
    using digits_at_app [of xs ys 1 3] digits_at_app [of xs ys 4 6] by simp_all
  show ?thesis by (simp add: shape_tail_def * nth_append split: option.split)
qed

lemma shape_tail_offset:
  assumes "\<bar>off\<bar> < 86400" "off mod 60 = 0"
  shows "shape_tail (if z \<and> off = 0 then [ascii CHR ''Z''] else write_offset off) 0"
proof -
  define m where "m = \<bar>off\<bar>"
  have m: "0 \<le> m" "m < 86400" using assms(1) by (simp_all add: m_def)
  have f: "0 \<le> m div 3600" "m div 3600 \<le> 99" "0 \<le> m mod 3600 div 60" "m mod 3600 div 60 \<le> 99" using m clock_split(4,5) [of m] by simp_all
  from pad_2 [OF f(1,2)] obtain a b where ab: "fmt_pad 2 (m div 3600) = [a, b]" "is_ascii_digit a" "is_ascii_digit b" by blast
  from pad_2 [OF f(3,4)] obtain c d where cd: "fmt_pad 2 (m mod 3600 div 60) = [c, d]" "is_ascii_digit c" "is_ascii_digit d" by blast
  have "m mod 60 = 0" using assms(2) by (auto simp: m_def abs_if zmod_zminus1_eq_if)
  then have w: "write_offset off = [sign_byte off, a, b, ascii CHR '':'', c, d]"
    by (simp add: write_offset_def m_def [symmetric] Let_def ab cd)
  show ?thesis unfolding w by (simp add: shape_tail_def slice_get_def sign_byte_def digits_at_def upt_rec ab cd)
qed

lemma fraction_digits: "n \<noteq> 0 \<Longrightarrow> \<exists>ds. write_fraction n = ascii CHR ''.'' # ds \<and> ds \<noteq> [] \<and> (\<forall>b \<in> set ds. is_ascii_digit b)"
proof -
  have "\<exists>ds. ascii CHR ''.'' # fmt_pad w v = ascii CHR ''.'' # ds \<and> ds \<noteq> [] \<and> (\<forall>b \<in> set ds. is_ascii_digit b)" if "0 < w" for w v
    using fmt_pad_digits [of _ w v] fmt_pad_head [OF that, of v] by auto
  then show "n \<noteq> 0 \<Longrightarrow> ?thesis" by (simp add: write_fraction_def del: list.inject)
qed

lemma rfc3339_shape_text:
  assumes "0 \<le> y" "y \<le> 9999" "0 \<le> m" "m \<le> 99" "0 \<le> d" "d \<le> 99" "0 \<le> h" "h \<le> 99" "0 \<le> mi" "mi \<le> 99" "0 \<le> s" "s \<le> 99"
    "\<bar>off\<bar> < 86400" "off mod 60 = 0"
  shows "rfc3339_shape (iso_text y m d h mi s n z off None)"
proof -
  define offset where "offset = (if z \<and> off = 0 then [ascii CHR ''Z''] else write_offset off)"
  from pad_4 [OF assms(1,2)] obtain a1 a2 a3 a4 where y: "fmt_pad 4 y = [a1, a2, a3, a4]" "is_ascii_digit a1" "is_ascii_digit a2" "is_ascii_digit a3" "is_ascii_digit a4" by blast
  from pad_2 [OF assms(3,4)] obtain b1 b2 where m: "fmt_pad 2 m = [b1, b2]" "is_ascii_digit b1" "is_ascii_digit b2" by blast
  from pad_2 [OF assms(5,6)] obtain c1 c2 where d: "fmt_pad 2 d = [c1, c2]" "is_ascii_digit c1" "is_ascii_digit c2" by blast
  from pad_2 [OF assms(7,8)] obtain d1 d2 where h: "fmt_pad 2 h = [d1, d2]" "is_ascii_digit d1" "is_ascii_digit d2" by blast
  from pad_2 [OF assms(9,10)] obtain e1 e2 where mi: "fmt_pad 2 mi = [e1, e2]" "is_ascii_digit e1" "is_ascii_digit e2" by blast
  from pad_2 [OF assms(11,12)] obtain f1 f2 where s: "fmt_pad 2 s = [f1, f2]" "is_ascii_digit f1" "is_ascii_digit f2" by blast
  define pre where "pre = [a1, a2, a3, a4, ascii CHR ''-'', b1, b2, ascii CHR ''-'', c1, c2, ascii CHR ''T'', d1, d2, ascii CHR '':'', e1, e2, ascii CHR '':'', f1, f2]"
  define rest where "rest = write_fraction n @ offset"
  have iso: "iso_text y m d h mi s n z off None = pre @ rest"
    using assms(1,2) by (simp add: iso_text_def write_year_def write_month_day_def write_clock_def y m d h mi s pre_def rest_def offset_def)
  have nth: "length pre = 19" "pre ! 4 = ascii CHR ''-''" "pre ! 7 = ascii CHR ''-''" "pre ! 10 = ascii CHR ''T''" "pre ! 13 = ascii CHR '':''" "pre ! 16 = ascii CHR '':''"
    by (simp_all add: pre_def)
  have slices: "slice_get (pre @ rest) i = Some (pre ! i)" if "i < 19" for i using that nth(1) by (simp add: slice_get_def nth_append)
  have digits: "digits_at (pre @ rest) 0 4" "digits_at (pre @ rest) 5 7" "digits_at (pre @ rest) 8 10" "digits_at (pre @ rest) 11 13"
    "digits_at (pre @ rest) 14 16" "digits_at (pre @ rest) 17 19"
    using y m d h mi s by (simp_all add: digits_at_def slices upt_rec) (simp_all add: pre_def)
  have tail: "shape_tail offset 0" unfolding offset_def by (rule shape_tail_offset [OF assms(13,14)])
  have nonempty: "offset \<noteq> []" "offset ! 0 \<noteq> ascii CHR ''.''" "\<not> is_ascii_digit (offset ! 0)" by (auto simp: offset_def write_offset_def sign_byte_def Let_def)
  have len: "\<not> length (pre @ rest) < 20" using nth(1) nonempty(1) by (cases offset) (simp_all add: rest_def)
  have at: "(pre @ rest) ! i = pre ! i" if "i < 19" for i using that nth(1) by (simp add: nth_append)
  have "rfc3339_shape (pre @ rest) =
      (if (pre @ rest) ! 19 = ascii CHR ''.'' then
         let index = 20 + length (takeWhile is_ascii_digit (drop 20 (pre @ rest))) in if index = 20 then False else shape_tail (pre @ rest) index
       else shape_tail (pre @ rest) 19)"
    using digits len by (simp only: rfc3339_shape_def at nth) simp
  moreover have "(pre @ rest) ! 19 = rest ! 0" "drop 20 (pre @ rest) = tl rest" using nth(1) by (simp_all add: nth_append drop_Suc)
  moreover have "shape_tail (pre @ rest) 19" if "write_fraction n = []" using shape_tail_app [of pre rest] tail that nth(1) by (simp add: rest_def)
  moreover have "rest ! 0 = offset ! 0" if "write_fraction n = []" using that by (simp add: rest_def)
  moreover have "length (takeWhile is_ascii_digit (tl rest)) = length ds \<and> shape_tail (pre @ rest) (20 + length ds) \<and> rest ! 0 = ascii CHR ''.''"
    if "write_fraction n = ascii CHR ''.'' # ds" "\<forall>b \<in> set ds. is_ascii_digit b" for ds
  proof -
    have "takeWhile is_ascii_digit (ds @ offset) = ds" using takeWhile_digits(1) [of ds offset] that(2) nonempty by (cases offset) auto
    then show ?thesis using shape_tail_app [of "pre @ ascii CHR ''.'' # ds" offset] tail that(1) nth(1) by (simp add: rest_def)
  qed
  ultimately show ?thesis unfolding iso using fraction_digits [of n] nonempty(2) by (cases "n = 0") (auto simp: Let_def write_fraction_def)
qed

section \<open>RFC 2822 and HTTP dates\<close>

lemma digit_word: "is_ascii_digit b \<Longrightarrow> b - ascii CHR ''0'' < 10 \<and> uint (b - ascii CHR ''0'') = int (digit_val b)"
  using digit_val_less [of b] by (simp add: digit_val_def word_less_nat_alt)

lemma decimal_loop_digits:
  "\<forall>b \<in> set ds. is_ascii_digit b \<Longrightarrow> decimal_loop val ds = Ok (val * 10 ^ length ds + int (digits_val ds))"
proof (induction ds arbitrary: val)
  case (Cons b ds)
  then show ?case using digit_word [of b] by (simp add: Let_def digits_val_cons algebra_simps flip: not_less)
qed simp

lemma four_digits_loop_digits:
  "\<forall>b \<in> set ds. is_ascii_digit b \<Longrightarrow> four_digits_loop val ds = Ok (val * 10 ^ length ds + int (digits_val ds))"
proof (induction ds arbitrary: val)
  case (Cons b ds)
  then show ?case using digit_word [of b] by (simp add: one_digit_def Let_def digits_val_cons algebra_simps)
qed simp

lemma parse_decimal_pad:
  assumes "0 \<le> v" "nat v < 10 ^ w" "0 < w" "lo \<le> w" "w \<le> hi"
  shows "parse_decimal (fmt_pad w v) lo hi = Ok v"
  using decimal_loop_digits [of "fmt_pad w v" 0] fmt_pad_digits [of _ w v] fmt_pad_length [OF assms(2,3)] assms fmt_pad_val [of w v]
  by (simp add: parse_decimal_def)

lemma four_digits_pad: "0 \<le> v \<Longrightarrow> v \<le> 9999 \<Longrightarrow> four_digits (fmt_pad 4 v) = Ok v"
  using four_digits_loop_digits [of "fmt_pad 4 v" 0] fmt_pad_digits [of _ 4 v] fmt_pad_length [of v 4] fmt_pad_val [of 4 v]
  by (simp add: four_digits_def nat_less_iff)

lemma two_digits_pad:
  assumes "0 \<le> v" "v \<le> 99"
  shows "two_digits (fmt_pad 2 v) = Ok v"
proof -
  from pad_2 [OF assms] obtain a b where ab: "fmt_pad 2 v = [a, b]" "is_ascii_digit a" "is_ascii_digit b" by blast
  have "int (digit_val a) * 10 + int (digit_val b) = v" using fmt_pad_val [of 2 v] assms(1) ab(1) digits_val_cons [of b "[]"] by (simp add: digits_val_cons)
  then show ?thesis using digit_word [OF ab(2)] digit_word [OF ab(3)] by (simp add: ab(1) two_digits_def one_digit_def)
qed

lemma months_read:
  "list_all (\<lambda>m. month_from_abbrev (month_short m) = Ok m \<and> length (month_short m) = 3 \<and>
     list_all (\<lambda>b. is_ascii b \<and> \<not> is_ascii_whitespace b) (month_short m)) [1..12]"
  by code_simp

lemma month_short_cases:
  assumes "1 \<le> m" "m \<le> 12"
  shows "month_from_abbrev (month_short m) = Ok m" "length (month_short m) = 3" "list_all (\<lambda>b. is_ascii b \<and> \<not> is_ascii_whitespace b) (month_short m)"
  using months_read assms by (simp_all add: list_all_iff)

lemma weekday_short_cases:
  "validate_weekday_short (ascii_bytes (weekday_short_name w)) = Ok ()" "validate_weekday_long (ascii_bytes (weekday_short_name w)) = Ok ()"
  "length (weekday_short_name w) = 3" "list_all (\<lambda>b. is_ascii b \<and> \<not> is_ascii_whitespace b) (ascii_bytes (weekday_short_name w))"
  by (cases w; simp add: validate_weekday_short_def validate_weekday_long_def is_ascii_def is_ascii_whitespace_def)+

text \<open>The part that RFC 2822 and HTTP dates have in common.\<close>

definition mail_text :: "weekday \<Rightarrow> int \<Rightarrow> int \<Rightarrow> int \<Rightarrow> int \<Rightarrow> int \<Rightarrow> int \<Rightarrow> byte list \<Rightarrow> byte list" where
  "mail_text w y m d h mi s suffix =
     ascii_bytes (weekday_short_name w) @ ascii_bytes '', '' @ fmt_pad 2 d @ [ascii CHR '' ''] @ month_short m @
     [ascii CHR '' ''] @ fmt_pad 4 y @ [ascii CHR '' ''] @ write_clock h mi s @ [ascii CHR '' ''] @ suffix"

lemma list_3: "length xs = 3 \<Longrightarrow> \<exists>a b c. xs = [a, b, c]"
  by (cases xs; cases "tl xs"; cases "tl (tl xs)"; simp)

lemma digit_plain: "is_ascii_digit b \<Longrightarrow> is_ascii b \<and> \<not> is_ascii_whitespace b \<and> b \<noteq> ascii CHR '':'' \<and> b \<noteq> ascii CHR '',''"
  by (auto simp: is_ascii_digit_def is_ascii_def is_ascii_whitespace_def word_le_nat_alt word_less_nat_alt)

lemma ascii_str_plain: "list_all is_ascii xs \<Longrightarrow> ascii_str xs = Ok xs"
  using utf8_valid_ascii [of xs] by (simp add: ascii_str_def from_utf8_valid [THEN iffD2] list_all_iff)

lemma trim_prefix_stays: "\<forall>w \<in> set ws. w = [] \<or> hd w \<noteq> b \<Longrightarrow> trim_prefix ws (b # s) = b # s"
proof -
  assume "\<forall>w \<in> set ws. w = [] \<or> hd w \<noteq> b"
  then have "find (\<lambda>w. w \<noteq> [] \<and> take (length w) (b # s) = w) ws = None"
    unfolding find_None_iff by (auto simp: neq_Nil_conv)
  then show ?thesis by (simp add: trim_prefix.simps)
qed

lemma white_space_starts:
  "b \<notin> {9, 10, 11, 12, 13, 32, 0xC2, 0xE1, 0xE2, 0xE3} \<Longrightarrow> trim_prefix WHITE_SPACE (b # s) = b # s"
  "trim_prefix (map rev WHITE_SPACE) (ascii CHR ''T'' # s) = ascii CHR ''T'' # s"
  by (rule trim_prefix_stays; simp add: WHITE_SPACE_def)+

lemma weekday_first: "\<exists>b s. ascii_bytes (weekday_short_name w) = b # s \<and> b \<in> {0x46, 0x4D, 0x53, 0x54, 0x57}"
  by (cases w) simp_all

lemma str_trim_http: "str_trim (mail_text w y m d h mi s (ascii_bytes ''GMT'')) = mail_text w y m d h mi s (ascii_bytes ''GMT'')"
proof -
  obtain b u where b: "mail_text w y m d h mi s (ascii_bytes ''GMT'') = b # u" "b \<in> {0x46, 0x4D, 0x53, 0x54, 0x57}"
    using weekday_first [of w] by (auto simp: mail_text_def)
  have e: "\<exists>v. rev (b # u) = ascii CHR ''T'' # v" unfolding b(1) [symmetric] by (simp add: mail_text_def)
  have "trim_prefix WHITE_SPACE (b # u) = b # u" using b(2) by (intro white_space_starts) auto
  then show ?thesis using e white_space_starts(2) unfolding str_trim_def b(1) by (metis rev_rev_ident)
qed

text \<open>The fields of the common part, as separate lists of bytes.\<close>

lemma mail_fields:
  assumes "0 \<le> y" "y \<le> 9999" "civil_valid y m d" "0 \<le> h" "h \<le> 23" "0 \<le> mi" "mi \<le> 59" "0 \<le> s" "s \<le> 59"
  shows "1 \<le> m" "m \<le> 12" "1 \<le> d" "d \<le> 31"
    "length (fmt_pad 4 y) = 4" "length (fmt_pad 2 d) = 2" "length (fmt_pad 2 h) = 2" "length (fmt_pad 2 mi) = 2" "length (fmt_pad 2 s) = 2"
proof -
  show "1 \<le> m" "m \<le> 12" "1 \<le> d" "d \<le> 31" using assms(3) days_in_month_pos [of m y] by (auto simp: civil_valid_def)
  then show "length (fmt_pad 4 y) = 4" "length (fmt_pad 2 d) = 2" "length (fmt_pad 2 h) = 2" "length (fmt_pad 2 mi) = 2" "length (fmt_pad 2 s) = 2"
    using assms by (simp_all add: fmt_pad_length nat_less_iff)
qed

lemma byte_range_app:
  "length xs = a \<Longrightarrow> length ys = b - a \<Longrightarrow> a \<le> b \<Longrightarrow> byte_range (xs @ ys @ zs) a b = ys"
  by (simp add: byte_range_def)

lemma imf_fixdate_read:
  assumes "0 \<le> y" "y \<le> 9999" "civil_valid y m d" "0 \<le> h" "h \<le> 23" "0 \<le> mi" "mi \<le> 59" "0 \<le> s" "s \<le> 59"
  shows "imf_fixdate_fields (mail_text w y m d h mi s (ascii_bytes ''GMT'')) = Ok (y, m, d, h, mi, s)"
proof -
  note f = mail_fields [OF assms]
  obtain w1 w2 w3 where w: "ascii_bytes (weekday_short_name w) = [w1, w2, w3]" using list_3 [of "ascii_bytes (weekday_short_name w)"] weekday_short_cases(3) [of w]
    by (auto simp: ascii_bytes_def)
  obtain m1 m2 m3 where m: "month_short m = [m1, m2, m3]" using list_3 [OF month_short_cases(2) [OF f(1,2)]] by blast
  obtain y1 y2 y3 y4 where y: "fmt_pad 4 y = [y1, y2, y3, y4]" using list_4 [OF f(5)] by blast
  obtain d1 d2 where d: "fmt_pad 2 d = [d1, d2]" using list_2 [OF f(6)] by blast
  obtain h1 h2 where h: "fmt_pad 2 h = [h1, h2]" using list_2 [OF f(7)] by blast
  obtain i1 i2 where i: "fmt_pad 2 mi = [i1, i2]" using list_2 [OF f(8)] by blast
  obtain s1 s2 where s: "fmt_pad 2 s = [s1, s2]" using list_2 [OF f(9)] by blast
  have bytes: "mail_text w y m d h mi s (ascii_bytes ''GMT'') =
      [w1, w2, w3, 44, 32, d1, d2, 32, m1, m2, m3, 32, y1, y2, y3, y4, 32, h1, h2, 58, i1, i2, 58, s1, s2, 32, 71, 77, 84]"
    by (simp add: mail_text_def write_clock_def w m y d h i s)
  have ascii: "ascii_str [w1, w2, w3] = Ok [w1, w2, w3]" "ascii_str [m1, m2, m3] = Ok [m1, m2, m3]"
    using ascii_str_plain [of "[w1, w2, w3]"] ascii_str_plain [of "[m1, m2, m3]"] weekday_short_cases(4) [of w] month_short_cases(3) [OF f(1,2)] by (simp_all add: w m)
  have "two_digits [d1, d2] = Ok d" "two_digits [h1, h2] = Ok h" "two_digits [i1, i2] = Ok mi" "two_digits [s1, s2] = Ok s" "four_digits [y1, y2, y3, y4] = Ok y"
    "month_from_abbrev [m1, m2, m3] = Ok m" "validate_weekday_short [w1, w2, w3] = Ok ()"
    using two_digits_pad [of d] two_digits_pad [of h] two_digits_pad [of mi] two_digits_pad [of s] four_digits_pad [of y] f(3,4) assms(1,2,4-9)
      month_short_cases(1) [OF f(1,2)] weekday_short_cases(1) [of w]
    by (simp_all add: d h i s y m w)
  then show ?thesis unfolding bytes using ascii by (simp add: imf_fixdate_fields_def byte_range_def)
qed

lemma eq_ignore_length: "length a \<noteq> length b \<Longrightarrow> \<not> eq_ignore_ascii_case a b"
  unfolding eq_ignore_ascii_case_def by (metis length_map)

lemma rfc2822_zone_read:
  assumes "\<bar>off\<bar> < 86400" "off mod 60 = 0"
  shows "parse_rfc2822_zone (write_offset_compact off) = Ok off" "\<forall>b \<in> set (write_offset_compact off). \<not> is_ascii_whitespace b"
    "write_offset_compact off \<noteq> []"
proof -
  define m where "m = \<bar>off\<bar>"
  have m: "0 \<le> m" "m < 86400" using assms(1) by (simp_all add: m_def)
  have f: "0 \<le> m div 3600" "m div 3600 \<le> 23" "0 \<le> m mod 3600 div 60" "m mod 3600 div 60 \<le> 59" using m clock_split(4,5) [of m] by simp_all
  from pad_2 [of "m div 3600"] f obtain a b where ab: "fmt_pad 2 (m div 3600) = [a, b]" "is_ascii_digit a" "is_ascii_digit b" by auto
  from pad_2 [of "m mod 3600 div 60"] f obtain c d where cd: "fmt_pad 2 (m mod 3600 div 60) = [c, d]" "is_ascii_digit c" "is_ascii_digit d" by auto
  have w: "write_offset_compact off = [sign_byte off, a, b, c, d]" by (simp add: write_offset_compact_def m_def [symmetric] Let_def ab cd)
  have d: "two_digits [a, b] = Ok (m div 3600)" "two_digits [c, d] = Ok (m mod 3600 div 60)"
    using two_digits_pad [of "m div 3600"] two_digits_pad [of "m mod 3600 div 60"] f by (simp_all add: ab cd)
  have "m mod 60 = 0" using assms(2) by (auto simp: m_def abs_if zmod_zminus1_eq_if)
  moreover have "m mod 3600 mod 60 = m mod 60" by (rule mod_mod_cancel) simp
  ultimately have total: "m div 3600 * 3600 + m mod 3600 div 60 * 60 = m"
    using div_mult_mod_eq [of m 3600] div_mult_mod_eq [of "m mod 3600" 60] by linarith
  have sign: "sign_byte off = ascii CHR ''+'' \<or> sign_byte off = ascii CHR ''-''" "sign_byte off = ascii CHR ''-'' \<longleftrightarrow> off < 0" by (simp_all add: sign_byte_def)
  have off: "(if off < 0 then - m else m) = off" by (simp add: m_def)
  have names: "\<not> eq_ignore_ascii_case [sign_byte off, a, b, c, d] (ascii_bytes n)" if "length n < 5" for n
    using that by (intro eq_ignore_length) (simp add: ascii_bytes_def)
  show "parse_rfc2822_zone (write_offset_compact off) = Ok off"
    unfolding w parse_rfc2822_zone_def using sign f by (simp add: names d total off del: ascii_bytes_simps ascii_simps)
  show "\<forall>b \<in> set (write_offset_compact off). \<not> is_ascii_whitespace b" "write_offset_compact off \<noteq> []"
    using ab cd by (auto simp: w digit_plain sign_byte_def is_ascii_whitespace_def dest: digit_plain)
qed

lemma parse_hms_read:
  assumes "0 \<le> h" "h \<le> 23" "0 \<le> mi" "mi \<le> 59" "0 \<le> s" "s \<le> 59"
  shows "parse_hms (write_clock h mi s) = Ok (h, mi, s)" "\<forall>b \<in> set (write_clock h mi s). \<not> is_ascii_whitespace b"
proof -
  have colon: "\<forall>b \<in> set (fmt_pad 2 v). b \<noteq> ascii CHR '':''" for v using fmt_pad_digits [of _ 2 v] digit_plain by blast
  have split: "split_on (\<lambda>b. b = ascii CHR '':'') (write_clock h mi s) = [fmt_pad 2 h, fmt_pad 2 mi, fmt_pad 2 s]"
    by (simp add: write_clock_def split_on_append [OF colon] split_on_free [OF colon] del: ascii_simps)
  have "parse_decimal (fmt_pad 2 h) 1 2 = Ok h" "parse_decimal (fmt_pad 2 mi) 2 2 = Ok mi" "parse_decimal (fmt_pad 2 s) 2 2 = Ok s"
    using assms by (simp_all add: parse_decimal_pad nat_less_iff)
  then show "parse_hms (write_clock h mi s) = Ok (h, mi, s)"
    unfolding parse_hms_def split using assms by (simp add: next_token_def as_unsigned_def)
  show "\<forall>b \<in> set (write_clock h mi s). \<not> is_ascii_whitespace b"
    using fmt_pad_digits [of _ 2 h] fmt_pad_digits [of _ 2 mi] fmt_pad_digits [of _ 2 s] digit_plain by (auto simp: write_clock_def is_ascii_whitespace_def)
qed

lemma rfc2822_fields_read:
  assumes "0 \<le> y" "y \<le> 9999" "civil_valid y m d" "0 \<le> h" "h \<le> 23" "0 \<le> mi" "mi \<le> 59" "0 \<le> s" "s \<le> 59" "\<bar>off\<bar> < 86400" "off mod 60 = 0"
  shows "rfc2822_fields (mail_text w y m d h mi s (write_offset_compact off)) = Ok (y, m, d, h, mi, s, off)"
proof -
  note f = mail_fields [OF assms(1-9)] and z = rfc2822_zone_read [OF assms(10,11)] and hms = parse_hms_read [OF assms(4-9)]
  let ?wd = "ascii_bytes (weekday_short_name w) @ [ascii CHR '','']"
  have plain: "\<forall>b \<in> set (fmt_pad k v). \<not> is_ascii_whitespace b" for k v using fmt_pad_digits [of _ k v] digit_plain by blast
  have names: "\<forall>b \<in> set ?wd. \<not> is_ascii_whitespace b" "\<forall>b \<in> set (month_short m). \<not> is_ascii_whitespace b"
    using weekday_short_cases(4) [of w] month_short_cases(3) [OF f(1,2)] by (auto simp: list_all_iff is_ascii_whitespace_def)
  have sp: "is_ascii_whitespace (ascii CHR '' '')" by (simp add: is_ascii_whitespace_def)
  have eq: "mail_text w y m d h mi s (write_offset_compact off) = ?wd @ ascii CHR '' '' # fmt_pad 2 d @ ascii CHR '' '' # month_short m @ ascii CHR '' '' #
      fmt_pad 4 y @ ascii CHR '' '' # write_clock h mi s @ ascii CHR '' '' # write_offset_compact off"
    by (simp add: mail_text_def)
  have "split_on is_ascii_whitespace (mail_text w y m d h mi s (write_offset_compact off)) =
      [?wd, fmt_pad 2 d, month_short m, fmt_pad 4 y, write_clock h mi s, write_offset_compact off]"
    unfolding eq split_on_append [OF names(1) sp] split_on_append [OF names(2) sp] split_on_append [OF plain sp] split_on_append [OF hms(2) sp]
      split_on_free [OF z(2)] ..
  moreover have "fmt_pad 2 d \<noteq> []" "month_short m \<noteq> []" "fmt_pad 4 y \<noteq> []" "write_clock h mi s \<noteq> []"
    using f(5,6) month_short_cases(2) [OF f(1,2)] by (auto simp: write_clock_def)
  ultimately have tokens: "split_ascii_whitespace (mail_text w y m d h mi s (write_offset_compact off)) =
      [?wd, fmt_pad 2 d, month_short m, fmt_pad 4 y, write_clock h mi s, write_offset_compact off]"
    using z(3) by (simp add: split_ascii_whitespace_def)
  have dec: "parse_decimal (fmt_pad 2 d) 1 2 = Ok d" "parse_rfc2822_year (fmt_pad 4 y) = Ok y"
    using parse_decimal_pad [of d 2 1 2] parse_decimal_pad [of y 4 2 4] f(3-5) assms(1,2) by (simp_all add: nat_less_iff parse_rfc2822_year_def)
  show ?thesis unfolding rfc2822_fields_def tokens
    using dec z(1) hms(1) month_short_cases(1) [OF f(1,2)] weekday_short_cases(2) [of w] f(3,4) by (simp add: next_token_def as_unsigned_def)
qed

section \<open>Properties\<close>

text \<open>What is left of a value in each format: its zone, its offset, whole seconds, a day, a time of day.\<close>

definition read_back :: "time_format \<Rightarrow> date_time \<Rightarrow> date_time" where
  "read_back format dt =
     (case format of
        Rfc9557 \<Rightarrow> dt\<lparr>dt_monotonic := None\<rparr>
      | Rfc3339 \<Rightarrow> at_offset dt
      | Iso8601 \<Rightarrow> at_offset dt
      | Rfc2822 \<Rightarrow> (at_offset dt)\<lparr>dt_nanos := 0\<rparr>
      | HttpDate \<Rightarrow> dt_from_raw (dt_secs dt) 0 0 ZoneUtc
      | DateOnly \<Rightarrow> dt_from_raw ((dt_secs dt + dt_offset dt) div 86400 * 86400) 0 0 ZoneUtc
      | TimeOnly \<Rightarrow> dt_from_raw ((dt_secs dt + dt_offset dt) mod 86400) (dt_nanos dt) 0 ZoneUtc)"

definition YEAR_0 :: int where
  "YEAR_0 = days_from_civil 0 1 1 * 86400"

definition format_readable :: "tz_database \<Rightarrow> time_format \<Rightarrow> date_time \<Rightarrow> bool" where
  "format_readable db format dt \<longleftrightarrow>
     (case format of
        Rfc9557 \<Rightarrow> zone_readable db dt \<and> pred_option (\<lambda>name. ascii CHR ''['' \<notin> set name) (dt_timezone_name dt)
      | HttpDate \<Rightarrow> YEAR_0 \<le> dt_secs dt
      | DateOnly \<Rightarrow> True
      | TimeOnly \<Rightarrow> True
      | _ \<Rightarrow> \<bar>dt_offset dt\<bar> < 86400)"

lemma year_0: "YEAR_0 = - 62167219200"
  unfolding YEAR_0_def by code_simp

lemma parts_year_0:
  assumes "dt_ok db dt" "dt_parts dt = Some (y, m, d, h, mi, s, n)" "YEAR_0 \<le> dt_secs dt + dt_offset dt"
  shows "0 \<le> y"
proof (rule ccontr)
  note q = parts_local_seconds [OF assms(1,2)]
  assume "\<not> 0 \<le> y"
  then have "days_from_civil y m d < days_from_civil 0 1 1"
    using year_position(2) [OF q(2)] year_start_mono [of "y + 1" 0] by linarith
  then have "days_from_civil y m d * 86400 + 86400 \<le> YEAR_0" by (simp add: YEAR_0_def)
  then show False using q(4,6,8,9) assms(3) by linarith
qed

text \<open>A local time without a zone or an offset is read as UTC.\<close>

lemma assemble_utc_local:
  assumes "civil_valid y m d" "0 \<le> h" "h \<le> 23" "0 \<le> mi" "mi \<le> 59" "0 \<le> s" "s \<le> 59" "0 \<le> n" "n < NANOS_PER_SEC"
    "l = days_from_civil y m d * 86400 + h * 3600 + mi * 60 + s" "MIN_SECS \<le> l" "l \<le> MAX_SECS"
  shows "assemble db y m d h mi s n None None None = Some (Ok (dt_from_raw l n 0 ZoneUtc))"
    "assemble db y m d h mi s n None (Some 0) dz = Some (Ok (dt_from_raw l n 0 ZoneUtc))"
proof -
  have local: "days_from_civil y m d * SECS_PER_DAY + h * 3600 + mi * 60 + s = l" using assms(10) by (simp add: SECS_PER_DAY_def)
  have guards: "1 \<le> m \<and> m \<le> 12" "\<not> (d < 1 \<or> d > days_in_month y m)" "\<not> h > 23" "\<not> mi > 59" "s \<noteq> 60" "\<not> s > 59" "\<not> n \<ge> NANOS_PER_SEC"
    using assms(1-9) by (auto simp: civil_valid_def)
  have checked: "dt_from_raw_checked db l n ZoneUtc = Some (Ok (dt_from_raw l n 0 ZoneUtc))"
    using assms(11,12) by (simp add: dt_from_raw_checked_def dt_from_raw_def)
  show "assemble db y m d h mi s n None None None = Some (Ok (dt_from_raw l n 0 ZoneUtc))"
    unfolding assemble_def Let_def if_not_P [OF guards(2)] if_not_P [OF guards(3)] if_not_P [OF guards(4)] if_not_P [OF guards(5)]
      if_not_P [OF guards(6)] if_not_P [OF guards(7)] local
    using guards(1) checked by (simp add: resolve_compatible_def)
  show "assemble db y m d h mi s n None (Some 0) dz = Some (Ok (dt_from_raw l n 0 ZoneUtc))"
    using assemble_local(2) [where off = 0 and db = db and dz = dz and n = n, OF assms(1-7,9,10)] range_small [OF assms(11,12)] checked
    by (simp add: OFFSET_LIMIT_def)
qed

lemma strict_iso:
  assumes "dt_ok db dt" "dt_parts dt = Some (y, m, d, h, mi, s, n)" "0 \<le> y" "y \<le> 9999" "dt_offset dt mod 60 = 0" "\<bar>dt_offset dt\<bar> < 86400"
  shows "parse_rfc3339_strict db (iso_text y m d h mi s n z (dt_offset dt) None) = Some (Ok (at_offset dt))"
    "rfc3339_shape (iso_text y m d h mi s n z (dt_offset dt) None)"
proof -
  note q = parts_local_seconds [OF assms(1,2)]
  show shape: "rfc3339_shape (iso_text y m d h mi s n z (dt_offset dt) None)"
    by (rule rfc3339_shape_text) (use assms(3-6) q(2-8) parts_fit [OF assms(1,2)] in \<open>simp_all add: civil_valid_def\<close>)
  have "short_year dt" using short_year_iff [OF assms(1,2)] assms(3,4) by simp
  then show "parse_rfc3339_strict db (iso_text y m d h mi s n z (dt_offset dt) None) = Some (Ok (at_offset dt))"
    using shape parse_text_none [OF assms(1,2) _ assms(6)] by (simp add: parse_rfc3339_strict_def)
qed

lemma iso_text_no_bracket: "ascii CHR ''['' \<notin> set (iso_text y m d h mi s n z off None)"
proof -
  have "ascii CHR ''['' \<notin> set (fmt_pad w v)" "ascii CHR ''['' \<notin> set (show_nat k)" for w v k
    using fmt_pad_digits [of "ascii CHR ''[''" w v] show_nat_digits [of "ascii CHR ''[''" k] by auto
  then show ?thesis
    by (auto simp: iso_text_def write_year_def write_month_day_def write_clock_def write_fraction_def write_offset_def sign_byte_def Let_def)
qed

lemma before_last_none: "c \<notin> set xs \<Longrightarrow> before_last c xs = None"
proof -
  assume "c \<notin> set xs"
  then have "dropWhile (\<lambda>b. b \<noteq> c) (rev xs) = []" by auto
  then show ?thesis by (simp only: before_last_def list.case)
qed

lemma before_last_some: "c \<notin> set ys \<Longrightarrow> before_last c (xs @ c # ys) = Some xs"
proof -
  assume "c \<notin> set ys"
  then have "dropWhile (\<lambda>b. b \<noteq> c) (rev ys @ c # rev xs) = c # rev xs" by (subst dropWhile_append2) auto
  then show ?thesis by (simp add: before_last_def)
qed

lemma strict_rfc9557:
  assumes "dt_ok db dt" "dt_parts dt = Some (y, m, d, h, mi, s, n)" "0 \<le> y" "y \<le> 9999" "dt_offset dt mod 60 = 0"
    "zone_readable db dt" "pred_option (\<lambda>name. ascii CHR ''['' \<notin> set name) (dt_timezone_name dt)"
  shows "parse_rfc9557_strict db (iso_text y m d h mi s n z (dt_offset dt) (dt_timezone_name dt)) = Some (Ok (dt\<lparr>dt_monotonic := None\<rparr>))"
proof -
  define pre where "pre = iso_text y m d h mi s n z (dt_offset dt) None"
  have "\<bar>dt_offset dt\<bar> < 86400" using assms(6) by (simp add: zone_readable_def)
  note shape = strict_iso(2) [OF assms(1-5) this, of z, folded pre_def]
  have "short_year dt" using short_year_iff [OF assms(1,2)] assms(3,4) by simp
  note p = parse_text_named [OF assms(1,2) this assms(6), of z None]
  show ?thesis
  proof (cases "dt_timezone_name dt")
    case None
    then show ?thesis using p shape before_last_none [OF iso_text_no_bracket [of y m d h mi s n z "dt_offset dt"]]
      by (simp add: parse_rfc9557_strict_def pre_def)
  next
    case (Some name)
    have "iso_text y m d h mi s n z (dt_offset dt) (Some name) = pre @ ascii CHR ''['' # name @ [ascii CHR '']'']"
      by (simp add: iso_text_def pre_def)
    then show ?thesis using p shape before_last_some [of "ascii CHR ''[''" "name @ [ascii CHR '']'']" pre] assms(7)
      by (simp add: parse_rfc9557_strict_def Some)
  qed
qed

lemma read_mail:
  assumes "dt_ok db dt" "dt_parts dt = Some (y, m, d, h, mi, s, n)" "0 \<le> y" "y \<le> 9999" "dt_offset dt mod 60 = 0" "\<bar>dt_offset dt\<bar> < 86400"
  shows "parse_rfc2822 db (mail_text w y m d h mi s (write_offset_compact (dt_offset dt))) = Some (Ok ((at_offset dt)\<lparr>dt_nanos := 0\<rparr>))"
proof -
  note q = parts_local_seconds [OF assms(1,2)]
  have "short_year dt" using short_year_iff [OF assms(1,2)] assms(3,4) by simp
  then have l: "\<bar>dt_secs dt + dt_offset dt\<bar> \<le> 2 ^ 43" by (auto simp: short_year_def secs_range)
  have "parse_rfc2822 db (mail_text w y m d h mi s (write_offset_compact (dt_offset dt))) =
      dt_from_raw_checked db (dt_secs dt) 0 (if dt_offset dt = 0 then ZoneUtc else ZoneFixed (dt_offset dt))"
    unfolding parse_rfc2822_def rfc2822_fields_read [OF assms(3,4) q(2-8) assms(6,5)]
    using assemble_local(2) [where n = 0 and off = "dt_offset dt" and db = db and dz = None, OF q(2-8) _ q(9) l] dt_ok_offset [OF assms(1)]
    by (simp add: NANOS_PER_SEC_def)
  then show ?thesis using assms(1) by (cases dt) (auto simp: dt_from_raw_checked_def dt_ok_def at_offset_def)
qed

lemma read_http:
  assumes "dt_ok db dt" "dt_offset dt = 0" "dt_parts dt = Some (y, m, d, h, mi, s, n)" "YEAR_0 \<le> dt_secs dt"
  shows "parse_http db (mail_text w y m d h mi s (ascii_bytes ''GMT'')) = Some (Ok (dt_from_raw (dt_secs dt) 0 0 ZoneUtc))"
    "write_year y = fmt_pad 4 y"
proof -
  note q = parts_local_seconds [OF assms(1,3)]
  have r: "MIN_SECS \<le> dt_secs dt" "dt_secs dt \<le> MAX_SECS" using assms(1) by (simp_all add: dt_ok_def)
  have y: "0 \<le> y" "y \<le> 9999" using parts_year_0 [OF assms(1,3)] assms(2,4) short_year_iff [OF assms(1,3)] r by (simp_all add: short_year_def)
  then show "write_year y = fmt_pad 4 y" by (simp add: write_year_def)
  have ascii: "list_all is_ascii (mail_text w y m d h mi s (ascii_bytes ''GMT''))"
    using weekday_short_cases(4) [of w] month_short_cases(3) [OF mail_fields(1,2) [OF y q(2-8)]] fmt_pad_digits digit_plain
    by (auto simp: mail_text_def write_clock_def list_all_iff is_ascii_def)
  have "imf_fixdate_fields (mail_text w y m d h mi s (ascii_bytes ''GMT'')) = Ok (y, m, d, h, mi, s)" by (rule imf_fixdate_read [OF y q(2-8)])
  moreover have "assemble db y m d h mi s 0 None (Some 0) None = Some (Ok (dt_from_raw (dt_secs dt) 0 0 ZoneUtc))"
    using assemble_utc_local(2) [where n = 0, OF q(2-8) _ _ _ r] q(9) assms(2) by (simp add: NANOS_PER_SEC_def)
  ultimately show "parse_http db (mail_text w y m d h mi s (ascii_bytes ''GMT'')) = Some (Ok (dt_from_raw (dt_secs dt) 0 0 ZoneUtc))"
    using ascii unfolding parse_http_def str_trim_http parse_imf_fixdate_def assemble_utc_def by simp
qed

lemma write_mail_text:
  assumes "dt_parts dt = Some (y, m, d, h, mi, s, n)" "dt_weekday dt = Some w" "write_year y = fmt_pad 4 y"
  shows "write_rfc2822 dt = Some (mail_text w y m d h mi s (write_offset_compact (dt_offset dt)))"
  using assms by (simp add: write_rfc2822_def mail_text_def)

lemma write_http_text:
  assumes "dt_in_timezone db dt ZoneUtc = Some utc" "dt_parts utc = Some (y, m, d, h, mi, s, n)" "dt_weekday utc = Some w" "write_year y = fmt_pad 4 y"
  shows "write_http_date db dt = Some (mail_text w y m d h mi s (ascii_bytes ''GMT''))"
  using assms by (simp add: write_http_date_def mail_text_def)

lemma try_format_year:
  assumes "dt_parts dt = Some (y, m, d, h, mi, s, n)" "dt_try_format dt format = Some (Ok ())" "format \<noteq> TimeOnly"
  shows "0 \<le> y" "y \<le> 9999"
  using assms by (auto simp: dt_try_format_def dt_year_def split: if_splits)

lemma try_format_offset:
  assumes "dt_try_format dt format = Some (Ok ())" "format \<in> {Rfc3339, Rfc9557, Iso8601, Rfc2822}"
  shows "dt_offset dt mod 60 = 0"
proof -
  have "trem (dt_offset dt) 60 = 0" using assms by (auto simp: dt_try_format_def bind_eq_Some_conv split: if_splits)
  then have "dt_offset dt = tdiv (dt_offset dt) 60 * 60" by (simp add: trem_def)
  then have "dt_offset dt mod 60 = tdiv (dt_offset dt) 60 * 60 mod 60" by (rule arg_cong)
  then show ?thesis by simp
qed

lemma http_roundtrip:
  assumes "dt_ok db dt" "YEAR_0 \<le> dt_secs dt"
  shows "\<exists>t. write_http_date db dt = Some t \<and> parse_http db t = Some (Ok (dt_from_raw (dt_secs dt) 0 0 ZoneUtc))"
proof -
  define utc where "utc = dt\<lparr>dt_offset := 0, dt_zone := ZoneUtc\<rparr>"
  have zone: "dt_in_timezone db dt ZoneUtc = Some utc" by (simp add: dt_in_timezone_def utc_def)
  have ok: "dt_ok db utc" "dt_offset utc = 0" "dt_secs utc = dt_secs dt" using assms(1) by (simp_all add: dt_ok_def utc_def)
  obtain y m d h mi s n where p: "dt_parts utc = Some (y, m, d, h, mi, s, n)" using dt_parts_eq [OF ok(1)] by blast
  note w = dt_weekday_total [OF ok(1)] and r = read_http [OF ok(1,2) p, unfolded ok(3), OF assms(2)]
  show ?thesis using write_http_text [OF zone p w r(2)] r(1) by blast
qed

lemma date_roundtrip:
  assumes "dt_ok db dt" "dt_parts dt = Some (y, m, d, h, mi, s, n)" "short_year dt"
  shows "parse_date_only db (write_year y @ write_month_day m d) = Some (Ok (dt_from_raw ((dt_secs dt + dt_offset dt) div 86400 * 86400) 0 0 ZoneUtc))"
proof -
  note q = parts_local_seconds [OF assms(1,2)] and y = short_year_iff [OF assms(1,2), THEN iffD1, OF assms(3)]
  have md: "1 \<le> m" "m \<le> 12" "1 \<le> d" "d \<le> 31" using q(2) days_in_month_pos [of m y] by (auto simp: civil_valid_def)
  have "MIN_SECS \<le> days_from_civil y m d * SECS_PER_DAY" "days_from_civil y m d * SECS_PER_DAY \<le> MAX_SECS"
    using year_in_range [OF q(2)] y by (simp_all add: MIN_YEAR_def MAX_YEAR_def)
  then have "assemble db y m d 0 0 0 0 None None None = Some (Ok (dt_from_raw (days_from_civil y m d * 86400) 0 0 ZoneUtc))"
    using q(2) by (intro assemble_utc_local(1)) (simp_all add: NANOS_PER_SEC_def SECS_PER_DAY_def)
  then show ?thesis using parse_year_read [of y m d "[]"] y md q(10) by (simp add: parse_date_only_def p_done_def)
qed

lemma time_roundtrip:
  assumes "dt_ok db dt" "dt_parts dt = Some (y, m, d, h, mi, s, n)"
  shows "parse_time_only db (write_clock h mi s @ write_fraction n) = Some (Ok (dt_from_raw ((dt_secs dt + dt_offset dt) mod 86400) (dt_nanos dt) 0 ZoneUtc))"
proof -
  note q = parts_local_seconds [OF assms]
  have n: "0 \<le> n" "n < 1000000000" using parts_fit [OF assms] by simp_all
  have l: "(dt_secs dt + dt_offset dt) mod 86400 = h * 3600 + mi * 60 + s"
    using q(9,10) div_mult_mod_eq [of "dt_secs dt + dt_offset dt" 86400] by linarith
  have "days_from_civil 1970 1 1 = 0" "civil_valid 1970 1 1" by (code_simp, code_simp)
  then have "assemble db 1970 1 1 h mi s n None None None = Some (Ok (dt_from_raw (h * 3600 + mi * 60 + s) n 0 ZoneUtc))"
    using q(3-8) n by (intro assemble_utc_local(1)) (simp_all add: NANOS_PER_SEC_def secs_range)
  then show ?thesis using parse_clock_read [OF q(3-8) n, of "[]"] q(1) l by (simp add: parse_time_only_def p_done_def)
qed

text \<open>
  C3: a printed value reads back. For a well-formed value whose local year has at most four digits, \<open>Display\<close> writes a text
  which \<open>parse\<close> reads as the same value: the same instant to the nanosecond, the same zone and the same offset,
  without a reading of the monotonic clock, and whatever default zone is given. The zone has to be one that a text can
  name: UTC, a fixed offset that is not zero and below 24 hours, or a named zone that the database finds under its name.
\<close>

theorem parse_roundtrip:
  assumes "dt_ok db dt" "short_year dt" "zone_readable db dt"
  shows "\<exists>t. write_datetime db dt = Some (Ok t) \<and> parse db t default_zone = Some (Ok (dt\<lparr>dt_monotonic := None\<rparr>)) \<and>
    parse_bytes db t default_zone = Some (Ok (dt\<lparr>dt_monotonic := None\<rparr>))"
proof -
  obtain y m d h mi s n where p: "dt_parts dt = Some (y, m, d, h, mi, s, n)" using dt_parts_eq [OF assms(1)] by blast
  have u: "pred_option utf8_valid (dt_timezone_name dt)"
    using assms(3) by (auto simp: zone_readable_def dt_timezone_name_def name_reads_def split: time_zone.splits)
  have w: "write_datetime db dt = Some (Ok (iso_text y m d h mi s n True (dt_offset dt) (dt_timezone_name dt)))"
    by (rule write_datetime_iso [OF assms(1) p u])
  have fmt: "write_format db dt Rfc9557 = Some (iso_text y m d h mi s n True (dt_offset dt) (dt_timezone_name dt))"
    using write_iso_text [OF p, of True True] by (simp add: write_format_def)
  have "utf8_valid (iso_text y m d h mi s n True (dt_offset dt) (dt_timezone_name dt))"
    using u by (intro write_format_utf8 [OF fmt]) simp
  then have "from_utf8 (iso_text y m d h mi s n True (dt_offset dt) (dt_timezone_name dt)) = Ok (iso_text y m d h mi s n True (dt_offset dt) (dt_timezone_name dt))"
    by (simp only: from_utf8_valid)
  then show ?thesis using w parse_text_named [OF assms(1) p assms(2,3), of True default_zone] by (simp add: parse_bytes_def)
qed

definition new_york_db :: tz_database where
  "new_york_db = sample_db\<lparr>db_zones := [case new_york_2024 of ZoneNamed entry \<Rightarrow> entry]\<rparr>"

definition new_york_value :: date_time where
  "new_york_value = dt_from_raw 1730615400 7 (- 18000) new_york_2024"

lemma new_york_value_ok: "dt_ok new_york_db new_york_value" "short_year new_york_value" "zone_readable new_york_db new_york_value"
proof -
  have "offset_at new_york_db new_york_2024 1730615400 = Some (- 18000)" by code_simp
  then show "dt_ok new_york_db new_york_value" using new_york_ok by (simp add: dt_ok_def new_york_value_def dt_from_raw_def secs_range NANOS_PER_SEC_def)
  show "short_year new_york_value" by (simp add: short_year_def new_york_value_def dt_from_raw_def secs_range)
  have "binary_search_by (\<lambda>i. compare_lowercase (ze_name (db_zones new_york_db ! i)) (ascii_bytes ''X'')) (length (db_zones new_york_db)) = Ok 0"
    by code_simp
  then have "tz_named new_york_db (ascii_bytes ''X'') = Ok new_york_2024"
    by (simp add: tz_named_def tzdb_lookup_def is_utc_convenience_def eq_ignore_ascii_case_def to_ascii_lowercase_def new_york_db_def
        new_york_2024_def sample_named_def)
  moreover have "utf8_valid (ascii_bytes ''X'')" by code_simp
  ultimately show "zone_readable new_york_db new_york_value"
    by (simp add: zone_readable_def new_york_value_def dt_from_raw_def new_york_2024_def sample_named_def name_reads_def)
qed

theorem parse_roundtrip_witness:
  "dt_ok new_york_db new_york_value \<and>
   parse new_york_db (ascii_bytes ''2024-11-03T01:30:00.000000007-05:00[X]'') None = Some (Ok new_york_value)"
proof -
  have p: "dt_parts new_york_value = Some (2024, 11, 3, 1, 30, 0, 7)" by code_simp
  have f: "dt_offset new_york_value = - 18000" "dt_timezone_name new_york_value = Some (ascii_bytes ''X'')" "new_york_value\<lparr>dt_monotonic := None\<rparr> = new_york_value"
    by (simp_all add: new_york_value_def dt_from_raw_def dt_timezone_name_def new_york_2024_def sample_named_def)
  have "replicate 8 (48 :: byte) = [48, 48, 48, 48, 48, 48, 48, 48]" by code_simp
  then have "iso_text 2024 11 3 1 30 0 7 True (- 18000) (Some (ascii_bytes ''X'')) = ascii_bytes ''2024-11-03T01:30:00.000000007-05:00[X]''"
    by (simp add: iso_text_def write_year_def write_month_day_def write_clock_def write_fraction_def write_offset_def sign_byte_def
        fmt_pad_def show_nat.simps digit_byte_def Let_def)
  moreover have "utf8_valid (ascii_bytes ''X'')" by code_simp
  ultimately show ?thesis using parse_roundtrip [OF new_york_value_ok, of None] write_datetime_iso [OF new_york_value_ok(1) p] new_york_value_ok(1)
    unfolding f by auto
qed

text \<open>
  C4: the formats read back. What \<open>try_format\<close> accepts for a format and writes, the strict parser of the same
  format reads, and it returns what the format keeps of the value: the value itself (RFC 9557), the instant with its offset
  (RFC 3339, ISO 8601), that in whole seconds (RFC 2822), the whole seconds in UTC (HTTP), the local day at midnight UTC, or
  the time of day on the first day of the epoch. The offset is below 24 hours for the formats that write it,
  the name of the zone is known to the database, and for HTTP the year in UTC is not negative.
\<close>

theorem format_parse_roundtrip:
  assumes "dt_ok db dt" "dt_try_format dt format = Some (Ok ())" "format_readable db format dt"
  shows "\<exists>t. write_format db dt format = Some t \<and> parse_with_format db t format = Some (Ok (read_back format dt))"
proof -
  obtain y m d h mi s n where p: "dt_parts dt = Some (y, m, d, h, mi, s, n)" using dt_parts_eq [OF assms(1)] by blast
  note y = try_format_year [OF p assms(2)] and off = try_format_offset [OF assms(2)] and iso = write_iso_text [OF p]
  show ?thesis
  proof (cases format)
    case Rfc2822
    then show ?thesis using write_mail_text [OF p dt_weekday_total [OF assms(1)]] read_mail [OF assms(1) p] y off assms(3)
      by (simp add: write_format_def parse_with_format_def read_back_def format_readable_def write_year_def)
  next
    case HttpDate
    then show ?thesis using http_roundtrip [OF assms(1)] assms(3) by (simp add: write_format_def parse_with_format_def read_back_def format_readable_def)
  next
    case DateOnly
    have "short_year dt" using short_year_iff [OF assms(1) p] y DateOnly by simp
    then show ?thesis using date_roundtrip [OF assms(1) p] DateOnly by (simp add: write_format_def write_date_def p parse_with_format_def read_back_def)
  next
    case TimeOnly
    then show ?thesis using time_roundtrip [OF assms(1) p] by (simp add: write_format_def write_time_def p parse_with_format_def read_back_def)
  next
    case Rfc9557
    then show ?thesis using strict_rfc9557 [OF assms(1) p _ _ _ _, of True] y off assms(3) iso
      by (simp add: write_format_def parse_with_format_def read_back_def format_readable_def)
  qed (use strict_iso(1) [OF assms(1) p] y off assms(3) iso in \<open>simp_all add: write_format_def parse_with_format_def read_back_def format_readable_def\<close>)
qed

theorem format_parse_roundtrip_witness:
  "dt_try_format new_york_value Rfc2822 = Some (Ok ()) \<and>
   parse_with_format new_york_db (ascii_bytes ''Sun, 03 Nov 2024 01:30:00 -0500'') Rfc2822 =
     Some (Ok (dt_from_raw 1730615400 0 (- 18000) (ZoneFixed (- 18000))))"
proof -
  have t: "dt_try_format new_york_value Rfc2822 = Some (Ok ())" by code_simp
  have "write_format new_york_db new_york_value Rfc2822 = Some (ascii_bytes ''Sun, 03 Nov 2024 01:30:00 -0500'')"
    unfolding write_format_def by code_simp
  moreover have "read_back Rfc2822 new_york_value = dt_from_raw 1730615400 0 (- 18000) (ZoneFixed (- 18000))"
    "format_readable new_york_db Rfc2822 new_york_value"
    by (simp_all add: read_back_def format_readable_def at_offset_def new_york_value_def dt_from_raw_def)
  ultimately show ?thesis using format_parse_roundtrip [OF new_york_value_ok(1) t] t by auto
qed

text \<open>
  A value whose local year is 0 and whose year in UTC is -1: \<open>try_format\<close> accepts it for an HTTP date, which then has a
  negative year and is not read back.
\<close>

lemma http_negative_year:
  "dt_try_format (dt_from_raw (YEAR_0 - 1800) 0 3600 (ZoneFixed 3600)) HttpDate = Some (Ok ())"
  "write_format sample_db (dt_from_raw (YEAR_0 - 1800) 0 3600 (ZoneFixed 3600)) HttpDate = Some (ascii_bytes ''Fri, 31 Dec -0001 23:30:00 GMT'')"
  "parse_with_format sample_db (ascii_bytes ''Fri, 31 Dec -0001 23:30:00 GMT'') HttpDate =
     Some (Err (err_parse ''input is not an IMF-fixdate (RFC 9110), RFC 850 or asctime date''))"
  by (code_simp, code_simp, code_simp)

end
