(* ===== verification/Csv_Reader.thy ===== *)
theory Csv_Reader
  imports Rust_Str
begin

text \<open>
  The CSV reader (\<open>src/csv/reader.rs\<close>, with the errors of \<open>src/csv/error.rs\<close>): the buffer, the state machine that reads one
  record from any sequence of reads, the opt-in limits, error recovery, rows and their accessors. A source is the list of
  the results of its reads, and has ended after the last one. \<open>memchr\<close> is the search of the package memchr: the
  first position in a slice that holds one of the given bytes. An outer \<open>None\<close> is a panic. Positions and counters
  are natural numbers: each is at most one more than the number of bytes read, so none overflows before \<open>2 ^ 64\<close> bytes have
  been read. The capacities of the buffers are not modelled; the feature serde is off.
\<close>

section \<open>Errors and sources\<close>

datatype read_error_kind =
    UnterminatedQuote
  | TrailingContent
  | InvalidUtf8
  | InconsistentFieldCount nat nat
  | RecordTooLarge nat
  | FieldTooLarge nat
  | TooManyColumns nat
  | NoProgress
  | Io

record read_error =
  re_kind :: read_error_kind
  re_line :: nat
  re_column :: nat

definition read_error_new :: "read_error_kind \<Rightarrow> nat \<Rightarrow> nat \<Rightarrow> read_error" where
  "read_error_new kind line column = \<lparr>re_kind = kind, re_line = line, re_column = column\<rparr>"

datatype read_event = ReadBytes "byte list" | ReadEnd | ReadFail read_error

type_synonym finder = "byte list \<Rightarrow> byte list \<Rightarrow> nat option"

definition memchr_spec :: "finder \<Rightarrow> bool" where
  "memchr_spec memchr \<longleftrightarrow> (\<forall>needles haystack. memchr needles haystack = find_pos (\<lambda>b. b \<in> set needles) haystack)"

text \<open>One call of \<open>Read::read\<close>, which appends to the buffer.\<close>

fun read_source :: "read_event list \<Rightarrow> byte list \<Rightarrow> (read_error, bool) result \<times> byte list \<times> read_event list" where
  "read_source [] buf = (Ok False, buf, [])"
| "read_source (ReadBytes bytes # source) buf = (Ok True, buf @ bytes, source)"
| "read_source (ReadEnd # source) buf = (Ok False, buf, source)"
| "read_source (ReadFail e # source) buf = (Err e, buf, source)"

text \<open>\<open>Read\<close> for a slice, in pieces of 16384 bytes, and the reads it gives.\<close>

definition slice_read :: "byte list \<Rightarrow> byte list \<Rightarrow> bool \<times> byte list \<times> byte list" where
  "slice_read self buf =
     (let to_copy = min 16384 (length self)
      in if to_copy = 0 then (False, buf, self) else (True, buf @ take to_copy self, drop to_copy self))"

function slice_events :: "byte list \<Rightarrow> read_event list" where
  "slice_events self =
     (case slice_read self [] of (False, _, _) \<Rightarrow> [] | (True, bytes, self) \<Rightarrow> ReadBytes bytes # slice_events self)"
  by auto
termination
  by (relation "measure length") (auto simp: slice_read_def Let_def split: if_splits)

declare slice_events.simps [simp del]

section \<open>The reader\<close>

datatype csv_state = StartOfField | InUnquoted | InQuoted | AfterQuote

datatype field_src = SrcBuf | SrcScratch

record raw_field =
  rf_start :: nat
  rf_end :: nat
  rf_src :: field_src

record field_range =
  fr_start :: nat
  fr_end :: nat

record csv_reader =
  rd_buf :: "byte list"
  rd_scratch :: "byte list"
  rd_ranges :: "raw_field list"
  rd_start :: nat
  rd_end :: nat
  rd_discarded :: nat
  rd_record_start :: nat
  rd_line :: nat
  rd_record_line :: nat
  rd_field_start :: nat
  rd_scratch_field_start :: nat
  rd_state :: csv_state
  rd_delimiter :: byte
  rd_flexible :: bool
  rd_num_fields :: "nat option"
  rd_headers_parsed :: bool
  rd_pending_cr :: bool
  rd_pending_lf_quoted :: bool
  rd_bom_checked :: bool
  rd_strip_bom :: bool
  rd_max_record_bytes :: "nat option"
  rd_max_field_bytes :: "nat option"
  rd_max_columns :: "nat option"
  rd_headers :: "byte list list"
  rd_source :: "read_event list"
  rd_eof :: bool

record bytes_row =
  br_buf :: "byte list"
  br_ranges :: "field_range list"
  br_error :: "read_error option"
  br_line :: nat

definition reader_new :: "read_event list \<Rightarrow> csv_reader" where
  "reader_new source =
     \<lparr>rd_buf = [], rd_scratch = [], rd_ranges = [], rd_start = 0, rd_end = 0, rd_discarded = 0, rd_record_start = 0,
      rd_line = 1, rd_record_line = 1, rd_field_start = 0, rd_scratch_field_start = 0, rd_state = StartOfField,
      rd_delimiter = ascii CHR '','', rd_flexible = False, rd_num_fields = None, rd_headers_parsed = False,
      rd_pending_cr = False, rd_pending_lf_quoted = False, rd_bom_checked = False, rd_strip_bom = True,
      rd_max_record_bytes = None, rd_max_field_bytes = None, rd_max_columns = None, rd_headers = [],
      rd_source = source, rd_eof = False\<rparr>"

definition QUOTE :: byte where "QUOTE = 0x22"
definition CR :: byte where "CR = 0x0D"
definition LF :: byte where "LF = 0x0A"

definition valid_delimiter :: "byte \<Rightarrow> bool" where
  "valid_delimiter b \<longleftrightarrow> b \<noteq> QUOTE \<and> b \<noteq> CR \<and> b \<noteq> LF"

definition reader_set_delimiter :: "csv_reader \<Rightarrow> byte \<Rightarrow> csv_reader option" where
  "reader_set_delimiter self byte = (if valid_delimiter byte then Some (self\<lparr>rd_delimiter := byte\<rparr>) else None)"

definition reader_set_flexible :: "csv_reader \<Rightarrow> bool \<Rightarrow> csv_reader" where
  "reader_set_flexible self yes = self\<lparr>rd_flexible := yes\<rparr>"

definition reader_set_strip_bom :: "csv_reader \<Rightarrow> bool \<Rightarrow> csv_reader" where
  "reader_set_strip_bom self yes = self\<lparr>rd_strip_bom := yes\<rparr>"

definition reader_set_max_record_bytes :: "csv_reader \<Rightarrow> nat \<Rightarrow> csv_reader" where
  "reader_set_max_record_bytes self m = self\<lparr>rd_max_record_bytes := Some m\<rparr>"

definition reader_set_max_field_bytes :: "csv_reader \<Rightarrow> nat \<Rightarrow> csv_reader" where
  "reader_set_max_field_bytes self m = self\<lparr>rd_max_field_bytes := Some m\<rparr>"

definition reader_set_max_columns :: "csv_reader \<Rightarrow> nat \<Rightarrow> csv_reader" where
  "reader_set_max_columns self m = self\<lparr>rd_max_columns := Some m\<rparr>"

definition reader_set_headers :: "csv_reader \<Rightarrow> byte list list \<Rightarrow> csv_reader" where
  "reader_set_headers self headers =
     (let self = self\<lparr>rd_headers_parsed := True\<rparr>;
          self = (if headers \<noteq> [] then self\<lparr>rd_num_fields := Some (length headers)\<rparr> else self)
      in self\<lparr>rd_headers := headers\<rparr>)"

definition reader_headers :: "csv_reader \<Rightarrow> byte list list option" where
  "reader_headers self = (if rd_headers_parsed self then Some (rd_headers self) else None)"

section \<open>Buffer and limits\<close>

text \<open>\<open>a - b\<close> and \<open>&bytes[a..b]\<close>, with their panics.\<close>

definition usize_sub :: "nat \<Rightarrow> nat \<Rightarrow> nat option" where
  "usize_sub a b = (if b \<le> a then Some (a - b) else None)"

definition sub_slice :: "byte list \<Rightarrow> nat \<Rightarrow> nat \<Rightarrow> byte list option" where
  "sub_slice bytes a b = (if a \<le> b \<and> b \<le> length bytes then Some (take (b - a) (drop a bytes)) else None)"

definition fill_buf :: "csv_reader \<Rightarrow> (read_error, bool) result \<times> csv_reader" where
  "fill_buf self =
     (if rd_eof self then (Ok False, self)
      else
        let len_before = length (rd_buf self);
            (r, buf, source) = read_source (rd_source self) (rd_buf self);
            self = self\<lparr>rd_buf := buf, rd_source := source\<rparr>
        in case r of
             Err e \<Rightarrow> (Err e, self)
           | Ok True \<Rightarrow>
               if length (rd_buf self) = len_before
               then (Err (read_error_new NoProgress (rd_record_line self) 0), self\<lparr>rd_eof := True\<rparr>)
               else (Ok True, self\<lparr>rd_end := length (rd_buf self)\<rparr>)
           | Ok False \<Rightarrow> (Ok False, self\<lparr>rd_eof := True\<rparr>))"

text \<open>The reads that are left, for termination.\<close>

definition reads_left :: "csv_reader \<Rightarrow> nat" where
  "reads_left self = (if rd_eof self then 0 else Suc (length (rd_source self)))"

lemma reads_left_update [simp]:
  "reads_left (self\<lparr>rd_start := a\<rparr>) = reads_left self" "reads_left (self\<lparr>rd_line := a\<rparr>) = reads_left self"
  "reads_left (self\<lparr>rd_state := st\<rparr>) = reads_left self" "reads_left (self\<lparr>rd_pending_cr := c\<rparr>) = reads_left self"
  "reads_left (self\<lparr>rd_pending_lf_quoted := c\<rparr>) = reads_left self" "reads_left (self\<lparr>rd_scratch := u\<rparr>) = reads_left self"
  "reads_left (self\<lparr>rd_ranges := rs\<rparr>) = reads_left self" "reads_left (self\<lparr>rd_field_start := a\<rparr>) = reads_left self"
  "reads_left (self\<lparr>rd_scratch_field_start := a\<rparr>) = reads_left self"
  by (simp_all add: reads_left_def)

lemma fill_buf_reads:
  assumes "fill_buf self = (r, self')" "\<not> rd_eof self"
  shows "reads_left self' < reads_left self \<or> (\<exists>e. r = Err e)"
  using assms by (cases "rd_source self"; cases "hd (rd_source self)")
    (auto simp: fill_buf_def reads_left_def Let_def split: if_splits)

lemma fill_buf_true:
  "fill_buf self = (Ok True, self') \<Longrightarrow> reads_left self' < reads_left self"
  by (cases "rd_eof self"; cases "rd_source self"; cases "hd (rd_source self)")
    (auto simp: fill_buf_def reads_left_def Let_def split: if_splits)

function bom_fill :: "csv_reader \<Rightarrow> ((read_error, unit) result \<times> csv_reader) option" where
  "bom_fill self =
     do {
       n \<leftarrow> usize_sub (rd_end self) (rd_start self);
       if n < 3 \<and> \<not> rd_eof self
       then case fill_buf self of (Err e, self) \<Rightarrow> Some (Err e, self) | (Ok _, self) \<Rightarrow> bom_fill self
       else Some (Ok (), self)
     }"
  by auto
termination
  by (relation "measure reads_left") (auto dest!: fill_buf_reads [OF sym])

declare bom_fill.simps [simp del]

definition BOM :: "byte list" where
  "BOM = [0xEF, 0xBB, 0xBF]"

definition strip_leading_bom :: "csv_reader \<Rightarrow> ((read_error, unit) result \<times> csv_reader) option" where
  "strip_leading_bom self =
     (if rd_bom_checked self then Some (Ok (), self)
      else
        let self = self\<lparr>rd_bom_checked := True\<rparr>
        in if \<not> rd_strip_bom self then Some (Ok (), self)
           else do {
             (r, self) \<leftarrow> bom_fill self;
             case r of
               Err e \<Rightarrow> Some (Err e, self)
             | Ok _ \<Rightarrow> do {
                 rest \<leftarrow> sub_slice (rd_buf self) (rd_start self) (length (rd_buf self));
                 Some (Ok (), if take 3 rest = BOM then self\<lparr>rd_start := rd_start self + 3\<rparr> else self)
               }
           })"

definition consumed :: "csv_reader \<Rightarrow> nat option" where
  "consumed self = usize_sub (rd_discarded self + rd_start self) (rd_record_start self)"

definition limit_exceeded :: "csv_reader \<Rightarrow> read_error_kind option option" where
  "limit_exceeded self =
     do {
       record \<leftarrow> (case rd_max_record_bytes self of
           Some limit \<Rightarrow> map_option (\<lambda>n. if n > limit then Some (RecordTooLarge limit) else None) (consumed self)
         | None \<Rightarrow> Some None);
       Some (case record of
           Some kind \<Rightarrow> Some kind
         | None \<Rightarrow> (case rd_max_columns self of
               Some limit \<Rightarrow> if length (rd_ranges self) > limit then Some (TooManyColumns limit) else None
             | None \<Rightarrow> None))
     }"

definition field_limit_exceeded :: "csv_reader \<Rightarrow> nat \<Rightarrow> read_error_kind option" where
  "field_limit_exceeded self len =
     (case rd_max_field_bytes self of
        Some limit \<Rightarrow> if len > limit then Some (FieldTooLarge limit) else None
      | None \<Rightarrow> None)"

definition compact :: "csv_reader \<Rightarrow> csv_reader option" where
  "compact self =
     (if rd_start self = 0 then Some self
      else if rd_start self < 4096 \<and> rd_start self * 2 < length (rd_buf self) then Some self
      else do {
        let shift = rd_start self;
        remaining \<leftarrow> usize_sub (rd_end self) shift;
        buf \<leftarrow> (if remaining > 0
          then map_option (\<lambda>s. s @ drop (length s) (rd_buf self)) (sub_slice (rd_buf self) shift (rd_end self))
          else Some (rd_buf self));
        Some (self\<lparr>rd_buf := take remaining buf, rd_end := remaining, rd_start := 0, rd_discarded := rd_discarded self + shift\<rparr>)
      })"

definition consume_newline :: "csv_reader \<Rightarrow> csv_reader option" where
  "consume_newline self =
     do {
       self \<leftarrow> (if rd_start self < rd_end self
         then do {
           b \<leftarrow> slice_get (rd_buf self) (rd_start self);
           Some (if b = CR
             then let self = self\<lparr>rd_start := rd_start self + 1\<rparr>
                  in if rd_start self \<ge> rd_end self then self\<lparr>rd_pending_cr := True\<rparr> else self
             else self)
         }
         else Some self);
       self \<leftarrow> (if rd_start self < rd_end self
         then do {
           b \<leftarrow> slice_get (rd_buf self) (rd_start self);
           Some (if b = LF then self\<lparr>rd_start := rd_start self + 1\<rparr> else self)
         }
         else Some self);
       Some (self\<lparr>rd_line := rd_line self + 1\<rparr>)
     }"

definition push_range :: "csv_reader \<Rightarrow> nat \<Rightarrow> nat \<Rightarrow> field_src \<Rightarrow> csv_reader" where
  "push_range self a b src = self\<lparr>rd_ranges := rd_ranges self @ [\<lparr>rf_start = a, rf_end = b, rf_src = src\<rparr>]\<rparr>"

definition finalize_current_field :: "csv_reader \<Rightarrow> csv_reader" where
  "finalize_current_field self =
     (case rd_state self of
        InUnquoted \<Rightarrow> push_range self (rd_field_start self) (rd_start self) SrcBuf
      | InQuoted \<Rightarrow> push_range self (rd_scratch_field_start self) (length (rd_scratch self)) SrcScratch
      | AfterQuote \<Rightarrow> self
      | StartOfField \<Rightarrow> if rd_ranges self \<noteq> [] then push_range self (rd_start self) (rd_start self) SrcBuf else self)"

section \<open>Rows\<close>

definition raw_slice :: "csv_reader \<Rightarrow> raw_field \<Rightarrow> byte list option" where
  "raw_slice self r =
     (case rf_src r of
        SrcBuf \<Rightarrow> sub_slice (rd_buf self) (rf_start r) (rf_end r)
      | SrcScratch \<Rightarrow> sub_slice (rd_scratch self) (rf_start r) (rf_end r))"

fun assemble_row :: "csv_reader \<Rightarrow> raw_field list \<Rightarrow> byte list \<Rightarrow> field_range list \<Rightarrow> (byte list \<times> field_range list) option" where
  "assemble_row self [] row_buf row_ranges = Some (row_buf, row_ranges)"
| "assemble_row self (r # rs) row_buf row_ranges =
     do {
       piece \<leftarrow> raw_slice self r;
       let start = length row_buf;
       let row_buf = row_buf @ piece;
       assemble_row self rs row_buf (row_ranges @ [\<lparr>fr_start = start, fr_end = length row_buf\<rparr>])
     }"

definition build_bytes_row :: "csv_reader \<Rightarrow> read_error option \<Rightarrow> (bytes_row \<times> csv_reader) option" where
  "build_bytes_row self error =
     do {
       (row_buf, row_ranges) \<leftarrow> assemble_row self (rd_ranges self) [] [];
       let field_count = length row_ranges;
       let error =
         (if \<not> rd_flexible self
          then case error of
                 Some e \<Rightarrow> Some e
               | None \<Rightarrow>
                   (case rd_num_fields self of
                      Some expected \<Rightarrow>
                        if field_count \<noteq> expected
                        then Some (read_error_new (InconsistentFieldCount expected field_count) (rd_record_line self) 0)
                        else None
                    | None \<Rightarrow> None)
          else error);
       let self =
         (if rd_num_fields self = None \<and> field_count > 0 \<and> error = None
          then self\<lparr>rd_num_fields := Some field_count\<rparr> else self);
       Some (\<lparr>br_buf = row_buf, br_ranges = row_ranges, br_error = error, br_line = rd_record_line self\<rparr>, self)
     }"

text \<open>One more or one less line break, given whether the slice before ended with a carriage return.\<close>

function line_breaks_from :: "byte list \<Rightarrow> nat \<Rightarrow> bool \<times> nat \<Rightarrow> bool \<times> nat" where
  "line_breaks_from bytes i (pending_cr, breaks) =
     (if i < length bytes
      then
        if bytes ! i = LF then line_breaks_from bytes (i + 1) (pending_cr, breaks + 1)
        else if bytes ! i = CR then
          if i + 1 < length bytes
          then line_breaks_from bytes (if bytes ! (i + 1) = LF then i + 2 else i + 1) (pending_cr, breaks + 1)
          else line_breaks_from bytes (i + 1) (True, breaks + 1)
        else line_breaks_from bytes (i + 1) (pending_cr, breaks)
      else (pending_cr, breaks))"
  by pat_completeness auto
termination
  by (relation "measure (\<lambda>(bytes, i, p). length bytes - i)") auto

declare line_breaks_from.simps [simp del]

definition count_line_breaks :: "finder \<Rightarrow> byte list \<Rightarrow> bool \<Rightarrow> bool \<times> nat" where
  "count_line_breaks memchr bytes pending_cr =
     (if memchr [CR, LF] bytes = None
      then (if bytes \<noteq> [] then False else pending_cr, 0)
      else
        let i = (if pending_cr \<and> slice_get bytes 0 = Some LF then 1 else 0)
        in line_breaks_from bytes i (False, 0))"

definition is_newline :: "byte \<Rightarrow> bool" where
  "is_newline b \<longleftrightarrow> b = LF \<or> b = CR"

section \<open>Reading a row\<close>

datatype row_flow = RowContinue csv_reader | RowReturn "bytes_row option" csv_reader

definition return_row :: "csv_reader \<Rightarrow> read_error option \<Rightarrow> row_flow option" where
  "return_row self error = map_option (\<lambda>(row, self). RowReturn (Some row) self) (build_bytes_row self error)"

function skip_record_tail :: "finder \<Rightarrow> csv_reader \<Rightarrow> (bool \<times> csv_reader) option" where
  "skip_record_tail memchr self =
     (let (filled, self) = (if rd_start self \<ge> rd_end self then fill_buf self else (Ok True, self))
      in if filled \<noteq> Ok True then Some (False, self)
         else if rd_pending_cr self then do {
           b \<leftarrow> slice_get (rd_buf self) (rd_start self);
           let self = (if b = LF then self\<lparr>rd_start := rd_start self + 1\<rparr> else self);
           Some (True, self\<lparr>rd_pending_cr := False\<rparr>)
         }
         else do {
           haystack \<leftarrow> sub_slice (rd_buf self) (rd_start self) (rd_end self);
           case memchr [CR, LF] haystack of
             Some offset \<Rightarrow> do {
               self \<leftarrow> consume_newline (self\<lparr>rd_start := rd_start self + offset\<rparr>);
               Some (True, self)
             }
           | None \<Rightarrow>
               let self = self\<lparr>rd_start := rd_end self\<rparr>
               in do {
                 over \<leftarrow> (case rd_max_record_bytes self of
                     Some limit \<Rightarrow> map_option (\<lambda>n. n > limit) (consumed self)
                   | None \<Rightarrow> Some False);
                 if over then Some (False, self) else skip_record_tail memchr self
               }
         })"
  by pat_completeness auto
termination
  by (relation "measures [\<lambda>(memchr, self). reads_left self, \<lambda>(memchr, self). rd_end self - rd_start self]")
    (auto split: if_splits dest: fill_buf_true [OF sym])

declare skip_record_tail.simps [simp del]

definition abandon_record :: "finder \<Rightarrow> csv_reader \<Rightarrow> read_error_kind \<Rightarrow> row_flow option" where
  "abandon_record memchr self kind =
     (let error = read_error_new kind (rd_record_line self) 0
      in do {
        self \<leftarrow>
          (case kind of
             RecordTooLarge _ \<Rightarrow> Some (self\<lparr>rd_start := rd_end self, rd_eof := True\<rparr>)
           | FieldTooLarge _ \<Rightarrow> Some (self\<lparr>rd_start := rd_end self, rd_eof := True\<rparr>)
           | TooManyColumns _ \<Rightarrow> Some (self\<lparr>rd_start := rd_end self, rd_eof := True\<rparr>)
           | _ \<Rightarrow>
               let self = finalize_current_field self
               in map_option (\<lambda>(ok, self). if ok then self else self\<lparr>rd_eof := True\<rparr>) (skip_record_tail memchr self));
        return_row self (Some error)
      })"

definition row_start_of_field :: "csv_reader \<Rightarrow> byte \<Rightarrow> row_flow option" where
  "row_start_of_field self byte =
     (if byte = CR \<or> byte = LF then do {
        let self = (if rd_ranges self \<noteq> [] then push_range self (rd_start self) (rd_start self) SrcBuf else self);
        self \<leftarrow> consume_newline self;
        if rd_ranges self = [] then Some (RowContinue self) else return_row self None
      }
      else
        let self = self\<lparr>rd_field_start := rd_start self\<rparr>
        in if byte = rd_delimiter self then
             Some (RowContinue ((push_range self (rd_start self) (rd_start self) SrcBuf)\<lparr>rd_start := rd_start self + 1\<rparr>))
           else if byte = QUOTE then
             Some (RowContinue (self\<lparr>rd_scratch_field_start := length (rd_scratch self), rd_start := rd_start self + 1, rd_state := InQuoted\<rparr>))
           else Some (RowContinue (self\<lparr>rd_start := rd_start self + 1, rd_state := InUnquoted\<rparr>)))"

definition row_in_unquoted :: "finder \<Rightarrow> csv_reader \<Rightarrow> row_flow option" where
  "row_in_unquoted memchr self =
     do {
       haystack \<leftarrow> sub_slice (rd_buf self) (rd_start self) (rd_end self);
       case memchr [rd_delimiter self, CR, LF] haystack of
         Some offset \<Rightarrow>
           let pos = rd_start self + offset
           in do {
             len \<leftarrow> usize_sub pos (rd_field_start self);
             case field_limit_exceeded self len of
               Some kind \<Rightarrow> abandon_record memchr self kind
             | None \<Rightarrow>
                 let self = push_range self (rd_field_start self) pos SrcBuf
                 in do {
                   b \<leftarrow> slice_get (rd_buf self) pos;
                   if b = rd_delimiter self then Some (RowContinue (self\<lparr>rd_start := pos + 1, rd_state := StartOfField\<rparr>))
                   else do { self \<leftarrow> consume_newline (self\<lparr>rd_start := pos\<rparr>); return_row self None }
                 }
           }
       | None \<Rightarrow>
           let self = self\<lparr>rd_start := rd_end self\<rparr>
           in do {
             len \<leftarrow> usize_sub (rd_end self) (rd_field_start self);
             case field_limit_exceeded self len of
               Some kind \<Rightarrow> abandon_record memchr self kind
             | None \<Rightarrow> Some (RowContinue self)
           }
     }"

text \<open>A closing quote ends the field.\<close>

definition close_quoted :: "csv_reader \<Rightarrow> nat \<Rightarrow> csv_reader" where
  "close_quoted self after_quote =
     (push_range self (rd_scratch_field_start self) (length (rd_scratch self)) SrcScratch)\<lparr>rd_start := after_quote, rd_state := AfterQuote\<rparr>"

definition double_quote :: "csv_reader \<Rightarrow> nat \<Rightarrow> csv_reader" where
  "double_quote self after_quote = self\<lparr>rd_scratch := rd_scratch self @ [QUOTE], rd_start := after_quote + 1\<rparr>"

text \<open>After a quote in a quoted field: a second one stands for a quote, anything else ends the field.\<close>

definition row_quote_next :: "csv_reader \<Rightarrow> nat \<Rightarrow> row_flow option" where
  "row_quote_next self after_quote =
     (if after_quote < rd_end self then do {
        b \<leftarrow> slice_get (rd_buf self) after_quote;
        Some (RowContinue (if b = QUOTE then double_quote self after_quote else close_quoted self after_quote))
      }
      else case fill_buf self of
             (Ok True, self) \<Rightarrow>
               Some (RowContinue (if slice_get (rd_buf self) after_quote = Some QUOTE then double_quote self after_quote
                 else close_quoted self after_quote))
           | (Err e, self) \<Rightarrow> return_row (close_quoted self after_quote) (Some e)
           | (Ok False, self) \<Rightarrow> Some (RowContinue (close_quoted self after_quote)))"

text \<open>The content of a quoted field up to a quote or to the end of the buffer.\<close>

definition add_quoted :: "finder \<Rightarrow> csv_reader \<Rightarrow> byte list \<Rightarrow> csv_reader" where
  "add_quoted memchr self bytes =
     (let (pending, breaks) = count_line_breaks memchr bytes (rd_pending_lf_quoted self)
      in self\<lparr>rd_line := rd_line self + breaks, rd_pending_lf_quoted := pending, rd_scratch := rd_scratch self @ bytes\<rparr>)"

definition row_in_quoted :: "finder \<Rightarrow> csv_reader \<Rightarrow> row_flow option" where
  "row_in_quoted memchr self =
     do {
       haystack \<leftarrow> sub_slice (rd_buf self) (rd_start self) (rd_end self);
       case memchr [QUOTE] haystack of
         Some offset \<Rightarrow>
           let quote_pos = rd_start self + offset
           in do {
             segment \<leftarrow> sub_slice (rd_buf self) (rd_start self) quote_pos;
             copied \<leftarrow> usize_sub (length (rd_scratch self)) (rd_scratch_field_start self);
             case field_limit_exceeded self (copied + length segment) of
               Some kind \<Rightarrow> abandon_record memchr self kind
             | None \<Rightarrow> row_quote_next ((add_quoted memchr self segment)\<lparr>rd_pending_lf_quoted := False\<rparr>) (quote_pos + 1)
           }
       | None \<Rightarrow>
           let self = (add_quoted memchr self haystack)\<lparr>rd_start := rd_end self\<rparr>
           in do {
             copied \<leftarrow> usize_sub (length (rd_scratch self)) (rd_scratch_field_start self);
             case field_limit_exceeded self copied of
               Some kind \<Rightarrow> abandon_record memchr self kind
             | None \<Rightarrow> Some (RowContinue self)
           }
     }"

definition row_after_quote :: "finder \<Rightarrow> csv_reader \<Rightarrow> byte \<Rightarrow> row_flow option" where
  "row_after_quote memchr self byte =
     (if byte = rd_delimiter self then Some (RowContinue (self\<lparr>rd_start := rd_start self + 1, rd_state := StartOfField\<rparr>))
      else if is_newline byte then do { self \<leftarrow> consume_newline self; return_row self None }
      else abandon_record memchr self TrailingContent)"

text \<open>The rest of one round of the loop, with a byte in the buffer.\<close>

definition row_byte :: "finder \<Rightarrow> csv_reader \<Rightarrow> row_flow option" where
  "row_byte memchr self =
     do {
       limit \<leftarrow> limit_exceeded self;
       case limit of
         Some kind \<Rightarrow> abandon_record memchr self kind
       | None \<Rightarrow> do {
           byte \<leftarrow> slice_get (rd_buf self) (rd_start self);
           if rd_pending_cr self
           then let self = (if byte = LF then self\<lparr>rd_start := rd_start self + 1\<rparr> else self)
                in Some (RowContinue (self\<lparr>rd_pending_cr := False\<rparr>))
           else case rd_state self of
                  StartOfField \<Rightarrow> row_start_of_field self byte
                | InUnquoted \<Rightarrow> row_in_unquoted memchr self
                | InQuoted \<Rightarrow> row_in_quoted memchr self
                | AfterQuote \<Rightarrow> row_after_quote memchr self byte
         }
     }"

definition row_step :: "finder \<Rightarrow> csv_reader \<Rightarrow> row_flow option" where
  "row_step memchr self =
     (if rd_start self \<ge> rd_end self
      then case fill_buf self of
             (Err e, self) \<Rightarrow>
               let self = self\<lparr>rd_eof := True\<rparr>
               in return_row (if rd_state self = InQuoted then self else finalize_current_field self) (Some e)
           | (Ok False, self) \<Rightarrow>
               if rd_ranges self = [] \<and> rd_state self = StartOfField then Some (RowReturn None self)
               else if rd_state self = InQuoted
               then return_row self (Some (read_error_new UnterminatedQuote (rd_record_line self) 0))
               else return_row (finalize_current_field self) None
           | (Ok True, self) \<Rightarrow> row_byte memchr self
      else row_byte memchr self)"

definition row_measure :: "csv_reader \<Rightarrow> nat \<times> nat \<times> nat" where
  "row_measure self = (reads_left self, rd_end self - rd_start self, if rd_pending_cr self then 1 else 0)"

abbreviation row_less :: "(csv_reader \<times> csv_reader) set" where
  "row_less \<equiv> inv_image (less_than <*lex*> less_than <*lex*> less_than) row_measure"

text \<open>A round that goes on has consumed a byte, a read or a pending carriage return.\<close>

lemma return_row_flow: "return_row self e \<noteq> Some (RowContinue self')"
  by (auto simp: return_row_def)

lemma abandon_record_flow: "abandon_record memchr self kind \<noteq> Some (RowContinue self')"
  by (auto simp: abandon_record_def return_row_flow bind_eq_Some_conv Let_def)

lemma fill_buf_same:
  assumes "fill_buf self = (r, self')"
  shows "reads_left self' \<le> reads_left self" "rd_start self' = rd_start self" "reads_left self' = reads_left self \<longrightarrow> rd_end self' = rd_end self"
  using assms by (cases "rd_eof self"; cases "rd_source self"; cases "hd (rd_source self)";
      auto simp: fill_buf_def reads_left_def Let_def split: if_splits)+

lemma consume_newline_cases:
  assumes "consume_newline self = Some self'"
  obtains k cr where "self' = self\<lparr>rd_start := rd_start self + k, rd_pending_cr := cr, rd_line := rd_line self + 1\<rparr>"
    "rd_start self < rd_end self \<and> slice_get (rd_buf self) (rd_start self) \<in> {Some CR, Some LF} \<longrightarrow> 0 < k"
proof -
  have upd: "self = self\<lparr>rd_start := rd_start self, rd_pending_cr := rd_pending_cr self\<rparr>" by simp
  show ?thesis
  proof (cases "rd_start self < rd_end self")
    case False
    then have "self' = self\<lparr>rd_start := rd_start self + 0, rd_pending_cr := rd_pending_cr self, rd_line := rd_line self + 1\<rparr>"
      using assms by (simp add: consume_newline_def)
    then show ?thesis using that False by blast
  next
    case True
    then obtain b where b: "slice_get (rd_buf self) (rd_start self) = Some b" using assms by (auto simp: consume_newline_def bind_eq_Some_conv)
    consider "b = CR" "rd_start self + 1 \<ge> rd_end self" | "b = CR" "rd_start self + 1 < rd_end self" | "b \<noteq> CR" by fastforce
    then show ?thesis
    proof cases
      case 1
      then have "self' = self\<lparr>rd_start := rd_start self + 1, rd_pending_cr := True, rd_line := rd_line self + 1\<rparr>"
        using assms True b by (simp add: consume_newline_def Let_def)
      then show ?thesis by (rule that) simp
    next
      case 2
      then obtain c where c: "slice_get (rd_buf self) (Suc (rd_start self)) = Some c"
        using assms True b by (cases "slice_get (rd_buf self) (Suc (rd_start self))") (simp_all add: consume_newline_def Let_def)
      then have "self' = self\<lparr>rd_start := rd_start self + (if c = LF then 2 else 1), rd_pending_cr := rd_pending_cr self, rd_line := rd_line self + 1\<rparr>"
        using assms True b 2 by (cases "c = LF") (simp_all add: consume_newline_def Let_def)
      then show ?thesis by (rule that) simp
    next
      case 3
      then have "self' = self\<lparr>rd_start := rd_start self + (if b = LF then 1 else 0), rd_pending_cr := rd_pending_cr self, rd_line := rd_line self + 1\<rparr>"
        using assms True b by (cases "b = LF") (simp_all add: consume_newline_def Let_def)
      then show ?thesis by (rule that) (use b 3 in simp)
    qed
  qed
qed

lemma add_quoted_same [simp]:
  "reads_left (add_quoted memchr self u) = reads_left self" "rd_start (add_quoted memchr self u) = rd_start self"
  "rd_end (add_quoted memchr self u) = rd_end self" "rd_buf (add_quoted memchr self u) = rd_buf self"
  by (simp_all add: add_quoted_def Let_def split_beta)

lemma row_quote_next_progress:
  assumes "row_quote_next self a = Some (RowContinue self')"
  shows "reads_left self' \<le> reads_left self" "reads_left self' = reads_left self \<longrightarrow> rd_end self' = rd_end self" "a \<le> rd_start self'"
proof -
  have at: "reads_left (double_quote base a) = reads_left base" "rd_end (double_quote base a) = rd_end base" "a \<le> rd_start (double_quote base a)"
    "reads_left (close_quoted base a) = reads_left base" "rd_end (close_quoted base a) = rd_end base" "a \<le> rd_start (close_quoted base a)" for base
    by (simp_all add: double_quote_def close_quoted_def push_range_def)
  have "(self' = double_quote self a \<or> self' = close_quoted self a) \<or>
      (\<exists>r base. fill_buf self = (r, base) \<and> (self' = double_quote base a \<or> self' = close_quoted base a))"
    using assms by (auto simp: row_quote_next_def bind_eq_Some_conv return_row_flow split: if_splits prod.splits sum.splits bool.splits)
  then show "reads_left self' \<le> reads_left self" "reads_left self' = reads_left self \<longrightarrow> rd_end self' = rd_end self" "a \<le> rd_start self'"
    using fill_buf_same [of self] at by auto
qed

lemma row_byte_progress:
  assumes "row_byte memchr self = Some (RowContinue self')"
  shows "reads_left self' \<le> reads_left self \<and> (rd_start self < rd_end self \<longrightarrow> (self', self) \<in> row_less)"
proof -
  obtain byte where b: "slice_get (rd_buf self) (rd_start self) = Some byte"
    using assms by (auto simp: row_byte_def bind_eq_Some_conv abandon_record_flow split: option.splits)
  consider "rd_pending_cr self" "self' = (if byte = LF then self\<lparr>rd_start := rd_start self + 1\<rparr> else self)\<lparr>rd_pending_cr := False\<rparr>"
    | "row_start_of_field self byte = Some (RowContinue self')" | "row_in_unquoted memchr self = Some (RowContinue self')"
    | "row_in_quoted memchr self = Some (RowContinue self')" | "row_after_quote memchr self byte = Some (RowContinue self')"
    using assms b by (auto simp: row_byte_def bind_eq_Some_conv abandon_record_flow Let_def split: option.splits if_splits csv_state.splits)
  then show ?thesis
  proof cases
    case 1
    then show ?thesis by (auto simp: row_measure_def)
  next
    case 2
    show ?thesis
    proof (cases "byte = CR \<or> byte = LF")
      case True
      define base where "base = (if rd_ranges self \<noteq> [] then push_range self (rd_start self) (rd_start self) SrcBuf else self)"
      have "consume_newline base = Some self'"
        using 2 True by (auto simp: row_start_of_field_def bind_eq_Some_conv return_row_flow base_def Let_def split: if_splits)
      from consume_newline_cases [OF this] obtain k cr where "self' = base\<lparr>rd_start := rd_start base + k, rd_pending_cr := cr, rd_line := rd_line base + 1\<rparr>"
        "rd_start base < rd_end base \<and> slice_get (rd_buf base) (rd_start base) \<in> {Some CR, Some LF} \<longrightarrow> 0 < k" by metis
      then show ?thesis using True b by (auto simp: row_measure_def base_def push_range_def)
    next
      case False
      then show ?thesis using 2 by (auto simp: row_start_of_field_def Let_def row_measure_def push_range_def split: if_splits)
    qed
  next
    case 3
    then show ?thesis by (auto simp: row_in_unquoted_def bind_eq_Some_conv abandon_record_flow return_row_flow Let_def row_measure_def push_range_def
        split: option.splits if_splits)
  next
    case 4
    then obtain hay where hay: "sub_slice (rd_buf self) (rd_start self) (rd_end self) = Some hay" by (auto simp: row_in_quoted_def bind_eq_Some_conv)
    show ?thesis
    proof (cases "memchr [QUOTE] hay")
      case None
      then show ?thesis using 4 hay by (auto simp: row_in_quoted_def bind_eq_Some_conv abandon_record_flow Let_def row_measure_def split: option.splits)
    next
      case (Some offset)
      then obtain u where "row_quote_next ((add_quoted memchr self u)\<lparr>rd_pending_lf_quoted := False\<rparr>) (rd_start self + offset + 1) = Some (RowContinue self')"
        using 4 hay by (auto simp: row_in_quoted_def bind_eq_Some_conv abandon_record_flow Let_def split: option.splits)
      from row_quote_next_progress [OF this] show ?thesis by (auto simp: row_measure_def)
    qed
  next
    case 5
    then show ?thesis by (auto simp: row_after_quote_def bind_eq_Some_conv abandon_record_flow return_row_flow row_measure_def split: if_splits)
  qed
qed

lemma row_step_progress: "row_step memchr self = Some (RowContinue self') \<Longrightarrow> (self', self) \<in> row_less"
proof (cases "rd_start self \<ge> rd_end self")
  case True
  assume "row_step memchr self = Some (RowContinue self')"
  with True obtain base where "fill_buf self = (Ok True, base)" "row_byte memchr base = Some (RowContinue self')"
    by (auto simp: row_step_def return_row_flow Let_def split: prod.splits sum.splits bool.splits if_splits)
  then show ?thesis using fill_buf_true [of self base] row_byte_progress [of memchr base self'] by (auto simp: row_measure_def)
next
  case False
  assume "row_step memchr self = Some (RowContinue self')"
  then show ?thesis using False row_byte_progress [of memchr self self'] by (simp add: row_step_def)
qed

function row_loop :: "finder \<Rightarrow> csv_reader \<Rightarrow> (bytes_row option \<times> csv_reader) option" where
  "row_loop memchr self =
     (case row_step memchr self of
        None \<Rightarrow> None
      | Some (RowContinue self) \<Rightarrow> row_loop memchr self
      | Some (RowReturn row self) \<Rightarrow> Some (row, self))"
  by pat_completeness auto
termination
  by (relation "inv_image row_less snd") (auto simp: wf_inv_image dest: row_step_progress)

declare row_loop.simps [simp del]

definition read_row :: "finder \<Rightarrow> csv_reader \<Rightarrow> (bytes_row option \<times> csv_reader) option" where
  "read_row memchr self =
     do {
       self \<leftarrow> compact self;
       let self = self\<lparr>rd_ranges := [], rd_scratch := [], rd_state := StartOfField, rd_pending_lf_quoted := False, rd_record_line := rd_line self\<rparr>;
       (r, self) \<leftarrow> strip_leading_bom self;
       case r of
         Err e \<Rightarrow> do { (row, self) \<leftarrow> build_bytes_row (self\<lparr>rd_eof := True\<rparr>) (Some e); Some (Some row, self) }
       | Ok _ \<Rightarrow> row_loop memchr (self\<lparr>rd_record_start := rd_discarded self + rd_start self\<rparr>)
     }"

text \<open>The first rows of the iterator, at most the given number.\<close>

fun read_rows :: "finder \<Rightarrow> nat \<Rightarrow> csv_reader \<Rightarrow> (bytes_row list \<times> csv_reader) option" where
  "read_rows memchr 0 self = Some ([], self)"
| "read_rows memchr (Suc n) self =
     do {
       (row, self) \<leftarrow> read_row memchr self;
       case row of
         None \<Rightarrow> Some ([], self)
       | Some row \<Rightarrow> do { (rows, self) \<leftarrow> read_rows memchr n self; Some (row # rows, self) }
     }"

section \<open>Access to rows\<close>

definition field_slice :: "bytes_row \<Rightarrow> field_range \<Rightarrow> byte list option" where
  "field_slice self r = sub_slice (br_buf self) (fr_start r) (fr_end r)"

definition bytes_row_len :: "bytes_row \<Rightarrow> nat" where
  "bytes_row_len self = length (br_ranges self)"

definition bytes_row_is_empty :: "bytes_row \<Rightarrow> bool" where
  "bytes_row_is_empty self \<longleftrightarrow> br_ranges self = []"

definition bytes_row_get :: "bytes_row \<Rightarrow> nat \<Rightarrow> byte list option option" where
  "bytes_row_get self index =
     (case slice_get (br_ranges self) index of None \<Rightarrow> Some None | Some r \<Rightarrow> map_option Some (field_slice self r))"

text \<open>The fields that \<open>iter\<close> yields.\<close>

definition bytes_row_iter :: "bytes_row \<Rightarrow> byte list list option" where
  "bytes_row_iter self = those (map (field_slice self) (br_ranges self))"

definition bytes_row_to_vec :: "bytes_row \<Rightarrow> (read_error, byte list list) result option" where
  "bytes_row_to_vec self =
     (case br_error self of Some e \<Rightarrow> Some (Err e) | None \<Rightarrow> map_option Ok (bytes_row_iter self))"

definition field_str :: "bytes_row \<Rightarrow> byte list \<Rightarrow> (read_error, byte list) result" where
  "field_str self bytes =
     (case from_utf8 bytes of Ok s \<Rightarrow> Ok s | Err _ \<Rightarrow> Err (read_error_new InvalidUtf8 (br_line self) 0))"

definition row_get :: "bytes_row \<Rightarrow> nat \<Rightarrow> (read_error, byte list) result option option" where
  "row_get self index =
     map_option (map_option (\<lambda>bytes. case br_error self of Some e \<Rightarrow> Err e | None \<Rightarrow> field_str self bytes)) (bytes_row_get self index)"

fun collect_fields :: "('e, 'a) result list \<Rightarrow> ('e, 'a list) result" where
  "collect_fields [] = Ok []"
| "collect_fields (Err e # rs) = Err e"
| "collect_fields (Ok x # rs) = (case collect_fields rs of Err e \<Rightarrow> Err e | Ok xs \<Rightarrow> Ok (x # xs))"

definition row_to_vec :: "bytes_row \<Rightarrow> (read_error, byte list list) result option" where
  "row_to_vec self =
     (case br_error self of
        Some e \<Rightarrow> Some (Err e)
      | None \<Rightarrow> map_option (\<lambda>ds. collect_fields (map (field_str self) ds)) (bytes_row_iter self))"

definition row_iter :: "bytes_row \<Rightarrow> (read_error, byte list) result list option" where
  "row_iter self =
     map_option (map (\<lambda>bytes. case br_error self of
         Some e \<Rightarrow> Err (read_error_new (re_kind e) (br_line self) 0)
       | None \<Rightarrow> field_str self bytes)) (bytes_row_iter self)"

definition parse_headers :: "finder \<Rightarrow> csv_reader \<Rightarrow> ((read_error, byte list list) result \<times> csv_reader) option" where
  "parse_headers memchr self =
     do {
       (row, self) \<leftarrow> read_row memchr self;
       case row of
         None \<Rightarrow> Some (Ok [], self)
       | Some row \<Rightarrow> do {
           r \<leftarrow> row_to_vec row;
           Some (case r of
               Err e \<Rightarrow> (Err e, self)
             | Ok headers \<Rightarrow> (Ok headers, self\<lparr>rd_headers_parsed := True, rd_num_fields := Some (length headers), rd_headers := headers\<rparr>))
         }
     }"

end
