(* ===== verification/Csv_Safe.thy ===== *)
theory Csv_Safe
  imports Csv_Reader
begin

text \<open>
  The invariant of the CSV reader and that it never panics: in every reachable state the window lies inside the buffer and
  the ranges of the fields inside their buffers, every operation keeps this, and then no index and no subtraction fails,
  whatever the source delivers and whatever the limits are.
\<close>

section \<open>The invariant\<close>

definition range_ok :: "byte list \<Rightarrow> byte list \<Rightarrow> raw_field \<Rightarrow> bool" where
  "range_ok buf scratch f \<longleftrightarrow> rf_start f \<le> rf_end f \<and>
     rf_end f \<le> length (case rf_src f of SrcBuf \<Rightarrow> buf | SrcScratch \<Rightarrow> scratch)"

text \<open>At every moment: the window is inside the buffer, the ranges of the fields are inside their buffers.\<close>

definition reader_ok :: "csv_reader \<Rightarrow> bool" where
  "reader_ok self \<longleftrightarrow> rd_start self \<le> rd_end self \<and> rd_end self = length (rd_buf self) \<and>
     rd_record_start self \<le> rd_discarded self + rd_start self \<and>
     list_all (range_ok (rd_buf self) (rd_scratch self)) (rd_ranges self) \<and>
     (rd_state self = InUnquoted \<longrightarrow> rd_field_start self \<le> rd_start self) \<and>
     (rd_state self = InQuoted \<longrightarrow> rd_scratch_field_start self \<le> length (rd_scratch self))"

lemma range_ok_grow: "range_ok buf scratch f \<Longrightarrow> range_ok (buf @ x) (scratch @ y) f"
  by (cases "rf_src f") (auto simp: range_ok_def)

lemma ranges_grow:
  "list_all (range_ok buf scratch) fs \<Longrightarrow> list_all (range_ok (buf @ x) scratch) fs"
  "list_all (range_ok buf scratch) fs \<Longrightarrow> list_all (range_ok buf (scratch @ y)) fs"
  using range_ok_grow [of buf scratch _ x "[]"] range_ok_grow [of buf scratch _ "[]" y] by (auto simp: list_all_iff)

text \<open>Reading appends to the buffer.\<close>

definition filled :: "csv_reader \<Rightarrow> byte list \<Rightarrow> read_event list \<Rightarrow> bool \<Rightarrow> csv_reader" where
  "filled self x source eof = self\<lparr>rd_buf := rd_buf self @ x, rd_source := source, rd_end := length (rd_buf self @ x), rd_eof := eof\<rparr>"

lemma fill_buf_eq:
  assumes "rd_end self = length (rd_buf self)"
  shows "fill_buf self =
    (if rd_eof self then (Ok False, self)
     else case rd_source self of
            [] \<Rightarrow> (Ok False, filled self [] [] True)
          | ReadBytes x # source \<Rightarrow>
              if x = [] then (Err (read_error_new NoProgress (rd_record_line self) 0), filled self [] source True) else (Ok True, filled self x source False)
          | ReadEnd # source \<Rightarrow> (Ok False, filled self [] source True)
          | ReadFail e # source \<Rightarrow> (Err e, filled self [] source False))"
proof -
  have same: "filled self x source eof = self\<lparr>rd_buf := rd_buf self @ x, rd_source := source, rd_end := rd_end self + length x, rd_eof := eof\<rparr>" for x source eof
    using assms by (simp add: filled_def)
  show ?thesis
    by (cases "rd_eof self"; cases "rd_source self"; cases "hd (rd_source self)")
      (auto simp: fill_buf_def Let_def same assms intro!: csv_reader.equality)
qed

lemma fill_buf_cases:
  assumes "fill_buf self = (r, self')" "rd_end self = length (rd_buf self)"
  shows "\<exists>x source eof. self' = filled self x source eof \<and> (r = Ok True \<longleftrightarrow> x \<noteq> [])"
proof -
  have "self = filled self [] (rd_source self) (rd_eof self)" using assms(2) by (simp add: filled_def)
  then show ?thesis using assms(1) unfolding fill_buf_eq [OF assms(2)]
    by (cases "rd_eof self"; cases "rd_source self"; cases "hd (rd_source self)") (auto split: if_splits)
qed

lemma fill_buf_ok:
  assumes "fill_buf self = (r, self')" "reader_ok self"
  shows "reader_ok self'" "r = Ok True \<Longrightarrow> rd_start self' < rd_end self'" "rd_start self' = rd_start self"
proof -
  have e: "rd_end self = length (rd_buf self)" using assms(2) by (simp add: reader_ok_def)
  obtain x source eof where "self' = filled self x source eof" and s2: "r = Ok True \<longleftrightarrow> x \<noteq> []" using fill_buf_cases [OF assms(1) e] by blast
  note s = this(1) [unfolded filled_def] s2
  show "reader_ok self'" using assms(2) ranges_grow(1) unfolding s(1) by (auto simp: reader_ok_def)
  show "r = Ok True \<Longrightarrow> rd_start self' < rd_end self'" using assms(2) s by (cases x) (auto simp: reader_ok_def)
  show "rd_start self' = rd_start self" using s(1) by simp
qed

lemma slice_get_window: "reader_ok self \<Longrightarrow> rd_start self < rd_end self \<Longrightarrow> slice_get (rd_buf self) (rd_start self) = Some (rd_buf self ! rd_start self)"
  by (simp add: reader_ok_def slice_get_def)

lemma window: "reader_ok self \<Longrightarrow> sub_slice (rd_buf self) (rd_start self) (rd_end self) = Some (drop (rd_start self) (rd_buf self))"
  by (simp add: reader_ok_def sub_slice_def)

lemma push_range_ok:
  "reader_ok self \<Longrightarrow> range_ok (rd_buf self) (rd_scratch self) \<lparr>rf_start = a, rf_end = b, rf_src = src\<rparr> \<Longrightarrow> reader_ok (push_range self a b src)"
  by (simp add: reader_ok_def push_range_def)

text \<open>A line end: one or two bytes, or a carriage return at the end of the buffer.\<close>

lemma consume_newline_ok:
  assumes "reader_ok self"
  shows "\<exists>k cr. consume_newline self = Some (self\<lparr>rd_start := rd_start self + k, rd_pending_cr := cr, rd_line := rd_line self + 1\<rparr>) \<and>
    rd_start self + k \<le> rd_end self"
proof -
  let ?s = "rd_start self"
  have get: "slice_get (rd_buf self) i = Some (rd_buf self ! i)" if "i < rd_end self" for i using that assms by (simp add: slice_get_def reader_ok_def)
  consider "?s \<ge> rd_end self" | "?s < rd_end self" "rd_buf self ! ?s = CR" "?s + 1 \<ge> rd_end self"
    | "?s < rd_end self" "rd_buf self ! ?s = CR" "?s + 1 < rd_end self" | "?s < rd_end self" "rd_buf self ! ?s \<noteq> CR" by fastforce
  then show ?thesis
  proof cases
    case 1
    then show ?thesis using assms by (intro exI [of _ 0] exI [of _ "rd_pending_cr self"]) (simp add: consume_newline_def reader_ok_def)
  next
    case 2
    then show ?thesis using get [of ?s] by (intro exI [of _ 1] exI [of _ True]) (simp add: consume_newline_def)
  next
    case 3
    then show ?thesis using get [of ?s] get [of "Suc ?s"]
      by (cases "rd_buf self ! Suc ?s = LF"; intro exI [of _ "if rd_buf self ! Suc ?s = LF then 2 else 1"] exI [of _ "rd_pending_cr self"])
        (simp_all add: consume_newline_def)
  next
    case 4
    then show ?thesis using get [of ?s]
      by (cases "rd_buf self ! ?s = LF"; intro exI [of _ "if rd_buf self ! ?s = LF then 1 else 0"] exI [of _ "rd_pending_cr self"])
        (simp_all add: consume_newline_def)
  qed
qed

lemma consume_newline_keeps:
  assumes "reader_ok self"
  shows "\<exists>self'. consume_newline self = Some self' \<and> reader_ok self' \<and> rd_ranges self' = rd_ranges self"
proof -
  obtain k cr where "consume_newline self = Some (self\<lparr>rd_start := rd_start self + k, rd_pending_cr := cr, rd_line := rd_line self + 1\<rparr>)"
    "rd_start self + k \<le> rd_end self" using consume_newline_ok [OF assms] by blast
  then show ?thesis using assms by (auto simp: reader_ok_def)
qed

section \<open>No panic\<close>

lemma sub_slice_range:
  "range_ok buf scratch f \<Longrightarrow> \<exists>x. sub_slice (case rf_src f of SrcBuf \<Rightarrow> buf | SrcScratch \<Rightarrow> scratch) (rf_start f) (rf_end f) = Some x"
  by (simp add: range_ok_def sub_slice_def)

lemma raw_slice_ok: "range_ok (rd_buf self) (rd_scratch self) f \<Longrightarrow> \<exists>x. raw_slice self f = Some x"
  using sub_slice_range [of "rd_buf self" "rd_scratch self" f] by (cases "rf_src f") (simp_all add: raw_slice_def)

text \<open>The pieces of a row, one after the other.\<close>

fun piece_ranges :: "nat \<Rightarrow> byte list list \<Rightarrow> field_range list" where
  "piece_ranges n [] = []"
| "piece_ranges n (x # xs) = \<lparr>fr_start = n, fr_end = n + length x\<rparr> # piece_ranges (n + length x) xs"

lemma piece_ranges_length [simp]: "length (piece_ranges n xs) = length xs"
  by (induction xs arbitrary: n) simp_all

lemma assemble_row_pieces:
  assumes "map (raw_slice self) fs = map Some xs"
  shows "assemble_row self fs buf ranges = Some (buf @ concat xs, ranges @ piece_ranges (length buf) xs)"
  using assms
proof (induction fs arbitrary: xs buf ranges)
  case (Cons f fs)
  then obtain x ys where "xs = x # ys" by (cases xs) auto
  then show ?case using Cons by simp
qed simp

lemma pieces_of_ranges:
  "list_all (range_ok (rd_buf self) (rd_scratch self)) fs \<Longrightarrow> \<exists>xs. map (raw_slice self) fs = map Some xs"
proof (induction fs)
  case (Cons f fs)
  then obtain xs x where "map (raw_slice self) fs = map Some xs" "raw_slice self f = Some x" using raw_slice_ok [of self f] by auto
  then show ?case by (intro exI [of _ "x # xs"]) simp
qed simp

lemma those_pieces: "those (map (\<lambda>r. sub_slice (buf @ concat xs) (fr_start r) (fr_end r)) (piece_ranges (length buf) xs)) = Some xs"
proof (induction xs arbitrary: buf)
  case (Cons x xs)
  have "sub_slice (buf @ x @ concat xs) (length buf) (length buf + length x) = Some x" by (simp add: sub_slice_def)
  then show ?case using Cons [of "buf @ x"] by simp
qed simp

text \<open>The row of a list of fields.\<close>

definition row_of :: "byte list list \<Rightarrow> read_error option \<Rightarrow> nat \<Rightarrow> bytes_row" where
  "row_of xs error line = \<lparr>br_buf = concat xs, br_ranges = piece_ranges 0 xs, br_error = error, br_line = line\<rparr>"

lemma row_of_fields: "bytes_row_iter (row_of xs error line) = Some xs"
  using those_pieces [of "[]" xs] by (simp add: bytes_row_iter_def row_of_def field_slice_def [abs_def])

text \<open>The error of a row, with the check of the number of its fields.\<close>

definition count_error :: "csv_reader \<Rightarrow> nat \<Rightarrow> read_error option \<Rightarrow> read_error option" where
  "count_error self n error =
     (if \<not> rd_flexible self \<and> error = None
      then case rd_num_fields self of
             Some expected \<Rightarrow> if n \<noteq> expected then Some (read_error_new (InconsistentFieldCount expected n) (rd_record_line self) 0) else None
           | None \<Rightarrow> None
      else error)"

definition count_fields :: "csv_reader \<Rightarrow> nat \<Rightarrow> read_error option \<Rightarrow> nat option" where
  "count_fields self n error = (if rd_num_fields self = None \<and> n > 0 \<and> error = None then Some n else rd_num_fields self)"

lemma build_bytes_row_pieces:
  assumes "map (raw_slice self) (rd_ranges self) = map Some xs"
  shows "build_bytes_row self error = Some (row_of xs (count_error self (length xs) error) (rd_record_line self),
    self\<lparr>rd_num_fields := count_fields self (length xs) (count_error self (length xs) error)\<rparr>)"
proof -
  have a: "assemble_row self (rd_ranges self) [] [] = Some (concat xs, piece_ranges 0 xs)" using assemble_row_pieces [OF assms, of "[]" "[]"] by simp
  have err: "(if \<not> rd_flexible self then case error of Some e \<Rightarrow> Some e | None \<Rightarrow> (case rd_num_fields self of
      Some expected \<Rightarrow> if n \<noteq> expected then Some (read_error_new (InconsistentFieldCount expected n) (rd_record_line self) 0) else None
    | None \<Rightarrow> None) else error) = count_error self n error" for n
    by (cases error) (simp_all add: count_error_def)
  have upd: "(if rd_num_fields self = None \<and> n > 0 \<and> e = None then self\<lparr>rd_num_fields := Some n\<rparr> else self) =
      self\<lparr>rd_num_fields := count_fields self n e\<rparr>" for n e
    by (simp add: count_fields_def)
  show ?thesis unfolding build_bytes_row_def a bind.bind_lunit prod.case Let_def err upd piece_ranges_length by (simp add: row_of_def)
qed

definition flow_ok :: "row_flow option \<Rightarrow> bool" where
  "flow_ok f \<longleftrightarrow> (case f of
     None \<Rightarrow> False
   | Some (RowContinue self) \<Rightarrow> reader_ok self
   | Some (RowReturn row self) \<Rightarrow> reader_ok self \<and> (\<forall>r. row = Some r \<longrightarrow> (\<exists>xs e l. r = row_of xs e l)))"

lemma flow_ok_simps [simp]:
  "\<not> flow_ok None" "flow_ok (Some (RowContinue self)) \<longleftrightarrow> reader_ok self" "flow_ok (Some (RowReturn None self)) \<longleftrightarrow> reader_ok self"
  by (simp_all add: flow_ok_def)

lemma reader_ok_update [simp]:
  "reader_ok (self\<lparr>rd_num_fields := n\<rparr>) = reader_ok self" "reader_ok (self\<lparr>rd_eof := eof\<rparr>) = reader_ok self"
  "reader_ok (self\<lparr>rd_pending_cr := c\<rparr>) = reader_ok self" "reader_ok (self\<lparr>rd_pending_lf_quoted := c\<rparr>) = reader_ok self"
  "reader_ok (self\<lparr>rd_line := l\<rparr>) = reader_ok self"
  by (simp_all add: reader_ok_def)

lemma return_row_ok: "reader_ok self \<Longrightarrow> flow_ok (return_row self error)"
proof -
  assume ok: "reader_ok self"
  then obtain xs where "map (raw_slice self) (rd_ranges self) = map Some xs" using pieces_of_ranges [of self "rd_ranges self"] by (auto simp: reader_ok_def)
  from build_bytes_row_pieces [OF this, of error] show ?thesis using ok by (auto simp: return_row_def flow_ok_def)
qed

lemma finalize_ok: "reader_ok self \<Longrightarrow> reader_ok (finalize_current_field self)"
  by (cases "rd_state self") (auto simp: finalize_current_field_def reader_ok_def push_range_def range_ok_def)

text \<open>The search that \<open>memchr_spec\<close> describes.\<close>

definition memchr_ref :: finder where
  "memchr_ref needles haystack = find_pos (\<lambda>b. b \<in> set needles) haystack"

lemma memchr_spec_iff: "memchr_spec memchr \<longleftrightarrow> memchr = memchr_ref"
  by (auto simp: memchr_spec_def memchr_ref_def fun_eq_iff)

lemma memchr_ref_Some: "memchr_ref ns h = Some k \<Longrightarrow> k < length h \<and> h ! k \<in> set ns \<and> take k h = takeWhile (\<lambda>b. b \<notin> set ns) h"
proof -
  assume "memchr_ref ns h = Some k"
  then have k: "k = length (takeWhile (\<lambda>b. b \<notin> set ns) h)" and "\<exists>b \<in> set h. b \<in> set ns"
    by (auto simp: memchr_ref_def find_pos_takeWhile split: if_splits)
  then have "takeWhile (\<lambda>b. b \<notin> set ns) h \<noteq> h" by (metis set_takeWhileD)
  then have "k < length h" unfolding k by (metis length_takeWhile_le le_neq_implies_less takeWhile_eq_take take_all)
  then show ?thesis using nth_length_takeWhile [of "\<lambda>b. b \<notin> set ns" h] takeWhile_eq_take [of "\<lambda>b. b \<notin> set ns" h] by (simp add: k)
qed

lemma memchr_ref_None: "memchr_ref ns h = None \<longleftrightarrow> (\<forall>b \<in> set h. b \<notin> set ns)"
  by (auto simp: memchr_ref_def find_pos_takeWhile)

lemma reader_ok_start: "reader_ok self \<Longrightarrow> rd_start self \<le> a \<Longrightarrow> a \<le> rd_end self \<Longrightarrow> reader_ok (self\<lparr>rd_start := a\<rparr>)"
  by (auto simp: reader_ok_def)

lemma consumed_ok: "reader_ok self \<Longrightarrow> \<exists>n. consumed self = Some n"
  by (simp add: consumed_def usize_sub_def reader_ok_def)

abbreviation tail_less :: "(csv_reader \<times> csv_reader) set" where
  "tail_less \<equiv> inv_image (less_than <*lex*> less_than) (\<lambda>self. (reads_left self, rd_end self - rd_start self))"

lemma tail_less_wf: "wf tail_less"
  by (intro wf_inv_image wf_lex_prod wf_less_than)

text \<open>One round of the loop, with the bytes that \<open>fill_buf\<close> delivers.\<close>

lemma tail_filled:
  assumes "(if rd_start self \<ge> rd_end self then fill_buf self else (Ok True, self)) = (r, base)" "reader_ok self"
  shows "reader_ok base" "r = Ok True \<Longrightarrow> rd_start base < rd_end base"
    "r = Ok True \<Longrightarrow> (base\<lparr>rd_start := rd_end base\<rparr>, self) \<in> tail_less"
proof (atomize (full), cases "rd_start self \<ge> rd_end self")
  case True
  then have f: "fill_buf self = (r, base)" using assms(1) by simp
  show "reader_ok base \<and> (r = Ok True \<longrightarrow> rd_start base < rd_end base) \<and> (r = Ok True \<longrightarrow> (base\<lparr>rd_start := rd_end base\<rparr>, self) \<in> tail_less)"
    using fill_buf_ok [OF f assms(2)] fill_buf_true [of self base] f by auto
next
  case False
  then show "reader_ok base \<and> (r = Ok True \<longrightarrow> rd_start base < rd_end base) \<and> (r = Ok True \<longrightarrow> (base\<lparr>rd_start := rd_end base\<rparr>, self) \<in> tail_less)"
    using assms by auto
qed

lemma skip_record_tail_ok:
  "reader_ok self \<Longrightarrow> \<exists>b self'. skip_record_tail memchr_ref self = Some (b, self') \<and> reader_ok self'"
proof (induction self rule: wf_induct_rule [OF tail_less_wf])
  case (1 self)
  obtain r base where f: "(if rd_start self \<ge> rd_end self then fill_buf self else (Ok True, self)) = (r, base)" by (meson surj_pair)
  note base = tail_filled [OF f 1(2)]
  note simp = skip_record_tail.simps [of memchr_ref self, unfolded f, unfolded Let_def prod.case]
  consider "r \<noteq> Ok True" | "r = Ok True" "rd_pending_cr base" | "r = Ok True" "\<not> rd_pending_cr base" by blast
  then show ?case
  proof cases
    case 1
    then show ?thesis using simp base(1) by auto
  next
    case 2
    then show ?thesis using simp slice_get_window [OF base(1) base(2)] reader_ok_start [OF base(1), of "Suc (rd_start base)"] base(1,2)
      by (cases "rd_buf base ! rd_start base = LF") auto
  next
    case 3
    let ?h = "drop (rd_start base) (rd_buf base)"
    show ?thesis
    proof (cases "memchr_ref [CR, LF] ?h")
      case (Some k)
      have "reader_ok (base\<lparr>rd_start := rd_start base + k\<rparr>)"
        using memchr_ref_Some [OF Some] base(1) by (intro reader_ok_start) (auto simp: reader_ok_def)
      from consume_newline_keeps [OF this] show ?thesis using simp 3 Some window [OF base(1)] by auto
    next
      case None
      define next_self where "next_self = base\<lparr>rd_start := rd_end base\<rparr>"
      have ok: "reader_ok next_self" unfolding next_self_def using base(1) by (intro reader_ok_start) (auto simp: reader_ok_def)
      obtain over where over: "(case rd_max_record_bytes next_self of Some limit \<Rightarrow> map_option (\<lambda>n. n > limit) (consumed next_self) | None \<Rightarrow> Some False) = Some over"
        using consumed_ok [OF ok] by (cases "rd_max_record_bytes next_self") auto
      then have step: "skip_record_tail memchr_ref self = (if over then Some (False, next_self) else skip_record_tail memchr_ref next_self)"
        using simp 3 None window [OF base(1)] unfolding next_self_def by simp
      show ?thesis using step 1(1) [OF base(3) [OF 3(1), folded next_self_def] ok] ok by (cases over) auto
    qed
  qed
qed

lemma abandon_record_ok: "reader_ok self \<Longrightarrow> flow_ok (abandon_record memchr_ref self kind)"
proof -
  assume ok: "reader_ok self"
  have stop: "reader_ok (self\<lparr>rd_start := rd_end self, rd_eof := True\<rparr>)" using ok by (auto simp: reader_ok_def)
  obtain b self' where "skip_record_tail memchr_ref (finalize_current_field self) = Some (b, self')" "reader_ok self'"
    using skip_record_tail_ok [OF finalize_ok [OF ok]] by blast
  then show ?thesis using stop by (cases kind) (auto simp: abandon_record_def Let_def intro!: return_row_ok)
qed

lemma row_start_of_field_ok:
  assumes "reader_ok self" "rd_start self < rd_end self"
  shows "flow_ok (row_start_of_field self byte)"
proof -
  define base where "base = (if rd_ranges self \<noteq> [] then push_range self (rd_start self) (rd_start self) SrcBuf else self)"
  have empty: "range_ok (rd_buf self) (rd_scratch self) \<lparr>rf_start = rd_start self, rf_end = rd_start self, rf_src = SrcBuf\<rparr>"
    using assms by (simp add: range_ok_def reader_ok_def)
  then have "reader_ok base" using assms(1) push_range_ok by (simp add: base_def)
  from consume_newline_keeps [OF this] obtain self' where n: "consume_newline base = Some self'" "reader_ok self'" by blast
  have "flow_ok (row_start_of_field self byte)" if "byte = CR \<or> byte = LF"
    using that n return_row_ok [OF n(2)] by (auto simp: row_start_of_field_def base_def [symmetric] Let_def)
  moreover have "flow_ok (row_start_of_field self byte)" if "\<not> (byte = CR \<or> byte = LF)"
    using that assms empty by (auto simp: row_start_of_field_def Let_def reader_ok_def push_range_def)
  ultimately show ?thesis by blast
qed

lemma row_in_unquoted_ok:
  assumes "reader_ok self" "rd_state self = InUnquoted"
  shows "flow_ok (row_in_unquoted memchr_ref self)"
proof (cases "memchr_ref [rd_delimiter self, CR, LF] (drop (rd_start self) (rd_buf self))")
  case None
  have ok: "reader_ok (self\<lparr>rd_start := rd_end self\<rparr>)" using assms(1) by (intro reader_ok_start) (auto simp: reader_ok_def)
  have "usize_sub (rd_end self) (rd_field_start self) \<noteq> None" using assms by (auto simp: usize_sub_def reader_ok_def)
  then show ?thesis using None window [OF assms(1)] ok abandon_record_ok [OF ok] by (auto simp: row_in_unquoted_def Let_def split: option.split)
next
  case (Some k)
  define pos where "pos = rd_start self + k"
  note m = memchr_ref_Some [OF Some]
  have pos: "rd_field_start self \<le> pos" "pos < rd_end self" "pos < length (rd_buf self)" "rd_start self \<le> pos"
    using m assms by (auto simp: pos_def reader_ok_def)
  define base where "base = push_range self (rd_field_start self) pos SrcBuf"
  have ok: "reader_ok base" unfolding base_def using pos assms(1) by (intro push_range_ok) (simp_all add: range_ok_def)
  have same: "rd_start base = rd_start self" "rd_end base = rd_end self" "rd_buf base = rd_buf self" "rd_delimiter base = rd_delimiter self"
    by (simp_all add: base_def push_range_def)
  have "reader_ok (base\<lparr>rd_start := pos\<rparr>)" using ok pos same by (intro reader_ok_start) simp_all
  from consume_newline_keeps [OF this] obtain self' where n: "consume_newline (base\<lparr>rd_start := pos\<rparr>) = Some self'" "reader_ok self'" by blast
  have "reader_ok (base\<lparr>rd_start := pos + 1, rd_state := StartOfField\<rparr>)" using ok pos same by (auto simp: reader_ok_def)
  moreover have "slice_get (rd_buf base) pos = Some (rd_buf self ! pos)" using pos same by (simp add: slice_get_def)
  moreover have "usize_sub pos (rd_field_start self) = Some (pos - rd_field_start self)" using pos by (simp add: usize_sub_def)
  ultimately show ?thesis using Some window [OF assms(1)] n return_row_ok [OF n(2)] abandon_record_ok [OF assms(1)]
    by (simp add: row_in_unquoted_def pos_def [symmetric] base_def [symmetric] Let_def same split: option.split)
qed

lemma close_quoted_ok:
  assumes "reader_ok self" "rd_scratch_field_start self \<le> length (rd_scratch self)" "rd_start self \<le> a" "a \<le> rd_end self"
  shows "reader_ok (close_quoted self a)" "reader_ok self \<Longrightarrow> a < rd_end self \<Longrightarrow> reader_ok (double_quote self a)"
proof -
  have "reader_ok (push_range self (rd_scratch_field_start self) (length (rd_scratch self)) SrcScratch)"
    using assms by (intro push_range_ok) (simp_all add: range_ok_def)
  then show "reader_ok (close_quoted self a)" using assms(3,4) by (auto simp: reader_ok_def close_quoted_def push_range_def)
  show "a < rd_end self \<Longrightarrow> reader_ok (double_quote self a)"
    using assms ranges_grow(2) by (auto simp: reader_ok_def double_quote_def)
qed

lemma row_quote_next_ok:
  assumes "reader_ok self" "rd_scratch_field_start self \<le> length (rd_scratch self)" "rd_start self \<le> a" "a \<le> rd_end self"
  shows "flow_ok (row_quote_next self a)"
proof (cases "a < rd_end self")
  case True
  then have "slice_get (rd_buf self) a = Some (rd_buf self ! a)" using assms(1) by (simp add: slice_get_def reader_ok_def)
  then show ?thesis using True close_quoted_ok [OF assms] assms(1) by (simp add: row_quote_next_def)
next
  case False
  obtain r base where f: "fill_buf self = (r, base)" by fastforce
  have e: "rd_end self = length (rd_buf self)" using assms(1) by (simp add: reader_ok_def)
  obtain x source eof where b: "base = filled self x source eof" "r = Ok True \<longleftrightarrow> x \<noteq> []" using fill_buf_cases [OF f e] by blast
  have base: "reader_ok base" "rd_scratch_field_start base \<le> length (rd_scratch base)" "rd_start base \<le> a" "a \<le> rd_end base"
    using fill_buf_ok(1) [OF f assms(1)] assms e by (simp_all add: b(1) filled_def)
  note c = close_quoted_ok [OF base]
  have "a < rd_end base" if "r = Ok True" using that assms(4) False e b by (cases x) (auto simp: filled_def)
  then show ?thesis using False f c base(1) return_row_ok [OF c(1)]
    by (cases r) (auto simp: row_quote_next_def split: bool.splits)
qed

lemma add_quoted_ok: "reader_ok self \<Longrightarrow> reader_ok (add_quoted memchr self u)"
  using ranges_grow(2) by (auto simp: reader_ok_def add_quoted_def Let_def split_beta)

lemma row_in_quoted_ok:
  assumes "reader_ok self" "rd_state self = InQuoted"
  shows "flow_ok (row_in_quoted memchr_ref self)"
proof -
  let ?h = "drop (rd_start self) (rd_buf self)"
  have scr: "rd_scratch_field_start self \<le> length (rd_scratch self)" using assms by (simp add: reader_ok_def)
  then have copied: "usize_sub (length (rd_scratch self)) (rd_scratch_field_start self) = Some (length (rd_scratch self) - rd_scratch_field_start self)"
    by (simp add: usize_sub_def)
  have grow: "rd_scratch (add_quoted memchr self u) = rd_scratch self @ u" "rd_scratch_field_start (add_quoted memchr self u) = rd_scratch_field_start self" for memchr u
    by (simp_all add: add_quoted_def Let_def split_beta)
  show ?thesis
  proof (cases "memchr_ref [QUOTE] ?h")
    case None
    have ok: "reader_ok ((add_quoted memchr_ref self ?h)\<lparr>rd_start := rd_end self\<rparr>)"
      using add_quoted_ok [OF assms(1)] assms(1) by (intro reader_ok_start) (auto simp: reader_ok_def)
    then show ?thesis using None window [OF assms(1)] scr abandon_record_ok [OF ok]
      by (auto simp: row_in_quoted_def Let_def grow usize_sub_def split: option.split)
  next
    case (Some k)
    note m = memchr_ref_Some [OF Some]
    define q where "q = rd_start self + k"
    have q: "rd_start self \<le> q" "q < rd_end self" "q < length (rd_buf self)" using m assms(1) by (auto simp: q_def reader_ok_def)
    then obtain u where u: "sub_slice (rd_buf self) (rd_start self) q = Some u" by (simp add: sub_slice_def)
    define mid where "mid = (add_quoted memchr_ref self u)\<lparr>rd_pending_lf_quoted := False\<rparr>"
    have "reader_ok mid" "rd_scratch_field_start mid \<le> length (rd_scratch mid)" "rd_start mid \<le> Suc q" "Suc q \<le> rd_end mid"
      using add_quoted_ok [OF assms(1), of memchr_ref u] scr q by (simp_all add: mid_def grow)
    from row_quote_next_ok [OF this] show ?thesis using Some window [OF assms(1)] u copied abandon_record_ok [OF assms(1)]
      by (auto simp: row_in_quoted_def q_def [symmetric] mid_def [symmetric] Let_def split: option.split)
  qed
qed

lemma row_byte_ok:
  assumes "reader_ok self" "rd_start self < rd_end self"
  shows "flow_ok (row_byte memchr_ref self)"
proof -
  obtain limit where limit: "limit_exceeded self = Some limit"
    using consumed_ok [OF assms(1)] by (cases "rd_max_record_bytes self") (auto simp: limit_exceeded_def)
  show ?thesis
  proof (cases limit)
    case (Some kind)
    then show ?thesis using limit abandon_record_ok [OF assms(1)] by (simp add: row_byte_def)
  next
    case None
    have "flow_ok (row_after_quote memchr_ref self byte)" if "rd_state self = AfterQuote" for byte
      using consume_newline_keeps [OF assms(1)] return_row_ok abandon_record_ok [OF assms(1), of TrailingContent] assms that
      by (auto simp: row_after_quote_def reader_ok_def)
    moreover have "reader_ok (self\<lparr>rd_start := Suc (rd_start self)\<rparr>)" using assms by (intro reader_ok_start) simp_all
    ultimately show ?thesis using limit None slice_get_window [OF assms] row_start_of_field_ok [OF assms] row_in_unquoted_ok [OF assms(1)]
        row_in_quoted_ok [OF assms(1)] assms(1)
      by (cases "rd_state self") (simp_all add: row_byte_def Let_def)
  qed
qed

lemma row_step_ok: "reader_ok self \<Longrightarrow> flow_ok (row_step memchr_ref self)"
proof (cases "rd_start self \<ge> rd_end self")
  case True
  assume ok: "reader_ok self"
  obtain r base where f: "fill_buf self = (r, base)" by fastforce
  note b = fill_buf_ok [OF f ok]
  show ?thesis
  proof (cases r)
    case (Inl e)
    have "reader_ok (if rd_state base = InQuoted then base\<lparr>rd_eof := True\<rparr> else finalize_current_field (base\<lparr>rd_eof := True\<rparr>))"
      using b(1) finalize_ok [of "base\<lparr>rd_eof := True\<rparr>"] by simp
    then show ?thesis using True f Inl return_row_ok by (simp add: row_step_def Let_def)
  next
    case (Inr more)
    then show ?thesis using True f b(1) row_byte_ok [OF b(1) b(2)] return_row_ok finalize_ok [OF b(1)] by (cases more) (simp_all add: row_step_def)
  qed
qed (simp add: row_step_def row_byte_ok)

lemma row_loop_ok: "reader_ok self \<Longrightarrow> \<exists>row self'. row_loop memchr_ref self = Some (row, self') \<and> reader_ok self' \<and> (\<forall>r. row = Some r \<longrightarrow> (\<exists>xs e l. r = row_of xs e l))"
proof (induction memchr_ref self rule: row_loop.induct)
  case (1 self)
  show ?case
  proof (cases "row_step memchr_ref self")
    case (Some flow)
    then show ?thesis using 1 row_step_ok [OF 1(2)]
      by (subst row_loop.simps, cases flow) (auto simp: flow_ok_def)
  qed (use row_step_ok [OF 1(2)] in simp)
qed

lemma bom_fill_ok: "reader_ok self \<Longrightarrow> \<exists>r self'. bom_fill self = Some (r, self') \<and> reader_ok self'"
proof (induction self rule: bom_fill.induct)
  case (1 self)
  have sub: "usize_sub (rd_end self) (rd_start self) = Some (rd_end self - rd_start self)" using 1(2) by (simp add: usize_sub_def reader_ok_def)
  obtain r base where f: "fill_buf self = (r, base)" by fastforce
  note ok = fill_buf_ok(1) [OF f 1(2)]
  show ?case
  proof (cases "rd_end self - rd_start self < 3 \<and> \<not> rd_eof self")
    case True
    show ?thesis
    proof (cases r)
      case (Inr more)
      have "\<exists>r self'. bom_fill base = Some (r, self') \<and> reader_ok self'" using 1(1) [OF sub True] f Inr ok by auto
      then show ?thesis using True sub f Inr by (subst bom_fill.simps) simp
    qed (use True sub f ok in \<open>subst bom_fill.simps, simp\<close>)
  next
    case False
    then show ?thesis using sub 1(2) by (subst bom_fill.simps) auto
  qed
qed

lemma strip_leading_bom_ok:
  assumes "reader_ok self"
  shows "\<exists>r self'. strip_leading_bom self = Some (r, self') \<and> reader_ok self'"
proof -
  have ok: "reader_ok (self\<lparr>rd_bom_checked := True\<rparr>)" using assms by (simp add: reader_ok_def)
  obtain r base where b: "bom_fill (self\<lparr>rd_bom_checked := True\<rparr>) = Some (r, base)" "reader_ok base" using bom_fill_ok [OF ok] by blast
  have rest: "sub_slice (rd_buf base) (rd_start base) (length (rd_buf base)) = Some (drop (rd_start base) (rd_buf base))"
    using b(2) by (simp add: sub_slice_def reader_ok_def)
  have "3 \<le> length (drop (rd_start base) (rd_buf base))" if "take 3 (drop (rd_start base) (rd_buf base)) = BOM"
    using arg_cong [OF that, of length] by (simp add: BOM_def)
  then have "reader_ok (base\<lparr>rd_start := rd_start base + 3\<rparr>)" if "take 3 (drop (rd_start base) (rd_buf base)) = BOM"
    using that b(2) by (intro reader_ok_start) (auto simp: reader_ok_def)
  then show ?thesis using b ok assms rest by (cases r) (auto simp: strip_leading_bom_def Let_def)
qed

definition compacts :: "csv_reader \<Rightarrow> bool" where
  "compacts self \<longleftrightarrow> rd_start self \<noteq> 0 \<and> \<not> (rd_start self < 4096 \<and> rd_start self * 2 < length (rd_buf self))"

lemma compact_eq:
  assumes "rd_start self \<le> rd_end self" "rd_end self = length (rd_buf self)"
  shows "compact self = Some (if \<not> compacts self then self
    else self\<lparr>rd_buf := drop (rd_start self) (rd_buf self), rd_end := rd_end self - rd_start self, rd_start := 0,
      rd_discarded := rd_discarded self + rd_start self\<rparr>)"
proof (cases "compacts self")
  case True
  then have n: "rd_start self \<noteq> 0" "\<not> (rd_start self < 4096 \<and> rd_start self * 2 < length (rd_buf self))" by (auto simp: compacts_def)
  have sub: "usize_sub (rd_end self) (rd_start self) = Some (rd_end self - rd_start self)" using assms by (simp add: usize_sub_def)
  have slice: "sub_slice (rd_buf self) (rd_start self) (rd_end self) = Some (drop (rd_start self) (rd_buf self))" using assms by (simp add: sub_slice_def)
  show ?thesis using True sub slice assms(2) unfolding compact_def if_not_P [OF n(1)] if_not_P [OF n(2)] Let_def
    by (cases "rd_end self - rd_start self > 0") simp_all
next
  case False
  then show ?thesis by (auto simp: compact_def compacts_def)
qed

lemma compact_ok:
  assumes "reader_ok self"
  shows "\<exists>self'. compact self = Some self' \<and> (\<forall>line. reader_ok (self'\<lparr>rd_ranges := [], rd_scratch := [], rd_state := StartOfField,
    rd_pending_lf_quoted := False, rd_record_line := line\<rparr>))"
proof -
  have w: "rd_start self \<le> rd_end self" "rd_end self = length (rd_buf self)" "rd_record_start self \<le> rd_discarded self + rd_start self" using assms by (simp_all add: reader_ok_def)
  show ?thesis using w unfolding compact_eq [OF w(1,2)]
    by (cases "compacts self") (simp_all add: reader_ok_def)
qed

lemma read_row_ok:
  assumes "reader_ok self"
  shows "\<exists>row self'. read_row memchr_ref self = Some (row, self') \<and> reader_ok self' \<and> (\<forall>r. row = Some r \<longrightarrow> (\<exists>xs e l. r = row_of xs e l))"
proof -
  obtain c where c: "compact self = Some c" "reader_ok (c\<lparr>rd_ranges := [], rd_scratch := [], rd_state := StartOfField,
    rd_pending_lf_quoted := False, rd_record_line := rd_line c\<rparr>)" using compact_ok [OF assms] by blast
  obtain r base where b: "strip_leading_bom (c\<lparr>rd_ranges := [], rd_scratch := [], rd_state := StartOfField,
    rd_pending_lf_quoted := False, rd_record_line := rd_line c\<rparr>) = Some (r, base)" "reader_ok base" using strip_leading_bom_ok [OF c(2)] by blast
  show ?thesis
  proof (cases r)
    case (Inl e)
    have "flow_ok (return_row (base\<lparr>rd_eof := True\<rparr>) (Some e))" using b(2) by (intro return_row_ok) simp
    then show ?thesis using c(1) b(1) Inl by (cases "build_bytes_row (base\<lparr>rd_eof := True\<rparr>) (Some e)") (auto simp: read_row_def Let_def return_row_def flow_ok_def)
  next
    case (Inr u)
    have "reader_ok (base\<lparr>rd_record_start := rd_discarded base + rd_start base\<rparr>)" using b(2) by (simp add: reader_ok_def)
    from row_loop_ok [OF this] show ?thesis using c(1) b(1) Inr by (simp add: read_row_def Let_def)
  qed
qed

lemma read_rows_ok:
  "reader_ok self \<Longrightarrow> \<exists>rows self'. read_rows memchr_ref n self = Some (rows, self') \<and> reader_ok self' \<and> list_all (\<lambda>r. \<exists>xs e l. r = row_of xs e l) rows"
proof (induction n arbitrary: self)
  case (Suc n)
  obtain row base where r: "read_row memchr_ref self = Some (row, base)" "reader_ok base" "\<forall>r. row = Some r \<longrightarrow> (\<exists>xs e l. r = row_of xs e l)"
    using read_row_ok [OF Suc.prems] by blast
  obtain rows self' where rs: "read_rows memchr_ref n base = Some (rows, self')" "reader_ok self'" "list_all (\<lambda>r. \<exists>xs e l. r = row_of xs e l) rows"
    using Suc.IH [OF r(2)] by blast
  then show ?case using r by (cases row) auto
qed simp

end
