(* ===== verification/Csv_Correct.thy ===== *)
theory Csv_Correct
  imports Csv_Safe
begin

text \<open>
  The specification of a CSV record, read byte by byte from a text, and what relates a reader to it: the text ahead of
  the reader, the fields it has read and the part of the field it is in. \<open>will_read\<close> is the record that the
  specification reads from there; \<open>returns\<close> says that a round of the reader keeps it or returns it.
\<close>

section \<open>Records of a text\<close>

text \<open>
  The specification reads a whole text byte by byte. A record is read from a state, with the fields and the part of a
  field already read, whether the byte before was a carriage return inside quotes, and the line number.
\<close>

datatype record_read = NoRecord nat | RecordRead "byte list list" "read_error_kind option" nat "byte list"

fun skip_newline :: "byte list \<Rightarrow> byte list" where
  "skip_newline [] = []"
| "skip_newline (b # u) = (if b = CR \<and> u \<noteq> [] \<and> hd u = LF then tl u else u)"

lemma skip_newline_length: "u \<noteq> [] \<Longrightarrow> length (skip_newline u) < length u"
  by (cases u) auto

function csv_record :: "byte \<Rightarrow> csv_state \<Rightarrow> byte list list \<Rightarrow> byte list \<Rightarrow> bool \<Rightarrow> nat \<Rightarrow> byte list \<Rightarrow> record_read" where
  "csv_record d state fs cur cr line [] =
     (case state of
        StartOfField \<Rightarrow> if fs = [] then NoRecord line else RecordRead (fs @ [[]]) None line []
      | InUnquoted \<Rightarrow> RecordRead (fs @ [cur]) None line []
      | InQuoted \<Rightarrow> RecordRead fs (Some UnterminatedQuote) line []
      | AfterQuote \<Rightarrow> RecordRead fs None line [])"
| "csv_record d state fs cur cr line (b # u) =
     (case state of
        StartOfField \<Rightarrow>
          if is_newline b then
            if fs = [] then csv_record d StartOfField [] [] False (line + 1) (skip_newline (b # u))
            else RecordRead (fs @ [[]]) None (line + 1) (skip_newline (b # u))
          else if b = d then csv_record d StartOfField (fs @ [[]]) [] False line u
          else if b = QUOTE then csv_record d InQuoted fs [] False line u
          else csv_record d InUnquoted fs [b] False line u
      | InUnquoted \<Rightarrow>
          if b = d then csv_record d StartOfField (fs @ [cur]) [] False line u
          else if is_newline b then RecordRead (fs @ [cur]) None (line + 1) (skip_newline (b # u))
          else csv_record d InUnquoted fs (cur @ [b]) False line u
      | InQuoted \<Rightarrow>
          if b = QUOTE then
            if u \<noteq> [] \<and> hd u = QUOTE then csv_record d InQuoted fs (cur @ [QUOTE]) False line (tl u)
            else csv_record d AfterQuote (fs @ [cur]) [] False line u
          else csv_record d InQuoted fs (cur @ [b]) (b = CR) (if b = CR \<or> b = LF \<and> \<not> cr then line + 1 else line) u
      | AfterQuote \<Rightarrow>
          if b = d then csv_record d StartOfField fs [] False line u
          else if is_newline b then RecordRead fs None (line + 1) (skip_newline (b # u))
          else let tail = dropWhile (\<lambda>c. \<not> is_newline c) (b # u)
               in RecordRead fs (Some TrailingContent) (if tail = [] then line else line + 1) (skip_newline tail))"
  by pat_completeness auto
termination
  by (relation "measure (\<lambda>(d, state, fs, cur, cr, line, u). length u)") (auto simp: length_tl intro: le_less_trans [OF _ lessI])

declare csv_record.simps [simp del]

lemma newline_literals [simp]: "is_newline CR" "is_newline LF" "\<not> is_newline QUOTE" "CR \<noteq> LF" "LF \<noteq> CR" "QUOTE \<noteq> CR" "CR \<noteq> QUOTE" "QUOTE \<noteq> LF" "LF \<noteq> QUOTE"
  by (simp_all add: is_newline_def CR_def LF_def QUOTE_def)

lemma record_unquoted_prefix:
  "\<forall>b \<in> set p. b \<noteq> d \<and> \<not> is_newline b \<Longrightarrow> csv_record d InUnquoted fs cur False line (p @ u) = csv_record d InUnquoted fs (cur @ p) False line u"
  by (induction p arbitrary: cur) (simp_all add: csv_record.simps(2))

text \<open>Line breaks in quotes, byte by byte.\<close>

definition break_step :: "byte \<Rightarrow> bool \<times> nat \<Rightarrow> bool \<times> nat" where
  "break_step b s = (b = CR, if b = CR \<or> b = LF \<and> \<not> fst s then snd s + 1 else snd s)"

lemma record_quoted_prefix:
  "QUOTE \<notin> set p \<Longrightarrow> csv_record d InQuoted fs cur cr line (p @ u) =
     csv_record d InQuoted fs (cur @ p) (fst (fold break_step p (cr, line))) (snd (fold break_step p (cr, line))) u"
proof (induction p arbitrary: cur cr line)
  case (Cons b p)
  then have "b \<noteq> QUOTE" by auto
  then show ?case using Cons by (simp add: csv_record.simps(2)) (simp add: break_step_def)
qed simp

lemma break_step_shift: "fold break_step p (cr, n) = (fst (fold break_step p (cr, 0)), n + snd (fold break_step p (cr, 0)))"
proof (induction p arbitrary: cr n)
  case (Cons b p)
  define k where "k = (if b = CR \<or> b = LF \<and> \<not> cr then 1 else 0 :: nat)"
  have step: "break_step b (cr, n) = (b = CR, n + k)" "break_step b (cr, 0) = (b = CR, k)" by (simp_all add: break_step_def k_def)
  show ?case using Cons [of "b = CR" "n + k"] Cons [of "b = CR" k] by (simp add: step)
qed simp

lemma line_breaks_from_fold:
  "line_breaks_from bytes i (False, n) = fold break_step (drop i bytes) (False, n)"
proof (induction "length bytes - i" arbitrary: i n rule: less_induct)
  case less
  show ?case
  proof (cases "i < length bytes")
    case True
    then have d: "drop i bytes = bytes ! i # drop (Suc i) bytes" by (rule Cons_nth_drop_Suc [symmetric])
    consider "bytes ! i = LF" | "bytes ! i = CR" "Suc i < length bytes" "bytes ! Suc i = LF" | "bytes ! i = CR" "Suc i < length bytes" "bytes ! Suc i \<noteq> LF"
      | "bytes ! i = CR" "\<not> Suc i < length bytes" | "bytes ! i \<noteq> LF" "bytes ! i \<noteq> CR" by blast
    then show ?thesis
    proof cases
      case 1
      then show ?thesis using True less [of "Suc i" "Suc n"] by (subst line_breaks_from.simps) (simp add: d break_step_def)
    next
      case 2
      have d2: "drop (Suc i) bytes = bytes ! Suc i # drop (Suc (Suc i)) bytes" using 2(2) by (rule Cons_nth_drop_Suc [symmetric])
      show ?thesis using 2 True less [of "Suc (Suc i)" "Suc n"] by (subst line_breaks_from.simps) (simp add: d d2 break_step_def)
    next
      case 3
      have d2: "drop (Suc i) bytes = bytes ! Suc i # drop (Suc (Suc i)) bytes" using 3(2) by (rule Cons_nth_drop_Suc [symmetric])
      have "fold break_step (drop (Suc i) bytes) (False, Suc n) = fold break_step (drop (Suc i) bytes) (True, Suc n)"
        using 3(3) by (simp add: d2 break_step_def)
      then show ?thesis using 3 True less [of "Suc i" "Suc n"] by (subst line_breaks_from.simps) (simp add: d break_step_def)
    next
      case 4
      then show ?thesis using True by (subst line_breaks_from.simps, subst line_breaks_from.simps) (simp add: d break_step_def)
    next
      case 5
      then show ?thesis using True less [of "Suc i" n] by (subst line_breaks_from.simps) (simp add: d break_step_def)
    qed
  qed (subst line_breaks_from.simps, simp)
qed

lemma count_line_breaks_fold: "count_line_breaks memchr_ref bytes cr = fold break_step bytes (cr, 0)"
proof (cases "memchr_ref [CR, LF] bytes")
  case None
  have "fold break_step p (c, n) = (if p \<noteq> [] then False else c, n)" if "\<forall>b \<in> set p. b \<noteq> CR \<and> b \<noteq> LF" for p c n
    using that by (induction p arbitrary: c) (auto simp: break_step_def)
  then show ?thesis using None memchr_ref_None [of "[CR, LF]" bytes] by (simp add: count_line_breaks_def)
next
  case (Some k)
  then have "bytes \<noteq> []" using memchr_ref_Some [OF Some] by auto
  then obtain b u where b: "bytes = b # u" by (cases bytes) auto
  show ?thesis
  proof (cases "cr \<and> b = LF")
    case True
    then show ?thesis using Some line_breaks_from_fold [of bytes 1 0] by (simp add: count_line_breaks_def slice_get_def b break_step_def)
  next
    case False
    have "break_step b (cr, 0) = break_step b (False, 0)" using False by (auto simp: break_step_def)
    then show ?thesis using Some False line_breaks_from_fold [of bytes 0 0] by (auto simp: count_line_breaks_def slice_get_def b)
  qed
qed

section \<open>The text a reader has ahead of it\<close>

fun event_bytes :: "read_event \<Rightarrow> byte list" where
  "event_bytes (ReadBytes x) = x"
| "event_bytes _ = []"

text \<open>A source that delivers its bytes and then ends, and a reader without limits on it.\<close>

definition source_clean :: "read_event list \<Rightarrow> bool" where
  "source_clean source \<longleftrightarrow> list_all (\<lambda>e. event_bytes e \<noteq> []) source"

definition reader_clean :: "csv_reader \<Rightarrow> bool" where
  "reader_clean self \<longleftrightarrow> reader_ok self \<and> source_clean (rd_source self) \<and> (rd_eof self \<longrightarrow> rd_source self = []) \<and>
     valid_delimiter (rd_delimiter self) \<and> rd_max_record_bytes self = None \<and> rd_max_field_bytes self = None \<and> rd_max_columns self = None"

definition stream :: "csv_reader \<Rightarrow> byte list" where
  "stream self = drop (rd_start self) (rd_buf self) @ concat (map event_bytes (rd_source self))"

fun drop_lf :: "byte list \<Rightarrow> byte list" where
  "drop_lf [] = []"
| "drop_lf (b # u) = (if b = LF then u else b # u)"

definition ahead :: "csv_reader \<Rightarrow> byte list" where
  "ahead self = (if rd_pending_cr self then drop_lf (stream self) else stream self)"

definition done_fields :: "csv_reader \<Rightarrow> byte list list" where
  "done_fields self = map (\<lambda>f. the (raw_slice self f)) (rd_ranges self)"

definition field_part :: "csv_reader \<Rightarrow> byte list" where
  "field_part self =
     (case rd_state self of
        InUnquoted \<Rightarrow> take (rd_start self - rd_field_start self) (drop (rd_field_start self) (rd_buf self))
      | InQuoted \<Rightarrow> drop (rd_scratch_field_start self) (rd_scratch self)
      | _ \<Rightarrow> [])"

definition in_record :: "csv_reader \<Rightarrow> bool" where
  "in_record self \<longleftrightarrow> reader_clean self \<and> (rd_pending_cr self \<longrightarrow> rd_state self = StartOfField \<and> rd_ranges self = []) \<and>
     (rd_state self \<noteq> InQuoted \<longrightarrow> \<not> rd_pending_lf_quoted self)"

text \<open>What the specification reads from where the reader stands.\<close>

definition will_read :: "csv_reader \<Rightarrow> record_read" where
  "will_read self = csv_record (rd_delimiter self) (rd_state self) (done_fields self) (field_part self) (rd_pending_lf_quoted self)
     (rd_line self) (ahead self)"

lemma sub_slice_grow: "sub_slice bytes a b = Some x \<Longrightarrow> sub_slice (bytes @ y) a b = Some x"
  by (auto simp: sub_slice_def split: if_splits)

lemma done_fields_slices: "reader_ok self \<Longrightarrow> map (raw_slice self) (rd_ranges self) = map Some (done_fields self)"
  using raw_slice_ok [of self] by (fastforce simp: done_fields_def reader_ok_def list_all_iff)

lemma reader_ok_range: "reader_ok self \<Longrightarrow> f \<in> set (rd_ranges self) \<Longrightarrow> range_ok (rd_buf self) (rd_scratch self) f"
  by (simp add: reader_ok_def list_all_iff)

lemma done_fields_grow:
  assumes "reader_ok self" "rd_buf self' = rd_buf self @ x" "rd_scratch self' = rd_scratch self @ y" "rd_ranges self' = rd_ranges self"
  shows "done_fields self' = done_fields self"
proof -
  have "raw_slice self' f = raw_slice self f" if f: "f \<in> set (rd_ranges self)" for f
  proof -
    obtain z where z: "raw_slice self f = Some z" using raw_slice_ok [OF reader_ok_range [OF assms(1) f]] by blast
    then show ?thesis using sub_slice_grow assms(2,3) by (cases "rf_src f") (simp_all add: raw_slice_def)
  qed
  then show ?thesis by (simp add: done_fields_def assms(4))
qed

text \<open>Reading into the buffer changes nothing of what lies ahead.\<close>

lemma fill_buf_clean:
  assumes "fill_buf self = (r, base)" "reader_clean self"
  shows "reader_clean base" "stream base = stream self" "done_fields base = done_fields self" "field_part base = field_part self"
    "r = Ok True \<or> r = Ok False \<and> base = self\<lparr>rd_eof := True\<rparr> \<and> rd_source self = []"
proof -
  have ok: "reader_ok self" and e: "rd_end self = length (rd_buf self)" and "rd_start self \<le> length (rd_buf self)"
    using assms(2) by (auto simp: reader_clean_def reader_ok_def)
  obtain x source eof where b: "base = filled self x source eof" using fill_buf_cases [OF assms(1) e] by blast
  have okb: "reader_ok base" by (rule fill_buf_ok(1) [OF assms(1) ok])
  show "done_fields base = done_fields self" by (rule done_fields_grow [OF ok, of _ x "[]"]) (simp_all add: b filled_def)
  show "field_part base = field_part self" using ok by (auto simp: field_part_def b filled_def reader_ok_def split: csv_state.split)
  have cases: "rd_eof self \<and> r = Ok False \<and> base = self \<or> \<not> rd_eof self \<and> rd_source self = [] \<and> r = Ok False \<and> base = filled self [] [] True \<or>
      (\<exists>x source. \<not> rd_eof self \<and> rd_source self = ReadBytes x # source \<and> x \<noteq> [] \<and> r = Ok True \<and> base = filled self x source False)"
    using assms unfolding fill_buf_eq [OF e]
    by (cases "rd_eof self"; cases "rd_source self"; cases "hd (rd_source self)") (auto simp: reader_clean_def source_clean_def)
  then show "r = Ok True \<or> r = Ok False \<and> base = self\<lparr>rd_eof := True\<rparr> \<and> rd_source self = []"
    using e assms(2) by (auto simp: filled_def reader_clean_def)
  show "stream base = stream self" using cases \<open>rd_start self \<le> length (rd_buf self)\<close> by (auto simp: stream_def filled_def)
  show "reader_clean base" using cases assms(2) okb by (auto simp: reader_clean_def filled_def source_clean_def)
qed

section \<open>The reader follows the specification\<close>

lemma stream_window:
  assumes "reader_ok self" "rd_start self < rd_end self"
  shows "stream self = rd_buf self ! rd_start self # drop (Suc (rd_start self)) (rd_buf self) @ concat (map event_bytes (rd_source self))"
  using assms by (simp add: stream_def reader_ok_def Cons_nth_drop_Suc)

lemma stream_start:
  assumes "reader_ok self" "rd_start self + k \<le> rd_end self"
  shows "stream (self\<lparr>rd_start := rd_start self + k\<rparr>) = drop k (stream self)"
  using assms by (simp add: stream_def reader_ok_def add.commute)

text \<open>After a line end, what lies ahead is the rest of the text, with a line feed dropped that belongs to it.\<close>

lemma consume_newline_ahead:
  assumes "reader_ok self" "\<not> rd_pending_cr self" "rd_start self < rd_end self" "is_newline (rd_buf self ! rd_start self)"
  obtains self' k cr where "consume_newline self = Some self'" "self' = self\<lparr>rd_start := rd_start self + k, rd_pending_cr := cr, rd_line := rd_line self + 1\<rparr>"
    "rd_start self + k \<le> rd_end self" "ahead self' = skip_newline (stream self)"
proof -
  let ?s = "rd_start self" and ?more = "concat (map event_bytes (rd_source self))"
  have get: "slice_get (rd_buf self) i = Some (rd_buf self ! i)" if "i < rd_end self" for i using that assms(1) by (simp add: slice_get_def reader_ok_def)
  note st = stream_window [OF assms(1,3)]
  have e: "rd_end self = length (rd_buf self)" using assms(1) by (simp add: reader_ok_def)
  have ahead: "ahead (self\<lparr>rd_start := a, rd_pending_cr := cr, rd_line := l\<rparr>) =
      (if cr then drop_lf (drop a (rd_buf self) @ ?more) else drop a (rd_buf self) @ ?more)" for a cr l
    by (simp add: ahead_def stream_def)
  consider "rd_buf self ! ?s = LF" | "rd_buf self ! ?s = CR" "Suc ?s \<ge> rd_end self" | "rd_buf self ! ?s = CR" "Suc ?s < rd_end self"
    using assms(4) linorder_not_less unfolding is_newline_def by blast
  then show ?thesis
  proof cases
    case 1
    then have "consume_newline self = Some (self\<lparr>rd_start := ?s + 1, rd_pending_cr := False, rd_line := rd_line self + 1\<rparr>)"
      using get [OF assms(3)] assms(2,3) by (auto simp: consume_newline_def intro!: csv_reader.equality)
    then show ?thesis by (rule that [where k = 1 and cr = False, OF _ refl]) (use assms(3) 1 st in \<open>simp_all add: ahead\<close>)
  next
    case 2
    then have "consume_newline self = Some (self\<lparr>rd_start := ?s + 1, rd_pending_cr := True, rd_line := rd_line self + 1\<rparr>)"
      using get [OF assms(3)] assms(3) by (simp add: consume_newline_def)
    moreover have "drop_lf v = skip_newline (CR # v)" for v by (cases v) auto
    then have "ahead (self\<lparr>rd_start := ?s + 1, rd_pending_cr := True, rd_line := rd_line self + 1\<rparr>) = skip_newline (stream self)"
      unfolding ahead st using 2 e by (simp del: skip_newline.simps)
    ultimately show ?thesis using assms(3) by (intro that [where k = 1 and cr = True, OF _ refl]) simp_all
  next
    case 3
    have d: "drop (Suc ?s) (rd_buf self) = rd_buf self ! Suc ?s # drop (Suc (Suc ?s)) (rd_buf self)" using 3(2) e by (simp add: Cons_nth_drop_Suc)
    have "consume_newline self = Some (self\<lparr>rd_start := ?s + (if rd_buf self ! Suc ?s = LF then 2 else 1), rd_pending_cr := False, rd_line := rd_line self + 1\<rparr>)"
      using get [OF assms(3)] get [OF 3(2)] assms(2,3) 3 by (cases "rd_buf self ! Suc ?s = LF") (auto simp: consume_newline_def intro!: csv_reader.equality)
    then show ?thesis
      by (rule that [where k = "if rd_buf self ! Suc ?s = LF then 2 else 1" and cr = False, OF _ refl]) (use assms(3) 3 st d in \<open>auto simp: ahead\<close>)
  qed
qed

text \<open>What a reader that has returned a row promises: the row is the next record, and it stands after it.\<close>

definition row_error :: "csv_reader \<Rightarrow> nat \<Rightarrow> read_error_kind option \<Rightarrow> read_error option" where
  "row_error self n kind = count_error self n (map_option (\<lambda>k. read_error_new k (rd_record_line self) 0) kind)"

definition returns :: "csv_reader \<Rightarrow> row_flow \<Rightarrow> bool" where
  "returns self flow \<longleftrightarrow>
     (case flow of
        RowContinue self' \<Rightarrow> in_record self' \<and> will_read self' = will_read self \<and> rd_record_line self' = rd_record_line self \<and>
          rd_num_fields self' = rd_num_fields self \<and> rd_flexible self' = rd_flexible self \<and> rd_delimiter self' = rd_delimiter self \<and>
          rd_bom_checked self' = rd_bom_checked self
      | RowReturn None self' \<Rightarrow> (\<exists>line. will_read self = NoRecord line)
      | RowReturn (Some row) self' \<Rightarrow>
          (\<exists>xs kind line rest. will_read self = RecordRead xs kind line rest \<and>
             row = row_of xs (row_error self (length xs) kind) (rd_record_line self) \<and>
             reader_clean self' \<and> ahead self' = rest \<and> rd_line self' = line \<and>
             rd_num_fields self' = count_fields self (length xs) (row_error self (length xs) kind) \<and>
             rd_flexible self' = rd_flexible self \<and> rd_delimiter self' = rd_delimiter self \<and> rd_bom_checked self' = rd_bom_checked self))"

text \<open>Changes that leave the row and the count of its fields alone.\<close>

definition same_row :: "csv_reader \<Rightarrow> csv_reader \<Rightarrow> bool" where
  "same_row self self' \<longleftrightarrow> rd_record_line self' = rd_record_line self \<and> rd_num_fields self' = rd_num_fields self \<and>
     rd_flexible self' = rd_flexible self \<and> rd_delimiter self' = rd_delimiter self \<and> rd_bom_checked self' = rd_bom_checked self"

lemma return_row_returns:
  assumes "reader_clean base" "same_row self base" "will_read self = RecordRead (done_fields base) kind (rd_line base) (ahead base)"
    "error = map_option (\<lambda>k. read_error_new k (rd_record_line self) 0) kind"
  shows "\<exists>flow. return_row base error = Some flow \<and> returns self flow"
proof -
  have ok: "reader_ok base" using assms(1) by (simp add: reader_clean_def)
  let ?xs = "done_fields base"
  have eqs: "rd_record_line base = rd_record_line self" "rd_num_fields base = rd_num_fields self" "rd_flexible base = rd_flexible self"
    using assms(2) by (simp_all add: same_row_def)
  have counts: "count_error base n error = row_error self n kind" "count_fields base n e = count_fields self n e" for n e
    unfolding assms(4) row_error_def count_error_def count_fields_def eqs by (rule refl)+
  define e where "e = row_error self (length ?xs) kind"
  have flow: "return_row base error = Some (RowReturn (Some (row_of ?xs e (rd_record_line base))) (base\<lparr>rd_num_fields := count_fields self (length ?xs) e\<rparr>))"
    using build_bytes_row_pieces [OF done_fields_slices [OF ok], of error] by (simp add: return_row_def counts e_def)
  have "reader_clean (base\<lparr>rd_num_fields := n\<rparr>)" "ahead (base\<lparr>rd_num_fields := n\<rparr>) = ahead base" for n
    using assms(1) by (simp_all add: reader_clean_def ahead_def stream_def)
  then show ?thesis using assms(2,3) unfolding flow by (auto simp: returns_def same_row_def e_def)
qed

lemma same_row_refl [simp]: "same_row self self"
  by (simp add: same_row_def)

lemma done_fields_push:
  assumes "sub_slice (case src of SrcBuf \<Rightarrow> rd_buf self | SrcScratch \<Rightarrow> rd_scratch self) a b = Some x"
  shows "done_fields (push_range self a b src) = done_fields self @ [x]"
proof -
  have "raw_slice (push_range self a b src) f = raw_slice self f" for f
    by (cases "rf_src f") (simp_all add: raw_slice_def push_range_def)
  then have "done_fields (push_range self a b src) = map (\<lambda>f. the (raw_slice self f)) (rd_ranges self @ [\<lparr>rf_start = a, rf_end = b, rf_src = src\<rparr>])"
    by (simp add: done_fields_def) (simp add: push_range_def)
  then show ?thesis using assms by (cases src) (simp_all add: done_fields_def raw_slice_def)
qed

lemma done_fields_cong:
  assumes "rd_buf self' = rd_buf self" "rd_scratch self' = rd_scratch self" "rd_ranges self' = rd_ranges self"
  shows "done_fields self' = done_fields self"
  unfolding done_fields_def raw_slice_def assms ..

lemma sub_slice_empty: "a \<le> length u \<Longrightarrow> sub_slice u a a = Some []"
  by (simp add: sub_slice_def)

lemma clean_ok: "reader_clean self \<Longrightarrow> reader_ok self"
  by (simp add: reader_clean_def)

lemma reader_clean_flow:
  assumes "reader_clean self" "reader_ok self'" "rd_source self' = rd_source self" "rd_eof self' = rd_eof self" "rd_delimiter self' = rd_delimiter self"
    "rd_max_record_bytes self' = None" "rd_max_field_bytes self' = None" "rd_max_columns self' = None"
  shows "reader_clean self'"
  using assms by (simp add: reader_clean_def)

lemma reader_clean_update [simp]:
  "reader_clean (self\<lparr>rd_num_fields := n\<rparr>) = reader_clean self" "reader_clean (self\<lparr>rd_pending_cr := c\<rparr>) = reader_clean self"
  "reader_clean (self\<lparr>rd_pending_lf_quoted := c\<rparr>) = reader_clean self" "reader_clean (self\<lparr>rd_line := l\<rparr>) = reader_clean self"
  by (simp_all add: reader_clean_def)

lemma reader_clean_start: "reader_clean self \<Longrightarrow> rd_start self \<le> a \<Longrightarrow> a \<le> rd_end self \<Longrightarrow> reader_clean (self\<lparr>rd_start := a\<rparr>)"
  using reader_ok_start [of self a] by (simp add: reader_clean_def)

lemma reader_clean_state: "reader_clean self \<Longrightarrow> st = StartOfField \<or> st = AfterQuote \<Longrightarrow> reader_clean (self\<lparr>rd_state := st\<rparr>)"
  by (auto simp: reader_clean_def reader_ok_def)

lemma no_limits:
  assumes "reader_clean self"
  shows "field_limit_exceeded self n = None" "limit_exceeded self = Some None"
  using assms by (simp_all add: reader_clean_def field_limit_exceeded_def limit_exceeded_def)

lemma stream_split: "reader_ok self \<Longrightarrow> k \<le> length (drop (rd_start self) (rd_buf self)) \<Longrightarrow>
  stream self = take k (drop (rd_start self) (rd_buf self)) @ drop (rd_start self + k) (rd_buf self) @ concat (map event_bytes (rd_source self))"
  by (simp add: stream_def) (metis add.commute append_take_drop_id drop_drop)

text \<open>A line end that ends the record.\<close>

lemma newline_returns:
  assumes "reader_clean base" "same_row self base" "\<not> rd_pending_cr base" "rd_start base < rd_end base" "is_newline (rd_buf base ! rd_start base)"
    "will_read self = RecordRead (done_fields base) None (rd_line base + 1) (skip_newline (stream base))"
  shows "\<exists>flow. do { base \<leftarrow> consume_newline base; return_row base None } = Some flow \<and> returns self flow"
proof -
  obtain self' k cr where n: "consume_newline base = Some self'" "self' = base\<lparr>rd_start := rd_start base + k, rd_pending_cr := cr, rd_line := rd_line base + 1\<rparr>"
    "rd_start base + k \<le> rd_end base" "ahead self' = skip_newline (stream base)"
    by (rule consume_newline_ahead [OF clean_ok [OF assms(1)] assms(3-5)])
  have clean: "reader_clean self'" using n(3) reader_clean_start [OF assms(1), of "rd_start base + k"] by (simp add: n(2))
  have df: "done_fields self' = done_fields base" by (rule done_fields_cong) (simp_all add: n(2))
  have same: "same_row self self'" using assms(2) by (simp add: n(2) same_row_def)
  have "will_read self = RecordRead (done_fields self') None (rd_line self') (ahead self')" unfolding assms(6) df n(4) by (simp add: n(2))
  from return_row_returns [OF clean same this refl] show ?thesis using n(1) by simp
qed

end
