(* ===== verification/Csv_Steps.thy ===== *)
theory Csv_Steps
  imports Csv_Correct
begin

text \<open>
  Every state of the reader's machine follows the specification of a record: a round of the loop either keeps what will be
  read, or returns the record that the specification gives.
\<close>

section \<open>The start of a field\<close>

lemma start_will_read:
  assumes "in_record self" "rd_start self < rd_end self" "rd_state self = StartOfField" "\<not> rd_pending_cr self"
  shows "will_read self = csv_record (rd_delimiter self) StartOfField (done_fields self) [] False (rd_line self)
    (rd_buf self ! rd_start self # drop (Suc (rd_start self)) (rd_buf self) @ concat (map event_bytes (rd_source self)))"
proof -
  have "reader_clean self" "\<not> rd_pending_lf_quoted self" using assms(1,3) by (simp_all add: in_record_def)
  then show ?thesis using stream_window [OF clean_ok assms(2)] assms(3,4) by (simp add: will_read_def ahead_def field_part_def)
qed

lemma start_newline_returns:
  assumes "in_record self" "rd_start self < rd_end self" "rd_state self = StartOfField" "\<not> rd_pending_cr self" "is_newline (rd_buf self ! rd_start self)"
  shows "\<exists>flow. row_start_of_field self (rd_buf self ! rd_start self) = Some flow \<and> returns self flow"
proof -
  have clean: "reader_clean self" and lf: "\<not> rd_pending_lf_quoted self" using assms(1,3) by (simp_all add: in_record_def)
  note ok = clean_ok [OF clean] and wr = start_will_read [OF assms(1-4)] and st = stream_window [OF clean_ok [OF clean] assms(2)]
  have newline: "rd_buf self ! rd_start self = CR \<or> rd_buf self ! rd_start self = LF" using assms(5) by (auto simp: is_newline_def)
  show ?thesis
  proof (cases "rd_ranges self = []")
    case True
    obtain self' k cr where n: "consume_newline self = Some self'" "self' = self\<lparr>rd_start := rd_start self + k, rd_pending_cr := cr, rd_line := rd_line self + 1\<rparr>"
      "rd_start self + k \<le> rd_end self" "ahead self' = skip_newline (stream self)"
      by (rule consume_newline_ahead [OF ok assms(4,2,5)])
    have clean': "reader_clean self'" using n(3) reader_clean_start [OF clean, of "rd_start self + k"] by (simp add: n(2))
    have "will_read self = csv_record (rd_delimiter self) StartOfField [] [] False (rd_line self + 1) (skip_newline (stream self))"
      unfolding wr st using assms(5) True by (simp add: csv_record.simps(2) done_fields_def)
    moreover have "will_read self' = csv_record (rd_delimiter self) StartOfField [] [] False (rd_line self + 1) (skip_newline (stream self))"
      unfolding will_read_def n(4) using n(2) True assms(3) lf by (simp add: done_fields_def field_part_def)
    ultimately have "returns self (RowContinue self')" using clean' n(2) assms(3) lf True by (simp add: returns_def in_record_def)
    then show ?thesis using newline n True by (simp add: row_start_of_field_def)
  next
    case False
    define base where "base = push_range self (rd_start self) (rd_start self) SrcBuf"
    have empty: "sub_slice (rd_buf self) (rd_start self) (rd_start self) = Some []" using ok by (intro sub_slice_empty) (simp add: reader_ok_def)
    have df: "done_fields base = done_fields self @ [[]]"
      unfolding base_def by (rule done_fields_push) (simp add: empty)
    have same: "stream base = stream self" "same_row self base" "rd_line base = rd_line self"
      by (simp_all add: base_def push_range_def stream_def same_row_def)
    have bclean: "reader_clean base" using clean push_range_ok [OF ok] ok
      by (intro reader_clean_flow [OF clean]) (auto simp: base_def push_range_def reader_clean_def range_ok_def reader_ok_def)
    have "will_read self = RecordRead (done_fields base) None (rd_line base + 1) (skip_newline (stream base))"
      unfolding wr df same st using assms(5) False by (simp add: csv_record.simps(2) done_fields_def)
    moreover have "\<not> rd_pending_cr base" "rd_start base < rd_end base" "is_newline (rd_buf base ! rd_start base)"
      using assms(2,4,5) by (simp_all add: base_def push_range_def)
    ultimately obtain flow where f: "do { base \<leftarrow> consume_newline base; return_row base None } = Some flow" "returns self flow"
      using newline_returns [OF bclean same(2)] by blast
    obtain self' where "consume_newline base = Some self'" "rd_ranges self' = rd_ranges base" using consume_newline_keeps [OF clean_ok [OF bclean]] by blast
    then show ?thesis using newline f False by (auto simp: row_start_of_field_def base_def [symmetric]) (simp_all add: base_def push_range_def)
  qed
qed

lemma start_field_returns:
  assumes "in_record self" "rd_start self < rd_end self" "rd_state self = StartOfField" "\<not> rd_pending_cr self" "\<not> is_newline (rd_buf self ! rd_start self)"
  shows "\<exists>flow. row_start_of_field self (rd_buf self ! rd_start self) = Some flow \<and> returns self flow"
proof -
  have clean: "reader_clean self" and lf: "\<not> rd_pending_lf_quoted self" using assms(1,3) by (simp_all add: in_record_def)
  note ok = clean_ok [OF clean] and wr = start_will_read [OF assms(1-4)]
  define b where "b = rd_buf self ! rd_start self"
  have nl: "\<not> (b = CR \<or> b = LF)" "\<not> is_newline b" using assms(5) by (auto simp: is_newline_def b_def)
  have max: "rd_max_record_bytes self = None" "rd_max_field_bytes self = None" "rd_max_columns self = None" using clean by (simp_all add: reader_clean_def)
  define self1 where "self1 = self\<lparr>rd_field_start := rd_start self\<rparr>"
  define self' where "self' =
    (if b = rd_delimiter self then (push_range self1 (rd_start self) (rd_start self) SrcBuf)\<lparr>rd_start := rd_start self + 1\<rparr>
     else if b = QUOTE then self1\<lparr>rd_scratch_field_start := length (rd_scratch self), rd_start := rd_start self + 1, rd_state := InQuoted\<rparr>
     else self1\<lparr>rd_start := rd_start self + 1, rd_state := InUnquoted\<rparr>)"
  have step: "row_start_of_field self b = Some (RowContinue self')" using nl by (simp add: row_start_of_field_def self'_def self1_def Let_def)
  have "sub_slice (rd_buf self) (rd_start self) (rd_start self) = Some []" using ok by (intro sub_slice_empty) (simp add: reader_ok_def)
  then have "done_fields (push_range self1 (rd_start self) (rd_start self) SrcBuf) = done_fields self1 @ [[]]"
    by (intro done_fields_push) (simp add: self1_def)
  moreover have "done_fields self1 = done_fields self" by (rule done_fields_cong) (simp_all add: self1_def)
  ultimately have df: "done_fields self' = (if b = rd_delimiter self then done_fields self @ [[]] else done_fields self)"
    using done_fields_cong [of self' "push_range self1 (rd_start self) (rd_start self) SrcBuf"] done_fields_cong [of self' self1]
    by (cases "b = rd_delimiter self"; cases "b = QUOTE") (simp_all add: self'_def)
  have clean': "reader_clean self'" using clean assms(2) ok
    by (intro reader_clean_flow [OF clean]) (auto simp: self'_def self1_def push_range_def max reader_ok_def range_ok_def)
  have ahead: "ahead self' = drop (Suc (rd_start self)) (rd_buf self) @ concat (map event_bytes (rd_source self))"
    using assms(4) by (simp add: self'_def self1_def push_range_def ahead_def stream_def)
  have part: "field_part self' = (if b = rd_delimiter self \<or> b = QUOTE then [] else [b])"
    using ok assms(2,3) by (simp add: field_part_def self'_def self1_def push_range_def b_def reader_ok_def take_Suc hd_drop_conv_nth)
  have "will_read self' = will_read self"
    unfolding will_read_def [of self'] wr ahead df part b_def [symmetric] using nl lf assms(3)
    by (simp add: csv_record.simps(2) self'_def self1_def push_range_def)
  moreover have "same_row self self'" "in_record self'" using clean' lf assms(3,4) by (simp_all add: same_row_def in_record_def self'_def self1_def push_range_def)
  ultimately show ?thesis using step by (auto simp: b_def returns_def same_row_def)
qed

lemma start_of_field_returns:
  assumes "in_record self" "rd_start self < rd_end self" "rd_state self = StartOfField" "\<not> rd_pending_cr self"
  shows "\<exists>flow. row_start_of_field self (rd_buf self ! rd_start self) = Some flow \<and> returns self flow"
  using start_newline_returns [OF assms] start_field_returns [OF assms] by blast

section \<open>Fields without quotes\<close>

lemma unquoted_part:
  assumes "reader_ok self" "rd_state self = InUnquoted"
  shows "take (rd_start self + k - rd_field_start self) (drop (rd_field_start self) (rd_buf self)) = field_part self @ take k (drop (rd_start self) (rd_buf self))"
proof -
  have w: "rd_field_start self \<le> rd_start self" using assms by (simp add: reader_ok_def)
  have part: "field_part self = take (rd_start self - rd_field_start self) (drop (rd_field_start self) (rd_buf self))"
    using assms(2) by (simp add: field_part_def)
  have e: "rd_start self + k - rd_field_start self = (rd_start self - rd_field_start self) + k" using w by simp
  show ?thesis unfolding e part take_add using w by simp
qed

text \<open>Up to the next delimiter or line end, or to the end of the buffer, all bytes belong to the field.\<close>

lemma unquoted_will_read:
  assumes "in_record self" "rd_state self = InUnquoted" "stream self = p @ v" "\<forall>b \<in> set p. b \<notin> set [rd_delimiter self, CR, LF]"
  shows "will_read self = csv_record (rd_delimiter self) InUnquoted (done_fields self) (field_part self @ p) False (rd_line self) v"
proof -
  have "\<forall>b \<in> set p. b \<noteq> rd_delimiter self \<and> \<not> is_newline b" using assms(4) by (auto simp: is_newline_def)
  from record_unquoted_prefix [OF this] show ?thesis using assms(1-3) by (simp add: will_read_def ahead_def in_record_def)
qed

lemma unquoted_none_returns:
  assumes "in_record self" "rd_state self = InUnquoted" "memchr_ref [rd_delimiter self, CR, LF] (drop (rd_start self) (rd_buf self)) = None"
  shows "\<exists>flow. row_in_unquoted memchr_ref self = Some flow \<and> returns self flow"
proof -
  have clean: "reader_clean self" and lf: "\<not> rd_pending_lf_quoted self" and cr: "\<not> rd_pending_cr self" using assms by (auto simp: in_record_def)
  note ok = clean_ok [OF clean]
  let ?h = "drop (rd_start self) (rd_buf self)" and ?more = "concat (map event_bytes (rd_source self))"
  have w: "rd_field_start self \<le> rd_start self" "rd_start self \<le> length (rd_buf self)" "rd_end self = length (rd_buf self)"
    using ok assms(2) by (auto simp: reader_ok_def)
  have wr: "will_read self = csv_record (rd_delimiter self) InUnquoted (done_fields self) (field_part self @ ?h) False (rd_line self) ?more"
    using assms(3) by (intro unquoted_will_read [OF assms(1,2)]) (simp_all add: stream_def memchr_ref_None)
  define self' where "self' = self\<lparr>rd_start := rd_end self\<rparr>"
  have "row_in_unquoted memchr_ref self = Some (RowContinue self')"
    using assms(3) window [OF ok] w clean
    by (simp add: row_in_unquoted_def Let_def self'_def usize_sub_def field_limit_exceeded_def reader_clean_def)
  moreover have "reader_clean self'" unfolding self'_def using clean w by (intro reader_clean_start) simp_all
  moreover have df: "done_fields self' = done_fields self" by (rule done_fields_cong) (simp_all add: self'_def)
  have part: "field_part self' = field_part self @ ?h"
    using assms(2) w unquoted_part [OF ok assms(2), of "length (rd_buf self) - rd_start self"] by (simp add: field_part_def self'_def)
  have "will_read self' = will_read self"
    unfolding wr unfolding will_read_def df part using lf cr assms(2) w by (simp add: ahead_def stream_def self'_def)
  ultimately show ?thesis using lf cr assms(2) by (intro exI [of _ "RowContinue self'"]) (simp add: returns_def in_record_def self'_def)
qed

lemma unquoted_some_returns:
  assumes "in_record self" "rd_state self = InUnquoted" "memchr_ref [rd_delimiter self, CR, LF] (drop (rd_start self) (rd_buf self)) = Some k"
  shows "\<exists>flow. row_in_unquoted memchr_ref self = Some flow \<and> returns self flow"
proof -
  have clean: "reader_clean self" and lf: "\<not> rd_pending_lf_quoted self" and cr: "\<not> rd_pending_cr self" using assms by (auto simp: in_record_def)
  note ok = clean_ok [OF clean] and m = memchr_ref_Some [OF assms(3)]
  let ?d = "rd_delimiter self" and ?h = "drop (rd_start self) (rd_buf self)" and ?more = "concat (map event_bytes (rd_source self))"
  define pos where "pos = rd_start self + k"
  define b where "b = rd_buf self ! pos"
  have pos: "pos < length (rd_buf self)" "pos < rd_end self" "rd_field_start self \<le> pos" "?h ! k = b" "rd_start self \<le> pos"
    using m ok assms(2) by (auto simp: pos_def b_def reader_ok_def)
  have drop: "drop pos (rd_buf self) = b # drop (Suc pos) (rd_buf self)" using pos(1) by (simp add: b_def Cons_nth_drop_Suc)
  define base where "base = push_range self (rd_field_start self) pos SrcBuf"
  have df: "done_fields base = done_fields self @ [field_part self @ take k ?h]"
    unfolding base_def using pos unquoted_part [OF ok assms(2), of k] by (intro done_fields_push) (simp add: sub_slice_def pos_def)
  have "take k ?h = takeWhile (\<lambda>b. b \<notin> set [?d, CR, LF]) ?h" using m by blast
  then have free: "\<forall>b \<in> set (take k ?h). b \<notin> set [?d, CR, LF]" by (metis set_takeWhileD)
  have split: "stream self = take k ?h @ b # drop (Suc pos) (rd_buf self) @ ?more" using stream_split [OF ok, of k] m drop by (simp add: pos_def)
  have wr: "will_read self = csv_record ?d InUnquoted (done_fields self) (field_part self @ take k ?h) False (rd_line self) (b # drop (Suc pos) (rd_buf self) @ ?more)"
    by (rule unquoted_will_read [OF assms(1,2) split free])
  have bclean: "reader_clean base" using clean pos ok
    by (intro reader_clean_flow [OF clean]) (auto simp: base_def push_range_def reader_clean_def reader_ok_def range_ok_def)
  have "slice_get (rd_buf base) pos = Some b" "rd_delimiter base = ?d" using pos by (simp_all add: slice_get_def b_def base_def push_range_def)
  then have step: "row_in_unquoted memchr_ref self =
      (if b = ?d then Some (RowContinue (base\<lparr>rd_start := pos + 1, rd_state := StartOfField\<rparr>))
       else do { self \<leftarrow> consume_newline (base\<lparr>rd_start := pos\<rparr>); return_row self None })"
    using assms(3) window [OF ok] pos no_limits(1) [OF clean]
    by (simp add: row_in_unquoted_def Let_def pos_def [symmetric] usize_sub_def base_def [symmetric])
  show ?thesis
  proof (cases "b = ?d")
    case True
    define self' where "self' = base\<lparr>rd_start := pos + 1, rd_state := StartOfField\<rparr>"
    have "done_fields self' = done_fields base" by (rule done_fields_cong) (simp_all add: self'_def)
    moreover have "reader_clean self'" unfolding self'_def using bclean pos by (intro reader_clean_state reader_clean_start) (simp_all add: base_def push_range_def)
    moreover have "will_read self' = will_read self"
      unfolding wr unfolding will_read_def calculation(1) df using True lf cr
      by (simp add: ahead_def stream_def self'_def base_def push_range_def csv_record.simps(2) field_part_def)
    ultimately show ?thesis using step True lf cr
      by (intro exI [of _ "RowContinue self'"]) (simp add: returns_def in_record_def self'_def base_def push_range_def)
  next
    case False
    define mid where "mid = base\<lparr>rd_start := pos\<rparr>"
    have same: "rd_buf mid = rd_buf self" "rd_start mid = pos" "rd_end mid = rd_end self" "rd_line mid = rd_line self" "\<not> rd_pending_cr mid" "same_row self mid"
      "stream mid = b # drop (Suc pos) (rd_buf self) @ ?more"
      using cr drop by (simp_all add: mid_def base_def push_range_def same_row_def stream_def)
    have nl: "is_newline (rd_buf mid ! rd_start mid)" using m pos(4) False by (auto simp: is_newline_def same b_def)
    have mclean: "reader_clean mid" unfolding mid_def using bclean pos by (intro reader_clean_start) (simp_all add: base_def push_range_def)
    have "done_fields mid = done_fields base" by (rule done_fields_cong) (simp_all add: mid_def)
    then have "will_read self = RecordRead (done_fields mid) None (rd_line mid + 1) (skip_newline (stream mid))"
      unfolding wr same df using False nl by (simp add: csv_record.simps(2) same b_def)
    from newline_returns [OF mclean same(6,5) _ nl this] show ?thesis using step False pos same by (simp add: mid_def)
  qed
qed

lemma in_unquoted_returns:
  assumes "in_record self" "rd_state self = InUnquoted"
  shows "\<exists>flow. row_in_unquoted memchr_ref self = Some flow \<and> returns self flow"
  using unquoted_none_returns [OF assms] unquoted_some_returns [OF assms]
  by (cases "memchr_ref [rd_delimiter self, CR, LF] (drop (rd_start self) (rd_buf self))") simp_all

section \<open>The rest of a record after a fault\<close>

lemma field_part_quoted: "rd_state self = InQuoted \<Longrightarrow> field_part self = drop (rd_scratch_field_start self) (rd_scratch self)"
  by (simp add: field_part_def)

lemma dropWhile_prefix: "\<forall>x \<in> set xs. P x \<Longrightarrow> ys = [] \<or> \<not> P (hd ys) \<Longrightarrow> dropWhile P (xs @ ys) = ys"
  by (cases ys) (simp_all add: dropWhile_append2)

definition tail_skipped :: "csv_reader \<Rightarrow> bool \<Rightarrow> csv_reader \<Rightarrow> bool" where
  "tail_skipped self b self' \<longleftrightarrow>
     reader_clean (if b then self' else self'\<lparr>rd_eof := True\<rparr>) \<and> same_row self self' \<and> done_fields self' = done_fields self \<and>
     (let tail = dropWhile (\<lambda>c. \<not> is_newline c) (stream self)
      in ahead self' = skip_newline tail \<and> rd_line self' = (if tail = [] then rd_line self else rd_line self + 1))"

lemma tail_skipped_cong:
  assumes "tail_skipped base b self'" "same_row self base" "done_fields base = done_fields self" "rd_line base = rd_line self"
    "dropWhile (\<lambda>c. \<not> is_newline c) (stream base) = dropWhile (\<lambda>c. \<not> is_newline c) (stream self)"
  shows "tail_skipped self b self'"
  using assms by (simp add: tail_skipped_def same_row_def)

lemma tail_filled_clean:
  assumes "(if rd_start self \<ge> rd_end self then fill_buf self else (Ok True, self)) = (r, base)" "reader_clean self"
  shows "reader_clean base" "stream base = stream self" "done_fields base = done_fields self" "same_row self base"
    "rd_pending_cr base = rd_pending_cr self" "rd_line base = rd_line self"
    "r = Ok True \<or> r = Ok False \<and> rd_start self \<ge> rd_end self \<and> base = self\<lparr>rd_eof := True\<rparr> \<and> rd_source self = []"
proof -
  have e: "rd_end self = length (rd_buf self)" using assms(2) by (simp add: reader_clean_def reader_ok_def)
  have "\<exists>x source eof. base = filled self x source eof"
  proof (cases "rd_start self \<ge> rd_end self")
    case True
    then show ?thesis using fill_buf_cases [of self r base] assms(1) e by auto
  next
    case False
    then have "base = filled self [] (rd_source self) (rd_eof self)" using assms(1) e by (simp add: filled_def)
    then show ?thesis by blast
  qed
  then show "same_row self base" "rd_pending_cr base = rd_pending_cr self" "rd_line base = rd_line self" by (auto simp: filled_def same_row_def)
  have fb: "fill_buf self = (r, base)" if "rd_start self \<ge> rd_end self" using that assms(1) by simp
  have same: "r = Ok True \<and> base = self" if "\<not> rd_start self \<ge> rd_end self" using that assms(1) by simp
  show "reader_clean base" "stream base = stream self" "done_fields base = done_fields self"
    "r = Ok True \<or> r = Ok False \<and> rd_start self \<ge> rd_end self \<and> base = self\<lparr>rd_eof := True\<rparr> \<and> rd_source self = []"
    using fill_buf_clean [OF fb assms(2)] same assms(2) by (cases "rd_start self \<ge> rd_end self"; blast)+
qed

text \<open>A line end in the buffer ends the skip.\<close>

lemma tail_newline:
  assumes "reader_clean base" "\<not> rd_pending_cr base" "memchr_ref [CR, LF] (drop (rd_start base) (rd_buf base)) = Some k"
  shows "\<exists>self'. consume_newline (base\<lparr>rd_start := rd_start base + k\<rparr>) = Some self' \<and> tail_skipped base True self'"
proof -
  let ?h = "drop (rd_start base) (rd_buf base)"
  note m = memchr_ref_Some [OF assms(3)] and ok = clean_ok [OF assms(1)]
  define mid where "mid = base\<lparr>rd_start := rd_start base + k\<rparr>"
  have mclean: "reader_clean mid" unfolding mid_def using assms(1) m ok by (intro reader_clean_start) (auto simp: reader_ok_def)
  have mid: "reader_ok mid" "\<not> rd_pending_cr mid" "rd_start mid < rd_end mid" "is_newline (rd_buf mid ! rd_start mid)"
    using clean_ok [OF mclean] m assms(2) ok by (auto simp: mid_def reader_ok_def is_newline_def)
  obtain self' j c where n: "consume_newline mid = Some self'" "self' = mid\<lparr>rd_start := rd_start mid + j, rd_pending_cr := c, rd_line := rd_line mid + 1\<rparr>"
    "rd_start mid + j \<le> rd_end mid" "ahead self' = skip_newline (stream mid)"
    by (rule consume_newline_ahead [OF mid])
  have "take k ?h = takeWhile (\<lambda>b. b \<notin> set [CR, LF]) ?h" using m by blast
  then have free: "\<forall>b \<in> set (take k ?h). \<not> is_newline b" using set_takeWhileD by (fastforce simp: is_newline_def)
  have st: "stream base = take k ?h @ stream mid" using stream_split [OF ok, of k] m by (simp add: mid_def stream_def)
  have hd: "stream mid \<noteq> [] \<and> is_newline (hd (stream mid))" using stream_window [OF mid(1,3)] mid(4) by simp
  have tail: "dropWhile (\<lambda>c. \<not> is_newline c) (stream base) = stream mid"
    unfolding st by (rule dropWhile_prefix) (use free hd in simp_all)
  have "done_fields self' = done_fields base" by (rule done_fields_cong) (simp_all add: n(2) mid_def)
  moreover have "reader_clean self'" using n(3) reader_clean_start [OF mclean, of "rd_start mid + j"] by (simp add: n(2))
  moreover have "same_row base self'" "rd_line self' = rd_line base + 1" by (simp_all add: same_row_def n(2) mid_def)
  ultimately have "tail_skipped base True self'" unfolding tail_skipped_def tail using n(4) hd by simp
  then show ?thesis using n(1) by (simp add: mid_def)
qed

lemma skip_tail_returns:
  assumes "reader_clean self" "\<not> rd_pending_cr self"
  shows "\<exists>b self'. skip_record_tail memchr_ref self = Some (b, self') \<and> tail_skipped self b self'"
  using assms
proof (induction self rule: wf_induct_rule [OF tail_less_wf])
  case (1 self)
  note ok = clean_ok [OF 1(2)]
  obtain r base where f: "(if rd_start self \<ge> rd_end self then fill_buf self else (Ok True, self)) = (r, base)" by (meson surj_pair)
  note base = tail_filled [OF f ok] and fb = tail_filled_clean [OF f 1(2)]
  note simp = skip_record_tail.simps [of memchr_ref self, unfolded f, unfolded Let_def prod.case]
  consider "r \<noteq> Ok True" | k where "r = Ok True" "memchr_ref [CR, LF] (drop (rd_start base) (rd_buf base)) = Some k"
    | "r = Ok True" "memchr_ref [CR, LF] (drop (rd_start base) (rd_buf base)) = None" by blast
  then show ?case
  proof cases
    case 1
    then have s: "rd_start self \<ge> rd_end self" "base = self\<lparr>rd_eof := True\<rparr>" "rd_source self = []" using fb(7) by auto
    then have "stream self = []" using ok by (simp add: stream_def reader_ok_def)
    then have "tail_skipped self False base" using fb s(2) \<open>\<not> rd_pending_cr self\<close> by (simp add: tail_skipped_def ahead_def)
    then show ?thesis using simp 1 by auto
  next
    case 2
    have bcr: "\<not> rd_pending_cr base" using fb(5) \<open>\<not> rd_pending_cr self\<close> by simp
    obtain self' where "consume_newline (base\<lparr>rd_start := rd_start base + k\<rparr>) = Some self'" "tail_skipped base True self'"
      using tail_newline [OF fb(1) bcr 2(2)] by blast
    moreover have "tail_skipped self True self'" by (rule tail_skipped_cong [OF calculation(2) fb(4,3,6)]) (simp add: fb(2))
    ultimately show ?thesis using simp 2 bcr window [OF base(1)] by (intro exI [of _ True] exI [of _ self']) simp
  next
    case 3
    have bcr: "\<not> rd_pending_cr base" using fb(5) \<open>\<not> rd_pending_cr self\<close> by simp
    define next_self where "next_self = base\<lparr>rd_start := rd_end base\<rparr>"
    have nclean: "reader_clean next_self" unfolding next_self_def using fb(1) base(1) by (intro reader_clean_start) (auto simp: reader_ok_def)
    have step: "skip_record_tail memchr_ref self = skip_record_tail memchr_ref next_self"
      using simp 3 bcr window [OF base(1)] nclean by (simp add: next_self_def reader_clean_def)
    have free: "\<forall>b \<in> set (drop (rd_start base) (rd_buf base)). \<not> is_newline b" using 3 by (auto simp: memchr_ref_None is_newline_def)
    have "rd_end base = length (rd_buf base)" using base(1) by (simp add: reader_ok_def)
    then have st: "stream self = drop (rd_start base) (rd_buf base) @ stream next_self" using fb(2) by (simp add: next_self_def stream_def)
    have "done_fields next_self = done_fields base" by (rule done_fields_cong) (simp_all add: next_self_def)
    then have keep: "same_row self next_self" "done_fields next_self = done_fields self" "rd_line next_self = rd_line self"
      using fb by (simp_all add: next_self_def same_row_def)
    obtain b self' where ih: "skip_record_tail memchr_ref next_self = Some (b, self')" "tail_skipped next_self b self'"
      using 1(1) [OF base(3) [OF 3(1), folded next_self_def] nclean] bcr by (auto simp: next_self_def)
    have "tail_skipped self b self'" by (rule tail_skipped_cong [OF ih(2) keep]) (use free in \<open>simp add: st dropWhile_append2\<close>)
    then show ?thesis using step ih(1) by auto
  qed
qed

section \<open>After a closing quote\<close>

lemma after_quote_returns:
  assumes "in_record self" "rd_start self < rd_end self" "rd_state self = AfterQuote"
  shows "\<exists>flow. row_after_quote memchr_ref self (rd_buf self ! rd_start self) = Some flow \<and> returns self flow"
proof -
  have clean: "reader_clean self" and lf: "\<not> rd_pending_lf_quoted self" and cr: "\<not> rd_pending_cr self" using assms by (auto simp: in_record_def)
  note ok = clean_ok [OF clean] and st = stream_window [OF clean_ok [OF clean] assms(2)]
  define b where "b = rd_buf self ! rd_start self"
  define u where "u = drop (Suc (rd_start self)) (rd_buf self) @ concat (map event_bytes (rd_source self))"
  have s: "stream self = b # u" using st by (simp add: b_def u_def)
  have wr: "will_read self = csv_record (rd_delimiter self) AfterQuote (done_fields self) [] False (rd_line self) (b # u)"
    using assms(3) lf cr s by (simp add: will_read_def ahead_def field_part_def)
  consider "b = rd_delimiter self" | "b \<noteq> rd_delimiter self" "is_newline b" | "b \<noteq> rd_delimiter self" "\<not> is_newline b" by blast
  then show ?thesis
  proof cases
    case 1
    define self' where "self' = self\<lparr>rd_start := rd_start self + 1, rd_state := StartOfField\<rparr>"
    have df: "done_fields self' = done_fields self" by (rule done_fields_cong) (simp_all add: self'_def)
    have "will_read self' = will_read self"
      unfolding wr unfolding will_read_def df using 1 lf cr by (simp add: self'_def field_part_def ahead_def stream_def u_def csv_record.simps(2))
    moreover have "reader_clean self'" unfolding self'_def using clean assms(2) by (intro reader_clean_state reader_clean_start) simp_all
    ultimately show ?thesis using 1 lf cr
      by (intro exI [of _ "RowContinue self'"]) (simp add: row_after_quote_def b_def returns_def in_record_def self'_def)
  next
    case 2
    have "will_read self = RecordRead (done_fields self) None (rd_line self + 1) (skip_newline (stream self))"
      unfolding wr s using 2 by (simp add: csv_record.simps(2))
    from newline_returns [OF clean same_row_refl cr assms(2) _ this] 2 show ?thesis by (simp add: row_after_quote_def b_def)
  next
    case 3
    obtain ok' self' where t: "skip_record_tail memchr_ref self = Some (ok', self')" "tail_skipped self ok' self'"
      using skip_tail_returns [OF clean cr] by blast
    define base where "base = (if ok' then self' else self'\<lparr>rd_eof := True\<rparr>)"
    note skipped = t(2) [unfolded tail_skipped_def Let_def]
    have base: "reader_clean base" "same_row self base" using skipped by (simp_all add: base_def same_row_def)
    have same: "ahead base = ahead self'" "rd_line base = rd_line self'" by (simp_all add: base_def ahead_def stream_def)
    have df: "done_fields base = done_fields self" using done_fields_cong [of base self'] skipped by (simp add: base_def)
    have "will_read self = RecordRead (done_fields base) (Some TrailingContent) (rd_line base) (ahead base)"
      unfolding wr df same using 3 skipped by (simp add: csv_record.simps(2) s Let_def del: dropWhile.simps)
    from return_row_returns [OF base(1,2) this refl] obtain flow where
      "return_row base (Some (read_error_new TrailingContent (rd_record_line self) 0)) = Some flow" "returns self flow" by auto
    moreover have "finalize_current_field self = self" using assms(3) by (simp add: finalize_current_field_def)
    ultimately show ?thesis using 3 t(1) by (simp add: row_after_quote_def b_def abandon_record_def Let_def base_def)
  qed
qed

section \<open>Fields in quotes\<close>

lemma field_part_grow:
  "rd_state self = InQuoted \<Longrightarrow> reader_ok self \<Longrightarrow> rd_state self' = InQuoted \<Longrightarrow> rd_scratch self' = rd_scratch self @ x \<Longrightarrow>
   rd_scratch_field_start self' = rd_scratch_field_start self \<Longrightarrow> field_part self' = field_part self @ x"
  by (simp add: field_part_def reader_ok_def)

lemma record_close:
  "u = [] \<or> hd u \<noteq> QUOTE \<Longrightarrow> csv_record d InQuoted fs cur cr line (QUOTE # u) = csv_record d AfterQuote (fs @ [cur]) [] False line u"
  by (auto simp: csv_record.simps(2))

text \<open>The reader has seen a quote inside quotes; the position after it is \<open>a\<close>.\<close>

abbreviation text_from :: "csv_reader \<Rightarrow> nat \<Rightarrow> byte list" where
  "text_from self a \<equiv> drop a (rd_buf self) @ concat (map event_bytes (rd_source self))"

definition at_quote :: "csv_reader \<Rightarrow> csv_reader \<Rightarrow> nat \<Rightarrow> bool" where
  "at_quote origin self a \<longleftrightarrow> reader_clean self \<and> same_row origin self \<and> rd_state self = InQuoted \<and> \<not> rd_pending_lf_quoted self \<and>
     \<not> rd_pending_cr self \<and> rd_start self \<le> a \<and> a \<le> rd_end self \<and>
     will_read origin = csv_record (rd_delimiter self) InQuoted (done_fields self) (field_part self) False (rd_line self) (QUOTE # text_from self a)"

lemma double_quote_returns:
  assumes "at_quote origin self a" "a < rd_end self" "rd_buf self ! a = QUOTE"
  shows "returns origin (RowContinue (double_quote self a))"
proof -
  have q: "reader_clean self" "same_row origin self" "rd_state self = InQuoted" "\<not> rd_pending_lf_quoted self" "\<not> rd_pending_cr self" "rd_start self \<le> a"
    using assms(1) by (simp_all add: at_quote_def)
  note ok = clean_ok [OF q(1)]
  have len: "a < length (rd_buf self)" "rd_scratch_field_start self \<le> length (rd_scratch self)" using assms(2) ok q(3) by (simp_all add: reader_ok_def)
  have d: "drop a (rd_buf self) = QUOTE # drop (Suc a) (rd_buf self)" using len(1) assms(3) by (simp add: Cons_nth_drop_Suc flip: assms(3))
  have wr: "will_read origin = csv_record (rd_delimiter self) InQuoted (done_fields self) (field_part self @ [QUOTE]) False (rd_line self) (text_from self (Suc a))"
    using assms(1) unfolding at_quote_def d by (simp add: csv_record.simps(2))
  have "reader_ok (double_quote self a)" using close_quoted_ok(2) [OF ok len(2) q(6) _ ok assms(2)] assms(2) by simp
  then have "reader_clean (double_quote self a)" using q(1) by (simp add: reader_clean_def double_quote_def)
  moreover have df: "done_fields (double_quote self a) = done_fields self"
    using done_fields_grow [OF ok, of "double_quote self a" "[]" "[QUOTE]"] by (simp add: double_quote_def)
  moreover have fp: "field_part (double_quote self a) = field_part self @ [QUOTE]"
    using field_part_grow [OF q(3) ok, of "double_quote self a" "[QUOTE]"] q(3) by (simp add: double_quote_def)
  moreover have "will_read (double_quote self a) = will_read origin"
    unfolding wr unfolding will_read_def df fp using q by (simp add: ahead_def stream_def double_quote_def)
  ultimately show ?thesis using q by (simp add: returns_def same_row_def in_record_def double_quote_def)
qed

lemma close_quoted_returns:
  assumes "at_quote origin self a" "text_from self a = [] \<or> hd (text_from self a) \<noteq> QUOTE"
  shows "returns origin (RowContinue (close_quoted self a))"
proof -
  have q: "reader_clean self" "same_row origin self" "rd_state self = InQuoted" "\<not> rd_pending_lf_quoted self" "\<not> rd_pending_cr self" "rd_start self \<le> a" "a \<le> rd_end self"
    using assms(1) by (simp_all add: at_quote_def)
  note ok = clean_ok [OF q(1)]
  have scr: "rd_scratch_field_start self \<le> length (rd_scratch self)" using ok q(3) by (simp add: reader_ok_def)
  have wr: "will_read origin = csv_record (rd_delimiter self) AfterQuote (done_fields self @ [field_part self]) [] False (rd_line self) (text_from self a)"
    using assms(1) record_close [OF assms(2)] by (simp add: at_quote_def)
  have clean: "reader_clean (close_quoted self a)" using q(1) close_quoted_ok(1) [OF ok scr q(6,7)]
    by (simp add: reader_clean_def close_quoted_def push_range_def)
  have "sub_slice (rd_scratch self) (rd_scratch_field_start self) (length (rd_scratch self)) = Some (field_part self)"
    unfolding field_part_quoted [OF q(3)] using scr by (simp add: sub_slice_def)
  then have "done_fields (push_range self (rd_scratch_field_start self) (length (rd_scratch self)) SrcScratch) = done_fields self @ [field_part self]"
    by (intro done_fields_push) simp
  then have df: "done_fields (close_quoted self a) = done_fields self @ [field_part self]"
    using done_fields_cong [of "close_quoted self a" "push_range self (rd_scratch_field_start self) (length (rd_scratch self)) SrcScratch"] by (simp add: close_quoted_def)
  have "will_read (close_quoted self a) = will_read origin"
    unfolding wr unfolding will_read_def df using q by (simp add: ahead_def stream_def close_quoted_def push_range_def field_part_def)
  then show ?thesis using q clean by (simp add: returns_def same_row_def in_record_def close_quoted_def push_range_def)
qed

text \<open>At the end of the buffer the byte after the quote is read first.\<close>

lemma at_quote_fill:
  assumes "at_quote origin self a" "fill_buf self = (r, base)" "a = rd_end self"
  obtains x source eof where "at_quote origin base a" "base = filled self x source eof" "r = Ok True \<longleftrightarrow> x \<noteq> []" "r = Ok True \<or> r = Ok False \<and> source = []"
    "text_from base a = x @ concat (map event_bytes source)" "rd_end base = a + length x"
proof -
  have clean: "reader_clean self" using assms(1) by (simp add: at_quote_def)
  have e: "rd_end self = length (rd_buf self)" using clean by (simp add: reader_clean_def reader_ok_def)
  obtain x source eof where b: "base = filled self x source eof" "r = Ok True \<longleftrightarrow> x \<noteq> []" using fill_buf_cases [OF assms(2) e] by blast
  note fb = fill_buf_clean [OF assms(2) clean]
  have "rd_start self \<le> length (rd_buf self)" using clean by (simp add: reader_clean_def reader_ok_def)
  then have st: "text_from base a = text_from self a" using fb(2) assms(3) e
    by (simp add: stream_def b(1) filled_def)
  have "at_quote origin base a"
    using assms(1,3) fb(1) e unfolding at_quote_def st fb(3,4) by (simp add: b(1) filled_def same_row_def)
  moreover have "text_from base a = x @ concat (map event_bytes source)" "rd_end base = a + length x" using e assms(3) by (simp_all add: b(1) filled_def)
  moreover have "rd_source base = source" by (simp add: b(1) filled_def)
  then have "r = Ok True \<or> r = Ok False \<and> source = []" using fb(5) by auto
  ultimately show thesis using b by (intro that) simp_all
qed

lemma quote_next_returns:
  assumes "at_quote origin self a"
  shows "\<exists>flow. row_quote_next self a = Some flow \<and> returns origin flow"
proof -
  have e: "rd_end self = length (rd_buf self)" "a \<le> rd_end self" using assms by (simp_all add: at_quote_def reader_clean_def reader_ok_def)
  show ?thesis
  proof (cases "a < rd_end self")
    case True
    have get: "slice_get (rd_buf self) a = Some (rd_buf self ! a)" using True e by (simp add: slice_get_def)
    have "text_from self a = [] \<or> hd (text_from self a) \<noteq> QUOTE" if "rd_buf self ! a \<noteq> QUOTE"
      using True e that by (simp add: hd_append hd_drop_conv_nth)
    then show ?thesis using True get double_quote_returns [OF assms True] close_quoted_returns [OF assms]
      by (cases "rd_buf self ! a = QUOTE") (simp_all add: row_quote_next_def)
  next
    case False
    then have a: "a = rd_end self" using e(2) by simp
    obtain r base where f: "fill_buf self = (r, base)" by fastforce
    obtain x source eof where b: "at_quote origin base a" "base = filled self x source eof" "r = Ok True \<longleftrightarrow> x \<noteq> []" "r = Ok True \<or> r = Ok False \<and> source = []"
      "text_from base a = x @ concat (map event_bytes source)" "rd_end base = a + length x"
      by (rule at_quote_fill [OF assms f a])
    have buf: "rd_buf base = rd_buf self @ x" by (simp add: b(2) filled_def)
    show ?thesis
    proof (cases "r = Ok True")
      case True
      then have x: "x \<noteq> []" using b(3) by simp
      then have get: "slice_get (rd_buf base) a = Some (hd x)" "rd_buf base ! a = hd x" "a < rd_end base"
        using a e(1) b(6) by (cases x; simp add: slice_get_def buf)+
      have "text_from base a = [] \<or> hd (text_from base a) \<noteq> QUOTE" if "hd x \<noteq> QUOTE" using that x b(5) by simp
      then show ?thesis using False f True get double_quote_returns [OF b(1) get(3)] close_quoted_returns [OF b(1)]
        by (cases "hd x = QUOTE") (simp_all add: row_quote_next_def)
    next
      case False
      then have r: "r = Ok False" "text_from base a = []" using b(3,4,5) by auto
      then show ?thesis using \<open>\<not> a < rd_end self\<close> f close_quoted_returns [OF b(1)] by (simp add: row_quote_next_def)
    qed
  qed
qed

lemma add_quoted_eq:
  "add_quoted memchr_ref self u = self\<lparr>rd_line := rd_line self + snd (fold break_step u (rd_pending_lf_quoted self, 0)),
     rd_pending_lf_quoted := fst (fold break_step u (rd_pending_lf_quoted self, 0)), rd_scratch := rd_scratch self @ u\<rparr>"
  by (simp add: add_quoted_def Let_def split_beta count_line_breaks_fold)

lemma add_quoted_clean:
  assumes "reader_clean self" "rd_state self = InQuoted"
  shows "reader_clean (add_quoted memchr_ref self u)" "done_fields (add_quoted memchr_ref self u) = done_fields self"
    "field_part (add_quoted memchr_ref self u) = field_part self @ u"
proof -
  note ok = clean_ok [OF assms(1)]
  have same: "rd_state (add_quoted memchr_ref self u) = InQuoted" "rd_scratch (add_quoted memchr_ref self u) = rd_scratch self @ u"
    "rd_ranges (add_quoted memchr_ref self u) = rd_ranges self" "rd_scratch_field_start (add_quoted memchr_ref self u) = rd_scratch_field_start self"
    using assms(2) by (simp_all add: add_quoted_eq)
  show "done_fields (add_quoted memchr_ref self u) = done_fields self"
    using done_fields_grow [OF ok, of "add_quoted memchr_ref self u" "[]" u] same by simp
  show "field_part (add_quoted memchr_ref self u) = field_part self @ u" by (rule field_part_grow [OF assms(2) ok same(1,2,4)])
  show "reader_clean (add_quoted memchr_ref self u)"
    using add_quoted_ok [OF ok, of memchr_ref u] assms(1) by (simp add: reader_clean_def add_quoted_eq)
qed

lemma quoted_will_read:
  assumes "in_record self" "rd_state self = InQuoted" "stream self = p @ v" "QUOTE \<notin> set p"
  shows "will_read self = csv_record (rd_delimiter self) InQuoted (done_fields self) (field_part self @ p)
    (fst (fold break_step p (rd_pending_lf_quoted self, 0))) (rd_line self + snd (fold break_step p (rd_pending_lf_quoted self, 0))) v"
  using record_quoted_prefix [OF assms(4)] break_step_shift [of p "rd_pending_lf_quoted self" "rd_line self"] assms(1-3)
  by (simp add: will_read_def ahead_def in_record_def)

lemma quoted_none_returns:
  assumes "in_record self" "rd_state self = InQuoted" "memchr_ref [QUOTE] (drop (rd_start self) (rd_buf self)) = None"
  shows "\<exists>flow. row_in_quoted memchr_ref self = Some flow \<and> returns self flow"
proof -
  have clean: "reader_clean self" and cr: "\<not> rd_pending_cr self" using assms by (auto simp: in_record_def)
  note ok = clean_ok [OF clean]
  let ?h = "drop (rd_start self) (rd_buf self)" and ?more = "concat (map event_bytes (rd_source self))"
  note grown = add_quoted_clean [OF clean assms(2), of ?h]
  have w: "rd_scratch_field_start self \<le> length (rd_scratch self)" "rd_start self \<le> length (rd_buf self)" "rd_end self = length (rd_buf self)"
    using ok assms(2) by (auto simp: reader_ok_def)
  define self' where "self' = (add_quoted memchr_ref self ?h)\<lparr>rd_start := rd_end self\<rparr>"
  have clean': "reader_clean self'" unfolding self'_def using grown(1) w by (intro reader_clean_start) simp_all
  have step: "row_in_quoted memchr_ref self = Some (RowContinue self')"
    using assms(3) window [OF ok] w(1) no_limits(1) [OF clean'] by (simp add: row_in_quoted_def Let_def self'_def [symmetric]) (simp add: self'_def add_quoted_eq usize_sub_def)
  have df: "done_fields self' = done_fields self" using done_fields_cong [of self' "add_quoted memchr_ref self ?h"] grown(2) by (simp add: self'_def)
  have fp: "field_part self' = field_part self @ ?h" using grown(3) assms(2) by (simp add: self'_def field_part_def add_quoted_eq)
  have "QUOTE \<notin> set ?h" using assms(3) by (auto simp: memchr_ref_None)
  note wr = quoted_will_read [OF assms(1,2) stream_def this]
  have "will_read self' = will_read self"
    unfolding wr unfolding will_read_def df fp using assms(2) cr w by (simp add: ahead_def stream_def self'_def add_quoted_eq)
  then show ?thesis using step clean' assms(2) cr
    by (intro exI [of _ "RowContinue self'"]) (simp add: returns_def in_record_def self'_def add_quoted_eq)
qed

lemma quoted_some_returns:
  assumes "in_record self" "rd_state self = InQuoted" "memchr_ref [QUOTE] (drop (rd_start self) (rd_buf self)) = Some k"
  shows "\<exists>flow. row_in_quoted memchr_ref self = Some flow \<and> returns self flow"
proof -
  have clean: "reader_clean self" and cr: "\<not> rd_pending_cr self" using assms by (auto simp: in_record_def)
  note ok = clean_ok [OF clean] and m = memchr_ref_Some [OF assms(3)]
  let ?h = "drop (rd_start self) (rd_buf self)" and ?more = "concat (map event_bytes (rd_source self))"
  note grown = add_quoted_clean [OF clean assms(2), of "take k ?h"]
  define q where "q = rd_start self + k"
  have q: "q < length (rd_buf self)" "rd_start self \<le> q" "rd_buf self ! q = QUOTE" "rd_end self = length (rd_buf self)" using m ok by (auto simp: q_def reader_ok_def)
  have drop: "drop q (rd_buf self) = QUOTE # drop (Suc q) (rd_buf self)" using q(1,3) by (metis Cons_nth_drop_Suc)
  have "take k ?h = takeWhile (\<lambda>b. b \<notin> set [QUOTE]) ?h" using m by blast
  then have free: "QUOTE \<notin> set (take k ?h)" using set_takeWhileD by fastforce
  have split: "stream self = take k ?h @ QUOTE # drop (Suc q) (rd_buf self) @ ?more" using stream_split [OF ok, of k] m drop by (simp add: q_def)
  define mid where "mid = (add_quoted memchr_ref self (take k ?h))\<lparr>rd_pending_lf_quoted := False\<rparr>"
  have df: "done_fields mid = done_fields self" using done_fields_cong [of mid "add_quoted memchr_ref self (take k ?h)"] grown(2) by (simp add: mid_def)
  have fp: "field_part mid = field_part self @ take k ?h" using grown(3) assms(2) by (simp add: mid_def field_part_def add_quoted_eq)
  have irrelevant: "csv_record d InQuoted fs cur c line (QUOTE # v) = csv_record d InQuoted fs cur False line (QUOTE # v)" for d fs cur c line v
    by (simp add: csv_record.simps(2))
  have "will_read self = csv_record (rd_delimiter mid) InQuoted (done_fields mid) (field_part mid) False (rd_line mid) (QUOTE # text_from mid (Suc q))"
    unfolding quoted_will_read [OF assms(1,2) split free] df fp by (subst irrelevant) (simp add: mid_def add_quoted_eq)
  moreover have "reader_clean mid" using grown(1) by (simp add: mid_def)
  ultimately have "at_quote self mid (Suc q)" unfolding at_quote_def using assms(2) cr q by (simp add: mid_def add_quoted_eq same_row_def)
  moreover have "usize_sub (length (rd_scratch self)) (rd_scratch_field_start self) = Some (length (rd_scratch self) - rd_scratch_field_start self)"
    using ok assms(2) by (simp add: usize_sub_def reader_ok_def)
  moreover have "sub_slice (rd_buf self) (rd_start self) q = Some (take k ?h)" using q by (simp add: sub_slice_def q_def)
  ultimately show ?thesis using quote_next_returns [of self mid "Suc q"] assms(3) window [OF ok] no_limits(1) [OF clean]
    by (simp add: row_in_quoted_def Let_def q_def [symmetric] mid_def [symmetric])
qed

lemma in_quoted_returns:
  assumes "in_record self" "rd_state self = InQuoted"
  shows "\<exists>flow. row_in_quoted memchr_ref self = Some flow \<and> returns self flow"
  using quoted_none_returns [OF assms] quoted_some_returns [OF assms]
  by (cases "memchr_ref [QUOTE] (drop (rd_start self) (rd_buf self))") simp_all

section \<open>A round of the loop\<close>

lemma row_byte_returns:
  assumes "in_record self" "rd_start self < rd_end self"
  shows "\<exists>flow. row_byte memchr_ref self = Some flow \<and> returns self flow"
proof -
  have clean: "reader_clean self" using assms(1) by (simp add: in_record_def)
  note ok = clean_ok [OF clean] and get = slice_get_window [OF clean_ok [OF clean] assms(2)]
  show ?thesis
  proof (cases "rd_pending_cr self")
    case False
    then show ?thesis using no_limits(2) [OF clean] get start_of_field_returns [OF assms] in_unquoted_returns [OF assms(1)]
        in_quoted_returns [OF assms(1)] after_quote_returns [OF assms]
      by (cases "rd_state self") (simp_all add: row_byte_def)
  next
    case True
    define b where "b = rd_buf self ! rd_start self"
    define self' where "self' = (if b = LF then self\<lparr>rd_start := rd_start self + 1\<rparr> else self)\<lparr>rd_pending_cr := False\<rparr>"
    have s: "rd_state self = StartOfField" "rd_ranges self = []" "\<not> rd_pending_lf_quoted self" using assms(1) True by (auto simp: in_record_def)
    have "reader_clean self'" using clean reader_clean_start [OF clean, of "Suc (rd_start self)"] assms(2) by (simp add: self'_def)
    moreover have "ahead self' = ahead self" using True stream_window [OF ok assms(2)] by (simp add: ahead_def self'_def b_def stream_def)
    moreover have "done_fields self' = done_fields self" using s(2) by (simp add: done_fields_def self'_def)
    ultimately have "returns self (RowContinue self')" using s by (simp add: returns_def in_record_def will_read_def self'_def field_part_def)
    then show ?thesis using no_limits(2) [OF clean] get True by (simp add: row_byte_def self'_def b_def Let_def)
  qed
qed

lemma returns_cong:
  assumes "same_row self base" "will_read base = will_read self" "returns base flow"
  shows "returns self flow"
proof -
  have eqs: "rd_record_line base = rd_record_line self" "rd_num_fields base = rd_num_fields self" "rd_flexible base = rd_flexible self"
    using assms(1) by (simp_all add: same_row_def)
  have "row_error base n k = row_error self n k" "count_fields base n e = count_fields self n e" for n k e
    unfolding row_error_def count_error_def count_fields_def eqs by (rule refl)+
  then show ?thesis using assms unfolding returns_def same_row_def by (simp split: row_flow.splits option.splits)
qed

lemma returns_trans: "returns self (RowContinue base) \<Longrightarrow> returns base flow \<Longrightarrow> returns self flow"
  by (rule returns_cong) (simp_all add: returns_def same_row_def)

text \<open>At the end of the source the record ends as well.\<close>

lemma finalize_fields:
  assumes "reader_clean self" "\<not> (rd_ranges self = [] \<and> rd_state self = StartOfField)" "rd_state self \<noteq> InQuoted"
  shows "done_fields (finalize_current_field self) =
    (case rd_state self of StartOfField \<Rightarrow> done_fields self @ [[]] | InUnquoted \<Rightarrow> done_fields self @ [field_part self] | _ \<Rightarrow> done_fields self)"
proof -
  note ok = clean_ok [OF assms(1)]
  have "sub_slice (rd_buf self) (rd_start self) (rd_start self) = Some []" using ok by (intro sub_slice_empty) (simp add: reader_ok_def)
  moreover have "sub_slice (rd_buf self) (rd_field_start self) (rd_start self) = Some (field_part self)" if "rd_state self = InUnquoted"
    using ok that by (auto simp: sub_slice_def reader_ok_def field_part_def)
  ultimately show ?thesis using assms(2,3)
    by (cases "rd_state self") (simp_all add: finalize_current_field_def done_fields_push)
qed

lemma row_end_returns:
  assumes "in_record self" "rd_start self \<ge> rd_end self" "fill_buf self = (Ok False, self\<lparr>rd_eof := True\<rparr>)" "rd_source self = []"
  shows "\<exists>flow. row_step memchr_ref self = Some flow \<and> returns self flow"
proof -
  define base where "base = self\<lparr>rd_eof := True\<rparr>"
  have clean: "reader_clean self" using assms(1) by (simp add: in_record_def)
  note fb = fill_buf_clean [OF assms(3) clean, folded base_def]
  have e: "rd_end self = length (rd_buf self)" using clean by (simp add: reader_clean_def reader_ok_def)
  have "stream self = []" using assms(2,4) e by (simp add: stream_def)
  then have a: "ahead self = []" "ahead base = []" using fb(2) by (simp_all add: ahead_def)
  have wr: "will_read self = csv_record (rd_delimiter self) (rd_state self) (done_fields self) (field_part self) (rd_pending_lf_quoted self) (rd_line self) []"
    by (simp add: will_read_def a)
  have same: "rd_state base = rd_state self" "rd_ranges base = rd_ranges self" "rd_line base = rd_line self" "same_row self base" by (simp_all add: base_def same_row_def)
  show ?thesis
  proof (cases "rd_ranges self = [] \<and> rd_state self = StartOfField")
    case True
    then have "will_read self = NoRecord (rd_line self)" by (simp add: wr csv_record.simps(1) done_fields_def)
    then show ?thesis using True assms(2,3) by (simp add: row_step_def returns_def)
  next
    case False
    define fin where "fin = (if rd_state base = InQuoted then base else finalize_current_field base)"
    define kind where "kind = (if rd_state base = InQuoted then Some UnterminatedQuote else None)"
    have finclean: "reader_clean fin" "same_row self fin" "rd_line fin = rd_line self" "ahead fin = []"
      using fb(1) finalize_ok [of base] same a
      by (auto simp: fin_def reader_clean_def finalize_current_field_def push_range_def same_row_def ahead_def stream_def split: csv_state.splits)
    have "done_fields fin = (case rd_state self of StartOfField \<Rightarrow> done_fields self @ [[]] | InUnquoted \<Rightarrow> done_fields self @ [field_part self] | _ \<Rightarrow> done_fields self)"
      using finalize_fields [OF fb(1)] False same fb(3,4) by (cases "rd_state self") (simp_all add: fin_def)
    then have "will_read self = RecordRead (done_fields fin) kind (rd_line fin) (ahead fin)"
      using False same finclean by (cases "rd_state self") (simp_all add: wr csv_record.simps(1) kind_def done_fields_def)
    from return_row_returns [OF finclean(1,2) this refl] show ?thesis
      using assms(2,3) False by (cases "rd_state self = InQuoted") (auto simp: row_step_def fin_def kind_def base_def)
  qed
qed

lemma row_step_returns:
  assumes "in_record self"
  shows "\<exists>flow. row_step memchr_ref self = Some flow \<and> returns self flow"
proof (cases "rd_start self \<ge> rd_end self")
  case False
  then show ?thesis using row_byte_returns [OF assms] by (simp add: row_step_def)
next
  case True
  have clean: "reader_clean self" using assms by (simp add: in_record_def)
  obtain r base where f: "fill_buf self = (r, base)" by fastforce
  have e: "rd_end self = length (rd_buf self)" using clean by (simp add: reader_clean_def reader_ok_def)
  obtain x source eof where b: "base = filled self x source eof" using fill_buf_cases [OF f e] by blast
  note fb = fill_buf_clean [OF f clean]
  show ?thesis
  proof (cases "r = Ok True")
    case rt: True
    have same: "same_row self base" "rd_state base = rd_state self" "rd_pending_cr base = rd_pending_cr self" "rd_pending_lf_quoted base = rd_pending_lf_quoted self"
      "rd_line base = rd_line self" "rd_ranges base = rd_ranges self" "rd_delimiter base = rd_delimiter self"
      by (simp_all add: b filled_def same_row_def)
    have wr: "will_read base = will_read self" using fb(2-4) same by (simp add: will_read_def ahead_def)
    have "in_record base" using assms fb(1) same by (simp add: in_record_def)
    moreover have "rd_start base < rd_end base" using fill_buf_ok(2) [OF f clean_ok [OF clean] rt] .
    ultimately obtain flow where "row_byte memchr_ref base = Some flow" "returns base flow" using row_byte_returns by blast
    then show ?thesis using True f rt returns_cong [OF same(1) wr] by (auto simp: row_step_def)
  next
    case False
    then have r: "r = Ok False" "base = self\<lparr>rd_eof := True\<rparr>" "rd_source self = []" using fb(5) by auto
    show ?thesis by (rule row_end_returns [OF assms True f [unfolded r(1,2)] r(3)])
  qed
qed

lemma row_loop_returns:
  "in_record self \<Longrightarrow> \<exists>row self'. row_loop memchr_ref self = Some (row, self') \<and> returns self (RowReturn row self')"
proof (induction memchr_ref self rule: row_loop.induct)
  case (1 self)
  obtain flow where flow: "row_step memchr_ref self = Some flow" "returns self flow" using row_step_returns [OF 1(2)] by blast
  show ?case
  proof (cases flow)
    case (RowContinue base)
    then have "in_record base" using flow(2) by (simp add: returns_def)
    then show ?thesis using 1(1) [OF flow(1) RowContinue] flow RowContinue returns_trans [of self base] by (subst row_loop.simps) auto
  next
    case (RowReturn row self')
    then show ?thesis using flow by (subst row_loop.simps) auto
  qed
qed

end
