(* ===== verification/Csv_Rows.thy ===== *)
theory Csv_Rows
  imports Csv_Steps
begin

text \<open>
  The rows of a whole text, by the specification, and the theorem that the reader returns these rows for every source that
  delivers the text and then ends.
\<close>

section \<open>Between two rows\<close>

text \<open>The buffer is compacted and the state reset; what lies ahead stays.\<close>

definition reset :: "csv_reader \<Rightarrow> csv_reader" where
  "reset self = self\<lparr>rd_ranges := [], rd_scratch := [], rd_state := StartOfField, rd_pending_lf_quoted := False, rd_record_line := rd_line self\<rparr>"

lemma compact_clean:
  assumes "reader_clean self"
  obtains c where "compact self = Some c" "reader_clean (reset c)" "stream (reset c) = stream self" "rd_pending_cr (reset c) = rd_pending_cr self"
    "rd_line (reset c) = rd_line self" "same_row (self\<lparr>rd_record_line := rd_line self\<rparr>) (reset c)" "rd_strip_bom (reset c) = rd_strip_bom self"
    "reset (reset c) = reset c"
proof -
  have w: "rd_start self \<le> rd_end self" "rd_end self = length (rd_buf self)" using assms by (simp_all add: reader_clean_def reader_ok_def)
  obtain c where c: "compact self = Some c" "\<forall>line. reader_ok (c\<lparr>rd_ranges := [], rd_scratch := [], rd_state := StartOfField,
      rd_pending_lf_quoted := False, rd_record_line := line\<rparr>)" using compact_ok [OF clean_ok [OF assms]] by blast
  have ok: "reader_ok (reset c)" using c(2) by (simp add: reset_def)
  have ceq: "c = (if \<not> compacts self then self
    else self\<lparr>rd_buf := drop (rd_start self) (rd_buf self), rd_end := rd_end self - rd_start self, rd_start := 0,
      rd_discarded := rd_discarded self + rd_start self\<rparr>)" using compact_eq [OF w] c(1) by simp
  have same: "rd_source c = rd_source self" "rd_eof c = rd_eof self" "rd_delimiter c = rd_delimiter self" "rd_max_record_bytes c = rd_max_record_bytes self"
    "rd_max_field_bytes c = rd_max_field_bytes self" "rd_max_columns c = rd_max_columns self" "rd_line c = rd_line self" "rd_pending_cr c = rd_pending_cr self"
    "rd_num_fields c = rd_num_fields self" "rd_flexible c = rd_flexible self" "rd_bom_checked c = rd_bom_checked self" "rd_strip_bom c = rd_strip_bom self"
    "drop (rd_start c) (rd_buf c) = drop (rd_start self) (rd_buf self)"
    by (simp_all add: ceq)
  show ?thesis
  proof (rule that [OF c(1)])
    show "reader_clean (reset c)" using assms ok same by (simp add: reader_clean_def reset_def)
  qed (simp_all add: same stream_def same_row_def reset_def)
qed

section \<open>The byte order mark\<close>

text \<open>What a reader does not hold once it has filled its buffer for the mark: a source with more to give.\<close>

lemma bom_fill_clean:
  assumes "reader_clean self"
  shows "\<exists>base x source eof. bom_fill self = Some (Ok (), base) \<and> reader_clean base \<and> base = filled self x source eof \<and> stream base = stream self \<and>
    (3 \<le> rd_end base - rd_start base \<or> rd_source base = [])"
  using assms
proof (induction self rule: bom_fill.induct)
  case (1 self)
  have w: "rd_start self \<le> rd_end self" "rd_end self = length (rd_buf self)" using 1(2) by (simp_all add: reader_clean_def reader_ok_def)
  have sub: "usize_sub (rd_end self) (rd_start self) = Some (rd_end self - rd_start self)" using w(1) by (simp add: usize_sub_def)
  show ?case
  proof (cases "rd_end self - rd_start self < 3 \<and> \<not> rd_eof self")
    case True
    obtain r base where f: "fill_buf self = (r, base)" by fastforce
    note fb = fill_buf_clean [OF f 1(2)]
    obtain m where r: "r = Ok m" using fb(5) by auto
    obtain x source eof where b: "base = filled self x source eof" using fill_buf_cases [OF f w(2)] by blast
    obtain base' y source' eof' where ih: "bom_fill base = Some (Ok (), base')" "reader_clean base'" "base' = filled base y source' eof'" "stream base' = stream base"
      "3 \<le> rd_end base' - rd_start base' \<or> rd_source base' = []" using 1(1) [OF sub True f [symmetric] r fb(1)] by blast
    moreover have "base' = filled self (x @ y) source' eof'" using ih(3) by (simp add: b filled_def)
    moreover have "bom_fill self = Some (Ok (), base')" using sub True f r ih(1) by (subst bom_fill.simps) simp
    ultimately show ?thesis using fb(2) by metis
  next
    case False
    have "self = filled self [] (rd_source self) (rd_eof self)" using w(2) by (simp add: filled_def)
    moreover have "bom_fill self = Some (Ok (), self)" using sub False by (subst bom_fill.simps) auto
    moreover have "3 \<le> rd_end self - rd_start self \<or> rd_source self = []" using False 1(2) by (auto simp: reader_clean_def)
    ultimately show ?thesis using 1(2) by metis
  qed
qed

definition strip_bom :: "byte list \<Rightarrow> byte list" where
  "strip_bom u = (if take 3 u = BOM then drop 3 u else u)"

lemma BOM_length [simp]: "length BOM = 3"
  by (simp add: BOM_def)

lemma strip_leading_bom_clean:
  assumes "reader_clean self" "\<not> rd_pending_cr self \<or> rd_bom_checked self" "rd_state self = StartOfField" "rd_ranges self = []"
  shows "\<exists>base. strip_leading_bom self = Some (Ok (), base) \<and> reader_clean base \<and> rd_bom_checked base \<and>
    rd_pending_cr base = rd_pending_cr self \<and> stream base = (if rd_bom_checked self \<or> \<not> rd_strip_bom self then stream self else strip_bom (stream self)) \<and>
    same_row (self\<lparr>rd_bom_checked := True\<rparr>) base \<and> rd_line base = rd_line self \<and> rd_state base = StartOfField \<and> rd_ranges base = [] \<and>
    rd_pending_lf_quoted base = rd_pending_lf_quoted self \<and> rd_strip_bom base = rd_strip_bom self"
proof (cases "rd_bom_checked self")
  case True
  then have "strip_leading_bom self = Some (Ok (), self)" by (simp add: strip_leading_bom_def)
  then show ?thesis using assms True by (simp add: same_row_def)
next
  case False
  define self1 where "self1 = self\<lparr>rd_bom_checked := True\<rparr>"
  have clean: "reader_clean self1" using assms(1) by (simp add: self1_def reader_clean_def reader_ok_def)
  have st: "stream self1 = stream self" by (simp add: self1_def stream_def)
  show ?thesis
  proof (cases "rd_strip_bom self")
    case no: False
    then have "strip_leading_bom self = Some (Ok (), self1)" using False by (simp add: strip_leading_bom_def self1_def)
    then show ?thesis using assms False no clean st by (simp add: same_row_def self1_def)
  next
    case yes: True
    obtain base x source eof where b: "bom_fill self1 = Some (Ok (), base)" "reader_clean base" "base = filled self1 x source eof" "stream base = stream self1"
      "3 \<le> rd_end base - rd_start base \<or> rd_source base = []" using bom_fill_clean [OF clean] by blast
    let ?h = "drop (rd_start base) (rd_buf base)"
    have w: "rd_start base \<le> rd_end base" "rd_end base = length (rd_buf base)" using b(2) by (simp_all add: reader_clean_def reader_ok_def)
    have rest: "sub_slice (rd_buf base) (rd_start base) (length (rd_buf base)) = Some ?h" using w by (simp add: sub_slice_def)
    have eq3: "take 3 (stream base) = take 3 ?h" using b(5) w by (auto simp: stream_def)
    define out where "out = (if take 3 ?h = BOM then base\<lparr>rd_start := rd_start base + 3\<rparr> else base)"
    have len: "rd_start base + 3 \<le> rd_end base" if "take 3 ?h = BOM" using arg_cong [OF that, of length] w by simp
    have "stream out = strip_bom (stream base)"
      unfolding out_def strip_bom_def eq3 using stream_start [OF clean_ok [OF b(2)], of 3] len by simp
    moreover have "reader_clean out" unfolding out_def using b(2) len reader_clean_start [OF b(2), of "rd_start base + 3"] by simp
    moreover have "strip_leading_bom self = Some (Ok (), out)" using False yes b(1) rest by (simp add: strip_leading_bom_def self1_def [symmetric] out_def) (simp add: self1_def)
    moreover have "rd_bom_checked out" "rd_pending_cr out = rd_pending_cr self" "same_row (self\<lparr>rd_bom_checked := True\<rparr>) out" "rd_line out = rd_line self"
      "rd_state out = StartOfField" "rd_ranges out = []" "rd_pending_lf_quoted out = rd_pending_lf_quoted self" "rd_strip_bom out = rd_strip_bom self"
      using assms(3,4) by (simp_all add: out_def b(3) filled_def self1_def same_row_def)
    ultimately show ?thesis using b(4) st False yes by simp
  qed
qed


section \<open>The rows of a text\<close>

text \<open>A record without a fault of its own is wrong when the rows are to have as many fields as the first one and it has not.\<close>

definition row_check :: "bool \<Rightarrow> nat option \<Rightarrow> nat \<Rightarrow> nat \<Rightarrow> read_error_kind option \<Rightarrow> read_error option" where
  "row_check flexible expected line n kind =
     (case kind of
        Some k \<Rightarrow> Some (read_error_new k line 0)
      | None \<Rightarrow>
          (case expected of
             Some m \<Rightarrow> if \<not> flexible \<and> n \<noteq> m then Some (read_error_new (InconsistentFieldCount m n) line 0) else None
           | None \<Rightarrow> None))"

definition expected_after :: "nat option \<Rightarrow> nat \<Rightarrow> read_error option \<Rightarrow> nat option" where
  "expected_after expected n error = (if expected = None \<and> n > 0 \<and> error = None then Some n else expected)"

lemma row_error_check: "row_error self n kind = row_check (rd_flexible self) (rd_num_fields self) (rd_record_line self) n kind"
  by (simp add: row_error_def count_error_def row_check_def split: option.split)

lemma count_fields_after: "count_fields self n e = expected_after (rd_num_fields self) n e"
  by (simp add: count_fields_def expected_after_def)

lemma csv_record_rest:
  "csv_record d st fs cur cr line u = RecordRead xs kind line' rest \<Longrightarrow>
   length rest \<le> length u \<and> (st = StartOfField \<and> fs = [] \<longrightarrow> length rest < length u)"
proof (induction d st fs cur cr line u rule: csv_record.induct)
  case (1 d st fs cur cr line)
  then show ?case by (cases st) (auto simp: csv_record.simps(1) split: if_splits)
next
  case (2 d st fs cur cr line b u)
  note ih = 2(1-10) and eq = 2(11)
  have skip: "length (skip_newline (b # u)) < length (b # u)" by (rule skip_newline_length) simp
  show ?case
  proof (cases st)
    case StartOfField
    consider "is_newline b" "fs = []" | "is_newline b" "fs \<noteq> []" | "\<not> is_newline b" "b = d" | "\<not> is_newline b" "b \<noteq> d" "b = QUOTE"
      | "\<not> is_newline b" "b \<noteq> d" "b \<noteq> QUOTE" by blast
    then show ?thesis
    proof cases
      case 1
      then show ?thesis using ih(1) [OF StartOfField 1] eq skip by (simp add: csv_record.simps(2) StartOfField del: skip_newline.simps)
    next
      case 2
      then show ?thesis using eq skip by (auto simp: csv_record.simps(2) StartOfField simp del: skip_newline.simps)
    next
      case 3
      then show ?thesis using ih(2) [OF StartOfField 3] eq by (simp add: csv_record.simps(2) StartOfField)
    next
      case 4
      then show ?thesis using ih(3) [OF StartOfField 4] eq by (simp add: csv_record.simps(2) StartOfField)
    next
      case 5
      then show ?thesis using ih(4) [OF StartOfField 5] eq by (simp add: csv_record.simps(2) StartOfField)
    qed
  next
    case InUnquoted
    consider "b = d" | "b \<noteq> d" "is_newline b" | "b \<noteq> d" "\<not> is_newline b" by blast
    then show ?thesis
    proof cases
      case 1
      then show ?thesis using ih(5) [OF InUnquoted 1] eq by (simp add: csv_record.simps(2) InUnquoted)
    next
      case 2
      then show ?thesis using eq skip by (auto simp: csv_record.simps(2) InUnquoted simp del: skip_newline.simps)
    next
      case 3
      then show ?thesis using ih(6) [OF InUnquoted 3] eq by (simp add: csv_record.simps(2) InUnquoted)
    qed
  next
    case InQuoted
    consider "b = QUOTE" "u \<noteq> [] \<and> hd u = QUOTE" | "b = QUOTE" "\<not> (u \<noteq> [] \<and> hd u = QUOTE)" | "b \<noteq> QUOTE" by blast
    then show ?thesis
    proof cases
      case 1
      then show ?thesis using ih(7) [OF InQuoted 1] eq by (simp add: csv_record.simps(2) InQuoted)
    next
      case 2
      then show ?thesis using ih(8) [OF InQuoted 2] eq by (auto simp: csv_record.simps(2) InQuoted)
    next
      case 3
      then show ?thesis using ih(9) [OF InQuoted 3] eq by (simp add: csv_record.simps(2) InQuoted)
    qed
  next
    case AfterQuote
    define tail where "tail = dropWhile (\<lambda>c. \<not> is_newline c) (b # u)"
    have "length tail \<le> length (b # u)" unfolding tail_def by (rule length_dropWhile_le)
    moreover have "length (skip_newline tail) \<le> length tail" using skip_newline_length [of tail] by (cases "tail = []") simp_all
    ultimately show ?thesis using ih(10) [OF AfterQuote] eq skip
      by (cases "b = d"; cases "is_newline b") (auto simp: csv_record.simps(2) AfterQuote tail_def [symmetric] Let_def simp del: skip_newline.simps dropWhile.simps)
  qed
qed

function csv_rows :: "byte \<Rightarrow> bool \<Rightarrow> nat option \<Rightarrow> nat \<Rightarrow> byte list \<Rightarrow> (byte list list \<times> read_error option \<times> nat) list" where
  "csv_rows d flexible expected line u =
     (case csv_record d StartOfField [] [] False line u of
        NoRecord _ \<Rightarrow> []
      | RecordRead xs kind line' rest \<Rightarrow>
          let error = row_check flexible expected line (length xs) kind
          in (xs, error, line) # csv_rows d flexible (expected_after expected (length xs) error) line' rest)"
  by pat_completeness auto
termination
  by (relation "measure (\<lambda>(d, flexible, expected, line, u). length u)") (auto dest: csv_record_rest)

declare csv_rows.simps [simp del]

text \<open>What is left for a reader between two rows.\<close>

definition text_left :: "csv_reader \<Rightarrow> byte list" where
  "text_left self = (if rd_bom_checked self \<or> \<not> rd_strip_bom self then ahead self else strip_bom (ahead self))"

definition between :: "csv_reader \<Rightarrow> bool" where
  "between self \<longleftrightarrow> reader_clean self \<and> (rd_pending_cr self \<longrightarrow> rd_bom_checked self)"

definition record_left :: "csv_reader \<Rightarrow> record_read" where
  "record_left self = csv_record (rd_delimiter self) StartOfField [] [] False (rd_line self) (text_left self)"

text \<open>The row that is read, and where it leaves the reader.\<close>

definition row_read :: "csv_reader \<Rightarrow> bytes_row option \<Rightarrow> csv_reader \<Rightarrow> bool" where
  "row_read self row self' \<longleftrightarrow>
     (case record_left self of
        NoRecord _ \<Rightarrow> row = None
      | RecordRead xs kind line rest \<Rightarrow>
          let error = row_check (rd_flexible self) (rd_num_fields self) (rd_line self) (length xs) kind
          in row = Some (row_of xs error (rd_line self)) \<and> between self' \<and> text_left self' = rest \<and> rd_line self' = line \<and>
             rd_flexible self' = rd_flexible self \<and> rd_delimiter self' = rd_delimiter self \<and>
             rd_num_fields self' = expected_after (rd_num_fields self) (length xs) error)"

lemma read_row_between:
  assumes "between self"
  shows "\<exists>row self'. read_row memchr_ref self = Some (row, self') \<and> row_read self row self'"
proof -
  obtain c where c: "compact self = Some c" "reader_clean (reset c)" "stream (reset c) = stream self" "rd_pending_cr (reset c) = rd_pending_cr self"
    "rd_line (reset c) = rd_line self" "same_row (self\<lparr>rd_record_line := rd_line self\<rparr>) (reset c)" "rd_strip_bom (reset c) = rd_strip_bom self"
    using compact_clean [of self] assms by (auto simp: between_def)
  have "\<not> rd_pending_cr (reset c) \<or> rd_bom_checked (reset c)" "rd_state (reset c) = StartOfField" "rd_ranges (reset c) = []"
    using c(4,6) assms by (auto simp: between_def same_row_def) (simp_all add: reset_def)
  from strip_leading_bom_clean [OF c(2) this] obtain base where s: "strip_leading_bom (reset c) = Some (Ok (), base)" "reader_clean base" "rd_bom_checked base"
    "rd_pending_cr base = rd_pending_cr (reset c)"
    "stream base = (if rd_bom_checked (reset c) \<or> \<not> rd_strip_bom (reset c) then stream (reset c) else strip_bom (stream (reset c)))"
    "same_row ((reset c)\<lparr>rd_bom_checked := True\<rparr>) base" "rd_line base = rd_line (reset c)" "rd_state base = StartOfField" "rd_ranges base = []"
    "rd_pending_lf_quoted base = rd_pending_lf_quoted (reset c)" by blast
  have "rd_bom_checked (reset c) = rd_bom_checked self" "\<not> rd_pending_lf_quoted (reset c)" using c(6) by (simp_all add: same_row_def) (simp add: reset_def)
  note b0 = s [unfolded c(3-5,7) this(1)] this
  have b: "strip_leading_bom (reset c) = Some (Ok (), base)" "reader_clean base" "rd_bom_checked base"
    "rd_pending_cr base = rd_pending_cr self" "stream base = (if rd_bom_checked self \<or> \<not> rd_strip_bom self then stream self else strip_bom (stream self))"
    "same_row (self\<lparr>rd_record_line := rd_line self, rd_bom_checked := True\<rparr>) base" "rd_line base = rd_line self" "rd_state base = StartOfField" "rd_ranges base = []"
    "\<not> rd_pending_lf_quoted base"
    using b0 c(6) by (simp_all add: same_row_def)
  define out where "out = base\<lparr>rd_record_start := rd_discarded base + rd_start base\<rparr>"
  have clean: "reader_clean out" using b(2) by (simp add: out_def reader_clean_def reader_ok_def)
  have inr: "in_record out" using clean b by (simp add: in_record_def out_def)
  have ahead: "ahead out = text_left self"
  proof (cases "rd_pending_cr self")
    case True
    then show ?thesis using assms b(4,5) by (simp add: between_def text_left_def ahead_def out_def stream_def)
  next
    case False
    then show ?thesis using b(4,5) by (simp add: text_left_def ahead_def out_def stream_def)
  qed
  have wr: "will_read out = record_left self"
    using ahead b by (simp add: will_read_def record_left_def out_def done_fields_def field_part_def same_row_def)
  have eqs: "rd_flexible out = rd_flexible self" "rd_num_fields out = rd_num_fields self" "rd_record_line out = rd_line self" "rd_delimiter out = rd_delimiter self" "rd_bom_checked out"
    using b(6) by (simp_all add: same_row_def out_def)
  obtain row self' where r: "row_loop memchr_ref out = Some (row, self')" "returns out (RowReturn row self')" using row_loop_returns [OF inr] by blast
  have read: "read_row memchr_ref self = Some (row, self')"
    using c(1) b(1) r(1) by (simp add: read_row_def Let_def out_def reset_def)
  have "row_read self row self'"
  proof (cases row)
    case None
    then show ?thesis using r(2) wr by (auto simp: returns_def row_read_def)
  next
    case (Some x)
    then obtain xs kind line rest where "record_left self = RecordRead xs kind line rest" using r(2) wr by (auto simp: returns_def)
    then show ?thesis using r(2) wr eqs Some by (simp add: returns_def row_read_def between_def text_left_def row_error_check count_fields_after Let_def)
  qed
  then show ?thesis using read by blast
qed

text \<open>The rows that are read are those of the specification.\<close>

definition row_content :: "bytes_row \<Rightarrow> byte list list option \<times> read_error option \<times> nat" where
  "row_content row = (bytes_row_iter row, br_error row, br_line row)"

lemma read_rows_between:
  assumes "between self" "length (text_left self) < n"
  shows "\<exists>rows self'. read_rows memchr_ref n self = Some (rows, self') \<and>
    map row_content rows = map (\<lambda>(xs, e, l). (Some xs, e, l)) (csv_rows (rd_delimiter self) (rd_flexible self) (rd_num_fields self) (rd_line self) (text_left self))"
  using assms
proof (induction n arbitrary: self)
  case (Suc n)
  note spec = csv_rows.simps [of "rd_delimiter self" "rd_flexible self" "rd_num_fields self" "rd_line self" "text_left self", folded record_left_def]
  obtain row base where r: "read_row memchr_ref self = Some (row, base)" and rr: "row_read self row base" using read_row_between [OF Suc.prems(1)] by blast
  show ?case
  proof (cases "record_left self")
    case (NoRecord line)
    then show ?thesis using r rr spec by (simp add: row_read_def)
  next
    case (RecordRead xs kind line rest)
    define error where "error = row_check (rd_flexible self) (rd_num_fields self) (rd_line self) (length xs) kind"
    have b: "row = Some (row_of xs error (rd_line self))" "between base" "text_left base = rest" "rd_line base = line" "rd_flexible base = rd_flexible self"
      "rd_delimiter base = rd_delimiter self" "rd_num_fields base = expected_after (rd_num_fields self) (length xs) error"
      using rr RecordRead by (simp_all add: row_read_def Let_def error_def)
    have "length rest < length (text_left self)" using csv_record_rest [of _ StartOfField "[]"] RecordRead by (fastforce simp: record_left_def)
    then have "length (text_left base) < n" using b Suc.prems(2) by simp
    from Suc.IH [OF b(2) this] obtain rows self' where rs: "read_rows memchr_ref n base = Some (rows, self')"
      "map row_content rows = map (\<lambda>(xs, e, l). (Some xs, e, l)) (csv_rows (rd_delimiter self) (rd_flexible self) (rd_num_fields base) line rest)" unfolding b(3-6) by blast
    have "row_content (row_of xs e l) = (Some xs, e, l)" for e l by (simp add: row_content_def row_of_fields) (simp add: row_of_def)
    then show ?thesis using r b(1,7) rs spec RecordRead by (simp add: Let_def error_def [symmetric])
  qed
qed simp

end
