(* ===== verification/Csv_Writer.thy ===== *)
theory Csv_Writer
  imports Csv_Safe
begin

text \<open>
  The CSV writer (\<open>src/csv/writer.rs\<close>): the buffered writer with its delimiter, byte order mark, headers and count of
  fields, and the quoting of a field. The sink is a type with the two operations of the trait \<open>Write\<close>, which
  return the sink they leave. An outer \<open>None\<close> is a panic. The count of the rows is a natural number.
\<close>

section \<open>Sinks\<close>

datatype write_error =
    WriteInconsistentFieldCount nat nat nat
  | HeadersAlreadyWritten
  | WriteIo

type_synonym 'w put = "'w \<Rightarrow> byte list \<Rightarrow> (write_error, unit) result \<times> 'w"
type_synonym 'w flusher = "'w \<Rightarrow> (write_error, unit) result \<times> 'w"

definition vec_write :: "byte list put" where
  "vec_write self buf = (Ok (), self @ buf)"

definition vec_flush :: "byte list flusher" where
  "vec_flush self = (Ok (), self)"

section \<open>The writer\<close>

record 'w csv_writer =
  ww_writer :: "'w option"
  ww_delimiter :: byte
  ww_flexible :: bool
  ww_num_fields :: "nat option"
  ww_row_count :: nat
  ww_buf :: "byte list"
  ww_headers :: "byte list list option"
  ww_headers_written :: bool
  ww_write_bom :: bool
  ww_bom_written :: bool

definition writer_new :: "'w \<Rightarrow> 'w csv_writer" where
  "writer_new writer =
     \<lparr>ww_writer = Some writer, ww_delimiter = ascii CHR '','', ww_flexible = False, ww_num_fields = None, ww_row_count = 0,
      ww_buf = [], ww_headers = None, ww_headers_written = False, ww_write_bom = False, ww_bom_written = False\<rparr>"

definition writer_set_delimiter :: "'w csv_writer \<Rightarrow> byte \<Rightarrow> 'w csv_writer option" where
  "writer_set_delimiter self byte =
     (if byte \<noteq> QUOTE \<and> byte \<noteq> CR \<and> byte \<noteq> LF then Some (self\<lparr>ww_delimiter := byte\<rparr>) else None)"

definition writer_set_flexible :: "'w csv_writer \<Rightarrow> bool \<Rightarrow> 'w csv_writer" where
  "writer_set_flexible self yes = self\<lparr>ww_flexible := yes\<rparr>"

definition set_write_bom :: "'w csv_writer \<Rightarrow> bool \<Rightarrow> 'w csv_writer" where
  "set_write_bom self yes = self\<lparr>ww_write_bom := yes\<rparr>"

definition write_pending_bom :: "'w csv_writer \<Rightarrow> 'w csv_writer" where
  "write_pending_bom self =
     (if ww_write_bom self \<and> \<not> ww_bom_written self
      then self\<lparr>ww_buf := ww_buf self @ BOM, ww_bom_written := True\<rparr> else self)"

definition writer_set_headers :: "'w csv_writer \<Rightarrow> byte list list \<Rightarrow> 'w csv_writer" where
  "writer_set_headers self headers = self\<lparr>ww_headers := Some headers\<rparr>"

definition writer_headers :: "'w csv_writer \<Rightarrow> byte list list option" where
  "writer_headers self = ww_headers self"

section \<open>Fields\<close>

text \<open>The loop over the quotes of a field, from a position on.\<close>

function quote_from :: "finder \<Rightarrow> byte list \<Rightarrow> nat \<Rightarrow> byte list \<Rightarrow> byte list option" where
  "quote_from memchr field pos buf =
     do {
       rest \<leftarrow> sub_slice field pos (length field);
       case memchr [QUOTE] rest of
         Some quote_offset \<Rightarrow> do {
           let abs_pos = pos + quote_offset;
           segment \<leftarrow> sub_slice field pos abs_pos;
           quote_from memchr field (abs_pos + 1) (buf @ segment @ [QUOTE, QUOTE])
         }
       | None \<Rightarrow> Some (buf @ rest)
     }"
  by auto
termination
  by (relation "measure (\<lambda>(memchr, field, pos, buf). Suc (length field) - pos)") (auto simp: sub_slice_def split: if_splits)

declare quote_from.simps [simp del]

definition write_csv_field :: "finder \<Rightarrow> byte list \<Rightarrow> byte \<Rightarrow> byte list \<Rightarrow> byte list option" where
  "write_csv_field memchr buf delimiter field =
     (let needs_quoting = memchr [delimiter, CR, LF] field \<noteq> None \<or> memchr [QUOTE] field \<noteq> None
      in if \<not> needs_quoting then Some (buf @ field)
         else do {
           buf \<leftarrow> quote_from memchr field 0 (buf @ [QUOTE]);
           Some (buf @ [QUOTE])
         })"

definition write_field :: "finder \<Rightarrow> 'w csv_writer \<Rightarrow> byte list \<Rightarrow> 'w csv_writer option" where
  "write_field memchr self field =
     map_option (\<lambda>buf. self\<lparr>ww_buf := buf\<rparr>) (write_csv_field memchr (ww_buf self) (ww_delimiter self) field)"

text \<open>The fields of a row, each after the first one with a delimiter before it.\<close>

fun write_fields :: "finder \<Rightarrow> 'w csv_writer \<Rightarrow> nat \<Rightarrow> byte list list \<Rightarrow> 'w csv_writer option" where
  "write_fields memchr self i [] = Some self"
| "write_fields memchr self i (field # row) =
     do {
       let self = (if i > 0 then self\<lparr>ww_buf := ww_buf self @ [ww_delimiter self]\<rparr> else self);
       self \<leftarrow> write_field memchr self field;
       write_fields memchr self (i + 1) row
     }"

section \<open>Rows\<close>

definition writer_flush :: "'w put \<Rightarrow> 'w flusher \<Rightarrow> 'w csv_writer \<Rightarrow> (write_error, unit) result \<times> 'w csv_writer" where
  "writer_flush put fl self =
     (case ww_writer self of
        Some writer \<Rightarrow>
          (case put writer (ww_buf self) of
             (Err e, writer) \<Rightarrow> (Err e, self\<lparr>ww_writer := Some writer\<rparr>)
           | (Ok _, writer) \<Rightarrow>
               (case fl writer of
                  (Err e, writer) \<Rightarrow> (Err e, self\<lparr>ww_writer := Some writer\<rparr>)
                | (Ok _, writer) \<Rightarrow> (Ok (), self\<lparr>ww_writer := Some writer, ww_buf := []\<rparr>)))
      | None \<Rightarrow> (Ok (), self\<lparr>ww_buf := []\<rparr>))"

text \<open>The common end of \<open>write_headers\<close> and \<open>write_row\<close>.\<close>

definition flush_if_full :: "'w put \<Rightarrow> 'w flusher \<Rightarrow> 'w csv_writer \<Rightarrow> (write_error, unit) result \<times> 'w csv_writer" where
  "flush_if_full put fl self = (if length (ww_buf self) \<ge> 8192 then writer_flush put fl self else (Ok (), self))"

definition write_headers ::
  "finder \<Rightarrow> 'w put \<Rightarrow> 'w flusher \<Rightarrow> 'w csv_writer \<Rightarrow> byte list list \<Rightarrow> ((write_error, unit) result \<times> 'w csv_writer) option" where
  "write_headers memchr put fl self strings =
     (if ww_headers_written self then Some (Err HeadersAlreadyWritten, self)
      else
        let count = length strings;
            expected = (case ww_num_fields self of Some n \<Rightarrow> Some n | None \<Rightarrow> map_option length (ww_headers self))
        in if \<not> ww_flexible self \<and> expected \<noteq> None \<and> count \<noteq> the expected
           then Some (Err (WriteInconsistentFieldCount (the expected) count (ww_row_count self + 1)), self)
           else do {
             let self = write_pending_bom self;
             self \<leftarrow> write_fields memchr self 0 strings;
             let self = self\<lparr>ww_buf := ww_buf self @ [CR, LF], ww_row_count := ww_row_count self + 1, ww_headers := Some strings,
               ww_headers_written := True, ww_num_fields := Some count\<rparr>;
             Some (flush_if_full put fl self)
           })"

definition write_row ::
  "finder \<Rightarrow> 'w put \<Rightarrow> 'w flusher \<Rightarrow> 'w csv_writer \<Rightarrow> byte list list \<Rightarrow> ((write_error, unit) result \<times> 'w csv_writer) option" where
  "write_row memchr put fl self row =
     (let self = write_pending_bom self;
          field_count = length row
      in if ww_flexible self
         then do {
           self \<leftarrow> write_fields memchr self 0 row;
           let self = (if ww_num_fields self = None \<and> field_count > 0 then self\<lparr>ww_num_fields := Some field_count\<rparr> else self);
           Some (flush_if_full put fl (self\<lparr>ww_buf := ww_buf self @ [CR, LF], ww_row_count := ww_row_count self + 1\<rparr>))
         }
         else
           let buf_start = length (ww_buf self)
           in do {
             self \<leftarrow> write_fields memchr self 0 row;
             let finish = (\<lambda>self. flush_if_full put fl (self\<lparr>ww_buf := ww_buf self @ [CR, LF], ww_row_count := ww_row_count self + 1\<rparr>));
             Some (case ww_num_fields self of
                 Some expected \<Rightarrow>
                   if field_count \<noteq> expected
                   then (Err (WriteInconsistentFieldCount expected field_count (ww_row_count self + 1)),
                     self\<lparr>ww_buf := take buf_start (ww_buf self)\<rparr>)
                   else finish self
               | None \<Rightarrow> finish (self\<lparr>ww_num_fields := Some field_count\<rparr>))
           })"

text \<open>Rows one after the other, up to the first error.\<close>

fun write_rows ::
  "finder \<Rightarrow> 'w put \<Rightarrow> 'w flusher \<Rightarrow> 'w csv_writer \<Rightarrow> byte list list list \<Rightarrow> ((write_error, unit) result \<times> 'w csv_writer) option" where
  "write_rows memchr put fl self [] = Some (Ok (), self)"
| "write_rows memchr put fl self (row # rows) =
     do {
       (r, self) \<leftarrow> write_row memchr put fl self row;
       case r of Err e \<Rightarrow> Some (Err e, self) | Ok _ \<Rightarrow> write_rows memchr put fl self rows
     }"

text \<open>The drop of a writer flushes it, unless its sink has been taken.\<close>

definition writer_drop :: "'w put \<Rightarrow> 'w flusher \<Rightarrow> 'w csv_writer \<Rightarrow> 'w csv_writer" where
  "writer_drop put fl self = (if ww_writer self \<noteq> None then snd (writer_flush put fl self) else self)"

definition into_inner :: "'w put \<Rightarrow> 'w flusher \<Rightarrow> 'w csv_writer \<Rightarrow> ((write_error, 'w) result \<times> 'w csv_writer) option" where
  "into_inner put fl self =
     (case writer_flush put fl self of
        (Err e, self) \<Rightarrow> Some (Err e, writer_drop put fl self)
      | (Ok _, self) \<Rightarrow>
          (case ww_writer self of
             None \<Rightarrow> None
           | Some writer \<Rightarrow> Some (Ok writer, writer_drop put fl (self\<lparr>ww_writer := None\<rparr>))))"

section \<open>The text of a row\<close>

definition quote_content :: "byte list \<Rightarrow> byte list" where
  "quote_content x = concat (map (\<lambda>b. if b = QUOTE then [QUOTE, QUOTE] else [b]) x)"

definition csv_field :: "byte \<Rightarrow> byte list \<Rightarrow> byte list" where
  "csv_field d x = (if \<exists>b \<in> set x. b \<in> {d, CR, LF, QUOTE} then QUOTE # quote_content x @ [QUOTE] else x)"

definition csv_line :: "byte \<Rightarrow> byte list list \<Rightarrow> byte list" where
  "csv_line d row = join_on d (map (csv_field d) row) @ [CR, LF]"

lemma quote_content_simps [simp]:
  "quote_content [] = []" "quote_content (b # x) = (if b = QUOTE then [QUOTE, QUOTE] else [b]) @ quote_content x"
  "quote_content (x @ y) = quote_content x @ quote_content y"
  by (simp_all add: quote_content_def)

lemma quote_content_free: "QUOTE \<notin> set x \<Longrightarrow> quote_content x = x"
  by (induction x) auto

lemma quote_from_content: "pos \<le> length field \<Longrightarrow> quote_from memchr_ref field pos buf = Some (buf @ quote_content (drop pos field))"
proof (induction "length field - pos" arbitrary: pos buf rule: less_induct)
  case less
  have rest: "sub_slice field pos (length field) = Some (drop pos field)" using less.prems by (simp add: sub_slice_def)
  show ?case
  proof (cases "memchr_ref [QUOTE] (drop pos field)")
    case None
    then have "QUOTE \<notin> set (drop pos field)" by (auto simp: memchr_ref_None)
    then show ?thesis using None rest by (subst quote_from.simps) (simp add: quote_content_free)
  next
    case (Some k)
    note m = memchr_ref_Some [OF Some]
    have pos: "pos + k < length field" "field ! (pos + k) = QUOTE" using m less.prems by auto
    have "take k (drop pos field) = takeWhile (\<lambda>b. b \<notin> set [QUOTE]) (drop pos field)" using m by blast
    then have free: "QUOTE \<notin> set (take k (drop pos field))" using set_takeWhileD by fastforce
    have "drop k (drop pos field) = QUOTE # drop (Suc (pos + k)) field"
      using pos Cons_nth_drop_Suc [OF pos(1)] by (simp add: add.commute)
    then have "drop pos field = take k (drop pos field) @ QUOTE # drop (Suc (pos + k)) field"
      using append_take_drop_id [of k "drop pos field"] by simp
    from arg_cong [OF this, of quote_content]
    have "quote_content (drop pos field) = take k (drop pos field) @ [QUOTE, QUOTE] @ quote_content (drop (Suc (pos + k)) field)"
      unfolding quote_content_simps(3) quote_content_free [OF free] by simp
    moreover have "sub_slice field pos (pos + k) = Some (take k (drop pos field))" using pos by (simp add: sub_slice_def)
    moreover have "quote_from memchr_ref field (Suc (pos + k)) buf' = Some (buf' @ quote_content (drop (Suc (pos + k)) field))" for buf'
      using pos by (intro less.hyps) simp_all
    ultimately show ?thesis using Some rest by (subst quote_from.simps) simp
  qed
qed

lemma write_csv_field_text: "write_csv_field memchr_ref buf d x = Some (buf @ csv_field d x)"
proof (cases "\<exists>b \<in> set x. b \<in> {d, CR, LF, QUOTE}")
  case True
  then have "memchr_ref [d, CR, LF] x \<noteq> None \<or> memchr_ref [QUOTE] x \<noteq> None" by (auto simp: memchr_ref_None)
  then show ?thesis using True quote_from_content [of 0 x "buf @ [QUOTE]"] by (simp add: write_csv_field_def Let_def csv_field_def)
next
  case False
  then have "memchr_ref [d, CR, LF] x = None" "memchr_ref [QUOTE] x = None" by (auto simp: memchr_ref_None)
  then show ?thesis using False by (simp add: write_csv_field_def csv_field_def)
qed

lemma write_fields_text:
  "write_fields memchr_ref self i row = Some (self\<lparr>ww_buf := ww_buf self @ (if i > 0 \<and> row \<noteq> [] then [ww_delimiter self] else []) @
     join_on (ww_delimiter self) (map (csv_field (ww_delimiter self)) row)\<rparr>)"
proof (induction row arbitrary: self i)
  case (Cons x row)
  let ?d = "ww_delimiter self"
  define self1 where "self1 = self\<lparr>ww_buf := ww_buf self @ (if i > 0 then [?d] else []) @ csv_field ?d x\<rparr>"
  have "write_fields memchr_ref self i (x # row) = write_fields memchr_ref self1 (Suc i) row"
    by (cases "i > 0") (simp_all add: write_field_def write_csv_field_text self1_def)
  also have "\<dots> = Some (self1\<lparr>ww_buf := ww_buf self1 @ (if row \<noteq> [] then [?d] else []) @ join_on ?d (map (csv_field ?d) row)\<rparr>)"
    unfolding Cons by (simp add: self1_def)
  finally show ?case by (cases row) (simp_all add: self1_def)
qed simp

end
