(* ===== verification/Csv_Roundtrip.thy ===== *)
theory Csv_Roundtrip
  imports Csv_Rows Csv_Writer
begin

text \<open>
  What the CSV writer puts into a sink, with the contract \<open>csv_sink\<close> of a sink that takes everything, and that the
  reader reads it back. The properties of the reader and the writer are at the end, after lemmas that show where the code
  departs from its documentation.
\<close>

section \<open>Writers on a sink that takes everything\<close>

text \<open>What has been written and what waits in the buffer.\<close>

definition written :: "('w \<Rightarrow> byte list) \<Rightarrow> 'w csv_writer \<Rightarrow> byte list" where
  "written contents self = (case ww_writer self of None \<Rightarrow> [] | Some w \<Rightarrow> contents w) @ ww_buf self"

definition pending_bom :: "'w csv_writer \<Rightarrow> byte list" where
  "pending_bom self = (if ww_write_bom self \<and> \<not> ww_bom_written self then BOM else [])"

definition row_fits :: "'w csv_writer \<Rightarrow> byte list list \<Rightarrow> bool" where
  "row_fits self row \<longleftrightarrow> ww_flexible self \<or> ww_num_fields self = None \<or> ww_num_fields self = Some (length row)"

locale csv_sink =
  fixes contents :: "'w \<Rightarrow> byte list" and put :: "'w put" and fl :: "'w flusher"
  assumes put_ok: "\<exists>w'. put w b = (Ok (), w') \<and> contents w' = contents w @ b"
    and fl_ok: "\<exists>w'. fl w = (Ok (), w') \<and> contents w' = contents w"
begin

lemma writer_flush_output:
  assumes "ww_writer self = Some w"
  shows "\<exists>w'. writer_flush put fl self = (Ok (), self\<lparr>ww_writer := Some w', ww_buf := []\<rparr>) \<and> contents w' = written contents self"
proof -
  obtain w1 where "put w (ww_buf self) = (Ok (), w1)" "contents w1 = contents w @ ww_buf self" using put_ok by blast
  moreover obtain w2 where "fl w1 = (Ok (), w2)" "contents w2 = contents w1" using fl_ok by blast
  ultimately show ?thesis using assms by (intro exI [of _ w2]) (simp add: writer_flush_def written_def)
qed

lemma flush_if_full_output:
  assumes "ww_writer self = Some w"
  shows "\<exists>w' buf. flush_if_full put fl self = (Ok (), self\<lparr>ww_writer := Some w', ww_buf := buf\<rparr>) \<and> contents w' @ buf = written contents self"
proof (cases "length (ww_buf self) \<ge> 8192")
  case True
  from writer_flush_output [OF assms] obtain w' where "writer_flush put fl self = (Ok (), self\<lparr>ww_writer := Some w', ww_buf := []\<rparr>)"
    "contents w' = written contents self" by blast
  then show ?thesis using True by (intro exI [of _ w'] exI [of _ "[]"]) (simp add: flush_if_full_def)
next
  case False
  have "self = self\<lparr>ww_writer := Some w, ww_buf := ww_buf self\<rparr>" using assms by simp
  then show ?thesis using False assms unfolding flush_if_full_def if_not_P [OF False] written_def by (metis option.simps(5))
qed

lemma write_row_output:
  assumes "ww_writer self = Some w" "row_fits self row"
  shows "\<exists>w' buf bom count. write_row memchr_ref put fl self row =
      Some (Ok (), self\<lparr>ww_writer := Some w', ww_buf := buf, ww_bom_written := bom, ww_num_fields := count, ww_row_count := ww_row_count self + 1\<rparr>) \<and>
    contents w' @ buf = written contents self @ pending_bom self @ csv_line (ww_delimiter self) row \<and> (ww_write_bom self \<longrightarrow> bom) \<and>
    (\<not> ww_flexible self \<longrightarrow> count = Some (length row))"
proof -
  define bom where "bom = (ww_write_bom self \<or> ww_bom_written self)"
  define count where "count = (if ww_flexible self \<and> (ww_num_fields self \<noteq> None \<or> row = []) then ww_num_fields self else Some (length row))"
  have pend: "write_pending_bom self = self\<lparr>ww_buf := ww_buf self @ pending_bom self, ww_bom_written := bom\<rparr>"
    by (cases "ww_bom_written self"; cases "ww_write_bom self")
      (auto simp: write_pending_bom_def pending_bom_def bom_def intro!: csv_writer.equality)
  define final where "final = self\<lparr>ww_buf := ww_buf self @ pending_bom self @ csv_line (ww_delimiter self) row, ww_bom_written := bom,
    ww_num_fields := count, ww_row_count := ww_row_count self + 1\<rparr>"
  define mid where "mid = self\<lparr>ww_buf := ww_buf self @ pending_bom self @ join_on (ww_delimiter self) (map (csv_field (ww_delimiter self)) row), ww_bom_written := bom\<rparr>"
  have wf: "write_fields memchr_ref (write_pending_bom self) 0 row = Some mid" by (simp add: pend write_fields_text mid_def)
  have flags: "ww_flexible (write_pending_bom self) = ww_flexible self" "ww_num_fields mid = ww_num_fields self" by (simp_all add: pend mid_def)
  have final: "(mid\<lparr>ww_num_fields := count\<rparr>)\<lparr>ww_buf := ww_buf mid @ [CR, LF], ww_row_count := ww_row_count mid + 1\<rparr> = final"
    by (simp add: mid_def final_def csv_line_def)
  have keep: "mid\<lparr>ww_num_fields := ww_num_fields self\<rparr> = mid" by (simp add: mid_def)
  have step: "write_row memchr_ref put fl self row = Some (flush_if_full put fl final)"
  proof (cases "ww_flexible self")
    case True
    have "(if ww_num_fields mid = None \<and> length row > 0 then mid\<lparr>ww_num_fields := Some (length row)\<rparr> else mid) = mid\<lparr>ww_num_fields := count\<rparr>"
      using True keep by (auto simp: count_def flags)
    then show ?thesis using True wf final by (simp add: write_row_def flags Let_def)
  next
    case False
    then consider "ww_num_fields self = None" | "ww_num_fields self = Some (length row)" using assms(2) by (auto simp: row_fits_def)
    then show ?thesis
    proof cases
      case 1
      then show ?thesis using False wf final by (simp add: write_row_def flags Let_def count_def)
    next
      case 2
      then have "mid\<lparr>ww_num_fields := count\<rparr> = mid" using keep False by (simp add: count_def)
      then show ?thesis using 2 False wf final by (simp add: write_row_def flags Let_def)
    qed
  qed
  have "ww_writer final = Some w" using assms(1) by (simp add: final_def)
  from flush_if_full_output [OF this] obtain w' buf where f: "flush_if_full put fl final = (Ok (), final\<lparr>ww_writer := Some w', ww_buf := buf\<rparr>)"
    "contents w' @ buf = written contents final" by blast
  have "final\<lparr>ww_writer := Some w', ww_buf := buf\<rparr> =
      self\<lparr>ww_writer := Some w', ww_buf := buf, ww_bom_written := bom, ww_num_fields := count, ww_row_count := ww_row_count self + 1\<rparr>"
    by (simp add: final_def)
  moreover have "written contents final = written contents self @ pending_bom self @ csv_line (ww_delimiter self) row"
    using assms(1) by (simp add: written_def final_def)
  ultimately show ?thesis using step f
    by (intro exI [of _ w'] exI [of _ buf] exI [of _ bom] exI [of _ count]) (simp add: bom_def count_def)
qed

lemma write_rows_output:
  assumes "ww_writer self = Some w" "ww_flexible self \<or> (\<exists>n. ww_num_fields self \<in> {None, Some n} \<and> (\<forall>row \<in> set rows. length row = n))"
  shows "\<exists>self' w'. write_rows memchr_ref put fl self rows = Some (Ok (), self') \<and> ww_writer self' = Some w' \<and>
    written contents self' = written contents self @ (if rows = [] then [] else pending_bom self) @ concat (map (csv_line (ww_delimiter self)) rows)"
  using assms
proof (induction rows arbitrary: self w)
  case (Cons row rows)
  have "row_fits self row" using Cons.prems(2) by (auto simp: row_fits_def)
  from write_row_output [OF Cons.prems(1) this] obtain w1 buf bom count where
    r: "write_row memchr_ref put fl self row =
      Some (Ok (), self\<lparr>ww_writer := Some w1, ww_buf := buf, ww_bom_written := bom, ww_num_fields := count, ww_row_count := ww_row_count self + 1\<rparr>)"
    "contents w1 @ buf = written contents self @ pending_bom self @ csv_line (ww_delimiter self) row" "ww_write_bom self \<longrightarrow> bom"
    "\<not> ww_flexible self \<longrightarrow> count = Some (length row)" by blast
  define self1 where "self1 = self\<lparr>ww_writer := Some w1, ww_buf := buf, ww_bom_written := bom, ww_num_fields := count, ww_row_count := ww_row_count self + 1\<rparr>"
  have s: "ww_writer self1 = Some w1" "ww_delimiter self1 = ww_delimiter self" "pending_bom self1 = []"
    "ww_flexible self1 \<or> (\<exists>n. ww_num_fields self1 \<in> {None, Some n} \<and> (\<forall>row \<in> set rows. length row = n))"
    "written contents self1 = written contents self @ pending_bom self @ csv_line (ww_delimiter self) row"
    using r(2-4) Cons.prems(2) by (auto simp: self1_def pending_bom_def written_def)
  from Cons.IH [OF s(1,4)] r(1) [folded self1_def] s show ?case by auto
qed auto

lemma into_inner_output:
  assumes "ww_writer self = Some w"
  shows "\<exists>w' self'. into_inner put fl self = Some (Ok w', self') \<and> contents w' = written contents self"
  using writer_flush_output [OF assms] by (auto simp: into_inner_def)

end

interpretation vec: csv_sink "\<lambda>w. w" vec_write vec_flush
  by unfold_locales (simp_all add: vec_write_def vec_flush_def)

section \<open>Reading what was written\<close>

lemma record_quoted_content:
  "c \<noteq> QUOTE \<Longrightarrow> \<exists>line'. csv_record d InQuoted fs cur cr line (quote_content x @ QUOTE # c # rest) = csv_record d AfterQuote (fs @ [cur @ x]) [] False line' (c # rest)"
proof (induction x arbitrary: cur cr line)
  case Nil
  then show ?case by (intro exI [of _ line]) (simp add: csv_record.simps(2) [of d InQuoted])
next
  case (Cons b x)
  show ?case
  proof (cases "b = QUOTE")
    case True
    then show ?thesis using Cons.IH [OF Cons.prems, of "cur @ [QUOTE]" False line] by (simp add: csv_record.simps(2) [of d InQuoted])
  next
    case False
    then show ?thesis using Cons.IH [OF Cons.prems, of "cur @ [b]" "b = CR" "if b = CR \<or> b = LF \<and> \<not> cr then line + 1 else line"]
      by (simp add: csv_record.simps(2) [of d InQuoted])
  qed
qed

text \<open>A field and what follows it.\<close>

lemma record_field:
  assumes "valid_delimiter d" "c = d \<or> c = CR \<and> (fs \<noteq> [] \<or> x \<noteq> [])"
  shows "\<exists>line'. csv_record d StartOfField fs [] False line (csv_field d x @ c # rest) =
    (if c = d then csv_record d StartOfField (fs @ [x]) [] False line' rest else RecordRead (fs @ [x]) None line' (skip_newline (c # rest)))"
proof -
  have d: "d \<noteq> QUOTE" "d \<noteq> CR" "d \<noteq> LF" "\<not> is_newline d" "c \<noteq> QUOTE" using assms by (auto simp: valid_delimiter_def is_newline_def)
  show ?thesis
  proof (cases "\<exists>b \<in> set x. b \<in> {d, CR, LF, QUOTE}")
    case True
    obtain line' where q: "csv_record d InQuoted fs [] False line (quote_content x @ QUOTE # c # rest) = csv_record d AfterQuote (fs @ [x]) [] False line' (c # rest)"
      using record_quoted_content [OF d(5), of d fs "[]" False line x rest] by auto
    have "csv_record d StartOfField fs [] False line (csv_field d x @ c # rest) = csv_record d AfterQuote (fs @ [x]) [] False line' (c # rest)"
      using True q d by (simp add: csv_field_def csv_record.simps(2) [of d StartOfField])
    also have "\<dots> = (if c = d then csv_record d StartOfField (fs @ [x]) [] False line' rest else RecordRead (fs @ [x]) None (line' + 1) (skip_newline (c # rest)))"
      using assms(2) by (auto simp: csv_record.simps(2) [of d AfterQuote] simp del: skip_newline.simps)
    finally show ?thesis by (cases "c = d") auto
  next
    case False
    then have f: "csv_field d x = x" by (simp add: csv_field_def)
    show ?thesis
    proof (cases x)
      case Nil
      then show ?thesis using assms(2) d unfolding f by (auto simp: csv_record.simps(2) [of d StartOfField] simp del: skip_newline.simps)
    next
      case (Cons b y)
      have free: "\<forall>b \<in> set y. b \<noteq> d \<and> \<not> is_newline b" "b \<noteq> d" "\<not> is_newline b" "b \<noteq> QUOTE" using False Cons by (auto simp: is_newline_def)
      have "csv_record d StartOfField fs [] False line (csv_field d x @ c # rest) = csv_record d InUnquoted fs ([b] @ y) False line (c # rest)"
        unfolding f unfolding Cons using record_unquoted_prefix [OF free(1), of fs "[b]" line "c # rest"] free(2-4) by (simp add: csv_record.simps(2) [of d StartOfField])
      also have "\<dots> = (if c = d then csv_record d StartOfField (fs @ [x]) [] False line rest else RecordRead (fs @ [x]) None (line + 1) (skip_newline (c # rest)))"
        using assms(2) Cons by (auto simp: csv_record.simps(2) [of d InUnquoted] simp del: skip_newline.simps)
      finally show ?thesis by (cases "c = d") auto
    qed
  qed
qed

lemma record_line:
  assumes "valid_delimiter d"
  shows "row \<noteq> [] \<Longrightarrow> fs \<noteq> [] \<or> row \<noteq> [[]] \<Longrightarrow>
    \<exists>line'. csv_record d StartOfField fs [] False line (csv_line d row @ rest) = RecordRead (fs @ row) None line' rest"
proof (induction row arbitrary: fs line)
  case (Cons x row)
  have d: "d \<noteq> CR" using assms by (simp add: valid_delimiter_def)
  show ?case
  proof (cases row)
    case Nil
    then show ?thesis using record_field [OF assms, of CR fs x line "LF # rest"] Cons.prems(2) d by (auto simp: csv_line_def)
  next
    case (Cons y ys)
    have line: "csv_line d (x # row) @ rest = csv_field d x @ d # csv_line d row @ rest" by (simp add: csv_line_def Cons)
    obtain line' where "csv_record d StartOfField fs [] False line (csv_line d (x # row) @ rest) =
        csv_record d StartOfField (fs @ [x]) [] False line' (csv_line d row @ rest)"
      unfolding line using record_field [OF assms, of d fs x line "csv_line d row @ rest"] by auto
    then show ?thesis using Cons.IH [of "fs @ [x]" line'] Cons by auto
  qed
qed simp

lemma csv_rows_lines:
  assumes "valid_delimiter d" "\<forall>row \<in> set rows. row \<noteq> [] \<and> row \<noteq> [[]]" "flexible \<or> (\<exists>n. expected \<in> {None, Some n} \<and> (\<forall>row \<in> set rows. length row = n))"
  shows "map (\<lambda>(xs, e, l). (xs, e)) (csv_rows d flexible expected line (concat (map (csv_line d) rows))) = map (\<lambda>row. (row, None)) rows"
  using assms(2,3)
proof (induction rows arbitrary: expected line)
  case Nil
  then show ?case by (subst csv_rows.simps) (simp add: csv_record.simps(1))
next
  case (Cons row rows)
  obtain line' where r: "csv_record d StartOfField [] [] False line (csv_line d row @ concat (map (csv_line d) rows)) = RecordRead row None line' (concat (map (csv_line d) rows))"
    using record_line [OF assms(1), of row "[]" line] Cons.prems(1) by auto
  have e: "row_check flexible expected line (length row) None = None" using Cons.prems(2) by (auto simp: row_check_def split: option.split)
  have "expected_after expected (length row) None = (if expected = None then Some (length row) else expected)" using Cons.prems(1) by (simp add: expected_after_def)
  then have "flexible \<or> (\<exists>n. expected_after expected (length row) None \<in> {None, Some n} \<and> (\<forall>row \<in> set rows. length row = n))" using Cons.prems(2) by auto
  from Cons.IH [OF _ this, of line'] Cons.prems(1) show ?case using r e by (subst csv_rows.simps) (simp add: Let_def)
qed


lemma reader_new_between:
  fixes flexible strip d chunks
  defines "reader \<equiv> (reader_new (map ReadBytes chunks))\<lparr>rd_flexible := flexible, rd_strip_bom := strip, rd_delimiter := d\<rparr>"
  assumes "[] \<notin> set chunks" "valid_delimiter d"
  shows "between reader" "text_left reader = (if strip then strip_bom (concat chunks) else concat chunks)"
proof -
  have "source_clean (map ReadBytes chunks)" using assms(2) by (auto simp: source_clean_def list_all_iff)
  then show "between reader" using assms(3) by (simp add: between_def reader_clean_def reader_ok_def reader_def reader_new_def)
  have "concat (map event_bytes (map ReadBytes chunks)) = concat chunks" by (simp add: comp_def)
  then show "text_left reader = (if strip then strip_bom (concat chunks) else concat chunks)"
    by (simp add: text_left_def ahead_def stream_def reader_def reader_new_def)
qed

section \<open>Departures from the documentation\<close>

abbreviation read_content :: "nat \<Rightarrow> csv_reader \<Rightarrow> (byte list list option \<times> read_error option \<times> nat) list option" where
  "read_content n reader \<equiv> map_option (\<lambda>(rows, reader'). map row_content rows) (read_rows memchr_ref n reader)"

text \<open>A record of two columns passes a limit of one column, and one of six bytes a limit of two bytes.\<close>

lemma max_columns_missed:
  "read_content 1 (reader_set_max_columns (reader_new [ReadBytes (ascii_bytes ''a,b'' @ [LF])]) 1) =
     Some [(Some [ascii_bytes ''a'', ascii_bytes ''b''], None, 1)]"
  by code_simp

lemma max_record_bytes_missed:
  "read_content 1 (reader_set_max_record_bytes (reader_new [ReadBytes (ascii_bytes ''abcdef'' @ [LF])]) 2) =
     Some [(Some [ascii_bytes ''abcdef''], None, 1)]"
  by code_simp

text \<open>A record on line 3, after two blank lines, is reported on line 1.\<close>

lemma blank_line_number:
  "read_content 1 (reader_new [ReadBytes ([LF, LF] @ ascii_bytes ''a'' @ [LF])]) = Some [(Some [ascii_bytes ''a''], None, 1)]"
  by code_simp

text \<open>A failed read right after a closing quote ends the row, but reading goes on, and the rest of the record is a row of its own.\<close>

lemma read_error_phantom_row:
  "read_content 2 (reader_new [ReadBytes (QUOTE # ascii_bytes ''a'' @ [QUOTE]), ReadFail (read_error_new Io 0 0), ReadBytes (ascii_bytes '',b'' @ [LF])]) =
     Some [(Some [ascii_bytes ''a''], Some (read_error_new Io 0 0), 1), (Some [[], ascii_bytes ''b''], None, 1)]"
  by code_simp

text \<open>A first field that starts with the bytes of a mark loses them.\<close>

lemma leading_mark_lost:
  "map_option (\<lambda>(r, writer). ww_buf writer) (write_rows memchr_ref vec_write vec_flush (writer_new []) [[BOM @ ascii_bytes ''x'']]) =
     Some (BOM @ ascii_bytes ''x'' @ [CR, LF])"
  "read_content 1 (reader_new [ReadBytes (BOM @ ascii_bytes ''x'' @ [CR, LF])]) = Some [(Some [ascii_bytes ''x''], None, 1)]"
  by (code_simp, code_simp)

section \<open>Properties\<close>

text \<open>
  C5: however a source cuts a text into reads, none of them empty and none failing, a reader without limits returns the rows that the byte
  by byte specification gives for the text (without a leading byte order mark, unless it is to be kept), and then the end: the same fields,
  the same errors (an unclosed quote, text after a closing quote, another number of fields than the first row) and the same
  line numbers. The line of a row is the one on which the previous row has ended plus one, also when blank lines, which are
  skipped, come first; the documentation says the line on which the record starts.
\<close>

theorem csv_reader_correct:
  assumes "memchr_spec memchr" "[] \<notin> set chunks"
    "reader_set_delimiter (reader_set_strip_bom (reader_set_flexible (reader_new (map ReadBytes chunks)) flexible) strip) d = Some reader"
    "length (concat chunks) < n"
  shows "\<exists>rows reader'. read_rows memchr n reader = Some (rows, reader') \<and>
    map (\<lambda>row. (bytes_row_iter row, br_error row, br_line row)) rows =
    map (\<lambda>(xs, error, line). (Some xs, error, line)) (csv_rows d flexible None 1 (if strip then strip_bom (concat chunks) else concat chunks))"
proof -
  have d: "valid_delimiter d" and r: "reader = (reader_new (map ReadBytes chunks))\<lparr>rd_flexible := flexible, rd_strip_bom := strip, rd_delimiter := d\<rparr>"
    using assms(3) by (auto simp: reader_set_delimiter_def reader_set_flexible_def reader_set_strip_bom_def split: if_splits)
  note b = reader_new_between [OF assms(2) d, where flexible = flexible and strip = strip, folded r]
  have "length (text_left reader) < n" using assms(4) by (auto simp: b(2) strip_bom_def)
  moreover have "rd_delimiter reader = d" "rd_flexible reader = flexible" "rd_num_fields reader = None" "rd_line reader = 1"
    by (simp_all add: r reader_new_def)
  moreover have "memchr = memchr_ref" using assms(1) by (simp add: memchr_spec_iff)
  ultimately show ?thesis using read_rows_between [OF b(1), of n] unfolding b(2) row_content_def [abs_def] by simp
qed

theorem csv_reader_correct_witness:
  "\<exists>rows reader'. read_rows memchr_ref 6 (reader_new [ReadBytes [0x61, 0x2C, 0x22], ReadBytes [0x22, 0x0A]]) = Some (rows, reader') \<and>
    map (\<lambda>row. (bytes_row_iter row, br_error row, br_line row)) rows = [(Some [[0x61], []], None, 1)]"
proof -
  have spec: "csv_rows 0x2C False None 1 (strip_bom (concat [[0x61, 0x2C, 0x22], [0x22, 0x0A]])) = [([[0x61], []], None, 1)]" by code_simp
  have set: "reader_set_delimiter (reader_set_strip_bom (reader_set_flexible (reader_new (map ReadBytes [[0x61, 0x2C, 0x22], [0x22, 0x0A]])) False) True) 0x2C =
      Some (reader_new (map ReadBytes [[0x61, 0x2C, 0x22], [0x22, 0x0A]]))" by code_simp
  show ?thesis using csv_reader_correct [OF _ _ set, of memchr_ref 6] spec by (simp add: memchr_spec_iff)
qed

text \<open>
  C14: the reader does not panic. For every source, with failing reads and reads that deliver nothing, and for all
  settings, every number of rows can be read, each read ends, and the fields of each row can be taken. Positions and counters are
  natural numbers here: in the code they are \<open>usize\<close> and fit while fewer than \<open>2 ^ 64\<close> bytes have been read.
\<close>

theorem csv_reader_total:
  assumes "memchr_spec memchr"
  shows "\<exists>rows reader'. read_rows memchr n ((reader_new source)\<lparr>rd_delimiter := d, rd_flexible := flexible, rd_strip_bom := strip,
      rd_max_record_bytes := max_record, rd_max_field_bytes := max_field, rd_max_columns := max_columns, rd_num_fields := count\<rparr>) = Some (rows, reader') \<and>
    list_all (\<lambda>row. bytes_row_iter row \<noteq> None \<and> bytes_row_to_vec row \<noteq> None \<and> row_to_vec row \<noteq> None \<and> row_iter row \<noteq> None) rows"
proof -
  let ?reader = "(reader_new source)\<lparr>rd_delimiter := d, rd_flexible := flexible, rd_strip_bom := strip,
      rd_max_record_bytes := max_record, rd_max_field_bytes := max_field, rd_max_columns := max_columns, rd_num_fields := count\<rparr>"
  have "reader_ok ?reader" by (simp add: reader_ok_def reader_new_def)
  from read_rows_ok [OF this, of n] obtain rows reader' where "read_rows memchr_ref n ?reader = Some (rows, reader')"
    "list_all (\<lambda>r. \<exists>xs e l. r = row_of xs e l) rows" by blast
  moreover have "bytes_row_iter row \<noteq> None \<and> bytes_row_to_vec row \<noteq> None \<and> row_to_vec row \<noteq> None \<and> row_iter row \<noteq> None"
    if "\<exists>xs e l. row = row_of xs e l" for row
    using that by (auto simp: row_of_fields bytes_row_to_vec_def row_to_vec_def row_iter_def split: option.split)
  ultimately show ?thesis using assms by (auto simp: memchr_spec_iff list_all_iff)
qed

theorem csv_reader_total_witness:
  "\<exists>rows reader'. read_rows memchr_ref 3 ((reader_new [ReadBytes [0x22], ReadFail (read_error_new Io 0 0)])\<lparr>rd_delimiter := 0x2C, rd_flexible := False,
      rd_strip_bom := True, rd_max_record_bytes := Some 1, rd_max_field_bytes := None, rd_max_columns := None, rd_num_fields := None\<rparr>) = Some (rows, reader') \<and>
    list_all (\<lambda>row. bytes_row_iter row \<noteq> None \<and> bytes_row_to_vec row \<noteq> None \<and> row_to_vec row \<noteq> None \<and> row_iter row \<noteq> None) rows"
  by (rule csv_reader_total) (simp add: memchr_spec_iff)

text \<open>
  C6: rows written to a vector and read back, in any chunks, are the rows: for every delimiter, in strict mode when they have
  the same number of fields, in flexible mode always. A row without fields or with one empty field is a blank line and is
  excepted; a text that starts with the bytes of a mark needs a mark of its own or a reader that keeps it.
\<close>

theorem csv_roundtrip:
  assumes "memchr_spec memchr" "\<forall>row \<in> set rows. row \<noteq> [] \<and> row \<noteq> [[]]" "flexible \<or> (\<exists>n. \<forall>row \<in> set rows. length row = n)"
    "writer_set_delimiter (set_write_bom (writer_set_flexible (writer_new []) flexible) bom) d = Some writer"
    "if bom then strip else strip \<longrightarrow> take 3 (concat (map (csv_line d) rows)) \<noteq> BOM"
  shows "\<exists>writer' bytes w. write_rows memchr vec_write vec_flush writer rows = Some (Ok (), writer') \<and> into_inner vec_write vec_flush writer' = Some (Ok bytes, w) \<and>
    (\<forall>chunks n. concat chunks = bytes \<and> [] \<notin> set chunks \<and> length bytes < n \<longrightarrow>
      (\<exists>reader out reader'. reader_set_delimiter (reader_set_strip_bom (reader_set_flexible (reader_new (map ReadBytes chunks)) flexible) strip) d = Some reader \<and>
        read_rows memchr n reader = Some (out, reader') \<and> map bytes_row_to_vec out = map (\<lambda>row. Some (Ok row)) rows))"
proof -
  have m: "memchr = memchr_ref" using assms(1) by (simp add: memchr_spec_iff)
  have d: "valid_delimiter d" and wr: "writer = (writer_new [])\<lparr>ww_flexible := flexible, ww_write_bom := bom, ww_delimiter := d\<rparr>"
    using assms(4) by (auto simp: writer_set_delimiter_def writer_set_flexible_def set_write_bom_def valid_delimiter_def split: if_splits)
  let ?lines = "concat (map (csv_line d) rows)"
  define bytes where "bytes = (if rows \<noteq> [] \<and> bom then BOM else []) @ ?lines"
  have w: "ww_writer writer = Some []" "ww_flexible writer \<or> (\<exists>n. ww_num_fields writer \<in> {None, Some n} \<and> (\<forall>row \<in> set rows. length row = n))"
    using assms(3) by (auto simp: wr writer_new_def)
  obtain writer' v where out: "write_rows memchr vec_write vec_flush writer rows = Some (Ok (), writer')" "ww_writer writer' = Some v" "written (\<lambda>w. w) writer' = bytes"
    using vec.write_rows_output [OF w] unfolding m by (auto simp: written_def pending_bom_def bytes_def wr writer_new_def split: if_splits)
  obtain w' where inner: "into_inner vec_write vec_flush writer' = Some (Ok bytes, w')" using vec.into_inner_output [OF out(2)] out(3) by auto
  have left: "(if strip then strip_bom bytes else bytes) = ?lines"
    using assms(5) by (cases "rows = []") (auto simp: bytes_def strip_bom_def BOM_def split: if_splits)
  have rows: "map (\<lambda>(xs, e, l). (xs, e)) (csv_rows d flexible None 1 ?lines) = map (\<lambda>row. (row, None)) rows"
    using csv_rows_lines [OF d assms(2)] assms(3) by auto
  have read: "\<exists>reader out reader'. reader_set_delimiter (reader_set_strip_bom (reader_set_flexible (reader_new (map ReadBytes chunks)) flexible) strip) d = Some reader \<and>
      read_rows memchr n reader = Some (out, reader') \<and> map bytes_row_to_vec out = map (\<lambda>row. Some (Ok row)) rows"
    if chunks: "concat chunks = bytes" "[] \<notin> set chunks" "length bytes < n" for chunks n
  proof -
    define reader where "reader = (reader_new (map ReadBytes chunks))\<lparr>rd_flexible := flexible, rd_strip_bom := strip, rd_delimiter := d\<rparr>"
    note b = reader_new_between [OF chunks(2) d, where flexible = flexible and strip = strip, folded reader_def, unfolded chunks(1) left]
    have "length ?lines \<le> length bytes" by (simp add: bytes_def)
    then have "length (text_left reader) < n" using chunks(3) b(2) by simp
    from read_rows_between [OF b(1) this] obtain out reader' where o: "read_rows memchr n reader = Some (out, reader')"
      "map row_content out = map (\<lambda>(xs, e, l). (Some xs, e, l)) (csv_rows d flexible None 1 ?lines)"
      unfolding m b(2) by (auto simp: reader_def reader_new_def)
    have "map (\<lambda>row. (bytes_row_iter row, br_error row)) out = map (\<lambda>row. (Some row, None)) rows"
      using arg_cong [OF o(2), of "map (\<lambda>(xs, e, l). (xs, e))"] arg_cong [OF rows, of "map (\<lambda>(xs, e). (Some xs, e))"]
      by (simp add: row_content_def [abs_def] comp_def case_prod_beta)
    from arg_cong [OF this, of "map (\<lambda>(xs, e). case e of Some e \<Rightarrow> Some (Err e) | None \<Rightarrow> map_option Ok xs)"]
    have "map bytes_row_to_vec out = map (\<lambda>row. Some (Ok row)) rows" by (simp add: comp_def bytes_row_to_vec_def [abs_def])
    then show ?thesis using o(1) d by (simp add: reader_set_delimiter_def reader_set_flexible_def reader_set_strip_bom_def reader_def)
  qed
  show ?thesis using out(1) inner read by blast
qed

theorem csv_roundtrip_witness:
  "(\<exists>writer' w. write_rows memchr_ref vec_write vec_flush (writer_new []) [[[0x61], [0x2C, 0x22]], [[], []]] = Some (Ok (), writer') \<and>
     into_inner vec_write vec_flush writer' = Some (Ok [0x61, 0x2C, 0x22, 0x2C, 0x22, 0x22, 0x22, 0x0D, 0x0A, 0x2C, 0x0D, 0x0A], w)) \<and>
   (\<exists>out reader'. read_rows memchr_ref 20 (reader_new [ReadBytes [0x61, 0x2C, 0x22, 0x2C, 0x22], ReadBytes [0x22, 0x22, 0x0D, 0x0A, 0x2C, 0x0D, 0x0A]]) =
      Some (out, reader') \<and> map bytes_row_to_vec out = [Some (Ok [[0x61], [0x2C, 0x22]]), Some (Ok [[], []])])"
proof -
  let ?rows = "[[[0x61], [0x2C, 0x22]], [[], []]] :: byte list list list" and ?bytes = "[0x61, 0x2C, 0x22, 0x2C, 0x22, 0x22, 0x22, 0x0D, 0x0A, 0x2C, 0x0D, 0x0A] :: byte list"
  let ?chunks = "[[0x61, 0x2C, 0x22, 0x2C, 0x22], [0x22, 0x22, 0x0D, 0x0A, 0x2C, 0x0D, 0x0A]] :: byte list list"
  have set: "writer_set_delimiter (set_write_bom (writer_set_flexible (writer_new []) False) False) 0x2C = Some (writer_new [] :: byte list csv_writer)"
    "reader_set_delimiter (reader_set_strip_bom (reader_set_flexible (reader_new (map ReadBytes ?chunks)) False) True) 0x2C = Some (reader_new (map ReadBytes ?chunks))"
    by (code_simp, code_simp)
  have bom: "take 3 (concat (map (csv_line 0x2C) ?rows)) \<noteq> BOM" by code_simp
  have eval: "Option.bind (write_rows memchr_ref vec_write vec_flush (writer_new []) ?rows) (\<lambda>(r, writer'). map_option fst (into_inner vec_write vec_flush writer')) =
      Some (Ok ?bytes)" by code_simp
  obtain writer' bytes w where w: "write_rows memchr_ref vec_write vec_flush (writer_new []) ?rows = Some (Ok (), writer')"
    "into_inner vec_write vec_flush writer' = Some (Ok bytes, w)"
    and read: "\<forall>chunks n. concat chunks = bytes \<and> [] \<notin> set chunks \<and> length bytes < n \<longrightarrow>
      (\<exists>reader out reader'. reader_set_delimiter (reader_set_strip_bom (reader_set_flexible (reader_new (map ReadBytes chunks)) False) True) 0x2C = Some reader \<and>
        read_rows memchr_ref n reader = Some (out, reader') \<and> map bytes_row_to_vec out = map (\<lambda>row. Some (Ok row)) ?rows)"
    using csv_roundtrip [OF _ _ _ set(1), of memchr_ref ?rows True] bom by (simp add: memchr_spec_iff) blast
  have "bytes = ?bytes" using eval unfolding w(1) by (simp add: w(2))
  note bytes = w [unfolded this] read [unfolded this, rule_format, of ?chunks 20]
  have "\<exists>out reader'. read_rows memchr_ref 20 (reader_new (map ReadBytes ?chunks)) = Some (out, reader') \<and> map bytes_row_to_vec out = map (\<lambda>row. Some (Ok row)) ?rows"
    using bytes(3) unfolding set(2) by simp
  then show ?thesis using bytes(1,2) by (intro conjI) (blast, simp)
qed

text \<open>
  A row that fits is appended to the output as its line, after the mark when that is due; in strict mode a row with
  another number of fields is refused, with nothing of it in the output.
\<close>

lemma csv_write_row_correct:
  assumes "memchr_spec memchr" "ww_writer self = Some w"
  shows "if row_fits self row
    then \<exists>self'. write_row memchr vec_write vec_flush self row = Some (Ok (), self') \<and>
      written (\<lambda>w. w) self' = written (\<lambda>w. w) self @ pending_bom self @ csv_line (ww_delimiter self) row \<and> ww_row_count self' = ww_row_count self + 1
    else \<exists>n. ww_num_fields self = Some n \<and> n \<noteq> length row \<and> write_row memchr vec_write vec_flush self row =
      Some (Err (WriteInconsistentFieldCount n (length row) (ww_row_count self + 1)), write_pending_bom self)"
proof (cases "row_fits self row")
  case True
  have m: "memchr = memchr_ref" using assms(1) by (simp add: memchr_spec_iff)
  from vec.write_row_output [OF assms(2) True] show ?thesis using True unfolding m by (fastforce simp: written_def)
next
  case False
  then obtain n where n: "ww_num_fields self = Some n" "n \<noteq> length row" "\<not> ww_flexible self" by (auto simp: row_fits_def)
  have m: "memchr = memchr_ref" using assms(1) by (simp add: memchr_spec_iff)
  define base where "base = write_pending_bom self"
  have b: "ww_flexible base = ww_flexible self" "ww_num_fields base = ww_num_fields self" "ww_row_count base = ww_row_count self"
    by (simp_all add: base_def write_pending_bom_def)
  have "write_row memchr vec_write vec_flush self row = Some (Err (WriteInconsistentFieldCount n (length row) (ww_row_count self + 1)), base)"
    using n b unfolding m write_row_def base_def [symmetric] Let_def write_fields_text by simp
  then show ?thesis using False n by (simp add: base_def)
qed

end
