(* ===== verification/Spec2Isabelle.thy ===== *)
theory Spec2Isabelle
  imports Stdx_Prelude Hex Base64 Base32 Crc32 Semver Form_Urlencoded Uuid Ip_Network Date_Roundtrip Csv_Roundtrip
begin

text \<open>
  A verification library for stdx, a workspace of Rust crates that extend the standard library.
  The crates are libraries without a main program; what they share is the way they use the standard
  library and, in a few places, each other. The development models the crates whose code is pure
  computation on bytes, machine integers and text, one theory per crate (two to four where the crate
  has several parts), and states for each what its documentation and its tests promise.

  \<^bold>\<open>Conventions.\<close> A byte is an \<open>8 word\<close>, a \<open>u32\<close> a \<open>32 word\<close>, a slice or a \<open>Vec\<close> a list, a
  \<open>str\<close> the list of its UTF-8 bytes, a \<open>struct\<close> a record and an \<open>enum\<close> a datatype; a
  \<open>Result\<close> is the sum type \<open>('e, 'a) result\<close> with \<open>Ok\<close> and \<open>Err\<close>. A panic (an index out of
  range, an arithmetic overflow, a failed assertion, an \<open>unwrap\<close>) is \<open>None\<close> of an outer option,
  so an equation \<open>f x = Some y\<close> also says that the code does not panic. A routine that writes into a
  buffer of the caller returns the buffer with its result. \<open>usize\<close> has 64 bits. Constants, functions
  and constructors carry the crate's name as a prefix where two crates use the same name. What the code
  takes from the operating system or from another package (a clock, random bytes, an encoding) is an
  argument. The model is the portable build: the variants with SIMD instructions that the crates
  select at run time compute the same functions with intrinsics and are not modelled.

  \<^bold>\<open>Shared theories.\<close>
  \<^item> \<open>Stdx_Prelude\<close>: the types above, checked arithmetic, ASCII literals, evaluation of statements
    over all bytes, slices with bounds checks, the bounded loop \<open>while_upto\<close> with its termination
    proof, and two contracts: \<open>block_codec\<close> (a codec that works in blocks, wide blocks first, equals its
    specification) and \<open>streaming\<close> (feeding chunks equals feeding their concatenation).
  \<^item> \<open>Rust_Str\<close>: searching, splitting and joining, decimal numbers with their overflow check, UTF-8
    validation and lossy decoding, \<open>Ordering\<close> with the contract \<open>total_cmp\<close> of \<open>Ord\<close>.
  \<^item> \<open>Net_Addr\<close>: \<open>Ipv4Addr\<close> and \<open>Ipv6Addr\<close> of the standard library with \<open>Display\<close> and
    \<open>FromStr\<close>, and that reading a printed address gives it back.

  \<^bold>\<open>hex\<close> (\<open>src/hex\<close>, theory \<open>Hex\<close>). The constant-time digit conversions, the encoder and decoder
  loops (16 bytes or 32 digits at a time, then one byte) on buffers, arrays and strings. Encoding
  writes the two digits of each byte; decoding accepts exactly the even-length texts of hexadecimal
  digits and otherwise names the error; the two are inverse. Both loops are instances of
  \<open>block_codec\<close>.

  \<^bold>\<open>base64\<close> (\<open>src/base64\<close>, theory \<open>Base64\<close>). All four alphabets, padding, the constant-time
  conversions, the block loops, the handling of the last group. The encoder equals the textbook
  definition; the decoder accepts exactly the encodings (with the padding it tolerates) and every
  rejection has its cause; lengths and overflow; round trip.

  \<^bold>\<open>base32\<close> (\<open>src/base32\<close>, theory \<open>Base32\<close>). The same for the six alphabets of base32, with the
  test for unused trailing bits.

  \<^bold>\<open>crc32\<close> (\<open>src/crc32\<close>, theories \<open>Crc32_Table\<close> and \<open>Crc32\<close>). The sixteen tables as they stand in
  the source, the byte-wise and the slicing-by-16 update, the combination of two checksums through
  matrices over GF(2), and the hasher. The tables are the powers of the polynomial; both updates equal
  the bit-wise definition; combining the checksums of two parts is the checksum of their concatenation;
  the hasher is an instance of \<open>streaming\<close>, and its count of the bytes overflows, a panic, at \<open>2 ^ 64\<close>.

  \<^bold>\<open>semver\<close> (\<open>src/semver\<close>, theory \<open>Semver\<close>). Parsing, printing and precedence of versions. The parser
  accepts exactly what is printed for well-formed versions; the errors of the numbers; the precedence is
  an instance of \<open>total_cmp\<close>.

  \<^bold>\<open>percent_encoding\<close> and \<open>form_urlencoded\<close> (\<open>src/percent_encoding\<close>, \<open>src/form_urlencoded\<close>,
  theories \<open>Percent_Encoding\<close> and \<open>Form_Urlencoded\<close>). ASCII sets as bit masks, the encoding and
  decoding iterators with their borrowed and owned results, the form parser and the form serializer with
  its target. The bit masks refine sets; decoding an encoded text gives it back; only bytes of the set are
  escaped; a serialized form parses to its pairs; a finished serializer panics. The contracts are
  \<open>run_encoder\<close> and \<open>run_codec\<close>, which both crates are interpreted in.

  \<^bold>\<open>uuid\<close> (\<open>src/uuid\<close>, theory \<open>Uuid\<close>). Parsing, printing, the integer form, version and timestamp, the
  generators of versions 4 and 7. The state of the version 7 generator is passed explicitly and its
  calls form the inductive relation \<open>v7_trace\<close>, over any sequence of clock readings and random bytes: the
  UUIDs of a trace are strictly increasing.

  \<^bold>\<open>ipnetwork\<close> (\<open>src/ipnetwork\<close>, theories \<open>Cidr\<close>, \<open>Ipv4_Network\<close>, \<open>Ipv6_Network\<close>, \<open>Ip_Network\<close>).
  \<open>Cidr\<close> has the errors, the CIDR text, the set of addresses \<open>cidr_block\<close> as the specification, and the
  contracts \<open>cidr_network\<close> (mask, membership, relations) and \<open>range_iterator\<close> (the iterator); the two
  address families are interpretations of both, and \<open>Ip_Network\<close> dispatches over them. Membership is
  agreement in the prefix bits; masks and prefixes determine each other; the iterator ends after every
  address, with the exceptions stated there; every constructor keeps the prefix in range; printing
  and parsing are inverse. Three lemmas at its end show where the code departs from its documentation.

  \<^bold>\<open>time\<close> (\<open>src/time\<close>, theories \<open>Civil\<close>, \<open>Posix_Tz\<close>, \<open>Zone_Table\<close>, \<open>Tzif\<close>, \<open>Tzdb\<close>, \<open>Time_Zone\<close>,
  \<open>Date_Time\<close>, \<open>Date_Format\<close>, \<open>Date_Parse\<close>, \<open>Date_Roundtrip\<close>). \<open>Civil\<close> is the calendar: dates and day numbers are inverse, weeks follow ISO 8601. \<open>Posix_Tz\<close>
  reads and evaluates the rules of daylight saving time. A zone comes from a TZif file (\<open>Tzif\<close>) or from the
  embedded database (\<open>Tzdb\<close>, whose generated table is a parameter); both are interpretations of the contract
  \<open>transition_table\<close> of \<open>Zone_Table\<close>, in which the offsets around a wall-clock time are analysed once.
  \<open>Time_Zone\<close> resolves wall-clock times: with \<open>shows_at\<close>, the set of instants at which the clocks of a zone show a
  time, as the specification, a time that is shown once, twice or never is classified as such and resolved by
  the disambiguation. This is stated for times with at most one transition within 52 hours (\<open>zone_calm\<close>; twice
  the largest offset) and for tables whose rule for the future agrees with the last transition (\<open>zone_settled\<close>);
  lemma \<open>two_moves_gap\<close> shows that the first condition is needed. \<open>Date_Time\<close> has the values: an invariant that the
  constructors, the conversions and the operations keep (the operators panic exactly outside the range), fields and instants that determine each other, exact arithmetic with durations
  and on the calendar, the order (an instance of \<open>total_cmp\<close>). Instants are bounded by the years -9999 to 9999;
  lookups are total up to 2^44 seconds from the epoch, far outside them. The clocks are arguments.
  \<open>Date_Format\<close> has the two paths of the formatter, into a buffer and through \<open>core::fmt\<close>, which write the same text in
  seven formats for years of four digits; \<open>Date_Parse\<close> has the parsers, which return on every input and only well-formed values; \<open>Date_Roundtrip\<close>
  joins them: a printed value reads back, and each strict parser reads what its format writes.

  \<^bold>\<open>csv\<close> (\<open>src/csv\<close>, theories \<open>Csv_Reader\<close>, \<open>Csv_Safe\<close>, \<open>Csv_Correct\<close>, \<open>Csv_Steps\<close>, \<open>Csv_Rows\<close>,
  \<open>Csv_Writer\<close>, \<open>Csv_Roundtrip\<close>). The reader is a state machine over a buffer that any sequence of reads fills; a round of its loop
  is \<open>row_step\<close>. \<open>Csv_Safe\<close> has its invariant, under which no index and no subtraction fails, for every source
  and all limits. The specification \<open>csv_record\<close> reads a whole text byte by byte; \<open>will_read\<close> abstracts a
  state of the reader to what the specification reads from there, every round keeps or returns it (\<open>Csv_Steps\<close>), so that the rows do not depend on how
  the text is cut into reads (\<open>Csv_Rows\<close>). The writer works on any sink; with the contract \<open>csv_sink\<close> of a sink that takes
  everything, interpreted on \<open>Vec\<close>, what it writes is the text of the rows, and reading it gives the rows back. The search of the package memchr is
  a parameter, with its documented result as the hypothesis \<open>memchr_spec\<close>. Positions and counters are natural
  numbers; they are bounded by the number of bytes read or written. Five lemmas show where the code departs from its documentation.

  \<^bold>\<open>Loops and fuel.\<close> No definition uses fuel: every loop of the modelled code is a structural recursion or
  a function with a termination proof (the distance of an index to its bound, the length of what is left of
  the input, the reads left of a source, the bits left of a number, the distance of an iterator to the largest address, the interval of a binary
  search).

  \<^bold>\<open>Not modelled.\<close> The SIMD variants of the codecs and of CRC-32; the implementations of serde, schemars
  and other third-party traits; constant time as such (the constant-time code is modelled for what it
  computes); the detection of the system time zone and the generator of the zone database (files and
  environment). Of the other crates: clients, sockets, files, system calls and asynchronous tasks (acme,
  docker, postgresql, s3, net, errgroup and others) are input and output around third-party
  packages; bel's parser and tzdb_data are generated; unsafe_libyaml, serde_yaml, indexmap, anyerr and
  thiserror are vendored. crypto and big_number are mostly intrinsics and constant-time arithmetic.

  \<^bold>\<open>Plan.\<close> The pure crates cron, getopts, html_escape,
  media_type, xxhash and small_collections.
\<close>

end
